(* ===== verification/Prelude.thy ===== *)
theory Prelude
  imports Main "HOL-Library.Word" "HOL-Library.Monad_Syntax"
begin

text \<open>
  Shared vocabulary of the development: the integer types of include/mgtype.h as fixed-width
  words, the byte-addressed memory that the C++ code reads and writes through pointers, the
  collections of simplification rules the component theories extend, and generic lemmas on
  words, options and lists.

  Conventions used by every component theory:
  \<^item> \<open>u8\<close>, \<open>u16\<close>, \<open>u32\<close>, \<open>u64\<close> are \<open>_u8\<close>, \<open>_u16\<close>, \<open>_u32\<close>, \<open>_u64\<close>; \<open>+\<close>, \<open>-\<close>, \<open>*\<close> on
    them wrap around as the unsigned types of the source do;
  \<^item> a pointer is a natural number, and \<open>0\<close> is the null pointer;
  \<^item> a function whose C++ body can dereference a null or dangling pointer, or loop forever,
    returns an \<open>option\<close>, and \<open>None\<close> is that undefined outcome.
\<close>

section \<open>Integer types and memory\<close>

unbundle bit_operations_syntax

type_synonym u8 = "8 word"
type_synonym u16 = "16 word"
type_synonym u32 = "32 word"
type_synonym u64 = "64 word"

type_synonym ptr = nat
type_synonym mem = "nat \<Rightarrow> u8"

abbreviation (input) NULL :: ptr where
  "NULL \<equiv> 0"

section \<open>Rule collections\<close>

named_theorems state_simps \<open>projections of the operations of a component\<close>
named_theorems inv_intros \<open>preservation of a component's invariant\<close>

section \<open>Words\<close>

lemma unat_Suc_u32: "unat (i :: u32) < n \<Longrightarrow> n < 2 ^ 32 \<Longrightarrow> unat (i + 1) = unat i + 1"
  by (simp add: unat_word_ariths)

lemma unat_of_nat_u32 [simp]: "n < 2 ^ 32 \<Longrightarrow> unat (word_of_nat n :: u32) = n"
  by (simp add: unat_of_nat take_bit_nat_eq_self)

lemma unat_u32_lt: "unat (x :: u32) < 2 ^ 32"
  using unsigned_less [of x] by simp

lemma unat_inc_u32: "unat (x :: u32) + 1 < 2 ^ 32 \<Longrightarrow> unat (x + 1) = unat x + 1"
  by (simp add: unat_word_ariths)

lemma unat_dec_u32: "0 < unat (x :: u32) \<Longrightarrow> unat (x - 1) = unat x - 1"
  by (metis less_irrefl unat_0 unat_minus_one)

lemma u32_pred_less:
  assumes "index < (i :: u32)"
  shows "unat (i - 1) = unat i - 1" and "\<not> i - 1 < index" and "unat index \<le> unat (i - 1)"
proof -
  from assms have lt: "unat index < unat i" by (simp add: word_less_nat_alt)
  then show 1: "unat (i - 1) = unat i - 1" by (simp add: unat_dec_u32)
  with lt show "unat index \<le> unat (i - 1)" "\<not> i - 1 < index" by (simp_all add: word_less_nat_alt)
qed

lemma u32_succ_less: "i < (index :: u32) \<Longrightarrow> unat (i + 1) = unat i + 1"
  using unat_u32_lt [of index] by (intro unat_inc_u32) (simp add: word_less_nat_alt)

lemma unat_eq_1_u32: "unat (x :: u32) = 1 \<longleftrightarrow> x = 1"
  by (metis unat_1 word_unat_eq_iff)

lemma word_of_nat_unat [simp]: "word_of_nat (unat w) = (w :: 'a::len word)"
  by (rule word_unat_eq_iff [THEN iffD2]) (simp add: unat_of_nat take_bit_nat_eq_self unsigned_less)

lemma of_nat_Suc_word: "word_of_nat n + 1 = (word_of_nat (Suc n) :: 'a::len word)"
  by simp

lemma unat_max_u32: "unat (- 1 :: u32) = 0xffffffff"
  by (simp add: unsigned_minus_1_eq_mask mask_eq_exp_minus_1)

text \<open>Conversions between widths.\<close>

lemma unat_up:
  "unat (ucast (x :: u16) :: u32) = unat x" "unat (ucast (x :: u16) :: u64) = unat x" "unat (ucast (y :: u32) :: u64) = unat y"
  by (simp_all add: unsigned_ucast_eq take_bit_nat_eq_self less_le_trans [OF unsigned_less])

lemma unat_down: "unat (x :: u64) < 2 ^ 32 \<Longrightarrow> unat (ucast x :: u32) = unat x"
  by (simp add: unsigned_ucast_eq take_bit_nat_eq_self)

lemma ucast_up_down: "ucast (ucast (x :: u32) :: u64) = x"
  using unat_u32_lt [of x] by (simp add: word_unat_eq_iff unat_up unat_down)

lemma sint_eq_iff: "sint a = sint b \<longleftrightarrow> a = (b :: 'a::len word)"
  by (auto intro: signed_word_eqI)

section \<open>Options\<close>

lemma bind_eq_Some_conv':
  "Option.bind x f = Some z \<longleftrightarrow> (\<exists>y. x = Some y \<and> f y = Some z)"
  by (cases x) auto

end
