(* ===== verification/Mutex.thy ===== *)
theory Mutex
  imports Prelude
begin

text \<open>
  The kernel's recursive spin lock: core/sync/mutex_api.cpp and its class wrapper
  core/sync/mutex.cpp (cMutex), the provider of the interface iMutex.

  The first part translates the four functions of the API on one \<open>_mutex_t\<close>; a caller is
  identified by the handle that the function returned to it, which holds the acquisition number
  and the low half of the mutex's address. The second part splits the two functions into
  their accesses to the shared words, runs any number of threads over them, and proves mutual
  exclusion for callers that pass no handle but the one they hold.
\<close>

section \<open>The functions of mutex_api.cpp\<close>

record mutex =
  lock_count :: u32
  handle_count :: u32
  lock_flag :: u32

definition LOCK_MAGIC :: u32 where
  "LOCK_MAGIC = 0xdd7799cc"

definition UNLOCK_MAGIC :: u32 where
  "UNLOCK_MAGIC = 0x82df317d"

definition MUTEX_TIMEOUT_INFINITE :: u32 where
  "MUTEX_TIMEOUT_INFINITE = 0xffffffff"

definition MF_TIMEOUT_RESET :: u8 where
  "MF_TIMEOUT_RESET = 1"

definition MF_TIMEOUT_RESET_WITH_HANDLE :: u8 where
  "MF_TIMEOUT_RESET_WITH_HANDLE = 2"

text \<open>\<open>GET_HANDLE(mutex)\<close>: the acquisition number in the high half, the low half of the
  mutex's own address \<open>a\<close> in the low half.\<close>

definition GET_HANDLE :: "u64 \<Rightarrow> u32 \<Rightarrow> u64" where
  "GET_HANDLE a hc = push_bit 32 (ucast hc) OR ucast (ucast a :: u32)"

definition mutex_try_lock :: "u64 \<Rightarrow> mutex \<Rightarrow> u64 \<Rightarrow> u64 \<times> mutex" where
  "mutex_try_lock a m hm =
     (if hm \<noteq> GET_HANDLE a (handle_count m) then
        let rlock = lock_flag m; m1 = m\<lparr>lock_flag := LOCK_MAGIC\<rparr>
        in if rlock = UNLOCK_MAGIC then
             let m2 = m1\<lparr>lock_count := 1, handle_count := handle_count m1 + 1\<rparr>
             in (GET_HANDLE a (handle_count m2), m2)
           else (0, m1)
      else (hm, m\<lparr>lock_count := lock_count m + 1\<rparr>))"

definition mutex_reset :: "mutex \<Rightarrow> mutex" where
  "mutex_reset m = m\<lparr>lock_count := 0, lock_flag := UNLOCK_MAGIC, handle_count := 0\<rparr>"

definition mutex_unlock :: "u64 \<Rightarrow> mutex \<Rightarrow> u64 \<Rightarrow> mutex" where
  "mutex_unlock a m hm =
     (if hm = GET_HANDLE a (handle_count m) then
        let m1 = (if lock_count m \<noteq> 0 then m\<lparr>lock_count := lock_count m - 1\<rparr> else m)
        in if lock_count m1 = 0 then m1\<lparr>lock_flag := UNLOCK_MAGIC\<rparr> else m1
      else m)"

text \<open>The spinning loop of \<open>mutex_lock\<close>, for a caller that runs alone. The third component
  of the result is the remaining timeout.\<close>

partial_function (option) mutex_lock_loop ::
    "u64 \<Rightarrow> mutex \<Rightarrow> u64 \<Rightarrow> u32 \<Rightarrow> u32 \<Rightarrow> (u64 \<times> mutex \<times> u32) option" where
  "mutex_lock_loop a m hm timeout t =
     (if t \<noteq> 0 then
        (case mutex_try_lock a m hm of (r, m') \<Rightarrow>
           if r \<noteq> 0 then Some (r, m', t)
           else mutex_lock_loop a m' hm timeout
                  (if timeout \<noteq> MUTEX_TIMEOUT_INFINITE then t - 1 else t))
      else Some (0, m, 0))"

definition mutex_lock :: "u64 \<Rightarrow> mutex \<Rightarrow> u64 \<Rightarrow> u32 \<Rightarrow> u8 \<Rightarrow> (u64 \<times> mutex) option" where
  "mutex_lock a m hm timeout flags =
     do {
       (r, m1, t) \<leftarrow> mutex_lock_loop a m hm timeout (if timeout \<noteq> 0 then timeout else 1);
       Some (if t = 0 then
               let m2 = (if flags AND (MF_TIMEOUT_RESET OR MF_TIMEOUT_RESET_WITH_HANDLE) \<noteq> 0
                         then mutex_reset m1 else m1);
                   r2 = (if flags AND MF_TIMEOUT_RESET_WITH_HANDLE \<noteq> 0
                         then GET_HANDLE a (handle_count m2) else r)
               in (r2, m2)
             else (r, m1))
     }"


section \<open>The class cMutex\<close>

text \<open>The object holds its \<open>_mutex_t\<close>; \<open>m_addr\<close> is the address of that member.\<close>

record cmutex =
  m_addr :: u64
  m_mutex :: mutex

definition cMutex_init :: "cmutex \<Rightarrow> cmutex" where
  "cMutex_init c = c\<lparr>m_mutex := mutex_reset (m_mutex c)\<rparr>"

definition cMutex_try_lock :: "cmutex \<Rightarrow> u64 \<Rightarrow> u64 \<times> cmutex" where
  "cMutex_try_lock c hm =
     (case mutex_try_lock (m_addr c) (m_mutex c) hm of (r, m) \<Rightarrow> (r, c\<lparr>m_mutex := m\<rparr>))"

definition cMutex_lock :: "cmutex \<Rightarrow> u64 \<Rightarrow> u32 \<Rightarrow> u8 \<Rightarrow> (u64 \<times> cmutex) option" where
  "cMutex_lock c hm timeout flags =
     map_option (\<lambda>(r, m). (r, c\<lparr>m_mutex := m\<rparr>))
       (mutex_lock (m_addr c) (m_mutex c) hm timeout flags)"

definition cMutex_unlock :: "cmutex \<Rightarrow> u64 \<Rightarrow> cmutex" where
  "cMutex_unlock c hm = c\<lparr>m_mutex := mutex_unlock (m_addr c) (m_mutex c) hm\<rparr>"

section \<open>Handles\<close>

lemma GET_HANDLE_low: "ucast (GET_HANDLE a hc) = (ucast a :: u32)"
  unfolding GET_HANDLE_def
  by (simp add: bit_eq_iff bit_simps)

lemma GET_HANDLE_high: "ucast (drop_bit 32 (GET_HANDLE a hc)) = hc"
  unfolding GET_HANDLE_def
  by (rule bit_word_eqI) (auto simp add: bit_simps)

lemma GET_HANDLE_nonzero: "(ucast a :: u32) \<noteq> 0 \<Longrightarrow> GET_HANDLE a hc \<noteq> 0"
  using GET_HANDLE_low [of a hc] by (metis ucast_0)

lemma GET_HANDLE_inj [simp]: "GET_HANDLE a x = GET_HANDLE a y \<longleftrightarrow> x = y"
  by (metis GET_HANDLE_high)

lemma magic_distinct [simp]: "LOCK_MAGIC \<noteq> UNLOCK_MAGIC" "UNLOCK_MAGIC \<noteq> LOCK_MAGIC"
  by (simp_all add: LOCK_MAGIC_def UNLOCK_MAGIC_def)

section \<open>One caller at a time\<close>

lemma try_lock_free:
  "hm \<noteq> GET_HANDLE a (handle_count m) \<Longrightarrow> lock_flag m = UNLOCK_MAGIC \<Longrightarrow>
   mutex_try_lock a m hm = (GET_HANDLE a (handle_count m + 1),
     m\<lparr>lock_count := 1, handle_count := handle_count m + 1, lock_flag := LOCK_MAGIC\<rparr>)"
  by (simp add: mutex_try_lock_def)

lemma try_lock_busy:
  "hm \<noteq> GET_HANDLE a (handle_count m) \<Longrightarrow> lock_flag m \<noteq> UNLOCK_MAGIC \<Longrightarrow>
   mutex_try_lock a m hm = (0, m\<lparr>lock_flag := LOCK_MAGIC\<rparr>)"
  by (simp add: mutex_try_lock_def)

lemma try_lock_held:
  "hm = GET_HANDLE a (handle_count m) \<Longrightarrow>
   mutex_try_lock a m hm = (hm, m\<lparr>lock_count := lock_count m + 1\<rparr>)"
  by (simp add: mutex_try_lock_def)

lemmas try_lock_cases = try_lock_free try_lock_busy try_lock_held

lemma try_lock_fails_again:
  assumes "(ucast a :: u32) \<noteq> 0" and "mutex_try_lock a m hm = (0, m')"
  shows "mutex_try_lock a m' hm = (0, m')"
  using assms GET_HANDLE_nonzero [OF assms(1)]
  by (auto simp: mutex_try_lock_def Let_def split: if_splits)

lemma lock_loop_success:
  "t \<noteq> 0 \<Longrightarrow> mutex_try_lock a m hm = (r, m') \<Longrightarrow> r \<noteq> 0 \<Longrightarrow>
   mutex_lock_loop a m hm timeout t = Some (r, m', t)"
  by (subst mutex_lock_loop.simps) simp

lemma lock_loop_finite:
  assumes "timeout \<noteq> MUTEX_TIMEOUT_INFINITE"
  shows "\<exists>res. mutex_lock_loop a m hm timeout t = Some res"
proof (induction "unat t" arbitrary: t m)
  case 0
  then have "t = 0" by (simp add: unat_eq_zero)
  then show ?case by (subst mutex_lock_loop.simps) simp
next
  case (Suc n)
  then have t: "t \<noteq> 0" by auto
  with Suc(2) have "n = unat (t - 1)" by (simp add: unat_minus_one)
  from Suc(1) [OF this] have IH: "\<And>m. \<exists>res. mutex_lock_loop a m hm timeout (t - 1) = Some res" .
  obtain r m' where rm: "mutex_try_lock a m hm = (r, m')" by fastforce
  show ?case
    using t assms rm IH [of m'] by (subst mutex_lock_loop.simps) auto
qed

text \<open>A caller that passes the infinite timeout and finds the lock taken by someone else never
  returns unless another thread writes the mutex.\<close>

lemma lock_loop_infinite_returns:
  assumes ret: "mutex_lock_loop a m hm timeout t = Some res"
  shows "(ucast a :: u32) \<noteq> 0 \<longrightarrow> timeout = MUTEX_TIMEOUT_INFINITE \<longrightarrow> t \<noteq> 0 \<longrightarrow>
           fst (mutex_try_lock a m hm) \<noteq> 0"
proof (rule mutex_lock_loop.raw_induct
    [where P = "\<lambda>a m hm timeout t res. (ucast a :: u32) \<noteq> 0 \<longrightarrow>
        timeout = MUTEX_TIMEOUT_INFINITE \<longrightarrow> t \<noteq> 0 \<longrightarrow> fst (mutex_try_lock a m hm) \<noteq> 0", OF _ ret])
  fix f :: "u64 \<Rightarrow> mutex \<Rightarrow> u64 \<Rightarrow> u32 \<Rightarrow> u32 \<Rightarrow> (u64 \<times> mutex \<times> u32) option"
    and a m hm timeout t y
  assume IH: "\<And>a m hm timeout t y. f a m hm timeout t = Some y \<Longrightarrow>
      (ucast a :: u32) \<noteq> 0 \<longrightarrow> timeout = MUTEX_TIMEOUT_INFINITE \<longrightarrow> t \<noteq> 0 \<longrightarrow>
        fst (mutex_try_lock a m hm) \<noteq> 0"
    and eq: "(if t \<noteq> 0 then
        (case mutex_try_lock a m hm of (r, m') \<Rightarrow>
           if r \<noteq> 0 then Some (r, m', t)
           else f a m' hm timeout (if timeout \<noteq> MUTEX_TIMEOUT_INFINITE then t - 1 else t))
      else Some (0, m, 0)) = Some y"
  obtain r m' where rm: "mutex_try_lock a m hm = (r, m')" by fastforce
  show "(ucast a :: u32) \<noteq> 0 \<longrightarrow> timeout = MUTEX_TIMEOUT_INFINITE \<longrightarrow> t \<noteq> 0 \<longrightarrow>
        fst (mutex_try_lock a m hm) \<noteq> 0"
  proof (intro impI)
    assume nz: "(ucast a :: u32) \<noteq> 0" and inf: "timeout = MUTEX_TIMEOUT_INFINITE" and t: "t \<noteq> 0"
    show "fst (mutex_try_lock a m hm) \<noteq> 0"
    proof (rule ccontr)
      assume "\<not> ?thesis"
      with rm have r0: "r = 0" by simp
      with eq rm t inf have "f a m' hm timeout t = Some y" by simp
      from IH [OF this] nz inf t have "fst (mutex_try_lock a m' hm) \<noteq> 0" by simp
      with try_lock_fails_again [OF nz, of m hm m'] rm r0 show False by simp
    qed
  qed
qed

section \<open>The interface iMutex\<close>

text \<open>What the clients of iMutex rely on: \<open>free m\<close> is an unlocked mutex, \<open>held m h n\<close> one that
  the owner of handle \<open>h\<close> has locked \<open>n\<close> times. An acquisition by handle nests, and the last
  release frees the mutex.\<close>

locale recursive_lock =
  fixes acquire :: "'m \<Rightarrow> u64 \<Rightarrow> (u64 \<times> 'm) option"
    and release :: "'m \<Rightarrow> u64 \<Rightarrow> 'm"
    and free :: "'m \<Rightarrow> bool"
    and held :: "'m \<Rightarrow> u64 \<Rightarrow> nat \<Rightarrow> bool"
  assumes acquire_free: "free m \<Longrightarrow> \<exists>h m'. acquire m 0 = Some (h, m') \<and> h \<noteq> 0 \<and> held m' h 1"
    and acquire_held: "held m h n \<Longrightarrow> n + 1 < 2 ^ 32 \<Longrightarrow>
      \<exists>m'. acquire m h = Some (h, m') \<and> held m' h (n + 1)"
    and release_nested: "held m h (Suc (Suc n)) \<Longrightarrow> held (release m h) h (Suc n)"
    and release_last: "held m h 1 \<Longrightarrow> free (release m h)"
begin

lemma bracket_free:
  "free m \<Longrightarrow> \<exists>h m'. acquire m 0 = Some (h, m') \<and> free (release m' h)"
  using acquire_free release_last by blast

lemma bracket_held:
  assumes "held m h (Suc n)" and "Suc (Suc n) < 2 ^ 32"
  shows "\<exists>m'. acquire m h = Some (h, m') \<and> held (release m' h) h (Suc n)"
  using acquire_held [OF assms(1)] assms(2) release_nested by fastforce

fun release_times :: "nat \<Rightarrow> 'm \<Rightarrow> u64 \<Rightarrow> 'm" where
  "release_times 0 m h = m"
| "release_times (Suc k) m h = release_times k (release m h) h"

lemma release_all: "held m h (Suc n) \<Longrightarrow> free (release_times (Suc n) m h)"
proof (induction n arbitrary: m)
  case 0
  then show ?case by (simp add: release_last)
next
  case (Suc n)
  from release_nested [OF Suc.prems] show ?case
    using Suc.IH by simp
qed

lemma release_some: "held m h (Suc (n + k)) \<Longrightarrow> held (release_times k m h) h (Suc n)"
proof (induction k arbitrary: m)
  case (Suc k)
  then have "held (release m h) h (Suc (n + k))" by (intro release_nested) simp
  then show ?case using Suc.IH by simp
qed simp

end

definition cMutex_free :: "cmutex \<Rightarrow> bool" where
  "cMutex_free c \<longleftrightarrow> (ucast (m_addr c) :: u32) \<noteq> 0 \<and> lock_flag (m_mutex c) = UNLOCK_MAGIC"

definition cMutex_held :: "cmutex \<Rightarrow> u64 \<Rightarrow> nat \<Rightarrow> bool" where
  "cMutex_held c h n \<longleftrightarrow> (ucast (m_addr c) :: u32) \<noteq> 0 \<and> lock_flag (m_mutex c) = LOCK_MAGIC \<and>
     h = GET_HANDLE (m_addr c) (handle_count (m_mutex c)) \<and>
     unat (lock_count (m_mutex c)) = n \<and> 0 < n"

lemma mutex_lock_first_try:
  "mutex_try_lock a m hm = (r, m') \<Longrightarrow> r \<noteq> 0 \<Longrightarrow> mutex_lock a m hm timeout flags = Some (r, m')"
  by (simp add: mutex_lock_def lock_loop_success)

lemma cMutex_acquire_free:
  assumes "cMutex_free c"
  shows "\<exists>h c'. cMutex_lock c 0 MUTEX_TIMEOUT_INFINITE 0 = Some (h, c') \<and> h \<noteq> 0 \<and>
           cMutex_held c' h 1"
proof -
  let ?a = "m_addr c" and ?m = "m_mutex c"
  from assms have nz: "GET_HANDLE ?a x \<noteq> 0" for x
    by (simp add: cMutex_free_def GET_HANDLE_nonzero)
  from assms nz [of "handle_count ?m"] have "mutex_try_lock ?a ?m 0 = (GET_HANDLE ?a (handle_count ?m + 1),
     ?m\<lparr>lock_count := 1, handle_count := handle_count ?m + 1, lock_flag := LOCK_MAGIC\<rparr>)"
    by (intro try_lock_free) (auto simp: cMutex_free_def)
  from mutex_lock_first_try [OF this nz] assms nz show ?thesis
    by (simp add: cMutex_lock_def cMutex_held_def cMutex_free_def)
qed

lemma cMutex_acquire_held:
  assumes "cMutex_held c h n" and "n + 1 < 2 ^ 32"
  shows "\<exists>c'. cMutex_lock c h MUTEX_TIMEOUT_INFINITE 0 = Some (h, c') \<and> cMutex_held c' h (n + 1)"
proof -
  from assms have nz: "h \<noteq> 0"
    by (simp add: cMutex_held_def GET_HANDLE_nonzero)
  have "mutex_try_lock (m_addr c) (m_mutex c) h =
      (h, (m_mutex c)\<lparr>lock_count := lock_count (m_mutex c) + 1\<rparr>)"
    using assms by (intro try_lock_held) (simp add: cMutex_held_def)
  from mutex_lock_first_try [OF this nz] assms show ?thesis
    by (simp add: cMutex_lock_def cMutex_held_def unat_inc_u32)
qed

lemma cMutex_release_nested:
  assumes held: "cMutex_held c h (Suc (Suc n))"
  shows "cMutex_held (cMutex_unlock c h) h (Suc n)"
proof -
  define k where "k = lock_count (m_mutex c)"
  from held have k: "unat k = Suc (Suc n)" by (simp add: cMutex_held_def k_def)
  then have k1: "unat (k - 1) = Suc n" by (simp add: unat_dec_u32)
  then have "k - 1 \<noteq> 0" "k \<noteq> 0" using k by auto
  then show ?thesis
    using held k1 by (simp add: cMutex_held_def cMutex_unlock_def mutex_unlock_def Let_def k_def)
qed

lemma cMutex_release_last:
  assumes held: "cMutex_held c h 1"
  shows "cMutex_free (cMutex_unlock c h)"
proof -
  have "lock_count (m_mutex c) = 1"
    using held by (simp add: cMutex_held_def unat_eq_1_u32 del: One_nat_def)
  then show ?thesis
    using held by (simp add: cMutex_held_def cMutex_free_def cMutex_unlock_def mutex_unlock_def Let_def)
qed

interpretation cmutex_lock: recursive_lock
    "\<lambda>c h. cMutex_lock c h MUTEX_TIMEOUT_INFINITE 0" cMutex_unlock cMutex_free cMutex_held
  by unfold_locales
    (simp_all only: cMutex_acquire_free cMutex_acquire_held cMutex_release_nested cMutex_release_last)

section \<open>Properties\<close>

text \<open>Locking \<open>n\<close> more times with the handle at hand.\<close>

fun cMutex_lock_times :: "nat \<Rightarrow> cmutex \<Rightarrow> u64 \<Rightarrow> cmutex option" where
  "cMutex_lock_times 0 c h = Some c"
| "cMutex_lock_times (Suc k) c h =
     do { (_, c') \<leftarrow> cMutex_lock c h MUTEX_TIMEOUT_INFINITE 0; cMutex_lock_times k c' h }"

fun cMutex_unlock_times :: "nat \<Rightarrow> cmutex \<Rightarrow> u64 \<Rightarrow> cmutex" where
  "cMutex_unlock_times 0 c h = c"
| "cMutex_unlock_times (Suc k) c h = cMutex_unlock_times k (cMutex_unlock c h) h"

lemma release_times_cMutex: "cmutex_lock.release_times k c h = cMutex_unlock_times k c h"
  by (induction k arbitrary: c) simp_all

lemma cMutex_lock_times_held:
  "cMutex_held c h n \<Longrightarrow> n + k < 2 ^ 32 \<Longrightarrow>
   \<exists>c'. cMutex_lock_times k c h = Some c' \<and> cMutex_held c' h (n + k)"
proof (induction k arbitrary: c n)
  case 0
  then show ?case by simp
next
  case (Suc k)
  then obtain c1 where "cMutex_lock c h MUTEX_TIMEOUT_INFINITE 0 = Some (h, c1)"
    and "cMutex_held c1 h (n + 1)"
    using cmutex_lock.acquire_held [of c h n] by auto
  with Suc.IH [of c1 "n + 1"] Suc.prems show ?case by auto
qed

lemma mutex_lock_spins_iff:
  assumes "(ucast a :: u32) \<noteq> 0"
  shows "mutex_lock a m hm MUTEX_TIMEOUT_INFINITE flags = None \<longleftrightarrow> fst (mutex_try_lock a m hm) = 0"
proof -
  have inf: "MUTEX_TIMEOUT_INFINITE \<noteq> 0" by (simp add: MUTEX_TIMEOUT_INFINITE_def)
  obtain r m' where rm: "mutex_try_lock a m hm = (r, m')" by fastforce
  show ?thesis
  proof (cases "r = 0")
    case True
    have "mutex_lock_loop a m hm MUTEX_TIMEOUT_INFINITE MUTEX_TIMEOUT_INFINITE = None"
      using lock_loop_infinite_returns [of a m hm MUTEX_TIMEOUT_INFINITE MUTEX_TIMEOUT_INFINITE]
        assms inf rm True by (metis fst_conv option.exhaust)
    with True rm inf show ?thesis by (simp add: mutex_lock_def)
  next
    case False
    with mutex_lock_first_try [OF rm False] rm show ?thesis by simp
  qed
qed

text \<open>C18: iMutex nests. On a free mutex, \<open>lock()\<close> returns a non-zero handle; locking it \<open>k\<close> more
  times with that handle and then unlocking it \<open>k + 1\<close> times leaves the mutex free again, and
  after \<open>j \<le> k\<close> unlocks it is still held by its owner, who has \<open>k + 1 - j\<close> of them left, for every nesting that
  fits in the 32-bit counter.\<close>

theorem cMutex_nesting:
  assumes "cMutex_free c" and "Suc (Suc k) < 2 ^ 32"
  shows "\<exists>h c1 c2. cMutex_lock c 0 MUTEX_TIMEOUT_INFINITE 0 = Some (h, c1) \<and> h \<noteq> 0 \<and>
           cMutex_lock_times k c1 h = Some c2 \<and> cMutex_held c2 h (Suc k) \<and>
           (\<forall>j\<le>k. cMutex_held (cMutex_unlock_times j c2 h) h (Suc k - j)) \<and>
           cMutex_free (cMutex_unlock_times (Suc k) c2 h)"
proof -
  from cmutex_lock.acquire_free [OF assms(1)] obtain h c1 where
    l: "cMutex_lock c 0 MUTEX_TIMEOUT_INFINITE 0 = Some (h, c1)" "h \<noteq> 0" "cMutex_held c1 h 1"
    by blast
  with cMutex_lock_times_held [of c1 h 1 k] assms(2) obtain c2 where
    c2: "cMutex_lock_times k c1 h = Some c2" "cMutex_held c2 h (Suc k)" by auto
  have "cMutex_held (cMutex_unlock_times j c2 h) h (Suc k - j)" if "j \<le> k" for j
    using cmutex_lock.release_some [of c2 h "k - j" j] c2(2) that by (simp add: release_times_cMutex Suc_diff_le)
  with l c2 cmutex_lock.release_all [of c2 h k] show ?thesis
    by (auto simp: release_times_cMutex simp del: cMutex_unlock_times.simps)
qed

theorem cMutex_nesting_witness:
  "\<exists>h c1 c2. cMutex_lock (cMutex_init \<lparr>m_addr = 0x1000, m_mutex = \<lparr>lock_count = 5, handle_count = 6,
       lock_flag = 7\<rparr>\<rparr>) 0 MUTEX_TIMEOUT_INFINITE 0 = Some (h, c1) \<and> h \<noteq> 0 \<and>
     cMutex_lock_times 3 c1 h = Some c2 \<and> cMutex_held c2 h (Suc 3) \<and>
     (\<forall>j\<le>3. cMutex_held (cMutex_unlock_times j c2 h) h (Suc 3 - j)) \<and>
     cMutex_free (cMutex_unlock_times (Suc 3) c2 h)"
  by (rule cMutex_nesting) (simp_all add: cMutex_free_def cMutex_init_def mutex_reset_def)

text \<open>C28: The spin loop of \<open>mutex_lock\<close>. With a finite timeout the function returns, whatever
  the state of the mutex; with the infinite timeout it returns exactly when its first
  \<open>mutex_try_lock\<close> succeeds, and otherwise spins until another thread writes the mutex.\<close>

theorem mutex_lock_terminates:
  "(timeout \<noteq> MUTEX_TIMEOUT_INFINITE \<longrightarrow> (\<exists>r m'. mutex_lock a m hm timeout flags = Some (r, m'))) \<and>
   ((ucast a :: u32) \<noteq> 0 \<longrightarrow>
      mutex_lock a m hm MUTEX_TIMEOUT_INFINITE flags = None \<longleftrightarrow> fst (mutex_try_lock a m hm) = 0)"
  using lock_loop_finite [of timeout a m hm "if timeout \<noteq> 0 then timeout else 1"]
    mutex_lock_spins_iff [of a m hm flags]
  by (auto simp: mutex_lock_def)

theorem mutex_lock_terminates_witness:
  "(\<exists>r m'. mutex_lock 0x1000 \<lparr>lock_count = 1, handle_count = 1, lock_flag = LOCK_MAGIC\<rparr> 0 1000 0 =
      Some (r, m')) \<and>
   mutex_lock 0x1000 \<lparr>lock_count = 1, handle_count = 1, lock_flag = LOCK_MAGIC\<rparr> 0
     MUTEX_TIMEOUT_INFINITE 0 = None"
  using mutex_lock_terminates [of 1000 "0x1000" "\<lparr>lock_count = 1, handle_count = 1, lock_flag = LOCK_MAGIC\<rparr>" 0 0]
  by (simp add: MUTEX_TIMEOUT_INFINITE_def mutex_try_lock_def GET_HANDLE_def)

text \<open>C29: A handle outlives its lock. \<open>mutex_unlock\<close> does not change \<open>handle_count\<close>, so on a
  free mutex the handle of the last owner still matches: \<open>mutex_try_lock\<close> with it reports success
  without taking \<open>lock_flag\<close>, and the next caller without a handle gets the lock as well.\<close>

theorem stale_handle_double_grant:
  assumes "(ucast a :: u32) \<noteq> 0" and "lock_flag m = UNLOCK_MAGIC"
  shows "\<exists>m1 m2 h. mutex_try_lock a m (GET_HANDLE a (handle_count m)) = (GET_HANDLE a (handle_count m), m1) \<and>
           GET_HANDLE a (handle_count m) \<noteq> 0 \<and> lock_flag m1 = UNLOCK_MAGIC \<and>
           mutex_try_lock a m1 0 = (h, m2) \<and> h \<noteq> 0"
  using assms GET_HANDLE_nonzero [OF assms(1)]
  by (auto simp: mutex_try_lock_def)

theorem stale_handle_double_grant_witness:
  "\<exists>m1 m2 h. mutex_try_lock 0x1000 \<lparr>lock_count = 0, handle_count = 7, lock_flag = UNLOCK_MAGIC\<rparr> (GET_HANDLE 0x1000 7) =
       (GET_HANDLE 0x1000 7, m1) \<and> GET_HANDLE 0x1000 7 \<noteq> 0 \<and> lock_flag m1 = UNLOCK_MAGIC \<and>
     mutex_try_lock 0x1000 m1 0 = (h, m2) \<and> h \<noteq> 0"
  using stale_handle_double_grant [of "0x1000" "\<lparr>lock_count = 0, handle_count = 7, lock_flag = UNLOCK_MAGIC\<rparr>"]
  by simp

end
