(* ===== verification/Mutex_Threads.thy ===== *)
theory Mutex_Threads
  imports Mutex
begin

text \<open>
  core/sync/mutex_api.cpp run by any number of threads. \<open>mutex_try_lock\<close> and
  \<open>mutex_unlock\<close> are split into their single accesses to the words of the \<open>_mutex_t\<close>: a
  thread is at a program point, \<open>micro\<close> executes the access at that point, and the system step
  interleaves the accesses of all threads. \<open>mutex_lock\<close> is a sequence of \<open>mutex_try_lock\<close> calls.
  The theory shows that the split functions agree with the sequential ones of theory Mutex,
  and that callers which pass only the handle they hold exclude each other.
\<close>

section \<open>Program points\<close>

text \<open>\<open>hm\<close> is the handle that the caller passed, and \<open>n\<close> the number of times it holds the lock
  (0 for a caller that does not).\<close>

datatype pc =
    Idle
  | Held u64 nat
  | TryCheck u64 nat
  | TryXchg u64 nat
  | GotCount
  | GotLoad
  | GotStore u32
  | GotHandle
  | ReLoad u64 nat
  | ReStore u64 nat u32
  | UnCheck u64 nat
  | UnTest u64 nat
  | UnLoad u64 nat
  | UnStore u64 nat u32
  | UnZero u64 nat
  | UnXchg u64 nat

definition not_taken :: "u64 \<Rightarrow> nat \<Rightarrow> pc" where
  "not_taken hm n = (if n = 0 then Idle else Held hm n)"

definition released :: "u64 \<Rightarrow> nat \<Rightarrow> pc" where
  "released hm n = not_taken hm (n - 1)"

text \<open>One access. A thread that is idle or holds the lock does nothing by itself.\<close>

fun micro :: "u64 \<Rightarrow> mutex \<Rightarrow> pc \<Rightarrow> mutex \<times> pc" where
  "micro a m Idle = (m, Idle)"
| "micro a m (Held hm n) = (m, Held hm n)"
| "micro a m (TryCheck hm n) =
     (m, if hm \<noteq> GET_HANDLE a (handle_count m) then TryXchg hm n else ReLoad hm n)"
| "micro a m (TryXchg hm n) =
     (m\<lparr>lock_flag := LOCK_MAGIC\<rparr>,
      if lock_flag m = UNLOCK_MAGIC then GotCount else not_taken hm n)"
| "micro a m GotCount = (m\<lparr>lock_count := 1\<rparr>, GotLoad)"
| "micro a m GotLoad = (m, GotStore (handle_count m))"
| "micro a m (GotStore v) = (m\<lparr>handle_count := v + 1\<rparr>, GotHandle)"
| "micro a m GotHandle = (m, Held (GET_HANDLE a (handle_count m)) 1)"
| "micro a m (ReLoad hm n) = (m, ReStore hm n (lock_count m))"
| "micro a m (ReStore hm n v) = (m\<lparr>lock_count := v + 1\<rparr>, Held hm (Suc n))"
| "micro a m (UnCheck hm n) =
     (m, if hm = GET_HANDLE a (handle_count m) then UnTest hm n else released hm n)"
| "micro a m (UnTest hm n) = (m, if lock_count m \<noteq> 0 then UnLoad hm n else UnZero hm n)"
| "micro a m (UnLoad hm n) = (m, UnStore hm n (lock_count m))"
| "micro a m (UnStore hm n v) = (m\<lparr>lock_count := v - 1\<rparr>, UnZero hm n)"
| "micro a m (UnZero hm n) = (m, if lock_count m = 0 then UnXchg hm n else released hm n)"
| "micro a m (UnXchg hm n) = (m\<lparr>lock_flag := UNLOCK_MAGIC\<rparr>, released hm n)"

fun run_micro :: "u64 \<Rightarrow> nat \<Rightarrow> mutex \<times> pc \<Rightarrow> mutex \<times> pc" where
  "run_micro a 0 s = s"
| "run_micro a (Suc k) (m, p) = run_micro a k (micro a m p)"

section \<open>The threads\<close>

text \<open>The shared mutex and the program point of each thread. A thread without the lock calls
  \<open>lock(0)\<close>; one that holds it calls \<open>lock(h)\<close> again, as long as the nesting fits in the 32-bit
  \<open>lock_count\<close>, or \<open>unlock(h)\<close>.\<close>

type_synonym sys = "mutex \<times> (nat \<Rightarrow> pc)"

inductive sys_step :: "u64 \<Rightarrow> sys \<Rightarrow> sys \<Rightarrow> bool" for a where
  call_lock: "ps t = Idle \<Longrightarrow> sys_step a (m, ps) (m, ps(t := TryCheck 0 0))"
| call_relock: "ps t = Held hm n \<Longrightarrow> n + 1 < 2 ^ 32 \<Longrightarrow>
    sys_step a (m, ps) (m, ps(t := TryCheck hm n))"
| call_unlock: "ps t = Held hm n \<Longrightarrow> sys_step a (m, ps) (m, ps(t := UnCheck hm n))"
| access: "micro a m (ps t) = (m', p') \<Longrightarrow> sys_step a (m, ps) (m', ps(t := p'))"

inductive reachable :: "u64 \<Rightarrow> sys \<Rightarrow> bool" for a where
  start: "reachable a (mutex_reset m, \<lambda>_. Idle)"
| step: "reachable a s \<Longrightarrow> sys_step a s s' \<Longrightarrow> reachable a s'"

inductive_cases sys_stepE: "sys_step a (m, ps) s'"

section \<open>The invariant\<close>

fun outside :: "pc \<Rightarrow> bool" where
  "outside Idle = True"
| "outside (TryCheck hm n) = (hm = 0 \<and> n = 0)"
| "outside (TryXchg hm n) = (hm = 0 \<and> n = 0)"
| "outside _ = False"

definition counted :: "u64 \<Rightarrow> mutex \<Rightarrow> u64 \<Rightarrow> nat \<Rightarrow> bool" where
  "counted a m hm n \<longleftrightarrow> hm = GET_HANDLE a (handle_count m) \<and> unat (lock_count m) = n \<and> 0 < n"

fun owner :: "u64 \<Rightarrow> mutex \<Rightarrow> pc \<Rightarrow> bool" where
  "owner a m GotCount = True"
| "owner a m GotLoad = (lock_count m = 1)"
| "owner a m (GotStore v) = (lock_count m = 1)"
| "owner a m GotHandle = (lock_count m = 1)"
| "owner a m (Held hm n) = counted a m hm n"
| "owner a m (TryCheck hm n) = (counted a m hm n \<and> n + 1 < 2 ^ 32)"
| "owner a m (ReLoad hm n) = (counted a m hm n \<and> n + 1 < 2 ^ 32)"
| "owner a m (ReStore hm n v) = (counted a m hm n \<and> n + 1 < 2 ^ 32 \<and> v = lock_count m)"
| "owner a m (UnCheck hm n) = counted a m hm n"
| "owner a m (UnTest hm n) = counted a m hm n"
| "owner a m (UnLoad hm n) = counted a m hm n"
| "owner a m (UnStore hm n v) = (counted a m hm n \<and> v = lock_count m)"
| "owner a m (UnZero hm n) = (hm = GET_HANDLE a (handle_count m) \<and> n = unat (lock_count m) + 1)"
| "owner a m (UnXchg hm n) = (n = 1)"
| "owner a m _ = False"

definition lock_inv :: "u64 \<Rightarrow> sys \<Rightarrow> bool" where
  "lock_inv a s = (case s of (m, ps) \<Rightarrow>
     (lock_flag m = UNLOCK_MAGIC \<and> (\<forall>t. outside (ps t))) \<or>
     (lock_flag m = LOCK_MAGIC \<and> (\<exists>t. owner a m (ps t) \<and> (\<forall>u. u \<noteq> t \<longrightarrow> outside (ps u)))))"

lemma lock_inv_free: "lock_flag m = UNLOCK_MAGIC \<Longrightarrow> (\<And>t. outside (ps t)) \<Longrightarrow> lock_inv a (m, ps)"
  by (simp add: lock_inv_def)

lemma lock_inv_owned:
  "lock_flag m = LOCK_MAGIC \<Longrightarrow> owner a m (ps t) \<Longrightarrow> (\<And>u. u \<noteq> t \<Longrightarrow> outside (ps u)) \<Longrightarrow>
   lock_inv a (m, ps)"
  by (auto simp: lock_inv_def)

lemma outside_not_owner:
  "(ucast a :: u32) \<noteq> 0 \<Longrightarrow> outside p \<Longrightarrow> \<not> owner a m p"
  using GET_HANDLE_nonzero [of a "handle_count m"] by (cases p) (auto simp: counted_def)

text \<open>A thread outside the lock writes nothing unless it finds the lock free.\<close>

lemma micro_outside:
  assumes "(ucast a :: u32) \<noteq> 0" and "outside p" and "micro a m p = (m', p')"
  shows "(m' = m \<and> outside p') \<or> (p = TryXchg 0 0 \<and> m' = m\<lparr>lock_flag := LOCK_MAGIC\<rparr> \<and>
           p' = (if lock_flag m = UNLOCK_MAGIC then GotCount else Idle))"
  using assms GET_HANDLE_nonzero [of a "handle_count m"]
  by (cases p) (auto simp: not_taken_def)

lemma counted_inc: "counted a m hm n \<Longrightarrow> n + 1 < 2 ^ 32 \<Longrightarrow>
    counted a (m\<lparr>lock_count := lock_count m + 1\<rparr>) hm (Suc n)"
  by (simp add: counted_def unat_inc_u32)

lemma owner_released:
  "owner a m (UnZero hm n) \<Longrightarrow> lock_count m \<noteq> 0 \<Longrightarrow> owner a m (released hm n)"
  by (simp add: released_def not_taken_def counted_def unat_eq_zero unat_gt_0)

text \<open>The owner keeps the lock until it performs the last exchange of \<open>mutex_unlock\<close>.\<close>

lemma micro_owner:
  assumes own: "owner a m p" and flag: "lock_flag m = LOCK_MAGIC" and mic: "micro a m p = (m', p')"
  shows "(lock_flag m' = LOCK_MAGIC \<and> owner a m' p') \<or> (lock_flag m' = UNLOCK_MAGIC \<and> p' = Idle)"
proof (cases p)
  case (ReStore hm n v)
  with own mic flag counted_inc [of a m hm n] show ?thesis by auto
next
  case (UnStore hm n v)
  with own mic flag show ?thesis by (auto simp: counted_def unat_dec_u32)
next
  case (UnZero hm n)
  with own mic flag owner_released [of a m hm n] show ?thesis
    by (cases "lock_count m = 0") auto
next
  case (UnXchg hm n)
  with own mic show ?thesis by (auto simp: released_def not_taken_def)
qed (use assms in \<open>auto simp: counted_def split: if_splits\<close>)

lemma lock_inv_access:
  assumes nz: "(ucast a :: u32) \<noteq> 0" and inv: "lock_inv a (m, ps)"
    and mic: "micro a m (ps t) = (m', p')"
  shows "lock_inv a (m', ps(t := p'))"
proof (cases "lock_flag m = UNLOCK_MAGIC")
  case True
  with inv have out: "outside (ps u)" for u by (auto simp: lock_inv_def)
  from micro_outside [OF nz out mic] show ?thesis
  proof
    assume "m' = m \<and> outside p'"
    with True out show ?thesis by (auto intro!: lock_inv_free)
  next
    assume "ps t = TryXchg 0 0 \<and> m' = m\<lparr>lock_flag := LOCK_MAGIC\<rparr> \<and>
              p' = (if lock_flag m = UNLOCK_MAGIC then GotCount else Idle)"
    with True out show ?thesis by (intro lock_inv_owned [where t = t]) auto
  qed
next
  case False
  with inv obtain o' where flag: "lock_flag m = LOCK_MAGIC" and own: "owner a m (ps o')"
    and out: "\<And>u. u \<noteq> o' \<Longrightarrow> outside (ps u)"
    by (auto simp: lock_inv_def)
  show ?thesis
  proof (cases "t = o'")
    case True
    with micro_owner [OF own flag] mic out show ?thesis
      by (auto intro: lock_inv_free lock_inv_owned [where t = o'])
  next
    case False
    have "m\<lparr>lock_flag := LOCK_MAGIC\<rparr> = m" using flag by simp
    with micro_outside [OF nz out [OF False] mic] flag have "m' = m" "outside p'" by auto
    with False flag own out show ?thesis by (intro lock_inv_owned [where t = o']) auto
  qed
qed

text \<open>A call moves a thread to the first access of the function; it writes nothing.\<close>

lemma lock_inv_call:
  assumes inv: "lock_inv a (m, ps)"
    and "outside (ps t) \<Longrightarrow> outside p'" and "owner a m (ps t) \<Longrightarrow> owner a m p'"
  shows "lock_inv a (m, ps(t := p'))"
proof -
  from inv consider "lock_flag m = UNLOCK_MAGIC" "\<forall>u. outside (ps u)"
    | o' where "lock_flag m = LOCK_MAGIC" "owner a m (ps o')" "\<forall>u. u \<noteq> o' \<longrightarrow> outside (ps u)"
    by (auto simp: lock_inv_def)
  then show ?thesis
  proof cases
    case 1
    with assms show ?thesis by (auto intro!: lock_inv_free)
  next
    case (2 o')
    with assms show ?thesis by (cases "t = o'") (auto intro!: lock_inv_owned [where t = o'])
  qed
qed

lemma lock_inv_step:
  assumes nz: "(ucast a :: u32) \<noteq> 0" and inv: "lock_inv a s" and st: "sys_step a s s'"
  shows "lock_inv a s'"
  using st
proof cases
  case (access m ps t m' p')
  with inv lock_inv_access [OF nz] show ?thesis by blast
qed (use inv in \<open>auto intro!: lock_inv_call\<close>)

lemma reachable_inv: "reachable a s \<Longrightarrow> (ucast a :: u32) \<noteq> 0 \<Longrightarrow> lock_inv a s"
proof (induction rule: reachable.induct)
  case (start m)
  show ?case by (rule lock_inv_free) (auto simp: mutex_reset_def)
next
  case (step s s')
  then show ?case using lock_inv_step by blast
qed

section \<open>Agreement with the sequential functions\<close>

lemma run_try_lock:
  "\<exists>k. run_micro a k (m, TryCheck hm n) =
    (snd (mutex_try_lock a m hm),
     if hm = GET_HANDLE a (handle_count m) then Held hm (Suc n)
     else if lock_flag m = UNLOCK_MAGIC then Held (fst (mutex_try_lock a m hm)) 1
     else not_taken hm n)"
proof (cases "hm = GET_HANDLE a (handle_count m)")
  case True
  then show ?thesis
    by (intro exI [of _ 3]) (simp add: eval_nat_numeral mutex_try_lock_def)
next
  case False
  show ?thesis
  proof (cases "lock_flag m = UNLOCK_MAGIC")
    case True
    with False show ?thesis
      by (intro exI [of _ 6]) (simp add: eval_nat_numeral mutex_try_lock_def)
  next
    case unl: False
    with False show ?thesis
      by (intro exI [of _ 2]) (simp add: eval_nat_numeral mutex_try_lock_def)
  qed
qed

lemma run_unlock:
  "\<exists>k. run_micro a k (m, UnCheck hm n) = (mutex_unlock a m hm, released hm n)"
proof (cases "hm = GET_HANDLE a (handle_count m)")
  case False
  then show ?thesis
    by (intro exI [of _ 1]) (simp add: mutex_unlock_def)
next
  case True
  consider "lock_count m = 0" | "lock_count m = 1" | "lock_count m \<noteq> 0" "lock_count m - 1 \<noteq> 0"
    by fastforce
  then show ?thesis
  proof cases
    case 1
    with True show ?thesis
      by (intro exI [of _ 4]) (simp add: eval_nat_numeral mutex_unlock_def)
  next
    case 2
    with True show ?thesis
      by (intro exI [of _ 6]) (simp add: eval_nat_numeral mutex_unlock_def)
  next
    case 3
    with True show ?thesis
      by (intro exI [of _ 5]) (simp add: eval_nat_numeral mutex_unlock_def Let_def)
  qed
qed

lemma reachable_run:
  "reachable a (m, ps) \<Longrightarrow>
   reachable a (fst (run_micro a k (m, ps t)), ps(t := snd (run_micro a k (m, ps t))))"
proof (induction k arbitrary: m ps)
  case 0
  then show ?case by simp
next
  case (Suc k)
  obtain m1 p1 where mp: "micro a m (ps t) = (m1, p1)" by fastforce
  from Suc.prems sys_step.access [of a m ps t, OF mp] have "reachable a (m1, ps(t := p1))"
    by (rule reachable.step)
  from Suc.IH [OF this] mp show ?case
    by (simp add: fun_upd_same fun_upd_upd del: fun_upd_apply)
qed

section \<open>Properties\<close>

text \<open>C3: Mutual exclusion. Whatever the interleaving of the memory accesses of any number of
  threads, at most one thread is between its \<open>lock\<close> and its last \<open>unlock\<close>; that thread's handle
  is the current one, \<open>lock_count\<close> is exactly its nesting, and \<open>lock_flag\<close> is set.\<close>

theorem mutual_exclusion:
  assumes "reachable a (m, ps)" and "(ucast a :: u32) \<noteq> 0" and "ps t = Held h n"
  shows "(\<forall>u k j. ps u = Held k j \<longrightarrow> u = t) \<and> h = GET_HANDLE a (handle_count m) \<and>
         unat (lock_count m) = n \<and> lock_flag m = LOCK_MAGIC"
proof -
  from reachable_inv [OF assms(1,2)] obtain o' where
    own: "lock_flag m = LOCK_MAGIC" "owner a m (ps o')" and out: "\<forall>u. u \<noteq> o' \<longrightarrow> outside (ps u)"
    using assms(3) by (auto simp: lock_inv_def) (metis outside.simps(4))
  have held: "u = o'" if "ps u = Held k j" for u k j
    using out that by (metis outside.simps(4))
  have t: "t = o'" by (rule held [OF assms(3)])
  with own assms(3) have "counted a m h n" by simp
  with held t own show ?thesis by (auto simp: counted_def)
qed

theorem mutual_exclusion_witness:
  "\<exists>m ps t h n. reachable 0x1000 (m, ps) \<and> ps t = Held h n \<and> (\<forall>u k j. ps u = Held k j \<longrightarrow> u = t) \<and>
     lock_flag m = LOCK_MAGIC"
proof -
  let ?m = "\<lparr>lock_count = 0, handle_count = 0, lock_flag = UNLOCK_MAGIC\<rparr>"
  let ?m' = "\<lparr>lock_count = 1, handle_count = 1, lock_flag = LOCK_MAGIC\<rparr>"
  have "reachable 0x1000 (mutex_reset ?m, \<lambda>_. Idle)" by (rule reachable.start)
  then have r: "reachable 0x1000 (mutex_reset ?m, (\<lambda>_. Idle)(0 := TryCheck 0 0))"
    by (rule reachable.step) (rule sys_step.call_lock, simp)
  define ps :: "nat \<Rightarrow> pc" where "ps = (\<lambda>_. Idle)(0 := Held (GET_HANDLE 0x1000 1) 1)"
  have "reachable 0x1000 (?m', ps)"
    using reachable_run [OF r,
        of "Suc (Suc (Suc (Suc (Suc (Suc 0)))))" 0]
    by (simp add: mutex_reset_def GET_HANDLE_def ps_def)
  moreover have "ps 0 = Held (GET_HANDLE 0x1000 1) 1" by (simp add: ps_def)
  moreover have "(ucast (0x1000 :: u64) :: u32) \<noteq> 0" by simp
  ultimately show ?thesis using mutual_exclusion by blast
qed

text \<open>The access-by-access functions are the functions of mutex_api.cpp: a thread that runs
  \<open>mutex_try_lock\<close> or \<open>mutex_unlock\<close> without interference reaches, after finitely many accesses,
  the state and the result that the sequential definitions compute.\<close>

lemma micro_refines_api:
  "(\<exists>k. run_micro a k (m, TryCheck hm n) =
    (snd (mutex_try_lock a m hm),
     if hm = GET_HANDLE a (handle_count m) then Held hm (Suc n)
     else if lock_flag m = UNLOCK_MAGIC then Held (fst (mutex_try_lock a m hm)) 1
     else not_taken hm n)) \<and>
   (\<exists>k. run_micro a k (m, UnCheck hm n) = (mutex_unlock a m hm, released hm n))"
  using run_try_lock run_unlock by blast

end
