(* ===== verification/Event.thy ===== *)
theory Event
  imports Prelude
begin

text \<open>
  core/sync/event.cpp (cEvent): a 32-bit set of pending event bits. \<open>check\<close> takes the bits of a
  msk out of the set, \<open>set\<close> puts bits in, \<open>wait\<close> polls \<open>check\<close>. The wait callback is a
  parameter, a function on the pending bits: what the code it calls (a scheduler, \<open>hlt\<close> until an
  interrupt) leaves in \<open>m_state\<close>. The last section interleaves two calls of \<open>set\<close> at their two
  accesses to \<open>m_state\<close>.
\<close>

section \<open>The class\<close>

record cevent =
  m_state :: u32
  m_p_wait :: "(u32 \<Rightarrow> u32) option"

definition EVENT_TIMEOUT_INFINITE :: u32 where
  "EVENT_TIMEOUT_INFINITE = 0xffffffff"

definition cEvent_init :: "(u32 \<Rightarrow> u32) option \<Rightarrow> cevent \<Rightarrow> cevent" where
  "cEvent_init p_cb_wait e = e\<lparr>m_state := 0, m_p_wait := p_cb_wait\<rparr>"

definition cEvent_check :: "cevent \<Rightarrow> u32 \<Rightarrow> u32 \<times> cevent" where
  "cEvent_check e msk =
     (let r0 = m_state e AND NOT msk;
          r = m_state e;
          e' = e\<lparr>m_state := r0\<rparr>
      in (if msk \<noteq> 0 then r AND msk else r, e'))"

definition cEvent_set :: "cevent \<Rightarrow> u32 \<Rightarrow> cevent" where
  "cEvent_set e msk = e\<lparr>m_state := msk OR m_state e\<rparr>"

definition cEvent_callback :: "cevent \<Rightarrow> cevent" where
  "cEvent_callback e = (case m_p_wait e of None \<Rightarrow> e | Some w \<Rightarrow> e\<lparr>m_state := w (m_state e)\<rparr>)"

partial_function (option) cEvent_wait_loop ::
    "u32 \<Rightarrow> u32 \<Rightarrow> u32 \<Rightarrow> u32 \<Rightarrow> cevent \<Rightarrow> (u32 \<times> cevent) option" where
  "cEvent_wait_loop msk timeout t r e =
     (if t \<noteq> 0 then
        (case cEvent_check e msk of (r', e') \<Rightarrow>
           if r' \<noteq> 0 then Some (r', e')
           else cEvent_wait_loop msk timeout
                  (if timeout \<noteq> EVENT_TIMEOUT_INFINITE then t - 1 else t) r' (cEvent_callback e'))
      else Some (r, e))"

definition cEvent_wait :: "cevent \<Rightarrow> u32 \<Rightarrow> u32 \<Rightarrow> (u32 \<times> cevent) option" where
  "cEvent_wait e msk timeout = cEvent_wait_loop msk timeout timeout 0 e"

section \<open>Sequential behaviour\<close>

lemma check_state [state_simps]: "m_state (snd (cEvent_check e msk)) = m_state e AND NOT msk"
  by (simp add: cEvent_check_def Let_def)

lemma check_result: "msk \<noteq> 0 \<Longrightarrow> fst (cEvent_check e msk) = m_state e AND msk"
  by (simp add: cEvent_check_def Let_def)

lemma set_state [state_simps]: "m_state (cEvent_set e msk) = msk OR m_state e"
  by (simp add: cEvent_set_def)

lemma and_or_absorb: "(msk OR s) AND msk = (msk :: u32)"
  by (rule bit_word_eqI) (auto simp: bit_simps)

lemma or_and_not: "(msk OR s) AND NOT msk = s AND NOT (msk :: u32)"
  by (rule bit_word_eqI) (auto simp: bit_simps)

lemma and_and_not: "(s AND msk) AND NOT msk = (0 :: u32)"
  by (rule bit_word_eqI) (auto simp: bit_simps)

lemma and_not_and: "(s AND NOT msk) AND msk = (0 :: u32)"
  by (rule bit_word_eqI) (auto simp: bit_simps)

lemma wait_loop_finite:
  assumes "timeout \<noteq> EVENT_TIMEOUT_INFINITE"
  shows "\<exists>res. cEvent_wait_loop msk timeout t r e = Some res"
proof (induction "unat t" arbitrary: t r e)
  case 0
  then have "t = 0" by (simp add: unat_eq_zero)
  then show ?case by (subst cEvent_wait_loop.simps) simp
next
  case (Suc n)
  then have t: "t \<noteq> 0" by auto
  with Suc(2) have n: "n = unat (t - 1)" by (simp add: unat_minus_one)
  obtain r' e' where "cEvent_check e msk = (r', e')" by fastforce
  with t assms Suc(1) [OF n, of r' "cEvent_callback e'"] show ?case
    by (subst cEvent_wait_loop.simps) auto
qed

text \<open>What \<open>wait\<close> returns is a part of its mask, and those bits are consumed.\<close>

lemma wait_loop_consumes:
  assumes "cEvent_wait_loop msk timeout t r e = Some res"
  shows "msk \<noteq> 0 \<longrightarrow> r = 0 \<longrightarrow> (case res of (r', e') \<Rightarrow> r' AND NOT msk = 0 \<and>
           (r' \<noteq> 0 \<longrightarrow> m_state e' AND msk = 0))"
proof (rule cEvent_wait_loop.raw_induct
    [where P = "\<lambda>msk timeout t r e res. msk \<noteq> 0 \<longrightarrow> r = 0 \<longrightarrow> (case res of (r', e') \<Rightarrow>
        r' AND NOT msk = 0 \<and> (r' \<noteq> 0 \<longrightarrow> m_state e' AND msk = 0))", OF _ assms])
  fix f :: "u32 \<Rightarrow> u32 \<Rightarrow> u32 \<Rightarrow> u32 \<Rightarrow> cevent \<Rightarrow> (u32 \<times> cevent) option"
    and msk timeout t r e res
  assume IH: "\<And>msk timeout t r e res. f msk timeout t r e = Some res \<Longrightarrow>
      msk \<noteq> 0 \<longrightarrow> r = 0 \<longrightarrow> (case res of (r', e') \<Rightarrow>
        r' AND NOT msk = 0 \<and> (r' \<noteq> 0 \<longrightarrow> m_state e' AND msk = 0))"
    and eq: "(if t \<noteq> 0 then
        (case cEvent_check e msk of (r', e') \<Rightarrow>
           if r' \<noteq> 0 then Some (r', e')
           else f msk timeout (if timeout \<noteq> EVENT_TIMEOUT_INFINITE then t - 1 else t) r'
                  (cEvent_callback e'))
      else Some (r, e)) = Some res"
  show "msk \<noteq> 0 \<longrightarrow> r = 0 \<longrightarrow> (case res of (r', e') \<Rightarrow> r' AND NOT msk = 0 \<and>
      (r' \<noteq> 0 \<longrightarrow> m_state e' AND msk = 0))"
  proof (intro impI)
    assume m: "msk \<noteq> 0" and r: "r = 0"
    obtain r' e' where c: "cEvent_check e msk = (r', e')" by fastforce
    have r': "r' = m_state e AND msk" and e': "m_state e' = m_state e AND NOT msk"
      using check_result [OF m, of e] check_state [of e msk] c by simp_all
    consider "t = 0" | "t \<noteq> 0" "r' \<noteq> 0" | "t \<noteq> 0" "r' = 0" by blast
    then show "case res of (r', e') \<Rightarrow> r' AND NOT msk = 0 \<and> (r' \<noteq> 0 \<longrightarrow> m_state e' AND msk = 0)"
    proof cases
      case 1
      with eq r show ?thesis by auto
    next
      case 2
      with eq c r' e' show ?thesis by (auto simp: and_not_and and_and_not)
    next
      case 3
      with eq c have "f msk timeout (if timeout \<noteq> EVENT_TIMEOUT_INFINITE then t - 1 else t) r'
                  (cEvent_callback e') = Some res" by simp
      from IH [OF this] m 3 show ?thesis by simp
    qed
  qed
qed

section \<open>Properties\<close>

text \<open>C19: Event bits are delivered once. After \<open>set(mask)\<close>, \<open>check(mask)\<close> returns every bit of
  the mask, an immediate second \<open>check(mask)\<close> returns nothing, and both leave the bits outside of
  the mask pending.\<close>

theorem event_delivered_once:
  assumes "msk \<noteq> 0" and "cEvent_check (cEvent_set e msk) msk = (r1, e1)"
    and "cEvent_check e1 msk = (r2, e2)"
  shows "r1 = msk \<and> r2 = 0 \<and> m_state e2 = m_state e AND NOT msk"
proof -
  have 1: "r1 = msk" and e1: "m_state e1 = m_state e AND NOT msk"
    using check_result [OF assms(1), of "cEvent_set e msk"] check_state [of "cEvent_set e msk" msk] assms(2)
    by (simp_all add: set_state and_or_absorb or_and_not)
  then have "r2 = 0" and "m_state e2 = m_state e AND NOT msk"
    using check_result [OF assms(1), of e1] check_state [of e1 msk] assms(3)
    by (simp_all add: and_not_and and.assoc)
  with 1 show ?thesis by simp
qed

theorem event_delivered_once_witness:
  "\<exists>r1 e1 r2 e2. cEvent_check (cEvent_set \<lparr>m_state = 4, m_p_wait = None\<rparr> 3) 3 = (r1, e1) \<and>
     cEvent_check e1 3 = (r2, e2) \<and> r1 = 3 \<and> r2 = 0 \<and> m_state e2 = 4 AND NOT 3"
proof -
  let ?e = "\<lparr>m_state = 4, m_p_wait = None\<rparr> :: cevent"
  obtain r1 e1 r2 e2 where c: "cEvent_check (cEvent_set ?e 3) 3 = (r1, e1)" "cEvent_check e1 3 = (r2, e2)"
    by fastforce
  with event_delivered_once [OF _ c] show ?thesis by simp
qed

text \<open>C30: \<open>wait\<close> with a finite timeout returns, whatever the
  callback does to the pending bits; the bits it returns belong to the mask and are no longer
  pending.\<close>

theorem event_wait_returns:
  assumes "timeout \<noteq> EVENT_TIMEOUT_INFINITE" and "msk \<noteq> 0"
  shows "\<exists>r e'. cEvent_wait e msk timeout = Some (r, e') \<and> r AND NOT msk = 0 \<and>
           (r \<noteq> 0 \<longrightarrow> m_state e' AND msk = 0)"
proof -
  obtain res where w: "cEvent_wait_loop msk timeout timeout 0 e = Some res"
    using wait_loop_finite [OF assms(1)] by blast
  from wait_loop_consumes [OF w] assms(2) w show ?thesis
    by (cases res) (simp add: cEvent_wait_def)
qed

theorem event_wait_returns_witness:
  "\<exists>r e'. cEvent_wait \<lparr>m_state = 0, m_p_wait = Some (\<lambda>s. s + 2)\<rparr> 6 100 = Some (r, e') \<and>
     r AND NOT 6 = 0 \<and> (r \<noteq> 0 \<longrightarrow> m_state e' AND 6 = 0)"
  by (rule event_wait_returns) (simp_all add: EVENT_TIMEOUT_INFINITE_def)

text \<open>The two accesses of \<open>set\<close>: it reads \<open>m_state\<close>, then exchanges the new value in.\<close>

definition set_load :: "cevent \<Rightarrow> u32 \<Rightarrow> u32" where
  "set_load e msk = msk OR m_state e"

definition set_exchange :: "cevent \<Rightarrow> u32 \<Rightarrow> cevent" where
  "set_exchange e r = e\<lparr>m_state := r\<rparr>"

text \<open>\<open>set\<close> is not atomic. Without interference its load and its exchange make the update of
  \<open>set\<close>; when another \<open>set(mask')\<close> completes between the two accesses, the result is the same,
  and the bits of \<open>mask'\<close> that were neither pending nor in \<open>mask\<close> are lost.\<close>

lemma event_set_lost_update:
  "set_exchange e (set_load e msk) = cEvent_set e msk \<and>
   set_exchange (cEvent_set e msk') (set_load e msk) = cEvent_set e msk \<and>
   m_state (cEvent_set e msk) AND (msk' AND NOT (msk OR m_state e)) = 0"
proof (intro conjI)
  show "m_state (cEvent_set e msk) AND (msk' AND NOT (msk OR m_state e)) = 0"
    by (rule bit_word_eqI) (auto simp: set_state bit_simps)
qed (simp_all add: set_exchange_def set_load_def cEvent_set_def)

end
