(* ===== verification/LL_Alg.thy ===== *)
theory LL_Alg
  imports Prelude
begin

text \<open>
  core/common/ll_alg.cpp: the doubly linked list behind the kernel's vectors and queues.

  A context (\<open>_ll_context_t\<close>) has an array of columns (\<open>_ll_state_t\<close>), each the ends, the cursor
  and the counters of one list, and four callbacks: allocate, free, lock and unlock. The callbacks
  are functions on the user data \<open>'u\<close> behind \<open>p_udata\<close>, partial because they may wait for a lock
  forever; a null callback is \<open>None\<close>. The items
  live in a store of addresses: \<open>items c p = None\<close> for a null, unallocated or released address, and
  an operation that dereferences such an address is \<open>None\<close>. The record data that follows the
  header of an item is its byte list \<open>it_data\<close>; the pointer to it that the functions return is the
  item's address plus the size of the packed header.
\<close>

section \<open>Data\<close>

record ll_item =
  it_cxt :: ptr
  it_col :: u8
  it_prev :: ptr
  it_next :: ptr
  it_data :: "u8 list"

record ll_state =
  p_current :: ptr
  p_first :: ptr
  p_last :: ptr
  count :: u32
  current :: u32

record 'u ll_context =
  self :: ptr
  mode :: u8
  data_size :: u32
  p_alloc :: "(u32 \<Rightarrow> 'u \<Rightarrow> (ptr \<times> 'u) option) option"
  p_free :: "(ptr \<Rightarrow> u32 \<Rightarrow> 'u \<Rightarrow> 'u option) option"
  p_lock :: "(u64 \<Rightarrow> 'u \<Rightarrow> (u64 \<times> 'u) option) option"
  p_unlock :: "(u64 \<Rightarrow> 'u \<Rightarrow> 'u) option"
  p_udata :: 'u
  ccol :: u8
  ncol :: u8
  state :: "ll_state list option"
  items :: "ptr \<rightharpoonup> ll_item"

definition LL_MODE_VECTOR :: u8 where "LL_MODE_VECTOR = 1"
definition LL_MODE_QUEUE :: u8 where "LL_MODE_QUEUE = 2"

definition sizeof_hdr :: nat where "sizeof_hdr = 25"
definition sizeof_state :: u32 where "sizeof_state = 32"

definition item_size :: "'u ll_context \<Rightarrow> u32" where
  "item_size c = data_size c + of_nat sizeof_hdr"

text \<open>The address \<open>p + 1\<close> of the record data behind the header.\<close>

definition user_ptr :: "ptr \<Rightarrow> ptr" where
  "user_ptr p = p + sizeof_hdr"

text \<open>\<open>p_cxt->state[k]\<close>, and the current column.\<close>

definition get_col :: "'u ll_context \<Rightarrow> u8 \<Rightarrow> ll_state option" where
  "get_col c k = (case state c of None \<Rightarrow> None
     | Some ss \<Rightarrow> if unat k < length ss then Some (ss ! unat k) else None)"

definition upd_col :: "'u ll_context \<Rightarrow> u8 \<Rightarrow> (ll_state \<Rightarrow> ll_state) \<Rightarrow> 'u ll_context" where
  "upd_col c k f = c\<lparr>state := map_option (\<lambda>ss. ss[unat k := f (ss ! unat k)]) (state c)\<rparr>"

abbreviation cur_col :: "'u ll_context \<Rightarrow> ll_state option" where
  "cur_col c \<equiv> get_col c (ccol c)"

abbreviation upd_cur :: "'u ll_context \<Rightarrow> (ll_state \<Rightarrow> ll_state) \<Rightarrow> 'u ll_context" where
  "upd_cur c f \<equiv> upd_col c (ccol c) f"

text \<open>Reading and writing an item through its address.\<close>

definition wr_its :: "(ptr \<rightharpoonup> ll_item) \<Rightarrow> ptr \<Rightarrow> (ll_item \<Rightarrow> ll_item) \<Rightarrow> (ptr \<rightharpoonup> ll_item) option" where
  "wr_its its p f = (case its p of None \<Rightarrow> None | Some it \<Rightarrow> Some (its(p \<mapsto> f it)))"

definition wr_item :: "'u ll_context \<Rightarrow> ptr \<Rightarrow> (ll_item \<Rightarrow> ll_item) \<Rightarrow> 'u ll_context option" where
  "wr_item c p f = map_option (\<lambda>its. c\<lparr>items := its\<rparr>) (wr_its (items c) p f)"

definition wr_if :: "'u ll_context \<Rightarrow> ptr \<Rightarrow> (ll_item \<Rightarrow> ll_item) \<Rightarrow> 'u ll_context option" where
  "wr_if c p f = (if p \<noteq> 0 then wr_item c p f else Some c)"

section \<open>Operations\<close>

definition ll_lock :: "'u ll_context \<Rightarrow> u64 \<Rightarrow> (u64 \<times> 'u ll_context) option" where
  "ll_lock c hlock = (case p_lock c of None \<Rightarrow> Some (0, c)
     | Some f \<Rightarrow> map_option (\<lambda>(h, u). (h, c\<lparr>p_udata := u\<rparr>)) (f hlock (p_udata c)))"

definition ll_unlock :: "'u ll_context \<Rightarrow> u64 \<Rightarrow> 'u ll_context" where
  "ll_unlock c hlock = (case p_unlock c of None \<Rightarrow> c
     | Some f \<Rightarrow> c\<lparr>p_udata := f hlock (p_udata c)\<rparr>)"

definition ll_malloc :: "'u ll_context \<Rightarrow> u32 \<Rightarrow> (ptr \<times> 'u ll_context) option" where
  "ll_malloc c sz = (case p_alloc c of None \<Rightarrow> None
     | Some f \<Rightarrow> map_option (\<lambda>(p, u). (p, c\<lparr>p_udata := u\<rparr>)) (f sz (p_udata c)))"

definition ll_mfree :: "'u ll_context \<Rightarrow> ptr \<Rightarrow> u32 \<Rightarrow> 'u ll_context option" where
  "ll_mfree c p sz = (case p_free c of None \<Rightarrow> None
     | Some f \<Rightarrow> map_option (\<lambda>u. c\<lparr>p_udata := u, items := (items c)(p := None)\<rparr>) (f p sz (p_udata c)))"

text \<open>\<open>raw\<close> is what the allocated array of columns contains; \<open>ll_init\<close> does not write it.\<close>

definition ll_init :: "ll_state list \<Rightarrow> 'u ll_context \<Rightarrow> u8 \<Rightarrow> 'u ll_context option" where
  "ll_init raw c ncol' =
     (if state c = None then
        do {
          (h, c) \<leftarrow> ll_lock c 0;
          let c = c\<lparr>ncol := ncol', ccol := 0\<rparr>;
          (p, c) \<leftarrow> ll_malloc c (ucast ncol' * sizeof_state);
          let c = c\<lparr>state := (if p = 0 then None else Some raw)\<rparr>;
          Some (ll_unlock c h)
        }
      else Some c)"

text \<open>\<open>p\<close> is the address of the array, which \<open>ll_init\<close> got from the allocator.\<close>

definition ll_uninit :: "ptr \<Rightarrow> 'u ll_context \<Rightarrow> 'u ll_context option" where
  "ll_uninit p c =
     (if state c \<noteq> None then
        do {
          (h, c) \<leftarrow> ll_lock c 0;
          c \<leftarrow> ll_mfree c p (ucast (ncol c) * sizeof_state);
          Some (ll_unlock (c\<lparr>state := None, ncol := 0, ccol := 0\<rparr>) h)
        }
      else Some c)"

definition ll_cnt :: "'u ll_context \<Rightarrow> u64 \<Rightarrow> (u32 \<times> 'u ll_context) option" where
  "ll_cnt c hlock =
     do {
       (h, c) \<leftarrow> ll_lock c hlock;
       s \<leftarrow> cur_col c;
       Some (count s, ll_unlock c h)
     }"

text \<open>\<open>_cpy\<close>: the bytes \<open>src[0], ..., src[sz - 1]\<close>, appended to what is already copied.\<close>

function cpy_loop :: "(nat \<Rightarrow> u8) \<Rightarrow> nat \<Rightarrow> u32 \<Rightarrow> u8 list \<Rightarrow> u8 list" where
  "cpy_loop src i sz dst = (if sz \<noteq> 0 then cpy_loop src (i + 1) (sz - 1) (dst @ [src i]) else dst)"
  by auto
termination
  by (relation "measure (\<lambda>(_, _, sz, _). unat sz)") (auto simp: unat_minus_one unat_gt_0)

definition cpy :: "(nat \<Rightarrow> u8) \<Rightarrow> u32 \<Rightarrow> u8 list" where
  "cpy src sz = cpy_loop src 0 sz []"

text \<open>The walk of \<open>_get\<close> from the cursor to \<open>index\<close>; it ends with the index and the item reached.\<close>

function get_loop ::
    "(ptr \<rightharpoonup> ll_item) \<Rightarrow> u32 \<Rightarrow> u32 \<Rightarrow> u32 \<Rightarrow> ptr \<Rightarrow> (u32 \<times> ptr) option" where
  "get_loop its cnt index i p =
     (if i \<noteq> index \<and> i < cnt then
        if index < i then
          (case its p of None \<Rightarrow> None
           | Some it \<Rightarrow>
               if i - 1 = 0 then Some (i - 1, it_prev it)
               else if i - 1 < index then
                 (case its (it_prev it) of None \<Rightarrow> None
                  | Some it2 \<Rightarrow> get_loop its cnt index (i - 1 + 1) (it_next it2))
               else get_loop its cnt index (i - 1) (it_prev it))
        else
          (case its p of None \<Rightarrow> None
           | Some it \<Rightarrow> get_loop its cnt index (i + 1) (it_next it))
      else Some (i, p))"
  by pat_completeness auto

termination
proof (relation "measure (\<lambda>(_, _, index, i, _). (unat i - unat index) + (unat index - unat i))", goal_cases)
  case 1
  show ?case by simp
next
  case (2 its cnt index i p it it2)
  then show ?case using u32_pred_less(2) [of index i] by blast
next
  case (3 its cnt index i p it)
  then show ?case using u32_pred_less(1,3) [of index i] by (auto simp: word_less_nat_alt)
next
  case (4 its cnt index i p it)
  then have "i < index" by (metis linorder_neqE)
  with u32_succ_less [OF this] show ?case by (auto simp: word_less_nat_alt)
qed

definition get :: "'u ll_context \<Rightarrow> u32 \<Rightarrow> (ptr \<times> 'u ll_context) option" where
  "get c index =
     do {
       s \<leftarrow> cur_col c;
       if index < count s then
         if p_current s \<noteq> 0 then
           do {
             (i, p) \<leftarrow> get_loop (items c) (count s) index (current s) (p_current s);
             Some (p, if i = index then upd_cur c (\<lambda>s. s\<lparr>current := i, p_current := p\<rparr>) else c)
           }
         else Some (0, c)
       else Some (0, c)
     }"

definition ll_get :: "'u ll_context \<Rightarrow> u32 \<Rightarrow> u64 \<Rightarrow> (ptr \<times> 'u ll_context) option" where
  "ll_get c index hlock =
     do {
       (h, c) \<leftarrow> ll_lock c hlock;
       (p, c) \<leftarrow> get c index;
       Some (if p \<noteq> 0 then user_ptr p else 0, ll_unlock c h)
     }"

definition ll_add :: "'u ll_context \<Rightarrow> (nat \<Rightarrow> u8) \<Rightarrow> u64 \<Rightarrow> (ptr \<times> 'u ll_context) option" where
  "ll_add c p_data hlock =
     do {
       (h, c) \<leftarrow> ll_lock c hlock;
       (p, c) \<leftarrow> (if p_alloc c \<noteq> None then ll_malloc c (item_size c) else Some (0, c));
       (r, c) \<leftarrow>
         (if p \<noteq> 0 then
            do {
              s \<leftarrow> cur_col c;
              c \<leftarrow> wr_if c (p_last s) (\<lambda>it. it\<lparr>it_next := p\<rparr>);
              let c = c\<lparr>items := (items c)(p \<mapsto> \<lparr>it_cxt = self c, it_col = ccol c, it_prev = p_last s,
                   it_next = (if mode c = LL_MODE_QUEUE then p_first s else 0),
                   it_data = cpy p_data (data_size c)\<rparr>)\<rparr>;
              let c = upd_cur c (\<lambda>s. s\<lparr>p_last := p, p_current := p\<rparr>);
              let c = upd_cur c (\<lambda>s. if p_first s = 0 then s\<lparr>p_first := p\<rparr> else s);
              let c = upd_cur c (\<lambda>s. s\<lparr>current := count s, count := count s + 1\<rparr>);
              Some (user_ptr p, c)
            }
          else Some (0, c));
       Some (r, ll_unlock c h)
     }"

text \<open>The item before the place of the new one gets its \<open>next\<close> link; at the front there is none,
  and the new item becomes the first one.\<close>

definition ins_prev :: "'u ll_context \<Rightarrow> u32 \<Rightarrow> ptr \<Rightarrow> (ptr \<times> 'u ll_context) option" where
  "ins_prev c index p_new =
     (if 0 < index then
        do {
          (p_prev, c) \<leftarrow> get c (index - 1);
          c \<leftarrow> wr_if c p_prev (\<lambda>it. it\<lparr>it_next := p_new\<rparr>);
          Some (p_prev, c)
        }
      else Some (0, upd_cur c (\<lambda>s. s\<lparr>p_first := p_new\<rparr>)))"

definition ll_ins :: "'u ll_context \<Rightarrow> u32 \<Rightarrow> (nat \<Rightarrow> u8) \<Rightarrow> u64 \<Rightarrow> (ptr \<times> 'u ll_context) option" where
  "ll_ins c index p_data hlock =
     do {
       s \<leftarrow> cur_col c;
       if index < count s then
         do {
           (h, c) \<leftarrow> ll_lock c hlock;
           (p_cur, c) \<leftarrow> get c index;
           (r, c) \<leftarrow>
             (if p_cur \<noteq> 0 \<and> p_alloc c \<noteq> None then
                do {
                  (p_new, c) \<leftarrow> ll_malloc c (item_size c);
                  if p_new \<noteq> 0 then
                    do {
                      let c = c\<lparr>items := (items c)(p_new \<mapsto> \<lparr>it_cxt = self c, it_col = ccol c,
                           it_prev = 0, it_next = 0, it_data = cpy p_data (data_size c)\<rparr>)\<rparr>;
                      (p_prev, c) \<leftarrow> ins_prev c index p_new;
                      c \<leftarrow> wr_item c p_new (\<lambda>it. it\<lparr>it_prev := p_prev, it_next := p_cur\<rparr>);
                      c \<leftarrow> wr_item c p_cur (\<lambda>it. it\<lparr>it_prev := p_new\<rparr>);
                      let c = upd_cur c (\<lambda>s. s\<lparr>p_current := p_new, current := index, count := count s + 1\<rparr>);
                      Some (user_ptr p_new, c)
                    }
                  else Some (0, c)
                }
              else Some (0, c));
           Some (r, ll_unlock c h)
         }
       else Some (0, c)
     }"

text \<open>The common body of the two \<open>ll_del\<close> functions, for the item at \<open>p_cur\<close>: the two neighbours
  are linked, then the ends of the column are corrected. Each \<open>p_cur->next\<close> and \<open>p_cur->prev\<close> reads
  the item again, since a write in between may have changed it.\<close>

definition unlink_next :: "'u ll_context \<Rightarrow> ptr \<Rightarrow> 'u ll_context option" where
  "unlink_next c p_cur =
     do {
       it \<leftarrow> items c p_cur;
       if it_next it \<noteq> 0 then
         wr_item (upd_cur c (\<lambda>s. s\<lparr>p_current := it_next it\<rparr>)) (it_next it) (\<lambda>x. x\<lparr>it_prev := it_prev it\<rparr>)
       else Some c
     }"

definition unlink_first :: "'u ll_context \<Rightarrow> ptr \<Rightarrow> 'u ll_context option" where
  "unlink_first c p_cur =
     do {
       it \<leftarrow> items c p_cur;
       s \<leftarrow> cur_col c;
       if p_cur = p_first s then
         do {
           let c = upd_cur c (\<lambda>s. s\<lparr>p_first := it_next it, p_current := it_next it\<rparr>);
           if mode c = LL_MODE_QUEUE
           then wr_item c (p_last s) (\<lambda>x. x\<lparr>it_next := it_next it\<rparr>) else Some c
         }
       else Some c
     }"

definition unlink_last :: "'u ll_context \<Rightarrow> ptr \<Rightarrow> 'u ll_context option" where
  "unlink_last c p_cur =
     do {
       it \<leftarrow> items c p_cur;
       s \<leftarrow> cur_col c;
       if p_cur = p_last s then
         do {
           let c = upd_cur c (\<lambda>s. s\<lparr>p_last := it_prev it, p_current := it_prev it\<rparr>);
           c \<leftarrow> (if mode c = LL_MODE_QUEUE
                then wr_item c (it_prev it) (\<lambda>x. x\<lparr>it_next := p_first s\<rparr>) else Some c);
           Some (upd_cur c (\<lambda>s. s\<lparr>current := current s - 1\<rparr>))
         }
       else Some c
     }"

definition ll_unlink :: "'u ll_context \<Rightarrow> ptr \<Rightarrow> 'u ll_context option" where
  "ll_unlink c p_cur =
     (if p_cur \<noteq> 0 \<and> p_free c \<noteq> None then
        do {
          it \<leftarrow> items c p_cur;
          c \<leftarrow> wr_if c (it_prev it) (\<lambda>x. x\<lparr>it_next := it_next it\<rparr>);
          c \<leftarrow> unlink_next c p_cur;
          c \<leftarrow> unlink_first c p_cur;
          c \<leftarrow> unlink_last c p_cur;
          ll_mfree (upd_cur c (\<lambda>s. s\<lparr>count := count s - 1\<rparr>)) p_cur (item_size c)
        }
      else Some c)"

definition ll_del :: "'u ll_context \<Rightarrow> u32 \<Rightarrow> u64 \<Rightarrow> 'u ll_context option" where
  "ll_del c index hlock =
     do {
       (h, c) \<leftarrow> ll_lock c hlock;
       (p_cur, c) \<leftarrow> get c index;
       c \<leftarrow> ll_unlink c p_cur;
       Some (ll_unlock c h)
     }"

definition ll_del_current :: "'u ll_context \<Rightarrow> u64 \<Rightarrow> 'u ll_context option" where
  "ll_del_current c hlock =
     do {
       (h, c) \<leftarrow> ll_lock c hlock;
       s \<leftarrow> cur_col c;
       c \<leftarrow> ll_unlink c (p_current s);
       Some (ll_unlock c h)
     }"

text \<open>The loop of \<open>ll_clr\<close>: at most \<open>count - i\<close> more items are released, from \<open>p\<close> on.\<close>

function clr_loop :: "'u ll_context \<Rightarrow> u32 \<Rightarrow> u32 \<Rightarrow> ptr \<Rightarrow> 'u ll_context option" where
  "clr_loop c cnt i p =
     (if i < cnt then
        if p \<noteq> 0 then
          do {
            it \<leftarrow> items c p;
            c \<leftarrow> ll_mfree c p (item_size c);
            clr_loop (upd_cur c (\<lambda>s. s\<lparr>p_first := it_next it\<rparr>)) cnt (i + 1) (it_next it)
          }
        else Some c
      else Some c)"
  by pat_completeness auto
termination
  by (relation "measure (\<lambda>(_, cnt, i, _). unat cnt - unat i)")
    (auto simp: u32_succ_less word_less_nat_alt)

definition ll_clr :: "'u ll_context \<Rightarrow> u64 \<Rightarrow> 'u ll_context option" where
  "ll_clr c hlock =
     do {
       (h, c) \<leftarrow> ll_lock c hlock;
       s \<leftarrow> cur_col c;
       c \<leftarrow> clr_loop c (count s) 0 (p_first s);
       let c = upd_cur c (\<lambda>s. s\<lparr>p_current := 0, p_first := 0, p_last := 0, count := 0, current := 0\<rparr>);
       Some (ll_unlock c h)
     }"

definition ll_col :: "'u ll_context \<Rightarrow> u8 \<Rightarrow> u64 \<Rightarrow> 'u ll_context option" where
  "ll_col c ccol' hlock =
     (if ccol' < ncol c then
        do {
          (h, c) \<leftarrow> ll_lock c hlock;
          Some (ll_unlock (c\<lparr>ccol := ccol'\<rparr>) h)
        }
      else Some c)"

definition ll_sel :: "'u ll_context \<Rightarrow> ptr \<Rightarrow> u64 \<Rightarrow> (bool \<times> 'u ll_context) option" where
  "ll_sel c p_data hlock =
     do {
       let p_hdr = p_data - sizeof_hdr;
       it \<leftarrow> items c p_hdr;
       if it_cxt it = self c then
         do {
           (h, c) \<leftarrow> ll_lock c hlock;
           _ \<leftarrow> get_col c (it_col it);
           let c = upd_col c (it_col it) (\<lambda>s. s\<lparr>p_current := p_hdr\<rparr>);
           Some (True, ll_unlock c h)
         }
       else Some (False, c)
     }"

text \<open>\<open>ll_mov\<close>: the item leaves its column, then joins the destination column.\<close>

definition mov_unlink :: "'u ll_context \<Rightarrow> ptr \<Rightarrow> ll_item \<Rightarrow> 'u ll_context option" where
  "mov_unlink c p_hdr it =
     do {
       _ \<leftarrow> get_col c (it_col it);
       c \<leftarrow> wr_if c (it_prev it) (\<lambda>x. x\<lparr>it_next := it_next it\<rparr>);
       c \<leftarrow> wr_if c (it_next it) (\<lambda>x. x\<lparr>it_prev := it_prev it\<rparr>);
       Some (upd_col c (it_col it) (\<lambda>s.
         let s = (if p_first s = p_hdr then s\<lparr>p_first := it_next it\<rparr> else s);
             s = (if p_last s = p_hdr then s\<lparr>p_last := it_prev it\<rparr> else s);
             s = (if p_current s = p_hdr then
                    if it_next it \<noteq> 0 then s\<lparr>p_current := it_next it\<rparr>
                    else if it_prev it \<noteq> 0 then s\<lparr>p_current := it_prev it\<rparr>
                    else s\<lparr>p_current := p_first s\<rparr>
                  else s)
         in s\<lparr>count := count s - 1\<rparr>))
     }"

definition mov_link :: "'u ll_context \<Rightarrow> ptr \<Rightarrow> u8 \<Rightarrow> (bool \<times> 'u ll_context) option" where
  "mov_link c p_hdr k =
     do {
       s \<leftarrow> get_col c k;
       (linked, c) \<leftarrow>
         (if count s \<noteq> 0 then
            if p_last s \<noteq> 0 then
              do {
                c \<leftarrow> wr_item c (p_last s) (\<lambda>x. x\<lparr>it_next := p_hdr\<rparr>);
                c \<leftarrow> wr_item c p_hdr (\<lambda>x. x\<lparr>it_prev := p_last s,
                       it_next := (if mode c = LL_MODE_QUEUE then p_first s else 0)\<rparr>);
                Some (True, upd_col c k (\<lambda>s. s\<lparr>p_last := p_hdr\<rparr>))
              }
            else if p_first s \<noteq> 0 then
              do {
                c \<leftarrow> wr_item c (p_first s) (\<lambda>x. x\<lparr>it_prev := p_hdr\<rparr>);
                c \<leftarrow> wr_item c p_hdr (\<lambda>x. x\<lparr>it_next := p_first s,
                       it_prev := (if mode c = LL_MODE_QUEUE then p_last s else 0)\<rparr>);
                Some (True, upd_col c k (\<lambda>s. s\<lparr>p_first := p_hdr\<rparr>))
              }
            else Some (False, c)
          else
            do {
              let c = upd_col c k (\<lambda>s. s\<lparr>p_first := p_hdr, p_last := p_hdr, p_current := p_hdr\<rparr>);
              c \<leftarrow> wr_item c p_hdr (\<lambda>x. if mode c = LL_MODE_QUEUE then x\<lparr>it_next := p_hdr\<rparr>
                                        else x\<lparr>it_prev := 0, it_next := 0\<rparr>);
              Some (True, c)
            });
       if linked then
         do {
           c \<leftarrow> wr_item c p_hdr (\<lambda>x. x\<lparr>it_col := k\<rparr>);
           Some (True, upd_col c k (\<lambda>s. s\<lparr>count := count s + 1\<rparr>))
         }
       else Some (False, c)
     }"

definition ll_mov :: "'u ll_context \<Rightarrow> ptr \<Rightarrow> u8 \<Rightarrow> u64 \<Rightarrow> (bool \<times> 'u ll_context) option" where
  "ll_mov c p_data k hlock =
     do {
       let p_hdr = p_data - sizeof_hdr;
       it \<leftarrow> items c p_hdr;
       if it_cxt it = self c \<and> k \<noteq> it_col it \<and> k < ncol c then
         do {
           (h, c) \<leftarrow> ll_lock c hlock;
           c \<leftarrow> mov_unlink c p_hdr it;
           (r, c) \<leftarrow> mov_link c p_hdr k;
           Some (r, ll_unlock c h)
         }
       else Some (False, c)
     }"

definition ll_roll :: "'u ll_context \<Rightarrow> u64 \<Rightarrow> 'u ll_context option" where
  "ll_roll c hlock =
     (if mode c = LL_MODE_QUEUE then
        do {
          (h, c) \<leftarrow> ll_lock c hlock;
          s \<leftarrow> cur_col c;
          let pf = p_first s;
          let pl = p_last s;
          it \<leftarrow> items c pf;
          let pc = it_next it;
          c \<leftarrow> (if pf \<noteq> pl then
                  do {
                    let c = upd_cur c (\<lambda>s. s\<lparr>p_first := pc, p_current := pc\<rparr>);
                    c \<leftarrow> wr_item c pl (\<lambda>x. x\<lparr>it_next := pf\<rparr>);
                    c \<leftarrow> wr_item c pf (\<lambda>x. x\<lparr>it_prev := pl, it_next := pc\<rparr>);
                    c \<leftarrow> wr_item c pc (\<lambda>x. x\<lparr>it_prev := pl\<rparr>);
                    Some (upd_cur c (\<lambda>s. s\<lparr>p_last := pf\<rparr>))
                  }
                else Some c);
          Some (ll_unlock c h)
        }
      else Some c)"

definition ll_next :: "'u ll_context \<Rightarrow> u64 \<Rightarrow> (ptr \<times> 'u ll_context) option" where
  "ll_next c hlock =
     do {
       (h, c) \<leftarrow> ll_lock c hlock;
       s \<leftarrow> cur_col c;
       if p_current s \<noteq> 0 then
         do {
           it \<leftarrow> items c (p_current s);
           if it_next it \<noteq> 0 then
             Some (user_ptr (it_next it),
               ll_unlock (upd_cur c (\<lambda>s. s\<lparr>p_current := it_next it, current := current s + 1\<rparr>)) h)
           else Some (0, ll_unlock c h)
         }
       else Some (0, ll_unlock c h)
     }"

definition ll_current :: "'u ll_context \<Rightarrow> u64 \<Rightarrow> (ptr \<times> 'u ll_context) option" where
  "ll_current c hlock =
     do {
       (h, c) \<leftarrow> ll_lock c hlock;
       s \<leftarrow> cur_col c;
       Some (if p_current s \<noteq> 0 then user_ptr (p_current s) else 0, ll_unlock c h)
     }"

definition ll_first :: "'u ll_context \<Rightarrow> u64 \<Rightarrow> (ptr \<times> 'u ll_context) option" where
  "ll_first c hlock =
     do {
       (h, c) \<leftarrow> ll_lock c hlock;
       s \<leftarrow> cur_col c;
       if p_first s \<noteq> 0 then
         Some (user_ptr (p_first s),
           ll_unlock (upd_cur c (\<lambda>s. s\<lparr>p_current := p_first s, current := 0\<rparr>)) h)
       else Some (0, ll_unlock c h)
     }"

definition ll_last :: "'u ll_context \<Rightarrow> u64 \<Rightarrow> (ptr \<times> 'u ll_context) option" where
  "ll_last c hlock =
     do {
       (h, c) \<leftarrow> ll_lock c hlock;
       s \<leftarrow> cur_col c;
       if p_last s \<noteq> 0 then
         Some (user_ptr (p_last s),
           ll_unlock (upd_cur c (\<lambda>s. s\<lparr>p_current := p_last s, current := count s - 1\<rparr>)) h)
       else Some (0, ll_unlock c h)
     }"

definition ll_prev :: "'u ll_context \<Rightarrow> u64 \<Rightarrow> (ptr \<times> 'u ll_context) option" where
  "ll_prev c hlock =
     do {
       (h, c) \<leftarrow> ll_lock c hlock;
       s \<leftarrow> cur_col c;
       if p_current s \<noteq> 0 then
         do {
           it \<leftarrow> items c (p_current s);
           if it_prev it \<noteq> 0 then
             Some (user_ptr (it_prev it),
               ll_unlock (upd_cur c (\<lambda>s. s\<lparr>p_current := it_prev it, current := current s - 1\<rparr>)) h)
           else Some (0, ll_unlock c h)
         }
       else Some (0, ll_unlock c h)
     }"

text \<open>The unfolding equations of the loops rewrite forever under a symbolic guard.\<close>

declare cpy_loop.simps [simp del] get_loop.simps [simp del] clr_loop.simps [simp del]

lemma cpy_loop_eq: "cpy_loop src i sz dst = dst @ map src [i..<i + unat sz]"
proof (induction "unat sz" arbitrary: i sz dst)
  case 0
  then show ?case by (subst cpy_loop.simps) (simp add: unat_eq_zero)
next
  case (Suc n)
  then have sz: "sz \<noteq> 0" and n: "n = unat (sz - 1)" by (auto simp: unat_dec_u32)
  have "[i..<i + unat sz] = i # [i + 1..<i + 1 + unat (sz - 1)]"
    using Suc(2) n upt_conv_Cons [of i "i + unat sz"] by (metis add.commute add.left_commute
        add_Suc_right less_add_Suc1 plus_1_eq_Suc)
  with Suc(1) [OF n] sz show ?case by (subst cpy_loop.simps) simp
qed

lemma cpy_eq: "cpy src sz = map src [0..<unat sz]"
  by (simp add: cpy_def cpy_loop_eq)

end
