(* ===== verification/LL_Vector.thy ===== *)
theory LL_Vector
  imports LL_Alg
begin

text \<open>
  The list operations of ll_alg.cpp in \<open>LL_MODE_VECTOR\<close> implement a sequence of records with a
  cursor. The abstract value of a column is the list of its nodes, each an address with the record
  data stored behind it. \<open>seg\<close> describes the links of a run of items, \<open>column\<close> says that the ends
  and the counter of a column describe its list, \<open>cursor\<close> that \<open>p_current\<close> is the item with the
  index \<open>current\<close>, and \<open>vec\<close> that every column of a context is such a list and no item is in two
  columns.
\<close>

type_synonym nodes = "(ptr \<times> u8 list) list"

section \<open>Linked segments\<close>

definition head_or :: "ptr \<Rightarrow> nodes \<Rightarrow> ptr" where
  "head_or e ns = (case ns of [] \<Rightarrow> e | n # _ \<Rightarrow> fst n)"

definition last_or :: "ptr \<Rightarrow> nodes \<Rightarrow> ptr" where
  "last_or a ns = (if ns = [] then a else fst (last ns))"

lemma head_or_simps [simp]: "head_or e [] = e" "head_or e (n # ns) = fst n"
  "head_or e (ns @ n # ms) = head_or (fst n) ns"
  by (simp_all add: head_or_def split: list.split)

lemma last_or_simps [simp]: "last_or a [] = a" "last_or a (n # ns) = last_or (fst n) ns"
  "last_or a (ns @ [n]) = fst n" "last_or a (ns @ n # ms) = last_or (fst n) ms"
  by (auto simp: last_or_def)

definition addrs :: "nodes \<Rightarrow> ptr set" where
  "addrs ns = fst ` set ns"

lemma addrs_nth: "i < length ns \<Longrightarrow> fst (ns ! i) \<in> addrs ns"
  by (simp add: addrs_def)

lemma addrs_ends: "ns \<noteq> [] \<Longrightarrow> fst (last ns) \<in> addrs ns" "ns \<noteq> [] \<Longrightarrow> fst (hd ns) \<in> addrs ns"
  by (simp_all add: addrs_def)

lemma addrs_pos: "x \<in> addrs ns \<Longrightarrow> 0 \<notin> addrs ns \<Longrightarrow> 0 < x"
  by (metis neq0_conv)

lemma addrs_simps [simp]: "addrs [] = {}" "addrs (n # ns) = insert (fst n) (addrs ns)"
  "addrs (ns @ ms) = addrs ns \<union> addrs ms"
  by (auto simp: addrs_def)

lemma addrs_fold [simp]: "fst ` set ns = addrs ns"
  by (rule addrs_def [symmetric])

text \<open>\<open>seg its self k a ns e\<close>: the items \<open>ns\<close> of column \<open>k\<close> are linked in order; the first one's
  \<open>prev\<close> is \<open>a\<close> and the last one's \<open>next\<close> is \<open>e\<close>.\<close>

fun seg :: "(ptr \<rightharpoonup> ll_item) \<Rightarrow> ptr \<Rightarrow> u8 \<Rightarrow> ptr \<Rightarrow> nodes \<Rightarrow> ptr \<Rightarrow> bool" where
  "seg its slf k a [] e = True"
| "seg its slf k a ((p, d) # ns) e =
     (its p = Some \<lparr>it_cxt = slf, it_col = k, it_prev = a, it_next = head_or e ns, it_data = d\<rparr> \<and>
      seg its slf k p ns e)"

lemma seg_append:
  "seg its slf k a (xs @ ys) e \<longleftrightarrow> seg its slf k a xs (head_or e ys) \<and> seg its slf k (last_or a xs) ys e"
proof (induction xs arbitrary: a)
  case Nil
  then show ?case by simp
next
  case (Cons x xs)
  obtain p d where x: "x = (p, d)" by force
  have "head_or e (xs @ ys) = head_or (head_or e ys) xs"
    by (cases xs) simp_all
  with Cons x show ?case by simp
qed

lemma seg_frame: "p \<notin> addrs ns \<Longrightarrow> seg (its(p := v)) slf k a ns e = seg its slf k a ns e"
  by (induction its slf k a ns e rule: seg.induct) auto

lemma seg_cong:
  "(\<And>p. p \<in> addrs ns \<Longrightarrow> its' p = its p) \<Longrightarrow> seg its' slf k a ns e = seg its slf k a ns e"
  by (induction its slf k a ns e rule: seg.induct) auto

lemma seg_lookup:
  "seg its slf k a (xs @ (p, d) # ys) e \<Longrightarrow>
   its p = Some \<lparr>it_cxt = slf, it_col = k, it_prev = last_or a xs, it_next = head_or e ys, it_data = d\<rparr>"
  by (simp add: seg_append)

text \<open>Relinking the ends of a segment.\<close>

lemma seg_set_next:
  assumes "seg its slf k a ns e" and "ns \<noteq> []" and "distinct (map fst ns)"
  obtains it where "its (fst (last ns)) = Some it"
    and "seg (its(fst (last ns) \<mapsto> it\<lparr>it_next := e'\<rparr>)) slf k a ns e'"
proof -
  obtain xs p d where ns: "ns = xs @ [(p, d)]"
    using assms(2) by (metis append_butlast_last_id surj_pair)
  with assms(3) have "p \<notin> addrs xs" by auto
  with assms(1) ns show ?thesis
    by (intro that [of "\<lparr>it_cxt = slf, it_col = k, it_prev = last_or a xs, it_next = e, it_data = d\<rparr>"])
      (auto simp: seg_append seg_frame)
qed

lemma seg_set_prev:
  assumes "seg its slf k a ns e" and "ns \<noteq> []" and "distinct (map fst ns)"
  obtains it where "its (fst (hd ns)) = Some it"
    and "seg (its(fst (hd ns) \<mapsto> it\<lparr>it_prev := a'\<rparr>)) slf k a' ns e"
proof -
  obtain p d ys where ns: "ns = (p, d) # ys"
    using assms(2) by (metis list.exhaust surj_pair)
  with assms(3) have "p \<notin> addrs ys" by auto
  with assms(1) ns show ?thesis
    by (intro that [of "\<lparr>it_cxt = slf, it_col = k, it_prev = a, it_next = head_or e ys, it_data = d\<rparr>"])
      (auto simp: seg_frame)
qed

section \<open>The abstraction\<close>

definition column :: "(ptr \<rightharpoonup> ll_item) \<Rightarrow> ptr \<Rightarrow> u8 \<Rightarrow> ll_state \<Rightarrow> nodes \<Rightarrow> bool" where
  "column its slf k s ns \<longleftrightarrow> seg its slf k 0 ns 0 \<and> distinct (map fst ns) \<and> 0 \<notin> addrs ns \<and>
     p_first s = head_or 0 ns \<and> p_last s = last_or 0 ns \<and> unat (count s) = length ns \<and>
     (if ns = [] then p_current s = 0 else p_current s \<in> addrs ns)"

definition cursor :: "ll_state \<Rightarrow> nodes \<Rightarrow> nat \<Rightarrow> bool" where
  "cursor s ns i \<longleftrightarrow> ns \<noteq> [] \<longrightarrow> i < length ns \<and> unat (current s) = i \<and> p_current s = fst (ns ! i)"

text \<open>\<open>vec c cols\<close>: the context's columns are the lists \<open>cols\<close>.\<close>

definition vec :: "'u ll_context \<Rightarrow> (u8 \<Rightarrow> nodes) \<Rightarrow> bool" where
  "vec c cols \<longleftrightarrow> mode c = LL_MODE_VECTOR \<and> ccol c < ncol c \<and>
     (\<forall>k<ncol c. \<exists>s. get_col c k = Some s \<and> column (items c) (self c) k s (cols k)) \<and>
     (\<forall>j<ncol c. \<forall>k<ncol c. j \<noteq> k \<longrightarrow> addrs (cols j) \<inter> addrs (cols k) = {})"

text \<open>What every operation leaves alone: the address and the shape of the context and its
  callbacks.\<close>

definition same_frame :: "'u ll_context \<Rightarrow> 'u ll_context \<Rightarrow> bool" where
  "same_frame c c' \<longleftrightarrow> self c' = self c \<and> mode c' = mode c \<and> data_size c' = data_size c \<and>
     p_alloc c' = p_alloc c \<and> p_free c' = p_free c \<and> p_lock c' = p_lock c \<and> p_unlock c' = p_unlock c \<and>
     ccol c' = ccol c \<and> ncol c' = ncol c"

section \<open>Projections of the context\<close>

lemma get_col_upd_same [simp]: "get_col (upd_col c k f) k = map_option f (get_col c k)"
  by (simp add: get_col_def upd_col_def split: option.split)

lemma get_col_upd_other [simp]: "j \<noteq> k \<Longrightarrow> get_col (upd_col c k f) j = get_col c j"
  by (auto simp: get_col_def upd_col_def word_unat_eq_iff split: option.split)

lemma upd_col_id: "upd_col c k (\<lambda>s. s) = c"
  by (cases "state c") (simp_all add: upd_col_def)

lemma upd_col_upd_col [simp]: "upd_col (upd_col c k f) k g = upd_col c k (\<lambda>s. g (f s))"
  by (cases "state c"; cases "\<exists>ss. state c = Some ss \<and> unat k < length ss") (auto simp: upd_col_def list_update_beyond)

lemma upd_col_cong: "get_col c k = Some s \<Longrightarrow> f s = g s \<Longrightarrow> upd_col c k f = upd_col c k g"
  by (auto simp: upd_col_def get_col_def split: option.splits if_splits)

lemma upd_col_noop: "get_col c k = Some s \<Longrightarrow> f s = s \<Longrightarrow> upd_col c k f = c"
  using upd_col_cong [of c k s f "\<lambda>s. s"] by (simp add: upd_col_id)

lemma get_col_frame [simp]:
  "get_col (c\<lparr>items := x\<rparr>) k = get_col c k" "get_col (c\<lparr>p_udata := u\<rparr>) k = get_col c k"
  "get_col (c\<lparr>ccol := y\<rparr>) k = get_col c k"
  by (simp_all add: get_col_def)

lemma upd_col_frame [simp]:
  "items (upd_col c k f) = items c" "self (upd_col c k f) = self c" "mode (upd_col c k f) = mode c"
  "data_size (upd_col c k f) = data_size c" "p_alloc (upd_col c k f) = p_alloc c"
  "p_free (upd_col c k f) = p_free c" "p_lock (upd_col c k f) = p_lock c"
  "p_unlock (upd_col c k f) = p_unlock c" "p_udata (upd_col c k f) = p_udata c"
  "ccol (upd_col c k f) = ccol c" "ncol (upd_col c k f) = ncol c"
  by (simp_all add: upd_col_def)

lemma same_frame_refl [simp]: "same_frame c c"
  by (simp add: same_frame_def)

lemma same_frame_trans: "same_frame a b \<Longrightarrow> same_frame b c \<Longrightarrow> same_frame a c"
  by (simp add: same_frame_def)

lemma same_frame_updates [simp]:
  "same_frame c (upd_col c' k f) = same_frame c c'"
  "same_frame c (c'\<lparr>items := x\<rparr>) = same_frame c c'"
  "same_frame c (c'\<lparr>p_udata := u\<rparr>) = same_frame c c'"
  by (simp_all add: same_frame_def)

lemma ll_lock_udata: "ll_lock c hl = Some (h, c') \<Longrightarrow> \<exists>u. c' = c\<lparr>p_udata := u\<rparr>"
  by (auto simp: ll_lock_def split: option.splits intro: exI [of _ "p_udata c"])

lemma ll_unlock_udata: "\<exists>u. ll_unlock c h = c\<lparr>p_udata := u\<rparr>"
  by (auto simp: ll_unlock_def split: option.splits intro: exI [of _ "p_udata c"])

lemma ll_unlock_frame [simp]:
  "items (ll_unlock c h) = items c" "get_col (ll_unlock c h) k = get_col c k"
  "same_frame c' (ll_unlock c h) = same_frame c' c" "self (ll_unlock c h) = self c"
  "mode (ll_unlock c h) = mode c" "ccol (ll_unlock c h) = ccol c" "ncol (ll_unlock c h) = ncol c"
  by (simp_all add: ll_unlock_def split: option.split)

lemma ll_unlock_pudata:
  "p_udata (ll_unlock c h) = (case p_unlock c of None \<Rightarrow> p_udata c | Some f \<Rightarrow> f h (p_udata c))"
  by (simp add: ll_unlock_def split: option.split)

lemma vec_udata [simp]: "vec (c\<lparr>p_udata := u\<rparr>) cols = vec c cols"
  by (simp add: vec_def)

lemma vec_unlock [simp]: "vec (ll_unlock c h) cols = vec c cols"
  by (simp add: vec_def)

lemma vec_cur:
  "vec c cols \<Longrightarrow> \<exists>s. cur_col c = Some s \<and> column (items c) (self c) (ccol c) s (cols (ccol c))"
  by (simp add: vec_def)

lemma vec_disjoint:
  "vec c cols \<Longrightarrow> j < ncol c \<Longrightarrow> k < ncol c \<Longrightarrow> j \<noteq> k \<Longrightarrow> p \<in> addrs (cols j) \<Longrightarrow> p \<notin> addrs (cols k)"
  unfolding vec_def by (metis disjoint_iff)

lemma vec_other:
  "vec c cols \<Longrightarrow> j < ncol c \<Longrightarrow> j \<noteq> ccol c \<Longrightarrow> p \<in> addrs (cols j) \<Longrightarrow> p \<notin> addrs (cols (ccol c))"
  using vec_disjoint [of c cols j "ccol c" p] by (simp add: vec_def)

lemma seg_alive: "seg its slf k a ns e \<Longrightarrow> addrs ns \<subseteq> dom its"
  by (induction its slf k a ns e rule: seg.induct) auto

lemma vec_alive: "vec c cols \<Longrightarrow> j < ncol c \<Longrightarrow> addrs (cols j) \<subseteq> dom (items c)"
  unfolding vec_def column_def by (meson seg_alive)

text \<open>An operation on the current column keeps the other columns when it writes no item of theirs.\<close>

lemma vec_update:
  assumes "vec c cols" and "same_frame c c'" and "cur_col c' = Some s'"
    and "column (items c') (self c) (ccol c) s' ns'"
    and "\<And>j. j \<noteq> ccol c \<Longrightarrow> get_col c' j = get_col c j"
    and "\<And>j p. j < ncol c \<Longrightarrow> j \<noteq> ccol c \<Longrightarrow> p \<in> addrs (cols j) \<Longrightarrow> items c' p = items c p \<and> p \<notin> addrs ns'"
  shows "vec c' (cols(ccol c := ns'))"
proof -
  have "seg (items c') slf k a (cols j) e = seg (items c) slf k a (cols j) e"
    if "j < ncol c" "j \<noteq> ccol c" for slf k a e j
    using assms(6) [OF that] by (intro seg_cong) auto
  then show ?thesis
    using assms unfolding vec_def same_frame_def
    by (auto simp: column_def)
qed

section \<open>Finding a record\<close>

lemma seg_nth:
  assumes "seg its slf k a ns e" and "i < length ns"
  shows "\<exists>it. its (fst (ns ! i)) = Some it \<and> it_prev it = (if i = 0 then a else fst (ns ! (i - 1))) \<and>
           it_next it = (if Suc i < length ns then fst (ns ! Suc i) else e) \<and> it_data it = snd (ns ! i) \<and>
           it_cxt it = slf \<and> it_col it = k"
proof -
  obtain xs p d ys where ns: "ns = xs @ (p, d) # ys" and i: "length xs = i"
    using id_take_nth_drop [OF assms(2)] assms(2)
    by (metis length_take less_or_eq_imp_le min.absorb2 surj_pair)
  have "last_or a xs = (if i = 0 then a else fst (ns ! (i - 1)))"
    using ns i by (cases xs rule: rev_cases) (auto simp: nth_append)
  moreover have "head_or e ys = (if Suc i < length ns then fst (ns ! Suc i) else e)"
    using ns i by (cases ys) (auto simp: nth_append)
  ultimately show ?thesis
    using seg_lookup [of its slf k a xs p d ys e] assms(1) ns i by auto
qed

lemma get_loop_finds:
  assumes "seg its slf kk a ns e" and "unat cnt = length ns"
    and "unat index < length ns" and "unat i < length ns" and "p = fst (ns ! unat i)"
  shows "get_loop its cnt index i p = Some (index, fst (ns ! unat index))"
  using assms
proof (induction its cnt index i p rule: get_loop.induct)
  case (1 its cnt index i p)
  from seg_nth [OF "1.prems"(1,4)] "1.prems"(5) obtain it where
    it: "its p = Some it" "it_prev it = (if unat i = 0 then a else fst (ns ! (unat i - 1)))"
      "it_next it = (if Suc (unat i) < length ns then fst (ns ! Suc (unat i)) else e)"
    by auto
  have lt: "i < cnt" using "1.prems" by (simp add: word_less_nat_alt)
  consider "i = index" | "index < i" | "i < index" by (metis linorder_neqE)
  then show ?case
  proof cases
    case 1
    with "1.prems" show ?thesis by (subst get_loop.simps) simp
  next
    case 2
    note pred = u32_pred_less [OF 2]
    have i0: "0 < unat i" using 2 by (simp add: word_less_nat_alt)
    show ?thesis
    proof (cases "i - 1 = 0")
      case True
      then have "i - 1 = index" using pred(3) by (metis le_zero_eq unat_0 unat_eq_zero)
      then have "index = 0" "unat i = 1" using True pred(1) i0 by auto
      with 2 lt it True show ?thesis by (subst get_loop.simps) auto
    next
      case False
      have "i \<noteq> index \<and> i < cnt" using 2 lt by auto
      from "1.IH"(2) [OF this 2 it(1) False pred(2)] "1.prems" it(2) pred(1) i0
      have "get_loop its cnt index (i - 1) (it_prev it) = Some (index, fst (ns ! unat index))"
        by simp
      with 2 lt it(1) False pred(2) show ?thesis by (subst get_loop.simps) auto
    qed
  next
    case 3
    then have n: "\<not> index < i" "i \<noteq> index" by auto
    note suc = u32_succ_less [OF 3]
    have "Suc (unat i) < length ns" using 3 "1.prems"(3) by (simp add: word_less_nat_alt)
    moreover have "i \<noteq> index \<and> i < cnt" using n lt by auto
    from "1.IH"(3) [OF this n(1) it(1)] calculation "1.prems" it(3) suc
    have "get_loop its cnt index (i + 1) (it_next it) = Some (index, fst (ns ! unat index))"
      by simp
    with n lt it(1) show ?thesis by (subst get_loop.simps) auto
  qed
qed

lemma column_nth:
  assumes "column its slf k s ns" and "i < length ns"
  shows "fst (ns ! i) \<noteq> 0" and "fst (ns ! i) \<in> addrs ns"
  using assms addrs_nth [of i ns] addrs_pos [of "fst (ns ! i)" ns] by (auto simp: column_def)

text \<open>\<open>_get\<close> walks to the record with the index and makes it current.\<close>

lemma get_vec:
  assumes v: "vec c cols" and s: "cur_col c = Some s" and cur: "cursor s (cols (ccol c)) i"
    and idx: "unat index < length (cols (ccol c))"
  shows "\<exists>c' s'. get c index = Some (fst (cols (ccol c) ! unat index), c') \<and>
           c' = upd_cur c (\<lambda>s. s\<lparr>current := index, p_current := fst (cols (ccol c) ! unat index)\<rparr>) \<and>
           vec c' cols \<and> cur_col c' = Some s' \<and> cursor s' (cols (ccol c)) (unat index)"
proof -
  let ?ns = "cols (ccol c)" and ?p = "fst (cols (ccol c) ! unat index)"
  let ?f = "\<lambda>s. s\<lparr>current := index, p_current := ?p\<rparr>"
  have col: "column (items c) (self c) (ccol c) s ?ns" using vec_cur [OF v] s by auto
  have ne: "?ns \<noteq> []" using idx by auto
  with cur have c: "unat (current s) < length ?ns" "p_current s = fst (?ns ! unat (current s))"
    by (auto simp: cursor_def)
  from col have cnt: "unat (count s) = length ?ns" and sg: "seg (items c) (self c) (ccol c) 0 ?ns 0"
    by (simp_all add: column_def)
  have "get_loop (items c) (count s) index (current s) (p_current s) = Some (index, ?p)"
    by (rule get_loop_finds [OF sg cnt idx c])
  moreover have "index < count s" using cnt idx by (simp add: word_less_nat_alt)
  moreover have "p_current s \<noteq> 0" using column_nth(1) [OF col c(1)] c(2) by simp
  ultimately have g: "get c index = Some (?p, upd_cur c ?f)" using s by (simp add: get_def)
  have "column (items c) (self c) (ccol c) (?f s) ?ns"
    using col ne column_nth(2) [OF col idx] by (simp add: column_def)
  then have "vec (upd_cur c ?f) (cols(ccol c := ?ns))"
    using s vec_other [OF v] by (intro vec_update [OF v, where s' = "?f s"]) simp_all
  with g s idx show ?thesis by (auto simp: cursor_def)
qed

section \<open>Adding a record\<close>

lemma wr_its_Some: "its p = Some it \<Longrightarrow> wr_its its p f = Some (its(p \<mapsto> f it))"
  by (simp add: wr_its_def)

lemma wr_item_Some: "items c p = Some it \<Longrightarrow> wr_item c p f = Some (c\<lparr>items := (items c)(p \<mapsto> f it)\<rparr>)"
  by (simp add: wr_item_def wr_its_Some)

lemma head_or_nz: "ns \<noteq> [] \<Longrightarrow> 0 \<notin> addrs ns \<Longrightarrow> head_or 0 ns \<noteq> 0"
  by (cases ns) auto

lemma last_or_nz: "ns \<noteq> [] \<Longrightarrow> 0 \<notin> addrs ns \<Longrightarrow> last_or 0 ns \<noteq> 0"
  by (cases ns rule: rev_cases) auto

lemma last_or_in: "ns \<noteq> [] \<Longrightarrow> last_or a ns \<in> addrs ns"
  by (cases ns rule: rev_cases) auto

lemma head_or_in: "ns \<noteq> [] \<Longrightarrow> head_or a ns \<in> addrs ns"
  by (cases ns) auto

text \<open>Setting the outer link of the last or the first item of a segment, when there is one.\<close>

lemma seg_relink_next:
  assumes "seg (items c) slf k a ns e" and "distinct (map fst ns)" and "0 \<notin> addrs ns" and "ns = [] \<Longrightarrow> q = 0"
    and "ns \<noteq> [] \<Longrightarrow> q = fst (last ns)"
  obtains its' where "wr_if c q (\<lambda>it. it\<lparr>it_next := e'\<rparr>) = Some (c\<lparr>items := its'\<rparr>)"
    and "seg its' slf k a ns e'" and "\<And>p. p \<notin> addrs ns \<Longrightarrow> its' p = items c p" and "dom its' = dom (items c)"
proof (cases "ns = []")
  case True
  with assms(4) show ?thesis by (intro that [of "items c"]) (auto simp: wr_if_def)
next
  case False
  from seg_set_next [OF assms(1) False assms(2)] obtain it where
    it: "items c (fst (last ns)) = Some it"
      "seg ((items c)(fst (last ns) \<mapsto> it\<lparr>it_next := e'\<rparr>)) slf k a ns e'" by blast
  have q: "q = fst (last ns)" "q \<noteq> 0" "q \<in> addrs ns"
    using False assms(3,5) addrs_ends [of ns] by (auto dest: addrs_pos)
  with it show ?thesis
    by (intro that [of "(items c)(q \<mapsto> it\<lparr>it_next := e'\<rparr>)"]) (auto simp: wr_if_def wr_item_Some)
qed

lemma seg_relink_prev:
  assumes "seg (items c) slf k a ns e" and "distinct (map fst ns)" and "0 \<notin> addrs ns" and "ns = [] \<Longrightarrow> q = 0"
    and "ns \<noteq> [] \<Longrightarrow> q = fst (hd ns)"
  obtains its' where "wr_if c q (\<lambda>it. it\<lparr>it_prev := a'\<rparr>) = Some (c\<lparr>items := its'\<rparr>)"
    and "seg its' slf k a' ns e" and "\<And>p. p \<notin> addrs ns \<Longrightarrow> its' p = items c p" and "dom its' = dom (items c)"
proof (cases "ns = []")
  case True
  with assms(4) show ?thesis by (intro that [of "items c"]) (auto simp: wr_if_def)
next
  case False
  from seg_set_prev [OF assms(1) False assms(2)] obtain it where
    it: "items c (fst (hd ns)) = Some it"
      "seg ((items c)(fst (hd ns) \<mapsto> it\<lparr>it_prev := a'\<rparr>)) slf k a' ns e" by blast
  have q: "q = fst (hd ns)" "q \<noteq> 0" "q \<in> addrs ns"
    using False assms(3,5) addrs_ends [of ns] by (auto dest: addrs_pos)
  with it show ?thesis
    by (intro that [of "(items c)(q \<mapsto> it\<lparr>it_prev := a'\<rparr>)"]) (auto simp: wr_if_def wr_item_Some)
qed

text \<open>\<open>ll_add\<close> appends the record, stored at the allocated address, and makes it current.\<close>

lemma ll_add_vec:
  assumes v: "vec c cols" and lk: "ll_lock c hl = Some (h, c1)" and al: "p_alloc c = Some f"
    and m: "f (item_size c) (p_udata c1) = Some (p, u)" and p: "p \<noteq> 0" "items c p = None"
    and len: "length (cols (ccol c)) + 1 < 2 ^ 32"
  shows "\<exists>c' s'. ll_add c src hl = Some (user_ptr p, c') \<and>
     vec c' (cols(ccol c := cols (ccol c) @ [(p, cpy src (data_size c))])) \<and> same_frame c c' \<and>
     cur_col c' = Some s' \<and>
     cursor s' (cols (ccol c) @ [(p, cpy src (data_size c))]) (length (cols (ccol c))) \<and>
     dom (items c') = insert p (dom (items c)) \<and> p_udata c' = p_udata (ll_unlock (c\<lparr>p_udata := u\<rparr>) h)"
proof -
  let ?ns = "cols (ccol c)" and ?d = "cpy src (data_size c)"
  obtain s where s: "cur_col c = Some s" and col: "column (items c) (self c) (ccol c) s ?ns"
    using vec_cur [OF v] by blast
  from col have sg: "seg (items c) (self c) (ccol c) 0 ?ns 0" "distinct (map fst ?ns)" "0 \<notin> addrs ?ns"
    and pl: "p_last s = last_or 0 ?ns" and pf: "p_first s = head_or 0 ?ns" and cnt: "unat (count s) = length ?ns"
    by (simp_all add: column_def)
  have pn: "p \<notin> addrs (cols j)" if "j < ncol c" for j using vec_alive [OF v that] p(2) by blast
  obtain its' where its': "wr_if (c\<lparr>p_udata := u\<rparr>) (p_last s) (\<lambda>it. it\<lparr>it_next := p\<rparr>) =
        Some (c\<lparr>p_udata := u, items := its'\<rparr>)" and sg': "seg its' (self c) (ccol c) 0 ?ns p"
    and fr: "\<And>q. q \<notin> addrs ?ns \<Longrightarrow> its' q = items c q" and dm: "dom its' = dom (items c)"
    using seg_relink_next [of "c\<lparr>p_udata := u\<rparr>" "self c" "ccol c" 0 ?ns 0 "p_last s" p] sg pl
    by (auto simp: last_or_def)
  obtain u0 where c1: "c1 = c\<lparr>p_udata := u0\<rparr>" using ll_lock_udata [OF lk] by blast
  let ?n = "\<lparr>it_cxt = self c, it_col = ccol c, it_prev = p_last s, it_next = 0, it_data = ?d\<rparr>"
  let ?c2 = "c\<lparr>p_udata := u, items := its'(p \<mapsto> ?n)\<rparr>"
  let ?c3 = "upd_cur (upd_cur (upd_cur ?c2 (\<lambda>s. s\<lparr>p_last := p, p_current := p\<rparr>))
               (\<lambda>s. if p_first s = 0 then s\<lparr>p_first := p\<rparr> else s))
               (\<lambda>s. s\<lparr>current := count s, count := count s + 1\<rparr>)"
  let ?s' = "s\<lparr>p_last := p, p_current := p, p_first := head_or p ?ns, current := count s, count := count s + 1\<rparr>"
  have vm: "mode c \<noteq> LL_MODE_QUEUE" using v by (simp add: vec_def LL_MODE_VECTOR_def LL_MODE_QUEUE_def)
  have r: "ll_add c src hl = Some (user_ptr p, ll_unlock ?c3 h)"
    using its' al m p(1) s vm
    by (simp add: ll_add_def lk c1 ll_malloc_def item_size_def Let_def)
  have "p_first s = 0 \<longleftrightarrow> ?ns = []" using pf head_or_nz [of ?ns] sg(3) by (metis head_or_simps(1))
  then have s': "cur_col ?c3 = Some ?s'" using s pf by (cases ?ns) (auto simp: head_or_def)
  have "column (its'(p \<mapsto> ?n)) (self c) (ccol c) ?s' (?ns @ [(p, ?d)])"
    using sg sg' pn [of "ccol c"] v p(1) pl cnt len
    by (auto simp: column_def seg_append seg_frame vec_def unat_inc_u32)
  then have "vec ?c3 (cols(ccol c := ?ns @ [(p, ?d)]))"
    using s' fr vec_other [OF v] pn
    by (intro vec_update [OF v, where s' = ?s']) (auto simp: same_frame_def)
  moreover have "cursor ?s' (?ns @ [(p, ?d)]) (length ?ns)"
    using cnt by (simp add: cursor_def)
  moreover have "same_frame c (ll_unlock ?c3 h)" "dom (items (ll_unlock ?c3 h)) = insert p (dom (items c))"
    "p_udata (ll_unlock ?c3 h) = p_udata (ll_unlock (c\<lparr>p_udata := u\<rparr>) h)"
    using dm by (simp_all add: ll_unlock_pudata split: option.split)
  ultimately show ?thesis
    using r s' by (intro exI [of _ "ll_unlock ?c3 h"] exI [of _ ?s'] conjI) (simp_all only: vec_unlock ll_unlock_frame)
qed

section \<open>Inserting a record\<close>

lemma distinct_insert:
  "distinct (map fst (xs @ ys)) \<Longrightarrow> p \<notin> addrs (xs @ ys) \<Longrightarrow> distinct (map fst (xs @ (p, d) # ys))"
  by auto

text \<open>The three writes that put the new item \<open>p\<close> between \<open>xs\<close> and \<open>ys\<close>.\<close>

lemma ins_links:
  assumes sg: "seg (items c) slf k 0 (xs @ ys) 0" and ds: "distinct (map fst (xs @ ys))"
    and nz: "0 \<notin> addrs (xs @ ys)" and ys: "ys \<noteq> []" and p: "p \<notin> addrs (xs @ ys)"
    and new: "items c p = Some \<lparr>it_cxt = slf, it_col = k, it_prev = x, it_next = y, it_data = d\<rparr>"
  obtains c1 c2 its' where "wr_if c (last_or 0 xs) (\<lambda>it. it\<lparr>it_next := p\<rparr>) = Some c1"
    and "wr_item c1 p (\<lambda>it. it\<lparr>it_prev := last_or 0 xs, it_next := head_or 0 ys\<rparr>) = Some c2"
    and "wr_item c2 (head_or 0 ys) (\<lambda>it. it\<lparr>it_prev := p\<rparr>) = Some (c\<lparr>items := its'\<rparr>)"
    and "seg its' slf k 0 (xs @ (p, d) # ys) 0" and "\<And>q. q \<notin> addrs (xs @ ys) \<Longrightarrow> q \<noteq> p \<Longrightarrow> its' q = items c q"
    and "dom its' = dom (items c)"
proof -
  have sx: "seg (items c) slf k 0 xs (head_or 0 ys)" and sy: "seg (items c) slf k (last_or 0 xs) ys 0"
    using sg by (simp_all add: seg_append)
  have dx: "distinct (map fst xs)" "0 \<notin> addrs xs" and dy: "distinct (map fst ys)" "0 \<notin> addrs ys"
    and xy: "addrs xs \<inter> addrs ys = {}" using ds nz by auto
  obtain its1 where w1: "wr_if c (last_or 0 xs) (\<lambda>it. it\<lparr>it_next := p\<rparr>) = Some (c\<lparr>items := its1\<rparr>)"
    and s1: "seg its1 slf k 0 xs p" and f1: "\<And>q. q \<notin> addrs xs \<Longrightarrow> its1 q = items c q"
    and d1: "dom its1 = dom (items c)"
    using seg_relink_next [OF sx dx, of "last_or 0 xs" p] by (auto simp: last_or_def)
  let ?n = "\<lparr>it_cxt = slf, it_col = k, it_prev = last_or 0 xs, it_next = head_or 0 ys, it_data = d\<rparr>"
  let ?c2 = "c\<lparr>items := its1(p \<mapsto> ?n)\<rparr>"
  have "its1 p = items c p" using f1 p by auto
  then have w2: "wr_item (c\<lparr>items := its1\<rparr>) p (\<lambda>it. it\<lparr>it_prev := last_or 0 xs, it_next := head_or 0 ys\<rparr>) = Some ?c2"
    using new by (simp add: wr_item_Some)
  have "seg (items ?c2) slf k (last_or 0 xs) ys 0 = seg (items c) slf k (last_or 0 xs) ys 0"
    using p xy f1 by (intro seg_cong) (auto simp: disjoint_iff)
  with sy have sy2: "seg (items ?c2) slf k (last_or 0 xs) ys 0" by simp
  have hq: "head_or 0 ys = fst (hd ys)" "head_or 0 ys \<noteq> 0" using ys dy by (auto simp: head_or_nz head_or_def split: list.split)
  from seg_relink_prev [OF sy2 dy, of "head_or 0 ys" p] hq ys obtain its2 where
    w3: "wr_if ?c2 (head_or 0 ys) (\<lambda>it. it\<lparr>it_prev := p\<rparr>) = Some (?c2\<lparr>items := its2\<rparr>)"
    and s3: "seg its2 slf k p ys 0" and f3: "\<And>q. q \<notin> addrs ys \<Longrightarrow> its2 q = items ?c2 q"
    and d3: "dom its2 = dom (items ?c2)" by blast
  have "seg its2 slf k 0 xs p = seg its1 slf k 0 xs p" using p xy f3 by (intro seg_cong) (auto simp: disjoint_iff)
  with s1 s3 f3 [of p] p have "seg its2 slf k 0 (xs @ (p, d) # ys) 0" by (simp add: seg_append)
  moreover have "its2 q = items c q" if "q \<notin> addrs (xs @ ys)" "q \<noteq> p" for q
    using that f1 f3 [of q] by auto
  moreover have "dom its2 = dom (items c)" using d3 d1 new by auto
  ultimately show ?thesis
    using w1 w2 w3 hq(2) by (intro that [of "c\<lparr>items := its1\<rparr>" ?c2 its2]) (auto simp: wr_if_def)
qed

lemma vec_fresh:
  assumes "vec c cols" and "items c p = None"
  shows "vec (c\<lparr>items := (items c)(p \<mapsto> x)\<rparr>) cols"
proof -
  have "p \<notin> addrs (cols j)" if "j < ncol c" for j
    using vec_alive [OF assms(1) that] assms(2) by blast
  with assms(1) show ?thesis by (simp add: vec_def column_def seg_frame)
qed

text \<open>Finding the place: with the new item \<open>p\<close> in the store, the walk to \<open>index - 1\<close> returns the
  item before the place, and at the front the new item becomes the first one.\<close>

lemma ins_place:
  assumes v: "vec c cols" and s: "cur_col c = Some s" and cur: "cursor s (cols (ccol c)) (unat index)"
    and idx: "unat index < length (cols (ccol c))"
  obtains f where "ins_prev c index p = map_option (Pair (last_or 0 (take (unat index) (cols (ccol c)))))
        (wr_if (upd_cur c f) (last_or 0 (take (unat index) (cols (ccol c)))) (\<lambda>it. it\<lparr>it_next := p\<rparr>))"
    and "count (f s) = count s" and "p_last (f s) = p_last s"
    and "p_first (f s) = head_or p (take (unat index) (cols (ccol c)))"
proof (cases "index = 0")
  case True
  then show ?thesis by (intro that [of "\<lambda>s. s\<lparr>p_first := p\<rparr>"]) (auto simp: wr_if_def ins_prev_def)
next
  case False
  let ?ns = "cols (ccol c)" and ?i = "unat (index - 1)"
  have i: "?i = unat index - 1" "0 < unat index" using False by (auto simp: unat_minus_one unat_gt_0)
  then have "?i < length ?ns" using idx by simp
  from get_vec [OF v s cur this] have g: "get c (index - 1) =
      Some (fst (?ns ! ?i), upd_cur c (\<lambda>s. s\<lparr>current := index - 1, p_current := fst (?ns ! ?i)\<rparr>))"
    by blast
  have "take (unat index) ?ns \<noteq> []" using i idx by auto
  moreover have "last (take (unat index) ?ns) = ?ns ! ?i"
    using i idx calculation by (simp add: last_conv_nth)
  ultimately have l: "last_or 0 (take (unat index) ?ns) = fst (?ns ! ?i)" by (simp add: last_or_def)
  have "p_first s = head_or 0 ?ns" using vec_cur [OF v] s by (auto simp: column_def)
  also have "\<dots> = head_or p (take (unat index) ?ns)"
    using i idx by (cases ?ns; cases "unat index") auto
  finally show ?thesis using False g l
    by (intro that [of "\<lambda>s. s\<lparr>current := index - 1, p_current := fst (?ns ! ?i)\<rparr>"])
      (auto simp: word_neq_0_conv ins_prev_def split: bind_splits)
qed

lemma ll_ins_vec:
  fixes c :: "'u ll_context" and src :: "nat \<Rightarrow> u8"
  assumes v: "vec c cols" and s: "cur_col c = Some s" and cur: "cursor s (cols (ccol c)) i"
    and idx: "unat index < length (cols (ccol c))"
    and lk: "ll_lock c hl = Some (h, c1)" and al: "p_alloc c = Some f"
    and m: "f (item_size c) (p_udata c1) = Some (p, u)" and p: "p \<noteq> 0" "items c p = None"
    and len: "length (cols (ccol c)) + 1 < 2 ^ 32"
  defines "ns' \<equiv> take (unat index) (cols (ccol c)) @ (p, cpy src (data_size c)) # drop (unat index) (cols (ccol c))"
  shows "\<exists>c' s'. ll_ins c index src hl = Some (user_ptr p, c') \<and> vec c' (cols(ccol c := ns')) \<and>
     same_frame c c' \<and> cur_col c' = Some s' \<and> cursor s' ns' (unat index) \<and>
     dom (items c') = insert p (dom (items c)) \<and> p_udata c' = p_udata (ll_unlock (c\<lparr>p_udata := u\<rparr>) h)"
proof -
  let ?ns = "cols (ccol c)" and ?d = "cpy src (data_size c)"
  let ?xs = "take (unat index) (cols (ccol c))" and ?ys = "drop (unat index) (cols (ccol c))"
  let ?p = "fst (?ns ! unat index)"
  obtain u0 where c1: "c1 = c\<lparr>p_udata := u0\<rparr>" using ll_lock_udata [OF lk] by blast
  have v1: "vec c1 cols" "cur_col c1 = Some s" using v s c1 by auto
  from get_vec [OF v1(1), of s i index] v1 cur idx obtain c2 s2 where
    g: "get c1 index = Some (?p, c2)" and
    c2: "c2 = upd_cur c1 (\<lambda>s. s\<lparr>current := index, p_current := ?p\<rparr>)" and
    v2: "vec c2 cols" "cur_col c2 = Some s2" "cursor s2 ?ns (unat index)"
    by (auto simp: c1)
  let ?n = "\<lparr>it_cxt = self c, it_col = ccol c, it_prev = 0, it_next = 0, it_data = ?d\<rparr>"
  let ?c3 = "c2\<lparr>p_udata := u, items := (items c)(p \<mapsto> ?n)\<rparr>"
  have fr: "items c2 = items c" "ccol c2 = ccol c" "ncol c2 = ncol c" "self c2 = self c" "p_alloc c2 = p_alloc c"
    "data_size c2 = data_size c" "p_unlock c2 = p_unlock c" "mode c2 = mode c" "p_udata c2 = u0"
    using c2 c1 by auto
  have v3: "vec ?c3 cols" "cur_col ?c3 = Some s2"
    using vec_fresh [of "c2\<lparr>p_udata := u\<rparr>" cols p] v2 p fr by simp_all
  obtain f' where pl: "ins_prev ?c3 index p = map_option (Pair (last_or 0 ?xs)) (wr_if (upd_cur ?c3 f') (last_or 0 ?xs) (\<lambda>it. it\<lparr>it_next := p\<rparr>))"
    and f': "count (f' s2) = count s2" "p_last (f' s2) = p_last s2" "p_first (f' s2) = head_or p ?xs"
    using ins_place [OF v3, of index p] v2(3) idx fr(2) by (auto simp: fr)
  let ?c4 = "upd_cur ?c3 f'"
  have col: "column (items ?c3) (self c) (ccol c) s2 ?ns" using vec_cur [OF v3(1)] v3(2) fr by auto
  have ns: "?xs @ ?ys = ?ns" "?ys \<noteq> []" "head_or 0 ?ys = ?p"
    using idx by simp_all (simp add: Cons_nth_drop_Suc [symmetric])
  have pn: "p \<notin> addrs (cols j)" if "j < ncol c" for j using vec_alive [OF v that] p(2) by blast
  then have pns: "p \<notin> addrs ?ns" using v by (simp add: vec_def)
  have sg4: "seg (items ?c4) (self c) (ccol c) 0 (?xs @ ?ys) 0" "distinct (map fst (?xs @ ?ys))"
    "0 \<notin> addrs (?xs @ ?ys)" "p \<notin> addrs (?xs @ ?ys)"
    using col pns unfolding ns(1) by (simp_all add: column_def)
  have n4: "items ?c4 p = Some ?n" by simp
  obtain c5 c6 its' where w5: "wr_if ?c4 (last_or 0 ?xs) (\<lambda>it. it\<lparr>it_next := p\<rparr>) = Some c5"
    and w6: "wr_item c5 p (\<lambda>it. it\<lparr>it_prev := last_or 0 ?xs, it_next := head_or 0 ?ys\<rparr>) = Some c6"
      "wr_item c6 (head_or 0 ?ys) (\<lambda>it. it\<lparr>it_prev := p\<rparr>) = Some (?c4\<lparr>items := its'\<rparr>)"
    and sg6: "seg its' (self c) (ccol c) 0 (?xs @ (p, ?d) # ?ys) 0"
    and fr6: "\<And>q. q \<notin> addrs (?xs @ ?ys) \<Longrightarrow> q \<noteq> p \<Longrightarrow> its' q = items ?c4 q" and dm: "dom its' = dom (items ?c4)"
    by (rule ins_links [OF sg4(1-3) ns(2) sg4(4) n4]) (rule that)
  let ?c7 = "upd_cur (?c4\<lparr>items := its'\<rparr>) (\<lambda>s. s\<lparr>p_current := p, current := index, count := count s + 1\<rparr>)"
  let ?s7 = "(f' s2)\<lparr>p_current := p, current := index, count := count s2 + 1\<rparr>"
  have cnt: "unat (count s) = length ?ns" "unat (count s2) = length ?ns"
    using vec_cur [OF v] s vec_cur [OF v2(1)] v2(2) fr by (auto simp: column_def)
  have "?p \<noteq> 0" using column_nth(1) [OF col idx] .
  then have r: "ll_ins c index src hl = Some (user_ptr p, ll_unlock ?c7 h)"
    using s cnt idx lk g al m p(1) pl w5 w6 ns(3)
    by (simp add: ll_ins_def word_less_nat_alt ll_malloc_def fr item_size_def Let_def c1)
  have s7: "cur_col ?c7 = Some ?s7" using v3(2) f' by simp
  have "addrs ?xs \<union> addrs ?ys = addrs ?ns" by (metis ns(1) addrs_simps(3))
  then have ads: "addrs ns' = insert p (addrs ?ns)" "length ns' = Suc (length ?ns)"
    using idx by (auto simp: ns'_def)
  have "distinct (map fst ns')"
    unfolding ns'_def by (rule distinct_insert [OF sg4(2,4)])
  moreover have "last_or 0 ns' = last_or 0 ?ns" "head_or 0 ns' = head_or p ?xs"
    using ns(2) idx by (auto simp: ns'_def last_or_def)
  moreover have "ns' \<noteq> []" by (simp add: ns'_def)
  ultimately have "column its' (self c) (ccol c) ?s7 ns'"
    using sg6 col f' p(1) cnt(2) len ads pns by (simp add: column_def unat_inc_u32 ns'_def [symmetric])
  then have "vec ?c7 (cols(ccol c := ns'))"
    using s7 fr6 vec_other [OF v] pn ads(1) v c2 c1 unfolding ns(1)
    by (intro vec_update [OF v, where s' = ?s7]) (auto simp: same_frame_def)
  moreover have "cursor ?s7 ns' (unat index)"
    using idx by (simp add: cursor_def ns'_def nth_append)
  moreover have "same_frame c (ll_unlock ?c7 h)" "dom (items (ll_unlock ?c7 h)) = insert p (dom (items c))"
    "p_udata (ll_unlock ?c7 h) = p_udata (ll_unlock (c\<lparr>p_udata := u\<rparr>) h)"
    using dm c2 c1 by (simp_all add: ll_unlock_pudata split: option.split)
  ultimately show ?thesis
    using r s7 fr by (intro exI [of _ "ll_unlock ?c7 h"] exI [of _ ?s7] conjI) (simp_all only: vec_unlock ll_unlock_frame)
qed

section \<open>Deleting a record\<close>

lemma unlink_next_eq:
  assumes it: "items c p = Some it" "it_next it = head_or 0 ys"
    and sg: "seg (items c) slf k p ys 0" "distinct (map fst ys)" "0 \<notin> addrs ys"
  obtains its' where "unlink_next c p =
      Some (upd_cur (c\<lparr>items := its'\<rparr>) (\<lambda>s. if ys = [] then s else s\<lparr>p_current := head_or 0 ys\<rparr>))"
    and "seg its' slf k (it_prev it) ys 0" and "\<And>q. q \<notin> addrs ys \<Longrightarrow> its' q = items c q"
    and "dom its' = dom (items c)"
proof (cases "ys = []")
  case True
  with it show ?thesis by (intro that [of "items c"]) (auto simp: unlink_next_def upd_col_id)
next
  case False
  let ?f = "\<lambda>s. s\<lparr>p_current := head_or 0 ys\<rparr>"
  have nz: "head_or 0 ys \<noteq> 0" using head_or_nz [OF False sg(3)] .
  have "seg (items (upd_cur c ?f)) slf k p ys 0" using sg(1) by simp
  moreover have "head_or 0 ys = fst (hd ys)" using False by (cases ys) auto
  ultimately obtain its' where
    w: "wr_if (upd_cur c ?f) (head_or 0 ys) (\<lambda>x. x\<lparr>it_prev := it_prev it\<rparr>) = Some ((upd_cur c ?f)\<lparr>items := its'\<rparr>)"
    and "seg its' slf k (it_prev it) ys 0" "\<And>q. q \<notin> addrs ys \<Longrightarrow> its' q = items c q" "dom its' = dom (items c)"
    using seg_relink_prev [of "upd_cur c ?f" slf k p ys 0 "head_or 0 ys" "it_prev it"] sg(2,3) False
    by auto
  moreover have "(upd_cur c ?f)\<lparr>items := its'\<rparr> = upd_cur (c\<lparr>items := its'\<rparr>) ?f"
    by (simp add: upd_col_def)
  ultimately show ?thesis
    using it nz False by (intro that [of its']) (auto simp: unlink_next_def wr_if_def)
qed

lemma unlink_first_eq:
  assumes "items c p = Some it" and "cur_col c = Some s" and "mode c = LL_MODE_VECTOR"
  shows "unlink_first c p =
    Some (upd_cur c (\<lambda>s. if p = p_first s then s\<lparr>p_first := it_next it, p_current := it_next it\<rparr> else s))"
  using assms by (auto simp: unlink_first_def LL_MODE_VECTOR_def LL_MODE_QUEUE_def upd_col_id
      intro: upd_col_cong upd_col_noop [symmetric])

lemma unlink_last_eq:
  assumes "items c p = Some it" and "cur_col c = Some s" and "mode c = LL_MODE_VECTOR"
  shows "unlink_last c p =
    Some (upd_cur c (\<lambda>s. if p = p_last s then s\<lparr>p_last := it_prev it, p_current := it_prev it,
                                   current := current s - 1\<rparr> else s))"
  using assms by (auto simp: unlink_last_def LL_MODE_VECTOR_def LL_MODE_QUEUE_def
      intro: upd_col_cong upd_col_noop [symmetric])

text \<open>Unlinking the item between \<open>xs\<close> and \<open>ys\<close>: the neighbours are linked, and the cursor moves to
  the next item, or to the previous one at the end of the list.\<close>

lemma ll_unlink_vec:
  assumes v: "vec c cols" and s: "cur_col c = Some s" and ns: "cols (ccol c) = xs @ (p, d) # ys"
    and cur: "cursor s (cols (ccol c)) (length xs)" and fr: "p_free c = Some f"
    and fu: "f p (item_size c) (p_udata c) = Some u"
  shows "\<exists>c' s'. ll_unlink c p = Some c' \<and> vec c' (cols(ccol c := xs @ ys)) \<and> same_frame c c' \<and>
     cur_col c' = Some s' \<and> cursor s' (xs @ ys) (if ys = [] then length xs - 1 else length xs) \<and>
     dom (items c') = dom (items c) - {p} \<and> p_udata c' = u"
proof -
  let ?ns = "xs @ (p, d) # ys" and ?a = "last_or 0 xs" and ?b = "head_or 0 ys"
  have col: "column (items c) (self c) (ccol c) s ?ns" using vec_cur [OF v] s ns by auto
  then have sg: "seg (items c) (self c) (ccol c) 0 ?ns 0" "distinct (map fst ?ns)" "0 \<notin> addrs ?ns"
    and pl: "p_last s = last_or 0 ?ns" and pf: "p_first s = head_or 0 ?ns" and cnt: "unat (count s) = length ?ns"
    by (simp_all add: column_def)
  have sx: "seg (items c) (self c) (ccol c) 0 xs p" "distinct (map fst xs)" "0 \<notin> addrs xs"
    and sy: "seg (items c) (self c) (ccol c) p ys 0" "distinct (map fst ys)" "0 \<notin> addrs ys"
    and pxy: "p \<notin> addrs xs" "p \<notin> addrs ys" "addrs xs \<inter> addrs ys = {}" "p \<noteq> 0"
    using sg by (auto simp: seg_append)
  let ?it = "\<lparr>it_cxt = self c, it_col = ccol c, it_prev = ?a, it_next = ?b, it_data = d\<rparr>"
  have it: "items c p = Some ?it" using seg_lookup [OF sg(1)] .
  obtain its1 where w1: "wr_if c ?a (\<lambda>x. x\<lparr>it_next := ?b\<rparr>) = Some (c\<lparr>items := its1\<rparr>)"
    and s1: "seg its1 (self c) (ccol c) 0 xs ?b" and f1: "\<And>q. q \<notin> addrs xs \<Longrightarrow> its1 q = items c q"
    and d1: "dom its1 = dom (items c)"
    using seg_relink_next [OF sx, of ?a ?b] by (auto simp: last_or_def)
  define c1 where "c1 = c\<lparr>items := its1\<rparr>"
  have c1: "items c1 p = Some ?it" "cur_col c1 = Some s"
    using f1 [of p] pxy it s by (simp_all add: c1_def)
  have "seg its1 (self c) (ccol c) p ys 0 = seg (items c) (self c) (ccol c) p ys 0"
    using pxy f1 by (intro seg_cong) (auto simp: disjoint_iff)
  with sy(1) have "seg (items c1) (self c) (ccol c) p ys 0" by (simp add: c1_def)
  from unlink_next_eq [OF c1(1) _ this sy(2,3)] obtain its2 where
    w2: "unlink_next c1 p = Some (upd_cur (c1\<lparr>items := its2\<rparr>) (\<lambda>s. if ys = [] then s else s\<lparr>p_current := ?b\<rparr>))"
    and s2: "seg its2 (self c) (ccol c) ?a ys 0" and f2: "\<And>q. q \<notin> addrs ys \<Longrightarrow> its2 q = its1 q"
    and d2: "dom its2 = dom its1" by (auto simp: c1_def)
  define g where "g s = (if ys = [] then s else s\<lparr>p_current := ?b\<rparr>)" for s :: ll_state
  define c2 where "c2 = upd_cur (c\<lparr>items := its2\<rparr>) g"
  have i2: "items c2 p = Some ?it" "cur_col c2 = Some (g s)" "mode c2 = LL_MODE_VECTOR"
    using f2 [of p] c1 pxy s v by (simp_all add: c2_def c1_def vec_def)
  define g1 where "g1 s = (if p = p_first s then s\<lparr>p_first := ?b, p_current := ?b\<rparr> else s)" for s :: ll_state
  define g2 where "g2 s = (if p = p_last s then s\<lparr>p_last := ?a, p_current := ?a, current := current s - 1\<rparr> else s)" for s :: ll_state
  define c3 where "c3 = upd_cur c2 g1"
  have i3: "items c3 p = Some ?it" "cur_col c3 = Some (g1 (g s))" "mode c3 = LL_MODE_VECTOR"
    using i2 by (simp_all add: c3_def)
  define c4 where "c4 = upd_cur (upd_cur c3 g2) (\<lambda>s. s\<lparr>count := count s - 1\<rparr>)"
  have fr4: "items c4 = its2" "same_frame c c4" "p_udata c4 = p_udata c" "item_size c4 = item_size c"
    by (simp_all add: c4_def c3_def c2_def item_size_def)
  define s4 where "s4 = (g2 (g1 (g s)))\<lparr>count := count s - 1\<rparr>"
  have g_eq: "g = (\<lambda>s. if ys = [] then s else s\<lparr>p_current := ?b\<rparr>)"
    "g1 = (\<lambda>s. if p = p_first s then s\<lparr>p_first := ?b, p_current := ?b\<rparr> else s)"
    "g2 = (\<lambda>s. if p = p_last s then s\<lparr>p_last := ?a, p_current := ?a, current := current s - 1\<rparr> else s)"
    by (simp_all add: fun_eq_iff g_def g1_def g2_def)
  have e1: "wr_if c ?a (\<lambda>x. x\<lparr>it_next := ?b\<rparr>) = Some c1" "unlink_next c1 p = Some c2"
    using w1 w2 by (simp_all add: c1_def c2_def g_eq(1))
  have e2: "unlink_first c2 p = Some c3" "unlink_last c3 p = Some (upd_cur c3 g2)"
    using unlink_first_eq [OF i2] unlink_last_eq [OF i3] unfolding ll_item.select_convs g_eq(2,3) [symmetric]
    by (simp_all only: c3_def)
  have "item_size (upd_cur c3 g2) = item_size c4" by (simp add: item_size_def c4_def)
  then have "ll_unlink c p = ll_mfree c4 p (item_size c4)"
    using pxy(4) fr it e1 e2 unfolding c4_def by (simp add: ll_unlink_def del: upd_col_upd_col)
  then have r: "ll_unlink c p =
      Some (c4\<lparr>p_udata := u, items := its2(p := None)\<rparr>)"
    using fr fu fr4 by (simp add: ll_mfree_def same_frame_def)
  have sx2: "seg its2 (self c) (ccol c) 0 xs ?b"
    using s1 seg_cong [of xs its2 its1] f2 pxy by (auto simp: disjoint_iff)
  have xs: "head_or p xs = p \<longleftrightarrow> xs = []" using pxy(1) by (cases xs) auto
  have ys: "last_or p ys = p \<longleftrightarrow> ys = []" using pxy(2) last_or_in [of ys p] by (cases "ys = []") auto
  have s4: "p_first s4 = head_or ?b xs" "p_last s4 = last_or ?a ys" "count s4 = count s - 1"
    "p_current s4 = (if ys = [] then ?a else ?b)" "current s4 = (if ys = [] then current s - 1 else current s)"
    unfolding s4_def g_def g1_def g2_def using pf pl xs ys pxy(4) cur ns
    by (cases xs; cases ys rule: rev_cases; auto simp: cursor_def head_or_def last_or_def)+
  have cur': "unat (current s) = length xs" using cur ns by (simp add: cursor_def)
  have cu: "cursor s4 (xs @ ys) (if ys = [] then length xs - 1 else length xs)"
    using s4(4,5) cur' by (cases xs rule: rev_cases; cases ys) (auto simp: cursor_def nth_append unat_dec_u32)
  have "unat (count s - 1) = length (xs @ ys)" using cnt by (simp add: unat_dec_u32)
  moreover have "head_or 0 (xs @ ys) = head_or ?b xs" "last_or 0 (xs @ ys) = last_or ?a ys"
    by (cases xs; simp) (simp add: last_or_def)
  moreover have "if xs @ ys = [] then p_current s4 = 0 else p_current s4 \<in> addrs (xs @ ys)"
    using s4(4) last_or_in [of xs 0] head_or_in [of ys 0] by auto
  ultimately have co: "column (its2(p := None)) (self c) (ccol c) s4 (xs @ ys)"
    using sg(2,3) sx2 s2 s4 pxy by (auto simp: column_def seg_append seg_frame)
  let ?c5 = "c4\<lparr>p_udata := u, items := its2(p := None)\<rparr>"
  have c5: "cur_col ?c5 = Some s4" "same_frame c ?c5" "items ?c5 = its2(p := None)"
    using i3(2) s4(3) fr4 by (simp_all add: c4_def c3_def c2_def s4_def g_def g1_def g2_def s)
  have "vec ?c5 (cols(ccol c := xs @ ys))"
  proof (rule vec_update [OF v c5(2,1)])
    show "column (items ?c5) (self c) (ccol c) s4 (xs @ ys)" using co by simp
    show "get_col ?c5 j = get_col c j" if "j \<noteq> ccol c" for j
      using that by (simp add: c4_def c3_def c2_def)
    show "items ?c5 q = items c q \<and> q \<notin> addrs (xs @ ys)"
      if "j < ncol c" "j \<noteq> ccol c" "q \<in> addrs (cols j)" for j q
      using vec_other [OF v that] ns f1 f2 by simp
  qed
  with r c5 cu d1 d2 fr4 show ?thesis
    by (intro exI [of _ ?c5] exI [of _ s4] conjI) auto
qed

text \<open>\<open>ll_del\<close> removes the record with the index; the record after it becomes current.\<close>

lemma ll_del_vec:
  assumes v: "vec c cols" and s: "cur_col c = Some s" and cur: "cursor s (cols (ccol c)) i"
    and idx: "unat index < length (cols (ccol c))" and lk: "ll_lock c hl = Some (h, c1)"
    and fr: "p_free c = Some f"
    and fu: "f (fst (cols (ccol c) ! unat index)) (item_size c) (p_udata c1) = Some u"
  defines "ns' \<equiv> take (unat index) (cols (ccol c)) @ drop (Suc (unat index)) (cols (ccol c))"
  shows "\<exists>c' s'. ll_del c index hl = Some c' \<and> vec c' (cols(ccol c := ns')) \<and> same_frame c c' \<and>
     cur_col c' = Some s' \<and>
     cursor s' ns' (if Suc (unat index) = length (cols (ccol c)) then unat index - 1 else unat index) \<and>
     dom (items c') = dom (items c) - {fst (cols (ccol c) ! unat index)} \<and>
     p_udata c' = p_udata (ll_unlock (c\<lparr>p_udata := u\<rparr>) h)"
proof -
  let ?ns = "cols (ccol c)" and ?xs = "take (unat index) (cols (ccol c))"
  let ?ys = "drop (Suc (unat index)) (cols (ccol c))"
  obtain p d where pd: "?ns ! unat index = (p, d)" by fastforce
  have ns: "?ns = ?xs @ (p, d) # ?ys" using id_take_nth_drop [OF idx] pd by simp
  have lx: "length ?xs = unat index" using idx by simp
  obtain u0 where c1: "c1 = c\<lparr>p_udata := u0\<rparr>" using ll_lock_udata [OF lk] by blast
  have v1: "vec c1 cols" "cur_col c1 = Some s" using v s c1 by auto
  from get_vec [OF v1(1), of s i index] v1 cur idx pd obtain c2 s2 where
    g: "get c1 index = Some (p, c2)" and
    c2: "c2 = upd_cur c1 (\<lambda>s. s\<lparr>current := index, p_current := p\<rparr>)" and
    v2: "vec c2 cols" "cur_col c2 = Some s2" "cursor s2 ?ns (unat index)"
    by (auto simp: c1)
  have f2: "ccol c2 = ccol c" "p_free c2 = Some f" "items c2 = items c" "same_frame c c2"
    "item_size c2 = item_size c" "p_udata c2 = u0"
    using c2 c1 fr by (simp_all add: item_size_def)
  from ll_unlink_vec [OF v2(1,2), of ?xs p d ?ys f u] v2(3) ns lx f2 fu pd c1 obtain c3 s3 where
    u: "ll_unlink c2 p = Some c3" "vec c3 (cols(ccol c := ns'))" "same_frame c2 c3" "cur_col c3 = Some s3"
      "cursor s3 ns' (if ?ys = [] then length ?xs - 1 else length ?xs)"
      "dom (items c3) = dom (items c) - {p}" "p_udata c3 = u"
    unfolding ns'_def by auto
  have "ll_del c index hl = Some (ll_unlock c3 h)"
    using lk g u(1) by (simp add: ll_del_def)
  moreover have "(?ys = []) = (Suc (unat index) = length ?ns)" using idx by auto
  moreover have "same_frame c c3" using same_frame_trans [OF f2(4) u(3)] .
  moreover from this have "p_unlock c3 = p_unlock c" by (simp add: same_frame_def)
  ultimately show ?thesis
    using u pd lx c1 by (intro exI [of _ "ll_unlock c3 h"] exI [of _ s3] conjI)
      (auto simp: ll_unlock_pudata split: option.split)
qed

text \<open>Deleting the current record.\<close>

lemma ll_del_current_vec:
  assumes v: "vec c cols" and s: "cur_col c = Some s" and cur: "cursor s (cols (ccol c)) i"
    and ne: "cols (ccol c) \<noteq> []" and lk: "ll_lock c hl = Some (h, c1)" and fr: "p_free c = Some f"
    and fu: "f (fst (cols (ccol c) ! i)) (item_size c) (p_udata c1) = Some u"
  defines "ns' \<equiv> take i (cols (ccol c)) @ drop (Suc i) (cols (ccol c))"
  shows "\<exists>c' s'. ll_del_current c hl = Some c' \<and> vec c' (cols(ccol c := ns')) \<and> same_frame c c' \<and>
     cur_col c' = Some s' \<and> cursor s' ns' (if Suc i = length (cols (ccol c)) then i - 1 else i) \<and>
     dom (items c') = dom (items c) - {fst (cols (ccol c) ! i)} \<and>
     p_udata c' = p_udata (ll_unlock (c\<lparr>p_udata := u\<rparr>) h)"
proof -
  let ?ns = "cols (ccol c)" and ?xs = "take i (cols (ccol c))" and ?ys = "drop (Suc i) (cols (ccol c))"
  have idx: "i < length ?ns" and pc: "p_current s = fst (?ns ! i)" using cur ne by (auto simp: cursor_def)
  obtain p d where pd: "?ns ! i = (p, d)" by fastforce
  have ns: "?ns = ?xs @ (p, d) # ?ys" using id_take_nth_drop [OF idx] pd by simp
  obtain u0 where c1: "c1 = c\<lparr>p_udata := u0\<rparr>" using ll_lock_udata [OF lk] by blast
  have v1: "vec c1 cols" "cur_col c1 = Some s" "ccol c1 = ccol c" "p_free c1 = Some f" "items c1 = items c"
    "same_frame c c1" "item_size c1 = item_size c" using v s c1 fr by (auto simp: item_size_def)
  from ll_unlink_vec [OF v1(1,2), of ?xs p d ?ys f u] ns v1 cur idx fu pd obtain c3 s3 where
    u: "ll_unlink c1 p = Some c3" "vec c3 (cols(ccol c := ns'))" "same_frame c1 c3" "cur_col c3 = Some s3"
      "cursor s3 ns' (if ?ys = [] then length ?xs - 1 else length ?xs)" "dom (items c3) = dom (items c) - {p}" "p_udata c3 = u"
    unfolding ns'_def by auto
  have "ll_del_current c hl = Some (ll_unlock c3 h)"
    using lk v1 u(1) pc pd by (simp add: ll_del_current_def)
  moreover have "(?ys = []) = (Suc i = length ?ns)" "length ?xs = i" using idx by auto
  moreover have "same_frame c c3" using same_frame_trans [OF v1(6) u(3)] .
  moreover from this have "p_unlock c3 = p_unlock c" by (simp add: same_frame_def)
  ultimately show ?thesis
    using u pd by (intro exI [of _ "ll_unlock c3 h"] exI [of _ s3] conjI)
      (auto simp: ll_unlock_pudata split: option.split)
qed

section \<open>Clearing a column\<close>

text \<open>\<open>J S u\<close> is an invariant of the user data in which the addresses \<open>S\<close> are allocated; a release
  keeps it.\<close>

lemma clr_loop_frees:
  assumes "seg (items c) slf k a ns 0" and "distinct (map fst ns)" and "0 \<notin> addrs ns"
    and "p = head_or 0 ns" and "unat cnt = unat i + length ns" and "p_free c = Some f"
    and "cur_col c = Some s" and "J S (p_udata c)" and "addrs ns \<subseteq> S"
    and J: "\<And>S u p sz. J S u \<Longrightarrow> p \<in> S \<Longrightarrow> \<exists>u'. f p sz u = Some u' \<and> J (S - {p}) u'"
  shows "\<exists>c' s'. clr_loop c cnt i p = Some c' \<and> items c' = items c |` (- addrs ns) \<and> same_frame c c' \<and>
     cur_col c' = Some s' \<and> (\<forall>j. j \<noteq> ccol c \<longrightarrow> get_col c' j = get_col c j) \<and>
     J (S - addrs ns) (p_udata c')"
  using assms(1-9)
proof (induction ns arbitrary: c a i p s S)
  case Nil
  then show ?case by (subst clr_loop.simps) (auto simp: restrict_map_def fun_eq_iff)
next
  case (Cons n ns)
  obtain q d where n: "n = (q, d)" by force
  with Cons.prems(4) have pq: "p = q" by simp
  from Cons.prems n have it: "items c q = Some \<lparr>it_cxt = slf, it_col = k, it_prev = a, it_next = head_or 0 ns, it_data = d\<rparr>"
    and q: "q \<noteq> 0" "q \<notin> addrs ns" "q \<in> S" and lt: "i < cnt" by (auto simp: word_less_nat_alt)
  from J [OF Cons.prems(8) q(3), of "item_size c"] obtain u where
    u: "f q (item_size c) (p_udata c) = Some u" "J (S - {q}) u" by blast
  let ?c1 = "upd_cur (c\<lparr>p_udata := u, items := (items c)(q := None)\<rparr>) (\<lambda>s. s\<lparr>p_first := head_or 0 ns\<rparr>)"
  have cnt: "unat cnt = unat (i + 1) + length ns" using u32_succ_less [OF lt] Cons.prems(5) by simp
  have sg: "seg (items ?c1) slf k q ns 0" using Cons.prems(1) n q(2) by (simp add: seg_frame)
  have pr: "distinct (map fst ns)" "0 \<notin> addrs ns" "p_free ?c1 = Some f"
    "cur_col ?c1 = Some (s\<lparr>p_first := head_or 0 ns\<rparr>)" "J (S - {q}) (p_udata ?c1)" "addrs ns \<subseteq> S - {q}"
    "ccol ?c1 = ccol c"
    using Cons.prems n u(2) q(2) by auto
  from Cons.IH [OF sg pr(1,2) refl cnt pr(3-6)] obtain c' s' where
    c': "clr_loop ?c1 cnt (i + 1) (head_or 0 ns) = Some c'" "items c' = items ?c1 |` (- addrs ns)"
    "same_frame ?c1 c'" "cur_col c' = Some s'" "\<forall>j. j \<noteq> ccol c \<longrightarrow> get_col c' j = get_col ?c1 j"
    "J (S - {q} - addrs ns) (p_udata c')"
    unfolding pr(7) by blast
  have "clr_loop c cnt i p = Some c'"
    using it q lt pq c'(1) Cons.prems(6) u(1) by (subst clr_loop.simps) (simp add: ll_mfree_def)
  moreover have "items c' = items c |` (- addrs (n # ns))"
    using c'(2) n by (auto simp: restrict_map_def fun_eq_iff)
  moreover have "same_frame c c'" by (rule same_frame_trans [OF _ c'(3)]) simp
  moreover have "S - addrs (n # ns) = S - {q} - addrs ns" using n by auto
  ultimately show ?case
    using c'(4-6) by (intro exI [of _ c'] exI [of _ s']) auto
qed

lemma ll_clr_vec:
  assumes v: "vec c cols" and lk: "ll_lock c hl = Some (h, c1)" and fr: "p_free c = Some f"
    and S: "J S (p_udata c1)" "addrs (cols (ccol c)) \<subseteq> S"
    and J: "\<And>S u p sz. J S u \<Longrightarrow> p \<in> S \<Longrightarrow> \<exists>u'. f p sz u = Some u' \<and> J (S - {p}) u'"
  shows "\<exists>c' u. ll_clr c hl = Some c' \<and> vec c' (cols(ccol c := [])) \<and> same_frame c c' \<and>
     dom (items c') = dom (items c) - addrs (cols (ccol c)) \<and> J (S - addrs (cols (ccol c))) u \<and>
     p_udata c' = p_udata (ll_unlock (c\<lparr>p_udata := u\<rparr>) h)"
proof -
  let ?ns = "cols (ccol c)"
  obtain u0 where c1: "c1 = c\<lparr>p_udata := u0\<rparr>" using ll_lock_udata [OF lk] by blast
  obtain s where s: "cur_col c = Some s" and col: "column (items c) (self c) (ccol c) s ?ns"
    using vec_cur [OF v] by blast
  from clr_loop_frees [of c1 "self c" "ccol c" 0 ?ns "p_first s" "count s" 0 f s J S] col s fr c1 S J obtain c2 s2 where
    c2: "clr_loop c1 (count s) 0 (p_first s) = Some c2" "items c2 = items c |` (- addrs ?ns)" "same_frame c c2"
      "cur_col c2 = Some s2" "\<And>j. j \<noteq> ccol c \<Longrightarrow> get_col c2 j = get_col c j" "J (S - addrs ?ns) (p_udata c2)"
    by (auto simp: column_def same_frame_def)
  let ?c3 = "upd_cur c2 (\<lambda>s. s\<lparr>p_current := 0, p_first := 0, p_last := 0, count := 0, current := 0\<rparr>)"
  have cc: "ccol c2 = ccol c" "p_unlock c2 = p_unlock c" using c2(3) by (simp_all add: same_frame_def)
  have "ll_clr c hl = Some (ll_unlock ?c3 h)" using lk c1 s c2(1) by (simp add: ll_clr_def)
  moreover have "vec ?c3 (cols(ccol c := []))"
    using c2 cc vec_other [OF v]
    by (intro vec_update [OF v, where s' = "s2\<lparr>p_current := 0, p_first := 0, p_last := 0, count := 0, current := 0\<rparr>"])
      (auto simp: column_def restrict_map_def)
  ultimately show ?thesis
    using c2 cc by (intro exI [of _ "ll_unlock ?c3 h"] exI [of _ "p_udata c2"])
      (auto simp: ll_unlock_pudata split: option.split)
qed

section \<open>Reading and moving the cursor\<close>

text \<open>The context holds the lists \<open>cols\<close> and its cursor is at index \<open>i\<close> of the current column.\<close>

definition vec_at :: "'u ll_context \<Rightarrow> (u8 \<Rightarrow> nodes) \<Rightarrow> nat \<Rightarrow> bool" where
  "vec_at c cols i \<longleftrightarrow> vec c cols \<and> (\<exists>s. cur_col c = Some s \<and> cursor s (cols (ccol c)) i)"

lemma vec_atI [intro]: "vec c cols \<Longrightarrow> cur_col c = Some s \<Longrightarrow> cursor s (cols (ccol c)) i \<Longrightarrow> vec_at c cols i"
  by (auto simp: vec_at_def)

lemma vec_atE:
  assumes "vec_at c cols i"
  obtains s where "vec c cols" "cur_col c = Some s" "cursor s (cols (ccol c)) i"
    "column (items c) (self c) (ccol c) s (cols (ccol c))"
  using assms vec_cur [of c cols] by (auto simp: vec_at_def)

lemma vec_at_udata [simp]: "vec_at (c\<lparr>p_udata := u\<rparr>) cols i = vec_at c cols i"
  by (simp add: vec_at_def)

lemma vec_at_unlock [simp]: "vec_at (ll_unlock c h) cols i = vec_at c cols i"
  by (simp add: vec_at_def)

lemma vec_at_lock: "ll_lock c hl = Some (h, c1) \<Longrightarrow> vec_at c1 cols i = vec_at c cols i"
  using ll_lock_udata [of c hl h c1] by auto

lemma ll_lock_same:
  "ll_lock c hl = Some (h, c1) \<Longrightarrow> items c1 = items c \<and> same_frame c c1 \<and> ccol c1 = ccol c \<and>
     get_col c1 k = get_col c k"
  using ll_lock_udata [of c hl h c1] by auto

text \<open>Moving the cursor inside the current column.\<close>

lemma vec_at_move:
  assumes "vec_at c cols i" and "j < length (cols (ccol c))"
    and "\<And>s. cur_col c = Some s \<Longrightarrow> cursor s (cols (ccol c)) i \<Longrightarrow> count s = word_of_nat (length (cols (ccol c))) \<Longrightarrow>
      p_current (f s) = fst (cols (ccol c) ! j) \<and> unat (current (f s)) = j \<and> p_first (f s) = p_first s \<and>
      p_last (f s) = p_last s \<and> count (f s) = count s"
  shows "vec_at (upd_cur c f) cols j"
proof -
  from assms(1) obtain s where v: "vec c cols" and s: "cur_col c = Some s" "cursor s (cols (ccol c)) i"
    and col: "column (items c) (self c) (ccol c) s (cols (ccol c))" by (rule vec_atE)
  have "unat (count s) = length (cols (ccol c))" using col by (simp add: column_def)
  then have "count s = word_of_nat (length (cols (ccol c)))" by (metis word_of_nat_unat)
  from assms(3) [OF s this] have f: "p_current (f s) = fst (cols (ccol c) ! j)" "unat (current (f s)) = j"
    "p_first (f s) = p_first s" "p_last (f s) = p_last s" "count (f s) = count s" by auto
  have "column (items c) (self c) (ccol c) (f s) (cols (ccol c))"
    using col f assms(2) column_nth [OF col assms(2)] by (auto simp: column_def)
  then have "vec (upd_cur c f) (cols(ccol c := cols (ccol c)))"
    using s vec_other [OF v] by (intro vec_update [OF v, where s' = "f s"]) simp_all
  then show ?thesis
    using s f assms(2) by (auto simp: cursor_def intro!: vec_atI [where s = "f s"])
qed

lemma ll_cnt_vec:
  assumes "vec_at c cols i" and "ll_lock c hl = Some (h, c1)"
  shows "ll_cnt c hl = Some (word_of_nat (length (cols (ccol c))), ll_unlock c1 h)"
proof -
  from assms(1) obtain s where s: "cur_col c = Some s" "unat (count s) = length (cols (ccol c))"
    by (auto elim!: vec_atE simp: column_def)
  then have "count s = word_of_nat (length (cols (ccol c)))" by (metis word_of_nat_unat)
  with s ll_lock_same [OF assms(2)] assms(2) show ?thesis by (simp add: ll_cnt_def)
qed

lemma ll_get_vec:
  assumes v: "vec_at c cols i" and lk: "ll_lock c hl = Some (h, c1)"
  shows "\<exists>c'. ll_get c index hl =
           Some (if unat index < length (cols (ccol c)) then user_ptr (fst (cols (ccol c) ! unat index)) else 0, c') \<and>
         vec_at c' cols (if unat index < length (cols (ccol c)) then unat index else i) \<and>
         items c' = items c \<and> same_frame c c' \<and> p_udata c' = p_udata (ll_unlock c1 h)"
proof -
  from v obtain s where vv: "vec c cols" "cur_col c = Some s" "cursor s (cols (ccol c)) i"
    and col: "column (items c) (self c) (ccol c) s (cols (ccol c))" by (rule vec_atE)
  obtain u0 where c1: "c1 = c\<lparr>p_udata := u0\<rparr>" using ll_lock_udata [OF lk] by blast
  have v1: "vec c1 cols" "cur_col c1 = Some s" "cursor s (cols (ccol c1)) i" using vv c1 by auto
  show ?thesis
  proof (cases "unat index < length (cols (ccol c))")
    case True
    with get_vec [OF v1, of index] c1 obtain c2 s2 where
      g: "get c1 index = Some (fst (cols (ccol c) ! unat index), c2)"
      "c2 = upd_cur c1 (\<lambda>s. s\<lparr>current := index, p_current := fst (cols (ccol c) ! unat index)\<rparr>)"
      "vec c2 cols" "cur_col c2 = Some s2" "cursor s2 (cols (ccol c)) (unat index)" by auto
    then show ?thesis
      using lk True column_nth(1) [OF col True] c1
      by (intro exI [of _ "ll_unlock c2 h"])
        (auto simp: ll_get_def ll_unlock_pudata intro!: vec_atI split: option.split)
  next
    case False
    then have "\<not> index < count s" using col by (auto simp: column_def word_less_nat_alt)
    with lk v1 v c1 False show ?thesis
      by (intro exI [of _ "ll_unlock c1 h"]) (auto simp: ll_get_def get_def)
  qed
qed

lemma ll_current_vec:
  assumes v: "vec_at c cols i" and lk: "ll_lock c hl = Some (h, c1)"
  shows "ll_current c hl =
    Some (if cols (ccol c) = [] then 0 else user_ptr (fst (cols (ccol c) ! i)), ll_unlock c1 h)"
proof -
  from v obtain s where s: "cur_col c = Some s" "cursor s (cols (ccol c)) i"
    and col: "column (items c) (self c) (ccol c) s (cols (ccol c))" by (auto elim: vec_atE)
  show ?thesis
  proof (cases "cols (ccol c) = []")
    case True
    then show ?thesis using s col lk ll_lock_same [OF lk] by (simp add: ll_current_def column_def)
  next
    case False
    with s have "i < length (cols (ccol c))" "p_current s = fst (cols (ccol c) ! i)" by (auto simp: cursor_def)
    with column_nth(1) [OF col this(1)] s lk ll_lock_same [OF lk] False show ?thesis
      by (simp add: ll_current_def)
  qed
qed

lemma ll_first_vec:
  assumes v: "vec_at c cols i" and lk: "ll_lock c hl = Some (h, c1)"
  shows "\<exists>c'. ll_first c hl = Some (if cols (ccol c) = [] then 0 else user_ptr (fst (hd (cols (ccol c)))), c') \<and>
     vec_at c' cols 0 \<and> items c' = items c \<and> same_frame c c' \<and> p_udata c' = p_udata (ll_unlock c1 h)"
proof -
  from v obtain s where vv: "vec c cols" and s: "cur_col c = Some s" "cursor s (cols (ccol c)) i"
    and col: "column (items c) (self c) (ccol c) s (cols (ccol c))" by (rule vec_atE)
  obtain u0 where c1: "c1 = c\<lparr>p_udata := u0\<rparr>" using ll_lock_udata [OF lk] by blast
  have v1: "vec_at c1 cols i" using v c1 by simp
  show ?thesis
  proof (cases "cols (ccol c) = []")
    case True
    then have "vec_at c cols 0" using vv s by (auto simp: cursor_def)
    with True s col lk c1 show ?thesis
      by (intro exI [of _ "ll_unlock c1 h"]) (auto simp: ll_first_def column_def)
  next
    case False
    let ?c2 = "upd_cur c1 (\<lambda>s. s\<lparr>p_current := p_first s, current := 0\<rparr>)"
    have pf: "p_first s = fst (hd (cols (ccol c)))" "p_first s \<noteq> 0"
      using col False head_or_nz [OF False] by (auto simp: column_def head_or_def split: list.split)
    have "vec_at ?c2 cols 0"
      using False c1 s pf by (intro vec_at_move [OF v1]) (auto simp: hd_conv_nth)
    with False pf s lk c1 show ?thesis
      by (intro exI [of _ "ll_unlock ?c2 h"]) (auto simp: ll_first_def ll_unlock_pudata split: option.split)
  qed
qed

lemma ll_last_vec:
  assumes v: "vec_at c cols i" and lk: "ll_lock c hl = Some (h, c1)"
  shows "\<exists>c'. ll_last c hl = Some (if cols (ccol c) = [] then 0 else user_ptr (fst (last (cols (ccol c)))), c') \<and>
     vec_at c' cols (length (cols (ccol c)) - 1) \<and> items c' = items c \<and> same_frame c c' \<and>
     p_udata c' = p_udata (ll_unlock c1 h)"
proof -
  from v obtain s where vv: "vec c cols" and s: "cur_col c = Some s" "cursor s (cols (ccol c)) i"
    and col: "column (items c) (self c) (ccol c) s (cols (ccol c))" by (rule vec_atE)
  obtain u0 where c1: "c1 = c\<lparr>p_udata := u0\<rparr>" using ll_lock_udata [OF lk] by blast
  have v1: "vec_at c1 cols i" using v c1 by simp
  show ?thesis
  proof (cases "cols (ccol c) = []")
    case True
    then have "vec_at c cols 0" using vv s by (auto simp: cursor_def)
    with True s col lk c1 show ?thesis
      by (intro exI [of _ "ll_unlock c1 h"]) (auto simp: ll_last_def column_def)
  next
    case False
    let ?c2 = "upd_cur c1 (\<lambda>s. s\<lparr>p_current := p_last s, current := count s - 1\<rparr>)"
    have pl: "p_last s = fst (last (cols (ccol c)))" "p_last s \<noteq> 0"
      using col False last_or_nz [OF False] by (auto simp: column_def last_or_def)
    have "0 < unat (count s)" "unat (count s) = length (cols (ccol c))" using col False by (auto simp: column_def)
    then have "unat (count s - 1) = length (cols (ccol c)) - 1" using unat_dec_u32 by simp
    then have "vec_at ?c2 cols (length (cols (ccol c)) - 1)"
      using False c1 s pl by (intro vec_at_move [OF v1]) (auto simp: last_conv_nth)
    with False pl s lk c1 show ?thesis
      by (intro exI [of _ "ll_unlock ?c2 h"]) (auto simp: ll_last_def ll_unlock_pudata split: option.split)
  qed
qed

lemma ll_next_vec:
  assumes v: "vec_at c cols i" and lk: "ll_lock c hl = Some (h, c1)"
  shows "\<exists>c'. ll_next c hl =
       Some (if Suc i < length (cols (ccol c)) then user_ptr (fst (cols (ccol c) ! Suc i)) else 0, c') \<and>
     vec_at c' cols (if Suc i < length (cols (ccol c)) then Suc i else i) \<and> items c' = items c \<and>
     same_frame c c' \<and> p_udata c' = p_udata (ll_unlock c1 h)"
proof -
  from v obtain s where vv: "vec c cols" and s: "cur_col c = Some s" "cursor s (cols (ccol c)) i"
    and col: "column (items c) (self c) (ccol c) s (cols (ccol c))" by (rule vec_atE)
  obtain u0 where c1: "c1 = c\<lparr>p_udata := u0\<rparr>" using ll_lock_udata [OF lk] by blast
  have v1: "vec_at c1 cols i" using v c1 by simp
  show ?thesis
  proof (cases "cols (ccol c) = []")
    case True
    with v s col lk c1 show ?thesis
      by (intro exI [of _ "ll_unlock c1 h"]) (auto simp: ll_next_def column_def)
  next
    case False
    with s have i: "i < length (cols (ccol c))" "p_current s = fst (cols (ccol c) ! i)" "unat (current s) = i"
      by (auto simp: cursor_def)
    have "seg (items c) (self c) (ccol c) 0 (cols (ccol c)) 0" using col by (simp add: column_def)
    from seg_nth [OF this i(1)] obtain it where it: "items c (p_current s) = Some it"
      "it_next it = (if Suc i < length (cols (ccol c)) then fst (cols (ccol c) ! Suc i) else 0)" by (auto simp: i)
    have nz: "p_current s \<noteq> 0" using column_nth(1) [OF col i(1)] i(2) by simp
    show ?thesis
    proof (cases "Suc i < length (cols (ccol c))")
      case True
      let ?c2 = "upd_cur c1 (\<lambda>s. s\<lparr>p_current := it_next it, current := current s + 1\<rparr>)"
      have "unat (count s) = length (cols (ccol c))" using col by (simp add: column_def)
      then have "unat (current s + 1) = Suc i" using unat_inc_u32 [of "current s"] i True unat_u32_lt [of "count s"] by simp
      then have "vec_at ?c2 cols (Suc i)"
        using True c1 s it by (intro vec_at_move [OF v1]) auto
      with True nz s it lk c1 column_nth(1) [OF col True] show ?thesis
        by (intro exI [of _ "ll_unlock ?c2 h"]) (auto simp: ll_next_def ll_unlock_pudata split: option.split)
    next
      case False
      with nz s it lk c1 v show ?thesis
        by (intro exI [of _ "ll_unlock c1 h"]) (auto simp: ll_next_def)
    qed
  qed
qed

lemma ll_prev_vec:
  assumes v: "vec_at c cols i" and lk: "ll_lock c hl = Some (h, c1)"
  shows "\<exists>c'. ll_prev c hl =
       Some (if cols (ccol c) \<noteq> [] \<and> 0 < i then user_ptr (fst (cols (ccol c) ! (i - 1))) else 0, c') \<and>
     vec_at c' cols (if cols (ccol c) \<noteq> [] then i - 1 else i) \<and> items c' = items c \<and>
     same_frame c c' \<and> p_udata c' = p_udata (ll_unlock c1 h)"
proof -
  from v obtain s where vv: "vec c cols" and s: "cur_col c = Some s" "cursor s (cols (ccol c)) i"
    and col: "column (items c) (self c) (ccol c) s (cols (ccol c))" by (rule vec_atE)
  obtain u0 where c1: "c1 = c\<lparr>p_udata := u0\<rparr>" using ll_lock_udata [OF lk] by blast
  have v1: "vec_at c1 cols i" using v c1 by simp
  show ?thesis
  proof (cases "cols (ccol c) = []")
    case True
    with v s col lk c1 show ?thesis
      by (intro exI [of _ "ll_unlock c1 h"]) (auto simp: ll_prev_def column_def)
  next
    case False
    with s have i: "i < length (cols (ccol c))" "p_current s = fst (cols (ccol c) ! i)" "unat (current s) = i"
      by (auto simp: cursor_def)
    have "seg (items c) (self c) (ccol c) 0 (cols (ccol c)) 0" using col by (simp add: column_def)
    from seg_nth [OF this i(1)] obtain it where it: "items c (p_current s) = Some it"
      "it_prev it = (if i = 0 then 0 else fst (cols (ccol c) ! (i - 1)))" by (auto simp: i)
    have nz: "p_current s \<noteq> 0" using column_nth(1) [OF col i(1)] i(2) by simp
    show ?thesis
    proof (cases "i = 0")
      case False
      let ?c2 = "upd_cur c1 (\<lambda>s. s\<lparr>p_current := it_prev it, current := current s - 1\<rparr>)"
      have j: "i - 1 < length (cols (ccol c))" using i by simp
      have "unat (current s - 1) = i - 1" using unat_dec_u32 [of "current s"] i False by simp
      then have "vec_at ?c2 cols (i - 1)"
        using False c1 s it j by (intro vec_at_move [OF v1]) auto
      with False nz s it lk c1 column_nth(1) [OF col j] \<open>cols (ccol c) \<noteq> []\<close> show ?thesis
        by (intro exI [of _ "ll_unlock ?c2 h"]) (auto simp: ll_prev_def ll_unlock_pudata split: option.split)
    next
      case True
      with nz s it lk c1 v \<open>cols (ccol c) \<noteq> []\<close> show ?thesis
        by (intro exI [of _ "ll_unlock c1 h"]) (auto simp: ll_prev_def)
    qed
  qed
qed

section \<open>Calls that change no record\<close>

lemma ll_add_null:
  assumes "ll_lock c hl = Some (h, c1)" and "p_alloc c = Some f"
    and "f (item_size c) (p_udata c1) = Some (0, u)"
  shows "ll_add c src hl = Some (0, ll_unlock (c\<lparr>p_udata := u\<rparr>) h)"
  using assms ll_lock_udata [OF assms(1)] by (auto simp: ll_add_def ll_malloc_def item_size_def)

lemma ll_ins_outside:
  assumes "vec_at c cols i" and "length (cols (ccol c)) \<le> unat index"
  shows "ll_ins c index src hl = Some (0, c)"
  using assms by (auto elim!: vec_atE simp: ll_ins_def column_def word_less_nat_alt)

lemma ll_ins_null:
  assumes v: "vec_at c cols i" and idx: "unat index < length (cols (ccol c))"
    and lk: "ll_lock c hl = Some (h, c1)" and al: "p_alloc c = Some f"
    and m: "f (item_size c) (p_udata c1) = Some (0, u)"
  shows "\<exists>c'. ll_ins c index src hl = Some (0, c') \<and> vec_at c' cols (unat index) \<and> items c' = items c \<and>
     same_frame c c' \<and> p_udata c' = p_udata (ll_unlock (c\<lparr>p_udata := u\<rparr>) h)"
proof -
  from v obtain s where vv: "vec c cols" "cur_col c = Some s" "cursor s (cols (ccol c)) i"
    and col: "column (items c) (self c) (ccol c) s (cols (ccol c))" by (rule vec_atE)
  obtain u0 where c1: "c1 = c\<lparr>p_udata := u0\<rparr>" using ll_lock_udata [OF lk] by blast
  have v1: "vec c1 cols" "cur_col c1 = Some s" "cursor s (cols (ccol c1)) i" using vv c1 by auto
  with get_vec [OF v1, of index] c1 idx obtain c2 s2 where
    g: "get c1 index = Some (fst (cols (ccol c) ! unat index), c2)"
    "c2 = upd_cur c1 (\<lambda>s. s\<lparr>current := index, p_current := fst (cols (ccol c) ! unat index)\<rparr>)"
    "vec c2 cols" "cur_col c2 = Some s2" "cursor s2 (cols (ccol c)) (unat index)" by auto
  have f2: "p_alloc c2 = Some f" "item_size c2 = item_size c" "p_udata c2 = u0" "ccol c2 = ccol c" "items c2 = items c"
    "same_frame c c2" "p_unlock c2 = p_unlock c" using g(2) c1 al by (simp_all add: item_size_def)
  have "index < count s" using col idx by (auto simp: column_def word_less_nat_alt)
  then have "ll_ins c index src hl = Some (0, ll_unlock (c2\<lparr>p_udata := u\<rparr>) h)"
    using lk vv(2) g(1) f2 m c1 column_nth(1) [OF col idx] by (simp add: ll_ins_def ll_malloc_def)
  moreover have "vec_at c2 cols (unat index)" using g f2 by (auto intro: vec_atI)
  ultimately show ?thesis
    using f2 by (intro exI [of _ "ll_unlock (c2\<lparr>p_udata := u\<rparr>) h"])
      (simp add: ll_unlock_pudata split: option.split)
qed

lemma ll_del_outside:
  assumes "vec_at c cols i" and "length (cols (ccol c)) \<le> unat index" and "ll_lock c hl = Some (h, c1)"
  shows "ll_del c index hl = Some (ll_unlock c1 h)"
  using assms ll_lock_udata [OF assms(3)]
  by (auto elim!: vec_atE simp: ll_del_def get_def ll_unlink_def column_def word_less_nat_alt)

lemma ll_del_current_empty:
  assumes "vec_at c cols i" and "cols (ccol c) = []" and "ll_lock c hl = Some (h, c1)"
  shows "ll_del_current c hl = Some (ll_unlock c1 h)"
  using assms ll_lock_udata [OF assms(3)]
  by (auto elim!: vec_atE simp: ll_del_current_def ll_unlink_def column_def)

text \<open>The record behind the pointer that the operations return.\<close>

lemma vec_at_data:
  assumes "vec_at c cols i" and "j < length (cols (ccol c))"
  shows "\<exists>it. items c (fst (cols (ccol c) ! j)) = Some it \<and> it_data it = snd (cols (ccol c) ! j)"
proof -
  from assms(1) have "seg (items c) (self c) (ccol c) 0 (cols (ccol c)) 0"
    by (auto elim!: vec_atE simp: column_def)
  from seg_nth [OF this assms(2)] show ?thesis by blast
qed

end
