(* ===== verification/IHeap.thy ===== *)
theory IHeap
  imports Prelude
begin

text \<open>
  The contract of the interface iHeap (interface/iMemory.h) on which the containers rely, as a
  locale: \<open>alloc\<close> returns null or the address of a block that is not in use and has room for the
  request, \<open>free\<close> takes a block out of use, and blocks in use do not overlap. \<open>block h p\<close> is the size
  of the block in use at \<open>p\<close>. The contract binds an implementation when \<open>room\<close> holds for the
  request: there its \<open>alloc\<close> returns, with or without a block.
\<close>

locale iheap =
  fixes alloc :: "u32 \<Rightarrow> 'h \<Rightarrow> (ptr \<times> 'h) option"
    and free :: "ptr \<Rightarrow> u32 \<Rightarrow> 'h \<Rightarrow> 'h option"
    and inv :: "'h \<Rightarrow> bool"
    and block :: "'h \<Rightarrow> (ptr \<rightharpoonup> nat)"
    and room :: "'h \<Rightarrow> u32 \<Rightarrow> bool"
  assumes alloc_block: "inv h \<Longrightarrow> room h sz \<Longrightarrow> \<exists>p h'. alloc sz h = Some (p, h') \<and> inv h' \<and>
      (if p = 0 then block h' = block h
       else block h p = None \<and> (\<exists>n. unat sz \<le> n \<and> block h' = (block h)(p \<mapsto> n)))"
    and free_block: "inv h \<Longrightarrow> p \<in> dom (block h) \<Longrightarrow>
      \<exists>h'. free p sz h = Some h' \<and> inv h' \<and> block h' = (block h)(p := None)"
    and blocks_apart: "inv h \<Longrightarrow> block h p = Some m \<Longrightarrow> block h q = Some n \<Longrightarrow> p \<noteq> q \<Longrightarrow>
      p + m \<le> q \<or> q + n \<le> p"
begin

lemma alloc_dom:
  assumes "inv h" and "room h sz"
  obtains p h' where "alloc sz h = Some (p, h')" "inv h'" "p \<noteq> 0 \<Longrightarrow> p \<notin> dom (block h)"
    "dom (block h') = (if p = 0 then dom (block h) else insert p (dom (block h)))"
proof -
  from alloc_block [OF assms] obtain p h' where a: "alloc sz h = Some (p, h')" "inv h'"
    "if p = 0 then block h' = block h
     else block h p = None \<and> (\<exists>n. unat sz \<le> n \<and> block h' = (block h)(p \<mapsto> n))" by blast
  then show ?thesis by (cases "p = 0") (auto intro!: that [of p h'])
qed

text \<open>Two successive allocations do not overlap.\<close>

lemma alloc_alloc_apart:
  assumes "inv h" and "room h sz" and "alloc sz h = Some (p, h1)" and "room h1 sz'"
    and "alloc sz' h1 = Some (q, h2)" and "p \<noteq> 0" and "q \<noteq> 0"
  shows "p + unat sz \<le> q \<or> q + unat sz' \<le> p"
proof -
  from alloc_block [OF assms(1,2)] assms(3,6) obtain m where
    m: "inv h1" "unat sz \<le> m" "block h1 = (block h)(p \<mapsto> m)" by auto
  from alloc_block [OF m(1) assms(4)] assms(5,7) obtain n where
    n: "inv h2" "block h1 q = None" "unat sz' \<le> n" "block h2 = (block h1)(q \<mapsto> n)" by auto
  from m n have "p \<noteq> q" by auto
  with blocks_apart [OF n(1), of p m q n] m n show ?thesis by auto
qed

end

end
