(* ===== verification/LList.thy ===== *)
theory LList
  imports LL_Vector Mutex IHeap
begin

text \<open>
  core/common/llist.cpp: the classes cVector and cQueue, which bind the list of ll_alg.cpp to the
  object's heap and mutex. The user data of the list context is the object itself; \<open>halloc\<close> and
  \<open>hfree\<close> are the operations of the iHeap implementation behind \<open>m_p_heap\<close>.

  The theory shows that any sequence of cVector calls without an explicit lock computes what a
  list of records with a cursor computes, and that the mutex is free again after each call.
\<close>

section \<open>The objects\<close>

record 'h llist_obj =
  m_p_mutex :: "cmutex option"
  m_p_heap :: "'h option"

type_synonym 'h cvector = "'h llist_obj ll_context"
type_synonym 'h heap_alloc = "u32 \<Rightarrow> 'h \<Rightarrow> (ptr \<times> 'h) option"
type_synonym 'h heap_free = "ptr \<Rightarrow> u32 \<Rightarrow> 'h \<Rightarrow> 'h option"

definition llv_alloc :: "'h heap_alloc \<Rightarrow> u32 \<Rightarrow> 'h llist_obj \<Rightarrow> (ptr \<times> 'h llist_obj) option" where
  "llv_alloc halloc sz u =
     do { h \<leftarrow> m_p_heap u; (p, h') \<leftarrow> halloc sz h; Some (p, u\<lparr>m_p_heap := Some h'\<rparr>) }"

definition llv_free :: "'h heap_free \<Rightarrow> ptr \<Rightarrow> u32 \<Rightarrow> 'h llist_obj \<Rightarrow> 'h llist_obj option" where
  "llv_free hfree p sz u =
     do { h \<leftarrow> m_p_heap u; h' \<leftarrow> hfree p sz h; Some (u\<lparr>m_p_heap := Some h'\<rparr>) }"

definition llv_lock :: "u64 \<Rightarrow> 'h llist_obj \<Rightarrow> (u64 \<times> 'h llist_obj) option" where
  "llv_lock hlock u =
     do { m \<leftarrow> m_p_mutex u; (r, m') \<leftarrow> cMutex_lock m hlock MUTEX_TIMEOUT_INFINITE 0;
          Some (r, u\<lparr>m_p_mutex := Some m'\<rparr>) }"

definition llv_unlock :: "u64 \<Rightarrow> 'h llist_obj \<Rightarrow> 'h llist_obj" where
  "llv_unlock hlock u = u\<lparr>m_p_mutex := map_option (\<lambda>m. cMutex_unlock m hlock) (m_p_mutex u)\<rparr>"

text \<open>\<open>init\<close> of both classes; the callbacks \<open>_llq_*_\<close> of cQueue have the bodies of \<open>_llv_*_\<close>. \<open>raw\<close> is
  the content of the column array that \<open>ll_init\<close> allocates.\<close>

definition llist_bind ::
    "'h heap_alloc \<Rightarrow> 'h heap_free \<Rightarrow> u8 \<Rightarrow> 'h cvector \<Rightarrow> u32 \<Rightarrow> 'h option \<Rightarrow> 'h cvector" where
  "llist_bind halloc hfree md c data_sz p_heap =
     (let u = (case p_heap of None \<Rightarrow> p_udata c | Some h \<Rightarrow> (p_udata c)\<lparr>m_p_heap := Some h\<rparr>)
      in c\<lparr>mode := md, data_size := data_sz, p_alloc := Some (llv_alloc halloc),
           p_free := Some (llv_free hfree), p_lock := Some llv_lock, p_unlock := Some llv_unlock,
           p_udata := u\<rparr>)"

definition cVector_init ::
    "'h heap_alloc \<Rightarrow> 'h heap_free \<Rightarrow> ll_state list \<Rightarrow> 'h cvector \<Rightarrow> u32 \<Rightarrow> u8 \<Rightarrow> 'h option \<Rightarrow>
     'h cvector option" where
  "cVector_init halloc hfree raw c data_sz nc p_heap =
     ll_init raw (llist_bind halloc hfree LL_MODE_VECTOR c data_sz p_heap) nc"

definition cQueue_init ::
    "'h heap_alloc \<Rightarrow> 'h heap_free \<Rightarrow> ll_state list \<Rightarrow> 'h cvector \<Rightarrow> u32 \<Rightarrow> u8 \<Rightarrow> 'h option \<Rightarrow>
     'h cvector option" where
  "cQueue_init halloc hfree raw c data_sz nc p_heap =
     ll_init raw (llist_bind halloc hfree LL_MODE_QUEUE c data_sz p_heap) nc"

text \<open>\<open>lock\<close> and \<open>unlock\<close> of the objects check for a missing mutex; the callbacks do not.\<close>

definition cVector_lock :: "'h cvector \<Rightarrow> u64 \<Rightarrow> (u64 \<times> 'h cvector) option" where
  "cVector_lock c hlock =
     (case m_p_mutex (p_udata c) of None \<Rightarrow> Some (0, c)
      | Some m \<Rightarrow> map_option (\<lambda>(r, u). (r, c\<lparr>p_udata := u\<rparr>)) (llv_lock hlock (p_udata c)))"

definition cVector_unlock :: "'h cvector \<Rightarrow> u64 \<Rightarrow> 'h cvector" where
  "cVector_unlock c hlock =
     (case m_p_mutex (p_udata c) of None \<Rightarrow> c
      | Some m \<Rightarrow> c\<lparr>p_udata := llv_unlock hlock (p_udata c)\<rparr>)"

definition cVector_destroy :: "'h cvector \<Rightarrow> 'h cvector option" where
  "cVector_destroy c = (if m_p_heap (p_udata c) \<noteq> None then ll_clr c 0 else Some c)"

section \<open>The calls\<close>

datatype vop =
    Add "nat \<Rightarrow> u8" | Ins u32 "nat \<Rightarrow> u8" | Del u32 | DelCurrent | Clr
  | Get u32 | Cnt | Next | Prev | First | Last | Current

text \<open>What a call returns: a record, no record, a number, or nothing.\<close>

datatype vout = Rec "u8 list" | NoRec | Num u32 | Done

definition rec_at :: "'h cvector \<Rightarrow> ptr \<Rightarrow> vout" where
  "rec_at c r = (if r = 0 then NoRec
     else case items c (r - sizeof_hdr) of None \<Rightarrow> NoRec | Some it \<Rightarrow> Rec (it_data it))"

definition ret_rec :: "(ptr \<times> 'h cvector) option \<Rightarrow> (vout \<times> 'h cvector) option" where
  "ret_rec x = map_option (\<lambda>(r, c). (rec_at c r, c)) x"

definition ret_done :: "'h cvector option \<Rightarrow> (vout \<times> 'h cvector) option" where
  "ret_done x = map_option (\<lambda>c. (Done, c)) x"

text \<open>The methods of cVector with the default \<open>hlock=0\<close>, with the record behind the returned
  pointer in place of the pointer.\<close>

fun cVector_call :: "vop \<Rightarrow> 'h cvector \<Rightarrow> (vout \<times> 'h cvector) option" where
  "cVector_call (Add src) c = ret_rec (ll_add c src 0)"
| "cVector_call (Ins k src) c = ret_rec (ll_ins c k src 0)"
| "cVector_call (Del k) c = ret_done (ll_del c k 0)"
| "cVector_call DelCurrent c = ret_done (ll_del_current c 0)"
| "cVector_call Clr c = ret_done (ll_clr c 0)"
| "cVector_call (Get k) c = ret_rec (ll_get c k 0)"
| "cVector_call Cnt c = map_option (\<lambda>(n, c). (Num n, c)) (ll_cnt c 0)"
| "cVector_call Next c = ret_rec (ll_next c 0)"
| "cVector_call Prev c = ret_rec (ll_prev c 0)"
| "cVector_call First c = ret_rec (ll_first c 0)"
| "cVector_call Last c = ret_rec (ll_last c 0)"
| "cVector_call Current c = ret_rec (ll_current c 0)"

fun cVector_calls :: "vop list \<Rightarrow> 'h cvector \<Rightarrow> (vout list \<times> 'h cvector) option" where
  "cVector_calls [] c = Some ([], c)"
| "cVector_calls (op # ops) c =
     do { (r, c) \<leftarrow> cVector_call op c; (rs, c) \<leftarrow> cVector_calls ops c; Some (r # rs, c) }"

section \<open>The specification\<close>

text \<open>A list of records and the index of the current one. \<open>ok\<close> says whether the heap had room for
  a new record, \<open>n\<close> is the record size.\<close>

definition rec_or :: "u8 list list \<Rightarrow> nat \<Rightarrow> vout" where
  "rec_or ds i = (if i < length ds then Rec (ds ! i) else NoRec)"

fun vspec :: "u32 \<Rightarrow> bool \<Rightarrow> vop \<Rightarrow> u8 list list \<times> nat \<Rightarrow> vout \<times> u8 list list \<times> nat" where
  "vspec n ok (Add src) (ds, i) =
     (let d = map src [0..<unat n] in if ok then (Rec d, ds @ [d], length ds) else (NoRec, ds, i))"
| "vspec n ok (Ins k src) (ds, i) =
     (let d = map src [0..<unat n] in
      if unat k < length ds then
        if ok then (Rec d, take (unat k) ds @ d # drop (unat k) ds, unat k) else (NoRec, ds, unat k)
      else (NoRec, ds, i))"
| "vspec n ok (Del k) (ds, i) =
     (if unat k < length ds
      then (Done, take (unat k) ds @ drop (Suc (unat k)) ds,
            if Suc (unat k) = length ds then unat k - 1 else unat k)
      else (Done, ds, i))"
| "vspec n ok DelCurrent (ds, i) =
     (if ds = [] then (Done, ds, i)
      else (Done, take i ds @ drop (Suc i) ds, if Suc i = length ds then i - 1 else i))"
| "vspec n ok Clr (ds, i) = (Done, [], 0)"
| "vspec n ok (Get k) (ds, i) = (rec_or ds (unat k), ds, if unat k < length ds then unat k else i)"
| "vspec n ok Cnt (ds, i) = (Num (of_nat (length ds)), ds, i)"
| "vspec n ok Next (ds, i) = (rec_or ds (Suc i), ds, if Suc i < length ds then Suc i else i)"
| "vspec n ok Prev (ds, i) =
     (if 0 < i then rec_or ds (i - 1) else NoRec, ds, if ds = [] then i else i - 1)"
| "vspec n ok First (ds, i) = (rec_or ds 0, ds, 0)"
| "vspec n ok Last (ds, i) = (if ds = [] then NoRec else Rec (last ds), ds, length ds - 1)"
| "vspec n ok Current (ds, i) = (if ds = [] then NoRec else Rec (ds ! i), ds, i)"

text \<open>A sequence of calls; one entry of \<open>oks\<close> per call.\<close>

fun vspecs :: "u32 \<Rightarrow> bool list \<Rightarrow> vop list \<Rightarrow> u8 list list \<times> nat \<Rightarrow> vout list \<times> u8 list list \<times> nat" where
  "vspecs n (ok # oks) (op # ops) st =
     (case vspec n ok op st of (r, st') \<Rightarrow> case vspecs n oks ops st' of (rs, st'') \<Rightarrow> (r # rs, st''))"
| "vspecs n _ _ st = ([], st)"

definition allocates :: "vop \<Rightarrow> bool" where
  "allocates op = (case op of Add _ \<Rightarrow> True | Ins _ _ \<Rightarrow> True | _ \<Rightarrow> False)"

lemma vspec_grows: "vspec n ok op (ds, i) = (r, ds', j) \<Longrightarrow> length ds' \<le> Suc (length ds)"
  by (cases op) (auto simp: Let_def split: if_splits)

section \<open>The object invariant\<close>

text \<open>The list is a vector with the object's callbacks, its mutex is free and every item is a block
  of its heap.\<close>

definition vector_obj ::
    "'h heap_alloc \<Rightarrow> 'h heap_free \<Rightarrow> ('h \<Rightarrow> bool) \<Rightarrow> ('h \<Rightarrow> (ptr \<rightharpoonup> nat)) \<Rightarrow>
     'h cvector \<Rightarrow> (u8 \<Rightarrow> nodes) \<Rightarrow> nat \<Rightarrow> bool" where
  "vector_obj halloc hfree hinv block c cols i \<longleftrightarrow> vec_at c cols i \<and>
     p_alloc c = Some (llv_alloc halloc) \<and> p_free c = Some (llv_free hfree) \<and>
     p_lock c = Some llv_lock \<and> p_unlock c = Some llv_unlock \<and>
     (\<exists>m h. p_udata c = \<lparr>m_p_mutex = Some m, m_p_heap = Some h\<rparr> \<and> cMutex_free m \<and> hinv h \<and>
        dom (items c) \<subseteq> dom (block h))"

lemma rec_at_vec:
  assumes "vec_at c cols i" and "j < length (cols (ccol c))"
  shows "rec_at c (user_ptr (fst (cols (ccol c) ! j))) = Rec (snd (cols (ccol c) ! j))"
  using vec_at_data [OF assms] by (auto simp: rec_at_def user_ptr_def sizeof_hdr_def)

lemma rec_at_0 [simp]: "rec_at c 0 = NoRec"
  by (simp add: rec_at_def)

lemma rec_at_col:
  "vec_at c cols i \<Longrightarrow> ccol c = k \<Longrightarrow> j < length (cols k) \<Longrightarrow>
   rec_at c (user_ptr (fst (cols k ! j))) = Rec (snd (cols k ! j))"
  using rec_at_vec [of c cols i j] by simp

lemma vector_lock:
  assumes "vector_obj halloc hfree hinv block c cols i"
  obtains hl m m' h where "p_udata c = \<lparr>m_p_mutex = Some m, m_p_heap = Some h\<rparr>" "hinv h"
    "dom (items c) \<subseteq> dom (block h)"
    "ll_lock c 0 = Some (hl, c\<lparr>p_udata := \<lparr>m_p_mutex = Some m', m_p_heap = Some h\<rparr>\<rparr>)"
    "cMutex_free (cMutex_unlock m' hl)"
proof -
  from assms obtain m h where u: "p_udata c = \<lparr>m_p_mutex = Some m, m_p_heap = Some h\<rparr>" and fr: "cMutex_free m"
    and h: "hinv h" "dom (items c) \<subseteq> dom (block h)" and lk: "p_lock c = Some llv_lock"
    by (auto simp: vector_obj_def)
  from cmutex_lock.bracket_free [OF fr] obtain hl m' where
    "cMutex_lock m 0 MUTEX_TIMEOUT_INFINITE 0 = Some (hl, m')" "cMutex_free (cMutex_unlock m' hl)" by blast
  with u h lk show ?thesis by (intro that) (auto simp: ll_lock_def llv_lock_def)
qed

text \<open>The end of a call: the list is in order again and the heap has the item blocks.\<close>

lemma vector_unlock:
  assumes "vector_obj halloc hfree hinv block c cols i" and "vec_at c' cols' j" and "same_frame c c'"
    and "p_udata c' = p_udata (ll_unlock (c\<lparr>p_udata := \<lparr>m_p_mutex = Some m', m_p_heap = Some h'\<rparr>\<rparr>) hl)"
    and "cMutex_free (cMutex_unlock m' hl)" and "hinv h'" and "dom (items c') \<subseteq> dom (block h')"
  shows "vector_obj halloc hfree hinv block c' cols' j"
  using assms by (auto simp: vector_obj_def same_frame_def ll_unlock_def llv_unlock_def)

lemma vec_at_newI:
  "vec c' (cols(ccol c := ns)) \<Longrightarrow> same_frame c c' \<Longrightarrow> cur_col c' = Some s \<Longrightarrow> cursor s ns j \<Longrightarrow>
   vec_at c' (cols(ccol c := ns)) j"
  by (rule vec_atI) (auto simp: same_frame_def)

text \<open>One step of the refinement: \<open>refines\<close> relates the outcome of a call to the specification.\<close>

definition refines ::
    "'h heap_alloc \<Rightarrow> 'h heap_free \<Rightarrow> ('h \<Rightarrow> bool) \<Rightarrow> ('h \<Rightarrow> (ptr \<rightharpoonup> nat)) \<Rightarrow>
     vop \<Rightarrow> 'h cvector \<Rightarrow> (u8 \<Rightarrow> nodes) \<Rightarrow> nat \<Rightarrow> vout \<Rightarrow> 'h cvector \<Rightarrow> bool" where
  "refines halloc hfree hinv block op c cols i r c' \<longleftrightarrow>
     (\<exists>ok cols' j. vector_obj halloc hfree hinv block c' cols' j \<and> same_frame c c' \<and>
        vspec (data_size c) ok op (map snd (cols (ccol c)), i) = (r, map snd (cols' (ccol c)), j))"

text \<open>The heap of the object has room for a record.\<close>

definition has_room :: "('h \<Rightarrow> u32 \<Rightarrow> bool) \<Rightarrow> 'h cvector \<Rightarrow> bool" where
  "has_room room c = (case m_p_heap (p_udata c) of None \<Rightarrow> False | Some h \<Rightarrow> room h (item_size c))"

text \<open>Every allocating call of a sequence finds room.\<close>

fun has_rooms :: "('h \<Rightarrow> u32 \<Rightarrow> bool) \<Rightarrow> vop list \<Rightarrow> 'h cvector \<Rightarrow> bool" where
  "has_rooms room [] c = True"
| "has_rooms room (op # ops) c = ((allocates op \<longrightarrow> has_room room c) \<and>
     (case cVector_call op c of None \<Rightarrow> False | Some (_, c') \<Rightarrow> has_rooms room ops c'))"

text \<open>The classes on top of a heap that keeps the contract.\<close>

locale llist_heap = iheap alloc free inv block room
  for alloc :: "'h heap_alloc" and free :: "'h heap_free" and inv :: "'h \<Rightarrow> bool"
    and block :: "'h \<Rightarrow> (ptr \<rightharpoonup> nat)" and room :: "'h \<Rightarrow> u32 \<Rightarrow> bool"
begin

abbreviation vobj :: "'h cvector \<Rightarrow> (u8 \<Rightarrow> nodes) \<Rightarrow> nat \<Rightarrow> bool" where
  "vobj \<equiv> vector_obj alloc free inv block"

lemma vector_add:
  assumes v: "vobj c cols i" and len: "length (cols (ccol c)) + 1 < 2 ^ 32"
    and rm: "has_room room c"
  shows "\<exists>r c'. cVector_call (Add src) c = Some (r, c') \<and> refines alloc free inv block (Add src) c cols i r c'"
proof -
  obtain hl m m' h where u: "p_udata c = \<lparr>m_p_mutex = Some m, m_p_heap = Some h\<rparr>" and hi: "inv h"
    and dm: "dom (items c) \<subseteq> dom (block h)"
    and lk: "ll_lock c 0 = Some (hl, c\<lparr>p_udata := \<lparr>m_p_mutex = Some m', m_p_heap = Some h\<rparr>\<rparr>)"
    and fr: "cMutex_free (cMutex_unlock m' hl)"
    by (rule vector_lock [OF v]) (rule that)
  have va: "vec_at c cols i" and al: "p_alloc c = Some (llv_alloc alloc)" using v by (auto simp: vector_obj_def)
  let ?u = "\<lambda>h. \<lparr>m_p_mutex = Some m', m_p_heap = Some h\<rparr>"
  have rmh: "room h (item_size c)" using rm u by (simp add: has_room_def)
  obtain p h' where a: "alloc (item_size c) h = Some (p, h')" and ad: "inv h'" "p \<noteq> 0 \<Longrightarrow> p \<notin> dom (block h)"
    "dom (block h') = (if p = 0 then dom (block h) else insert p (dom (block h)))"
    by (rule alloc_dom [OF hi rmh]) (rule that)
  then have m: "llv_alloc alloc (item_size c) (p_udata (c\<lparr>p_udata := ?u h\<rparr>)) = Some (p, ?u h')"
    by (simp add: llv_alloc_def)
  show ?thesis
  proof (cases "p = 0")
    case True
    let ?c = "ll_unlock (c\<lparr>p_udata := ?u h'\<rparr>) hl"
    have "ll_add c src 0 = Some (0, ?c)" using ll_add_null [OF lk al] m True by simp
    moreover have "vobj ?c cols i"
      using vector_unlock [OF v _ _ _ fr, of ?c cols i h'] ad(1,3) dm va True by simp
    ultimately show ?thesis
      unfolding refines_def
      by (intro exI [of _ NoRec] exI [of _ ?c] conjI exI [of _ False] exI [of _ cols] exI [of _ i])
        (simp_all add: ret_rec_def Let_def)
  next
    case False
    from va obtain s where vv: "vec c cols" by (auto elim: vec_atE)
    have "items c p = None" using ad(2) [OF False] dm by blast
    from ll_add_vec [OF vv lk al m False this len, where src = src] obtain c2 s2 where
      c2: "ll_add c src 0 = Some (user_ptr p, c2)"
      "vec c2 (cols(ccol c := cols (ccol c) @ [(p, cpy src (data_size c))]))" "same_frame c c2"
      "cur_col c2 = Some s2" "cursor s2 (cols (ccol c) @ [(p, cpy src (data_size c))]) (length (cols (ccol c)))"
      "dom (items c2) = insert p (dom (items c))" "p_udata c2 = p_udata (ll_unlock (c\<lparr>p_udata := ?u h'\<rparr>) hl)"
      by blast
    let ?cols = "cols(ccol c := cols (ccol c) @ [(p, cpy src (data_size c))])"
    have cc: "ccol c2 = ccol c" using c2(3) by (simp add: same_frame_def)
    have v2: "vec_at c2 ?cols (length (cols (ccol c)))" using vec_at_newI [OF c2(2-5)] .
    have "rec_at c2 (user_ptr p) = Rec (cpy src (data_size c))"
      using rec_at_vec [OF v2, of "length (cols (ccol c))"] cc by simp
    moreover have "vobj c2 ?cols (length (cols (ccol c)))"
      using vector_unlock [OF v v2 c2(3,7) fr ad(1)] ad(3) dm c2(6) False by auto
    ultimately show ?thesis
      unfolding refines_def using c2(1,3)
      by (intro exI [of _ "Rec (cpy src (data_size c))"] exI [of _ c2] conjI exI [of _ True] exI [of _ ?cols]
          exI [of _ "length (cols (ccol c))"]) (simp_all add: cpy_eq Let_def ret_rec_def)
  qed
qed

lemma vector_ins:
  assumes v: "vobj c cols i" and len: "length (cols (ccol c)) + 1 < 2 ^ 32"
    and rm: "has_room room c"
  shows "\<exists>r c'. cVector_call (Ins k src) c = Some (r, c') \<and> refines alloc free inv block (Ins k src) c cols i r c'"
proof -
  obtain hl m m' h where u: "p_udata c = \<lparr>m_p_mutex = Some m, m_p_heap = Some h\<rparr>" and hi: "inv h"
    and dm: "dom (items c) \<subseteq> dom (block h)"
    and lk: "ll_lock c 0 = Some (hl, c\<lparr>p_udata := \<lparr>m_p_mutex = Some m', m_p_heap = Some h\<rparr>\<rparr>)"
    and fr: "cMutex_free (cMutex_unlock m' hl)"
    by (rule vector_lock [OF v]) (rule that)
  have va: "vec_at c cols i" and al: "p_alloc c = Some (llv_alloc alloc)" using v by (auto simp: vector_obj_def)
  let ?u = "\<lambda>h. \<lparr>m_p_mutex = Some m', m_p_heap = Some h\<rparr>"
  let ?d = "cpy src (data_size c)"
  show ?thesis
  proof (cases "unat k < length (cols (ccol c))")
    case False
    with ll_ins_outside [OF va, of k src 0] v show ?thesis
      unfolding refines_def
      by (intro exI [of _ NoRec] exI [of _ c] conjI exI [of _ False] exI [of _ cols] exI [of _ i])
        (simp_all add: ret_rec_def Let_def)
  next
    case True
    from va obtain s where vv: "vec c cols" "cur_col c = Some s" "cursor s (cols (ccol c)) i" by (rule vec_atE)
    have rmh: "room h (item_size c)" using rm u by (simp add: has_room_def)
    obtain p h' where a: "alloc (item_size c) h = Some (p, h')" and ad: "inv h'" "p \<noteq> 0 \<Longrightarrow> p \<notin> dom (block h)"
      "dom (block h') = (if p = 0 then dom (block h) else insert p (dom (block h)))"
      by (rule alloc_dom [OF hi rmh]) (rule that)
    then have m: "llv_alloc alloc (item_size c) (p_udata (c\<lparr>p_udata := ?u h\<rparr>)) = Some (p, ?u h')"
      by (simp add: llv_alloc_def)
    show ?thesis
    proof (cases "p = 0")
      case p0: True
      from ll_ins_null [OF va True lk al] m p0 obtain c2 where
        c2: "ll_ins c k src 0 = Some (0, c2)" "vec_at c2 cols (unat k)" "items c2 = items c" "same_frame c c2"
        "p_udata c2 = p_udata (ll_unlock (c\<lparr>p_udata := ?u h'\<rparr>) hl)" by metis
      have "vobj c2 cols (unat k)"
        using vector_unlock [OF v c2(2,4,5) fr ad(1)] ad(3) dm c2(3) p0 by simp
      then show ?thesis
        unfolding refines_def using c2(1,4) True
        by (intro exI [of _ NoRec] exI [of _ c2] conjI exI [of _ False] exI [of _ cols] exI [of _ "unat k"])
          (simp_all add: Let_def ret_rec_def)
    next
      case False
      have "items c p = None" using ad(2) [OF False] dm by blast
      from ll_ins_vec [OF vv True lk al m False this len, where src = src] obtain c2 s2 where
        c2: "ll_ins c k src 0 = Some (user_ptr p, c2)"
        "vec c2 (cols(ccol c := take (unat k) (cols (ccol c)) @ (p, ?d) # drop (unat k) (cols (ccol c))))"
        "same_frame c c2" "cur_col c2 = Some s2"
        "cursor s2 (take (unat k) (cols (ccol c)) @ (p, ?d) # drop (unat k) (cols (ccol c))) (unat k)"
        "dom (items c2) = insert p (dom (items c))" "p_udata c2 = p_udata (ll_unlock (c\<lparr>p_udata := ?u h'\<rparr>) hl)"
        by blast
      let ?cols = "cols(ccol c := take (unat k) (cols (ccol c)) @ (p, ?d) # drop (unat k) (cols (ccol c)))"
      have cc: "ccol c2 = ccol c" using c2(3) by (simp add: same_frame_def)
      have v2: "vec_at c2 ?cols (unat k)" using vec_at_newI [OF c2(2-5)] .
      have "rec_at c2 (user_ptr p) = Rec ?d"
        using rec_at_vec [OF v2, of "unat k"] cc True by (simp add: nth_append)
      moreover have "vobj c2 ?cols (unat k)"
        using vector_unlock [OF v v2 c2(3,7) fr ad(1)] ad(3) dm c2(6) False by auto
      ultimately show ?thesis
        unfolding refines_def using c2(1,3) True
        by (intro exI [of _ "Rec ?d"] exI [of _ c2] conjI exI [of _ True] exI [of _ ?cols] exI [of _ "unat k"])
          (simp_all add: cpy_eq take_map drop_map Let_def ret_rec_def)
    qed
  qed
qed

text \<open>Releasing items: the heap blocks that are left cover the items that are left.\<close>

definition heap_has :: "cmutex \<Rightarrow> ptr set \<Rightarrow> 'h llist_obj \<Rightarrow> bool" where
  "heap_has m S u \<longleftrightarrow> (\<exists>h. u = \<lparr>m_p_mutex = Some m, m_p_heap = Some h\<rparr> \<and> inv h \<and> S \<subseteq> dom (block h))"

lemma heap_has_free:
  "heap_has m S u \<Longrightarrow> p \<in> S \<Longrightarrow> \<exists>u'. llv_free free p sz u = Some u' \<and> heap_has m (S - {p}) u'"
  unfolding heap_has_def llv_free_def using free_block [of _ p sz] by fastforce

lemma vector_del:
  assumes v: "vobj c cols i"
  shows "\<exists>r c'. cVector_call (Del k) c = Some (r, c') \<and> refines alloc free inv block (Del k) c cols i r c'"
proof -
  obtain hl m m' h where u: "p_udata c = \<lparr>m_p_mutex = Some m, m_p_heap = Some h\<rparr>" and hi: "inv h"
    and dm: "dom (items c) \<subseteq> dom (block h)"
    and lk: "ll_lock c 0 = Some (hl, c\<lparr>p_udata := \<lparr>m_p_mutex = Some m', m_p_heap = Some h\<rparr>\<rparr>)"
    and fr: "cMutex_free (cMutex_unlock m' hl)"
    by (rule vector_lock [OF v]) (rule that)
  have va: "vec_at c cols i" and al: "p_free c = Some (llv_free free)" using v by (auto simp: vector_obj_def)
  let ?u = "\<lambda>h. \<lparr>m_p_mutex = Some m', m_p_heap = Some h\<rparr>"
  show ?thesis
  proof (cases "unat k < length (cols (ccol c))")
    case False
    then have d: "ll_del c k 0 = Some (ll_unlock (c\<lparr>p_udata := ?u h\<rparr>) hl)"
      using ll_del_outside [OF va _ lk, of k] by simp
    have "vobj (ll_unlock (c\<lparr>p_udata := ?u h\<rparr>) hl) cols i"
      using vector_unlock [OF v _ _ _ fr hi, of "ll_unlock (c\<lparr>p_udata := ?u h\<rparr>) hl" cols i] va dm by simp
    with d False show ?thesis
      unfolding refines_def ret_done_def cVector_call.simps
      by (intro exI [of _ Done] exI [of _ "ll_unlock (c\<lparr>p_udata := ?u h\<rparr>) hl"] conjI
          exI [of _ True] exI [of _ cols] exI [of _ i]) simp_all
  next
    case True
    from va obtain s where vv: "vec c cols" "cur_col c = Some s" "cursor s (cols (ccol c)) i" by (rule vec_atE)
    let ?p = "fst (cols (ccol c) ! unat k)"
    have "?p \<in> dom (items c)" using vec_at_data [OF va True] by auto
    then have "?p \<in> dom (block h)" using dm by blast
    from free_block [OF hi this, of "item_size c"] obtain h' where
      h': "free ?p (item_size c) h = Some h'" "inv h'" "block h' = (block h)(?p := None)" by blast
    then have fu: "llv_free free ?p (item_size c) (p_udata (c\<lparr>p_udata := ?u h\<rparr>)) = Some (?u h')"
      by (simp add: llv_free_def)
    let ?ns = "take (unat k) (cols (ccol c)) @ drop (Suc (unat k)) (cols (ccol c))"
    let ?j = "if Suc (unat k) = length (cols (ccol c)) then unat k - 1 else unat k"
    from ll_del_vec [OF vv True lk al fu] obtain c2 s2 where
      c2: "ll_del c k 0 = Some c2" "vec c2 (cols(ccol c := ?ns))" "same_frame c c2" "cur_col c2 = Some s2"
      "cursor s2 ?ns ?j" "dom (items c2) = dom (items c) - {?p}"
      "p_udata c2 = p_udata (ll_unlock (c\<lparr>p_udata := ?u h'\<rparr>) hl)"
      by blast
    have "dom (items c2) \<subseteq> dom (block h')" using h'(3) dm c2(6) by auto
    with vector_unlock [OF v vec_at_newI [OF c2(2-5)] c2(3,7) fr h'(2)]
    have "vobj c2 (cols(ccol c := ?ns)) ?j" by blast
    with c2 True show ?thesis
      unfolding refines_def ret_done_def cVector_call.simps
      by (intro exI [of _ Done] exI [of _ c2] conjI exI [of _ True] exI [of _ "cols(ccol c := ?ns)"]
          exI [of _ ?j]) (simp_all add: take_map drop_map)
  qed
qed

lemma vector_del_current:
  assumes v: "vobj c cols i"
  shows "\<exists>r c'. cVector_call DelCurrent c = Some (r, c') \<and> refines alloc free inv block DelCurrent c cols i r c'"
proof -
  obtain hl m m' h where u: "p_udata c = \<lparr>m_p_mutex = Some m, m_p_heap = Some h\<rparr>" and hi: "inv h"
    and dm: "dom (items c) \<subseteq> dom (block h)"
    and lk: "ll_lock c 0 = Some (hl, c\<lparr>p_udata := \<lparr>m_p_mutex = Some m', m_p_heap = Some h\<rparr>\<rparr>)"
    and fr: "cMutex_free (cMutex_unlock m' hl)"
    by (rule vector_lock [OF v]) (rule that)
  have va: "vec_at c cols i" and al: "p_free c = Some (llv_free free)" using v by (auto simp: vector_obj_def)
  let ?u = "\<lambda>h. \<lparr>m_p_mutex = Some m', m_p_heap = Some h\<rparr>"
  show ?thesis
  proof (cases "cols (ccol c) = []")
    case True
    have d: "ll_del_current c 0 = Some (ll_unlock (c\<lparr>p_udata := ?u h\<rparr>) hl)"
      using ll_del_current_empty [OF va True lk] by simp
    have "vobj (ll_unlock (c\<lparr>p_udata := ?u h\<rparr>) hl) cols i"
      using vector_unlock [OF v _ _ _ fr hi, of "ll_unlock (c\<lparr>p_udata := ?u h\<rparr>) hl" cols i] va dm by simp
    with d True show ?thesis
      unfolding refines_def ret_done_def cVector_call.simps
      by (intro exI [of _ Done] exI [of _ "ll_unlock (c\<lparr>p_udata := ?u h\<rparr>) hl"] conjI
          exI [of _ True] exI [of _ cols] exI [of _ i]) simp_all
  next
    case False
    from va obtain s where vv: "vec c cols" "cur_col c = Some s" "cursor s (cols (ccol c)) i" by (rule vec_atE)
    have i: "i < length (cols (ccol c))" using vv(3) False by (simp add: cursor_def)
    let ?p = "fst (cols (ccol c) ! i)"
    have "?p \<in> dom (items c)" using vec_at_data [OF va i] by auto
    then have "?p \<in> dom (block h)" using dm by blast
    from free_block [OF hi this, of "item_size c"] obtain h' where
      h': "free ?p (item_size c) h = Some h'" "inv h'" "block h' = (block h)(?p := None)" by blast
    then have fu: "llv_free free ?p (item_size c) (p_udata (c\<lparr>p_udata := ?u h\<rparr>)) = Some (?u h')"
      by (simp add: llv_free_def)
    let ?ns = "take i (cols (ccol c)) @ drop (Suc i) (cols (ccol c))"
    let ?j = "if Suc i = length (cols (ccol c)) then i - 1 else i"
    from ll_del_current_vec [OF vv False lk al fu] obtain c2 s2 where
      c2: "ll_del_current c 0 = Some c2" "vec c2 (cols(ccol c := ?ns))" "same_frame c c2" "cur_col c2 = Some s2"
      "cursor s2 ?ns ?j" "dom (items c2) = dom (items c) - {?p}"
      "p_udata c2 = p_udata (ll_unlock (c\<lparr>p_udata := ?u h'\<rparr>) hl)"
      by blast
    have "dom (items c2) \<subseteq> dom (block h')" using h'(3) dm c2(6) by auto
    with vector_unlock [OF v vec_at_newI [OF c2(2-5)] c2(3,7) fr h'(2)]
    have "vobj c2 (cols(ccol c := ?ns)) ?j" by blast
    with c2 False show ?thesis
      unfolding refines_def ret_done_def cVector_call.simps
      by (intro exI [of _ Done] exI [of _ c2] conjI exI [of _ True] exI [of _ "cols(ccol c := ?ns)"]
          exI [of _ ?j]) (simp_all add: take_map drop_map)
  qed
qed

lemma vector_clr:
  assumes v: "vobj c cols i"
  shows "\<exists>r c'. cVector_call Clr c = Some (r, c') \<and> refines alloc free inv block Clr c cols i r c'"
proof -
  obtain hl m m' h where u: "p_udata c = \<lparr>m_p_mutex = Some m, m_p_heap = Some h\<rparr>" and hi: "inv h"
    and dm: "dom (items c) \<subseteq> dom (block h)"
    and lk: "ll_lock c 0 = Some (hl, c\<lparr>p_udata := \<lparr>m_p_mutex = Some m', m_p_heap = Some h\<rparr>\<rparr>)"
    and fr: "cMutex_free (cMutex_unlock m' hl)"
    by (rule vector_lock [OF v]) (rule that)
  have va: "vec_at c cols i" and al: "p_free c = Some (llv_free free)" using v by (auto simp: vector_obj_def)
  from va obtain s where vv: "vec c cols" "cur_col c = Some s" by (auto elim: vec_atE)
  then have "ccol c < ncol c" by (simp add: vec_def)
  then have sub: "addrs (cols (ccol c)) \<subseteq> dom (items c)" using vec_alive [OF vv(1)] by blast
  have hh: "heap_has m' (dom (items c)) (p_udata (c\<lparr>p_udata := \<lparr>m_p_mutex = Some m', m_p_heap = Some h\<rparr>\<rparr>))"
    using hi dm by (simp add: heap_has_def)
  from ll_clr_vec [where J = "heap_has m'", OF vv(1) lk al hh sub heap_has_free] obtain c2 u2 where
    c2: "ll_clr c 0 = Some c2" "vec c2 (cols(ccol c := []))" "same_frame c c2"
      "dom (items c2) = dom (items c) - addrs (cols (ccol c))"
      "heap_has m' (dom (items c) - addrs (cols (ccol c))) u2" "p_udata c2 = p_udata (ll_unlock (c\<lparr>p_udata := u2\<rparr>) hl)"
    by blast
  then obtain h' where h': "u2 = \<lparr>m_p_mutex = Some m', m_p_heap = Some h'\<rparr>" "inv h'"
    "dom (items c2) \<subseteq> dom (block h')" by (auto simp: heap_has_def)
  have "ccol c2 = ccol c" using c2(3) by (simp add: same_frame_def)
  with vec_cur [OF c2(2)] have "vec_at c2 (cols(ccol c := [])) 0"
    using c2(2) by (auto simp: vec_at_def cursor_def)
  from vector_unlock [OF v this c2(3) _ fr h'(2,3)] c2(6) h'(1) have "vobj c2 (cols(ccol c := [])) 0" by simp
  with c2 show ?thesis
    unfolding refines_def ret_done_def cVector_call.simps
    by (intro exI [of _ Done] exI [of _ c2] conjI exI [of _ True] exI [of _ "cols(ccol c := [])"]
          exI [of _ 0]) simp_all
qed

text \<open>The calls that change no record: the outcome of the list operation is enough.\<close>

lemma vector_reads:
  assumes v: "vobj c cols i"
    and op: "\<And>h c1. ll_lock c 0 = Some (h, c1) \<Longrightarrow>
      \<exists>c'. cVector_call op c = Some (r c', c') \<and> vec_at c' cols j \<and> items c' = items c \<and> same_frame c c' \<and>
        p_udata c' = p_udata (ll_unlock c1 h)"
    and spec: "\<And>c'. vec_at c' cols j \<Longrightarrow> ccol c' = ccol c \<Longrightarrow>
      vspec (data_size c) True op (map snd (cols (ccol c)), i) = (r c', map snd (cols (ccol c)), j)"
  shows "\<exists>r c'. cVector_call op c = Some (r, c') \<and> refines alloc free inv block op c cols i r c'"
proof -
  obtain hl m m' h where u: "p_udata c = \<lparr>m_p_mutex = Some m, m_p_heap = Some h\<rparr>" and hi: "inv h"
    and dm: "dom (items c) \<subseteq> dom (block h)"
    and lk: "ll_lock c 0 = Some (hl, c\<lparr>p_udata := \<lparr>m_p_mutex = Some m', m_p_heap = Some h\<rparr>\<rparr>)"
    and fr: "cMutex_free (cMutex_unlock m' hl)"
    by (rule vector_lock [OF v]) (rule that)
  from op [OF lk] obtain c2 where c2: "cVector_call op c = Some (r c2, c2)" "vec_at c2 cols j"
    "items c2 = items c" "same_frame c c2"
    "p_udata c2 = p_udata (ll_unlock (c\<lparr>p_udata := \<lparr>m_p_mutex = Some m', m_p_heap = Some h\<rparr>\<rparr>) hl)" by blast
  have "vobj c2 cols j"
    using vector_unlock [OF v c2(2,4,5) fr hi] c2(3) dm by simp
  moreover have "ccol c2 = ccol c" using c2(4) by (simp add: same_frame_def)
  ultimately show ?thesis
    unfolding refines_def using c2(1,4) spec [OF c2(2)] by blast
qed

lemma vector_at: "vobj c cols i \<Longrightarrow> vec_at c cols i"
  by (simp add: vector_obj_def)

lemma vector_get:
  assumes v: "vobj c cols i"
  shows "\<exists>r c'. cVector_call (Get k) c = Some (r, c') \<and> refines alloc free inv block (Get k) c cols i r c'"
proof (rule vector_reads [OF v, where j = "if unat k < length (cols (ccol c)) then unat k else i" and
      r = "\<lambda>c'. rec_at c' (if unat k < length (cols (ccol c)) then user_ptr (fst (cols (ccol c) ! unat k)) else 0)"])
  fix h c1 assume "ll_lock c 0 = Some (h, c1)"
  from ll_get_vec [OF vector_at [OF v] this, of k] show "\<exists>c'. cVector_call (Get k) c =
      Some (rec_at c' (if unat k < length (cols (ccol c)) then user_ptr (fst (cols (ccol c) ! unat k)) else 0), c') \<and>
      vec_at c' cols (if unat k < length (cols (ccol c)) then unat k else i) \<and> items c' = items c \<and>
      same_frame c c' \<and> p_udata c' = p_udata (ll_unlock c1 h)"
    by (auto simp: ret_rec_def)
qed (auto simp: rec_or_def rec_at_col)

lemma vector_cnt:
  assumes v: "vobj c cols i"
  shows "\<exists>r c'. cVector_call Cnt c = Some (r, c') \<and> refines alloc free inv block Cnt c cols i r c'"
proof (rule vector_reads [OF v, where j = i and r = "\<lambda>c'. Num (of_nat (length (cols (ccol c))))"])
  fix h c1 assume lk: "ll_lock c 0 = Some (h, c1)"
  with ll_cnt_vec [OF vector_at [OF v] lk] vec_at_lock [OF lk] vector_at [OF v] ll_lock_same [OF lk]
  show "\<exists>c'. cVector_call Cnt c = Some (Num (of_nat (length (cols (ccol c)))), c') \<and>
      vec_at c' cols i \<and> items c' = items c \<and> same_frame c c' \<and> p_udata c' = p_udata (ll_unlock c1 h)"
    by (intro exI [of _ "ll_unlock c1 h"]) simp
qed simp

lemma vector_current:
  assumes v: "vobj c cols i"
  shows "\<exists>r c'. cVector_call Current c = Some (r, c') \<and> refines alloc free inv block Current c cols i r c'"
proof (rule vector_reads [OF v, where j = i and
      r = "\<lambda>c'. rec_at c' (if cols (ccol c) = [] then 0 else user_ptr (fst (cols (ccol c) ! i)))"])
  fix h c1 assume lk: "ll_lock c 0 = Some (h, c1)"
  with ll_current_vec [OF vector_at [OF v] lk] vec_at_lock [OF lk] vector_at [OF v] ll_lock_same [OF lk]
  show "\<exists>c'. cVector_call Current c =
      Some (rec_at c' (if cols (ccol c) = [] then 0 else user_ptr (fst (cols (ccol c) ! i))), c') \<and>
      vec_at c' cols i \<and> items c' = items c \<and> same_frame c c' \<and> p_udata c' = p_udata (ll_unlock c1 h)"
    by (intro exI [of _ "ll_unlock c1 h"]) (simp add: ret_rec_def)
next
  fix c' :: "'h cvector" assume c': "vec_at c' cols i" "ccol c' = ccol c"
  then have "cols (ccol c) \<noteq> [] \<Longrightarrow> i < length (cols (ccol c))" by (auto elim!: vec_atE simp: cursor_def)
  with c' rec_at_col [OF c', of i] show "vspec (data_size c) True Current (map snd (cols (ccol c)), i) =
      (rec_at c' (if cols (ccol c) = [] then 0 else user_ptr (fst (cols (ccol c) ! i))), map snd (cols (ccol c)), i)"
    by auto
qed

lemma vector_first:
  assumes v: "vobj c cols i"
  shows "\<exists>r c'. cVector_call First c = Some (r, c') \<and> refines alloc free inv block First c cols i r c'"
proof (rule vector_reads [OF v, where j = 0 and
      r = "\<lambda>c'. rec_at c' (if cols (ccol c) = [] then 0 else user_ptr (fst (hd (cols (ccol c)))))"])
  fix h c1 assume lk: "ll_lock c 0 = Some (h, c1)"
  from ll_first_vec [OF vector_at [OF v] lk] show "\<exists>c'. cVector_call First c =
      Some (rec_at c' (if cols (ccol c) = [] then 0 else user_ptr (fst (hd (cols (ccol c))))), c') \<and>
      vec_at c' cols 0 \<and> items c' = items c \<and> same_frame c c' \<and> p_udata c' = p_udata (ll_unlock c1 h)"
    by (auto simp: ret_rec_def)
next
  fix c' :: "'h cvector" assume c': "vec_at c' cols 0" "ccol c' = ccol c"
  with rec_at_col [OF c', of 0] show "vspec (data_size c) True First (map snd (cols (ccol c)), i) =
      (rec_at c' (if cols (ccol c) = [] then 0 else user_ptr (fst (hd (cols (ccol c))))), map snd (cols (ccol c)), 0)"
    by (auto simp: rec_or_def hd_conv_nth)
qed

lemma vector_last:
  assumes v: "vobj c cols i"
  shows "\<exists>r c'. cVector_call Last c = Some (r, c') \<and> refines alloc free inv block Last c cols i r c'"
proof (rule vector_reads [OF v, where j = "length (cols (ccol c)) - 1" and
      r = "\<lambda>c'. rec_at c' (if cols (ccol c) = [] then 0 else user_ptr (fst (last (cols (ccol c)))))"])
  fix h c1 assume lk: "ll_lock c 0 = Some (h, c1)"
  from ll_last_vec [OF vector_at [OF v] lk] show "\<exists>c'. cVector_call Last c =
      Some (rec_at c' (if cols (ccol c) = [] then 0 else user_ptr (fst (last (cols (ccol c))))), c') \<and>
      vec_at c' cols (length (cols (ccol c)) - 1) \<and> items c' = items c \<and> same_frame c c' \<and>
      p_udata c' = p_udata (ll_unlock c1 h)"
    by (auto simp: ret_rec_def)
next
  fix c' :: "'h cvector" assume c': "vec_at c' cols (length (cols (ccol c)) - 1)" "ccol c' = ccol c"
  with rec_at_col [OF c', of "length (cols (ccol c)) - 1"]
  show "vspec (data_size c) True Last (map snd (cols (ccol c)), i) =
      (rec_at c' (if cols (ccol c) = [] then 0 else user_ptr (fst (last (cols (ccol c))))), map snd (cols (ccol c)),
       length (cols (ccol c)) - 1)"
    by (auto simp: last_conv_nth last_map)
qed

lemma vector_next:
  assumes v: "vobj c cols i"
  shows "\<exists>r c'. cVector_call Next c = Some (r, c') \<and> refines alloc free inv block Next c cols i r c'"
proof (rule vector_reads [OF v, where j = "if Suc i < length (cols (ccol c)) then Suc i else i" and
      r = "\<lambda>c'. rec_at c' (if Suc i < length (cols (ccol c)) then user_ptr (fst (cols (ccol c) ! Suc i)) else 0)"])
  fix h c1 assume lk: "ll_lock c 0 = Some (h, c1)"
  from ll_next_vec [OF vector_at [OF v] lk] show "\<exists>c'. cVector_call Next c =
      Some (rec_at c' (if Suc i < length (cols (ccol c)) then user_ptr (fst (cols (ccol c) ! Suc i)) else 0), c') \<and>
      vec_at c' cols (if Suc i < length (cols (ccol c)) then Suc i else i) \<and> items c' = items c \<and>
      same_frame c c' \<and> p_udata c' = p_udata (ll_unlock c1 h)"
    by (auto simp: ret_rec_def)
qed (auto simp: rec_or_def rec_at_col)

lemma vector_prev:
  assumes v: "vobj c cols i"
  shows "\<exists>r c'. cVector_call Prev c = Some (r, c') \<and> refines alloc free inv block Prev c cols i r c'"
proof (rule vector_reads [OF v, where j = "if cols (ccol c) \<noteq> [] then i - 1 else i" and
      r = "\<lambda>c'. rec_at c' (if cols (ccol c) \<noteq> [] \<and> 0 < i then user_ptr (fst (cols (ccol c) ! (i - 1))) else 0)"])
  fix h c1 assume lk: "ll_lock c 0 = Some (h, c1)"
  from ll_prev_vec [OF vector_at [OF v] lk] show "\<exists>c'. cVector_call Prev c =
      Some (rec_at c' (if cols (ccol c) \<noteq> [] \<and> 0 < i then user_ptr (fst (cols (ccol c) ! (i - 1))) else 0), c') \<and>
      vec_at c' cols (if cols (ccol c) \<noteq> [] then i - 1 else i) \<and> items c' = items c \<and>
      same_frame c c' \<and> p_udata c' = p_udata (ll_unlock c1 h)"
    by (auto simp: ret_rec_def)
next
  fix c' :: "'h cvector" assume c': "vec_at c' cols (if cols (ccol c) \<noteq> [] then i - 1 else i)" "ccol c' = ccol c"
  have "i < length (cols (ccol c))" if "cols (ccol c) \<noteq> []"
    using vector_at [OF v] that by (auto elim!: vec_atE simp: cursor_def)
  with c' rec_at_col [OF c', of "i - 1"]
  show "vspec (data_size c) True Prev (map snd (cols (ccol c)), i) =
      (rec_at c' (if cols (ccol c) \<noteq> [] \<and> 0 < i then user_ptr (fst (cols (ccol c) ! (i - 1))) else 0),
       map snd (cols (ccol c)), if cols (ccol c) \<noteq> [] then i - 1 else i)"
    by (auto simp: rec_or_def)
qed

lemma vector_call_plain:
  "vobj c cols i \<Longrightarrow> \<not> allocates op \<Longrightarrow>
   \<exists>r c'. cVector_call op c = Some (r, c') \<and> refines alloc free inv block op c cols i r c'"
  by (cases op) (simp_all only: vector_del vector_del_current vector_clr vector_get vector_cnt vector_current
      vector_first vector_last vector_next vector_prev, simp_all add: allocates_def)

lemma vector_call:
  assumes "vobj c cols i" and "length (cols (ccol c)) + 1 < 2 ^ 32" and "allocates op \<Longrightarrow> has_room room c"
  shows "\<exists>r c'. cVector_call op c = Some (r, c') \<and> refines alloc free inv block op c cols i r c'"
proof (cases "allocates op")
  case True
  with assms vector_add [OF assms(1,2)] vector_ins [OF assms(1,2)] show ?thesis
    by (cases op) (simp_all add: allocates_def)
next
  case False
  with vector_call_plain [OF assms(1)] show ?thesis by blast
qed

text \<open>A sequence of calls returns and computes what the specification computes.\<close>

lemma vector_calls:
  "vobj c cols i \<Longrightarrow> length (cols (ccol c)) + length ops < 2 ^ 32 \<Longrightarrow> has_rooms room ops c \<Longrightarrow>
   \<exists>rs c' oks cols' j. cVector_calls ops c = Some (rs, c') \<and> vobj c' cols' j \<and> same_frame c c' \<and>
     vspecs (data_size c) oks ops (map snd (cols (ccol c)), i) = (rs, map snd (cols' (ccol c)), j)"
proof (induction ops arbitrary: c cols i)
  case Nil
  then show ?case
    by (intro exI [of _ "[]"] exI [of _ c] exI [of _ "[]"] exI [of _ cols] exI [of _ i]) auto
next
  case (Cons op ops)
  have len: "length (cols (ccol c)) + 1 < 2 ^ 32" using Cons.prems(2) by simp
  have rm: "allocates op \<Longrightarrow> has_room room c" using Cons.prems(3) by simp
  from vector_call [OF Cons.prems(1) len rm] obtain r c1 ok cols1 j where
    r: "cVector_call op c = Some (r, c1)" and 1: "vobj c1 cols1 j" "same_frame c c1"
      "vspec (data_size c) ok op (map snd (cols (ccol c)), i) = (r, map snd (cols1 (ccol c)), j)"
    unfolding refines_def by blast
  have fr: "ccol c1 = ccol c" "data_size c1 = data_size c" using 1(2) by (simp_all add: same_frame_def)
  have "length (cols1 (ccol c)) \<le> Suc (length (cols (ccol c)))" using vspec_grows [OF 1(3)] by simp
  then have "length (cols1 (ccol c1)) + length ops < 2 ^ 32" using Cons.prems(2) fr by simp
  from Cons.IH [OF 1(1) this] Cons.prems(3) r obtain rs c2 oks cols2 k where
    2: "cVector_calls ops c1 = Some (rs, c2)" "vobj c2 cols2 k" "same_frame c1 c2"
      "vspecs (data_size c) oks ops (map snd (cols1 (ccol c)), j) = (rs, map snd (cols2 (ccol c)), k)"
    unfolding fr by auto
  from 2 same_frame_trans [OF 1(2) 2(3)] 1(3) r show ?case
    by (intro exI [of _ "r # rs"] exI [of _ c2] exI [of _ "ok # oks"] exI [of _ cols2] exI [of _ k]) simp
qed

text \<open>Calls that do not allocate need no room.\<close>

lemma has_rooms_plain:
  "vobj c cols i \<Longrightarrow> \<forall>op\<in>set ops. \<not> allocates op \<Longrightarrow> has_rooms room ops c"
proof (induction ops arbitrary: c cols i)
  case Nil
  then show ?case by simp
next
  case (Cons op ops)
  from vector_call_plain [OF Cons.prems(1), of op] Cons.prems(2) obtain r c1 where
    r: "cVector_call op c = Some (r, c1)" "refines alloc free inv block op c cols i r c1" by auto
  then obtain cols1 j where "vobj c1 cols1 j" unfolding refines_def by blast
  with Cons.IH Cons.prems(2) r(1) show ?case by auto
qed

lemma has_rooms_once:
  assumes "vobj c cols i" and "length (cols (ccol c)) + 1 < 2 ^ 32" and "has_room room c"
    and "\<forall>op\<in>set ops. \<not> allocates op"
  shows "has_rooms room (op # ops) c"
proof -
  from vector_call [OF assms(1,2,3)] obtain r c1 where
    r: "cVector_call op c = Some (r, c1)" "refines alloc free inv block op c cols i r c1" by blast
  then obtain cols1 j where "vobj c1 cols1 j" unfolding refines_def by blast
  from has_rooms_plain [OF this assms(4)] r(1) assms(3) show ?thesis by simp
qed

end

end
