(* ===== verification/LL_Queue.thy ===== *)
theory LL_Queue
  imports LL_Vector
begin

text \<open>
  Behaviour of core/common/ll_alg.cpp outside the vector contract: the circular links of
  \<open>LL_MODE_QUEUE\<close>, \<open>ll_roll\<close>, and \<open>ll_sel\<close>, which moves \<open>p_current\<close> but not the index of the cursor.
\<close>

section \<open>Selecting a record\<close>

lemma ll_sel_vec:
  assumes v: "vec_at c cols i" and j: "j < length (cols (ccol c))" and lk: "ll_lock c hl = Some (h, c1)"
  shows "\<exists>c'. ll_sel c (user_ptr (fst (cols (ccol c) ! j))) hl = Some (True, c') \<and> vec c' cols \<and>
     same_frame c c' \<and> items c' = items c \<and> p_udata c' = p_udata (ll_unlock c1 h) \<and>
     (\<exists>s. cur_col c' = Some s \<and> p_current s = fst (cols (ccol c) ! j) \<and>
        (\<forall>s0. cur_col c = Some s0 \<longrightarrow> current s = current s0 \<and> count s = count s0))"
proof -
  from v obtain s where vv: "vec c cols" and s: "cur_col c = Some s"
    and col: "column (items c) (self c) (ccol c) s (cols (ccol c))" by (auto elim: vec_atE)
  let ?p = "fst (cols (ccol c) ! j)"
  have "seg (items c) (self c) (ccol c) 0 (cols (ccol c)) 0" using col by (simp add: column_def)
  from seg_nth [OF this j] obtain it where it: "items c ?p = Some it" "it_cxt it = self c" "it_col it = ccol c"
    by blast
  obtain u where c1: "c1 = c\<lparr>p_udata := u\<rparr>" using ll_lock_udata [OF lk] by blast
  let ?f = "\<lambda>s. s\<lparr>p_current := ?p\<rparr>"
  let ?c' = "ll_unlock (upd_col c1 (ccol c) ?f) h"
  have "ll_sel c (user_ptr ?p) hl = Some (True, ?c')"
    using it s lk c1 by (simp add: ll_sel_def user_ptr_def)
  moreover have "column (items c) (self c) (ccol c) (?f s) (cols (ccol c))"
    using col column_nth(2) [OF col j] j by (auto simp: column_def)
  then have "vec (upd_col c1 (ccol c) ?f) (cols(ccol c := cols (ccol c)))"
    using s c1 vec_other [OF vv] by (intro vec_update [OF vv, where s' = "?f s"]) simp_all
  ultimately show ?thesis
    using s c1 by (intro exI [of _ ?c'] conjI) (simp_all add: ll_unlock_pudata split: option.split)
qed

section \<open>A queue with one record\<close>

lemma add_first_queue:
  assumes "mode c = LL_MODE_QUEUE" and "cur_col c = Some s" and "p_first s = 0" and "p_last s = 0"
    and "count s = 0" and "p_alloc c = Some f" and "ll_lock c hl = Some (h, c1)"
    and "f (item_size c) (p_udata c1) = Some (p, u)" and "p \<noteq> 0"
  shows "\<exists>c' s'. ll_add c src hl = Some (user_ptr p, c') \<and> cur_col c' = Some s' \<and> same_frame c c' \<and>
     p_first s' = p \<and> p_last s' = p \<and> p_current s' = p \<and> count s' = 1 \<and> current s' = 0 \<and>
     items c' = (items c)(p \<mapsto> \<lparr>it_cxt = self c, it_col = ccol c, it_prev = 0, it_next = 0,
        it_data = cpy src (data_size c)\<rparr>)"
proof -
  obtain u0 where c1: "c1 = c\<lparr>p_udata := u0\<rparr>" using ll_lock_udata [OF assms(7)] by blast
  show ?thesis
    using assms c1 by (simp add: ll_add_def ll_malloc_def item_size_def wr_if_def Let_def)
qed

section \<open>Properties\<close>

text \<open>\<open>ll_sel\<close> leaves the cursor index behind. After selecting record \<open>j\<close> of a vector whose
  cursor was at \<open>i\<close>, \<open>ll_get(i)\<close> finds its walk already finished and returns record \<open>j\<close>.\<close>

theorem ll_sel_desynchronises_get:
  assumes v: "vec_at c cols i" and j: "j < length (cols (ccol c))" and l: "p_lock c = None"
  shows "\<exists>c' c''. ll_sel c (user_ptr (fst (cols (ccol c) ! j))) hl = Some (True, c') \<and> vec c' cols \<and>
     ll_get c' (word_of_nat i) hl' = Some (user_ptr (fst (cols (ccol c) ! j)), c'')"
proof -
  have lk: "ll_lock c hl = Some (0, c)" using l by (simp add: ll_lock_def)
  from v obtain s0 where s0: "cur_col c = Some s0" "cursor s0 (cols (ccol c)) i"
    and col: "column (items c) (self c) (ccol c) s0 (cols (ccol c))" by (rule vec_atE)
  from j s0(2) have i: "i < length (cols (ccol c))" "unat (current s0) = i" by (auto simp: cursor_def)
  obtain c' s where c': "ll_sel c (user_ptr (fst (cols (ccol c) ! j))) hl = Some (True, c')" "vec c' cols"
    "same_frame c c'" "cur_col c' = Some s" "p_current s = fst (cols (ccol c) ! j)" "current s = current s0"
    "count s = count s0"
    using ll_sel_vec [OF v j lk] s0(1) by auto
  have "current s = word_of_nat i" using c'(6) i(2) by auto
  moreover have "word_of_nat i < count s"
    using col i c'(6,7) calculation by (simp add: column_def word_less_nat_alt)
  moreover have "fst (cols (ccol c) ! j) \<noteq> 0" using column_nth(1) [OF col j] .
  moreover have "ll_lock c' hl' = Some (0, c')" using c'(3) l by (simp add: ll_lock_def same_frame_def)
  ultimately have "\<exists>c''. ll_get c' (word_of_nat i) hl' = Some (user_ptr (fst (cols (ccol c) ! j)), c'')"
    using c'(4,5) by (simp add: ll_get_def get_def get_loop.simps)
  with c' show ?thesis by blast
qed

text \<open>A vector of two records.\<close>

definition demo_two :: "unit ll_context" where
  "demo_two = \<lparr>self = 9, mode = LL_MODE_VECTOR, data_size = 1, p_alloc = None, p_free = None, p_lock = None,
     p_unlock = None, p_udata = (), ccol = 0, ncol = 1,
     state = Some [\<lparr>p_current = 100, p_first = 100, p_last = 200, count = 2, current = 0\<rparr>],
     items = [100 \<mapsto> \<lparr>it_cxt = 9, it_col = 0, it_prev = 0, it_next = 200, it_data = [1]\<rparr>,
              200 \<mapsto> \<lparr>it_cxt = 9, it_col = 0, it_prev = 100, it_next = 0, it_data = [2]\<rparr>]\<rparr>"

lemma demo_two_ok: "vec_at demo_two (\<lambda>_. [(100, [1]), (200, [2])]) 0"
proof -
  have one: "k < 1 \<longleftrightarrow> k = 0" for k :: u8 by (simp add: word_less_nat_alt unat_eq_zero)
  have "vec demo_two (\<lambda>_. [(100, [1]), (200, [2])])"
    by (simp add: vec_def column_def get_col_def demo_two_def one)
  then show ?thesis by (simp add: vec_at_def cursor_def get_col_def demo_two_def)
qed

theorem ll_sel_desynchronises_get_witness:
  "\<exists>c' c''. ll_sel demo_two 225 0 = Some (True, c') \<and> ll_get c' 0 0 = Some (225, c'')"
  using ll_sel_desynchronises_get [OF demo_two_ok, of 1 0 0]
  by (simp add: demo_two_def user_ptr_def sizeof_hdr_def) blast

text \<open>Deleting the only record of a queue dereferences a null pointer. A record added to an
  empty queue has null links; \<open>ll_del\<close> sets \<open>p_last\<close> and \<open>p_current\<close> to its \<open>prev\<close>, null, and writes
  \<open>p_current->next\<close>.\<close>

theorem queue_delete_only_record:
  assumes "mode c = LL_MODE_QUEUE" and "cur_col c = Some s" and "p_first s = 0" and "p_last s = 0"
    and "count s = 0" and "items c 0 = None" and "p_free c \<noteq> None"
    and "p_alloc c = Some f" and "ll_lock c hl = Some (h, c1)" and "f (item_size c) (p_udata c1) = Some (p, u)"
    and "p \<noteq> 0"
  shows "\<exists>c'. ll_add c src hl = Some (user_ptr p, c') \<and> ll_del c' 0 hl' = None"
proof -
  from add_first_queue [OF assms(1-5,8-11), where src = src] obtain c' s' where
    add: "ll_add c src hl = Some (user_ptr p, c')" and st: "cur_col c' = Some s'" "same_frame c c'"
    "p_first s' = p" "p_last s' = p" "p_current s' = p" "count s' = 1" "current s' = 0"
    and its: "items c' = (items c)(p \<mapsto> \<lparr>it_cxt = self c, it_col = ccol c, it_prev = 0, it_next = 0,
        it_data = cpy src (data_size c)\<rparr>)" by blast
  have c': "items c' p = Some \<lparr>it_cxt = self c, it_col = ccol c, it_prev = 0, it_next = 0,
        it_data = cpy src (data_size c)\<rparr>" "items c' 0 = None" "mode c' = LL_MODE_QUEUE" "p_free c' \<noteq> None"
    using its st(2) assms(1,6,7,11) by (simp_all add: same_frame_def)
  have un: "ll_unlink d p = None" if d: "cur_col d = Some s'" "items d = items c'" "mode d = LL_MODE_QUEUE"
    "p_free d \<noteq> None" for d
    using d c' st assms(11)
    by (simp add: ll_unlink_def unlink_next_def unlink_first_def unlink_last_def wr_if_def Let_def
        wr_item_def wr_its_def LL_MODE_QUEUE_def split: option.split)
  have "ll_del c' 0 hl' = None"
  proof (cases "ll_lock c' hl'")
    case None
    then show ?thesis by (simp add: ll_del_def)
  next
    case (Some hc)
    then obtain h2 u2 where l2: "ll_lock c' hl' = Some (h2, c'\<lparr>p_udata := u2\<rparr>)"
      using ll_lock_udata [of c' hl'] by (cases hc) auto
    let ?d = "upd_cur (c'\<lparr>p_udata := u2\<rparr>) (\<lambda>s. s\<lparr>current := 0, p_current := p\<rparr>)"
    have "get (c'\<lparr>p_udata := u2\<rparr>) 0 = Some (p, ?d)"
      using st assms(11) by (simp add: get_def get_loop.simps)
    moreover have "?d = c'\<lparr>p_udata := u2\<rparr>" using st by (intro upd_col_noop [where s = s']) simp_all
    moreover have "ll_unlink (c'\<lparr>p_udata := u2\<rparr>) p = None" by (rule un) (use st c' in simp_all)
    ultimately show ?thesis using l2 by (simp add: ll_del_def)
  qed
  with add show ?thesis by blast
qed

definition demo_queue :: "nat ll_context" where
  "demo_queue = \<lparr>self = 9, mode = LL_MODE_QUEUE, data_size = 1, p_alloc = Some (\<lambda>sz u. Some (u, u + 100)),
     p_free = Some (\<lambda>p sz u. Some u), p_lock = None, p_unlock = None, p_udata = 1000, ccol = 0, ncol = 1,
     state = Some [\<lparr>p_current = 0, p_first = 0, p_last = 0, count = 0, current = 0\<rparr>], items = Map.empty\<rparr>"

theorem queue_delete_only_record_witness:
  "\<exists>c'. ll_add demo_queue (\<lambda>_. 7) 0 = Some (user_ptr 1000, c') \<and> ll_del c' 0 0 = None"
  by (rule queue_delete_only_record
      [where s = "\<lparr>p_current = 0, p_first = 0, p_last = 0, count = 0, current = 0\<rparr>" and h = 0 and ?c1.0 = demo_queue
        and f = "\<lambda>sz u. Some (u, u + 100)" and u = 1100])
    (simp_all add: get_col_def ll_lock_def demo_queue_def)

end
