(* ===== verification/Ring_Heap.thy ===== *)
theory Ring_Heap
  imports IHeap Mutex
begin

text \<open>
  core/mem/ring_heap.cpp (cHeap): a heap in one region of memory. A table of chunks (size, address)
  grows up from the base of the region, the chunks themselves are carved off downwards from its
  end. A chunk is free when its first 32-bit word is \<open>FREE_PATTERN\<close>.

  The table is the list \<open>chunks\<close> (its length is \<open>m_count\<close>), and \<open>word0 p\<close> is the first word of the chunk
  at \<open>p\<close>. An operation that writes a table entry over a chunk is undefined, \<open>None\<close>. Addresses are
  64-bit: \<open>psub\<close> wraps.
\<close>

section \<open>The class\<close>

record chunk =
  ck_sz :: u32
  ck_ptr :: ptr

record cheap =
  m_p_heap_base :: ptr
  m_heap_sz :: u32
  chunks :: "chunk list"
  m_check :: u32
  h_mutex :: "cmutex option"
  word0 :: "ptr \<Rightarrow> u32"

definition FREE_PATTERN :: u32 where
  "FREE_PATTERN = 0xcacacaca"

definition sizeof_chunk :: nat where
  "sizeof_chunk = 12"

definition psub :: "ptr \<Rightarrow> nat \<Rightarrow> ptr" where
  "psub p n = (if n \<le> p then p - n else p + 2 ^ 64 - n)"

definition heap_end :: "cheap \<Rightarrow> ptr" where
  "heap_end h = m_p_heap_base h + unat (m_heap_sz h)"

text \<open>The table with \<open>n\<close> entries does not reach into a chunk of \<open>cs\<close>.\<close>

definition table_fits :: "cheap \<Rightarrow> nat \<Rightarrow> chunk list \<Rightarrow> bool" where
  "table_fits h n cs \<longleftrightarrow> (\<forall>c\<in>set cs. m_p_heap_base h + n * sizeof_chunk \<le> ck_ptr c)"

definition cHeap_init :: "cheap \<Rightarrow> ptr \<Rightarrow> u32 \<Rightarrow> cheap" where
  "cHeap_init h p_base heap_sz = h\<lparr>m_p_heap_base := p_base, m_heap_sz := heap_sz, chunks := [], m_check := 0\<rparr>"

definition cHeap_lock :: "cheap \<Rightarrow> (u64 \<times> cheap) option" where
  "cHeap_lock h = (case h_mutex h of None \<Rightarrow> Some (0, h)
     | Some m \<Rightarrow> map_option (\<lambda>(r, m'). (r, h\<lparr>h_mutex := Some m'\<rparr>)) (cMutex_lock m 0 MUTEX_TIMEOUT_INFINITE 0))"

definition cHeap_unlock :: "cheap \<Rightarrow> u64 \<Rightarrow> cheap" where
  "cHeap_unlock h hm = (case h_mutex h of None \<Rightarrow> h | Some m \<Rightarrow> h\<lparr>h_mutex := Some (cMutex_unlock m hm)\<rparr>)"

text \<open>\<open>check\<close>: 0, or the index of the first chunk that is not where the sizes put it.\<close>

fun check_loop :: "ptr \<Rightarrow> chunk list \<Rightarrow> nat \<Rightarrow> u32" where
  "check_loop p [] i = 0"
| "check_loop p (c # cs) i =
     (let p' = psub p (unat (ck_sz c))
      in if p' \<noteq> ck_ptr c \<or> ck_sz c < 8 then of_nat i else check_loop p' cs (i + 1))"

definition check :: "cheap \<Rightarrow> u32" where
  "check h = check_loop (heap_end h) (chunks h) 0"

text \<open>The search of \<open>_alloc\<close>: the first free chunk that is large enough, or the address below the
  last chunk.\<close>

fun alloc_loop :: "(ptr \<Rightarrow> u32) \<Rightarrow> chunk list \<Rightarrow> u32 \<Rightarrow> nat \<Rightarrow> ptr \<Rightarrow> nat \<times> ptr" where
  "alloc_loop w [] sz i r = (i, r)"
| "alloc_loop w (c # cs) sz i r =
     (if w (ck_ptr c) = FREE_PATTERN \<and> sz \<le> ck_sz c then (i, ck_ptr c)
      else alloc_loop w cs sz (i + 1) (psub (ck_ptr c) (unat sz)))"

definition insert_in :: "cheap \<Rightarrow> nat \<Rightarrow> u32 \<Rightarrow> (ptr \<times> cheap) option" where
  "insert_in h index sz =
     (if index < length (chunks h) \<and> sz < ck_sz (chunks h ! index) then
        let c = chunks h ! index; rest = ck_sz c - sz; r = ck_ptr c + unat rest
        in if table_fits h (length (chunks h) + 1) (chunks h)
           then Some (r, h\<lparr>chunks := take index (chunks h) @ \<lparr>ck_sz = sz, ck_ptr = r\<rparr> #
                        \<lparr>ck_sz = rest, ck_ptr = ck_ptr c\<rparr> # drop (index + 1) (chunks h)\<rparr>)
           else None
      else Some (0, h))"

definition alloc_body :: "cheap \<Rightarrow> u32 \<Rightarrow> (ptr \<times> cheap) option" where
  "alloc_body h sz =
     (if m_p_heap_base h \<noteq> 0 then
        if m_check h \<noteq> 0 then Some (0, h)
        else
          let sz' = (if sz \<le> 8 then 16 else sz);
              n = length (chunks h);
              (i, r) = alloc_loop (word0 h) (chunks h) sz' 0 (psub (heap_end h) (unat sz'))
          in do {
               (r, h) \<leftarrow>
                 (if i = n then
                    if m_p_heap_base h + n * sizeof_chunk < r then
                      let h' = h\<lparr>chunks := chunks h @ [\<lparr>ck_sz = sz', ck_ptr = r\<rparr>]\<rparr>
                      in if table_fits h' (n + 1) (chunks h') then Some (r, h') else None
                    else Some (0, h)
                  else if ck_sz (chunks h ! i) - sz' \<le> 8 then Some (ck_ptr (chunks h ! i), h)
                  else insert_in h i sz');
               let h = (if r \<noteq> 0 then h\<lparr>word0 := (word0 h)(r := 0)\<rparr> else h);
               Some (r, h\<lparr>m_check := check h\<rparr>)
             }
      else Some (0, h))"

definition cHeap_alloc :: "u32 \<Rightarrow> cheap \<Rightarrow> (ptr \<times> cheap) option" where
  "cHeap_alloc sz h =
     do { (hm, h) \<leftarrow> cHeap_lock h; (r, h) \<leftarrow> alloc_body h sz; Some (r, cHeap_unlock h hm) }"

definition verify_body :: "cheap \<Rightarrow> ptr \<Rightarrow> bool" where
  "verify_body h p \<longleftrightarrow> p \<noteq> 0 \<and> word0 h p \<noteq> FREE_PATTERN \<and> p \<in> ck_ptr ` set (chunks h)"

text \<open>\<open>pack\<close> merges each run of free chunks into one; \<open>j\<close> is the free chunk just before \<open>i\<close>, if any
  (\<open>0xffffffff\<close> in the code is \<open>None\<close>). Closing the gap copies one entry past the end of the table.\<close>

function pack_loop :: "cheap \<Rightarrow> chunk list \<Rightarrow> nat \<Rightarrow> nat option \<Rightarrow> chunk list option" where
  "pack_loop h cs i j =
     (if i < length cs then
        if word0 h (ck_ptr (cs ! i)) = FREE_PATTERN then
          (case j of
             Some k \<Rightarrow>
               if table_fits h (length cs + 1) cs then
                 let cs' = cs[k := \<lparr>ck_sz = ck_sz (cs ! k) + ck_sz (cs ! i), ck_ptr = ck_ptr (cs ! i)\<rparr>]
                 in pack_loop h (take i cs' @ drop (i + 1) cs') i j
               else None
           | None \<Rightarrow> pack_loop h cs (i + 1) (Some i))
        else pack_loop h cs (i + 1) None
      else Some cs)"
  by pat_completeness auto
termination
  by (relation "measure (\<lambda>(h, cs, i, j). length cs - i)") auto

definition pack :: "cheap \<Rightarrow> cheap option" where
  "pack h = do { cs \<leftarrow> pack_loop h (chunks h) 0 None;
                 let h = h\<lparr>chunks := cs\<rparr>; Some (h\<lparr>m_check := check h\<rparr>) }"

definition free_body :: "cheap \<Rightarrow> ptr \<Rightarrow> cheap option" where
  "free_body h p =
     (if verify_body h p then pack (h\<lparr>word0 := (word0 h)(p := FREE_PATTERN)\<rparr>) else Some h)"

definition cHeap_free :: "ptr \<Rightarrow> u32 \<Rightarrow> cheap \<Rightarrow> cheap option" where
  "cHeap_free p sz h =
     do { (hm, h) \<leftarrow> cHeap_lock h; h \<leftarrow> free_body h p; Some (cHeap_unlock h hm) }"

definition cHeap_verify :: "cheap \<Rightarrow> ptr \<Rightarrow> (bool \<times> cheap) option" where
  "cHeap_verify h p = do { (hm, h) \<leftarrow> cHeap_lock h; Some (verify_body h p, cHeap_unlock h hm) }"

record heap_info =
  hi_base :: ptr
  hi_size :: u32
  hi_chunk_size :: u32
  hi_data_load :: u32
  hi_meta_load :: u32
  hi_free :: u32
  hi_unused :: u32

definition info_step :: "cheap \<Rightarrow> chunk \<Rightarrow> heap_info \<Rightarrow> heap_info" where
  "info_step h c hi =
     (let hi = (if word0 h (ck_ptr c) = FREE_PATTERN then hi\<lparr>hi_free := hi_free hi + ck_sz c\<rparr>
                 else hi\<lparr>hi_data_load := hi_data_load hi + ck_sz c\<rparr>);
          hi = hi\<lparr>hi_meta_load := hi_meta_load hi + of_nat sizeof_chunk\<rparr>
      in hi\<lparr>hi_unused := hi_size hi - (hi_data_load hi + hi_meta_load hi + hi_free hi)\<rparr>)"

definition cHeap_info :: "cheap \<Rightarrow> (heap_info \<times> cheap) option" where
  "cHeap_info h =
     do {
       (hm, h) \<leftarrow> cHeap_lock h;
       Some (fold (info_step h) (chunks h) \<lparr>hi_base = m_p_heap_base h, hi_size = m_heap_sz h,
          hi_chunk_size = of_nat sizeof_chunk, hi_data_load = 0, hi_meta_load = 0, hi_free = 0, hi_unused = 0\<rparr>,
        cHeap_unlock h hm)
     }"

declare pack_loop.simps [simp del]

section \<open>The layout\<close>

text \<open>The chunks tile the memory below \<open>t\<close> without gaps.\<close>

fun tiles :: "ptr \<Rightarrow> chunk list \<Rightarrow> bool" where
  "tiles t [] = True"
| "tiles t (c # cs) = (8 \<le> unat (ck_sz c) \<and> ck_ptr c + unat (ck_sz c) = t \<and> tiles (ck_ptr c) cs)"

definition low :: "ptr \<Rightarrow> chunk list \<Rightarrow> ptr" where
  "low t cs = (if cs = [] then t else ck_ptr (last cs))"

lemma low_simps [simp]: "low t [] = t" "low t (c # cs) = low (ck_ptr c) cs"
  "low t (cs @ ds) = low (low t cs) ds"
  by (auto simp: low_def)

lemma tiles_append: "tiles t (xs @ ys) \<longleftrightarrow> tiles t xs \<and> tiles (low t xs) ys"
  by (induction xs arbitrary: t) auto

lemma tiles_low: "tiles t cs \<Longrightarrow> low t cs \<le> t"
  by (induction cs arbitrary: t) fastforce+

lemma tiles_bounds: "tiles t cs \<Longrightarrow> c \<in> set cs \<Longrightarrow> low t cs \<le> ck_ptr c \<and> ck_ptr c + unat (ck_sz c) \<le> t"
proof (induction cs arbitrary: t)
  case Nil
  then show ?case by simp
next
  case (Cons d cs)
  have "ck_ptr d \<le> t" using Cons.prems(1) by auto
  with Cons tiles_low [of "ck_ptr d" cs] show ?case by fastforce
qed

lemma tiles_apart:
  "tiles t cs \<Longrightarrow> c \<in> set cs \<Longrightarrow> d \<in> set cs \<Longrightarrow> c \<noteq> d \<Longrightarrow>
   ck_ptr c + unat (ck_sz c) \<le> ck_ptr d \<or> ck_ptr d + unat (ck_sz d) \<le> ck_ptr c"
proof (induction cs arbitrary: t)
  case Nil
  then show ?case by simp
next
  case (Cons e cs)
  from Cons.prems consider "c \<in> set cs" "d \<in> set cs" | "c = e" "d \<in> set cs" | "d = e" "c \<in> set cs"
    by auto
  then show ?case
  proof cases
    case 1
    with Cons show ?thesis by auto
  qed (use Cons.prems tiles_bounds [of "ck_ptr e" cs] in auto)
qed

lemma tiles_distinct: "tiles t cs \<Longrightarrow> distinct (map ck_ptr cs)"
proof (induction cs arbitrary: t)
  case Nil
  then show ?case by simp
next
  case (Cons e cs)
  have "ck_ptr e \<noteq> ck_ptr c" if "c \<in> set cs" for c
  proof -
    have "8 \<le> unat (ck_sz c)" using Cons.prems that by (induction cs arbitrary: t e) auto
    with tiles_bounds [of "ck_ptr e" cs c] Cons.prems that show ?thesis by auto
  qed
  with Cons show ?case by auto
qed

lemma check_tiles:
  "tiles t cs \<Longrightarrow> check_loop t cs i = 0"
proof (induction cs arbitrary: t i)
  case Nil
  then show ?case by simp
next
  case (Cons c cs)
  then have "psub t (unat (ck_sz c)) = ck_ptr c" by (auto simp: psub_def)
  with Cons show ?case by (auto simp: word_less_nat_alt)
qed

section \<open>Blocks in use\<close>

definition in_use :: "(ptr \<Rightarrow> u32) \<Rightarrow> chunk \<Rightarrow> bool" where
  "in_use w c \<longleftrightarrow> w (ck_ptr c) \<noteq> FREE_PATTERN"

definition blocks :: "(ptr \<Rightarrow> u32) \<Rightarrow> chunk list \<Rightarrow> (ptr \<rightharpoonup> nat)" where
  "blocks w cs = map_of (map (\<lambda>c. (ck_ptr c, unat (ck_sz c))) (filter (in_use w) cs))"

definition ring_block :: "cheap \<Rightarrow> (ptr \<rightharpoonup> nat)" where
  "ring_block h = blocks (word0 h) (chunks h)"

definition ring_inv :: "cheap \<Rightarrow> bool" where
  "ring_inv h \<longleftrightarrow> m_p_heap_base h \<noteq> 0 \<and> tiles (heap_end h) (chunks h) \<and> m_check h = 0 \<and>
     m_p_heap_base h + (length (chunks h) + 1) * sizeof_chunk \<le> low (heap_end h) (chunks h) \<and>
     (\<forall>m. h_mutex h = Some m \<longrightarrow> cMutex_free m)"

text \<open>A request finds room when the table keeps a spare entry and a chunk carved off below the last
  one either does not fit at all or leaves a second spare entry.\<close>

definition ring_room :: "cheap \<Rightarrow> u32 \<Rightarrow> bool" where
  "ring_room h sz \<longleftrightarrow>
     (let b = m_p_heap_base h; n = length (chunks h); l = low (heap_end h) (chunks h);
          sz' = unat (if sz \<le> 8 then 16 else sz)
      in sz' \<le> b \<and> b + (n + 2) * sizeof_chunk \<le> l \<and>
         (l \<le> b + n * sizeof_chunk + sz' \<or> b + (n + 2) * sizeof_chunk + sz' \<le> l))"

lemma blocks_Some:
  assumes "distinct (map ck_ptr cs)"
  shows "blocks w cs p = Some n \<longleftrightarrow> (\<exists>c\<in>set cs. ck_ptr c = p \<and> unat (ck_sz c) = n \<and> in_use w c)"
proof -
  have "distinct (map fst (map (\<lambda>c. (ck_ptr c, unat (ck_sz c))) (filter (in_use w) cs)))"
    using assms by (simp add: comp_def distinct_map_filter)
  then have "blocks w cs p = Some n \<longleftrightarrow>
      (p, n) \<in> set (map (\<lambda>c. (ck_ptr c, unat (ck_sz c))) (filter (in_use w) cs))"
    unfolding blocks_def by (rule map_of_eq_Some_iff)
  then show ?thesis by auto
qed

lemma blocks_eqI:
  assumes "distinct (map ck_ptr cs)" and "distinct (map ck_ptr cs')"
    and "\<And>q n. (\<exists>c\<in>set cs'. ck_ptr c = q \<and> unat (ck_sz c) = n \<and> in_use w' c) \<longleftrightarrow>
           (if q = p then v = Some n else \<exists>c\<in>set cs. ck_ptr c = q \<and> unat (ck_sz c) = n \<and> in_use w c)"
  shows "blocks w' cs' = (blocks w cs)(p := v)"
proof
  fix q
  have "blocks w' cs' q = Some n \<longleftrightarrow> ((blocks w cs)(p := v)) q = Some n" for n
    using assms(3) [of q n] blocks_Some [OF assms(1), of w q n] blocks_Some [OF assms(2), of w' q n] by auto
  then show "blocks w' cs' q = ((blocks w cs)(p := v)) q"
    by (metis not_None_eq)
qed

section \<open>Merging free chunks\<close>

lemma split_two:
  "Suc k < length cs \<Longrightarrow> cs = take k cs @ cs ! k # cs ! Suc k # drop (Suc (Suc k)) cs"
  by (metis Cons_nth_drop_Suc Suc_lessD append_take_drop_id)

lemma merge_step:
  assumes t: "tiles t cs" and k: "Suc k < length cs" and total: "t < 2 ^ 32 + low t cs"
    and free: "\<not> in_use w (cs ! k)" "\<not> in_use w (cs ! Suc k)"
  defines "cs' \<equiv> cs[k := \<lparr>ck_sz = ck_sz (cs ! k) + ck_sz (cs ! Suc k), ck_ptr = ck_ptr (cs ! Suc k)\<rparr>]"
  defines "cs2 \<equiv> take (Suc k) cs' @ drop (Suc (Suc k)) cs'"
  shows "tiles t cs2" and "filter (in_use w) cs2 = filter (in_use w) cs" and "low t cs2 = low t cs"
    and "length cs = Suc (length cs2)" and "\<not> in_use w (cs2 ! k)"
proof -
  let ?xs = "take k cs" and ?a = "cs ! k" and ?b = "cs ! Suc k" and ?ys = "drop (Suc (Suc k)) cs"
  let ?m = "\<lparr>ck_sz = ck_sz ?a + ck_sz ?b, ck_ptr = ck_ptr ?b\<rparr>"
  have cs: "cs = ?xs @ ?a # ?b # ?ys" by (rule split_two [OF k])
  have cs2: "cs2 = ?xs @ ?m # ?ys"
    unfolding cs2_def cs'_def using k by (simp add: take_Suc_conv_app_nth take_update_cancel)
  from t have t': "tiles t (?xs @ ?a # ?b # ?ys)" using cs by simp
  then have tl: "tiles t ?xs" "8 \<le> unat (ck_sz ?a)" "ck_ptr ?a + unat (ck_sz ?a) = low t ?xs"
    "8 \<le> unat (ck_sz ?b)" "ck_ptr ?b + unat (ck_sz ?b) = ck_ptr ?a" "tiles (ck_ptr ?b) ?ys"
    by (simp_all add: tiles_append)
  have "low t cs = low (ck_ptr ?b) ?ys" using arg_cong [OF cs, of "low t"] by simp
  then have "unat (ck_sz ?a) + unat (ck_sz ?b) < 2 ^ 32"
    using tl(3,5) tiles_low [OF tl(1)] tiles_low [OF tl(6)] total by simp
  then have "unat (ck_sz ?a + ck_sz ?b) = unat (ck_sz ?a) + unat (ck_sz ?b)"
    by (simp add: unat_word_ariths)
  with tl show "tiles t cs2" unfolding cs2 by (simp add: tiles_append)
  have "\<not> in_use w ?m" using free(2) by (simp add: in_use_def)
  with free show "filter (in_use w) cs2 = filter (in_use w) cs"
    using arg_cong [OF cs, of "filter (in_use w)"] unfolding cs2 by simp
  show "low t cs2 = low t cs" using arg_cong [OF cs, of "low t"] unfolding cs2 by simp
  show "length cs = Suc (length cs2)" using arg_cong [OF cs, of length] unfolding cs2 by simp
  show "\<not> in_use w (cs2 ! k)" using k free(2) unfolding cs2 by (simp add: nth_append in_use_def)
qed

lemma tiles_fit:
  "tiles t cs \<Longrightarrow> m_p_heap_base h + n * sizeof_chunk \<le> low t cs \<Longrightarrow> table_fits h n cs"
  unfolding table_fits_def using tiles_bounds order_trans by blast

lemma pack_loop_ok:
  assumes "tiles t cs" and "t < 2 ^ 32 + low t cs"
    and "m_p_heap_base h + (length cs + 1) * sizeof_chunk \<le> low t cs"
    and "\<forall>k. j = Some k \<longrightarrow> i = Suc k \<and> i \<le> length cs \<and> \<not> in_use (word0 h) (cs ! k)"
  shows "\<exists>cs'. pack_loop h cs i j = Some cs' \<and> tiles t cs' \<and>
           filter (in_use (word0 h)) cs' = filter (in_use (word0 h)) cs \<and> low t cs' = low t cs \<and>
           length cs' \<le> length cs"
  using assms
proof (induction h cs i j rule: pack_loop.induct)
  case (1 h cs i j)
  note prems = "1.prems"
  consider "\<not> i < length cs" | "i < length cs" "in_use (word0 h) (cs ! i)"
    | "i < length cs" "\<not> in_use (word0 h) (cs ! i)" "j = None"
    | k where "i < length cs" "\<not> in_use (word0 h) (cs ! i)" "j = Some k" by (cases j) auto
  then show ?case
  proof cases
    case 1
    with prems show ?thesis by (subst pack_loop.simps) auto
  next
    case 2
    then have nf: "word0 h (ck_ptr (cs ! i)) \<noteq> FREE_PATTERN" by (simp add: in_use_def)
    from "1.IH"(3) [OF 2(1) nf prems(1-3)] 2(1) nf show ?thesis by (subst pack_loop.simps) simp
  next
    case 3
    then have f: "word0 h (ck_ptr (cs ! i)) = FREE_PATTERN" by (simp add: in_use_def)
    from "1.IH"(1) [OF 3(1) f 3(3) prems(1-3)] 3 f show ?thesis by (subst pack_loop.simps) simp
  next
    case (4 k)
    with prems have k: "i = Suc k" "\<not> in_use (word0 h) (cs ! k)" by auto
    define cs' where "cs' = cs[k := \<lparr>ck_sz = ck_sz (cs ! k) + ck_sz (cs ! i), ck_ptr = ck_ptr (cs ! i)\<rparr>]"
    define cs2 where "cs2 = take i cs' @ drop (i + 1) cs'"
    have m: "tiles t cs2" "filter (in_use (word0 h)) cs2 = filter (in_use (word0 h)) cs" "low t cs2 = low t cs"
      "length cs = Suc (length cs2)" "\<not> in_use (word0 h) (cs2 ! k)"
      using merge_step [OF prems(1) _ prems(2) k(2)] 4 k(1) unfolding cs2_def cs'_def by simp_all
    have fits: "table_fits h (length cs + 1) cs" using tiles_fit [OF prems(1,3)] .
    have fi: "word0 h (ck_ptr (cs ! i)) = FREE_PATTERN" using 4(2) by (simp add: in_use_def)
    have tb: "m_p_heap_base h + (length cs2 + 1) * sizeof_chunk \<le> low t cs2" "t < 2 ^ 32 + low t cs2"
      using prems(2,3) m(3,4) by simp_all
    have jk: "\<forall>k'. j = Some k' \<longrightarrow> i = Suc k' \<and> i \<le> length cs2 \<and> \<not> in_use (word0 h) (cs2 ! k')"
      using 4(1,3) k(1) m(4,5) by auto
    have "\<exists>cs3. pack_loop h cs2 i j = Some cs3 \<and> tiles t cs3 \<and>
           filter (in_use (word0 h)) cs3 = filter (in_use (word0 h)) cs2 \<and> low t cs3 = low t cs2 \<and>
           length cs3 \<le> length cs2"
      by (rule "1.IH"(2) [OF 4(1) fi 4(3) fits cs'_def, folded cs2_def, OF m(1) tb(2,1) jk])
    moreover have "pack_loop h cs i j = pack_loop h cs2 i j"
      using 4 fits by (subst pack_loop.simps) (simp add: in_use_def cs2_def cs'_def Let_def)
    ultimately show ?thesis using m by auto
  qed
qed

section \<open>Allocating\<close>

lemma alloc_loop_cases:
  obtains (found) k where "k < length cs" "alloc_loop w cs sz i r = (i + k, ck_ptr (cs ! k))"
      "\<not> in_use w (cs ! k)" "sz \<le> ck_sz (cs ! k)"
    | (below) "alloc_loop w cs sz i r = (i + length cs, if cs = [] then r else psub (ck_ptr (last cs)) (unat sz))"
proof (induction cs arbitrary: i r thesis)
  case Nil
  then show ?case by simp
next
  case (Cons c cs)
  show ?case
  proof (cases "w (ck_ptr c) = FREE_PATTERN \<and> sz \<le> ck_sz c")
    case True
    then show ?thesis using Cons.prems(1) [of 0] by (simp add: in_use_def)
  next
    case False
    show ?thesis
    proof (rule Cons.IH [of "i + 1" "psub (ck_ptr c) (unat sz)"])
      fix k assume "k < length cs" "alloc_loop w cs sz (i + 1) (psub (ck_ptr c) (unat sz)) = (i + 1 + k, ck_ptr (cs ! k))"
        "\<not> in_use w (cs ! k)" "sz \<le> ck_sz (cs ! k)"
      then show thesis using False by (intro Cons.prems(1) [of "Suc k"]) auto
    next
      assume "alloc_loop w cs sz (i + 1) (psub (ck_ptr c) (unat sz)) =
        (i + 1 + length cs, if cs = [] then psub (ck_ptr c) (unat sz) else psub (ck_ptr (last cs)) (unat sz))"
      then show thesis using False by (intro Cons.prems(2)) auto
    qed
  qed
qed

lemma alloc_loop_finds:
  "c \<in> set cs \<Longrightarrow> w (ck_ptr c) = FREE_PATTERN \<Longrightarrow> sz \<le> ck_sz c \<Longrightarrow>
   fst (alloc_loop w cs sz i r) < i + length cs"
proof (induction cs arbitrary: i r)
  case Nil
  then show ?case by simp
next
  case (Cons d cs)
  show ?case
  proof (cases "w (ck_ptr d) = FREE_PATTERN \<and> sz \<le> ck_sz d")
    case False
    then have "c \<in> set cs" using Cons.prems by auto
    from Cons.IH [OF this Cons.prems(2,3), of "i + 1" "psub (ck_ptr d) (unat sz)"] False show ?thesis by auto
  qed simp
qed

text \<open>The invariant without the mutex, which an operation holds locked.\<close>

definition layout :: "cheap \<Rightarrow> bool" where
  "layout h \<longleftrightarrow> m_p_heap_base h \<noteq> 0 \<and> tiles (heap_end h) (chunks h) \<and> m_check h = 0 \<and>
     m_p_heap_base h + (length (chunks h) + 1) * sizeof_chunk \<le> low (heap_end h) (chunks h)"

lemma ring_inv_layout:
  "ring_inv h \<longleftrightarrow> layout h \<and> (\<forall>m. h_mutex h = Some m \<longrightarrow> cMutex_free m)"
  by (auto simp: ring_inv_def layout_def)

lemma heap_end_frame [simp]: "heap_end (h\<lparr>chunks := cs\<rparr>) = heap_end h" "heap_end (h\<lparr>word0 := w\<rparr>) = heap_end h"
  "heap_end (h\<lparr>m_check := x\<rparr>) = heap_end h" "heap_end (h\<lparr>h_mutex := y\<rparr>) = heap_end h"
  by (simp_all add: heap_end_def)

lemma check_layout: "tiles (heap_end h) (chunks h) \<Longrightarrow> check h = 0"
  by (simp add: check_def check_tiles)

lemma blocks_add:
  assumes "tiles t (cs @ [c])"
  shows "blocks (w(ck_ptr c := 0)) (cs @ [c]) = (blocks w cs)(ck_ptr c \<mapsto> unat (ck_sz c))"
    and "blocks w cs (ck_ptr c) = None"
proof -
  have d: "distinct (map ck_ptr (cs @ [c]))" using tiles_distinct [OF assms] .
  then have nin: "d \<in> set cs \<Longrightarrow> ck_ptr d \<noteq> ck_ptr c" for d by (auto simp: image_iff)
  show "blocks (w(ck_ptr c := 0)) (cs @ [c]) = (blocks w cs)(ck_ptr c \<mapsto> unat (ck_sz c))"
    using d nin by (intro blocks_eqI) (auto simp: in_use_def FREE_PATTERN_def)
  show "blocks w cs (ck_ptr c) = None"
    using d nin blocks_Some [of cs w "ck_ptr c"] by (cases "blocks w cs (ck_ptr c)") auto
qed

lemma blocks_reuse:
  assumes "tiles t cs" and "c \<in> set cs" and "\<not> in_use w c"
  shows "blocks (w(ck_ptr c := 0)) cs = (blocks w cs)(ck_ptr c \<mapsto> unat (ck_sz c))"
    and "blocks w cs (ck_ptr c) = None"
proof -
  have d: "distinct (map ck_ptr cs)" using tiles_distinct [OF assms(1)] .
  then have u: "d \<in> set cs \<Longrightarrow> ck_ptr d = ck_ptr c \<Longrightarrow> d = c" for d
    using assms(2) by (metis distinct_map inj_on_def)
  show "blocks (w(ck_ptr c := 0)) cs = (blocks w cs)(ck_ptr c \<mapsto> unat (ck_sz c))"
    using d u assms(2) by (intro blocks_eqI) (auto simp: in_use_def FREE_PATTERN_def)
  show "blocks w cs (ck_ptr c) = None"
    using d u assms(2,3) blocks_Some [OF d, of w "ck_ptr c"] by (cases "blocks w cs (ck_ptr c)") auto
qed

lemma blocks_divide:
  assumes t: "tiles t (xs @ c # ys)" and free: "\<not> in_use w c" and rest: "sz < ck_sz c" "8 < ck_sz c - sz" "8 \<le> sz"
  defines "r \<equiv> ck_ptr c + unat (ck_sz c - sz)"
  defines "cs' \<equiv> xs @ \<lparr>ck_sz = sz, ck_ptr = r\<rparr> # \<lparr>ck_sz = ck_sz c - sz, ck_ptr = ck_ptr c\<rparr> # ys"
  shows "tiles t cs'" and "low t cs' = low t (xs @ c # ys)"
    and "blocks (w(r := 0)) cs' = (blocks w (xs @ c # ys))(r \<mapsto> unat sz)"
    and "blocks w (xs @ c # ys) r = None"
proof -
  have us: "unat (ck_sz c - sz) = unat (ck_sz c) - unat sz" "unat sz < unat (ck_sz c)" "8 \<le> unat sz"
    "8 < unat (ck_sz c) - unat sz"
    using rest by (auto simp: unat_sub word_less_nat_alt word_le_nat_alt)
  show t': "tiles t cs'" using t us unfolding cs'_def r_def by (simp add: tiles_append)
  show "low t cs' = low t (xs @ c # ys)" by (simp add: cs'_def)
  have d: "distinct (map ck_ptr (xs @ c # ys))" "distinct (map ck_ptr cs')"
    using tiles_distinct [OF t] tiles_distinct [OF t'] by auto
  then have r: "r \<notin> ck_ptr ` set xs" "r \<notin> ck_ptr ` set ys" "r \<noteq> ck_ptr c" by (auto simp: cs'_def)
  then show "blocks (w(r := 0)) cs' = (blocks w (xs @ c # ys))(r \<mapsto> unat sz)"
    using d free by (intro blocks_eqI) (auto simp: cs'_def in_use_def FREE_PATTERN_def)
  show "blocks w (xs @ c # ys) r = None"
    using blocks_Some [OF d(1), of w r] r by (cases "blocks w (xs @ c # ys) r") auto
qed

lemma alloc_body_ok:
  assumes lay: "layout h" and room: "ring_room h sz"
  shows "\<exists>p h'. alloc_body h sz = Some (p, h') \<and> layout h' \<and> h_mutex h' = h_mutex h \<and>
     (if p = 0 then ring_block h' = ring_block h
      else ring_block h p = None \<and> (\<exists>n. unat sz \<le> n \<and> ring_block h' = (ring_block h)(p \<mapsto> n)))"
proof -
  define sz' where "sz' = (if sz \<le> 8 then 16 else sz)"
  let ?b = "m_p_heap_base h" and ?cs = "chunks h" and ?t = "heap_end h" and ?w = "word0 h"
  let ?n = "length (chunks h)" and ?l = "low (heap_end h) (chunks h)"
  have sz': "8 < unat sz'" "unat sz \<le> unat sz'" by (auto simp: sz'_def word_le_nat_alt)
  have b: "?b \<noteq> 0" and t: "tiles ?t ?cs" and ck: "m_check h = 0" and tab: "?b + (?n + 1) * sizeof_chunk \<le> ?l"
    using lay by (simp_all add: layout_def)
  have rm: "unat sz' \<le> ?b" "?b + (?n + 2) * sizeof_chunk \<le> ?l"
    "?l \<le> ?b + ?n * sizeof_chunk + unat sz' \<or> ?b + (?n + 2) * sizeof_chunk + unat sz' \<le> ?l"
    using room by (simp_all add: ring_room_def sz'_def Let_def)
  let ?fin = "\<lambda>r h. if r \<noteq> 0 then h\<lparr>word0 := (word0 h)(r := 0)\<rparr> else h"
  show ?thesis
  proof (cases rule: alloc_loop_cases [of ?cs ?w sz' 0 "psub ?t (unat sz')"])
    case below
    have "(if ?cs = [] then psub ?t (unat sz') else psub (ck_ptr (last ?cs)) (unat sz')) = psub ?l (unat sz')"
      by (simp add: low_def)
    also have "\<dots> = ?l - unat sz'" using rm by (simp add: psub_def)
    finally have al: "alloc_loop ?w ?cs sz' 0 (psub ?t (unat sz')) = (?n, ?l - unat sz')" using below by simp
    show ?thesis
    proof (cases "?b + ?n * sizeof_chunk < ?l - unat sz'")
      case False
      with al b ck lay show ?thesis
        by (intro exI [of _ 0] exI [of _ h])
          (simp add: alloc_body_def sz'_def [symmetric] Let_def check_layout t)
    next
      case True
      define r where "r = ?l - unat sz'"
      let ?c = "\<lparr>ck_sz = sz', ck_ptr = r\<rparr>"
      let ?h' = "h\<lparr>chunks := ?cs @ [?c], word0 := ?w(r := 0), m_check := 0\<rparr>"
      have r: "?b + (?n + 2) * sizeof_chunk \<le> r" "r \<noteq> 0" "r + unat sz' = ?l" using True rm b by (auto simp: r_def)
      have t': "tiles ?t (?cs @ [?c])" using t r sz' by (simp add: tiles_append)
      have "table_fits (h\<lparr>chunks := ?cs @ [?c]\<rparr>) (?n + 1) (?cs @ [?c])"
        using tiles_fit [OF t', of "h\<lparr>chunks := ?cs @ [?c]\<rparr>" "?n + 1"] r by simp
      then have "alloc_body h sz = Some (r, ?h')"
        using al b ck True r(2) t' check_layout [of "h\<lparr>chunks := ?cs @ [?c], word0 := ?w(r := 0)\<rparr>"]
        by (simp add: alloc_body_def sz'_def [symmetric] Let_def r_def [symmetric])
      moreover have "layout ?h'" using b t' r by (simp add: layout_def)
      moreover have "ring_block h r = None" "ring_block ?h' = (ring_block h)(r \<mapsto> unat sz')"
        using blocks_add [OF t', of ?w] by (simp_all add: ring_block_def)
      ultimately show ?thesis using sz'(2) r(2) by (intro exI [of _ r] exI [of _ ?h']) auto
    qed
  next
    case (found k)
    let ?c = "?cs ! k"
    have cin: "?c \<in> set ?cs" using found(1) by simp
    have "?l \<le> ck_ptr ?c" using tiles_bounds [OF t cin] by simp
    then have p0: "ck_ptr ?c \<noteq> 0" using tab b by simp
    show ?thesis
    proof (cases "ck_sz ?c - sz' \<le> 8")
      case True
      let ?h' = "h\<lparr>word0 := ?w(ck_ptr ?c := 0), m_check := 0\<rparr>"
      have "alloc_body h sz = Some (ck_ptr ?c, ?h')"
        using found b ck True p0 t check_layout [of "h\<lparr>word0 := ?w(ck_ptr ?c := 0)\<rparr>"]
        by (simp add: alloc_body_def sz'_def [symmetric] Let_def)
      moreover have "layout ?h'" using lay by (simp add: layout_def)
      moreover have "ring_block h (ck_ptr ?c) = None"
        "ring_block ?h' = (ring_block h)(ck_ptr ?c \<mapsto> unat (ck_sz ?c))"
        using blocks_reuse [OF t cin found(3)] by (simp_all add: ring_block_def)
      moreover have "unat sz \<le> unat (ck_sz ?c)" using sz'(2) found(4) by (simp add: word_le_nat_alt)
      ultimately show ?thesis
        using p0 by (intro exI [of _ "ck_ptr ?c"] exI [of _ ?h'] conjI) auto
    next
      case False
      define r where "r = ck_ptr ?c + unat (ck_sz ?c - sz')"
      let ?xs = "take k ?cs" and ?ys = "drop (Suc k) ?cs"
      let ?cs' = "?xs @ \<lparr>ck_sz = sz', ck_ptr = r\<rparr> # \<lparr>ck_sz = ck_sz ?c - sz', ck_ptr = ck_ptr ?c\<rparr> # ?ys"
      let ?h' = "h\<lparr>chunks := ?cs', word0 := ?w(r := 0), m_check := 0\<rparr>"
      have cs: "?cs = ?xs @ ?c # ?ys" using id_take_nth_drop [OF found(1)] .
      have lt: "sz' < ck_sz ?c" using found(4) False by (cases "sz' = ck_sz ?c") auto
      have d: "tiles ?t ?cs'" "low ?t ?cs' = ?l" "blocks (?w(r := 0)) ?cs' = (blocks ?w ?cs)(r \<mapsto> unat sz')"
        "blocks ?w ?cs r = None"
        using blocks_divide [of ?t ?xs ?c ?ys ?w sz'] t found(3) lt False sz'(1) cs
        unfolding r_def by (simp_all add: word_le_nat_alt word_less_nat_alt not_le)
      have "table_fits h (?n + 1) ?cs" using tiles_fit [OF t tab] .
      then have "insert_in h k sz' = Some (r, h\<lparr>chunks := ?cs'\<rparr>)"
        using found(1) lt by (simp add: insert_in_def Let_def r_def)
      then have "alloc_body h sz = Some (r, ?h')"
        using found b ck False p0 d(1) check_layout [of "h\<lparr>chunks := ?cs', word0 := ?w(r := 0)\<rparr>"]
        by (simp add: alloc_body_def sz'_def [symmetric] Let_def r_def)
      moreover have "length ?cs' = ?n + 1" using found(1) by simp
      then have "layout ?h'" using b d rm(2) by (simp add: layout_def del: length_append)
      moreover have "r \<noteq> 0" using p0 by (simp add: r_def)
      ultimately show ?thesis
        using sz'(2) d(3,4) by (intro exI [of _ r] exI [of _ ?h']) (auto simp: ring_block_def)
    qed
  qed
qed

section \<open>Releasing\<close>

lemma blocks_release:
  assumes "distinct (map ck_ptr cs)"
  shows "blocks (w(p := FREE_PATTERN)) cs = (blocks w cs)(p := None)"
  using assms by (intro blocks_eqI) (auto simp: in_use_def)

lemma free_body_ok:
  assumes lay: "layout h" and p: "p \<in> dom (ring_block h)"
  shows "\<exists>h'. free_body h p = Some h' \<and> layout h' \<and> h_mutex h' = h_mutex h \<and>
     ring_block h' = (ring_block h)(p := None)"
proof -
  let ?h1 = "h\<lparr>word0 := (word0 h)(p := FREE_PATTERN)\<rparr>"
  have b: "m_p_heap_base h \<noteq> 0" and t: "tiles (heap_end h) (chunks h)"
    and tab: "m_p_heap_base h + (length (chunks h) + 1) * sizeof_chunk \<le> low (heap_end h) (chunks h)"
    using lay by (simp_all add: layout_def)
  have d: "distinct (map ck_ptr (chunks h))" using tiles_distinct [OF t] .
  from p obtain n where "ring_block h p = Some n" by blast
  then obtain c where c: "c \<in> set (chunks h)" "ck_ptr c = p" "in_use (word0 h) c"
    using blocks_Some [OF d] by (auto simp: ring_block_def)
  have "low (heap_end h) (chunks h) \<le> p" using tiles_bounds [OF t c(1)] c(2) by simp
  then have "p \<noteq> 0" using tab b by simp
  with c have "verify_body h p" by (auto simp: verify_body_def in_use_def)
  moreover have "heap_end h < 2 ^ 32 + low (heap_end h) (chunks h)"
    using tab unat_u32_lt [of "m_heap_sz h"] by (simp add: heap_end_def)
  then obtain cs' where cs': "pack_loop ?h1 (chunks h) 0 None = Some cs'" "tiles (heap_end h) cs'"
    "filter (in_use (word0 ?h1)) cs' = filter (in_use (word0 ?h1)) (chunks h)"
    "low (heap_end h) cs' = low (heap_end h) (chunks h)" "length cs' \<le> length (chunks h)"
    using pack_loop_ok [of "heap_end h" "chunks h" ?h1 None 0] t tab by auto
  let ?h2 = "?h1\<lparr>chunks := cs', m_check := 0\<rparr>"
  have "pack ?h1 = Some ?h2"
    using cs'(1,2) check_layout [of "?h1\<lparr>chunks := cs'\<rparr>"] by (simp add: pack_def)
  moreover have "m_p_heap_base h + (length cs' + 1) * sizeof_chunk \<le> low (heap_end h) cs'"
    using tab cs'(4,5) by (simp add: sizeof_chunk_def)
  then have "layout ?h2" using b cs'(2) by (simp add: layout_def)
  moreover have "ring_block ?h2 = (ring_block h)(p := None)"
    using cs'(3) blocks_release [OF d, of "word0 h" p] by (simp add: ring_block_def blocks_def)
  ultimately show ?thesis by (intro exI [of _ ?h2]) (simp add: free_body_def)
qed

section \<open>The heap provides iHeap\<close>

lemma cHeap_lock_ok:
  assumes "\<forall>m. h_mutex h = Some m \<longrightarrow> cMutex_free m"
  obtains hm y where "cHeap_lock h = Some (hm, h\<lparr>h_mutex := y\<rparr>)"
    "\<And>h'. h_mutex h' = y \<Longrightarrow> \<forall>m. h_mutex (cHeap_unlock h' hm) = Some m \<longrightarrow> cMutex_free m"
proof (cases "h_mutex h")
  case None
  then show ?thesis by (intro that [of 0 None]) (auto simp: cHeap_lock_def cHeap_unlock_def)
next
  case (Some m)
  with assms cmutex_lock.bracket_free [of m] obtain hm m' where
    "cMutex_lock m 0 MUTEX_TIMEOUT_INFINITE 0 = Some (hm, m')" "cMutex_free (cMutex_unlock m' hm)" by auto
  with Some show ?thesis by (intro that [of hm "Some m'"]) (auto simp: cHeap_lock_def cHeap_unlock_def)
qed

lemma mutex_frame [simp]: "layout (h\<lparr>h_mutex := y\<rparr>) = layout h" "ring_room (h\<lparr>h_mutex := y\<rparr>) sz = ring_room h sz"
  "ring_block (h\<lparr>h_mutex := y\<rparr>) = ring_block h" "layout (cHeap_unlock h hm) = layout h"
  "ring_block (cHeap_unlock h hm) = ring_block h"
  by (simp_all add: layout_def ring_room_def ring_block_def cHeap_unlock_def split: option.split)

lemma cHeap_alloc_ok:
  assumes "ring_inv h" and "ring_room h sz"
  shows "\<exists>p h'. cHeap_alloc sz h = Some (p, h') \<and> ring_inv h' \<and>
     (if p = 0 then ring_block h' = ring_block h
      else ring_block h p = None \<and> (\<exists>n. unat sz \<le> n \<and> ring_block h' = (ring_block h)(p \<mapsto> n)))"
proof -
  from assms(1) have l: "layout h" and m: "\<forall>m. h_mutex h = Some m \<longrightarrow> cMutex_free m"
    by (auto simp: ring_inv_layout)
  obtain hm y where lk: "cHeap_lock h = Some (hm, h\<lparr>h_mutex := y\<rparr>)"
    "\<And>h'. h_mutex h' = y \<Longrightarrow> \<forall>m. h_mutex (cHeap_unlock h' hm) = Some m \<longrightarrow> cMutex_free m"
    using cHeap_lock_ok [OF m] by blast
  from alloc_body_ok [of "h\<lparr>h_mutex := y\<rparr>" sz, unfolded mutex_frame, OF l assms(2)] obtain p h1 where
    h1: "alloc_body (h\<lparr>h_mutex := y\<rparr>) sz = Some (p, h1)" "layout h1" "h_mutex h1 = y"
      "if p = 0 then ring_block h1 = ring_block h
       else ring_block h p = None \<and> (\<exists>n. unat sz \<le> n \<and> ring_block h1 = (ring_block h)(p \<mapsto> n))"
    by (metis cheap.select_convs(5) cheap.surjective cheap.update_convs(5))
  then have "cHeap_alloc sz h = Some (p, cHeap_unlock h1 hm)" "ring_inv (cHeap_unlock h1 hm)"
    using lk by (simp_all add: cHeap_alloc_def ring_inv_layout)
  with h1(4) show ?thesis by (intro exI [of _ p] exI [of _ "cHeap_unlock h1 hm"]) simp
qed

lemma cHeap_free_ok:
  assumes "ring_inv h" and "p \<in> dom (ring_block h)"
  shows "\<exists>h'. cHeap_free p sz h = Some h' \<and> ring_inv h' \<and> ring_block h' = (ring_block h)(p := None)"
proof -
  from assms(1) have l: "layout h" and m: "\<forall>m. h_mutex h = Some m \<longrightarrow> cMutex_free m"
    by (auto simp: ring_inv_layout)
  obtain hm y where lk: "cHeap_lock h = Some (hm, h\<lparr>h_mutex := y\<rparr>)"
    "\<And>h'. h_mutex h' = y \<Longrightarrow> \<forall>m. h_mutex (cHeap_unlock h' hm) = Some m \<longrightarrow> cMutex_free m"
    using cHeap_lock_ok [OF m] by blast
  from free_body_ok [of "h\<lparr>h_mutex := y\<rparr>" p] l assms(2) obtain h1 where
    h1: "free_body (h\<lparr>h_mutex := y\<rparr>) p = Some h1" "layout h1" "h_mutex h1 = y"
      "ring_block h1 = (ring_block h)(p := None)"
    by auto
  with lk show ?thesis
    by (intro exI [of _ "cHeap_unlock h1 hm"]) (simp add: cHeap_free_def ring_inv_layout)
qed

lemma ring_blocks_apart:
  assumes "ring_inv h" and "ring_block h p = Some m" and "ring_block h q = Some n" and "p \<noteq> q"
  shows "p + m \<le> q \<or> q + n \<le> p"
proof -
  have t: "tiles (heap_end h) (chunks h)" using assms(1) by (simp add: ring_inv_def)
  note bs = blocks_Some [OF tiles_distinct [OF t], of "word0 h"]
  from assms(2,3) obtain c d where "c \<in> set (chunks h)" "ck_ptr c = p" "unat (ck_sz c) = m"
    "d \<in> set (chunks h)" "ck_ptr d = q" "unat (ck_sz d) = n" by (auto simp: ring_block_def bs)
  with tiles_apart [OF t, of c d] assms(4) show ?thesis by auto
qed

interpretation ring: iheap cHeap_alloc cHeap_free ring_inv ring_block ring_room
  by unfold_locales (fact cHeap_alloc_ok cHeap_free_ok ring_blocks_apart)+

section \<open>Properties\<close>

text \<open>C4: The allocator's contract. In a well-formed heap whose table has room, \<open>alloc\<close> returns; a
  non-null result is a block of at least the requested size that was not in use and overlaps no
  block in use; the other blocks keep their place and size, and releasing the new block restores
  exactly the blocks in use before, whatever merging \<open>pack\<close> does.\<close>

theorem cHeap_alloc_free:
  assumes "ring_inv h" and "ring_room h sz"
  shows "\<exists>p h'. cHeap_alloc sz h = Some (p, h') \<and> ring_inv h' \<and>
     (p \<noteq> 0 \<longrightarrow> ring_block h p = None \<and>
        (\<exists>n. unat sz \<le> n \<and> ring_block h' = (ring_block h)(p \<mapsto> n) \<and>
           (\<forall>q m. ring_block h q = Some m \<longrightarrow> p + n \<le> q \<or> q + m \<le> p)) \<and>
        (\<exists>h2. cHeap_free p sz h' = Some h2 \<and> ring_inv h2 \<and> ring_block h2 = ring_block h))"
proof -
  from ring.alloc_block [OF assms] obtain p h' where a: "cHeap_alloc sz h = Some (p, h')" "ring_inv h'"
    "if p = 0 then ring_block h' = ring_block h
     else ring_block h p = None \<and> (\<exists>n. unat sz \<le> n \<and> ring_block h' = (ring_block h)(p \<mapsto> n))" by blast
  have "ring_block h p = None \<and> (\<exists>n. unat sz \<le> n \<and> ring_block h' = (ring_block h)(p \<mapsto> n) \<and>
           (\<forall>q m. ring_block h q = Some m \<longrightarrow> p + n \<le> q \<or> q + m \<le> p)) \<and>
        (\<exists>h2. cHeap_free p sz h' = Some h2 \<and> ring_inv h2 \<and> ring_block h2 = ring_block h)" if p: "p \<noteq> 0"
  proof -
    from p a(3) obtain n where n: "ring_block h p = None" "unat sz \<le> n" "ring_block h' = (ring_block h)(p \<mapsto> n)"
      by auto
    have "p + n \<le> q \<or> q + m \<le> p" if "ring_block h q = Some m" for q m
      using ring.blocks_apart [OF a(2), of p n q m] that n by (cases "p = q") auto
    moreover have "(ring_block h)(p := None) = ring_block h" using n(1) by auto
    ultimately show ?thesis using n ring.free_block [OF a(2), of p sz] by auto
  qed
  with a(1,2) show ?thesis by blast
qed

definition demo_heap :: cheap where
  "demo_heap = \<lparr>m_p_heap_base = 0x100000, m_heap_sz = 0x1000, chunks = [\<lparr>ck_sz = 64, ck_ptr = 0x100fc0\<rparr>],
     m_check = 0, h_mutex = None, word0 = (\<lambda>_. 0)\<rparr>"

lemma demo_heap_ok: "ring_inv demo_heap" "ring_room demo_heap 40"
  by (simp_all add: ring_inv_def ring_room_def demo_heap_def heap_end_def sizeof_chunk_def Let_def)

theorem cHeap_alloc_free_witness:
  "ring_block demo_heap 0x100fc0 = Some 64 \<and>
   (\<exists>p h'. cHeap_alloc 40 demo_heap = Some (p, h') \<and> p = 0x100f98 \<and>
      (\<exists>h2. cHeap_free p 40 h' = Some h2 \<and> ring_block h2 = ring_block demo_heap))"
proof
  show "ring_block demo_heap 0x100fc0 = Some 64"
    by (simp add: ring_block_def blocks_def demo_heap_def in_use_def FREE_PATTERN_def)
  have p: "fst (the (cHeap_alloc 40 demo_heap)) = 0x100f98"
    by (simp add: cHeap_alloc_def cHeap_lock_def alloc_body_def demo_heap_def psub_def FREE_PATTERN_def
        heap_end_def sizeof_chunk_def Let_def table_fits_def)
  from cHeap_alloc_free [OF demo_heap_ok] p show "\<exists>p h'. cHeap_alloc 40 demo_heap = Some (p, h') \<and> p = 0x100f98 \<and>
      (\<exists>h2. cHeap_free p 40 h' = Some h2 \<and> ring_block h2 = ring_block demo_heap)" by auto
qed

text \<open>C36: The bound of \<open>_alloc\<close> is one table entry short. It compares the new block with the end of
  the table before the new entry; when the block starts inside the place of that entry, the test
  passes and the entry is written over the block (the model's undefined outcome).\<close>

theorem alloc_entry_overlaps_block:
  assumes "m_p_heap_base h \<noteq> 0" and "m_check h = 0" and "8 < sz"
    and "\<forall>c\<in>set (chunks h). in_use (word0 h) c"
    and "unat sz \<le> low (heap_end h) (chunks h)"
    and "m_p_heap_base h + length (chunks h) * sizeof_chunk < low (heap_end h) (chunks h) - unat sz"
    and "low (heap_end h) (chunks h) - unat sz < m_p_heap_base h + (length (chunks h) + 1) * sizeof_chunk"
  shows "alloc_body h sz = None"
proof -
  have sz: "(if sz \<le> 8 then 16 else sz) = sz" using assms(3) by auto
  have "alloc_loop (word0 h) (chunks h) sz 0 (psub (heap_end h) (unat sz)) =
      (length (chunks h), psub (low (heap_end h) (chunks h)) (unat sz))"
  proof (cases rule: alloc_loop_cases [of "chunks h" "word0 h" sz 0 "psub (heap_end h) (unat sz)"])
    case (found k)
    with assms(4) show ?thesis by auto
  next
    case below
    then show ?thesis by (simp add: low_def)
  qed
  then show ?thesis
    using assms sz by (simp add: alloc_body_def Let_def psub_def table_fits_def)
qed

theorem alloc_entry_overlaps_block_witness:
  "alloc_body \<lparr>m_p_heap_base = 0x1000, m_heap_sz = 40, chunks = [], m_check = 0, h_mutex = None, word0 = (\<lambda>_. 0)\<rparr> 32 = None"
  by (rule alloc_entry_overlaps_block) (simp_all add: heap_end_def sizeof_chunk_def)

text \<open>\<open>check\<close> reports the index of the corrupted chunk, and 0 for a heap that is in order: a
  corrupted chunk 0 is reported as a heap in order.\<close>

lemma check_misses_first_chunk:
  "check (h\<lparr>chunks := c # cs\<rparr>) = 0 \<or> psub (heap_end h) (unat (ck_sz c)) = ck_ptr c \<and> 8 \<le> ck_sz c"
  by (auto simp: check_def Let_def not_less)

text \<open>C37: The free marker is stored in the block. When all blocks of the heap are in use and the owner of
  one writes the pattern into its first word, \<open>verify\<close> no longer knows the block, \<open>free\<close> does nothing
  with it, and the next request of its size is given the same block, though nobody released it.\<close>

theorem free_marker_in_band:
  assumes "layout h" and "c \<in> set (chunks h)" and "ck_sz c = sz" and "8 < sz"
    and "\<forall>d\<in>set (chunks h). in_use (word0 h) d"
  shows "verify_body h (ck_ptr c) \<and> \<not> verify_body (h\<lparr>word0 := (word0 h)(ck_ptr c := FREE_PATTERN)\<rparr>) (ck_ptr c) \<and>
    free_body (h\<lparr>word0 := (word0 h)(ck_ptr c := FREE_PATTERN)\<rparr>) (ck_ptr c) = Some (h\<lparr>word0 := (word0 h)(ck_ptr c := FREE_PATTERN)\<rparr>) \<and>
    (\<exists>h'. alloc_body (h\<lparr>word0 := (word0 h)(ck_ptr c := FREE_PATTERN)\<rparr>) sz = Some (ck_ptr c, h'))"
proof -
  let ?w = "(word0 h)(ck_ptr c := FREE_PATTERN)" and ?p = "psub (heap_end h) (unat sz)"
  have sz: "(if sz \<le> 8 then 16 else sz) = sz" using assms(4) by auto
  have b: "m_p_heap_base h \<noteq> 0" "m_check h = 0" and t: "tiles (heap_end h) (chunks h)"
    and tab: "m_p_heap_base h + (length (chunks h) + 1) * sizeof_chunk \<le> low (heap_end h) (chunks h)"
    using assms(1) by (simp_all add: layout_def)
  have "low (heap_end h) (chunks h) \<le> ck_ptr c" using tiles_bounds [OF t assms(2)] by simp
  then have p0: "ck_ptr c \<noteq> 0" using tab b by simp
  have he: "heap_end (h\<lparr>word0 := ?w\<rparr>) = heap_end h" by (simp add: heap_end_def)
  have "\<exists>h'. alloc_body (h\<lparr>word0 := ?w\<rparr>) sz = Some (ck_ptr c, h')"
  proof (cases rule: alloc_loop_cases [of "chunks h" ?w sz 0 ?p])
    case (found k)
    then have "ck_ptr (chunks h ! k) = ck_ptr c" using assms(5) nth_mem [of k "chunks h"] by (auto simp: in_use_def split: if_splits)
    then have "chunks h ! k = c"
      using tiles_distinct [OF t] assms(2) found(1) nth_mem [of k "chunks h"] by (metis distinct_map inj_on_def)
    with found b p0 sz assms(3) he show ?thesis by (simp add: alloc_body_def Let_def)
  next
    case below
    with alloc_loop_finds [of c "chunks h" ?w, OF assms(2), of sz 0 ?p] assms(3) show ?thesis by simp
  qed
  moreover have "\<not> verify_body (h\<lparr>word0 := ?w\<rparr>) (ck_ptr c)" by (simp add: verify_body_def)
  moreover have "verify_body h (ck_ptr c)" using assms(2,5) p0 by (auto simp: verify_body_def in_use_def)
  ultimately show ?thesis by (simp add: free_body_def)
qed

theorem free_marker_in_band_witness:
  "verify_body demo_heap 0x100fc0 \<and> \<not> verify_body (demo_heap\<lparr>word0 := (word0 demo_heap)(0x100fc0 := FREE_PATTERN)\<rparr>) 0x100fc0 \<and>
   (\<exists>h'. alloc_body (demo_heap\<lparr>word0 := (word0 demo_heap)(0x100fc0 := FREE_PATTERN)\<rparr>) 64 = Some (0x100fc0, h'))"
  using free_marker_in_band [of demo_heap "\<lparr>ck_sz = 64, ck_ptr = 0x100fc0\<rparr>" 64]
  by (simp add: layout_def demo_heap_def heap_end_def sizeof_chunk_def in_use_def FREE_PATTERN_def)

end
