(* ===== verification/Str_Mem.thy ===== *)
theory Str_Mem
  imports Prelude
begin

text \<open>
  Byte-level memory and string primitives of core/common/lib/str.cpp: \<open>mem_cpy\<close>, \<open>mem_cmp\<close>,
  \<open>mem_set\<close>, \<open>_toupper\<close>, \<open>str_len\<close>, \<open>str_cmp\<close>, \<open>str_ncmp\<close> and \<open>str_cpy\<close>, over a byte-addressed
  memory. \<open>_s8\<close> is the plain \<open>char\<close> of the compiler, which is signed on the target: a byte is read
  as a signed value with \<open>sint\<close> where the sign matters.

  \<open>moved\<close> is the specification of a memory move, \<open>cstr\<close> the abstraction of a zero-terminated
  string to the list of its bytes; the lemmas give the value of every primitive on such strings.
\<close>

section \<open>Moving and filling memory\<close>

definition cpy8 :: "mem \<Rightarrow> ptr \<Rightarrow> ptr \<Rightarrow> mem" where
  "cpy8 m dst src = (\<lambda>a. if dst \<le> a \<and> a < dst + 8 then m (src + (a - dst)) else m a)"

fun cpy_up8 :: "mem \<Rightarrow> ptr \<Rightarrow> ptr \<Rightarrow> nat \<Rightarrow> nat \<Rightarrow> mem" where
  "cpy_up8 m dst src i 0 = m"
| "cpy_up8 m dst src i (Suc n) = cpy_up8 (cpy8 m (dst + 8 * i) (src + 8 * i)) dst src (i + 1) n"

fun cpy_up1 :: "mem \<Rightarrow> ptr \<Rightarrow> ptr \<Rightarrow> nat \<Rightarrow> nat \<Rightarrow> mem" where
  "cpy_up1 m dst src j 0 = m"
| "cpy_up1 m dst src j (Suc n) = cpy_up1 (m(dst + j := m (src + j))) dst src (j + 1) n"

fun cpy_down8 :: "mem \<Rightarrow> ptr \<Rightarrow> ptr \<Rightarrow> nat \<Rightarrow> nat \<Rightarrow> mem" where
  "cpy_down8 m dst_end src_end i 0 = m"
| "cpy_down8 m dst_end src_end i (Suc n) =
     (let i = i + 1 in cpy_down8 (cpy8 m (dst_end - 8 * i) (src_end - 8 * i)) dst_end src_end i n)"

fun cpy_down1 :: "mem \<Rightarrow> ptr \<Rightarrow> ptr \<Rightarrow> nat \<Rightarrow> mem" where
  "cpy_down1 m dst src 0 = m"
| "cpy_down1 m dst src (Suc j) = cpy_down1 (m(dst + j := m (src + j))) dst src j"

definition mem_cpy :: "mem \<Rightarrow> ptr \<Rightarrow> ptr \<Rightarrow> u32 \<Rightarrow> mem" where
  "mem_cpy m dst src sz =
     (if sz \<noteq> 0 then
        let n8 = unat (drop_bit 3 sz)
        in if dst < src then
             cpy_up1 (cpy_up8 m dst src 0 n8) dst src (8 * n8) (unat sz - 8 * n8)
           else
             cpy_down1 (cpy_down8 m (dst + unat sz) (src + unat sz) 0 n8) dst src (unat sz mod 8)
      else m)"

fun mem_set_loop :: "mem \<Rightarrow> ptr \<Rightarrow> u8 \<Rightarrow> nat \<Rightarrow> nat \<Rightarrow> mem" where
  "mem_set_loop m ptr pattern i 0 = m"
| "mem_set_loop m ptr pattern i (Suc n) = mem_set_loop (m(ptr + i := pattern)) ptr pattern (i + 1) n"

definition mem_set :: "mem \<Rightarrow> ptr \<Rightarrow> u8 \<Rightarrow> u32 \<Rightarrow> mem" where
  "mem_set m ptr pattern sz = mem_set_loop m ptr pattern 0 (unat sz)"

text \<open>\<open>mem_cmp\<close> returns the number of bytes left when it stops.\<close>

fun mem_cmp_loop :: "mem \<Rightarrow> ptr \<Rightarrow> ptr \<Rightarrow> nat \<Rightarrow> nat \<Rightarrow> nat" where
  "mem_cmp_loop m p1 p2 i 0 = 0"
| "mem_cmp_loop m p1 p2 i (Suc n) =
     (if m (p1 + i) \<noteq> m (p2 + i) then Suc n else mem_cmp_loop m p1 p2 (i + 1) n)"

definition mem_cmp :: "mem \<Rightarrow> ptr \<Rightarrow> ptr \<Rightarrow> u32 \<Rightarrow> u32" where
  "mem_cmp m p1 p2 sz = word_of_nat (mem_cmp_loop m p1 p2 0 (unat sz))"

section \<open>Zero-terminated strings\<close>

partial_function (option) toupper_loop :: "mem \<Rightarrow> ptr \<Rightarrow> u32 \<Rightarrow> mem option" where
  "toupper_loop m s i =
     (let c = m (s + unat i)
      in if c \<noteq> 0 then toupper_loop (m(s + unat i := (if 97 \<le> c \<and> c \<le> 122 then c - 32 else c))) s (i + 1)
         else Some m)"

definition toupper :: "mem \<Rightarrow> ptr \<Rightarrow> mem option" where
  "toupper m s = toupper_loop m s 0"

partial_function (option) str_len_loop :: "mem \<Rightarrow> ptr \<Rightarrow> u32 \<Rightarrow> u32 option" where
  "str_len_loop m str i = (if m (str + unat i) \<noteq> 0 then str_len_loop m str (i + 1) else Some i)"

definition str_len :: "mem \<Rightarrow> ptr \<Rightarrow> u32 option" where
  "str_len m str = str_len_loop m str 0"

text \<open>The index of \<open>str_cmp\<close> is an \<open>_s32\<close>: incrementing it at \<open>2 ^ 31 - 1\<close> is undefined.\<close>

partial_function (option) str_cmp_loop :: "mem \<Rightarrow> ptr \<Rightarrow> ptr \<Rightarrow> nat \<Rightarrow> int option" where
  "str_cmp_loop m str1 str2 i =
     (if m (str1 + i) \<noteq> 0 \<and> m (str2 + i) \<noteq> 0 \<and> m (str1 + i) = m (str2 + i)
      then (if i + 1 < 2 ^ 31 then str_cmp_loop m str1 str2 (i + 1) else None)
      else Some (sint (m (str1 + i)) - sint (m (str2 + i))))"

definition str_cmp :: "mem \<Rightarrow> ptr \<Rightarrow> ptr \<Rightarrow> int option" where
  "str_cmp m str1 str2 = str_cmp_loop m str1 str2 0"

fun str_ncmp_loop :: "mem \<Rightarrow> ptr \<Rightarrow> ptr \<Rightarrow> nat \<Rightarrow> nat \<Rightarrow> int" where
  "str_ncmp_loop m str1 str2 i 0 = 0"
| "str_ncmp_loop m str1 str2 i (Suc n) =
     (let r = sint (m (str1 + i)) - sint (m (str2 + i))
      in if r \<noteq> 0 then r else str_ncmp_loop m str1 str2 (i + 1) n)"

definition str_ncmp :: "mem \<Rightarrow> ptr \<Rightarrow> ptr \<Rightarrow> u32 \<Rightarrow> int" where
  "str_ncmp m str1 str2 sz = str_ncmp_loop m str1 str2 0 (unat sz)"

text \<open>The loop of \<open>str_cpy\<close> runs at most \<open>sz_max - 1\<close> times, a wrapped-around \<open>2 ^ 32 - 1\<close> for
  \<open>sz_max = 0\<close>. The source byte is read again after the store, as the buffers may overlap.\<close>

fun str_cpy_loop :: "mem \<Rightarrow> ptr \<Rightarrow> ptr \<Rightarrow> nat \<Rightarrow> nat \<Rightarrow> nat \<times> mem" where
  "str_cpy_loop m dst src i 0 = (i, m)"
| "str_cpy_loop m dst src i (Suc n) =
     (let m = m(dst + i := m (src + i))
      in if m (src + i) = 0 then (i, m) else str_cpy_loop m dst src (i + 1) n)"

definition str_cpy :: "mem \<Rightarrow> ptr \<Rightarrow> ptr \<Rightarrow> u32 \<Rightarrow> u32 \<times> mem" where
  "str_cpy m dst src sz_max =
     (let (i, m) = str_cpy_loop m dst src 0 (unat (sz_max - 1))
      in (word_of_nat i, m(dst + i := 0)))"

section \<open>A memory move\<close>

definition moved :: "mem \<Rightarrow> ptr \<Rightarrow> ptr \<Rightarrow> nat \<Rightarrow> mem" where
  "moved m dst src n = (\<lambda>a. if dst \<le> a \<and> a < dst + n then m (src + (a - dst)) else m a)"

lemma moved_0 [simp]: "moved m dst src 0 = m"
  by (auto simp: moved_def fun_eq_iff)

lemma cpy8_moved: "cpy8 m dst src = moved m dst src 8"
  by (simp add: cpy8_def moved_def)

lemma upd_moved: "m(dst := m src) = moved m dst src 1"
  by (auto simp: moved_def fun_eq_iff)

text \<open>A move going up: the source ahead of what was written is still intact. A move going down is
  the mirror image.\<close>

lemma moved_up:
  assumes "dst < src"
  shows "moved (moved m dst src k) (dst + k) (src + k) n = moved m dst src (k + n)"
proof
  fix a
  show "moved (moved m dst src k) (dst + k) (src + k) n a = moved m dst src (k + n) a"
    using assms by (auto simp: moved_def)
qed

lemma moved_down:
  assumes "src \<le> dst" "n \<le> k"
  shows "moved (moved m (dst + k) (src + k) l) (dst + (k - n)) (src + (k - n)) n
    = moved m (dst + (k - n)) (src + (k - n)) (l + n)"
proof
  fix a
  show "moved (moved m (dst + k) (src + k) l) (dst + (k - n)) (src + (k - n)) n a
    = moved m (dst + (k - n)) (src + (k - n)) (l + n) a"
    using assms by (auto simp: moved_def)
qed

lemma cpy_up8_moved:
  "dst < src \<Longrightarrow> cpy_up8 (moved m dst src (8 * i)) dst src i n = moved m dst src (8 * (i + n))"
proof (induction n arbitrary: i)
  case (Suc n)
  have "cpy8 (moved m dst src (8 * i)) (dst + 8 * i) (src + 8 * i) = moved m dst src (8 * (i + 1))"
    using moved_up [OF Suc.prems, of m "8 * i" 8] by (simp add: cpy8_moved add.commute)
  then show ?case using Suc.IH [OF Suc.prems, of "i + 1"] by simp
qed simp

lemma cpy_up1_moved:
  "dst < src \<Longrightarrow> cpy_up1 (moved m dst src j) dst src j n = moved m dst src (j + n)"
proof (induction n arbitrary: j)
  case (Suc n)
  have "(moved m dst src j)(dst + j := moved m dst src j (src + j)) = moved m dst src (j + 1)"
    using moved_up [OF Suc.prems, of m j 1] by (simp add: upd_moved)
  then show ?case using Suc.IH [OF Suc.prems, of "j + 1"] by simp
qed simp

lemma cpy_down8_moved:
  assumes "src \<le> dst" "8 * (i + n) \<le> k"
  shows "cpy_down8 (moved m (dst + (k - 8 * i)) (src + (k - 8 * i)) (8 * i)) (dst + k) (src + k) i n
    = moved m (dst + (k - 8 * (i + n))) (src + (k - 8 * (i + n))) (8 * (i + n))"
  using assms(2)
proof (induction n arbitrary: i)
  case (Suc n)
  have e: "dst + k - 8 * (i + 1) = dst + (k - 8 * i - 8)" "src + k - 8 * (i + 1) = src + (k - 8 * i - 8)"
    "k - 8 * (i + 1) = k - 8 * i - 8" "8 * i + 8 = 8 * (i + 1)"
    using Suc.prems by auto
  have "cpy8 (moved m (dst + (k - 8 * i)) (src + (k - 8 * i)) (8 * i)) (dst + k - 8 * (i + 1)) (src + k - 8 * (i + 1))
      = moved m (dst + (k - 8 * (i + 1))) (src + (k - 8 * (i + 1))) (8 * (i + 1))"
    using moved_down [OF assms(1), of 8 "k - 8 * i" m "8 * i"] Suc.prems by (simp only: cpy8_moved e) simp
  then show ?case using Suc.IH [of "i + 1"] Suc.prems by (simp add: Let_def)
qed simp

lemma cpy_down1_moved:
  "src \<le> dst \<Longrightarrow> cpy_down1 (moved m (dst + j) (src + j) l) dst src j = moved m dst src (j + l)"
proof (induction j arbitrary: l)
  case (Suc j)
  have "(moved m (dst + Suc j) (src + Suc j) l)(dst + j := moved m (dst + Suc j) (src + Suc j) l (src + j))
      = moved m (dst + j) (src + j) (Suc l)"
    using moved_down [OF Suc.prems, of 1 "Suc j" m l] by (simp add: upd_moved)
  then show ?case using Suc.IH [OF Suc.prems, of "Suc l"] by simp
qed simp

lemma unat_div8: "unat (drop_bit 3 (sz :: u32)) = unat sz div 8"
  by (simp add: drop_bit_eq_div unat_div_distrib)

lemma mem_cpy_moved: "mem_cpy m dst src sz = moved m dst src (unat sz)"
proof (cases "sz = 0")
  case False
  let ?n = "unat sz div 8"
  show ?thesis
  proof (cases "dst < src")
    case True
    have "cpy_up8 m dst src 0 ?n = moved m dst src (8 * ?n)"
      using cpy_up8_moved [OF True, of m 0 ?n] by simp
    then show ?thesis using False True cpy_up1_moved [OF True, of m "8 * ?n" "unat sz - 8 * ?n"]
      by (simp add: mem_cpy_def unat_div8)
  next
    case nl: False
    have m8: "unat sz - 8 * ?n = unat sz mod 8" by (metis minus_mult_div_eq_mod)
    have "cpy_down8 m (dst + unat sz) (src + unat sz) 0 ?n
        = moved m (dst + unat sz mod 8) (src + unat sz mod 8) (8 * ?n)"
      using cpy_down8_moved [of src dst 0 ?n "unat sz" m] nl m8 by simp
    then show ?thesis using False nl cpy_down1_moved [of src dst m "unat sz mod 8" "8 * ?n"]
      by (simp add: mem_cpy_def unat_div8)
  qed
qed (simp add: mem_cpy_def)

lemma moved_outside: "a < dst \<or> dst + n \<le> a \<Longrightarrow> moved m dst src n a = m a"
  by (auto simp: moved_def)

lemma moved_inside: "i < n \<Longrightarrow> moved m dst src n (dst + i) = m (src + i)"
  by (simp add: moved_def)

lemma mem_set_loop_eq:
  "mem_set_loop m ptr pattern i n = (\<lambda>a. if ptr + i \<le> a \<and> a < ptr + i + n then pattern else m a)"
  by (induction n arbitrary: i m) (auto simp: fun_eq_iff)

lemma mem_set_eq: "mem_set m ptr pattern sz = (\<lambda>a. if ptr \<le> a \<and> a < ptr + unat sz then pattern else m a)"
  by (simp add: mem_set_def mem_set_loop_eq)

lemma mem_cmp_loop_le: "mem_cmp_loop m p1 p2 i n \<le> n"
  by (induction n arbitrary: i) (auto simp: le_SucI)

lemma mem_cmp_loop_0: "mem_cmp_loop m p1 p2 i n = 0 \<longleftrightarrow> (\<forall>k<n. m (p1 + i + k) = m (p2 + i + k))"
  by (induction n arbitrary: i) (auto simp: less_Suc_eq_0_disj)

lemma mem_cmp_0: "mem_cmp m p1 p2 sz = 0 \<longleftrightarrow> (\<forall>k<unat sz. m (p1 + k) = m (p2 + k))"
proof -
  have lt: "mem_cmp_loop m p1 p2 0 (unat sz) < 2 ^ 32"
    using mem_cmp_loop_le [of m p1 p2 0 "unat sz"] unat_u32_lt [of sz] by linarith
  have "mem_cmp m p1 p2 sz = 0 \<longleftrightarrow> mem_cmp_loop m p1 p2 0 (unat sz) = 0"
    using unat_of_nat_u32 [OF lt] by (simp add: mem_cmp_def word_unat_eq_iff del: unat_of_nat_u32)
  then show ?thesis by (simp add: mem_cmp_loop_0)
qed

section \<open>Strings as lists of bytes\<close>

definition cstr :: "mem \<Rightarrow> ptr \<Rightarrow> u8 list \<Rightarrow> bool" where
  "cstr m p s \<longleftrightarrow> length s < 2 ^ 32 \<and> (\<forall>i<length s. m (p + i) = s ! i \<and> s ! i \<noteq> 0) \<and> m (p + length s) = 0"

definition bytes :: "mem \<Rightarrow> ptr \<Rightarrow> nat \<Rightarrow> u8 list" where
  "bytes m p n = map (\<lambda>i. m (p + i)) [0..<n]"

lemma bytes_simps [simp]: "length (bytes m p n) = n" "i < n \<Longrightarrow> bytes m p n ! i = m (p + i)"
  by (simp_all add: bytes_def)

lemma cstr_len: "cstr m p s \<Longrightarrow> length s < 2 ^ 32"
  and cstr_at: "cstr m p s \<Longrightarrow> i < length s \<Longrightarrow> m (p + i) = s ! i"
  and cstr_nz: "cstr m p s \<Longrightarrow> i < length s \<Longrightarrow> s ! i \<noteq> 0"
  and cstr_end: "cstr m p s \<Longrightarrow> m (p + length s) = 0"
  by (simp_all add: cstr_def)

lemma cstr_Nil [simp]: "cstr m p [] \<longleftrightarrow> m p = 0"
  by (simp add: cstr_def)

lemma cstr_Cons: "cstr m p (c # s) \<longleftrightarrow> m p = c \<and> c \<noteq> 0 \<and> length s + 1 < 2 ^ 32 \<and> cstr m (p + 1) s"
  by (auto simp: cstr_def nth_Cons split: nat.splits dest: spec [where x = 0] spec [where x = "Suc _"])

lemma cstr_drop: "cstr m p s \<Longrightarrow> k \<le> length s \<Longrightarrow> cstr m (p + k) (drop k s)"
  by (auto simp: cstr_def add.assoc)

lemma cstr_cong: "cstr m p s \<Longrightarrow> (\<And>i. i \<le> length s \<Longrightarrow> m' (p + i) = m (p + i)) \<Longrightarrow> cstr m' p s"
  by (simp add: cstr_def)

lemma cstr_zero_iff: "cstr m p s \<Longrightarrow> i \<le> length s \<Longrightarrow> m (p + i) = 0 \<longleftrightarrow> i = length s"
  using cstr_at [of m p s i] cstr_nz [of m p s i] cstr_end [of m p s] by (cases "i = length s") auto

lemma cstr_unique: "cstr m p s \<Longrightarrow> cstr m p t \<Longrightarrow> s = t"
proof (rule nth_equalityI)
  assume s: "cstr m p s" and t: "cstr m p t"
  show l: "length s = length t"
    using cstr_zero_iff [OF s, of "length t"] cstr_zero_iff [OF t, of "length s"] cstr_end [OF s] cstr_end [OF t]
    by (metis nat_le_linear)
  show "s ! i = t ! i" if "i < length s" for i
    using cstr_at [OF s that] cstr_at [OF t, of i] that l by simp
qed

lemma str_len_loop_cstr:
  assumes "cstr m p s" "unat i \<le> length s"
  shows "str_len_loop m p i = Some (word_of_nat (length s))"
  using assms(2)
proof (induction "length s - unat i" arbitrary: i)
  case 0
  then have "length s = unat i" by simp
  with cstr_end [OF assms(1)] show ?case by (subst str_len_loop.simps) simp
next
  case (Suc d)
  then have lt: "unat i < length s" by simp
  then have "unat (i + 1) = unat i + 1" using cstr_len [OF assms(1)] by (intro unat_inc_u32) simp
  with Suc lt have "str_len_loop m p (i + 1) = Some (word_of_nat (length s))" by simp
  with lt show ?case by (subst str_len_loop.simps) (simp add: cstr_zero_iff [OF assms(1)])
qed

lemma str_len_cstr: "cstr m p s \<Longrightarrow> str_len m p = Some (word_of_nat (length s))"
  by (simp add: str_len_def str_len_loop_cstr)

definition up :: "u8 \<Rightarrow> u8" where
  "up c = (if 97 \<le> c \<and> c \<le> 122 then c - 32 else c)"

lemma up_nz: "c \<noteq> 0 \<Longrightarrow> up c \<noteq> 0"
  by (auto simp: up_def)

lemma toupper_loop_cstr:
  assumes "cstr m p s" "unat i \<le> length s"
  shows "toupper_loop m p i = Some (\<lambda>a. if p + unat i \<le> a \<and> a < p + length s then up (m a) else m a)"
  using assms
proof (induction "length s - unat i" arbitrary: i m s)
  case 0
  then have "length s = unat i" by simp
  with cstr_end [OF 0(2)] show ?case by (subst toupper_loop.simps) (auto simp: Let_def fun_eq_iff)
next
  case (Suc d)
  then have lt: "unat i < length s" by simp
  then have i1: "unat (i + 1) = unat i + 1" using cstr_len [OF Suc.prems(1)] by (intro unat_inc_u32) simp
  let ?c = "m (p + unat i)"
  let ?m = "m(p + unat i := up ?c)"
  have nz: "?c \<noteq> 0" using lt by (simp add: cstr_zero_iff [OF Suc.prems(1)])
  have "cstr ?m p (s[unat i := up ?c])"
    using Suc.prems(1) up_nz [OF nz] lt by (auto simp: cstr_def nth_list_update)
  from Suc.hyps(1) [OF _ this, of "i + 1"] Suc.hyps(2) i1 lt
  have "toupper_loop ?m p (i + 1) = Some (\<lambda>a. if p + unat i + 1 \<le> a \<and> a < p + length s then up (?m a) else ?m a)"
    by simp
  moreover have "(\<lambda>a. if p + unat i + 1 \<le> a \<and> a < p + length s then up (?m a) else ?m a)
    = (\<lambda>a. if p + unat i \<le> a \<and> a < p + length s then up (m a) else m a)"
    using lt by (auto simp: fun_eq_iff)
  ultimately show ?case using nz by (subst toupper_loop.simps) (simp add: Let_def up_def)
qed

lemma toupper_cstr:
  "cstr m p s \<Longrightarrow> toupper m p = Some (\<lambda>a. if p \<le> a \<and> a < p + length s then up (m a) else m a)"
  by (simp add: toupper_def toupper_loop_cstr)

lemma str_cmp_loop_cstr:
  assumes "cstr m p s" "cstr m q t" "length s < 2 ^ 31" "i \<le> length s" "i \<le> length t" "take i s = take i t"
  shows "\<exists>r. str_cmp_loop m p q i = Some r \<and> (r = 0 \<longleftrightarrow> s = t)"
  using assms(4-)
proof (induction "length s - i" arbitrary: i)
  case 0
  then have i: "i = length s" by simp
  have "sint (m (q + i)) = 0 \<longleftrightarrow> i = length t"
    using cstr_zero_iff [OF assms(2) 0(3)] by (metis sint_0 sint_eq_iff)
  moreover have "s = t \<longleftrightarrow> i = length t" using 0 i by auto
  ultimately show ?case using cstr_end [OF assms(1)] i by (subst str_cmp_loop.simps) simp
next
  case (Suc d)
  then have lt: "i < length s" by simp
  show ?case
  proof (cases "i < length t \<and> s ! i = t ! i")
    case True
    with Suc lt have "take (i + 1) s = take (i + 1) t" by (simp add: take_Suc_conv_app_nth)
    with Suc True lt have "\<exists>r. str_cmp_loop m p q (i + 1) = Some r \<and> (r = 0 \<longleftrightarrow> s = t)" by simp
    moreover have "m (p + i) \<noteq> 0" "m (q + i) \<noteq> 0" "m (p + i) = m (q + i)"
      using cstr_at [OF assms(1) lt] cstr_at [OF assms(2), of i] cstr_nz [OF assms(2), of i] True by auto
    ultimately show ?thesis using assms(3) lt by (subst str_cmp_loop.simps) simp
  next
    case False
    have ne: "m (p + i) \<noteq> m (q + i)"
    proof (cases "i < length t")
      case True
      with False cstr_at [OF assms(1) lt] cstr_at [OF assms(2) True] show ?thesis by auto
    next
      case f2: False
      with Suc have "i = length t" by simp
      with lt show ?thesis using cstr_end [OF assms(2)] cstr_zero_iff [OF assms(1), of i] by auto
    qed
    moreover have "s \<noteq> t" using False lt by auto
    ultimately show ?thesis by (subst str_cmp_loop.simps) (auto simp: sint_eq_iff)
  qed
qed

lemma str_cmp_cstr:
  "cstr m p s \<Longrightarrow> cstr m q t \<Longrightarrow> length s < 2 ^ 31 \<Longrightarrow> \<exists>r. str_cmp m p q = Some r \<and> (r = 0 \<longleftrightarrow> s = t)"
  using str_cmp_loop_cstr [of m p s q t 0] by (simp add: str_cmp_def)

lemma str_ncmp_loop_0: "str_ncmp_loop m p q i n = 0 \<longleftrightarrow> (\<forall>k<n. m (p + i + k) = m (q + i + k))"
  by (induction n arbitrary: i) (auto simp: Let_def sint_eq_iff less_Suc_eq_0_disj)

lemma str_ncmp_0: "str_ncmp m p q sz = 0 \<longleftrightarrow> (\<forall>k<unat sz. m (p + k) = m (q + k))"
  by (simp add: str_ncmp_def str_ncmp_loop_0)

section \<open>Bounded copy\<close>

text \<open>The \<open>n\<close> bytes at \<open>dst\<close> do not meet the string \<open>s\<close> at \<open>src\<close>, its terminator included.\<close>

definition apart :: "ptr \<Rightarrow> nat \<Rightarrow> ptr \<Rightarrow> u8 list \<Rightarrow> bool" where
  "apart dst n src s \<longleftrightarrow> dst + n \<le> src \<or> src + length s < dst"

text \<open>What the copy needs: a store does not hit a byte still to be read. This holds when the areas
  are apart, and also when the destination starts below the source, as in \<open>div_str\<close> on one buffer.\<close>

definition unread :: "ptr \<Rightarrow> nat \<Rightarrow> ptr \<Rightarrow> u8 list \<Rightarrow> bool" where
  "unread dst n src s \<longleftrightarrow> (\<forall>i j. i < n \<and> i < j \<and> j \<le> length s \<longrightarrow> dst + i \<noteq> src + j)"

lemma apart_unread: "apart dst n src s \<Longrightarrow> unread dst n src s"
  by (auto simp: apart_def unread_def)

lemma below_unread: "dst \<le> src \<Longrightarrow> unread dst n src s"
  by (auto simp: unread_def)

lemma str_cpy_step:
  assumes "cstr m (src + i) (drop i s)" "i \<le> length s" "unread dst (i + n + 1) src s"
  shows "(m(dst + i := m (src + i))) (src + i) = 0 \<longleftrightarrow> i = length s"
    and "i < length s \<Longrightarrow> cstr (m(dst + i := m (src + i))) (src + (i + 1)) (drop (i + 1) s)"
proof -
  have "(m(dst + i := m (src + i))) (src + i) = m (src + i)" by simp
  then show "(m(dst + i := m (src + i))) (src + i) = 0 \<longleftrightarrow> i = length s"
    using cstr_zero_iff [OF assms(1), of 0] assms(2) by auto
  assume lt: "i < length s"
  have "cstr m (src + (i + 1)) (drop (i + 1) s)" using cstr_drop [OF assms(1), of 1] lt by simp
  moreover have "src + (i + 1) + k \<noteq> dst + i" if "k \<le> length (drop (i + 1) s)" for k
  proof -
    have "i + 1 + k \<le> length s" using lt that by simp
    then show ?thesis using assms(3) [unfolded unread_def, rule_format, of i "i + 1 + k"] by simp
  qed
  ultimately show "cstr (m(dst + i := m (src + i))) (src + (i + 1)) (drop (i + 1) s)"
    by (auto elim!: cstr_cong)
qed

lemma str_cpy_loop_cstr:
  assumes "cstr m (src + i) (drop i s)" "i \<le> length s" "unread dst (i + n + 1) src s"
  shows "fst (str_cpy_loop m dst src i n) = min (length s) (i + n) \<and>
    (snd (str_cpy_loop m dst src i n))(dst + min (length s) (i + n) := 0)
      = (moved m (dst + i) (src + i) (min (length s) (i + n) - i))(dst + min (length s) (i + n) := 0)"
  using assms
proof (induction n arbitrary: i m)
  case (Suc n)
  let ?m = "m(dst + i := m (src + i))"
  let ?k = "min (length s) (i + Suc n)"
  note st = str_cpy_step [OF Suc.prems]
  show ?case
  proof (cases "i = length s")
    case True
    then show ?thesis using st(1) by (auto simp: Let_def)
  next
    case False
    then have le: "i + 1 \<le> length s" "i < length s" using Suc.prems(2) by simp_all
    have ap: "unread dst (i + 1 + n + 1) src s" using Suc.prems(3) by simp
    have un: "src + j \<noteq> dst + i" if "i < j" "j < ?k" for j
      using Suc.prems(3) [unfolded unread_def, rule_format, of i j] that le by auto
    have "moved ?m (dst + (i + 1)) (src + (i + 1)) (?k - (i + 1)) a = moved m (dst + i) (src + i) (?k - i) a" for a
    proof (cases "dst + (i + 1) \<le> a \<and> a < dst + ?k")
      case True
      then obtain j where a: "a = dst + j" by (metis le_Suc_ex add_leD1)
      then have "moved ?m (dst + (i + 1)) (src + (i + 1)) (?k - (i + 1)) a = ?m (src + j)"
        "moved m (dst + i) (src + i) (?k - i) a = m (src + j)"
        using True by (auto simp: moved_def)
      then show ?thesis using un [of j] True a by simp
    next
      case False
      with le show ?thesis by (auto simp: moved_def)
    qed
    then have "moved ?m (dst + (i + 1)) (src + (i + 1)) (?k - (i + 1)) = moved m (dst + i) (src + i) (?k - i)" ..
    moreover have "str_cpy_loop m dst src i (Suc n) = str_cpy_loop ?m dst src (i + 1) n"
      using st(1) False by (simp add: Let_def)
    moreover have "i + Suc n = i + 1 + n" by simp
    ultimately show ?thesis using Suc.IH [OF st(2) [OF le(2)] le(1) ap] by (simp only:)
  qed
qed simp

lemma str_cpy_cstr:
  assumes "cstr m src s" "0 < unat sz_max" "unread dst (unat sz_max) src s"
  defines "k \<equiv> min (length s) (unat sz_max - 1)"
  shows "str_cpy m dst src sz_max = (word_of_nat k, (moved m dst src k)(dst + k := 0))"
proof -
  have e: "unat (sz_max - 1) = unat sz_max - 1" using assms(2) by (rule unat_dec_u32)
  have ap: "unread dst (0 + (unat sz_max - 1) + 1) src s" using assms(2,3) by simp
  show ?thesis
    using str_cpy_loop_cstr [OF _ _ ap, of m] assms(1) e
    by (cases "str_cpy_loop m dst src 0 (unat sz_max - 1)") (simp add: str_cpy_def k_def)
qed

lemma cstr_prefix:
  assumes "cstr m src s" "k \<le> length s"
  shows "cstr ((moved m dst src k)(dst + k := 0)) dst (take k s)"
  using assms by (auto simp: cstr_def moved_def)

section \<open>Properties\<close>

text \<open>C13: \<open>mem_cpy\<close> is a memory move. Whatever the two areas share, after copying eight bytes at a
  time upwards or downwards the destination holds the bytes the source held before the call, and
  no other byte has changed.\<close>

theorem mem_cpy_is_memmove:
  "mem_cpy m dst src sz = (\<lambda>a. if dst \<le> a \<and> a < dst + unat sz then m (src + (a - dst)) else m a)"
  by (simp add: mem_cpy_moved moved_def)

text \<open>C31: \<open>str_cpy\<close> is a bounded copy. Given a string and a destination of \<open>sz_max > 0\<close> bytes apart
  from it, the destination holds the longest prefix that fits with its terminator, the result is
  the length of that prefix, and no byte outside the destination changes.\<close>

theorem str_cpy_bounded:
  assumes "cstr m src s" and "0 < unat sz_max" and "apart dst (unat sz_max) src s"
  shows "\<exists>m'. str_cpy m dst src sz_max = (word_of_nat (min (length s) (unat sz_max - 1)), m') \<and>
    cstr m' dst (take (unat sz_max - 1) s) \<and>
    (\<forall>a. a < dst \<or> dst + unat sz_max \<le> a \<longrightarrow> m' a = m a)"
proof -
  let ?k = "min (length s) (unat sz_max - 1)"
  have "take ?k s = take (unat sz_max - 1) s" by (simp add: min_def)
  then have "cstr ((moved m dst src ?k)(dst + ?k := 0)) dst (take (unat sz_max - 1) s)"
    using cstr_prefix [OF assms(1), of ?k dst] by simp
  moreover have "\<forall>a. a < dst \<or> dst + unat sz_max \<le> a \<longrightarrow> ((moved m dst src ?k)(dst + ?k := 0)) a = m a"
    using assms(2) by (auto simp: moved_def)
  ultimately show ?thesis using str_cpy_cstr [OF assms(1,2) apart_unread [OF assms(3)]] by blast
qed

definition demo_text :: mem where
  "demo_text = (\<lambda>_. 0)(100 := 97, 101 := 98, 102 := 99)"

lemma demo_text_str: "cstr demo_text 100 [97, 98, 99]"
  by (simp add: cstr_Cons demo_text_def)

theorem str_cpy_bounded_witness:
  "\<exists>m'. str_cpy demo_text 200 100 3 = (word_of_nat (min (length [97, 98, 99 :: u8]) (unat (3 :: u32) - 1)), m') \<and>
    cstr m' 200 (take (unat (3 :: u32) - 1) [97, 98, 99]) \<and>
    (\<forall>a. a < 200 \<or> 200 + unat (3 :: u32) \<le> a \<longrightarrow> m' a = demo_text a)"
  by (rule str_cpy_bounded [OF demo_text_str]) (simp_all add: apart_def)

end
