(* ===== verification/Str_Text.thy ===== *)
theory Str_Text
  imports Str_Mem
begin

text \<open>
  Searching, trimming and splitting strings (core/common/lib/str.cpp): \<open>find_string\<close>,
  \<open>trim_left\<close>, \<open>trim_right\<close>, \<open>clrspc\<close>, \<open>check_str1\<close>, \<open>div_str\<close>, \<open>div_str_ex\<close>. Each operation is a
  function of the memory; \<open>None\<close> is a loop that never finds its terminator. The properties
  give their effect on the byte lists the strings stand for, and the two places where they write
  outside the buffers they are given.
\<close>

definition INVALID_STRING_POSITION :: u32 where
  "INVALID_STRING_POSITION = 0xffffffff"

abbreviation SPACE_CHAR :: u8 where "SPACE_CHAR \<equiv> 32"
abbreviation TAB_CHAR :: u8 where "TAB_CHAR \<equiv> 9"
abbreviation ESCAPE :: u8 where "ESCAPE \<equiv> 92"

section \<open>Searching\<close>

fun find_loop :: "mem \<Rightarrow> ptr \<Rightarrow> ptr \<Rightarrow> u32 \<Rightarrow> nat \<Rightarrow> nat \<Rightarrow> u32" where
  "find_loop m str1 str2 l i 0 = INVALID_STRING_POSITION"
| "find_loop m str1 str2 l i (Suc n) =
     (if mem_cmp m str2 (str1 + i) l = 0 then word_of_nat i else find_loop m str1 str2 l (i + 1) n)"

definition find_string :: "mem \<Rightarrow> ptr \<Rightarrow> ptr \<Rightarrow> u32 option" where
  "find_string m str1 str2 =
     do {
       l \<leftarrow> str_len m str2;
       l1 \<leftarrow> str_len m str1;
       let l1 = l1 + 1;
       Some (if l > l1 \<or> l1 = 0 \<or> l = 0 then INVALID_STRING_POSITION
             else find_loop m str1 str2 l 0 (unat (l1 - l)))
     }"

section \<open>Trimming\<close>

definition blank :: "u8 \<Rightarrow> bool" where
  "blank c \<longleftrightarrow> c = SPACE_CHAR \<or> c = TAB_CHAR"

fun skip_loop :: "mem \<Rightarrow> ptr \<Rightarrow> nat \<Rightarrow> nat \<Rightarrow> nat" where
  "skip_loop m str i 0 = i"
| "skip_loop m str i (Suc n) = (if \<not> blank (m (str + i)) then i else skip_loop m str (i + 1) n)"

definition trim_left :: "mem \<Rightarrow> ptr \<Rightarrow> mem option" where
  "trim_left m str =
     do {
       l \<leftarrow> str_len m str;
       let i = skip_loop m str 0 (unat l);
       if i = 0 then Some m
       else do { l' \<leftarrow> str_len m (str + i); Some (mem_cpy m str (str + i) (l' + 1)) }
     }"

text \<open>The index is a \<open>_u32\<close>: below 0 it wraps around and the next byte is read from
  \<open>str + 0xffffffff\<close>.\<close>

partial_function (option) trim_right_loop :: "mem \<Rightarrow> ptr \<Rightarrow> u32 \<Rightarrow> mem option" where
  "trim_right_loop m str i =
     (if blank (m (str + unat i)) then trim_right_loop (m(str + unat i := 0)) str (i - 1) else Some m)"

definition trim_right :: "mem \<Rightarrow> ptr \<Rightarrow> mem option" where
  "trim_right m str =
     do { l \<leftarrow> str_len m str; if l \<noteq> 0 then trim_right_loop m str (l - 1) else Some m }"

definition clrspc :: "mem \<Rightarrow> ptr \<Rightarrow> mem option" where
  "clrspc m str = do { m \<leftarrow> trim_right m str; trim_left m str }"

section \<open>Splitting\<close>

fun chr_loop :: "mem \<Rightarrow> ptr \<Rightarrow> u8 \<Rightarrow> nat \<Rightarrow> nat \<Rightarrow> bool" where
  "chr_loop m str2 c j 0 = False"
| "chr_loop m str2 c j (Suc n) = (if c = m (str2 + j) then True else chr_loop m str2 c (j + 1) n)"

fun check_loop1 :: "mem \<Rightarrow> ptr \<Rightarrow> ptr \<Rightarrow> nat \<Rightarrow> nat \<Rightarrow> nat \<Rightarrow> u32" where
  "check_loop1 m str1 str2 l2 i 0 = INVALID_STRING_POSITION"
| "check_loop1 m str1 str2 l2 i (Suc n) =
     (if chr_loop m str2 (m (str1 + i)) 0 l2 then word_of_nat i else check_loop1 m str1 str2 l2 (i + 1) n)"

definition check_str1 :: "mem \<Rightarrow> ptr \<Rightarrow> ptr \<Rightarrow> u32 option" where
  "check_str1 m str1 str2 =
     do { l1 \<leftarrow> str_len m str1; l2 \<leftarrow> str_len m str2; Some (check_loop1 m str1 str2 (unat l2) 0 (unat l1)) }"

definition div_str :: "mem \<Rightarrow> ptr \<Rightarrow> ptr \<Rightarrow> u32 \<Rightarrow> ptr \<Rightarrow> u32 \<Rightarrow> ptr \<Rightarrow> (u8 \<times> mem) option" where
  "div_str m str p1 sz_p1 p2 sz_p2 dv =
     do {
       i \<leftarrow> check_str1 m str dv;
       if i \<noteq> INVALID_STRING_POSITION then
         let k = (if i < sz_p1 then i else sz_p1);
             m = mem_cpy m p1 str k;
             m = m(p1 + unat k := 0);
             m = snd (str_cpy m p2 (str + unat i + 1) sz_p2)
         in Some (1, m)
       else
         let m = snd (str_cpy m p1 str sz_p1)
         in Some (0, m(p2 := 0))
     }"

text \<open>The scan of \<open>div_str_ex\<close>: the position of the separator, if any. \<open>ex_count\<close> counts open
  exclusion brackets.\<close>

function div_ex_loop :: "mem \<Rightarrow> ptr \<Rightarrow> ptr \<Rightarrow> nat \<Rightarrow> u8 \<Rightarrow> u8 \<Rightarrow> u32 \<Rightarrow> nat \<Rightarrow> nat \<Rightarrow> nat option" where
  "div_ex_loop m str dv l2 start_ex stop_ex ex_count l1 i =
     (if i < l1 then
        if m (str + i) = ESCAPE then div_ex_loop m str dv l2 start_ex stop_ex ex_count l1 (i + 2)
        else if ex_count = 0 \<and> chr_loop m dv (m (str + i)) 0 l2 then Some i
        else
          let ex_count =
            (if start_ex = stop_ex then (if ex_count \<noteq> 0 then 0 else 1)
             else
               let e = (if m (str + i) = start_ex then ex_count + 1 else ex_count)
               in if m (str + i) = stop_ex then e - 1 else e)
          in div_ex_loop m str dv l2 start_ex stop_ex ex_count l1 (i + 1)
      else None)"
  by pat_completeness auto
termination
  by (relation "measure (\<lambda>(m, str, dv, l2, start_ex, stop_ex, ex_count, l1, i). l1 - i)") auto

definition div_str_ex :: "mem \<Rightarrow> ptr \<Rightarrow> ptr \<Rightarrow> u32 \<Rightarrow> ptr \<Rightarrow> u32 \<Rightarrow> ptr \<Rightarrow> u8 \<Rightarrow> u8 \<Rightarrow> (u8 \<times> mem) option" where
  "div_str_ex m str p1 sz_p1 p2 sz_p2 dv start_ex stop_ex =
     do {
       l1 \<leftarrow> str_len m str;
       l2 \<leftarrow> str_len m dv;
       case div_ex_loop m str dv (unat l2) start_ex stop_ex 0 (unat l1) 0 of
         Some i \<Rightarrow>
           let k = (if i < unat sz_p1 then i else unat sz_p1);
               m = mem_cpy m p1 str (word_of_nat k);
               m = m(p1 + k := 0)
           in do {
                l \<leftarrow> str_len m (str + i);
                let m = snd (str_cpy m p2 (str + i + 1) (if sint sz_p2 < sint l then sz_p2 else l));
                Some (1, m)
              }
       | None \<Rightarrow>
           let m = snd (str_cpy m p1 str sz_p1)
           in Some (0, m(p2 := 0))
     }"

declare div_ex_loop.simps [simp del]

section \<open>Values on strings\<close>

lemma unat_len: "cstr m p s \<Longrightarrow> unat (word_of_nat (length s) :: u32) = length s"
  by (rule unat_of_nat_u32 [OF cstr_len])

definition occurs_at :: "u8 list \<Rightarrow> u8 list \<Rightarrow> nat \<Rightarrow> bool" where
  "occurs_at t s i \<longleftrightarrow> i + length t \<le> length s \<and> take (length t) (drop i s) = t"

lemma mem_cmp_occurs:
  assumes "cstr m p s" "cstr m q t" "i + length t \<le> length s"
  shows "mem_cmp m q (p + i) (word_of_nat (length t)) = 0 \<longleftrightarrow> occurs_at t s i"
proof -
  have "(\<forall>k<length t. m (q + k) = m (p + i + k)) \<longleftrightarrow> (\<forall>k<length t. t ! k = s ! (i + k))"
    using cstr_at [OF assms(1)] cstr_at [OF assms(2)] assms(3) by (simp add: add.assoc)
  also have "\<dots> \<longleftrightarrow> take (length t) (drop i s) = t"
    using assms(3) by (auto simp: list_eq_iff_nth_eq)
  finally show ?thesis using assms(3) unat_len [OF assms(2)] by (simp add: mem_cmp_0 occurs_at_def)
qed

lemma find_loop_occurs:
  assumes "cstr m p s" "cstr m q t" "i + n + length t = length s + 1"
    and "\<forall>k<i. \<not> occurs_at t s k"
  shows "(\<exists>k. find_loop m p q (word_of_nat (length t)) i n = word_of_nat k \<and> occurs_at t s k \<and>
        (\<forall>j<k. \<not> occurs_at t s j)) \<or>
    find_loop m p q (word_of_nat (length t)) i n = INVALID_STRING_POSITION \<and> (\<forall>k. \<not> occurs_at t s k)"
  using assms(3,4)
proof (induction n arbitrary: i)
  case 0
  then have "\<not> occurs_at t s k" for k by (cases "k < i") (auto simp: occurs_at_def)
  then show ?case by simp
next
  case (Suc n)
  then have "mem_cmp m q (p + i) (word_of_nat (length t)) = 0 \<longleftrightarrow> occurs_at t s i"
    by (intro mem_cmp_occurs [OF assms(1,2)]) simp
  then show ?case using Suc.IH [of "i + 1"] Suc.prems by (auto simp: less_Suc_eq)
qed

lemma skip_loop_blank:
  "cstr m p s \<Longrightarrow> i + n = length s \<Longrightarrow> skip_loop m p i n = i + length (takeWhile blank (drop i s))"
proof (induction n arbitrary: i)
  case (Suc n)
  then have "drop i s = s ! i # drop (i + 1) s" by (simp add: Cons_nth_drop_Suc)
  with Suc show ?case by (simp add: cstr_at)
qed simp

lemma trim_left_cstr:
  assumes "cstr m p s"
  shows "\<exists>m'. trim_left m p = Some m' \<and> cstr m' p (dropWhile blank s) \<and> (\<forall>a. a < p \<or> p + length s < a \<longrightarrow> m' a = m a)"
proof -
  let ?i = "length (takeWhile blank s)"
  have sk: "skip_loop m p 0 (length s) = ?i" using skip_loop_blank [OF assms, of 0] by simp
  show ?thesis
  proof (cases "?i = 0")
    case True
    then have "dropWhile blank s = s" by (metis dropWhile_eq_drop drop0)
    then show ?thesis using assms sk True
      by (intro exI [of _ m]) (simp add: trim_left_def str_len_cstr unat_len)
  next
    case False
    let ?d = "drop ?i s"
    have i: "?i \<le> length s" by (rule length_takeWhile_le)
    have d: "cstr m (p + ?i) ?d" using cstr_drop [OF assms i] .
    have "length ?d + 1 < 2 ^ 32" using i False cstr_len [OF assms] unfolding length_drop by linarith
    then have l: "unat (word_of_nat (length ?d) + 1 :: u32) = length ?d + 1"
      by (metis Suc_eq_plus1 of_nat_Suc_word unat_of_nat_u32)
    let ?m = "moved m p (p + ?i) (length ?d + 1)"
    have "cstr ?m p ?d" using d by (auto simp: cstr_def moved_def)
    moreover have "trim_left m p = Some ?m"
      using assms sk False d l by (simp add: trim_left_def str_len_cstr unat_len mem_cpy_moved Let_def)
    moreover have "\<forall>a. a < p \<or> p + length s < a \<longrightarrow> ?m a = m a" using False i by (auto simp: moved_def)
    ultimately show ?thesis by (auto simp: dropWhile_eq_drop)
  qed
qed

text \<open>The loop of \<open>trim_right\<close> over a run of blanks: it clears them and stops at the byte before.\<close>

lemma trim_right_run:
  assumes "\<forall>k. j < k \<and> k \<le> unat i \<longrightarrow> blank (m (p + k))" and "j \<le> unat i"
  shows "trim_right_loop m p i
    = trim_right_loop (\<lambda>a. if p + j < a \<and> a \<le> p + unat i then 0 else m a) p (word_of_nat j)"
  using assms
proof (induction "unat i - j" arbitrary: i m)
  case 0
  then have "j = unat i" by simp
  then show ?case by (simp add: not_less_iff_gr_or_eq order.strict_implies_not_eq if_bool_eq_disj [symmetric] cong: if_cong)
    (rule arg_cong [where f = "\<lambda>m. trim_right_loop m p i"], auto simp: fun_eq_iff)
next
  case (Suc d)
  then have lt: "j < unat i" by simp
  then have i1: "unat (i - 1) = unat i - 1" by (intro unat_dec_u32) simp
  let ?m = "m(p + unat i := 0)"
  have "trim_right_loop ?m p (i - 1)
    = trim_right_loop (\<lambda>a. if p + j < a \<and> a \<le> p + unat (i - 1) then 0 else ?m a) p (word_of_nat j)"
    by (rule Suc.hyps(1)) (use Suc.hyps(2) Suc.prems lt i1 in auto)
  moreover have "(\<lambda>a. if p + j < a \<and> a \<le> p + unat (i - 1) then 0 else ?m a)
      = (\<lambda>a. if p + j < a \<and> a \<le> p + unat i then 0 else m a)"
    using lt i1 by (auto simp: fun_eq_iff)
  moreover have "blank (m (p + unat i))" using Suc.prems(1) lt by simp
  ultimately show ?case by (subst trim_right_loop.simps) simp
qed

definition rstrip :: "u8 list \<Rightarrow> u8 list" where
  "rstrip s = rev (dropWhile blank (rev s))"

lemma rstrip_split:
  assumes "c \<in> set s" "\<not> blank c"
  obtains w where "s = rstrip s @ w" "\<forall>x\<in>set w. blank x" "rstrip s \<noteq> []" "\<not> blank (last (rstrip s))"
proof
  let ?w = "rev (takeWhile blank (rev s))"
  show "s = rstrip s @ ?w"
    by (metis rev_append rev_rev_ident rstrip_def takeWhile_dropWhile_id)
  show "\<forall>x\<in>set ?w. blank x" by (auto dest: set_takeWhileD)
  have ne: "dropWhile blank (rev s) \<noteq> []" using assms by (auto simp: dropWhile_eq_Nil_conv)
  then show "rstrip s \<noteq> []" by (simp add: rstrip_def)
  show "\<not> blank (last (rstrip s))" using hd_dropWhile [OF ne] by (simp add: rstrip_def last_rev)
qed

lemma trim_right_cstr:
  assumes "cstr m p s" "c \<in> set s" "\<not> blank c"
  shows "\<exists>m'. trim_right m p = Some m' \<and> cstr m' p (rstrip s) \<and>
    (\<forall>a. a < p \<or> p + length s < a \<longrightarrow> m' a = m a)"
proof -
  obtain w where w: "s = rstrip s @ w" "\<forall>x\<in>set w. blank x" "rstrip s \<noteq> []" "\<not> blank (last (rstrip s))"
    using rstrip_split [OF assms(2,3)] .
  let ?u = "rstrip s"
  let ?j = "length ?u - 1"
  let ?i = "word_of_nat (length s) - 1 :: u32"
  have ls: "length s = length ?u + length w" using arg_cong [OF w(1), of length] by simp
  have pos: "0 < length s" using w(3) ls by simp
  have i: "unat ?i = length s - 1" using unat_dec_u32 [of "word_of_nat (length s)"] unat_len [OF assms(1)] pos by simp
  have j: "?j < length ?u" "?j \<le> unat ?i" using w(3) ls i by simp_all
  let ?m = "\<lambda>a. if p + ?j < a \<and> a \<le> p + unat ?i then 0 else m a"
  have bl: "blank (m (p + k))" if "?j < k \<and> k \<le> unat ?i" for k
  proof -
    from that have k: "length ?u \<le> k" "k < length s" using w(3) i pos by auto
    then have "s ! k = w ! (k - length ?u)" by (subst w(1)) (simp add: nth_append)
    moreover have "w ! (k - length ?u) \<in> set w" using k ls by simp
    ultimately show ?thesis using w(2) cstr_at [OF assms(1) k(2)] by simp
  qed
  have at: "?m (p + k) = ?u ! k" if "k < length ?u" for k
  proof -
    have "s ! k = ?u ! k" by (subst w(1)) (simp add: nth_append that)
    then show ?thesis using that cstr_at [OF assms(1), of k] ls by auto
  qed
  have nz: "?u ! k \<noteq> 0" if "k < length ?u" for k
    using that cstr_nz [OF assms(1), of k] ls by (metis nth_append trans_less_add1 w(1))
  have "?m (p + length ?u) = 0"
  proof (cases w)
    case Nil
    then show ?thesis using w(3) cstr_end [OF assms(1)] ls by simp
  next
    case (Cons x xs)
    then have "length ?u \<le> unat ?i" using i ls by simp
    then show ?thesis using w(3) by simp
  qed
  then have "cstr ?m p ?u" using at nz ls cstr_len [OF assms(1)] by (simp add: cstr_def)
  moreover have "trim_right_loop ?m p (word_of_nat ?j) = Some ?m"
  proof (subst trim_right_loop.simps)
    have "unat (word_of_nat ?j :: u32) = ?j" using j i cstr_len [OF assms(1)] ls by (intro unat_of_nat_u32) simp
    then show "(if blank (?m (p + unat (word_of_nat ?j :: u32)))
        then trim_right_loop (?m(p + unat (word_of_nat ?j :: u32) := 0)) p (word_of_nat ?j - 1) else Some ?m) = Some ?m"
      using at [OF j(1)] w(3,4) by (simp add: last_conv_nth)
  qed
  then have "trim_right m p = Some ?m"
    using trim_right_run [of ?j ?i m p] bl j(2) assms(1) pos unat_len [OF assms(1)]
    by (auto simp: trim_right_def str_len_cstr)
  moreover have "\<forall>a. a < p \<or> p + length s < a \<longrightarrow> ?m a = m a" using i by auto
  ultimately show ?thesis by blast
qed

lemma chr_loop_iff: "chr_loop m q c j n \<longleftrightarrow> (\<exists>k<n. c = m (q + j + k))"
  by (induction n arbitrary: j) (auto simp: less_Suc_eq_0_disj)

lemma chr_cstr: "cstr m q t \<Longrightarrow> chr_loop m q c 0 (length t) \<longleftrightarrow> c \<in> set t"
  by (auto simp: chr_loop_iff cstr_at in_set_conv_nth)

lemma check_loop1_first:
  assumes "cstr m p (u @ d # v)" "cstr m q t" "set u \<inter> set t = {}" "d \<in> set t" "i \<le> length u"
  shows "check_loop1 m p q (length t) i (length (u @ d # v) - i) = word_of_nat (length u)"
  using assms(5)
proof (induction "length u - i" arbitrary: i)
  case 0
  then have i: "i = length u" by simp
  then have "length (u @ d # v) - i = Suc (length v)" "m (p + i) = d" using cstr_at [OF assms(1), of i] by simp_all
  with assms(4) i show ?case by (simp add: chr_cstr [OF assms(2)])
next
  case (Suc n)
  then have lt: "i < length u" by simp
  then have "length (u @ d # v) - i = Suc (length (u @ d # v) - (i + 1))" by simp
  moreover have "m (p + i) = u ! i" using cstr_at [OF assms(1), of i] lt by (simp add: nth_append)
  moreover have "u ! i \<notin> set t" using assms(3) lt nth_mem [OF lt] by blast
  ultimately show ?case using Suc lt by (simp only: check_loop1.simps chr_cstr [OF assms(2)]) simp
qed

lemma check_str1_first:
  assumes "cstr m p (u @ d # v)" "cstr m q t" "set u \<inter> set t = {}" "d \<in> set t"
  shows "check_str1 m p q = Some (word_of_nat (length u))"
  using check_loop1_first [OF assms, of 0] unat_len [OF assms(1)] unat_len [OF assms(2)]
  by (simp add: check_str1_def str_len_cstr [OF assms(1)] str_len_cstr [OF assms(2)])

lemma index_valid: "cstr m p (u @ d # v) \<Longrightarrow>
  unat (word_of_nat (length u) :: u32) = length u \<and> word_of_nat (length u) \<noteq> INVALID_STRING_POSITION"
  using cstr_len [of m p "u @ d # v"] unat_of_nat_u32 [of "length u"]
  by (auto simp: INVALID_STRING_POSITION_def dest: arg_cong [where f = unat])

text \<open>\<open>div_str\<close> with the rest going back into the string itself, as its callers use it.\<close>

lemma div_str_in_place:
  assumes "cstr m str (u @ d # v)" "cstr m dv t" "set u \<inter> set t = {}" "d \<in> set t"
    and "apart p1 (min (length u) (unat sz_p1) + 1) str (u @ d # v)" "length v < unat sz_p2"
  defines "k \<equiv> min (length u) (unat sz_p1)"
  defines "m1 \<equiv> (moved m p1 str k)(p1 + k := 0)"
  shows "div_str m str p1 sz_p1 str sz_p2 dv = Some (1, (moved m1 str (str + length u + 1) (length v))(str + length v := 0))"
proof -
  note iv = index_valid [OF assms(1)]
  have c1: "cstr m1 str (u @ d # v)"
    by (rule cstr_cong [OF assms(1)]) (use assms(5) in \<open>auto simp: m1_def moved_def apart_def k_def\<close>)
  have v: "cstr m1 (str + length u + 1) v"
    using cstr_drop [OF c1, of "length u + 1"] by (simp add: add.assoc)
  have k: "unat (if word_of_nat (length u) < sz_p1 then word_of_nat (length u) else sz_p1) = k"
    using iv by (simp add: k_def word_less_nat_alt min_def)
  have "snd (str_cpy m1 str (str + length u + 1) sz_p2) = (moved m1 str (str + length u + 1) (length v))(str + length v := 0)"
  proof -
    have "min (length v) (unat sz_p2 - 1) = length v" using assms(6) by simp
    then show ?thesis using str_cpy_cstr [OF v _ below_unread, of sz_p2 str] assms(6) by simp
  qed
  then show ?thesis
    using iv k by (simp add: div_str_def check_str1_first [OF assms(1-4)] mem_cpy_moved m1_def Let_def)
qed

section \<open>Properties\<close>

text \<open>C32: \<open>find_string\<close> finds the first occurrence. For a non-empty needle the result is the
  smallest position at which it occurs, or \<open>INVALID_STRING_POSITION\<close> when it occurs nowhere.\<close>

theorem find_string_first:
  assumes "cstr m p s" and "cstr m q t" and "t \<noteq> []" and "length s + 1 < 2 ^ 32"
  shows "(\<exists>k. find_string m p q = Some (word_of_nat k) \<and> occurs_at t s k \<and> (\<forall>j<k. \<not> occurs_at t s j)) \<or>
    find_string m p q = Some INVALID_STRING_POSITION \<and> (\<forall>k. \<not> occurs_at t s k)"
proof -
  let ?l = "word_of_nat (length t) :: u32"
  let ?l1 = "word_of_nat (length s) + 1 :: u32"
  have l: "unat ?l = length t" using unat_len [OF assms(2)] .
  have l1: "unat ?l1 = length s + 1"
    using unat_inc_u32 [of "word_of_nat (length s)"] unat_len [OF assms(1)] assms(4) by simp
  have nz: "?l1 \<noteq> 0" "?l \<noteq> 0" using l l1 assms(3) by (auto simp: word_unat_eq_iff)
  show ?thesis
  proof (cases "length s + 1 < length t")
    case True
    then have "\<not> occurs_at t s k" for k by (simp add: occurs_at_def)
    moreover have "?l1 < ?l" using True l l1 by (simp add: word_less_nat_alt)
    ultimately show ?thesis
      by (simp add: find_string_def str_len_cstr [OF assms(1)] str_len_cstr [OF assms(2)] Let_def)
  next
    case False
    then have le: "\<not> ?l1 < ?l" using l l1 by (simp add: word_less_nat_alt)
    then have "unat (?l1 - ?l) = length s + 1 - length t"
      using l l1 by (metis not_less unat_sub_if' word_le_nat_alt)
    then have "find_string m p q = Some (find_loop m p q ?l 0 (length s + 1 - length t))"
      using le nz by (simp add: find_string_def str_len_cstr [OF assms(1)] str_len_cstr [OF assms(2)] Let_def)
    then show ?thesis using find_loop_occurs [OF assms(1,2), of 0 "length s + 1 - length t"] False by auto
  qed
qed

definition demo_words :: mem where
  "demo_words = (\<lambda>_. 0)(100 := 32, 101 := 97, 102 := 44, 103 := 98, 104 := 32, 200 := 44)"

lemma demo_words_str: "cstr demo_words 100 [32, 97, 44, 98, 32]" "cstr demo_words 200 [44]"
  by (simp_all add: cstr_Cons demo_words_def)

theorem find_string_first_witness:
  "(\<exists>k. find_string demo_words 100 200 = Some (word_of_nat k) \<and> occurs_at [44] [32, 97, 44, 98, 32] k \<and>
      (\<forall>j<k. \<not> occurs_at [44] [32, 97, 44, 98, 32] j)) \<or>
    find_string demo_words 100 200 = Some INVALID_STRING_POSITION \<and> (\<forall>k. \<not> occurs_at [44] [32, 97, 44, 98, 32] k)"
  by (rule find_string_first [OF demo_words_str]) simp_all

text \<open>\<open>clrspc\<close> removes the blanks at both ends of a string that has another character, and
  changes no byte outside the string.\<close>

theorem clrspc_trims:
  assumes "cstr m p s" and "c \<in> set s" and "\<not> blank c"
  shows "\<exists>m'. clrspc m p = Some m' \<and> cstr m' p (dropWhile blank (rstrip s)) \<and>
    (\<forall>a. a < p \<or> p + length s < a \<longrightarrow> m' a = m a)"
proof -
  obtain m1 where m1: "trim_right m p = Some m1" "cstr m1 p (rstrip s)"
    "\<forall>a. a < p \<or> p + length s < a \<longrightarrow> m1 a = m a"
    using trim_right_cstr [OF assms] by blast
  obtain m2 where m2: "trim_left m1 p = Some m2" "cstr m2 p (dropWhile blank (rstrip s))"
    "\<forall>a. a < p \<or> p + length (rstrip s) < a \<longrightarrow> m2 a = m1 a"
    using trim_left_cstr [OF m1(2)] by blast
  have "length (rstrip s) \<le> length s" using length_dropWhile_le [of blank "rev s"] by (simp add: rstrip_def)
  then show ?thesis using m1 m2 by (auto simp: clrspc_def)
qed

theorem clrspc_trims_witness:
  "\<exists>m'. clrspc demo_words 100 = Some m' \<and> cstr m' 100 (dropWhile blank (rstrip [32, 97, 44, 98, 32])) \<and>
    (\<forall>a. a < 100 \<or> 100 + length [32, 97, 44, 98, 32 :: u8] < a \<longrightarrow> m' a = demo_words a)"
  by (rule clrspc_trims [OF demo_words_str(1), of 97]) (simp_all add: blank_def)

text \<open>\<open>trim_right\<close> leaves the string when it holds only blanks: the index passes 0, wraps
  around, and a blank byte at \<open>str + 0xffffffff\<close> is overwritten.\<close>

lemma trim_right_underflow:
  assumes "cstr m p s" and "s \<noteq> []" and "\<forall>c\<in>set s. blank c" and "length s < 0xfffffffe"
    and "blank (m (p + 0xffffffff))" and "\<not> blank (m (p + 0xfffffffe))"
  shows "\<exists>m'. trim_right m p = Some m' \<and> m' (p + 0xffffffff) = 0"
proof -
  let ?i = "word_of_nat (length s) - 1 :: u32"
  have i: "unat ?i = length s - 1"
    using unat_dec_u32 [of "word_of_nat (length s)"] unat_len [OF assms(1)] assms(2) by simp
  have bl: "blank (m (p + k))" if "k < length s" for k
    using cstr_at [OF assms(1) that] assms(3) that by simp
  let ?m0 = "\<lambda>a. if p + 0 < a \<and> a \<le> p + unat ?i then 0 else m a"
  have b0: "blank (?m0 (p + 0))" using bl [of 0] assms(2) by simp
  have w: "unat (word_of_nat 0 - 1 :: u32) = 0xffffffff" "unat (word_of_nat 0 - 1 - 1 :: u32) = 0xfffffffe"
    by (simp_all add: unat_max_u32)
  have far: "?m0 (p + 0xffffffff) = m (p + 0xffffffff)" "?m0 (p + 0xfffffffe) = m (p + 0xfffffffe)"
  proof -
    have "unat ?i < 0xfffffffe" using i assms(4) by linarith
    then show "?m0 (p + 0xffffffff) = m (p + 0xffffffff)" "?m0 (p + 0xfffffffe) = m (p + 0xfffffffe)" by simp_all
  qed
  let ?m1 = "?m0(p + 0 := 0)"
  let ?m2 = "?m1(p + 0xffffffff := 0)"
  have s1: "trim_right_loop ?m0 p (word_of_nat 0) = trim_right_loop ?m1 p (word_of_nat 0 - 1)"
    using b0 by (subst trim_right_loop.simps) simp
  have s2: "trim_right_loop ?m1 p (word_of_nat 0 - 1) = trim_right_loop ?m2 p (word_of_nat 0 - 1 - 1)"
    using far assms(5) by (subst trim_right_loop.simps) (simp only: w, simp)
  have s3: "trim_right_loop ?m2 p (word_of_nat 0 - 1 - 1) = Some ?m2"
    using far assms(6) by (subst trim_right_loop.simps) (simp only: w, simp)
  have "trim_right m p = trim_right_loop m p ?i"
    using assms(2) unat_len [OF assms(1)] by (auto simp: trim_right_def str_len_cstr [OF assms(1)])
  moreover have "trim_right_loop m p ?i = trim_right_loop ?m0 p (word_of_nat 0)"
    by (rule trim_right_run) (use bl i assms(2) in auto)
  ultimately show ?thesis using s1 s2 s3 by auto
qed

definition demo_blank :: mem where
  "demo_blank = (\<lambda>_. 0)(100 := 32, 100 + 0xffffffff := 32)"

lemma trim_right_underflow_witness:
  "\<exists>m'. trim_right demo_blank 100 = Some m' \<and> m' (100 + 0xffffffff) = 0"
  by (rule trim_right_underflow [where s = "[32]"]) (simp_all add: cstr_Cons demo_blank_def blank_def)

text \<open>C33: \<open>div_str\<close> splits a string in place at its first separator: the first buffer gets the part
  before it, the string itself the part after it.\<close>

theorem div_str_splits:
  assumes "cstr m str (u @ d # v)" and "cstr m dv t" and "set u \<inter> set t = {}" and "d \<in> set t"
    and "apart p1 (unat sz_p1) str (u @ d # v)" and "length u < unat sz_p1" and "length v < unat sz_p2"
  shows "\<exists>m'. div_str m str p1 sz_p1 str sz_p2 dv = Some (1, m') \<and> cstr m' p1 u \<and> cstr m' str v"
proof -
  have k: "min (length u) (unat sz_p1) = length u" using assms(6) by simp
  have ap: "apart p1 (length u + 1) str (u @ d # v)" using assms(5,6) by (auto simp: apart_def)
  let ?m1 = "(moved m p1 str (length u))(p1 + length u := 0)"
  let ?m2 = "(moved ?m1 str (str + length u + 1) (length v))(str + length v := 0)"
  have "div_str m str p1 sz_p1 str sz_p2 dv = Some (1, ?m2)"
    using div_str_in_place [of m str u d v dv t p1 sz_p1 sz_p2] assms ap k by simp
  moreover have "cstr ?m1 p1 u"
    using cstr_prefix [OF assms(1), of "length u" p1] by simp
  then have "cstr ?m2 p1 u"
    by (rule cstr_cong) (use ap in \<open>auto simp: moved_def apart_def\<close>)
  moreover have "cstr ?m1 str (u @ d # v)"
    by (rule cstr_cong [OF assms(1)]) (use ap in \<open>auto simp: moved_def apart_def\<close>)
  then have "cstr ?m1 (str + length u + 1) v"
    using cstr_drop [of ?m1 str "u @ d # v" "length u + 1"] by (simp add: add.assoc)
  then have "cstr ?m2 str v" using cstr_prefix [of ?m1 "str + length u + 1" v "length v" str] by simp
  ultimately show ?thesis by blast
qed

theorem div_str_splits_witness:
  "\<exists>m'. div_str demo_words 100 300 10 100 10 200 = Some (1, m') \<and> cstr m' 300 [32, 97] \<and> cstr m' 100 [98, 32]"
  by (rule div_str_splits [where d = 44 and t = "[44]"])
    (simp_all add: apart_def cstr_Cons demo_words_def)

text \<open>\<open>div_str\<close> writes one byte past its first buffer. When the part before the separator has
  \<open>sz_p1\<close> bytes or more, the terminator goes to \<open>p1[sz_p1]\<close>.\<close>

theorem div_str_overruns_p1:
  assumes "cstr m str (u @ d # v)" and "cstr m dv t" and "set u \<inter> set t = {}" and "d \<in> set t"
    and "apart p1 (unat sz_p1 + 1) str (u @ d # v)" and "unat sz_p1 \<le> length u" and "length v < unat sz_p2"
  shows "\<exists>m'. div_str m str p1 sz_p1 str sz_p2 dv = Some (1, m') \<and> m' (p1 + unat sz_p1) = 0"
proof -
  have k: "min (length u) (unat sz_p1) = unat sz_p1" using assms(6) by simp
  show ?thesis
    using div_str_in_place [of m str u d v dv t p1 sz_p1 sz_p2] assms k
    by (auto simp: moved_def apart_def)
qed

theorem div_str_overruns_p1_witness:
  "\<exists>m'. div_str demo_words 100 300 2 100 10 200 = Some (1, m') \<and> m' (300 + unat (2 :: u32)) = 0"
  by (rule div_str_overruns_p1 [where d = 44 and t = "[44]" and u = "[32, 97]" and v = "[98, 32]"])
    (simp_all add: apart_def cstr_Cons demo_words_def)

end
