(* ===== verification/Str_Wild.thy ===== *)
theory Str_Wild
  imports Str_Mem
begin

text \<open>
  Wildcard matching (\<open>wildcmp\<close> of core/common/lib/str.cpp). The code walks the string and the
  pattern with two pointers, remembers the position after the last \<open>*\<close> and the next place to try,
  and goes back there on a mismatch. \<open>wmatch\<close> is the usual recursive definition of matching; the
  property is that the search returns on all strings and decides \<open>wmatch\<close>.
\<close>

abbreviation STAR :: u8 where "STAR \<equiv> 42"
abbreviation QUESTION :: u8 where "QUESTION \<equiv> 63"

text \<open>The three loops. The result of the first is \<open>None\<close> when it returns 0, the result of the
  second is \<open>None\<close> when it returns 1.\<close>

partial_function (option) wild_head :: "mem \<Rightarrow> ptr \<Rightarrow> ptr \<Rightarrow> (ptr \<times> ptr) option option" where
  "wild_head m string wild =
     (if m string \<noteq> 0 \<and> m wild \<noteq> STAR then
        if m wild \<noteq> m string \<and> m wild \<noteq> QUESTION then Some None
        else wild_head m (string + 1) (wild + 1)
      else Some (Some (string, wild)))"

partial_function (option) wild_body :: "mem \<Rightarrow> ptr \<Rightarrow> ptr \<Rightarrow> ptr \<Rightarrow> ptr \<Rightarrow> ptr option option" where
  "wild_body m string wild mp cp =
     (if m string \<noteq> 0 then
        if m wild = STAR then
          if m (wild + 1) = 0 then Some None
          else wild_body m string (wild + 1) (wild + 1) (string + 1)
        else if m wild = m string \<or> m wild = QUESTION then wild_body m (string + 1) (wild + 1) mp cp
        else wild_body m cp mp mp (cp + 1)
      else Some (Some wild))"

partial_function (option) wild_tail :: "mem \<Rightarrow> ptr \<Rightarrow> ptr option" where
  "wild_tail m wild = (if m wild = STAR then wild_tail m (wild + 1) else Some wild)"

definition wildcmp :: "mem \<Rightarrow> ptr \<Rightarrow> ptr \<Rightarrow> u32 option" where
  "wildcmp m string wild =
     do {
       h \<leftarrow> wild_head m string wild;
       case h of
         None \<Rightarrow> Some 0
       | Some (string, wild) \<Rightarrow>
           do {
             b \<leftarrow> wild_body m string wild 0 0;
             case b of
               None \<Rightarrow> Some 1
             | Some wild \<Rightarrow> do { wild \<leftarrow> wild_tail m wild; Some (if m wild = 0 then 1 else 0) }
           }
     }"

section \<open>The specification\<close>

lemma ex_nat_split: "(\<exists>k. P k) \<longleftrightarrow> P 0 \<or> (\<exists>k. P (Suc k))"
  by (metis not0_implies_Suc)

fun wmatch :: "u8 list \<Rightarrow> u8 list \<Rightarrow> bool" where
  "wmatch [] s \<longleftrightarrow> s = []"
| "wmatch (c # w) [] \<longleftrightarrow> c = STAR \<and> wmatch w []"
| "wmatch (c # w) (x # s) \<longleftrightarrow>
     (if c = STAR then wmatch w (x # s) \<or> wmatch (c # w) s else (c = QUESTION \<or> c = x) \<and> wmatch w s)"

lemma wmatch_star: "wmatch (STAR # w) s \<longleftrightarrow> (\<exists>k. wmatch w (drop k s))"
proof (induction s)
  case (Cons x s)
  have "(\<exists>k. wmatch w (drop k (x # s))) \<longleftrightarrow> wmatch w (x # s) \<or> (\<exists>k. wmatch w (drop k s))"
    by (metis drop0 drop_Suc_Cons not0_implies_Suc)
  with Cons show ?case by simp
qed simp

text \<open>A part of the pattern without \<open>*\<close> matches exactly as many characters.\<close>

lemma wmatch_plain: "wmatch (u @ w) s \<Longrightarrow> STAR \<notin> set u \<Longrightarrow> wmatch w (drop (length u) s)"
proof (induction u arbitrary: s)
  case (Cons c u)
  then show ?case by (cases s) auto
qed simp

section \<open>The loops on strings\<close>

lemma wild_head_cstr:
  assumes "cstr m p S" "cstr m q W" "i \<le> length S" "i \<le> length W"
  shows "wild_head m (p + i) (q + i) = Some None \<and> \<not> wmatch (drop i W) (drop i S) \<or>
    (\<exists>j. wild_head m (p + i) (q + i) = Some (Some (p + j, q + j)) \<and> j \<le> length S \<and> j \<le> length W \<and>
      (j = length S \<or> j < length W \<and> W ! j = STAR) \<and>
      (wmatch (drop i W) (drop i S) \<longleftrightarrow> wmatch (drop j W) (drop j S)))"
  using assms(3,4)
proof (induction "length S - i" arbitrary: i)
  case 0
  then have "i = length S" by simp
  moreover from this have "wild_head m (p + i) (q + i) = Some (Some (p + i, q + i))"
    using cstr_end [OF assms(1)] by (subst wild_head.simps) simp
  ultimately show ?case using 0 by blast
next
  case (Suc d)
  then have i: "i < length S" by simp
  then have s: "m (p + i) = S ! i" "S ! i \<noteq> 0" "drop i S = S ! i # drop (i + 1) S"
    using cstr_at [OF assms(1)] cstr_nz [OF assms(1)] by (simp_all add: Cons_nth_drop_Suc)
  show ?case
  proof (cases "i < length W")
    case False
    then have "m (q + i) = 0" "drop i W = []" using Suc.prems cstr_end [OF assms(2)] by auto
    then show ?thesis using s by (subst wild_head.simps) simp
  next
    case True
    then have w: "m (q + i) = W ! i" "drop i W = W ! i # drop (i + 1) W"
      using cstr_at [OF assms(2)] by (simp_all add: Cons_nth_drop_Suc)
    consider "W ! i = STAR" | "W ! i \<noteq> STAR" "W ! i = S ! i \<or> W ! i = QUESTION"
      | "W ! i \<noteq> STAR" "W ! i \<noteq> S ! i" "W ! i \<noteq> QUESTION" by blast
    then show ?thesis
    proof cases
      case 1
      with w(1) have "wild_head m (p + i) (q + i) = Some (Some (p + i, q + i))"
        by (subst wild_head.simps) simp
      with 1 True Suc.prems show ?thesis by blast
    next
      case 2
      then have "wild_head m (p + i) (q + i) = wild_head m (p + (i + 1)) (q + (i + 1))"
        using s w by (subst wild_head.simps) auto
      moreover have "wmatch (drop i W) (drop i S) \<longleftrightarrow> wmatch (drop (i + 1) W) (drop (i + 1) S)"
        using 2 s w by auto
      ultimately show ?thesis using Suc.hyps(1) [of "i + 1"] Suc.hyps(2) i True by simp
    next
      case 3
      then show ?thesis using s w by (subst wild_head.simps) auto
    qed
  qed
qed

text \<open>The answer still open in the second loop: the rest of the pattern matches the rest of the
  string, or the pattern after the last \<open>*\<close> matches from a later place.\<close>

definition open_match :: "u8 list \<Rightarrow> u8 list \<Rightarrow> nat \<Rightarrow> nat \<Rightarrow> nat \<Rightarrow> nat \<Rightarrow> bool" where
  "open_match W S i j a b \<longleftrightarrow> wmatch (drop j W) (drop i S) \<or> (\<exists>k. wmatch (drop a W) (drop (b + k) S))"

definition body_ok :: "u8 list \<Rightarrow> ptr \<Rightarrow> bool \<Rightarrow> ptr option option \<Rightarrow> bool" where
  "body_ok W q R r \<longleftrightarrow> r = Some None \<and> R \<or>
     (\<exists>j\<le>length W. r = Some (Some (q + j)) \<and> (R \<longleftrightarrow> wmatch (drop j W) []))"

definition scanned :: "u8 list \<Rightarrow> nat \<Rightarrow> nat \<Rightarrow> nat \<Rightarrow> nat \<Rightarrow> bool" where
  "scanned W i j a b \<longleftrightarrow> a \<le> j \<and> j \<le> length W \<and> b + (j - a) = i + 1 \<and> STAR \<notin> set (take (j - a) (drop a W))"

lemma later_match:
  assumes "scanned W i j a b" "wmatch (drop a W) (drop (b + k) S)"
  shows "wmatch (drop j W) (drop (i + 1 + k) S)"
proof -
  have "drop a W = take (j - a) (drop a W) @ drop j W"
    using assms(1) by (metis append_take_drop_id drop_drop le_add_diff_inverse2 scanned_def)
  then have "wmatch (drop j W) (drop (length (take (j - a) (drop a W))) (drop (b + k) S))"
    using wmatch_plain assms by (metis scanned_def)
  moreover have "length (take (j - a) (drop a W)) = j - a" using assms(1) by (auto simp: scanned_def min_def)
  moreover have "j - a + (b + k) = i + 1 + k" using assms(1) unfolding scanned_def by linarith
  ultimately show ?thesis by (metis add.commute drop_drop)
qed

lemma open_end: "scanned W (length S) j a b \<Longrightarrow> open_match W S (length S) j a b \<longleftrightarrow> wmatch (drop j W) []"
  using later_match [of W "length S" j a b _ S] by (auto simp: open_match_def)

lemma open_start: "open_match W S i j j (i + 1) \<longleftrightarrow> wmatch (STAR # drop j W) (drop i S)"
proof -
  have "(\<exists>k. wmatch (drop j W) (drop k (drop i S)))
      \<longleftrightarrow> wmatch (drop j W) (drop i S) \<or> (\<exists>k. wmatch (drop j W) (drop (i + 1 + k) S))"
    using ex_nat_split [of "\<lambda>k. wmatch (drop j W) (drop k (drop i S))"] by (simp add: add.commute)
  then show ?thesis by (simp add: open_match_def wmatch_star)
qed

lemma open_star:
  assumes "scanned W i j a b" "drop j W = STAR # drop (j + 1) W"
  shows "open_match W S i j a b \<longleftrightarrow> open_match W S i (j + 1) (j + 1) (i + 1)"
proof -
  have "wmatch (drop j W) (drop i S)" if "wmatch (drop a W) (drop (b + k) S)" for k
  proof -
    from later_match [OF assms(1) that] have "wmatch (STAR # drop (j + 1) W) (drop (i + 1 + k) S)"
      unfolding assms(2) .
    then obtain l where "wmatch (drop (j + 1) W) (drop l (drop (i + 1 + k) S))"
      unfolding wmatch_star by blast
    then have "wmatch (drop (j + 1) W) (drop (l + (1 + k)) (drop i S))" by (simp add: ac_simps)
    then show ?thesis unfolding assms(2) wmatch_star by blast
  qed
  then show ?thesis using open_start [of W S i "j + 1"] assms(2) by (auto simp: open_match_def)
qed

lemma open_back:
  assumes "\<not> wmatch (drop j W) (drop i S)"
  shows "open_match W S i j a b \<longleftrightarrow> open_match W S b a a (b + 1)"
proof -
  have "(\<exists>k. wmatch (drop a W) (drop (b + k) S))
      \<longleftrightarrow> wmatch (drop a W) (drop b S) \<or> (\<exists>k. wmatch (drop a W) (drop (b + 1 + k) S))"
    using ex_nat_split [of "\<lambda>k. wmatch (drop a W) (drop (b + k) S)"] by simp
  with assms show ?thesis by (simp add: open_match_def)
qed

lemma wild_body_cstr:
  assumes "cstr m p S" "cstr m q W" "scanned W i j a b" "i \<le> length S"
  shows "body_ok W q (open_match W S i j a b) (wild_body m (p + i) (q + j) (q + a) (p + b))"
  using assms(3,4)
proof (induction "(length W - a, length S + 1 - b, length S - i)" arbitrary: i j a b
    rule: wf_induct_rule [OF wf_lex_prod [OF wf_less_than wf_lex_prod [OF wf_less_than wf_less_than]]])
  case 1
  note sc = \<open>scanned W i j a b\<close>
  show ?case
  proof (cases "i = length S")
    case True
    then have "wild_body m (p + i) (q + j) (q + a) (p + b) = Some (Some (q + j))"
      using cstr_end [OF assms(1)] by (subst wild_body.simps) simp
    moreover have "j \<le> length W" using sc by (simp add: scanned_def)
    ultimately show ?thesis using open_end [of W S j a b] sc True by (auto simp: body_ok_def)
  next
    case False
    then have i: "i < length S" using 1(3) by simp
    then have s: "m (p + i) = S ! i" "S ! i \<noteq> 0" "drop i S = S ! i # drop (i + 1) S"
      using cstr_at [OF assms(1)] cstr_nz [OF assms(1)] by (simp_all add: Cons_nth_drop_Suc)
    have b: "b \<le> length S" using sc i by (auto simp: scanned_def)
    have w: "j < length W \<and> drop j W = m (q + j) # drop (j + 1) W \<or> j = length W \<and> m (q + j) = 0 \<and> drop j W = []"
      using sc cstr_at [OF assms(2), of j] cstr_end [OF assms(2)]
      by (auto simp: scanned_def Cons_nth_drop_Suc le_less)
    consider (star) "m (q + j) = STAR" | (one) "m (q + j) \<noteq> STAR" "m (q + j) = S ! i \<or> m (q + j) = QUESTION"
      | (miss) "m (q + j) \<noteq> STAR" "m (q + j) \<noteq> S ! i" "m (q + j) \<noteq> QUESTION" by blast
    then show ?thesis
    proof cases
      case star
      with w have j: "j < length W" "drop j W = STAR # drop (j + 1) W" by auto
      note eq = open_star [OF sc j(2), of S]
      show ?thesis
      proof (cases "j + 1 = length W")
        case True
        then have "m (q + j + 1) = 0" using cstr_end [OF assms(2)] by (metis add.assoc)
        then have "wild_body m (p + i) (q + j) (q + a) (p + b) = Some None"
          using star s by (subst wild_body.simps) simp
        moreover have "open_match W S i j a b" using True j(2) wmatch_star [of "[]" "drop i S"]
          by (auto simp: open_match_def intro: exI [of _ "length S"])
        ultimately show ?thesis by (simp add: body_ok_def)
      next
        case False
        then have nz: "m (q + j + 1) \<noteq> 0" using cstr_zero_iff [OF assms(2), of "j + 1"] j(1) by (simp add: add.assoc)
        have "wild_body m (p + i) (q + j) (q + a) (p + b)
            = wild_body m (p + i) (q + (j + 1)) (q + (j + 1)) (p + (i + 1))"
          using star s nz by (subst wild_body.simps) (simp add: add.assoc)
        moreover have "length W - (j + 1) < length W - a" "scanned W i (j + 1) (j + 1) (i + 1)" using sc j(1) by (auto simp: scanned_def intro: diff_less_mono2)
        ultimately show ?thesis using 1(1) [where a = "j + 1" and b = "i + 1" and i = i and j = "j + 1"] 1(3) eq j(1)
          by (auto simp: in_lex_prod)
      qed
    next
      case one
      with w s(2) have j: "j < length W" "drop j W = m (q + j) # drop (j + 1) W" by auto
      have "wild_body m (p + i) (q + j) (q + a) (p + b) = wild_body m (p + (i + 1)) (q + (j + 1)) (q + a) (p + b)"
        using one s by (subst wild_body.simps) auto
      moreover have "scanned W (i + 1) (j + 1) a b"
      proof -
        have e: "j + 1 - a = Suc (j - a)" "a + (j - a) = j" using sc by (auto simp: scanned_def)
        have "take (Suc (j - a)) (drop a W) = take (j - a) (drop a W) @ [W ! j]"
          using j(1) e sc by (subst take_Suc_conv_app_nth) (auto simp: scanned_def)
        moreover have "W ! j \<noteq> STAR" using one(1) cstr_at [OF assms(2) j(1)] by simp
        ultimately show ?thesis using sc e j(1) by (auto simp: scanned_def)
      qed
      moreover have "open_match W S i j a b \<longleftrightarrow> open_match W S (i + 1) (j + 1) a b"
        using one s(3) j(2) by (auto simp: open_match_def)
      ultimately show ?thesis using 1(1) [where a = a and b = b and i = "i + 1" and j = "j + 1"] i by (auto simp: in_lex_prod)
    next
      case miss
      have "wild_body m (p + i) (q + j) (q + a) (p + b) = wild_body m (p + b) (q + a) (q + a) (p + (b + 1))"
        using miss s by (subst wild_body.simps) (simp add: add.assoc)
      moreover have "scanned W b a a (b + 1)" using sc by (auto simp: scanned_def)
      moreover have "\<not> wmatch (drop j W) (drop i S)" using miss s(3) w by auto
      from open_back [OF this] have "open_match W S i j a b \<longleftrightarrow> open_match W S b a a (b + 1)" .
      ultimately show ?thesis using 1(1) [where a = a and b = "b + 1" and i = b and j = a] b Suc_diff_le [OF b] by (auto simp: in_lex_prod)
    qed
  qed
qed

lemma wild_tail_cstr:
  assumes "cstr m q W" "j \<le> length W"
  shows "\<exists>k. wild_tail m (q + j) = Some k \<and> (m k = 0 \<longleftrightarrow> wmatch (drop j W) [])"
  using assms(2)
proof (induction "length W - j" arbitrary: j)
  case 0
  then show ?case using cstr_end [OF assms(1)] by (subst wild_tail.simps) auto
next
  case (Suc d)
  then have j: "j < length W" by simp
  then have w: "m (q + j) = W ! j" "W ! j \<noteq> 0" "drop j W = W ! j # drop (j + 1) W"
    using cstr_at [OF assms(1)] cstr_nz [OF assms(1)] by (simp_all add: Cons_nth_drop_Suc)
  show ?case
  proof (cases "W ! j = STAR")
    case True
    then have "wild_tail m (q + j) = wild_tail m (q + (j + 1))" using w by (subst wild_tail.simps) simp
    then show ?thesis using Suc.hyps(1) [of "j + 1"] Suc.hyps(2) j True w(3) by simp
  next
    case False
    then show ?thesis using w by (subst wild_tail.simps) simp
  qed
qed

section \<open>Property\<close>

text \<open>C14: \<open>wildcmp\<close> decides wildcard matching. On every string and every pattern the search with
  backtracking to the last \<open>*\<close> returns, and it returns 1 exactly when the pattern matches.\<close>

theorem wildcmp_matches:
  assumes "cstr m p S" and "cstr m q W"
  shows "wildcmp m p q = Some (if wmatch W S then 1 else 0)"
proof -
  have head: "wild_head m p q = Some None \<and> \<not> wmatch W S \<or>
    (\<exists>j. wild_head m p q = Some (Some (p + j, q + j)) \<and> j \<le> length S \<and> j \<le> length W \<and>
      (j = length S \<or> j < length W \<and> W ! j = STAR) \<and> (wmatch W S \<longleftrightarrow> wmatch (drop j W) (drop j S)))"
    using wild_head_cstr [OF assms, of 0] by simp
  have tail: "(case b of None \<Rightarrow> Some 1
      | Some wild \<Rightarrow> do { wild \<leftarrow> wild_tail m wild; Some (if m wild = 0 then 1 else 0) }) = Some (if R then 1 else 0 :: u32)"
    if "body_ok W q R (Some b)" for b R
    using that wild_tail_cstr [OF assms(2)] by (fastforce simp: body_ok_def)
  have body: "\<exists>b. wild_body m (p + j) (q + j) 0 0 = Some b \<and> body_ok W q (wmatch (drop j W) (drop j S)) (Some b)"
    if j: "j \<le> length S" "j \<le> length W" "j = length S \<or> j < length W \<and> W ! j = STAR" for j
  proof (cases "j = length S")
    case True
    then have "wild_body m (p + j) (q + j) 0 0 = Some (Some (q + j))"
      using cstr_end [OF assms(1)] by (subst wild_body.simps) simp
    then show ?thesis using j True by (auto simp: body_ok_def)
  next
    case False
    then have js: "j < length S" "j < length W" "W ! j = STAR" using j by auto
    then have w: "m (p + j) \<noteq> 0" "m (q + j) = STAR" "drop j W = STAR # drop (j + 1) W"
      using cstr_zero_iff [OF assms(1), of j] cstr_at [OF assms(2), of j] by (auto simp: Cons_nth_drop_Suc [symmetric])
    show ?thesis
    proof (cases "j + 1 = length W")
      case True
      then have "m (q + j + 1) = 0" using cstr_end [OF assms(2)] by (metis add.assoc)
      then have "wild_body m (p + j) (q + j) 0 0 = Some None" using w by (subst wild_body.simps) simp
      moreover have "wmatch (drop j W) (drop j S)" using True w(3) wmatch_star [of "[]" "drop j S"]
        by (auto intro: exI [of _ "length S"])
      ultimately show ?thesis by (simp add: body_ok_def)
    next
      case f: False
      then have "m (q + j + 1) \<noteq> 0" using cstr_zero_iff [OF assms(2), of "j + 1"] js by (simp add: add.assoc)
      then have "wild_body m (p + j) (q + j) 0 0 = wild_body m (p + j) (q + (j + 1)) (q + (j + 1)) (p + (j + 1))"
        using w by (subst wild_body.simps) (simp add: add.assoc)
      moreover have "body_ok W q (open_match W S j (j + 1) (j + 1) (j + 1))
          (wild_body m (p + j) (q + (j + 1)) (q + (j + 1)) (p + (j + 1)))"
        by (rule wild_body_cstr [OF assms]) (use js in \<open>auto simp: scanned_def\<close>)
      ultimately show ?thesis using open_start [of W S j "j + 1"] w(3) by (auto simp: body_ok_def)
    qed
  qed
  from head show ?thesis
  proof
    assume "\<exists>j. wild_head m p q = Some (Some (p + j, q + j)) \<and> j \<le> length S \<and> j \<le> length W \<and>
      (j = length S \<or> j < length W \<and> W ! j = STAR) \<and> (wmatch W S \<longleftrightarrow> wmatch (drop j W) (drop j S))"
    then obtain j where j: "wild_head m p q = Some (Some (p + j, q + j))" "j \<le> length S" "j \<le> length W"
      "j = length S \<or> j < length W \<and> W ! j = STAR" "wmatch W S \<longleftrightarrow> wmatch (drop j W) (drop j S)" by blast
    obtain b where "wild_body m (p + j) (q + j) 0 0 = Some b" "body_ok W q (wmatch (drop j W) (drop j S)) (Some b)"
      using body [OF j(2-4)] by blast
    then show ?thesis using tail [of _ b] j(1,5) by (simp add: wildcmp_def)
  qed (simp add: wildcmp_def)
qed

definition demo_glob :: mem where
  "demo_glob = (\<lambda>_. 0)(100 := 97, 101 := 98, 102 := 98, 103 := 99, 200 := 42, 201 := 98, 202 := 63)"

theorem wildcmp_matches_witness:
  "wildcmp demo_glob 100 200 = Some (if wmatch [42, 98, 63] [97, 98, 98, 99] then 1 else 0)"
  by (rule wildcmp_matches) (simp_all add: cstr_Cons demo_glob_def)

end
