(* ===== verification/Str_Num.thy ===== *)
theory Str_Num
  imports Str_Text
begin

text \<open>
  Numbers as text (core/common/lib/str.cpp): \<open>_strrev\<close>, \<open>str2i\<close>, \<open>_itoa\<close>, \<open>_uitoa\<close> and \<open>_ulltoa\<close>.
  The three conversions share their loop, which divides an unsigned number by the base; its value
  is a natural number here, as division and remainder cannot overflow. \<open>None\<close> is a base of 0 (a
  division fault), a base whose remainders leave the table of digits, and the negation of the
  smallest \<open>_s32\<close>. \<open>numeral_text\<close> is the specification: the digits of a number in a base.
\<close>

section \<open>Operations\<close>

function strrev_loop :: "mem \<Rightarrow> ptr \<Rightarrow> ptr \<Rightarrow> mem" where
  "strrev_loop m p1 p2 =
     (if p1 < p2 then
        let m = m(p1 := m p1 XOR m p2);
            m = m(p2 := m p2 XOR m p1);
            m = m(p1 := m p1 XOR m p2)
        in strrev_loop m (p1 + 1) (p2 - 1)
      else m)"
  by pat_completeness auto
termination
  by (relation "measure (\<lambda>(m, p1, p2). p2 - p1)") auto

definition strrev :: "mem \<Rightarrow> ptr \<Rightarrow> mem option" where
  "strrev m str =
     (if str = 0 \<or> m str = 0 then Some m
      else do { l \<leftarrow> str_len m str; Some (strrev_loop m str (str + unat l - 1)) })"

fun str2i_loop :: "mem \<Rightarrow> ptr \<Rightarrow> nat \<Rightarrow> u32 \<Rightarrow> u32 \<Rightarrow> u32" where
  "str2i_loop m str 0 r mul = r"
| "str2i_loop m str (Suc k) r mul =
     (let c = m (str + k)
      in if 48 \<le> c \<and> c \<le> 57 then str2i_loop m str k (r + (ucast c - 0x30) * mul) (mul * 10)
         else str2i_loop m str k r mul)"

text \<open>The index is an \<open>_s8\<close>: a size above 128 makes it negative and the result 0.\<close>

definition str2i :: "mem \<Rightarrow> ptr \<Rightarrow> int \<Rightarrow> u32" where
  "str2i m str sz =
     (let i = sint (word_of_int (sz - 1) :: 8 word)
      in if 0 \<le> i then str2i_loop m str (nat i + 1) 0 1 else 0)"

definition digits :: "u8 list" where
  "digits = map word_of_nat [48..<58] @ map word_of_nat [97..<123] @ [0]"

partial_function (option) utoa_loop :: "mem \<Rightarrow> ptr \<Rightarrow> nat \<Rightarrow> u32 \<Rightarrow> nat \<Rightarrow> (u32 \<times> mem) option" where
  "utoa_loop m s b i n =
     (if b = 0 \<or> length digits \<le> n mod b then None
      else
        let m = m(s + unat i := digits ! (n mod b))
        in if 0 < n div b then utoa_loop m s b (i + 1) (n div b) else Some (i + 1, m))"

definition uitoa :: "mem \<Rightarrow> u32 \<Rightarrow> ptr \<Rightarrow> u8 \<Rightarrow> mem option" where
  "uitoa m n s b = do { (i, m) \<leftarrow> utoa_loop m s (unat b) 0 (unat n); strrev (m(s + unat i := 0)) s }"

definition ulltoa :: "mem \<Rightarrow> u64 \<Rightarrow> ptr \<Rightarrow> u8 \<Rightarrow> mem option" where
  "ulltoa m n s b = do { (i, m) \<leftarrow> utoa_loop m s (unat b) 0 (unat n); strrev (m(s + unat i := 0)) s }"

definition itoa :: "mem \<Rightarrow> 32 word \<Rightarrow> ptr \<Rightarrow> u8 \<Rightarrow> mem option" where
  "itoa m n s b =
     (if sint n = - (2 ^ 31) then None
      else do {
        (i, m) \<leftarrow> utoa_loop m s (unat b) 0 (nat \<bar>sint n\<bar>);
        let (i, m) = (if sint n < 0 then (i + 1, m(s + unat i := 45)) else (i, m));
        strrev (m(s + unat i := 0)) s
      })"

declare strrev_loop.simps [simp del]

section \<open>Reversal\<close>

lemma xor_swap:
  assumes "p1 \<noteq> (p2 :: ptr)"
  shows "(let m = m(p1 := m p1 XOR m p2); m = m(p2 := m p2 XOR m p1) in m(p1 := m p1 XOR m p2))
    = m(p1 := m p2, p2 := m p1 :: u8)"
proof -
  have "m p2 XOR (m p1 XOR m p2) = m p1" "(m p1 XOR m p2) XOR (m p2 XOR (m p1 XOR m p2)) = m p2"
    by (auto simp: bit_eq_iff bit_xor_iff)
  then show ?thesis using assms by (auto simp: Let_def fun_eq_iff)
qed

lemma strrev_loop_eq: "strrev_loop m p1 p2 = (\<lambda>a. if p1 \<le> a \<and> a \<le> p2 then m (p1 + p2 - a) else m a)"
proof (induction "p2 - p1" arbitrary: m p1 p2 rule: less_induct)
  case less
  show ?case
  proof (cases "p1 < p2")
    case True
    let ?m = "m(p1 := m p2, p2 := m p1)"
    have "strrev_loop m p1 p2 = strrev_loop ?m (p1 + 1) (p2 - 1)"
      using True xor_swap [of p1 p2 m] by (subst strrev_loop.simps) (simp add: Let_def)
    also have "\<dots> = (\<lambda>a. if p1 + 1 \<le> a \<and> a \<le> p2 - 1 then ?m (p1 + 1 + (p2 - 1) - a) else ?m a)"
      by (rule less) (use True in simp)
    also have "\<dots> = (\<lambda>a. if p1 \<le> a \<and> a \<le> p2 then m (p1 + p2 - a) else m a)"
      using True by (auto simp: fun_eq_iff)
    finally show ?thesis .
  next
    case False
    then have "p1 + p2 - a = a" if "p1 \<le> a" "a \<le> p2" for a using that by simp
    then show ?thesis using False by (subst strrev_loop.simps) (auto simp: fun_eq_iff)
  qed
qed

lemma strrev_cstr:
  assumes "cstr m p s" "p \<noteq> 0"
  shows "\<exists>m'. strrev m p = Some m' \<and> cstr m' p (rev s) \<and> (\<forall>a. a < p \<or> p + length s \<le> a \<longrightarrow> m' a = m a)"
proof (cases "s = []")
  case True
  then show ?thesis using assms by (simp add: strrev_def)
next
  case False
  let ?e = "p + length s - 1"
  let ?m = "strrev_loop m p ?e"
  have nz: "m p \<noteq> 0" using cstr_zero_iff [OF assms(1), of 0] False by simp
  have r: "strrev m p = Some ?m"
    using nz assms(2) unat_len [OF assms(1)] by (simp add: strrev_def str_len_cstr [OF assms(1)])
  have at: "?m (p + i) = rev s ! i" if "i < length s" for i
  proof -
    have "?m (p + i) = m (p + (length s - 1 - i))"
      using that by (auto simp: strrev_loop_eq intro!: arg_cong [where f = m])
    then show ?thesis using cstr_at [OF assms(1), of "length s - 1 - i"] that by (simp add: rev_nth)
  qed
  have "rev s ! i \<noteq> 0" if "i < length s" for i
    using cstr_nz [OF assms(1), of "length s - 1 - i"] that by (simp add: rev_nth)
  moreover have out: "?m a = m a" if "a < p \<or> p + length s \<le> a" for a
  proof -
    have "\<not> (p \<le> a \<and> a \<le> ?e)" using that False by (cases s) auto
    then show ?thesis unfolding strrev_loop_eq by (rule if_not_P)
  qed
  ultimately have "cstr ?m p (rev s)" using at cstr_end [OF assms(1)] cstr_len [OF assms(1)] by (simp add: cstr_def)
  then show ?thesis using r out by blast
qed

section \<open>Digits\<close>

function digs :: "nat \<Rightarrow> nat \<Rightarrow> nat list" where
  "digs b n = (if b \<le> 1 \<or> n < b then [n] else digs b (n div b) @ [n mod b])"
  by pat_completeness auto
termination
  by (relation "measure snd") auto

declare digs.simps [simp del]

definition numeral_text :: "nat \<Rightarrow> nat \<Rightarrow> u8 list" where
  "numeral_text b n = map (\<lambda>k. digits ! k) (digs b n)"

lemma digs_lt: "2 \<le> b \<Longrightarrow> d \<in> set (digs b n) \<Longrightarrow> d < b"
proof (induction b n rule: digs.induct)
  case (1 b n)
  show ?case
  proof (cases "n < b")
    case True
    then have "digs b n = [n]" by (subst digs.simps) simp
    with 1 True show ?thesis by simp
  next
    case False
    then have "digs b n = digs b (n div b) @ [n mod b]" using 1(2) by (subst digs.simps) simp
    with 1 False show ?thesis by auto
  qed
qed

lemma digs_length: "2 \<le> b \<Longrightarrow> n < b ^ k \<Longrightarrow> 0 < k \<Longrightarrow> length (digs b n) \<le> k"
proof (induction k arbitrary: n)
  case (Suc k)
  show ?case
  proof (cases "n < b")
    case True
    then show ?thesis by (subst digs.simps) simp
  next
    case False
    then have "0 < k" using Suc.prems by (cases k) auto
    moreover have "n div b < b ^ k" using Suc.prems by (simp add: less_mult_imp_div_less mult.commute)
    ultimately show ?thesis using Suc False by (subst digs.simps) simp
  qed
qed simp

lemma digs_pos: "0 < length (digs b n)"
  by (subst digs.simps) simp

lemma digs_short: "2 \<le> b \<Longrightarrow> n < 2 ^ 64 \<Longrightarrow> length (digs b n) \<le> 64"
proof (rule digs_length)
  show "n < b ^ 64" if "2 \<le> b" "n < 2 ^ 64" using power_mono [OF that(1), of 64] that(2) by linarith
qed simp_all

lemma length_digits: "length digits = 37"
  by (simp add: digits_def)

lemma digit_decimal: "k < 10 \<Longrightarrow> digits ! k = word_of_nat (48 + k)"
  by (simp add: digits_def nth_append del: upt_rec_numeral)

lemma digit_nz: "k < 36 \<Longrightarrow> digits ! k \<noteq> 0"
proof -
  assume k: "k < 36"
  have "\<exists>c. 0 < c \<and> c < 256 \<and> digits ! k = word_of_nat c"
  proof (cases "k < 10")
    case True
    then show ?thesis by (intro exI [of _ "48 + k"]) (simp add: digit_decimal)
  next
    case False
    then have "k - 10 < 26" using k by simp
    then show ?thesis using False by (intro exI [of _ "97 + (k - 10)"]) (simp add: digits_def nth_append del: upt_rec_numeral)
  qed
  then show ?thesis by (auto simp: word_unat_eq_iff unat_of_nat take_bit_nat_eq_self)
qed

text \<open>The loop writes the digits of \<open>n\<close>, the last one first.\<close>

lemma utoa_loop_eq:
  assumes "2 \<le> b" "b \<le> 36" "unat i + length (digs b n) < 2 ^ 32"
  shows "utoa_loop m s b i n = Some (word_of_nat (unat i + length (digs b n)),
    \<lambda>a. if s + unat i \<le> a \<and> a < s + unat i + length (digs b n)
        then rev (numeral_text b n) ! (a - s - unat i) else m a)"
  using assms(3)
proof (induction n arbitrary: i m rule: less_induct)
  case (less n)
  have ok: "\<not> (b = 0 \<or> length digits \<le> n mod b)"
    using assms(1,2) mod_less_divisor [of b n] unfolding length_digits by linarith
  have i1: "unat (i + 1) = unat i + 1" using less.prems digs_pos [of b n] by (intro unat_inc_u32) linarith
  let ?m = "m(s + unat i := digits ! (n mod b))"
  show ?case
  proof (cases "n < b")
    case True
    then have d: "digs b n = [n]" by (subst digs.simps) simp
    have "utoa_loop m s b i n = Some (i + 1, ?m)"
      using ok True by (subst utoa_loop.simps) (simp add: Let_def)
    moreover have "i + 1 = word_of_nat (unat i + 1)" using i1 by (metis word_of_nat_unat)
    ultimately show ?thesis using d True by (auto simp: fun_eq_iff numeral_text_def)
  next
    case False
    then have nb: "n div b < n" "0 < n div b" using assms(1) by (auto simp: div_greater_zero_iff)
    have d: "digs b n = digs b (n div b) @ [n mod b]" using False assms(1) by (subst digs.simps) simp
    have "utoa_loop m s b i n = utoa_loop ?m s b (i + 1) (n div b)"
      using ok nb by (subst utoa_loop.simps) (simp add: Let_def)
    also have "\<dots> = Some (word_of_nat (unat (i + 1) + length (digs b (n div b))),
        \<lambda>a. if s + unat (i + 1) \<le> a \<and> a < s + unat (i + 1) + length (digs b (n div b))
            then rev (numeral_text b (n div b)) ! (a - s - unat (i + 1)) else ?m a)"
      by (rule less.IH [OF nb(1)]) (use less.prems d i1 in simp)
    also have "\<dots> = Some (word_of_nat (unat i + length (digs b n)),
        \<lambda>a. if s + unat i \<le> a \<and> a < s + unat i + length (digs b n)
            then rev (numeral_text b n) ! (a - s - unat i) else m a)"
      using d i1 by (auto simp: fun_eq_iff numeral_text_def nth_Cons' Suc_diff_Suc)
    finally show ?thesis .
  qed
qed

lemma numeral_text_simps [simp]: "length (numeral_text b n) = length (digs b n)"
  by (simp add: numeral_text_def)

lemma numeral_text_nz: "2 \<le> b \<Longrightarrow> b \<le> 36 \<Longrightarrow> i < length (digs b n) \<Longrightarrow> numeral_text b n ! i \<noteq> 0"
  using digs_lt [of b "digs b n ! i" n] digit_nz [of "digs b n ! i"] by (simp add: numeral_text_def)


text \<open>What the loop leaves behind, followed by an optional sign and the terminator, is the numeral
  from its end.\<close>

lemma utoa_loop_cstr:
  assumes "2 \<le> b" "b \<le> 36" "n < 2 ^ 64"
  defines "l \<equiv> length (digs b n)"
  shows "\<exists>m1. utoa_loop m s b 0 n = Some (word_of_nat l, m1) \<and> unat (word_of_nat l :: u32) = l \<and> l \<le> 64 \<and>
    unat (word_of_nat l + 1 :: u32) = l + 1 \<and>
    cstr (m1(s + l := 0)) s (rev (numeral_text b n)) \<and>
    cstr (m1(s + l := 45, s + l + 1 := 0)) s (rev (numeral_text b n) @ [45]) \<and>
    (\<forall>a. a < s \<or> s + l \<le> a \<longrightarrow> m1 a = m a)"
proof -
  have l: "l \<le> 64" using digs_short [OF assms(1,3)] by (simp add: l_def)
  let ?m1 = "\<lambda>a. if s \<le> a \<and> a < s + l then rev (numeral_text b n) ! (a - s) else m a"
  have loop: "utoa_loop m s b 0 n = Some (word_of_nat l, ?m1)"
    using utoa_loop_eq [OF assms(1,2), of 0 n m s] l by (simp add: l_def cong: if_cong)
  have u: "unat (word_of_nat l :: u32) = l" using l by (intro unat_of_nat_u32) simp
  have nz: "rev (numeral_text b n) ! i \<noteq> 0" if "i < l" for i
    using that numeral_text_nz [OF assms(1,2), of "l - Suc i" n] by (simp add: rev_nth l_def)
  have len: "length (rev (numeral_text b n)) = l" by (simp add: l_def)
  have "cstr (?m1(s + l := 0)) s (rev (numeral_text b n))" using nz len l by (simp add: cstr_def)
  moreover have "cstr (?m1(s + l := 45, s + l + 1 := 0)) s (rev (numeral_text b n) @ [45])"
    using nz len l by (auto simp: cstr_def nth_append less_Suc_eq)
  moreover have "\<forall>a. a < s \<or> s + l \<le> a \<longrightarrow> ?m1 a = m a" by auto
  moreover have "unat (word_of_nat l + 1 :: u32) = l + 1" using unat_inc_u32 [of "word_of_nat l"] u l by simp
  ultimately show ?thesis using loop u l by blast
qed

lemma utoa_finish:
  assumes "2 \<le> b" "b \<le> 36" "n < 2 ^ 64" "s \<noteq> 0"
  shows "\<exists>m'. do { (i, m) \<leftarrow> utoa_loop m s b 0 n; strrev (m(s + unat i := 0)) s } = Some m' \<and>
    cstr m' s (numeral_text b n) \<and> (\<forall>a. a < s \<or> s + 64 < a \<longrightarrow> m' a = m a)"
proof -
  let ?l = "length (digs b n)"
  obtain m1 where m1: "utoa_loop m s b 0 n = Some (word_of_nat ?l, m1)" "unat (word_of_nat ?l :: u32) = ?l"
    "?l \<le> 64" "cstr (m1(s + ?l := 0)) s (rev (numeral_text b n))" "\<forall>a. a < s \<or> s + ?l \<le> a \<longrightarrow> m1 a = m a"
    using utoa_loop_cstr [OF assms(1-3), of m s] by blast
  from strrev_cstr [OF m1(4) assms(4)] obtain m' where
    "strrev (m1(s + ?l := 0)) s = Some m'" "cstr m' s (numeral_text b n)"
    "\<forall>a. a < s \<or> s + ?l \<le> a \<longrightarrow> m' a = (m1(s + ?l := 0)) a" by auto
  with m1 show ?thesis by auto
qed

lemma uitoa_cstr:
  assumes "2 \<le> unat b" "unat b \<le> 36" "s \<noteq> 0"
  shows "\<exists>m'. uitoa m n s b = Some m' \<and> cstr m' s (numeral_text (unat b) (unat n)) \<and>
    (\<forall>a. a < s \<or> s + 64 < a \<longrightarrow> m' a = m a)"
  using utoa_finish [OF assms(1,2) _ assms(3), of "unat n"] unat_u32_lt [of n] by (simp add: uitoa_def)

lemma ulltoa_cstr:
  assumes "2 \<le> unat b" "unat b \<le> 36" "s \<noteq> 0"
  shows "\<exists>m'. ulltoa m n s b = Some m' \<and> cstr m' s (numeral_text (unat b) (unat n)) \<and>
    (\<forall>a. a < s \<or> s + 64 < a \<longrightarrow> m' a = m a)"
  using utoa_finish [OF assms(1,2) _ assms(3), of "unat n"] unsigned_less [of n] by (simp add: ulltoa_def)

definition int_text :: "nat \<Rightarrow> int \<Rightarrow> u8 list" where
  "int_text b z = (if z < 0 then 45 # numeral_text b (nat \<bar>z\<bar>) else numeral_text b (nat \<bar>z\<bar>))"

lemma itoa_cstr:
  assumes "2 \<le> unat b" "unat b \<le> 36" "s \<noteq> 0" "sint n \<noteq> - (2 ^ 31)"
  shows "\<exists>m'. itoa m n s b = Some m' \<and> cstr m' s (int_text (unat b) (sint n)) \<and>
    (\<forall>a. a < s \<or> s + 65 < a \<longrightarrow> m' a = m a)"
proof -
  let ?k = "nat \<bar>sint n\<bar>"
  let ?l = "length (digs (unat b) ?k)"
  have "\<bar>sint n\<bar> < 2 ^ 64" using sint_ge [of n] sint_lt [of n] by (simp add: abs_less_iff)
  then have k: "?k < 2 ^ 64" by (simp add: nat_less_iff)
  obtain m1 where m1: "utoa_loop m s (unat b) 0 ?k = Some (word_of_nat ?l, m1)" "unat (word_of_nat ?l :: u32) = ?l"
    "?l \<le> 64" "unat (word_of_nat ?l + 1 :: u32) = ?l + 1"
    "cstr (m1(s + ?l := 0)) s (rev (numeral_text (unat b) ?k))"
    "cstr (m1(s + ?l := 45, s + ?l + 1 := 0)) s (rev (numeral_text (unat b) ?k) @ [45])"
    "\<forall>a. a < s \<or> s + ?l \<le> a \<longrightarrow> m1 a = m a"
    using utoa_loop_cstr [OF assms(1,2) k, of m s] by blast
  show ?thesis
  proof (cases "sint n < 0")
    case True
    from strrev_cstr [OF m1(6) assms(3)] obtain m' where
      "strrev (m1(s + ?l := 45, s + ?l + 1 := 0)) s = Some m'" "cstr m' s (45 # numeral_text (unat b) ?k)"
      "\<forall>a. a < s \<or> s + ?l + 1 \<le> a \<longrightarrow> m' a = (m1(s + ?l := 45, s + ?l + 1 := 0)) a" by auto
    with m1(1-4,7) True assms(4) show ?thesis by (auto simp: itoa_def int_text_def)
  next
    case False
    from strrev_cstr [OF m1(5) assms(3)] obtain m' where
      "strrev (m1(s + ?l := 0)) s = Some m'" "cstr m' s (numeral_text (unat b) ?k)"
      "\<forall>a. a < s \<or> s + ?l \<le> a \<longrightarrow> m' a = (m1(s + ?l := 0)) a" by auto
    with m1(1-4,7) False assms(4) show ?thesis by (auto simp: itoa_def int_text_def)
  qed
qed

section \<open>Reading a number back\<close>

lemma sint_of_s8: "- 128 \<le> z \<Longrightarrow> z < 128 \<Longrightarrow> sint (word_of_int z :: 8 word) = z"
  by (simp add: signed_of_int signed_take_bit_int_eq_self)

lemma str2i_loop_digits:
  assumes "\<forall>k<length ds. m (str + k) = word_of_nat (48 + ds ! k) \<and> ds ! k < 10"
  shows "str2i_loop m str (length ds) r mul = r + mul * word_of_nat (foldl (\<lambda>a d. a * 10 + d) 0 ds)"
  using assms
proof (induction ds arbitrary: r mul rule: rev_induct)
  case (snoc d ds)
  have d: "m (str + length ds) = word_of_nat (48 + d)" "d < 10" using snoc.prems by (auto simp: less_Suc_eq nth_append)
  have u: "unat (word_of_nat (48 + d) :: u8) = 48 + d" using d(2) by (simp add: unat_of_nat take_bit_nat_eq_self del: of_nat_add)
  have c: "(48 :: u8) \<le> word_of_nat (48 + d)" "word_of_nat (48 + d) \<le> (57 :: u8)"
    using u d(2) by (simp_all add: word_le_nat_alt del: of_nat_add)
  have v: "ucast (word_of_nat (48 + d) :: u8) - 0x30 = (word_of_nat d :: u32)"
  proof -
    have "(ucast (word_of_nat (48 + d) :: u8) :: u32) = word_of_nat (unat (word_of_nat (48 + d) :: u8))"
      by (simp only: of_nat_unat)
    also have "\<dots> = word_of_nat (48 + d)" by (simp only: u)
    finally show ?thesis by simp
  qed
  have "\<forall>k<length ds. m (str + k) = word_of_nat (48 + ds ! k) \<and> ds ! k < 10"
    using snoc.prems by (auto simp: nth_append less_Suc_eq split: if_splits)
  note IH = snoc.IH [OF this]
  show ?case using c v by (simp add: d(1) IH Let_def algebra_simps del: of_nat_add) (simp add: algebra_simps)
qed simp

lemma digs_value: "foldl (\<lambda>a d. a * 10 + d) 0 (digs 10 n) = n"
proof (induction n rule: less_induct)
  case (less n)
  then show ?case by (subst digs.simps) (auto simp: mult.commute)
qed

lemma str2i_numeral:
  assumes "cstr m s (numeral_text 10 n)" "n < 2 ^ 32"
  shows "str2i m s (int (length (numeral_text 10 n))) = word_of_nat n"
proof -
  let ?l = "length (digs 10 n)"
  have l: "?l \<le> 10" using digs_length [of 10 n 10] assms(2) by simp
  have lt: "d < 10" if "d \<in> set (digs 10 n)" for d using digs_lt [of 10 d n] that by simp
  have at: "\<forall>k<?l. m (s + k) = word_of_nat (48 + digs 10 n ! k) \<and> digs 10 n ! k < 10"
    using cstr_at [OF assms(1)] lt by (auto simp: numeral_text_def digit_decimal)
  have i: "sint (word_of_int (int ?l - 1) :: 8 word) = int ?l - 1"
    using l digs_pos [of 10 n] by (intro sint_of_s8) simp_all
  have "nat (int ?l - 1) + 1 = ?l" using digs_pos [of 10 n] by linarith
  then show ?thesis
    using str2i_loop_digits [OF at, of 0 1] digs_value [of n] i digs_pos [of 10 n] by (simp add: str2i_def Let_def)
qed

section \<open>Properties\<close>

text \<open>C16: Converting a number to decimal text and back gives the number: \<open>_uitoa\<close> with base 10
  leaves a string, and \<open>str2i\<close> of that string and its length returns the number it was made from.\<close>

theorem uitoa_str2i_roundtrip:
  assumes "s \<noteq> 0"
  shows "\<exists>m' t. uitoa m n s 10 = Some m' \<and> cstr m' s t \<and> str2i m' s (int (length t)) = n"
proof -
  obtain m' where m': "uitoa m n s 10 = Some m'" "cstr m' s (numeral_text 10 (unat n))"
    using uitoa_cstr [of 10 s m n] assms by auto
  then show ?thesis using str2i_numeral [OF m'(2)] unat_u32_lt [of n] by fastforce
qed

theorem uitoa_str2i_roundtrip_witness:
  "\<exists>m' t. uitoa (\<lambda>_. 0) 4294967295 100 10 = Some m' \<and> cstr m' 100 t \<and> str2i m' 100 (int (length t)) = 4294967295"
  by (rule uitoa_str2i_roundtrip) simp

text \<open>C34: \<open>_itoa\<close> writes the numeral of every \<open>_s32\<close> but the smallest, in every base from 2 to 36:
  the digits of its absolute value without leading zeros, after a minus sign when it is negative,
  in at most 66 bytes from \<open>s\<close>. For the smallest \<open>_s32\<close> the negation overflows.\<close>

theorem itoa_numeral:
  assumes "2 \<le> unat b" and "unat b \<le> 36" and "s \<noteq> 0"
  shows "if sint n = - (2 ^ 31) then itoa m n s b = None
    else \<exists>m'. itoa m n s b = Some m' \<and> cstr m' s (int_text (unat b) (sint n)) \<and>
      (\<forall>a. a < s \<or> s + 65 < a \<longrightarrow> m' a = m a)"
  using itoa_cstr [OF assms, of n m] by (auto simp: itoa_def)

theorem itoa_numeral_witness:
  "if sint (- 77 :: 32 word) = - (2 ^ 31) then itoa (\<lambda>_. 0) (- 77) 100 16 = None
    else \<exists>m'. itoa (\<lambda>_. 0) (- 77) 100 16 = Some m' \<and> cstr m' 100 (int_text (unat (16 :: u8)) (sint (- 77 :: 32 word))) \<and>
      (\<forall>a. a < 100 \<or> 100 + 65 < a \<longrightarrow> m' a = 0)"
  by (rule itoa_numeral) simp_all

end
