(* ===== verification/Str_Printf.thy ===== *)
theory Str_Printf
  imports Str_Num
begin

text \<open>
  Formatted output (\<open>_vsnprintf\<close> of core/common/lib/str.cpp). The state of the loop over the format
  is the memory, the write position \<open>r\<close>, the flag \<open>t\<close> that a \<open>%\<close> has been read, its position \<open>tp\<close>
  and the arguments that are left; \<open>lb\<close> is the address of the local buffer. Fetching an argument of
  another type than the one passed, or one that was not passed, is \<open>None\<close>. \<open>rend\<close> is the
  specification: the text a format denotes for given arguments.
\<close>

datatype varg = VInt u32 | VLong u64 | VPtr ptr

record vs =
  v_mem :: mem
  v_r :: u32
  v_t :: bool
  v_tp :: u32
  v_args :: "varg list"

text \<open>Copying a string into the buffer at position \<open>r\<close>, cut to what the size leaves.\<close>

definition put_text :: "mem \<Rightarrow> ptr \<Rightarrow> u32 \<Rightarrow> u32 \<Rightarrow> ptr \<Rightarrow> (u32 \<times> mem) option" where
  "put_text m buf bsz r src =
     do {
       k \<leftarrow> str_len m src;
       let k = (if bsz - 1 - r < k then bsz - 1 - r else k);
       let m = mem_cpy m (buf + unat r) src k;
       Some (k, m(buf + unat (r + k) := 0))
     }"

definition put_conv :: "mem \<Rightarrow> ptr \<Rightarrow> u32 \<Rightarrow> u32 \<Rightarrow> ptr \<Rightarrow> bool \<Rightarrow> (u32 \<times> mem) option" where
  "put_conv m buf bsz r src upper =
     do {
       (k, m) \<leftarrow> put_text m buf bsz r src;
       m \<leftarrow> (if upper then toupper m (buf + unat r) else Some m);
       Some (k, m)
     }"

definition conv_number :: "mem \<Rightarrow> u8 \<Rightarrow> ptr \<Rightarrow> varg \<Rightarrow> mem option" where
  "conv_number m c lb a =
     (case a of
        VInt n \<Rightarrow>
          if c = 100 then itoa m n lb 10
          else if c = 117 then uitoa m n lb 10
          else if c = 120 \<or> c = 88 then uitoa m n lb 16
          else None
      | VLong n \<Rightarrow>
          if c = 108 then ulltoa m (ucast (ucast n :: u32)) lb 10
          else if c = 104 \<or> c = 72 then ulltoa m n lb 16
          else if c = 98 then ulltoa m n lb 2
          else None
      | VPtr p \<Rightarrow> None)"

definition is_number :: "u8 \<Rightarrow> bool" where
  "is_number c \<longleftrightarrow> c = 100 \<or> c = 117 \<or> c = 108 \<or> c = 120 \<or> c = 88 \<or> c = 104 \<or> c = 72 \<or> c = 98"

definition vs_conv :: "ptr \<Rightarrow> u32 \<Rightarrow> ptr \<Rightarrow> ptr \<Rightarrow> u32 \<Rightarrow> u8 \<Rightarrow> vs \<Rightarrow> vs option" where
  "vs_conv buf bsz fmt lb i c st =
     (let m = v_mem st; r = v_r st
      in if c = 99 then
           (case v_args st of
              VInt n # as \<Rightarrow> Some (st\<lparr>v_mem := m(buf + unat r := ucast n), v_r := r + 1, v_t := False, v_args := as\<rparr>)
            | _ \<Rightarrow> None)
         else if c = 115 \<or> c = 83 then
           (case v_args st of
              VPtr p # as \<Rightarrow>
                do {
                  (k, m) \<leftarrow> put_conv m buf bsz r p (c = 83);
                  Some (st\<lparr>v_mem := m, v_r := r + k, v_t := False, v_args := as\<rparr>)
                }
            | _ \<Rightarrow> None)
         else if is_number c then
           (case v_args st of
              a # as \<Rightarrow>
                do {
                  m \<leftarrow> conv_number m c lb a;
                  (k, m) \<leftarrow> put_conv m buf bsz r lb (c = 88 \<or> c = 72);
                  Some (st\<lparr>v_mem := m, v_r := r + k, v_t := False, v_args := as\<rparr>)
                }
            | [] \<Rightarrow> None)
         else
           let m = m(buf + unat r := m (fmt + unat (v_tp st)));
               r = r + 1;
               m = m(buf + unat r := m (fmt + unat i));
               r = r + 1
           in Some (st\<lparr>v_mem := m(buf + unat r := 0), v_r := r, v_t := False\<rparr>))"

definition vs_step :: "ptr \<Rightarrow> u32 \<Rightarrow> ptr \<Rightarrow> ptr \<Rightarrow> u32 \<Rightarrow> vs \<Rightarrow> vs option" where
  "vs_step buf bsz fmt lb i st =
     (let m = v_mem st; r = v_r st; c = m (fmt + unat i)
      in if v_t st then vs_conv buf bsz fmt lb i c st
         else if c = 37 then Some (st\<lparr>v_t := True, v_tp := i\<rparr>)
         else
           let m = m(buf + unat r := c); r = r + 1
           in Some (st\<lparr>v_mem := m(buf + unat r := 0), v_r := r\<rparr>))"

fun vs_loop :: "ptr \<Rightarrow> u32 \<Rightarrow> ptr \<Rightarrow> ptr \<Rightarrow> nat \<Rightarrow> nat \<Rightarrow> vs \<Rightarrow> vs option" where
  "vs_loop buf bsz fmt lb i 0 st = Some st"
| "vs_loop buf bsz fmt lb i (Suc n) st =
     do { st \<leftarrow> vs_step buf bsz fmt lb (word_of_nat i) st; vs_loop buf bsz fmt lb (i + 1) n st }"

definition vsnprintf :: "mem \<Rightarrow> ptr \<Rightarrow> u32 \<Rightarrow> ptr \<Rightarrow> varg list \<Rightarrow> ptr \<Rightarrow> (u32 \<times> mem) option" where
  "vsnprintf m buf bsz fmt args lb =
     do {
       l \<leftarrow> str_len m fmt;
       st \<leftarrow> vs_loop buf bsz fmt lb 0 (unat l) \<lparr>v_mem = m, v_r = 0, v_t = False, v_tp = 0, v_args = args\<rparr>;
       Some (v_r st, v_mem st)
     }"

section \<open>The specification\<close>

datatype targ = TInt u32 | TLong u64 | TStr "u8 list"

text \<open>The text of one conversion: the numeral of the argument, a 64-bit one for \<open>%l\<close>, \<open>%h\<close>, \<open>%H\<close> and \<open>%b\<close>. Two cases
  have no text here, since the code does not print the numeral: \<open>%d\<close> of the smallest number, whose sign is
  lost, and \<open>%l\<close> of \<open>2\<^sup>3\<^sup>2\<close> and more, which the code cuts to 32 bits.\<close>

definition conv_text :: "u8 \<Rightarrow> targ \<Rightarrow> u8 list option" where
  "conv_text c a =
     (case a of
        TInt n \<Rightarrow>
          if c = 99 then Some [ucast n]
          else if c = 100 then (if sint n = - (2 ^ 31) then None else Some (int_text 10 (sint n)))
          else if c = 117 then Some (numeral_text 10 (unat n))
          else if c = 120 then Some (numeral_text 16 (unat n))
          else if c = 88 then Some (map up (numeral_text 16 (unat n)))
          else None
      | TLong n \<Rightarrow>
          if c = 108 then (if unat n < 2 ^ 32 then Some (numeral_text 10 (unat n)) else None)
          else if c = 104 then Some (numeral_text 16 (unat n))
          else if c = 72 then Some (map up (numeral_text 16 (unat n)))
          else if c = 98 then Some (numeral_text 2 (unat n))
          else None
      | TStr s \<Rightarrow> if c = 115 then Some s else if c = 83 then Some (map up s) else None)"

definition takes_arg :: "u8 \<Rightarrow> bool" where
  "takes_arg c \<longleftrightarrow> c = 99 \<or> c = 115 \<or> c = 83 \<or> is_number c"

fun rend :: "bool \<Rightarrow> u8 list \<Rightarrow> targ list \<Rightarrow> u8 list option" where
  "rend t [] args = Some []"
| "rend False (c # f) args = (if c = 37 then rend True f args else map_option (\<lambda>u. c # u) (rend False f args))"
| "rend True (c # f) args =
     (if takes_arg c then
        (case args of
           [] \<Rightarrow> None
         | a # as \<Rightarrow> do { t \<leftarrow> conv_text c a; u \<leftarrow> rend False f as; Some (t @ u) })
      else map_option (\<lambda>u. 37 # c # u) (rend False f args))"

section \<open>The buffers\<close>

text \<open>\<open>outp\<close>: the text written so far. \<open>only\<close>: only the output buffer of \<open>sz\<close> bytes and the local
  buffer have changed. \<open>away\<close>: a string lies outside both.\<close>

definition outp :: "mem \<Rightarrow> ptr \<Rightarrow> u8 list \<Rightarrow> bool" where
  "outp m buf t \<longleftrightarrow> (\<forall>i<length t. m (buf + i) = t ! i)"

definition only :: "ptr \<Rightarrow> nat \<Rightarrow> ptr \<Rightarrow> mem \<Rightarrow> mem \<Rightarrow> bool" where
  "only buf sz lb m m' \<longleftrightarrow> (\<forall>a. \<not> (buf \<le> a \<and> a < buf + sz) \<and> \<not> (lb \<le> a \<and> a < lb + 66) \<longrightarrow> m' a = m a)"

definition away :: "ptr \<Rightarrow> nat \<Rightarrow> ptr \<Rightarrow> ptr \<Rightarrow> u8 list \<Rightarrow> bool" where
  "away buf sz lb p s \<longleftrightarrow> apart buf sz p s \<and> apart lb 66 p s"

lemma only_refl [simp]: "only buf sz lb m m"
  by (simp add: only_def)

lemma only_trans: "only buf sz lb m m' \<Longrightarrow> only buf sz lb m' m'' \<Longrightarrow> only buf sz lb m m''"
  by (simp add: only_def)

lemma only_cstr: "cstr m p s \<Longrightarrow> only buf sz lb m m' \<Longrightarrow> away buf sz lb p s \<Longrightarrow> cstr m' p s"
  by (erule cstr_cong) (auto simp: only_def away_def apart_def)

fun arg_rel :: "ptr \<Rightarrow> nat \<Rightarrow> ptr \<Rightarrow> mem \<Rightarrow> varg \<Rightarrow> targ \<Rightarrow> bool" where
  "arg_rel buf sz lb m (VInt n) (TInt k) \<longleftrightarrow> n = k"
| "arg_rel buf sz lb m (VLong n) (TLong k) \<longleftrightarrow> n = k"
| "arg_rel buf sz lb m (VPtr p) (TStr s) \<longleftrightarrow> cstr m p s \<and> away buf sz lb p s"
| "arg_rel buf sz lb m _ _ \<longleftrightarrow> False"

lemma arg_rel_only: "arg_rel buf sz lb m a b \<Longrightarrow> only buf sz lb m m' \<Longrightarrow> arg_rel buf sz lb m' a b"
  by (cases "(buf, sz, lb, m, a, b)" rule: arg_rel.cases) (auto intro: only_cstr)

lemma args_only:
  "list_all2 (arg_rel buf sz lb m) as bs \<Longrightarrow> only buf sz lb m m' \<Longrightarrow> list_all2 (arg_rel buf sz lb m') as bs"
  by (erule list_all2_mono) (rule arg_rel_only)

text \<open>One piece of text more in the buffer.\<close>

definition wrote :: "ptr \<Rightarrow> nat \<Rightarrow> ptr \<Rightarrow> mem \<Rightarrow> u8 list \<Rightarrow> mem \<Rightarrow> u8 list \<Rightarrow> bool" where
  "wrote buf sz lb m out m' t \<longleftrightarrow> (outp m buf out \<longrightarrow> outp m' buf (out @ t)) \<and> only buf sz lb m m'"

lemma put_text_wrote:
  assumes "cstr m src s" "length out + length s < unat bsz"
  shows "put_text m buf bsz (word_of_nat (length out)) src
    = Some (word_of_nat (length s), (moved m (buf + length out) src (length s))(buf + length out + length s := 0))"
proof -
  have lt: "length out + length s < 2 ^ 32" using assms(2) unat_u32_lt [of bsz] by linarith
  then have u: "unat (word_of_nat (length out) :: u32) = length out" "unat (word_of_nat (length s) :: u32) = length s"
    "unat (word_of_nat (length out) + word_of_nat (length s) :: u32) = length out + length s"
    by (simp_all add: unat_of_nat_u32 [of "length out + length s", simplified])
  have "unat (bsz - 1) = unat bsz - 1" using assms(2) by (intro unat_dec_u32) linarith
  then have "unat (bsz - 1 - word_of_nat (length out)) = unat bsz - 1 - length out"
    using u(1) assms(2) by (simp add: unat_sub_if')
  then have "\<not> bsz - 1 - word_of_nat (length out) < word_of_nat (length s)"
    using u assms(2) by (simp add: word_less_nat_alt)
  then show ?thesis using u by (simp add: put_text_def str_len_cstr [OF assms(1)] mem_cpy_moved Let_def add.assoc)
qed

lemma put_wrote:
  assumes "cstr m src s" "length out + length s < sz"
  shows "wrote buf sz lb m out ((moved m (buf + length out) src (length s))(buf + length out + length s := 0)) s"
    and "cstr ((moved m (buf + length out) src (length s))(buf + length out + length s := 0)) (buf + length out) s"
proof -
  have "m (src + i - length out) = s ! (i - length out)" if "\<not> i < length out" "i < length out + length s" for i
    using cstr_at [OF assms(1), of "i - length out"] that by simp
  then show "wrote buf sz lb m out ((moved m (buf + length out) src (length s))(buf + length out + length s := 0)) s"
    using assms by (auto simp: wrote_def outp_def only_def moved_def nth_append)
  show "cstr ((moved m (buf + length out) src (length s))(buf + length out + length s := 0)) (buf + length out) s"
    using cstr_prefix [OF assms(1), of "length s" "buf + length out"] by simp
qed

lemma toupper_wrote:
  assumes "cstr m (buf + length out) s" "length out + length s < sz"
  shows "\<exists>m'. toupper m (buf + length out) = Some m' \<and> (outp m buf (out @ s) \<longrightarrow> outp m' buf (out @ map up s)) \<and>
    only buf sz lb m m'"
  using assms by (auto simp: toupper_cstr [OF assms(1)] outp_def only_def nth_append)

lemma put_upper:
  assumes "cstr m src s" "length out + length s < unat bsz"
  shows "\<exists>m'. put_conv m buf bsz (word_of_nat (length out)) src b = Some (word_of_nat (length s), m') \<and>
    wrote buf (unat bsz) lb m out m' (if b then map up s else s)"
proof -
  let ?m1 = "(moved m (buf + length out) src (length s))(buf + length out + length s := 0)"
  note w = put_wrote(1) [OF assms, of buf lb] put_wrote(2) [OF assms, of buf]
  note p = put_text_wrote [OF assms, of buf]
  have "length out < 2 ^ 32" using assms(2) unat_u32_lt [of bsz] by linarith
  then have r: "unat (word_of_nat (length out) :: u32) = length out" by (rule unat_of_nat_u32)
  show ?thesis
  proof (cases b)
    case True
    obtain m' where "toupper ?m1 (buf + length out) = Some m'"
      "outp ?m1 buf (out @ s) \<longrightarrow> outp m' buf (out @ map up s)" "only buf (unat bsz) lb ?m1 m'"
      using toupper_wrote [OF w(2) assms(2), of lb] by blast
    with w(1) p r True show ?thesis by (auto simp: put_conv_def wrote_def intro: only_trans)
  next
    case False
    with w(1) p show ?thesis by (auto simp: put_conv_def)
  qed
qed

text \<open>A number is converted in the local buffer.\<close>

lemma conv_number_text:
  assumes "conv_text c b = Some t" "is_number c" "arg_rel buf sz lb m a b" "lb \<noteq> 0"
  shows "\<exists>m' s. conv_number m c lb a = Some m' \<and> cstr m' lb s \<and> t = (if c = 88 \<or> c = 72 then map up s else s) \<and>
    (\<forall>x. x < lb \<or> lb + 65 < x \<longrightarrow> m' x = m x)"
proof (cases b)
  case (TInt n)
  then have a: "a = VInt n" using assms(3) by (cases a) auto
  consider "c = 100" | "c = 117" | "c = 120" | "c = 88" using assms(1,2) TInt
    by (auto simp: conv_text_def is_number_def split: if_splits)
  then show ?thesis
  proof cases
    case 1
    then have n: "sint n \<noteq> - (2 ^ 31)" "t = int_text 10 (sint n)" using assms(1) TInt
      by (auto simp: conv_text_def split: if_splits)
    then show ?thesis using itoa_cstr [of 10 lb n m] assms(4) 1 a by (auto simp: conv_number_def)
  qed (use uitoa_cstr [of 10 lb m n] uitoa_cstr [of 16 lb m n] assms(1,4) a TInt in
      \<open>auto simp: conv_number_def conv_text_def\<close>)
next
  case (TLong n)
  then have a: "a = VLong n" using assms(3) by (cases a) auto
  have trunc: "unat (ucast (ucast n :: u32) :: u64) = unat n mod 2 ^ 32"
    by (simp add: unsigned_ucast_eq take_bit_eq_mod unat_mod_distrib)
  consider "c = 108" | "c = 104" | "c = 72" | "c = 98" using assms(1,2) TLong
    by (auto simp: conv_text_def is_number_def split: if_splits)
  moreover have "unat n mod 2 ^ 32 = unat n" if "c = 108"
    using that assms(1) TLong by (auto simp: conv_text_def split: if_splits)
  ultimately show ?thesis
    by cases (use ulltoa_cstr [of 10 lb m "ucast (ucast n :: u32)"] ulltoa_cstr [of 16 lb m n] ulltoa_cstr [of 2 lb m n]
        trunc assms(1,4) a TLong in \<open>auto simp: conv_number_def conv_text_def split: if_splits\<close>)
next
  case (TStr s)
  then show ?thesis using assms(1,2) by (auto simp: conv_text_def is_number_def split: if_splits)
qed

lemma local_only: "(\<forall>x. x < lb \<or> lb + 65 < x \<longrightarrow> m' x = m x) \<Longrightarrow> only buf sz lb m m'"
  by (auto simp: only_def)

lemma local_outp:
  "(\<forall>x. x < lb \<or> lb + 65 < x \<longrightarrow> m' x = m x) \<Longrightarrow> buf + sz \<le> lb \<or> lb + 66 \<le> buf \<Longrightarrow> length t \<le> sz \<Longrightarrow>
    outp m buf t \<Longrightarrow> outp m' buf t"
  by (auto simp: outp_def)

text \<open>A conversion that takes an argument adds its text to the buffer.\<close>

lemma vs_conv_arg:
  assumes "takes_arg c" "conv_text c b = Some t" "arg_rel buf (unat bsz) lb (v_mem st) a b"
    and "v_args st = a # as" "v_r st = word_of_nat (length out)" "length out + length t < unat bsz"
    and "lb \<noteq> 0" "buf + unat bsz \<le> lb \<or> lb + 66 \<le> buf"
  shows "\<exists>m'. vs_conv buf bsz fmt lb i c st
      = Some (st\<lparr>v_mem := m', v_r := word_of_nat (length (out @ t)), v_t := False, v_args := as\<rparr>) \<and>
    wrote buf (unat bsz) lb (v_mem st) out m' t"
proof -
  have lt: "length out < 2 ^ 32" using assms(6) unat_u32_lt [of bsz] by linarith
  have r: "unat (word_of_nat (length out) :: u32) = length out" using unat_of_nat_u32 [OF lt] .
  consider (chr) "c = 99" | (str) "c = 115 \<or> c = 83" | (num) "is_number c" using assms(1) by (auto simp: takes_arg_def)
  then show ?thesis
  proof cases
    case chr
    then obtain n where n: "b = TInt n" "t = [ucast n]" using assms(2)
      by (auto simp: conv_text_def split: targ.splits if_splits)
    then have "a = VInt n" using assms(3) by (cases a) auto
    moreover have "wrote buf (unat bsz) lb (v_mem st) out ((v_mem st)(buf + length out := ucast n)) t"
      using assms(6) n(2) by (auto simp: wrote_def outp_def only_def nth_append less_Suc_eq)
    ultimately show ?thesis using chr n assms(4,5) r by (auto simp: vs_conv_def Let_def add.commute)
  next
    case str
    then obtain s where s: "b = TStr s" "t = (if c = 83 then map up s else s)" using assms(2)
      by (auto simp: conv_text_def split: targ.splits if_splits)
    then obtain p where p: "a = VPtr p" "cstr (v_mem st) p s" using assms(3) by (cases a) auto
    have l: "length out + length s < unat bsz" "length s = length t" using assms(6) s(2) by (auto split: if_splits)
    obtain m' where "put_conv (v_mem st) buf bsz (word_of_nat (length out)) p (c = 83)
        = Some (word_of_nat (length s), m')"
      "wrote buf (unat bsz) lb (v_mem st) out m' (if c = 83 then map up s else s)"
      using put_upper [OF p(2) l(1), of buf "c = 83" lb] by blast
    moreover from this(1) have "vs_conv buf bsz fmt lb i c st
        = Some (st\<lparr>v_mem := m', v_r := word_of_nat (length out) + word_of_nat (length s), v_t := False, v_args := as\<rparr>)"
      using str p(1) assms(4,5) by (auto simp: vs_conv_def)
    ultimately show ?thesis using s(2) l(2) [symmetric] by (simp only: length_append of_nat_add) blast
  next
    case num
    obtain m1 s where m1: "conv_number (v_mem st) c lb a = Some m1" "cstr m1 lb s"
      "t = (if c = 88 \<or> c = 72 then map up s else s)" "\<forall>x. x < lb \<or> lb + 65 < x \<longrightarrow> m1 x = v_mem st x"
      using conv_number_text [OF assms(2) num assms(3,7)] by blast
    have l: "length out + length s < unat bsz" "length s = length t" using assms(6) m1(3) by (auto split: if_splits)
    obtain m' where m': "put_conv m1 buf bsz (word_of_nat (length out)) lb (c = 88 \<or> c = 72)
        = Some (word_of_nat (length s), m')"
      "wrote buf (unat bsz) lb m1 out m' t"
      using put_upper [OF m1(2) l(1), of buf "c = 88 \<or> c = 72" lb] m1(3) by auto
    have "wrote buf (unat bsz) lb (v_mem st) out m' t"
      using m'(2) local_only [OF m1(4)] local_outp [OF m1(4) assms(8), of out] l(1)
      by (auto simp: wrote_def intro: only_trans)
    moreover from num have "c \<noteq> 99" "\<not> (c = 115 \<or> c = 83)" by (auto simp: is_number_def)
    then have "vs_conv buf bsz fmt lb i c st
        = Some (st\<lparr>v_mem := m', v_r := word_of_nat (length out) + word_of_nat (length s), v_t := False, v_args := as\<rparr>)"
      using num m'(1) m1(1) assms(4,5) by (simp add: vs_conv_def)
    ultimately show ?thesis using l(2) [symmetric] by (simp only: length_append of_nat_add) blast
  qed
qed

text \<open>Plain bytes stored one after the other, with a terminator behind them.\<close>

lemma store_wrote:
  assumes "length out + 1 < sz"
  shows "wrote buf sz lb m out (m(buf + length out := c, buf + (length out + 1) := 0)) [c]"
  using assms by (auto simp: wrote_def outp_def only_def nth_append less_Suc_eq)

lemma store2_wrote:
  assumes "length out + 2 < sz"
  shows "wrote buf sz lb m out (m(buf + length out := c, buf + (length out + 1) := d, buf + (length out + 2) := 0)) [c, d]"
  using assms by (auto simp: wrote_def outp_def only_def nth_append less_Suc_eq)

lemma unat_pos:
  assumes "length out + k < unat (bsz :: u32)"
  shows "unat (word_of_nat (length out) + word_of_nat k :: u32) = length out + k"
proof -
  have "length out + k < 2 ^ 32" using assms unat_u32_lt [of bsz] by linarith
  then show ?thesis using unat_of_nat_u32 [of "length out + k"] by simp
qed

definition vs_inv :: "ptr \<Rightarrow> nat \<Rightarrow> ptr \<Rightarrow> ptr \<Rightarrow> u8 list \<Rightarrow> targ list \<Rightarrow> u8 list \<Rightarrow> vs \<Rightarrow> bool" where
  "vs_inv buf sz fmt lb f bs out st \<longleftrightarrow> cstr (v_mem st) fmt f \<and>
     list_all2 (arg_rel buf sz lb (v_mem st)) (v_args st) bs \<and> v_r st = word_of_nat (length out) \<and>
     outp (v_mem st) buf out \<and> (v_t st \<longrightarrow> unat (v_tp st) < length f \<and> f ! unat (v_tp st) = 37)"

lemma vs_inv_wrote:
  assumes "vs_inv buf sz fmt lb f bs out st" "away buf sz lb fmt f" "wrote buf sz lb (v_mem st) out m' t"
    and "list_all2 (arg_rel buf sz lb (v_mem st)) as bs'"
  shows "vs_inv buf sz fmt lb f bs' (out @ t)
    (st\<lparr>v_mem := m', v_r := word_of_nat (length (out @ t)), v_t := False, v_args := as\<rparr>)"
  using assms args_only only_cstr by (auto simp: vs_inv_def wrote_def)

lemma vs_step_rend:
  assumes inv: "vs_inv buf (unat bsz) fmt lb f bs out st" and i: "i < length f"
    and u: "rend (v_t st) (drop i f) bs = Some u" and lt: "length out + length u < unat bsz"
    and aw: "away buf (unat bsz) lb fmt f" and lb: "lb \<noteq> 0" "buf + unat bsz \<le> lb \<or> lb + 66 \<le> buf"
  shows "\<exists>st' t u' bs'. vs_step buf bsz fmt lb (word_of_nat i) st = Some st' \<and>
    vs_inv buf (unat bsz) fmt lb f bs' (out @ t) st' \<and> u = t @ u' \<and> rend (v_t st') (drop (i + 1) f) bs' = Some u' \<and>
    only buf (unat bsz) lb (v_mem st) (v_mem st')"
proof -
  let ?m = "v_mem st"
  have c: "cstr ?m fmt f" and r: "v_r st = word_of_nat (length out)"
    and args: "list_all2 (arg_rel buf (unat bsz) lb ?m) (v_args st) bs" using inv by (simp_all add: vs_inv_def)
  have ui: "unat (word_of_nat i :: u32) = i" using i cstr_len [OF c] by (intro unat_of_nat_u32) linarith
  have d: "drop i f = f ! i # drop (i + 1) f" and ci: "?m (fmt + i) = f ! i"
    using i cstr_at [OF c i] by (simp_all add: Cons_nth_drop_Suc)
  have r0: "unat (word_of_nat (length out) :: u32) = length out" using unat_pos [of out 0 bsz] lt by simp
  consider (percent) "\<not> v_t st" "f ! i = 37" | (plain) "\<not> v_t st" "f ! i \<noteq> 37"
    | (arg) "v_t st" "takes_arg (f ! i)" | (other) "v_t st" "\<not> takes_arg (f ! i)" by blast
  then show ?thesis
  proof cases
    case percent
    then have "vs_step buf bsz fmt lb (word_of_nat i) st = Some (st\<lparr>v_t := True, v_tp := word_of_nat i\<rparr>)"
      using ui ci by (simp add: vs_step_def Let_def)
    moreover have "vs_inv buf (unat bsz) fmt lb f bs (out @ []) (st\<lparr>v_t := True, v_tp := word_of_nat i\<rparr>)"
      using inv percent i ui by (simp add: vs_inv_def)
    ultimately show ?thesis using u d percent by fastforce
  next
    case plain
    then obtain u' where u': "u = f ! i # u'" "rend False (drop (i + 1) f) bs = Some u'" using u d by auto
    have w: "wrote buf (unat bsz) lb ?m out (?m(buf + length out := f ! i, buf + (length out + 1) := 0)) [f ! i]"
      using lt u' by (intro store_wrote) simp
    have "unat (word_of_nat (length out) + 1 :: u32) = length out + 1" using unat_pos [of out 1 bsz] lt u' by simp
    then have "vs_step buf bsz fmt lb (word_of_nat i) st = Some (st\<lparr>v_mem := ?m(buf + length out := f ! i,
        buf + (length out + 1) := 0), v_r := word_of_nat (length (out @ [f ! i])), v_t := False, v_args := v_args st\<rparr>)"
      using plain ui ci r r0 by (simp add: vs_step_def Let_def add.commute)
    then show ?thesis using vs_inv_wrote [OF inv aw w args] w u' unfolding wrote_def by fastforce
  next
    case arg
    then obtain b bs' where b: "bs = b # bs'" using u d by (cases bs) auto
    with arg u d obtain t u' where t: "conv_text (f ! i) b = Some t" "rend False (drop (i + 1) f) bs' = Some u'" "u = t @ u'"
      by (auto simp: bind_eq_Some_conv')
    obtain a as where a: "v_args st = a # as" "arg_rel buf (unat bsz) lb ?m a b"
      "list_all2 (arg_rel buf (unat bsz) lb ?m) as bs'"
      using args b by (auto simp: list_all2_Cons2)
    obtain m' where m': "vs_conv buf bsz fmt lb (word_of_nat i) (f ! i) st
        = Some (st\<lparr>v_mem := m', v_r := word_of_nat (length (out @ t)), v_t := False, v_args := as\<rparr>)"
      "wrote buf (unat bsz) lb ?m out m' t"
      using vs_conv_arg [OF arg(2) t(1) a(2,1) r _ lb] lt t(3) by (metis add_lessD1 add.assoc length_append)
    then have "vs_step buf bsz fmt lb (word_of_nat i) st
        = Some (st\<lparr>v_mem := m', v_r := word_of_nat (length (out @ t)), v_t := False, v_args := as\<rparr>)"
      using arg ui ci by (simp add: vs_step_def Let_def)
    then show ?thesis using vs_inv_wrote [OF inv aw m'(2) a(3)] m'(2) t(2,3) unfolding wrote_def by fastforce
  next
    case other
    then obtain u' where u': "u = 37 # f ! i # u'" "rend False (drop (i + 1) f) bs = Some u'" using u d by auto
    have tp: "?m (fmt + unat (v_tp st)) = 37"
      using inv other cstr_at [OF c, of "unat (v_tp st)"] by (simp add: vs_inv_def)
    let ?m' = "?m(buf + length out := 37, buf + (length out + 1) := f ! i, buf + (length out + 2) := 0)"
    have w: "wrote buf (unat bsz) lb ?m out ?m' [37, f ! i]" using lt u' by (intro store2_wrote) simp
    have r12: "unat (word_of_nat (length out) + 1 :: u32) = length out + 1"
      "unat (word_of_nat (length out) + 1 + 1 :: u32) = length out + 2"
      using unat_pos [of out 1 bsz] unat_pos [of out 2 bsz] lt u' by (simp_all add: add.commute)
    have "buf + length out \<noteq> fmt + i"
      using aw lt i by (auto simp: away_def apart_def)
    then have "(?m(buf + length out := 37)) (fmt + i) = f ! i" using ci by simp
    moreover have "\<not> (f ! i = 99 \<or> f ! i = 115 \<or> f ! i = 83 \<or> is_number (f ! i))"
      using other by (simp add: takes_arg_def)
    ultimately have "vs_step buf bsz fmt lb (word_of_nat i) st = Some (st\<lparr>v_mem := ?m',
        v_r := word_of_nat (length out) + 1 + 1, v_t := False\<rparr>)"
      using other(1) ui ci r r0 tp r12 by (simp add: vs_step_def vs_conv_def Let_def)
    moreover have "word_of_nat (length out) + 1 + 1 = (word_of_nat (length (out @ [37, f ! i])) :: u32)" by simp
    ultimately have "vs_step buf bsz fmt lb (word_of_nat i) st = Some (st\<lparr>v_mem := ?m',
        v_r := word_of_nat (length (out @ [37, f ! i])), v_t := False, v_args := v_args st\<rparr>)" by simp
    then show ?thesis using vs_inv_wrote [OF inv aw w args] w u' unfolding wrote_def by fastforce
  qed
qed

lemma vs_loop_rend:
  assumes "vs_inv buf (unat bsz) fmt lb f bs out st" "i \<le> length f" "rend (v_t st) (drop i f) bs = Some u"
    and "length out + length u < unat bsz"
    and aw: "away buf (unat bsz) lb fmt f" and lb: "lb \<noteq> 0" "buf + unat bsz \<le> lb \<or> lb + 66 \<le> buf"
  shows "\<exists>st'. vs_loop buf bsz fmt lb i (length f - i) st = Some st' \<and> v_r st' = word_of_nat (length (out @ u)) \<and>
    outp (v_mem st') buf (out @ u) \<and> only buf (unat bsz) lb (v_mem st) (v_mem st')"
  using assms(1-4)
proof (induction "length f - i" arbitrary: i st out bs u)
  case 0
  then have "u = []" by (cases "v_t st") auto
  with 0 show ?case by (simp add: vs_inv_def)
next
  case (Suc n)
  then have i: "i < length f" "length f - i = Suc (length f - (i + 1))" by simp_all
  obtain st' t u' bs' where s: "vs_step buf bsz fmt lb (word_of_nat i) st = Some st'"
    "vs_inv buf (unat bsz) fmt lb f bs' (out @ t) st'" "u = t @ u'" "rend (v_t st') (drop (i + 1) f) bs' = Some u'"
    "only buf (unat bsz) lb (v_mem st) (v_mem st')"
    using vs_step_rend [OF Suc.prems(1) i(1) Suc.prems(3,4) aw lb] by blast
  have n: "n = length f - (i + 1)" using Suc.hyps(2) by simp
  have "length (out @ t) + length u' < unat bsz" using Suc.prems(4) s(3) by simp
  from Suc.hyps(1) [OF n s(2) _ s(4) this] obtain st'' where
    "vs_loop buf bsz fmt lb (i + 1) (length f - (i + 1)) st' = Some st''" "v_r st'' = word_of_nat (length ((out @ t) @ u'))"
    "outp (v_mem st'') buf ((out @ t) @ u')" "only buf (unat bsz) lb (v_mem st') (v_mem st'')"
    using i(1) by auto
  then show ?case using s only_trans [OF s(5)] unfolding i(2) by simp
qed

section \<open>Properties\<close>

text \<open>C15: \<open>_vsnprintf\<close> renders its format. When the text the format denotes for the arguments is
  shorter than the buffer, and the buffer, the local buffer and the strings lie apart, the call
  returns the length of that text, leaves it in the buffer, and writes to no other memory than
  the two buffers. The format denotes a text unless an argument is missing or of the wrong kind, a \<open>%d\<close> gets the
  smallest number or a \<open>%l\<close> gets a number of more than 32 bits.\<close>

theorem vsnprintf_renders:
  assumes "cstr m fmt f" and "list_all2 (arg_rel buf (unat bsz) lb m) args bs" and "rend False f bs = Some u"
    and "length u < unat bsz" and "away buf (unat bsz) lb fmt f" and "lb \<noteq> 0"
    and "buf + unat bsz \<le> lb \<or> lb + 66 \<le> buf"
  shows "\<exists>m'. vsnprintf m buf bsz fmt args lb = Some (word_of_nat (length u), m') \<and> bytes m' buf (length u) = u \<and>
    only buf (unat bsz) lb m m'"
proof -
  let ?st = "\<lparr>v_mem = m, v_r = 0, v_t = False, v_tp = 0, v_args = args\<rparr>"
  have "vs_inv buf (unat bsz) fmt lb f bs [] ?st" using assms(1,2) by (simp add: vs_inv_def outp_def)
  from vs_loop_rend [OF this, of 0 u] assms(3-7) obtain st' where
    "vs_loop buf bsz fmt lb 0 (length f) ?st = Some st'" "v_r st' = word_of_nat (length u)"
    "outp (v_mem st') buf u" "only buf (unat bsz) lb m (v_mem st')" by auto
  moreover from this(3) have "bytes (v_mem st') buf (length u) = u"
    by (intro nth_equalityI) (simp_all add: outp_def)
  ultimately show ?thesis using unat_len [OF assms(1)] by (simp add: vsnprintf_def str_len_cstr [OF assms(1)])
qed

definition demo_fmt :: mem where
  "demo_fmt = (\<lambda>_. 0)(100 := 120, 101 := 61, 102 := 37, 103 := 88, 104 := 37, 105 := 115, 200 := 104, 201 := 105)"

theorem vsnprintf_renders_witness:
  "\<exists>m'. vsnprintf demo_fmt 400 20 100 [VInt 171, VPtr 200] 600
      = Some (word_of_nat (length ([120, 61] @ map up (numeral_text 16 (unat (171 :: u32))) @ [104, 105])), m') \<and>
    bytes m' 400 (length ([120, 61] @ map up (numeral_text 16 (unat (171 :: u32))) @ [104, 105]))
      = [120, 61] @ map up (numeral_text 16 (unat (171 :: u32))) @ [104, 105] \<and>
    only 400 (unat (20 :: u32)) 600 demo_fmt m'"
proof (rule vsnprintf_renders [where f = "[120, 61, 37, 88, 37, 115]" and bs = "[TInt 171, TStr [104, 105]]"])
  show "rend False [120, 61, 37, 88, 37, 115] [TInt 171, TStr [104, 105]]
      = Some ([120, 61] @ map up (numeral_text 16 (unat (171 :: u32))) @ [104, 105])"
    by (simp add: takes_arg_def is_number_def conv_text_def)
  show "length ([120, 61] @ map up (numeral_text 16 (unat (171 :: u32))) @ [104, 105]) < unat (20 :: u32)"
    using digs_length [of 16 171 2] by simp
qed (simp_all add: cstr_Cons demo_fmt_def away_def apart_def)

text \<open>\<open>_vsnprintf\<close> does not bound plain text by the size it is given. A format without \<open>%\<close> is
  copied whole with its terminator, \<open>length + 1\<close> bytes, whatever \<open>bsz\<close> is.\<close>

theorem vsnprintf_ignores_size:
  assumes "cstr m fmt f" and "f \<noteq> []" and "37 \<notin> set f" and "apart buf (length f + 1) fmt f"
  shows "\<exists>m'. vsnprintf m buf bsz fmt args lb = Some (word_of_nat (length f), m') \<and> cstr m' buf f"
proof -
  have loop: "\<exists>st'. vs_loop buf bsz fmt lb i (length f - i) st = Some st' \<and> v_r st' = word_of_nat (length f) \<and>
      outp (v_mem st') buf f \<and> (i < length f \<longrightarrow> v_mem st' (buf + length f) = 0)"
    if "cstr (v_mem st) fmt f" "i \<le> length f" "v_r st = word_of_nat i" "\<not> v_t st" "outp (v_mem st) buf (take i f)"
    for i st
    using that
  proof (induction "length f - i" arbitrary: i st)
    case 0
    then show ?case by simp
  next
    case (Suc n)
    let ?m = "v_mem st"
    let ?m' = "?m(buf + i := f ! i, buf + (i + 1) := 0)"
    let ?st = "st\<lparr>v_mem := ?m', v_r := word_of_nat (i + 1)\<rparr>"
    from Suc have i: "i < length f" "length f - i = Suc (length f - (i + 1))" "n = length f - (i + 1)" by simp_all
    have lt: "i + 1 < 2 ^ 32" using i(1) cstr_len [OF Suc.prems(1)] by linarith
    then have ui: "unat (word_of_nat i :: u32) = i" "unat (word_of_nat i + 1 :: u32) = i + 1"
      using unat_of_nat_u32 [of i] unat_of_nat_u32 [of "i + 1"] by (simp_all add: add.commute)
    have "f ! i \<noteq> 37" using assms(3) i(1) by (metis nth_mem)
    then have step: "vs_step buf bsz fmt lb (word_of_nat i) st = Some ?st"
      using Suc.prems(3,4) ui cstr_at [OF Suc.prems(1) i(1)] by (simp add: vs_step_def Let_def add.commute)
    have "cstr ?m' fmt f"
      by (rule cstr_cong [OF Suc.prems(1)]) (use assms(4) i(1) in \<open>auto simp: apart_def\<close>)
    moreover have "outp ?m' buf (take (i + 1) f)"
      using Suc.prems(5) i(1) by (auto simp: outp_def less_Suc_eq min_def)
    ultimately have "\<exists>st'. vs_loop buf bsz fmt lb (i + 1) (length f - (i + 1)) ?st = Some st' \<and>
        v_r st' = word_of_nat (length f) \<and> outp (v_mem st') buf f \<and>
        (i + 1 < length f \<longrightarrow> v_mem st' (buf + length f) = 0)"
      using Suc.prems(4) i by (intro Suc.hyps(1)) simp_all
    moreover have "v_mem st' (buf + length f) = 0"
      if "vs_loop buf bsz fmt lb (i + 1) (length f - (i + 1)) ?st = Some st'" "\<not> i + 1 < length f" for st'
    proof -
      from that(2) i(1) have e: "length f = i + 1" by simp
      with that(1) have "st' = ?st" by simp
      then show ?thesis using e by simp
    qed
    ultimately show ?case using step unfolding i(2) by (metis (no_types, lifting) bind.bind_lunit vs_loop.simps(2))
  qed
  let ?st = "\<lparr>v_mem = m, v_r = 0, v_t = False, v_tp = 0, v_args = args\<rparr>"
  obtain st' where "vs_loop buf bsz fmt lb 0 (length f) ?st = Some st'" "v_r st' = word_of_nat (length f)"
    "outp (v_mem st') buf f" "v_mem st' (buf + length f) = 0"
    using loop [of ?st 0] assms(1,2) by (auto simp: outp_def)
  then show ?thesis using unat_len [OF assms(1)] cstr_len [OF assms(1)] cstr_nz [OF assms(1)]
    by (simp add: vsnprintf_def str_len_cstr [OF assms(1)] cstr_def outp_def)
qed

theorem vsnprintf_ignores_size_witness:
  "\<exists>m'. vsnprintf demo_fmt 400 1 200 [] 600 = Some (word_of_nat (length [104, 105 :: u8]), m') \<and> cstr m' 400 [104, 105]"
  by (rule vsnprintf_ignores_size) (simp_all add: cstr_Cons demo_fmt_def apart_def)

end
