(* ===== verification/SHA1.thy ===== *)
theory SHA1
  imports Str_Mem
begin

text \<open>
  The message digest of ext/init/lib/sha1.cpp. Its \<open>uint32_t\<close> is \<open>unsigned long\<close>, 64 bits on the
  target, and its initial values are its own, so it is not FIPS SHA-1: the words below are 64 bits
  wide, \<open>SHA1CircularShift\<close> shifts in 64 bits, and a message byte of 128 or more in the top place
  of a schedule word is sign-extended by the promotion to \<open>int\<close>. A null context is \<open>None\<close>, the
  message and the digest are in memory. \<open>sha1_digest\<close> is the specification: pad the message, cut
  it into blocks of 64 bytes and fold the compression over them.
\<close>

section \<open>The code\<close>

record SHA1Context =
  Intermediate_Hash :: "u64 list"
  Length_Low :: u64
  Length_High :: u64
  Message_Block_Index :: nat
  Message_Block :: "u8 list"
  Computed :: nat
  Corrupted :: nat

definition shaSuccess :: nat where "shaSuccess = 0"
definition shaNull :: nat where "shaNull = 1"
definition shaStateError :: nat where "shaStateError = 3"

definition SHA1CircularShift :: "nat \<Rightarrow> u64 \<Rightarrow> u64" where
  "SHA1CircularShift bits w = push_bit bits w OR drop_bit (32 - bits) w"

definition sha1_IV :: "u64 list" where
  "sha1_IV = [0x1ACA889B, 0x0FA3E271, 0x9FFADBF4, 0x61A3F3A1, 0x88AA7C55]"

definition SHA1Reset :: "SHA1Context option \<Rightarrow> nat \<times> SHA1Context option" where
  "SHA1Reset context =
     (case context of
        None \<Rightarrow> (shaNull, None)
      | Some c \<Rightarrow> (shaSuccess, Some (c\<lparr>Length_Low := 0, Length_High := 0, Message_Block_Index := 0,
          Intermediate_Hash := sha1_IV, Computed := 0, Corrupted := 0\<rparr>)))"

definition sha1_W0 :: "u8 list \<Rightarrow> nat \<Rightarrow> u64" where
  "sha1_W0 blk t =
     scast (push_bit 24 (ucast (blk ! (t * 4)) :: 32 word)) OR
     push_bit 16 (ucast (blk ! (t * 4 + 1))) OR
     push_bit 8 (ucast (blk ! (t * 4 + 2))) OR
     ucast (blk ! (t * 4 + 3))"

definition sha1_W :: "u8 list \<Rightarrow> u64 list" where
  "sha1_W blk = fold (\<lambda>t W. W @ [SHA1CircularShift 1 (W ! (t - 3) XOR W ! (t - 8) XOR W ! (t - 14) XOR W ! (t - 16))])
     [16..<80] (map (sha1_W0 blk) [0..<16])"

type_synonym sha1_regs = "u64 \<times> u64 \<times> u64 \<times> u64 \<times> u64"

definition sha1_round :: "(u64 \<Rightarrow> u64 \<Rightarrow> u64 \<Rightarrow> u64) \<Rightarrow> u64 \<Rightarrow> u64 \<Rightarrow> sha1_regs \<Rightarrow> sha1_regs" where
  "sha1_round f k w = (\<lambda>(A, B, C, D, E).
     let temp = SHA1CircularShift 5 A + f B C D + E + w + k
     in (temp, A, SHA1CircularShift 30 B, C, D))"

definition sha1_compress :: "u64 list \<Rightarrow> u8 list \<Rightarrow> u64 list" where
  "sha1_compress H blk =
     (let W = sha1_W blk;
          r = (H ! 0, H ! 1, H ! 2, H ! 3, H ! 4);
          r = fold (\<lambda>t. sha1_round (\<lambda>B C D. (B AND C) OR (NOT B AND D)) 0x5A827999 (W ! t)) [0..<20] r;
          r = fold (\<lambda>t. sha1_round (\<lambda>B C D. B XOR C XOR D) 0x6ED9EBA1 (W ! t)) [20..<40] r;
          r = fold (\<lambda>t. sha1_round (\<lambda>B C D. (B AND C) OR (B AND D) OR (C AND D)) 0x8F1BBCDC (W ! t)) [40..<60] r;
          (A, B, C, D, E) = fold (\<lambda>t. sha1_round (\<lambda>B C D. B XOR C XOR D) 0xCA62C1D6 (W ! t)) [60..<80] r
      in [H ! 0 + A, H ! 1 + B, H ! 2 + C, H ! 3 + D, H ! 4 + E])"

definition SHA1ProcessMessageBlock :: "SHA1Context \<Rightarrow> SHA1Context" where
  "SHA1ProcessMessageBlock c =
     c\<lparr>Intermediate_Hash := sha1_compress (Intermediate_Hash c) (Message_Block c), Message_Block_Index := 0\<rparr>"

definition put_byte :: "u8 \<Rightarrow> SHA1Context \<Rightarrow> SHA1Context" where
  "put_byte b c = c\<lparr>Message_Block := (Message_Block c)[Message_Block_Index c := b],
     Message_Block_Index := Message_Block_Index c + 1\<rparr>"

definition input_byte :: "u8 \<Rightarrow> SHA1Context \<Rightarrow> SHA1Context" where
  "input_byte b c =
     (let c = put_byte b c;
          c = c\<lparr>Length_Low := Length_Low c + 8\<rparr>;
          c = (if Length_Low c = 0 then
                 let c = c\<lparr>Length_High := Length_High c + 1\<rparr>
                 in if Length_High c = 0 then c\<lparr>Corrupted := 1\<rparr> else c
               else c)
      in if Message_Block_Index c = 64 then SHA1ProcessMessageBlock c else c)"

fun input_loop :: "mem \<Rightarrow> ptr \<Rightarrow> nat \<Rightarrow> SHA1Context \<Rightarrow> SHA1Context" where
  "input_loop m p 0 c = c"
| "input_loop m p (Suc n) c = (if Corrupted c = 0 then input_loop m (p + 1) n (input_byte (m p) c) else c)"

definition SHA1Input :: "mem \<Rightarrow> SHA1Context option \<Rightarrow> ptr \<Rightarrow> u32 \<Rightarrow> nat \<times> SHA1Context option" where
  "SHA1Input m context message_array len =
     (if len = 0 then (shaSuccess, context)
      else case context of
        None \<Rightarrow> (shaNull, None)
      | Some c \<Rightarrow>
          if message_array = 0 then (shaNull, Some c)
          else if Computed c \<noteq> 0 then (shaStateError, Some (c\<lparr>Corrupted := shaStateError\<rparr>))
          else if Corrupted c \<noteq> 0 then (Corrupted c, Some c)
          else (shaSuccess, Some (input_loop m message_array (unat len) c)))"

text \<open>The padding loops store zeros up to a given index.\<close>

fun zero_fill :: "nat \<Rightarrow> SHA1Context \<Rightarrow> SHA1Context" where
  "zero_fill 0 c = c"
| "zero_fill (Suc n) c = zero_fill n (put_byte 0 c)"

definition store_length :: "SHA1Context \<Rightarrow> SHA1Context" where
  "store_length c = c\<lparr>Message_Block := (Message_Block c)
     [56 := ucast (drop_bit 24 (Length_High c)), 57 := ucast (drop_bit 16 (Length_High c)),
      58 := ucast (drop_bit 8 (Length_High c)), 59 := ucast (Length_High c),
      60 := ucast (drop_bit 24 (Length_Low c)), 61 := ucast (drop_bit 16 (Length_Low c)),
      62 := ucast (drop_bit 8 (Length_Low c)), 63 := ucast (Length_Low c)]\<rparr>"

definition SHA1PadMessage :: "SHA1Context \<Rightarrow> SHA1Context" where
  "SHA1PadMessage c =
     (let c = (if 55 < Message_Block_Index c then
                 let c = put_byte 0x80 c;
                     c = SHA1ProcessMessageBlock (zero_fill (64 - Message_Block_Index c) c)
                 in zero_fill (56 - Message_Block_Index c) c
               else
                 let c = put_byte 0x80 c
                 in zero_fill (56 - Message_Block_Index c) c)
      in SHA1ProcessMessageBlock (store_length c))"

definition digest_byte :: "u64 list \<Rightarrow> nat \<Rightarrow> u8" where
  "digest_byte H i = ucast (drop_bit (8 * (3 - i mod 4)) (H ! (i div 4)))"

text \<open>\<open>SHA1Result\<close> for at most the 20 bytes of the digest; a larger size reads behind the array.\<close>

definition SHA1Result :: "mem \<Rightarrow> SHA1Context option \<Rightarrow> ptr \<Rightarrow> nat \<Rightarrow> (nat \<times> SHA1Context option \<times> mem) option" where
  "SHA1Result m context digest sz =
     (case context of
        None \<Rightarrow> Some (shaNull, None, m)
      | Some c \<Rightarrow>
          if digest = 0 then Some (shaNull, Some c, m)
          else if Corrupted c \<noteq> 0 then Some (Corrupted c, Some c, m)
          else
            let c = (if Computed c = 0 then
                       (SHA1PadMessage c)\<lparr>Message_Block := replicate 64 0, Length_Low := 0, Length_High := 0, Computed := 1\<rparr>
                     else c)
            in if sz \<le> 20
               then Some (shaSuccess, Some c,
                      \<lambda>a. if digest \<le> a \<and> a < digest + sz then digest_byte (Intermediate_Hash c) (a - digest) else m a)
               else None)"

section \<open>The specification\<close>

function blks :: "u8 list \<Rightarrow> u8 list list" where
  "blks xs = (if length xs < 64 then [] else take 64 xs # blks (drop 64 xs))"
  by pat_completeness auto
termination
  by (relation "measure length") auto

declare blks.simps [simp del]

definition be32 :: "u64 \<Rightarrow> u8 list" where
  "be32 w = [ucast (drop_bit 24 w), ucast (drop_bit 16 w), ucast (drop_bit 8 w), ucast w]"

text \<open>The padding of the standard: a one bit, zeros, and the length of the message in bits as a number of 64 bits.\<close>

definition be64 :: "u64 \<Rightarrow> u8 list" where
  "be64 w = map (\<lambda>i. ucast (drop_bit (8 * (7 - i)) w)) [0..<8]"

definition padding :: "nat \<Rightarrow> u8 list" where
  "padding n = 0x80 # replicate ((119 - n mod 64) mod 64) 0 @ be64 (word_of_nat (8 * n))"

definition sha1_digest :: "u8 list \<Rightarrow> u64 list" where
  "sha1_digest msg = foldl sha1_compress sha1_IV (blks (msg @ padding (length msg)))"

text \<open>The digest of the code, which keeps the low 32 bits of the length.\<close>

definition padding32 :: "nat \<Rightarrow> u8 list" where
  "padding32 n = 0x80 # replicate ((119 - n mod 64) mod 64) 0 @ [0, 0, 0, 0] @ be32 (word_of_nat (8 * n))"

definition digest32 :: "u8 list \<Rightarrow> u64 list" where
  "digest32 msg = foldl sha1_compress sha1_IV (blks (msg @ padding32 (length msg)))"

section \<open>Blocks\<close>

lemma blks_short: "length xs < 64 \<Longrightarrow> blks xs = []"
  by (subst blks.simps) simp

lemma blks_append: "64 dvd length xs \<Longrightarrow> blks (xs @ ys) = blks xs @ blks ys"
proof (induction xs rule: blks.induct)
  case (1 xs)
  show ?case
  proof (cases "length xs < 64")
    case True
    with 1(2) have "xs = []" by (auto dest: dvd_imp_le)
    then show ?thesis by (simp add: blks_short)
  next
    case False
    then have "64 dvd length (drop 64 xs)" using 1(2) by simp
    with 1(1) False have "blks (drop 64 xs @ ys) = blks (drop 64 xs) @ blks ys" by simp
    then show ?thesis using False by (subst (1 2) blks.simps) simp
  qed
qed

lemma blks_one: "length b = 64 \<Longrightarrow> blks b = [b]"
  by (subst blks.simps) (simp add: blks_short)

lemma blks_snoc: "64 dvd length xs \<Longrightarrow> length b = 64 \<Longrightarrow> blks (xs @ b) = blks xs @ [b]"
  by (simp add: blks_append blks_one)

section \<open>The state while a message is fed\<close>

text \<open>\<open>pre\<close> are the bytes already compressed, \<open>rest\<close> those waiting in the block.\<close>

definition hashed :: "u8 list \<Rightarrow> u64 list" where
  "hashed pre = foldl sha1_compress sha1_IV (blks pre)"

definition held :: "SHA1Context \<Rightarrow> u8 list \<Rightarrow> u8 list \<Rightarrow> bool" where
  "held c pre rest \<longleftrightarrow> 64 dvd length pre \<and> Intermediate_Hash c = hashed pre \<and>
     length (Message_Block c) = 64 \<and> Message_Block_Index c = length rest \<and> length rest \<le> 64 \<and>
     take (length rest) (Message_Block c) = rest"

definition fed :: "SHA1Context \<Rightarrow> u8 list \<Rightarrow> bool" where
  "fed c msg \<longleftrightarrow> 8 * length msg < 2 ^ 64 \<and> Length_Low c = word_of_nat (8 * length msg) \<and> Length_High c = 0 \<and>
     Computed c = 0 \<and> Corrupted c = 0 \<and> (\<exists>pre rest. msg = pre @ rest \<and> held c pre rest \<and> length rest < 64)"

lemma held_put:
  "held c pre rest \<Longrightarrow> length rest < 64 \<Longrightarrow> held (put_byte b c) pre (rest @ [b])"
  by (auto simp: held_def put_byte_def take_Suc_conv_app_nth)

lemma held_process:
  assumes "held c pre rest" "length rest = 64"
  shows "held (SHA1ProcessMessageBlock c) (pre @ rest) []"
proof -
  have "Message_Block c = rest" using assms by (auto simp: held_def)
  then show ?thesis using assms by (simp add: held_def SHA1ProcessMessageBlock_def hashed_def blks_snoc)
qed

lemma held_zero_fill:
  "held c pre rest \<Longrightarrow> length rest + n \<le> 64 \<Longrightarrow> held (zero_fill n c) pre (rest @ replicate n 0)"
proof (induction n arbitrary: c rest)
  case (Suc n)
  then have "held (zero_fill n (put_byte 0 c)) pre ((rest @ [0]) @ replicate n 0)"
    by (intro Suc.IH held_put) simp_all
  then show ?case by simp
qed simp

lemma zero_fill_frame [simp]:
  "Length_Low (zero_fill n c) = Length_Low c" "Length_High (zero_fill n c) = Length_High c"
  by (induction n arbitrary: c) (simp_all add: put_byte_def)

lemma frame_simps [simp]:
  "Length_Low (put_byte b c) = Length_Low c" "Length_High (put_byte b c) = Length_High c"
  "Computed (put_byte b c) = Computed c" "Corrupted (put_byte b c) = Corrupted c"
  "Length_Low (SHA1ProcessMessageBlock c) = Length_Low c" "Length_High (SHA1ProcessMessageBlock c) = Length_High c"
  "Computed (SHA1ProcessMessageBlock c) = Computed c" "Corrupted (SHA1ProcessMessageBlock c) = Corrupted c"
  by (simp_all add: put_byte_def SHA1ProcessMessageBlock_def)

lemma held_frame [simp]: "held (c\<lparr>Length_Low := x\<rparr>) pre rest = held c pre rest"
  by (simp add: held_def)

lemma process_frame:
  "SHA1ProcessMessageBlock (c\<lparr>Length_Low := x\<rparr>) = (SHA1ProcessMessageBlock c)\<lparr>Length_Low := x\<rparr>"
  by (simp add: SHA1ProcessMessageBlock_def)

lemma fedI:
  "8 * length msg < 2 ^ 64 \<Longrightarrow> Length_Low c = word_of_nat (8 * length msg) \<Longrightarrow> Length_High c = 0 \<Longrightarrow>
    Computed c = 0 \<Longrightarrow> Corrupted c = 0 \<Longrightarrow> msg = pre @ rest \<Longrightarrow> held c pre rest \<Longrightarrow> length rest < 64 \<Longrightarrow> fed c msg"
  unfolding fed_def by blast

lemma input_byte_fed:
  assumes "fed c msg" "8 * (length msg + 1) < 2 ^ 64"
  shows "fed (input_byte b c) (msg @ [b])"
proof -
  obtain pre rest where r: "msg = pre @ rest" "held c pre rest" "length rest < 64"
    using assms(1) by (auto simp: fed_def)
  let ?c = "(put_byte b c)\<lparr>Length_Low := Length_Low c + 8\<rparr>"
  have ll: "Length_Low c + 8 = word_of_nat (8 * (length msg + 1))" using assms(1) by (simp add: fed_def algebra_simps)
  have "(word_of_nat (8 * (length msg + 1)) :: u64) \<noteq> 0"
    using assms(2) by (simp add: word_unat_eq_iff unat_of_nat take_bit_nat_eq_self del: of_nat_mult of_nat_add)
  then have nz: "Length_Low c + 8 \<noteq> 0" unfolding ll .
  have h: "held ?c pre (rest @ [b])" using held_put [OF r(2,3)] by simp
  have fr: "Length_Low ?c = word_of_nat (8 * length (msg @ [b]))" "Length_High ?c = 0" "Computed ?c = 0" "Corrupted ?c = 0"
    using assms(1) ll by (simp_all add: fed_def)
  have lt: "8 * length (msg @ [b]) < 2 ^ 64" using assms(2) by simp
  show ?thesis
  proof (cases "length rest = 63")
    case True
    have "Message_Block_Index (put_byte b c) = 64" using h True by (simp add: held_def)
    then have e: "input_byte b c = SHA1ProcessMessageBlock ?c" using nz by (simp add: input_byte_def Let_def)
    have "held (SHA1ProcessMessageBlock ?c) (pre @ rest @ [b]) []"
      using held_process [OF h] True by simp
    from fedI [OF lt _ _ _ _ _ this] fr r(1) show ?thesis unfolding e by simp
  next
    case False
    have "Message_Block_Index (put_byte b c) \<noteq> 64" using h False r(3) by (simp add: held_def)
    then have e: "input_byte b c = ?c" using nz by (simp add: input_byte_def Let_def)
    from fedI [OF lt fr _ h] r(1,3) False show ?thesis unfolding e by simp
  qed
qed

lemma input_loop_fed:
  assumes "fed c msg" "8 * (length msg + n) < 2 ^ 64"
  shows "fed (input_loop m p n c) (msg @ bytes m p n)"
  using assms
proof (induction n arbitrary: c p msg)
  case (Suc n)
  have e: "bytes m p (Suc n) = m p # bytes m (p + 1) n"
    by (simp add: bytes_def upt_conv_Cons map_Suc_upt [symmetric] del: upt_Suc)
  have "fed (input_byte (m p) c) (msg @ [m p])" using Suc.prems by (intro input_byte_fed) simp_all
  with Suc.IH [OF this, of "p + 1"] Suc.prems e show ?case by (simp add: fed_def)
qed (simp add: bytes_def)

section \<open>Padding\<close>

lemma length_8: "length x = 8 \<Longrightarrow> \<exists>a b d e f g h i. x = [a, b, d, e, f, g, h, i]"
  by (auto simp: numeral_eq_Suc length_Suc_conv)

lemma held_store_length:
  assumes "held c pre rest" "length rest = 56"
  shows "take 56 (Message_Block (store_length c)) = rest"
    and "drop 56 (Message_Block (store_length c)) = be32 (Length_High c) @ be32 (Length_Low c)"
    and "length (Message_Block (store_length c)) = 64"
proof -
  have l: "length (Message_Block c) = 64" "take 56 (Message_Block c) = rest" using assms by (auto simp: held_def)
  then show "take 56 (Message_Block (store_length c)) = rest" "length (Message_Block (store_length c)) = 64"
    by (simp_all add: store_length_def)
  let ?x = "drop 56 (Message_Block c)"
  have x: "Message_Block c = rest @ ?x" "length ?x = 8"
    using append_take_drop_id [of 56 "Message_Block c"] l by simp_all
  then obtain a b d e f g h i where "?x = [a, b, d, e, f, g, h, i]"
    using length_8 by blast
  then show "drop 56 (Message_Block (store_length c)) = be32 (Length_High c) @ be32 (Length_Low c)"
    using x(1) assms(2) by (simp add: store_length_def be32_def list_update_append)
qed

text \<open>The end of the padding: 56 bytes are in the block.\<close>

lemma pad_finish:
  assumes "held c pre rest" "length rest = 56" "Length_High c = 0" "Length_Low c = w"
  shows "Intermediate_Hash (SHA1ProcessMessageBlock (store_length c)) = hashed (pre @ rest @ [0, 0, 0, 0] @ be32 w)"
proof -
  let ?b = "Message_Block (store_length c)"
  note st = held_store_length [OF assms(1,2)]
  have "?b = rest @ be32 0 @ be32 w" using append_take_drop_id [of 56 ?b] st(1,2) assms(3,4) by simp
  moreover have "be32 0 = [0, 0, 0, 0]" by (simp add: be32_def)
  ultimately have b: "?b = rest @ [0, 0, 0, 0] @ be32 w" by simp
  have "Intermediate_Hash (store_length c) = hashed pre" "64 dvd length pre"
    using assms(1) by (auto simp: held_def store_length_def)
  then show ?thesis using st(3) b by (simp add: SHA1ProcessMessageBlock_def hashed_def blks_snoc)
qed

lemma pad_hashed:
  assumes "fed c msg"
  shows "Intermediate_Hash (SHA1PadMessage c) = digest32 msg"
proof -
  obtain pre rest where r: "msg = pre @ rest" "held c pre rest" "length rest < 64" and
    l: "Length_Low c = word_of_nat (8 * length msg)" "Length_High c = 0"
    using assms by (auto simp: fed_def)
  have pre: "64 dvd length pre" using r(2) by (simp add: held_def)
  then have md: "length msg mod 64 = length rest" using r(1,3) by (auto elim!: dvdE)
  have i: "Message_Block_Index c = length rest" using r(2) by (simp add: held_def)
  let ?c1 = "put_byte 0x80 c"
  have h1: "held ?c1 pre (rest @ [0x80])" using held_put [OF r(2,3)] .
  have i1: "Message_Block_Index ?c1 = length rest + 1" using i by (simp add: put_byte_def)
  show ?thesis
  proof (cases "55 < length rest")
    case True
    let ?c2 = "SHA1ProcessMessageBlock (zero_fill (63 - length rest) ?c1)"
    let ?b = "(rest @ [0x80]) @ replicate (63 - length rest) 0"
    have "held (zero_fill (63 - length rest) ?c1) pre ?b" by (rule held_zero_fill [OF h1]) (use r(3) in simp)
    then have "held ?c2 (pre @ ?b) []" by (rule held_process) (use r(3) in simp)
    then have h3: "held (zero_fill 56 ?c2) (pre @ ?b) ([] @ replicate 56 0)" by (rule held_zero_fill) simp
    have i2: "Message_Block_Index ?c2 = 0" by (simp add: SHA1ProcessMessageBlock_def)
    have "63 - length rest + 56 = (119 - length rest) mod 64" using True r(3) by simp
    then have "replicate (63 - length rest) 0 @ replicate 56 0 = replicate ((119 - length rest) mod 64) (0 :: u8)"
      by (simp only: replicate_add [symmetric])
    then have "pre @ ?b @ replicate 56 0 @ [0, 0, 0, 0] @ be32 (Length_Low c) = msg @ padding32 (length msg)"
      using md l(1) r(1) by (simp add: padding32_def)
    moreover have "Intermediate_Hash (SHA1ProcessMessageBlock (store_length (zero_fill 56 ?c2)))
        = hashed ((pre @ ?b) @ ([] @ replicate 56 0) @ [0, 0, 0, 0] @ be32 (Length_Low c))"
      by (rule pad_finish [OF h3]) (simp_all add: l(2))
    ultimately show ?thesis using True i i1 i2
      by (simp add: SHA1PadMessage_def Let_def digest32_def hashed_def)
  next
    case False
    let ?b = "(rest @ [0x80]) @ replicate (55 - length rest) 0"
    have h2: "held (zero_fill (55 - length rest) ?c1) pre ?b" by (rule held_zero_fill [OF h1]) (use False in simp)
    have "(119 - length rest) mod 64 = 55 - length rest" using False by (simp add: mod_if)
    then have "pre @ ?b @ [0, 0, 0, 0] @ be32 (Length_Low c) = msg @ padding32 (length msg)"
      using md l(1) r(1) by (simp add: padding32_def)
    moreover have "Intermediate_Hash (SHA1ProcessMessageBlock (store_length (zero_fill (55 - length rest) ?c1)))
        = hashed (pre @ ?b @ [0, 0, 0, 0] @ be32 (Length_Low c))"
      by (rule pad_finish [OF h2]) (use False l(2) in simp_all)
    ultimately show ?thesis using False i i1
      by (simp add: SHA1PadMessage_def Let_def digest32_def hashed_def)
  qed
qed

lemma be64_short:
  assumes "n < 2 ^ 32"
  shows "be64 (word_of_nat n) = [0, 0, 0, 0] @ be32 (word_of_nat n)"
proof -
  have "unat (word_of_nat n :: u64) = n" using assms by (simp add: unat_of_nat take_bit_nat_eq_self)
  then have "drop_bit k (word_of_nat n :: u64) = 0" if "32 \<le> k" for k
    using that less_le_trans [OF assms power_increasing [of 32 k "2 :: nat"]]
    by (simp only: word_unat_eq_iff unat_drop_bit_eq) (simp add: drop_bit_eq_div)
  then show ?thesis by (simp add: be64_def be32_def upt_rec)
qed

lemma digest32_short: "8 * length msg < 2 ^ 32 \<Longrightarrow> digest32 msg = sha1_digest msg"
  unfolding digest32_def sha1_digest_def padding32_def padding_def by (simp only: be64_short)

section \<open>Properties\<close>

text \<open>Feeding a message in pieces: each piece is an address and a length.\<close>

fun input_all :: "mem \<Rightarrow> (ptr \<times> u32) list \<Rightarrow> SHA1Context option \<Rightarrow> SHA1Context option" where
  "input_all m [] c = c"
| "input_all m ((p, n) # ps) c = input_all m ps (snd (SHA1Input m c p n))"

definition pieces :: "mem \<Rightarrow> (ptr \<times> u32) list \<Rightarrow> u8 list" where
  "pieces m ps = concat (map (\<lambda>(p, n). bytes m p (unat n)) ps)"

lemma reset_fed:
  "length (Message_Block c) = 64 \<Longrightarrow> \<exists>c'. SHA1Reset (Some c) = (shaSuccess, Some c') \<and> fed c' []"
  by (simp add: SHA1Reset_def fed_def held_def hashed_def blks_short)

lemma input_fed:
  assumes "fed c msg" "p \<noteq> 0" "8 * (length msg + unat n) < 2 ^ 64"
  shows "\<exists>c'. SHA1Input m (Some c) p n = (shaSuccess, Some c') \<and> fed c' (msg @ bytes m p (unat n))"
proof (cases "n = 0")
  case True
  then show ?thesis using assms(1) by (simp add: SHA1Input_def bytes_def)
next
  case False
  moreover have "Computed c = 0" "Corrupted c = 0" using assms(1) by (simp_all add: fed_def)
  ultimately show ?thesis using assms(2) input_loop_fed [OF assms(1,3)] by (simp add: SHA1Input_def)
qed

lemma input_all_fed:
  assumes "fed c msg" "\<forall>(p, n) \<in> set ps. p \<noteq> 0" "8 * (length msg + length (pieces m ps)) < 2 ^ 64"
  shows "\<exists>c'. input_all m ps (Some c) = Some c' \<and> fed c' (msg @ pieces m ps)"
  using assms
proof (induction ps arbitrary: c msg)
  case (Cons x ps)
  obtain p n where x: "x = (p, n)" by (cases x)
  obtain c' where c': "SHA1Input m (Some c) p n = (shaSuccess, Some c')" "fed c' (msg @ bytes m p (unat n))"
    using input_fed [OF Cons.prems(1), of p n m] Cons.prems(2,3) x by (auto simp: pieces_def)
  then show ?case using Cons.IH [OF c'(2)] Cons.prems(2,3) x by (auto simp: pieces_def)
qed (simp add: pieces_def)

text \<open>C17: The incremental digest is the digest of the whole message. However the message is cut
  into pieces, resetting a context, feeding the pieces and asking for \<open>sz\<close> bytes of the result
  writes the first bytes of the compression folded over the padded message, block by block, for
  messages of less than \<open>2\<^sup>2\<^sup>9\<close> bytes, whose length in bits fits the four bytes \<open>SHA1PadMessage\<close> keeps of it.\<close>

theorem sha1_incremental:
  assumes "length (Message_Block c) = 64" and "\<forall>(p, n) \<in> set ps. p \<noteq> 0"
    and "8 * length (pieces m ps) < 2 ^ 32" and "digest \<noteq> 0" and "sz \<le> 20"
  shows "\<exists>c' m'. SHA1Result m (input_all m ps (snd (SHA1Reset (Some c)))) digest sz = Some (shaSuccess, Some c', m') \<and>
    bytes m' digest sz = map (digest_byte (sha1_digest (pieces m ps))) [0..<sz]"
proof -
  obtain c0 where c0: "snd (SHA1Reset (Some c)) = Some c0" "fed c0 []" using reset_fed [OF assms(1)] by auto
  obtain c1 where c1: "input_all m ps (Some c0) = Some c1" "fed c1 (pieces m ps)"
    using input_all_fed [OF c0(2), of ps m] assms(2,3) by auto
  have "Computed c1 = 0" "Corrupted c1 = 0" using c1(2) by (simp_all add: fed_def)
  then show ?thesis using c0(1) c1(1) pad_hashed [OF c1(2)] digest32_short [OF assms(3)] assms(4,5)
    by (simp add: SHA1Result_def bytes_def Let_def)
qed

definition demo_sha :: SHA1Context where
  "demo_sha = \<lparr>Intermediate_Hash = [], Length_Low = 1, Length_High = 2, Message_Block_Index = 3,
     Message_Block = replicate 64 7, Computed = 0, Corrupted = 1\<rparr>"

theorem sha1_incremental_witness:
  "\<exists>c' m'. SHA1Result demo_text (input_all demo_text [(100, 2), (102, 1)] (snd (SHA1Reset (Some demo_sha)))) 200 8
      = Some (shaSuccess, Some c', m') \<and>
    bytes m' 200 8 = map (digest_byte (sha1_digest (pieces demo_text [(100, 2), (102, 1)]))) [0..<8]"
  by (rule sha1_incremental) (simp_all add: demo_sha_def pieces_def)

text \<open>A context is used up by its result. After \<open>SHA1Result\<close> the next \<open>SHA1Input\<close> of at least
  one byte fails with \<open>shaStateError\<close> and marks the context, and every later \<open>SHA1Result\<close> reports
  the error and writes nothing.\<close>

lemma sha1_input_after_result:
  assumes "SHA1Result m (Some c) digest sz = Some (shaSuccess, Some c', m')" and "p \<noteq> 0" and "n \<noteq> 0" and "q \<noteq> 0"
  shows "\<exists>c''. SHA1Input m' (Some c') p n = (shaStateError, Some c'') \<and>
    SHA1Result m' (Some c'') q sz' = Some (shaStateError, Some c'', m')"
proof -
  have "Computed c' \<noteq> 0"
    using assms(1) by (auto simp: SHA1Result_def shaSuccess_def shaNull_def Let_def split: if_splits)
  then show ?thesis using assms(2-4) by (simp add: SHA1Input_def SHA1Result_def shaStateError_def)
qed

lemma sha1_input_after_result_witness:
  "\<exists>c' m' c''. SHA1Result demo_text (Some (demo_sha\<lparr>Corrupted := 0\<rparr>)) 200 8 = Some (shaSuccess, Some c', m') \<and>
    SHA1Input m' (Some c') 100 1 = (shaStateError, Some c'') \<and>
    SHA1Result m' (Some c'') 300 4 = Some (shaStateError, Some c'', m')"
proof -
  obtain c' m' where r: "SHA1Result demo_text (Some (demo_sha\<lparr>Corrupted := 0\<rparr>)) 200 8 = Some (shaSuccess, Some c', m')"
    by (simp add: SHA1Result_def Let_def demo_sha_def)
  from sha1_input_after_result [OF r, of 100 1 300 4] r show ?thesis by simp
qed

end
