(* ===== verification/BTree.thy ===== *)
theory BTree
  imports SHA1 Mutex IHeap "HOL-Library.Tree"
begin

text \<open>
  The search tree of ext/init/lib/btree.cpp. Records are kept in a store from addresses to headers,
  each followed by its data; \<open>m_p_first\<close> is the root. \<open>halloc\<close> and \<open>hfree\<close> are the operations of the
  iHeap behind \<open>m_p_heap\<close>. Following a pointer to no record is \<open>None\<close>, which is what deleting the
  only record of a tree runs into.

  \<open>tr\<close> relates a linked tree with its parent pointers to a \<open>tree\<close> of addresses; the theory shows that
  adding, looking up and deleting records is what a map from keys to data does.
\<close>

section \<open>The class\<close>

record bth =
  pl :: ptr
  pr :: ptr
  pp :: ptr
  key :: u64
  dsize :: u32
  bdata :: "u8 list"

record 'h cbtree =
  bt_heap :: "'h option"
  bt_mutex :: "cmutex option"
  m_p_first :: ptr
  recs :: "ptr \<rightharpoonup> bth"

definition sizeof_bth :: nat where
  "sizeof_bth = 36"

text \<open>The key of some data: the first eight bytes of its digest, in a local variable at \<open>KEY_ADDR\<close>.\<close>

definition KEY_ADDR :: ptr where
  "KEY_ADDR = 8"

definition le64 :: "u8 list \<Rightarrow> u64" where
  "le64 bs = foldr (\<lambda>b a. ucast b + 256 * a) bs 0"

definition make_key :: "SHA1Context \<Rightarrow> mem \<Rightarrow> ptr \<Rightarrow> u32 \<Rightarrow> u64 option" where
  "make_key shcxt m data sz =
     (let c = snd (SHA1Reset (Some shcxt));
          c = snd (SHA1Input m c data sz)
      in do {
           (e, c, m) \<leftarrow> SHA1Result (\<lambda>a. if KEY_ADDR \<le> a \<and> a < KEY_ADDR + 8 then 0 else m a) c KEY_ADDR 8;
           Some (le64 (bytes m KEY_ADDR 8))
         })"

definition cBTree_init :: "'h cbtree \<Rightarrow> 'h option \<Rightarrow> 'h cbtree" where
  "cBTree_init t p_heap = t\<lparr>bt_heap := p_heap\<rparr>"

definition cBTree_lock :: "'h cbtree \<Rightarrow> u64 \<Rightarrow> (u64 \<times> 'h cbtree) option" where
  "cBTree_lock t hlock =
     (case bt_mutex t of None \<Rightarrow> Some (0, t)
      | Some x \<Rightarrow> map_option (\<lambda>(r, x'). (r, t\<lparr>bt_mutex := Some x'\<rparr>)) (cMutex_lock x hlock MUTEX_TIMEOUT_INFINITE 0))"

definition cBTree_unlock :: "'h cbtree \<Rightarrow> u64 \<Rightarrow> 'h cbtree" where
  "cBTree_unlock t hlock =
     (case bt_mutex t of None \<Rightarrow> t | Some x \<Rightarrow> t\<lparr>bt_mutex := Some (cMutex_unlock x hlock)\<rparr>)"

partial_function (option) bfind_loop :: "(ptr \<rightharpoonup> bth) \<Rightarrow> u64 \<Rightarrow> ptr \<Rightarrow> ptr \<Rightarrow> (bool \<times> ptr) option" where
  "bfind_loop h k pc la =
     (if pc \<noteq> 0 then
        do {
          b \<leftarrow> h pc;
          if k = key b then Some (True, pc)
          else bfind_loop h k (if k < key b then pl b else pr b) pc
        }
      else Some (False, la))"

definition bfind :: "'h cbtree \<Rightarrow> u64 \<Rightarrow> ptr \<Rightarrow> (bool \<times> ptr) option" where
  "bfind t k p_begin =
     (let p = (if p_begin \<noteq> 0 then p_begin else m_p_first t) in bfind_loop (recs t) k p p)"

text \<open>A store into the record at \<open>p\<close>.\<close>

definition wr_rec :: "(ptr \<rightharpoonup> bth) \<Rightarrow> ptr \<Rightarrow> (bth \<Rightarrow> bth) \<Rightarrow> (ptr \<rightharpoonup> bth) option" where
  "wr_rec h p f = map_option (\<lambda>b. h(p \<mapsto> f b)) (h p)"

definition attach :: "'h cbtree \<Rightarrow> ptr \<Rightarrow> ptr \<Rightarrow> 'h cbtree option" where
  "attach t p_rec p_parent =
     do {
       b \<leftarrow> recs t p_rec;
       (r, ppr) \<leftarrow> bfind t (key b) p_parent;
       if \<not> r \<and> ppr \<noteq> 0 then
         do {
           q \<leftarrow> recs t ppr;
           h \<leftarrow> wr_rec (recs t) ppr (if key b < key q then pl_update (\<lambda>_. p_rec) else pr_update (\<lambda>_. p_rec));
           h \<leftarrow> wr_rec h p_rec (pp_update (\<lambda>_. ppr));
           Some (t\<lparr>recs := h\<rparr>)
         }
       else Some t
     }"

definition alloc_record :: "(u32 \<Rightarrow> 'h \<Rightarrow> (ptr \<times> 'h) option) \<Rightarrow> 'h cbtree \<Rightarrow> u32 \<Rightarrow> (ptr \<times> 'h cbtree) option" where
  "alloc_record halloc t sz =
     (case bt_heap t of
        None \<Rightarrow> Some (0, t)
      | Some hp \<Rightarrow>
          do {
            (r, hp) \<leftarrow> halloc (sz + of_nat sizeof_bth) hp;
            let t = t\<lparr>bt_heap := Some hp\<rparr>;
            Some (r, if r \<noteq> 0
                     then t\<lparr>recs := (recs t)(r \<mapsto> \<lparr>pl = 0, pr = 0, pp = 0, key = 0, dsize = sz, bdata = []\<rparr>)\<rparr>
                     else t)
          })"

definition add_body ::
    "(u32 \<Rightarrow> 'h \<Rightarrow> (ptr \<times> 'h) option) \<Rightarrow> 'h cbtree \<Rightarrow> u64 \<Rightarrow> u8 list \<Rightarrow> u32 \<Rightarrow> (u64 \<times> 'h cbtree) option" where
  "add_body halloc t k data sz =
     do {
       (f, p_rec) \<leftarrow> bfind t k 0;
       if f then
         (if p_rec \<noteq> 0 then do { b \<leftarrow> recs t p_rec; Some (key b, t) } else Some (0, t))
       else
         do {
           (p_new, t) \<leftarrow> alloc_record halloc t sz;
           if p_new \<noteq> 0 then
             do {
               h \<leftarrow> wr_rec (recs t) p_new (\<lambda>b. b\<lparr>key := k, bdata := data\<rparr>);
               let t = t\<lparr>recs := h\<rparr>;
               t \<leftarrow> (if p_rec \<noteq> 0 then attach t p_new p_rec else Some (t\<lparr>m_p_first := p_new\<rparr>));
               Some (k, t)
             }
           else Some (0, t)
         }
     }"

definition cBTree_add ::
    "(u32 \<Rightarrow> 'h \<Rightarrow> (ptr \<times> 'h) option) \<Rightarrow> SHA1Context \<Rightarrow> mem \<Rightarrow> 'h cbtree \<Rightarrow> ptr \<Rightarrow> u32 \<Rightarrow> u64 \<Rightarrow> (u64 \<times> 'h cbtree) option" where
  "cBTree_add halloc shcxt m t data sz hlock =
     do {
       (hl, t) \<leftarrow> cBTree_lock t hlock;
       k \<leftarrow> make_key shcxt m data sz;
       (r, t) \<leftarrow> add_body halloc t k (bytes m data (unat sz)) sz;
       Some (r, cBTree_unlock t hl)
     }"

text \<open>\<open>get\<close> returns the address of the data, or null, and the size stored with it.\<close>

definition cBTree_get :: "'h cbtree \<Rightarrow> u64 \<Rightarrow> u64 \<Rightarrow> (ptr \<times> u32 \<times> 'h cbtree) option" where
  "cBTree_get t k hlock =
     do {
       (hl, t) \<leftarrow> cBTree_lock t hlock;
       (f, p_rec) \<leftarrow> bfind t k 0;
       if f then do { b \<leftarrow> recs t p_rec; Some (p_rec + sizeof_bth, dsize b, cBTree_unlock t hl) }
       else Some (0, 0, cBTree_unlock t hl)
     }"

text \<open>Taking a record out of its parent, or making one of its subtrees the tree: the tree and the
  subtrees that are left to attach.\<close>

definition detach :: "'h cbtree \<Rightarrow> ptr \<Rightarrow> bth \<Rightarrow> ('h cbtree \<times> ptr \<times> ptr) option" where
  "detach t p_rec b =
     (if pp b \<noteq> 0 then
        do {
          q \<leftarrow> recs t (pp b);
          h \<leftarrow> (if pl q = p_rec then wr_rec (recs t) (pp b) (pl_update (\<lambda>_. 0))
                else if pr q = p_rec then wr_rec (recs t) (pp b) (pr_update (\<lambda>_. 0))
                else Some (recs t));
          Some (t\<lparr>recs := h\<rparr>, pl b, pr b)
        }
      else if p_rec = m_p_first t then
        if pr b \<noteq> 0 then
          do { h \<leftarrow> wr_rec (recs t) (pr b) (pp_update (\<lambda>_. 0)); Some (t\<lparr>recs := h, m_p_first := pr b\<rparr>, pl b, 0) }
        else
          do { h \<leftarrow> wr_rec (recs t) (pl b) (pp_update (\<lambda>_. 0)); Some (t\<lparr>recs := h, m_p_first := pl b\<rparr>, 0, pr b) }
      else Some (t, pl b, pr b))"

definition del_body :: "(ptr \<Rightarrow> u32 \<Rightarrow> 'h \<Rightarrow> 'h option) \<Rightarrow> 'h cbtree \<Rightarrow> u64 \<Rightarrow> 'h cbtree option" where
  "del_body hfree t k =
     do {
       (f, p_rec) \<leftarrow> bfind t k 0;
       if f then
         do {
           b \<leftarrow> recs t p_rec;
           (t, l, r) \<leftarrow> detach t p_rec b;
           t \<leftarrow> (if l \<noteq> 0 then attach t l 0 else Some t);
           t \<leftarrow> (if r \<noteq> 0 then attach t r 0 else Some t);
           case bt_heap t of
             None \<Rightarrow> Some t
           | Some hp \<Rightarrow> do { hp \<leftarrow> hfree p_rec (dsize b + of_nat sizeof_bth) hp;
                             Some (t\<lparr>bt_heap := Some hp, recs := (recs t)(p_rec := None)\<rparr>) }
         }
       else Some t
     }"

definition cBTree_del :: "(ptr \<Rightarrow> u32 \<Rightarrow> 'h \<Rightarrow> 'h option) \<Rightarrow> 'h cbtree \<Rightarrow> u64 \<Rightarrow> u64 \<Rightarrow> 'h cbtree option" where
  "cBTree_del hfree t k hlock =
     do { (hl, t) \<leftarrow> cBTree_lock t hlock; t \<leftarrow> del_body hfree t k; Some (cBTree_unlock t hl) }"

section \<open>Linked trees\<close>

fun tr :: "(ptr \<rightharpoonup> bth) \<Rightarrow> ptr \<Rightarrow> ptr \<Rightarrow> ptr tree \<Rightarrow> bool" where
  "tr h pa p Leaf \<longleftrightarrow> p = 0"
| "tr h pa p (Node l q r) \<longleftrightarrow> p = q \<and> q \<noteq> 0 \<and>
     (\<exists>b. h q = Some b \<and> pp b = pa \<and> tr h q (pl b) l \<and> tr h q (pr b) r)"

definition keyof :: "(ptr \<rightharpoonup> bth) \<Rightarrow> ptr \<Rightarrow> u64" where
  "keyof h q = (case h q of None \<Rightarrow> 0 | Some b \<Rightarrow> key b)"

text \<open>A search tree over the keys \<open>f\<close>.\<close>

fun bstree :: "(ptr \<Rightarrow> u64) \<Rightarrow> ptr tree \<Rightarrow> bool" where
  "bstree f Leaf \<longleftrightarrow> True"
| "bstree f (Node l q r) \<longleftrightarrow> bstree f l \<and> bstree f r \<and> (\<forall>x\<in>set_tree l. f x < f q) \<and> (\<forall>x\<in>set_tree r. f q < f x)"

lemma tr_cong: "tr h pa p t \<Longrightarrow> (\<And>q. q \<in> set_tree t \<Longrightarrow> h' q = h q) \<Longrightarrow> tr h' pa p t"
  by (induction t arbitrary: pa p) auto

lemma bstree_cong: "bstree f t \<Longrightarrow> (\<And>q. q \<in> set_tree t \<Longrightarrow> g q = f q) \<Longrightarrow> bstree g t"
  by (induction t) auto

lemma tr_dom: "tr h pa p t \<Longrightarrow> q \<in> set_tree t \<Longrightarrow> q \<noteq> 0 \<and> (\<exists>b. h q = Some b)"
  by (induction t arbitrary: pa p) auto

lemma tr_root: "tr h pa p t \<Longrightarrow> t \<noteq> Leaf \<Longrightarrow> p \<in> set_tree t"
  by (cases t) auto

lemma tr_null: "tr h pa p t \<Longrightarrow> p = 0 \<longleftrightarrow> t = Leaf"
  by (cases t) auto

lemma bst_apart: "bstree f (Node l q r) \<Longrightarrow> q \<notin> set_tree l \<and> q \<notin> set_tree r \<and> set_tree l \<inter> set_tree r = {}"
  by (auto dest: less_asym less_trans)

text \<open>Changing the parent pointer of the root.\<close>

lemma tr_reparent:
  assumes "tr h pa p t" "bstree f t" "h p = Some b" "t \<noteq> Leaf"
  shows "tr (h(p \<mapsto> b\<lparr>pp := pa'\<rparr>)) pa' p t"
proof (cases t)
  case (Node l q r)
  then have "q \<notin> set_tree l" "q \<notin> set_tree r" using bst_apart assms(2) by blast+
  then show ?thesis using assms Node by (auto elim!: tr_cong)
qed (use assms in simp)

section \<open>Searching\<close>

fun fin :: "(ptr \<Rightarrow> u64) \<Rightarrow> u64 \<Rightarrow> ptr \<Rightarrow> ptr tree \<Rightarrow> bool \<times> ptr" where
  "fin f k la Leaf = (False, la)"
| "fin f k la (Node l q r) = (if k = f q then (True, q) else fin f k q (if k < f q then l else r))"

lemma bfind_loop_tr: "tr h pa p t \<Longrightarrow> bfind_loop h k p la = Some (fin (keyof h) k la t)"
proof (induction t arbitrary: pa p la)
  case Leaf
  then show ?case by (subst bfind_loop.simps) simp
next
  case (Node l q r)
  then obtain b where b: "p = q" "q \<noteq> 0" "h q = Some b" "tr h q (pl b) l" "tr h q (pr b) r" by auto
  then have "keyof h q = key b" by (simp add: keyof_def)
  then show ?case using b Node.IH(1) [OF b(4)] Node.IH(2) [OF b(5)] by (subst bfind_loop.simps) simp
qed

lemma fin_True: "fin f k la t = (True, q) \<Longrightarrow> q \<in> set_tree t \<and> f q = k"
  by (induction t arbitrary: la) (auto split: if_splits)

lemma fin_found: "bstree f t \<Longrightarrow> q \<in> set_tree t \<Longrightarrow> f q = k \<Longrightarrow> fin f k la t = (True, q)"
  by (induction t arbitrary: la) auto

lemma fin_False: "fin f k la t = (False, w) \<Longrightarrow> bstree f t \<Longrightarrow> k \<notin> f ` set_tree t"
  using fin_found by fastforce

lemma fin_cong: "\<forall>q\<in>set_tree t. g q = f q \<Longrightarrow> fin g k la t = fin f k la t"
  by (induction t arbitrary: la) auto

lemma fin_last: "fin f k la t = (False, w) \<Longrightarrow> w \<in> insert la (set_tree t)"
  by (induction t arbitrary: la) (auto split: if_splits)

text \<open>Where the search ends, the record has no child on the side of the key.\<close>

lemma fin_child:
  assumes "tr h pa p t" "fin (keyof h) k la t = (False, w)" "t \<noteq> Leaf"
  shows "w \<in> set_tree t \<and> (\<exists>b. h w = Some b \<and> k \<noteq> key b \<and> (if k < key b then pl b else pr b) = 0)"
  using assms
proof (induction t arbitrary: pa p la)
  case (Node l q r)
  then obtain b where b: "p = q" "q \<noteq> 0" "h q = Some b" "tr h q (pl b) l" "tr h q (pr b) r" by auto
  then have kb: "keyof h q = key b" by (simp add: keyof_def)
  let ?s = "if k < key b then l else r"
  have s: "fin (keyof h) k q ?s = (False, w)" "k \<noteq> key b" using Node.prems(2) kb by (auto split: if_splits)
  show ?case
  proof (cases "?s = Leaf")
    case True
    then have "w = q" "(if k < key b then pl b else pr b) = 0" using s b by (auto split: if_splits)
    then show ?thesis using b s by auto
  next
    case False
    have "w \<in> set_tree ?s \<and> (\<exists>b. h w = Some b \<and> k \<noteq> key b \<and> (if k < key b then pl b else pr b) = 0)"
    proof (cases "k < key b")
      case True
      then show ?thesis using Node.IH(1) [OF b(4), of q] s False by simp
    next
      case f: False
      then show ?thesis using Node.IH(2) [OF b(5), of q] s False by simp
    qed
    then show ?thesis by (auto split: if_splits)
  qed
qed simp

section \<open>Grafting a tree\<close>

fun graft :: "(ptr \<Rightarrow> u64) \<Rightarrow> u64 \<Rightarrow> ptr tree \<Rightarrow> ptr tree \<Rightarrow> ptr tree" where
  "graft f k s Leaf = s"
| "graft f k s (Node l q r) = (if k < f q then Node (graft f k s l) q r else Node l q (graft f k s r))"

lemma graft_set [simp]: "set_tree (graft f k s t) = set_tree t \<union> set_tree s"
  by (induction t) auto

text \<open>All keys of \<open>s\<close> lie where \<open>k\<close> does among the keys of \<open>t\<close>.\<close>

definition gap :: "(ptr \<Rightarrow> u64) \<Rightarrow> u64 \<Rightarrow> ptr tree \<Rightarrow> ptr tree \<Rightarrow> bool" where
  "gap f k s t \<longleftrightarrow> (\<forall>q\<in>set_tree t. \<forall>x\<in>set_tree s. (k < f q \<longrightarrow> f x < f q) \<and> (\<not> k < f q \<longrightarrow> f q < f x))"

lemma bstree_graft: "bstree f t \<Longrightarrow> bstree f s \<Longrightarrow> gap f k s t \<Longrightarrow> bstree f (graft f k s t)"
  by (induction t) (auto simp: gap_def)

text \<open>The effect of attaching the tree \<open>s\<close> with root \<open>c\<close> at the place \<open>w\<close> where the search ends.\<close>

definition linked :: "(ptr \<rightharpoonup> bth) \<Rightarrow> u64 \<Rightarrow> ptr \<Rightarrow> ptr \<Rightarrow> (ptr \<rightharpoonup> bth)" where
  "linked h k c w = (let h' = h(w := map_option (\<lambda>b. if k < key b then b\<lparr>pl := c\<rparr> else b\<lparr>pr := c\<rparr>) (h w))
     in h'(c := map_option (\<lambda>b. b\<lparr>pp := w\<rparr>) (h' c)))"

lemma linked_other: "q \<noteq> c \<Longrightarrow> q \<noteq> w \<Longrightarrow> linked h k c w q = h q"
  by (simp add: linked_def Let_def)

lemma linked_key [simp]: "keyof (linked h k c w) = keyof h"
  by (auto simp: fun_eq_iff linked_def keyof_def Let_def split: option.splits)

lemma tr_linked:
  assumes "tr h pa p t" "bstree (keyof h) t" "t \<noteq> Leaf" "fin (keyof h) k la t = (False, w)"
    and s: "tr h pc c s" "bstree (keyof h) s" "s \<noteq> Leaf" "set_tree s \<inter> set_tree t = {}"
  shows "tr (linked h k c w) pa p (graft (keyof h) k s t)"
  using assms(1-4) s(4)
proof (induction t arbitrary: pa p la)
  case (Node l q r)
  then obtain b where b: "p = q" "q \<noteq> 0" "h q = Some b" "pp b = pa" "tr h q (pl b) l" "tr h q (pr b) r" by auto
  then have kb: "keyof h q = key b" by (simp add: keyof_def)
  have cs: "c \<in> set_tree s" using tr_root [OF s(1,3)] .
  have cq: "c \<noteq> q" using cs Node.prems(5) by auto
  have ap: "q \<notin> set_tree l" "q \<notin> set_tree r" "set_tree l \<inter> set_tree r = {}"
    using bst_apart [OF Node.prems(2)] by auto
  let ?h = "linked h k c w"
  let ?t = "if k < key b then l else r"
  have fn: "fin (keyof h) k q ?t = (False, w)" "k \<noteq> key b" using Node.prems(4) kb by (auto split: if_splits)
  show ?case
  proof (cases "?t = Leaf")
    case True
    then have w: "w = q" using fn by simp
    obtain d where d: "h c = Some d" using tr_dom [OF s(1) cs] by blast
    have hc: "?h c = Some (d\<lparr>pp := q\<rparr>)" "?h q = Some (if k < key b then b\<lparr>pl := c\<rparr> else b\<lparr>pr := c\<rparr>)"
      using w cq d b(3) by (auto simp: linked_def Let_def)
    have "tr (h(c \<mapsto> d\<lparr>pp := q\<rparr>)) q c s" using tr_reparent [OF s(1,2) d s(3)] .
    moreover have "?h x = (h(c \<mapsto> d\<lparr>pp := q\<rparr>)) x" if "x \<in> set_tree s" for x
    proof (cases "x = c")
      case False
      moreover have "x \<noteq> w" using that w Node.prems(5) by auto
      ultimately show ?thesis using linked_other [of x c w h k] by simp
    qed (use hc in simp)
    ultimately have st: "tr ?h q c s" by (rule tr_cong)
    have "tr ?h q x y" if "tr h q x y" "set_tree y \<subseteq> set_tree l \<or> set_tree y \<subseteq> set_tree r" for x y
      by (rule tr_cong [OF that(1)], rule linked_other) (use that(2) ap w cs Node.prems(5) in auto)
    with b st hc True kb show ?thesis by (auto split: if_splits)
  next
    case False
    have wt: "w \<in> set_tree ?t"
      using fin_child [OF _ fn(1) False] b by (auto split: if_splits)
    have hq: "?h q = Some b" using linked_other [of q c w h k] cq wt ap b(3) by (auto split: if_splits)
    show ?thesis
    proof (cases "k < key b")
      case True
      have "tr ?h q (pl b) (graft (keyof h) k s l)"
        using Node.IH(1) [OF b(5), of q] Node.prems fn True False by auto
      moreover have "tr ?h q (pr b) r"
        by (rule tr_cong [OF b(6)], rule linked_other) (use wt True ap cs Node.prems(5) in auto)
      ultimately show ?thesis using b hq kb True by simp
    next
      case f: False
      have "tr ?h q (pr b) (graft (keyof h) k s r)"
        using Node.IH(2) [OF b(6), of q] Node.prems fn f False by auto
      moreover have "tr ?h q (pl b) l"
        by (rule tr_cong [OF b(5)], rule linked_other) (use wt f ap cs Node.prems(5) in auto)
      ultimately show ?thesis using b hq kb f by simp
    qed
  qed
qed simp

section \<open>The object\<close>

text \<open>The tree of an object, the records in it, and the map from keys to data it stands for.\<close>

definition bt_tree :: "'h cbtree \<Rightarrow> ptr tree \<Rightarrow> bool" where
  "bt_tree t T \<longleftrightarrow> tr (recs t) 0 (m_p_first t) T \<and> bstree (keyof (recs t)) T"

definition dataof :: "(ptr \<rightharpoonup> bth) \<Rightarrow> ptr \<Rightarrow> u32 \<times> u8 list" where
  "dataof h q = (case h q of None \<Rightarrow> (0, []) | Some b \<Rightarrow> (dsize b, bdata b))"

definition bt_map :: "(ptr \<rightharpoonup> bth) \<Rightarrow> ptr tree \<Rightarrow> (u64 \<rightharpoonup> u32 \<times> u8 list)" where
  "bt_map h T = (\<lambda>k. if k \<in> keyof h ` set_tree T
     then Some (dataof h (snd (fin (keyof h) k 0 T))) else None)"

lemma bt_map_found: "bstree (keyof h) T \<Longrightarrow> q \<in> set_tree T \<Longrightarrow> bt_map h T (keyof h q) = Some (dataof h q)"
  using fin_found [of "keyof h" T q "keyof h q" 0] by (auto simp: bt_map_def)

lemma bt_map_none: "k \<notin> keyof h ` set_tree T \<Longrightarrow> bt_map h T k = None"
  by (simp add: bt_map_def)

text \<open>Two search trees with the same records stand for the same map.\<close>

lemma bt_map_eqI:
  assumes "bstree (keyof h) T" "bstree (keyof h') T'" "set_tree T' = set_tree T"
    and "\<And>q. q \<in> set_tree T \<Longrightarrow> keyof h' q = keyof h q \<and> dataof h' q = dataof h q"
  shows "bt_map h' T' = bt_map h T"
proof
  fix k
  show "bt_map h' T' k = bt_map h T k"
  proof (cases "k \<in> keyof h ` set_tree T")
    case True
    then obtain q where q: "q \<in> set_tree T" "k = keyof h q" by blast
    then show ?thesis using bt_map_found [OF assms(1) q(1)] bt_map_found [OF assms(2), of q] assms(3,4) by simp
  next
    case False
    moreover have "keyof h' ` set_tree T' = keyof h ` set_tree T" using assms(3,4) by (auto simp: image_iff)
    ultimately show ?thesis by (simp add: bt_map_def)
  qed
qed

lemma linked_data [simp]: "dataof (linked h k c w) = dataof h"
  by (auto simp: fun_eq_iff linked_def dataof_def Let_def split: option.splits)

lemma bfind_tree:
  assumes "bt_tree t T"
  shows "bfind t k 0 = Some (fin (keyof (recs t)) k (m_p_first t) T)"
  using assms bfind_loop_tr [of "recs t" 0 "m_p_first t" T k "m_p_first t"] by (simp add: bfind_def bt_tree_def Let_def)

text \<open>Attaching a tree grafts it, also when the search starts where an earlier one ended.\<close>

lemma attach_link:
  assumes "recs t c = Some b" "bfind t (key b) p = Some (False, w)" "w \<noteq> 0" "recs t w = Some q" "w \<noteq> c"
  shows "attach t c p = Some (t\<lparr>recs := linked (recs t) (key b) c w\<rparr>)"
  using assms by (auto simp: attach_def wr_rec_def linked_def Let_def)

lemma attach_tree:
  assumes "bt_tree t T" "T \<noteq> Leaf" "recs t c = Some b" "key b = k"
    and s: "tr (recs t) pc c s" "bstree (keyof (recs t)) s" "s \<noteq> Leaf" "set_tree s \<inter> set_tree T = {}"
    and gp: "gap (keyof (recs t)) k s T"
    and p: "p = 0 \<or> fin (keyof (recs t)) k (m_p_first t) T = (False, p)"
  shows "\<exists>w. attach t c p = Some (t\<lparr>recs := linked (recs t) k c w\<rparr>) \<and> w \<in> set_tree T \<and>
    bt_tree (t\<lparr>recs := linked (recs t) k c w\<rparr>) (graft (keyof (recs t)) k s T)"
proof -
  let ?h = "recs t"
  have T: "tr ?h 0 (m_p_first t) T" "bstree (keyof ?h) T" using assms(1) by (simp_all add: bt_tree_def)
  have cs: "c \<in> set_tree s" using tr_root [OF s(1,3)] .
  have "keyof ?h c = k" using assms(3,4) by (simp add: keyof_def)
  then have nk: "k \<noteq> keyof ?h q" if "q \<in> set_tree T" for q using gp that cs by (fastforce simp: gap_def)
  obtain w where w: "fin (keyof ?h) k (m_p_first t) T = (False, w)"
    by (metis (full_types) fin_True nk old.prod.exhaust)
  obtain bw where bw: "w \<in> set_tree T" "?h w = Some bw" "k \<noteq> key bw" "(if k < key bw then pl bw else pr bw) = 0"
    using fin_child [OF T(1) w assms(2)] by blast
  have w0: "w \<noteq> 0" using tr_dom [OF T(1) bw(1)] by blast
  have "bfind t k p = Some (False, w)"
  proof (cases "p = 0")
    case True
    then show ?thesis using bfind_tree [OF assms(1)] w by simp
  next
    case False
    then have "p = w" using p w by simp
    then have "bfind t k p = bfind_loop ?h k (if k < key bw then pl bw else pr bw) w"
      using w0 bw by (simp add: bfind_def Let_def bfind_loop.simps [of ?h k w])
    also have "\<dots> = Some (False, w)" using bw(4) by (subst bfind_loop.simps) simp
    finally show ?thesis .
  qed
  moreover have "w \<noteq> c" using bw(1) cs s(4) by auto
  ultimately have "attach t c p = Some (t\<lparr>recs := linked ?h k c w\<rparr>)"
    using attach_link [OF assms(3) _ w0 bw(2)] assms(4) by simp
  moreover have "tr (linked ?h k c w) 0 (m_p_first t) (graft (keyof ?h) k s T)"
    using tr_linked [OF T assms(2) w s] .
  ultimately show ?thesis using bstree_graft [OF T(2) s(2) gp] bw(1) by (auto simp: bt_tree_def)
qed

section \<open>Deleting\<close>

text \<open>The tree without the subtree at \<open>x\<close>.\<close>

fun prune :: "(ptr \<Rightarrow> u64) \<Rightarrow> ptr \<Rightarrow> ptr tree \<Rightarrow> ptr tree" where
  "prune f x Leaf = Leaf"
| "prune f x (Node l q r) =
     (if q = x then Leaf else if f x < f q then Node (prune f x l) q r else Node l q (prune f x r))"

fun subtree :: "(ptr \<Rightarrow> u64) \<Rightarrow> ptr \<Rightarrow> ptr tree \<Rightarrow> ptr tree" where
  "subtree f x Leaf = Leaf"
| "subtree f x (Node l q r) = (if q = x then Node l q r else if f x < f q then subtree f x l else subtree f x r)"

text \<open>All keys of the records in \<open>D\<close> are on one side of the key of \<open>y\<close>.\<close>

definition aside :: "(ptr \<Rightarrow> u64) \<Rightarrow> ptr \<Rightarrow> ptr set \<Rightarrow> bool" where
  "aside f y D \<longleftrightarrow> (\<forall>z\<in>D. f z < f y) \<or> (\<forall>z\<in>D. f y < f z)"

lemma aside_notin: "aside f y D \<Longrightarrow> y \<notin> D"
  by (auto simp: aside_def)

lemma aside_left: "bstree f (Node a q c) \<Longrightarrow> D \<subseteq> set_tree a \<Longrightarrow> y \<in> insert q (set_tree c) \<Longrightarrow> aside f y D"
  unfolding aside_def by (rule disjI1) (fastforce dest: less_trans)

lemma aside_right: "bstree f (Node a q c) \<Longrightarrow> D \<subseteq> set_tree c \<Longrightarrow> y \<in> insert q (set_tree a) \<Longrightarrow> aside f y D"
  unfolding aside_def by (rule disjI2) (fastforce dest: less_trans)

lemma subtree_at:
  assumes "tr h pa p t" "bstree f t" "x \<in> set_tree t"
  shows "\<exists>l r pq. subtree f x t = Node l x r \<and> tr h pq x (Node l x r) \<and> bstree f (Node l x r) \<and>
    set_tree t = set_tree (prune f x t) \<union> set_tree (Node l x r) \<and>
    (\<forall>y\<in>set_tree (prune f x t). aside f y (set_tree (Node l x r)))"
  using assms
proof (induction t arbitrary: pa p)
  case (Node a q c)
  then obtain b where b: "p = q" "h q = Some b" "tr h q (pl b) a" "tr h q (pr b) c" by auto
  show ?case
  proof (cases "q = x")
    case True
    then show ?thesis using Node.prems by auto
  next
    case False
    let ?s = "if f x < f q then a else c"
    have "x \<in> set_tree ?s" using Node.prems(2,3) False by (auto dest: less_asym)
    then obtain l r pq where lr: "subtree f x ?s = Node l x r" "tr h pq x (Node l x r)" "bstree f (Node l x r)"
      "set_tree ?s = set_tree (prune f x ?s) \<union> set_tree (Node l x r)"
      "\<forall>y\<in>set_tree (prune f x ?s). aside f y (set_tree (Node l x r))"
      using Node.IH(1) [OF b(3)] Node.IH(2) [OF b(4)] Node.prems(2) by (auto simp del: tree.set split: if_splits)
    have sub: "set_tree (Node l x r) \<subseteq> set_tree ?s" using lr(4) by blast
    show ?thesis
    proof (cases "f x < f q")
      case True
      then have "\<forall>y\<in>set_tree (prune f x (Node a q c)). aside f y (set_tree (Node l x r))"
        using lr(5) False aside_left [OF Node.prems(2)] sub by auto
      moreover have "set_tree (Node a q c) = set_tree (prune f x (Node a q c)) \<union> set_tree (Node l x r)"
        using lr(4) True False by auto
      ultimately show ?thesis using lr(1-3) True False by auto
    next
      case f: False
      then have "\<forall>y\<in>set_tree (prune f x (Node a q c)). aside f y (set_tree (Node l x r))"
        using lr(5) False aside_right [OF Node.prems(2)] sub by auto
      moreover have "set_tree (Node a q c) = set_tree (prune f x (Node a q c)) \<union> set_tree (Node l x r)"
        using lr(4) f False by auto
      ultimately show ?thesis using lr(1-3) f False by auto
    qed
  qed
qed simp

text \<open>Clearing the child pointer of the parent prunes the tree.\<close>

definition cut :: "(ptr \<rightharpoonup> bth) \<Rightarrow> ptr \<Rightarrow> ptr \<Rightarrow> (ptr \<rightharpoonup> bth)" where
  "cut h pq x = h(pq := map_option (\<lambda>b. if pl b = x then b\<lparr>pl := 0\<rparr> else b\<lparr>pr := 0\<rparr>) (h pq))"

lemma cut_other: "a \<noteq> pq \<Longrightarrow> cut h pq x a = h a"
  by (simp add: cut_def)

lemma cut_frame [simp]: "keyof (cut h pq x) = keyof h" "dataof (cut h pq x) = dataof h"
  by (auto simp: fun_eq_iff cut_def keyof_def dataof_def split: option.splits)

lemma prune_sub: "set_tree (prune f x t) \<subseteq> set_tree t"
  by (induction t) auto

lemma prune_root: "tr h pa x t \<Longrightarrow> prune f x t = Leaf"
  by (cases t) auto

lemma tr_cut:
  assumes "tr h pa p t" "bstree f t" "x \<in> set_tree t" "x \<noteq> p"
  shows "\<exists>bx b. h x = Some bx \<and> pp bx \<in> set_tree (prune f x t) \<and> h (pp bx) = Some b \<and> (pl b = x \<or> pr b = x) \<and>
    tr (cut h (pp bx) x) pa p (prune f x t)"
  using assms
proof (induction t arbitrary: pa p)
  case (Node l q r)
  then obtain b where b: "p = q" "q \<noteq> 0" "h q = Some b" "pp b = pa" "tr h q (pl b) l" "tr h q (pr b) r" by auto
  have ap: "q \<notin> set_tree l" "q \<notin> set_tree r" "set_tree l \<inter> set_tree r = {}"
    using bst_apart [OF Node.prems(2)] by auto
  have xq: "x \<noteq> q" using Node.prems(4) b(1) by simp
  have keep: "tr (cut h y x) q z u" if "tr h q z u" "y \<notin> set_tree u" for y z u
    using that by (auto intro: tr_cong cut_other)
  show ?case
  proof (cases "f x < f q")
    case True
    then have xl: "x \<in> set_tree l" using Node.prems(2,3) xq by (auto dest: less_asym)
    show ?thesis
    proof (cases "x = pl b")
      case e: True
      obtain bx where bx: "h x = Some bx" "pp bx = q" using b(5) e xl by (cases l) auto
      have "prune f x l = Leaf" using b(5) e prune_root by blast
      then have "tr (cut h q x) pa p (prune f x (Node l q r))"
        using keep [OF b(6) ap(2)] b(1-4) True xq e by (simp add: cut_def)
      then show ?thesis using bx b(3) e True xq by auto
    next
      case ne: False
      obtain bx c where c: "h x = Some bx" "pp bx \<in> set_tree (prune f x l)" "h (pp bx) = Some c" "pl c = x \<or> pr c = x"
        "tr (cut h (pp bx) x) q (pl b) (prune f x l)"
        using Node.IH(1) [OF b(5) _ xl ne] Node.prems(2) by auto
      have pq: "pp bx \<in> set_tree l" using c(2) prune_sub by blast
      then have "cut h (pp bx) x q = Some b" "tr (cut h (pp bx) x) q (pr b) r"
        using ap b(3) keep [OF b(6)] cut_other [of q "pp bx" h x] by auto
      then show ?thesis using c b(1,2,4) True xq by auto
    qed
  next
    case False
    then have xr: "x \<in> set_tree r" using Node.prems(2,3) xq by auto
    have xpl: "pl b \<noteq> x"
    proof
      assume "pl b = x"
      then have "l \<noteq> Leaf" using b(5) tr_dom [OF b(6) xr] by auto
      then show False using tr_root [OF b(5)] \<open>pl b = x\<close> xr ap(3) by auto
    qed
    show ?thesis
    proof (cases "x = pr b")
      case e: True
      obtain bx where bx: "h x = Some bx" "pp bx = q" using b(6) e xr by (cases r) auto
      have "prune f x r = Leaf" using b(6) e prune_root by blast
      then have "tr (cut h q x) pa p (prune f x (Node l q r))"
        using keep [OF b(5) ap(1)] b(1-4) False xq e xpl by (simp add: cut_def)
      then show ?thesis using bx b(3) e False xq by auto
    next
      case ne: False
      obtain bx c where c: "h x = Some bx" "pp bx \<in> set_tree (prune f x r)" "h (pp bx) = Some c" "pl c = x \<or> pr c = x"
        "tr (cut h (pp bx) x) q (pr b) (prune f x r)"
        using Node.IH(2) [OF b(6) _ xr ne] Node.prems(2) by auto
      have pq: "pp bx \<in> set_tree r" using c(2) prune_sub by blast
      then have "cut h (pp bx) x q = Some b" "tr (cut h (pp bx) x) q (pl b) l"
        using ap b(3) keep [OF b(5)] cut_other [of q "pp bx" h x] by auto
      then show ?thesis using c b(1,2,4) False xq by auto
    qed
  qed
qed simp

text \<open>Attaching a subtree, or nothing when there is none.\<close>

lemma attach_sub:
  assumes "bt_tree t T" "T \<noteq> Leaf" "tr (recs t) pc c s" "bstree (keyof (recs t)) s"
    and "\<forall>y\<in>set_tree T. aside (keyof (recs t)) y (set_tree s)"
  shows "\<exists>h' T'. (if c \<noteq> 0 then attach t c 0 else Some t) = Some (t\<lparr>recs := h'\<rparr>) \<and> bt_tree (t\<lparr>recs := h'\<rparr>) T' \<and>
    set_tree T' = set_tree T \<union> set_tree s \<and> T' \<noteq> Leaf \<and> keyof h' = keyof (recs t) \<and> dataof h' = dataof (recs t) \<and>
    (\<forall>q. q \<notin> set_tree T \<union> set_tree s \<longrightarrow> h' q = recs t q)"
proof (cases "s = Leaf")
  case True
  then show ?thesis using assms(1-3) by (intro exI [of _ "recs t"] exI [of _ T]) simp
next
  case False
  have c: "c \<noteq> 0" "c \<in> set_tree s" using tr_null [OF assms(3)] tr_root [OF assms(3)] False by auto
  obtain b where b: "recs t c = Some b" using tr_dom [OF assms(3) c(2)] by blast
  then have kb: "keyof (recs t) c = key b" by (simp add: keyof_def)
  have dj: "set_tree s \<inter> set_tree T = {}" using assms(5) aside_notin by blast
  have gp: "gap (keyof (recs t)) (key b) s T"
    using assms(5) c(2) kb by (fastforce simp: gap_def aside_def)
  obtain w where w: "attach t c 0 = Some (t\<lparr>recs := linked (recs t) (key b) c w\<rparr>)" "w \<in> set_tree T"
    "bt_tree (t\<lparr>recs := linked (recs t) (key b) c w\<rparr>) (graft (keyof (recs t)) (key b) s T)"
    using attach_tree [OF assms(1,2) b refl assms(3,4) False dj gp] by blast
  have "graft (keyof (recs t)) (key b) s T \<noteq> Leaf" using assms(2) by (cases T) auto
  moreover have "linked (recs t) (key b) c w q = recs t q" if "q \<notin> set_tree T \<union> set_tree s" for q
    using that w(2) c(2) by (intro linked_other) auto
  ultimately show ?thesis using w c(1)
    by (intro exI [of _ "linked (recs t) (key b) c w"] exI [of _ "graft (keyof (recs t)) (key b) s T"]) auto
qed

text \<open>What is left of a deletion once the record is detached.\<close>

lemma reattach:
  assumes "bt_tree t T" "T \<noteq> Leaf" "tr (recs t) pa c l" "tr (recs t) pb d r" "bstree (keyof (recs t)) (Node l x r)"
    and "\<forall>y\<in>set_tree T. aside (keyof (recs t)) y (set_tree (Node l x r))"
  shows "\<exists>h' T'. do { t \<leftarrow> (if c \<noteq> 0 then attach t c 0 else Some t); if d \<noteq> 0 then attach t d 0 else Some t }
      = Some (t\<lparr>recs := h'\<rparr>) \<and> bt_tree (t\<lparr>recs := h'\<rparr>) T' \<and>
    set_tree T' = set_tree T \<union> set_tree l \<union> set_tree r \<and> keyof h' = keyof (recs t) \<and> dataof h' = dataof (recs t)"
proof -
  let ?f = "keyof (recs t)"
  have bs: "bstree ?f l" "bstree ?f r" "\<forall>y\<in>set_tree l. \<forall>z\<in>set_tree r. ?f y < ?f z"
    using assms(5) by (auto dest: less_trans)
  have a: "\<forall>y\<in>set_tree T. aside ?f y (set_tree l)" "\<forall>y\<in>set_tree T. aside ?f y (set_tree r)"
    using assms(6) by (auto simp: aside_def)
  obtain h1 T1 where t1: "(if c \<noteq> 0 then attach t c 0 else Some t) = Some (t\<lparr>recs := h1\<rparr>)" "bt_tree (t\<lparr>recs := h1\<rparr>) T1"
    "set_tree T1 = set_tree T \<union> set_tree l" "T1 \<noteq> Leaf" "keyof h1 = ?f" "dataof h1 = dataof (recs t)"
    "\<forall>q. q \<notin> set_tree T \<union> set_tree l \<longrightarrow> h1 q = recs t q"
    using attach_sub [OF assms(1,2,3) bs(1) a(1)] by blast
  have "q \<notin> set_tree T \<union> set_tree l" if "q \<in> set_tree r" for q
    using that a(2) aside_notin [of ?f q "set_tree r"] bs(3) by auto
  then have r1: "tr h1 pb d r" using t1(7) by (intro tr_cong [OF assms(4)]) auto
  have "\<forall>y\<in>set_tree T1. aside ?f y (set_tree r)"
    using a(2) bs(3) t1(3) by (auto simp: aside_def)
  with attach_sub [of "t\<lparr>recs := h1\<rparr>" T1 pb d r] t1 r1 bs(2) obtain h2 T2 where
    "(if d \<noteq> 0 then attach (t\<lparr>recs := h1\<rparr>) d 0 else Some (t\<lparr>recs := h1\<rparr>)) = Some (t\<lparr>recs := h2\<rparr>)"
    "bt_tree (t\<lparr>recs := h2\<rparr>) T2" "set_tree T2 = set_tree T1 \<union> set_tree r" "keyof h2 = ?f" "dataof h2 = dataof (recs t)"
    by auto
  then show ?thesis using t1 by (intro exI [of _ h2] exI [of _ T2]) auto
qed

lemma detach_root:
  assumes "bt_tree t (Node l x r)" "recs t x = Some b" "l \<noteq> Leaf \<or> r \<noteq> Leaf"
  shows "\<exists>h' c. detach t x b = Some (t\<lparr>recs := h', m_p_first := (if r \<noteq> Leaf then pr b else pl b)\<rparr>, c, 0) \<and>
    bt_tree (t\<lparr>recs := h', m_p_first := (if r \<noteq> Leaf then pr b else pl b)\<rparr>) (if r \<noteq> Leaf then r else l) \<and>
    tr h' x c (if r \<noteq> Leaf then l else Leaf) \<and> keyof h' = keyof (recs t) \<and> dataof h' = dataof (recs t)"
proof -
  let ?h = "recs t"
  have t: "m_p_first t = x" "x \<noteq> 0" "pp b = 0" "tr ?h x (pl b) l" "tr ?h x (pr b) r" and bs: "bstree (keyof ?h) (Node l x r)"
    using assms(1,2) by (auto simp: bt_tree_def)
  let ?y = "if r \<noteq> Leaf then r else l"
  let ?p = "if r \<noteq> Leaf then pr b else pl b"
  have y: "tr ?h x ?p ?y" "bstree (keyof ?h) ?y" "?y \<noteq> Leaf" using t bs assms(3) by auto
  then obtain d where d: "?h ?p = Some d" "?p \<in> set_tree ?y" using tr_dom [OF y(1)] tr_root [OF y(1)] by blast
  let ?h' = "?h(?p \<mapsto> d\<lparr>pp := 0\<rparr>)"
  have fr: "keyof ?h' = keyof ?h" "dataof ?h' = dataof ?h" using d(1) by (auto simp: fun_eq_iff keyof_def dataof_def)
  have "tr ?h' 0 ?p ?y" using tr_reparent [OF y(1,2) d(1) y(3)] .
  moreover have "tr ?h' x (pl b) l" if "r \<noteq> Leaf"
    using that d(2) bst_apart [OF bs] by (intro tr_cong [OF t(4)]) auto
  moreover have "pr b = 0 \<longleftrightarrow> r = Leaf" using tr_null [OF t(5)] .
  ultimately show ?thesis using t d(1) fr y(2)
    by (intro exI [of _ ?h'] exI [of _ "if r \<noteq> Leaf then pl b else 0"]) (auto simp: detach_def wr_rec_def bt_tree_def)
qed

lemma detach_inner:
  assumes "bt_tree t T" "x \<in> set_tree T" "x \<noteq> m_p_first t" "recs t x = Some b"
  shows "\<exists>h'. detach t x b = Some (t\<lparr>recs := h'\<rparr>, pl b, pr b) \<and>
    bt_tree (t\<lparr>recs := h'\<rparr>) (prune (keyof (recs t)) x T) \<and> prune (keyof (recs t)) x T \<noteq> Leaf \<and>
    keyof h' = keyof (recs t) \<and> dataof h' = dataof (recs t) \<and>
    (\<forall>q. q \<notin> set_tree (prune (keyof (recs t)) x T) \<longrightarrow> h' q = recs t q)"
proof -
  let ?h = "recs t"
  have T: "tr ?h 0 (m_p_first t) T" "bstree (keyof ?h) T" using assms(1) by (simp_all add: bt_tree_def)
  obtain c where c: "pp b \<in> set_tree (prune (keyof ?h) x T)" "?h (pp b) = Some c" "pl c = x \<or> pr c = x"
    "tr (cut ?h (pp b) x) 0 (m_p_first t) (prune (keyof ?h) x T)"
    using tr_cut [OF T assms(2,3)] assms(4) by auto
  have p0: "pp b \<noteq> 0" using tr_dom [OF c(4,1)] by blast
  have "bstree (keyof ?h) (prune (keyof ?h) x T)"
    using T(2) prune_sub [of "keyof ?h" x] by (induction T) fastforce+
  moreover have "detach t x b = Some (t\<lparr>recs := cut ?h (pp b) x\<rparr>, pl b, pr b)"
    using p0 c(2,3) by (auto simp: detach_def wr_rec_def cut_def)
  moreover have "cut ?h (pp b) x q = ?h q" if "q \<notin> set_tree (prune (keyof ?h) x T)" for q
    using that c(1) by (intro cut_other) auto
  ultimately show ?thesis using c(1,4)
    by (intro exI [of _ "cut ?h (pp b) x"]) (auto simp: bt_tree_def)
qed

text \<open>Detaching a record that is not the only one and attaching its subtrees again.\<close>

lemma unlink_tree:
  assumes "bt_tree t T" "x \<in> set_tree T" "set_tree T \<noteq> {x}" "recs t x = Some b"
  shows "\<exists>h' T' pf. do { (t, l, r) \<leftarrow> detach t x b;
        t \<leftarrow> (if l \<noteq> 0 then attach t l 0 else Some t); if r \<noteq> 0 then attach t r 0 else Some t }
      = Some (t\<lparr>recs := h', m_p_first := pf\<rparr>) \<and> bt_tree (t\<lparr>recs := h', m_p_first := pf\<rparr>) T' \<and>
    set_tree T' = set_tree T - {x} \<and> keyof h' = keyof (recs t) \<and> dataof h' = dataof (recs t)"
proof -
  let ?h = "recs t"
  let ?f = "keyof ?h"
  have T: "tr ?h 0 (m_p_first t) T" "bstree ?f T" using assms(1) by (simp_all add: bt_tree_def)
  show ?thesis
  proof (cases "x = m_p_first t")
    case True
    then obtain l r where Tx: "T = Node l x r" using T(1) assms(2) by (cases T) auto
    then have ne: "l \<noteq> Leaf \<or> r \<noteq> Leaf" using assms(3) by auto
    let ?y = "if r \<noteq> Leaf then r else l"
    let ?z = "if r \<noteq> Leaf then l else Leaf"
    let ?p = "if r \<noteq> Leaf then pr b else pl b"
    obtain h1 c where d: "detach t x b = Some (t\<lparr>recs := h1, m_p_first := ?p\<rparr>, c, 0)"
      "bt_tree (t\<lparr>recs := h1, m_p_first := ?p\<rparr>) ?y" "tr h1 x c ?z" "keyof h1 = ?f" "dataof h1 = dataof ?h"
      using detach_root [OF assms(1) [unfolded Tx] assms(4) ne] by blast
    have lx: "\<forall>y\<in>set_tree l. ?f y < ?f x" "\<forall>y\<in>set_tree r. ?f x < ?f y" "bstree ?f l" using T(2) Tx by auto
    have bs1: "bstree ?f (Node ?z x Leaf)" using lx by auto
    have bs2: "aside ?f y (set_tree (Node ?z x Leaf))" if "y \<in> set_tree ?y" for y
    proof (cases "r = Leaf")
      case True
      then show ?thesis using that lx(1) by (simp add: aside_def)
    next
      case False
      then have "?f z < ?f y" if "z \<in> insert x (set_tree l)" for z
        using that lx \<open>y \<in> set_tree ?y\<close> less_trans [of "?f z" "?f x" "?f y"] by auto
      then show ?thesis using False by (simp add: aside_def)
    qed
    have xn: "x \<notin> set_tree l" "x \<notin> set_tree r" using bst_apart [of ?f l x r] T(2) Tx by auto
    let ?t1 = "t\<lparr>recs := h1, m_p_first := ?p\<rparr>"
    have yne: "?y \<noteq> Leaf" using ne by auto
    have z: "tr (recs ?t1) x c ?z" "tr (recs ?t1) 0 0 Leaf" "bstree (keyof (recs ?t1)) (Node ?z x Leaf)"
      "\<forall>y\<in>set_tree ?y. aside (keyof (recs ?t1)) y (set_tree (Node ?z x Leaf))"
      using d(3) bs1 bs2 by (simp_all del: tree.set bstree.simps add: d(4))
    obtain h2 T2 where e: "do { t \<leftarrow> (if c \<noteq> 0 then attach ?t1 c 0 else Some ?t1); if (0::ptr) \<noteq> 0 then attach t 0 0 else Some t }
        = Some (?t1\<lparr>recs := h2\<rparr>)" "bt_tree (?t1\<lparr>recs := h2\<rparr>) T2"
      "set_tree T2 = set_tree ?y \<union> set_tree ?z \<union> set_tree Leaf" "keyof h2 = keyof (recs ?t1)" "dataof h2 = dataof (recs ?t1)"
      using reattach [OF d(2) yne z] by blast
    have "set_tree T2 = set_tree T - {x}" using e(3) Tx xn by auto
    moreover have eq: "?t1\<lparr>recs := h2\<rparr> = t\<lparr>recs := h2, m_p_first := ?p\<rparr>" by simp
    ultimately show ?thesis using d(1,4,5) e(1,2,4,5) unfolding eq
      by (intro exI [of _ h2] exI [of _ T2] exI [of _ ?p]) (simp split del: if_split)
  next
    case False
    obtain h1 where d: "detach t x b = Some (t\<lparr>recs := h1\<rparr>, pl b, pr b)" "bt_tree (t\<lparr>recs := h1\<rparr>) (prune ?f x T)"
      "prune ?f x T \<noteq> Leaf" "keyof h1 = ?f" "dataof h1 = dataof ?h" "\<forall>q. q \<notin> set_tree (prune ?f x T) \<longrightarrow> h1 q = ?h q"
      using detach_inner [OF assms(1,2) False assms(4)] by blast
    obtain l r pq where lr: "tr ?h pq x (Node l x r)" "bstree ?f (Node l x r)"
      "set_tree T = set_tree (prune ?f x T) \<union> set_tree (Node l x r)"
      "\<forall>y\<in>set_tree (prune ?f x T). aside ?f y (set_tree (Node l x r))"
      using subtree_at [OF T assms(2)] by blast
    have notin: "q \<notin> set_tree (prune ?f x T)" if "q \<in> set_tree (Node l x r)" for q
      using that lr(4) aside_notin by blast
    have "tr h1 x (pl b) l" "tr h1 x (pr b) r"
      using lr(1) assms(4) d(6) notin by (auto intro: tr_cong)
    with reattach [OF d(2,3), of x "pl b" l x "pr b" r x] d(4,5) lr(2,4) obtain h2 T2 where
      "do { t \<leftarrow> (if pl b \<noteq> 0 then attach (t\<lparr>recs := h1\<rparr>) (pl b) 0 else Some (t\<lparr>recs := h1\<rparr>));
        if pr b \<noteq> 0 then attach t (pr b) 0 else Some t } = Some (t\<lparr>recs := h2\<rparr>)"
      "bt_tree (t\<lparr>recs := h2\<rparr>) T2" "set_tree T2 = set_tree (prune ?f x T) \<union> set_tree l \<union> set_tree r"
      "keyof h2 = ?f" "dataof h2 = dataof ?h"
      by (auto simp del: tree.set bstree.simps)
    moreover have "x \<notin> set_tree (prune ?f x T)" "x \<notin> set_tree l" "x \<notin> set_tree r"
      using notin [of x] bst_apart [OF lr(2)] by auto
    ultimately show ?thesis using d(1) lr(3)
      by (intro exI [of _ h2] exI [of _ T2] exI [of _ "m_p_first t"]) auto
  qed
qed

lemma bt_map_remove:
  assumes "bstree (keyof h) T" "bstree (keyof h') T'" "x \<in> set_tree T" "set_tree T' = set_tree T - {x}"
    and "\<And>q. q \<in> set_tree T' \<Longrightarrow> keyof h' q = keyof h q \<and> dataof h' q = dataof h q"
  shows "bt_map h' T' = (bt_map h T)(keyof h x := None)"
proof
  fix k
  have inj: "q = x" if "q \<in> set_tree T" "keyof h q = keyof h x" for q
    using fin_found [OF assms(1) that] fin_found [OF assms(1,3) refl] by (metis prod.inject)
  show "bt_map h' T' k = ((bt_map h T)(keyof h x := None)) k"
  proof (cases "k \<in> keyof h' ` set_tree T'")
    case True
    then obtain q where q: "q \<in> set_tree T'" "k = keyof h' q" by blast
    then have "q \<in> set_tree T" "q \<noteq> x" using assms(4) by auto
    then have "bt_map h T k = Some (dataof h' q)" "k \<noteq> keyof h x"
      using bt_map_found [OF assms(1), of q] assms(5) [OF q(1)] q(2) inj [of q] by metis+
    then show ?thesis using bt_map_found [OF assms(2) q(1)] q(2) by simp
  next
    case False
    have "k = keyof h x" if k: "k \<in> keyof h ` set_tree T"
    proof -
      from k obtain q where q: "q \<in> set_tree T" "k = keyof h q" by blast
      have "q \<notin> set_tree T'" using False q(2) assms(5) [of q] by force
      then show ?thesis using q assms(4) by auto
    qed
    then show ?thesis using False by (auto simp: bt_map_def)
  qed
qed

lemma bt_map_insert:
  assumes "bstree (keyof h) T" "bstree (keyof h') T'" "x \<notin> set_tree T" "set_tree T' = insert x (set_tree T)"
    and "\<And>q. q \<in> set_tree T \<Longrightarrow> keyof h' q = keyof h q \<and> dataof h' q = dataof h q"
  shows "bt_map h' T' = (bt_map h T)(keyof h' x \<mapsto> dataof h' x)"
proof
  fix k
  show "bt_map h' T' k = ((bt_map h T)(keyof h' x \<mapsto> dataof h' x)) k"
  proof (cases "k \<in> keyof h' ` set_tree T'")
    case True
    then obtain q where q: "q \<in> set_tree T'" "k = keyof h' q" by blast
    have x: "bt_map h' T' (keyof h' x) = Some (dataof h' x)" using bt_map_found [OF assms(2), of x] assms(4) by simp
    show ?thesis
    proof (cases "q = x")
      case False
      then have "q \<in> set_tree T" using q assms(4) by auto
      then have "bt_map h T k = Some (dataof h' q)" using bt_map_found [OF assms(1), of q] assms(5) [of q] q by simp
      then show ?thesis using bt_map_found [OF assms(2) q(1)] q x by (cases "k = keyof h' x") simp_all
    qed (use q x in simp)
  next
    case False
    then have "k \<noteq> keyof h' x" "k \<notin> keyof h ` set_tree T" using assms(4,5) by (auto simp: image_iff)
    then show ?thesis using False by (simp add: bt_map_def)
  qed
qed

lemma bt_tree_forget: "bt_tree t T \<Longrightarrow> x \<notin> set_tree T \<Longrightarrow> bt_tree (t\<lparr>bt_heap := hp, recs := (recs t)(x := None)\<rparr>) T"
  unfolding bt_tree_def by (auto elim!: tr_cong bstree_cong simp: keyof_def)

lemma bt_tree_heap [simp]: "bt_tree (t\<lparr>bt_heap := hp\<rparr>) T = bt_tree t T" "bt_tree (t\<lparr>bt_mutex := x\<rparr>) T = bt_tree t T"
  by (simp_all add: bt_tree_def)

lemma recs_found:
  assumes "bt_tree t T" "x \<in> set_tree T"
  obtains b where "recs t x = Some b" "keyof (recs t) x = key b" "dataof (recs t) x = (dsize b, bdata b)" "x \<noteq> 0"
    "bfind t (key b) 0 = Some (True, x)"
proof -
  obtain b where b: "recs t x = Some b" "x \<noteq> 0" using assms tr_dom unfolding bt_tree_def by blast
  then have "keyof (recs t) x = key b" by (simp add: keyof_def)
  then have "bfind t (key b) 0 = Some (True, x)"
    using bfind_tree [OF assms(1)] fin_found [of "keyof (recs t)" T x "key b"] assms by (simp add: bt_tree_def)
  with b that show thesis by (simp add: keyof_def dataof_def)
qed

lemma bfind_absent:
  assumes "bt_tree t T" "bt_map (recs t) T k = None"
  shows "\<exists>w. bfind t k 0 = Some (False, w) \<and> fin (keyof (recs t)) k (m_p_first t) T = (False, w) \<and> (w = 0 \<longleftrightarrow> T = Leaf)"
proof -
  have nk: "k \<notin> keyof (recs t) ` set_tree T" using assms(2) by (auto simp: bt_map_def split: if_splits)
  obtain f w where w: "fin (keyof (recs t)) k (m_p_first t) T = (f, w)" by (cases "fin (keyof (recs t)) k (m_p_first t) T")
  have f: "\<not> f" using nk fin_True [of "keyof (recs t)" k "m_p_first t" T w] w by (cases f) auto
  have tt: "tr (recs t) 0 (m_p_first t) T" using assms(1) by (simp add: bt_tree_def)
  have "w \<noteq> 0" if "T \<noteq> Leaf"
    using fin_child [OF tt _ that, of k "m_p_first t" w] w f tr_dom [OF tt] by auto
  moreover have "w = 0" if "T = Leaf" using that w tt by simp
  ultimately show ?thesis using w f bfind_tree [OF assms(1)] by auto
qed

section \<open>The object over a heap\<close>

text \<open>An object in order: the mutex is free, the heap is well formed, the records are blocks of the
  heap that hold the header and the data.\<close>

definition bt_obj :: "('h \<Rightarrow> bool) \<Rightarrow> ('h \<Rightarrow> (ptr \<rightharpoonup> nat)) \<Rightarrow> 'h cbtree \<Rightarrow> ptr tree \<Rightarrow> bool" where
  "bt_obj hinv block t T \<longleftrightarrow> bt_tree t T \<and> (\<exists>x. bt_mutex t = Some x \<and> cMutex_free x) \<and>
     (\<exists>hp. bt_heap t = Some hp \<and> hinv hp \<and>
        (\<forall>q\<in>set_tree T. \<exists>n. block hp q = Some n \<and> sizeof_bth + length (snd (dataof (recs t) q)) \<le> n))"

lemma unlock_frame [simp]:
  "bt_mutex t = Some x \<Longrightarrow> cBTree_unlock t h = t\<lparr>bt_mutex := Some (cMutex_unlock x h)\<rparr>"
  by (simp add: cBTree_unlock_def)

lemma bt_bracket:
  assumes "bt_mutex t = Some x" "cMutex_free x"
  obtains h x' where "cBTree_lock t 0 = Some (h, t\<lparr>bt_mutex := Some x'\<rparr>)" "cMutex_free (cMutex_unlock x' h)"
proof -
  obtain h x' where "cMutex_lock x 0 MUTEX_TIMEOUT_INFINITE 0 = Some (h, x')" "cMutex_held x' h 1"
    using cMutex_acquire_free [OF assms(2)] by blast
  with assms(1) cMutex_release_last that show thesis by (simp add: cBTree_lock_def)
qed

lemma detach_frame: "detach t x b = Some (t', l, r) \<Longrightarrow> bt_heap t' = bt_heap t \<and> bt_mutex t' = bt_mutex t"
  by (auto simp: detach_def bind_eq_Some_conv split: if_splits)

lemma attach_frame: "attach t c p = Some t' \<Longrightarrow> bt_heap t' = bt_heap t \<and> bt_mutex t' = bt_mutex t"
  by (auto simp: attach_def bind_eq_Some_conv split: if_splits)

lemma add_found:
  assumes "bt_tree t T" "bt_map (recs t) T k \<noteq> None"
  shows "add_body halloc t k d sz = Some (k, t)"
proof -
  obtain x where x: "x \<in> set_tree T" "keyof (recs t) x = k"
    using assms(2) by (auto simp: bt_map_def split: if_splits)
  then obtain b where "recs t x = Some b" "key b = k" "x \<noteq> 0" "bfind t k 0 = Some (True, x)"
    using recs_found [OF assms(1) x(1)] by metis
  then show ?thesis by (simp add: add_body_def)
qed

lemma add_new_tree:
  assumes "bt_tree t T" "bt_map (recs t) T k = None" "p \<noteq> 0" "p \<notin> set_tree T"
    and "halloc (sz + of_nat sizeof_bth) hp = Some (p, hp')" "bt_heap t = Some hp"
  shows "\<exists>t' T'. add_body halloc t k d sz = Some (k, t') \<and> bt_tree t' T' \<and> bt_mutex t' = bt_mutex t \<and>
    bt_heap t' = Some hp' \<and> set_tree T' = insert p (set_tree T) \<and> bt_map (recs t') T' = (bt_map (recs t) T)(k \<mapsto> (sz, d)) \<and>
    dataof (recs t') p = (sz, d) \<and> (\<forall>q. q \<noteq> p \<longrightarrow> dataof (recs t') q = dataof (recs t) q)"
proof -
  let ?b = "\<lparr>pl = 0, pr = 0, pp = 0, key = k, dsize = sz, bdata = d\<rparr>"
  let ?t = "t\<lparr>bt_heap := Some hp', recs := (recs t)(p \<mapsto> ?b)\<rparr>"
  obtain w where w: "bfind t k 0 = Some (False, w)" "fin (keyof (recs t)) k (m_p_first t) T = (False, w)" "w = 0 \<longleftrightarrow> T = Leaf"
    using bfind_absent [OF assms(1,2)] by blast
  have kp: "keyof (recs ?t) q = (if q = p then k else keyof (recs t) q)"
    "dataof (recs ?t) q = (if q = p then (sz, d) else dataof (recs t) q)" for q
    by (simp_all add: keyof_def dataof_def)
  have bs0: "bstree (keyof (recs t)) T" using assms(1) by (simp add: bt_tree_def)
  have bt: "bt_tree ?t T" using assms(1,4) kp(1) unfolding bt_tree_def by (auto elim!: tr_cong bstree_cong)
  have nk: "keyof (recs t) q \<noteq> k" if "q \<in> set_tree T" for q
    using assms(2) bt_map_found [OF bs0 that] by auto
  have s: "tr (recs ?t) 0 p (Node Leaf p Leaf)" "bstree (keyof (recs ?t)) (Node Leaf p Leaf)" using assms(3) by simp_all
  have body: "add_body halloc t k d sz = do { t \<leftarrow> (if w \<noteq> 0 then attach ?t p w else Some (?t\<lparr>m_p_first := p\<rparr>)); Some (k, t) }"
    using w(1) assms(3,5,6) by (simp add: add_body_def alloc_record_def wr_rec_def)
  have "\<exists>t' T'. add_body halloc t k d sz = Some (k, t') \<and> bt_tree t' T' \<and> bt_mutex t' = bt_mutex t \<and> bt_heap t' = Some hp' \<and>
    set_tree T' = insert p (set_tree T) \<and> keyof (recs t') = keyof (recs ?t) \<and> dataof (recs t') = dataof (recs ?t)"
  proof (cases "T = Leaf")
    case True
    then show ?thesis using w(3) body s
      by (intro exI [of _ "?t\<lparr>m_p_first := p\<rparr>"] exI [of _ "Node Leaf p Leaf"]) (simp add: bt_tree_def)
  next
    case False
    have f: "fin (keyof (recs ?t)) k (m_p_first ?t) T = (False, w)"
      using fin_cong [of T "keyof (recs ?t)" "keyof (recs t)"] w(2) kp(1) assms(4) by (simp del: fun_upd_apply)
    have g: "gap (keyof (recs ?t)) k (Node Leaf p Leaf) T" using nk kp(1) assms(4) less_linear by (fastforce simp: gap_def)
    have "recs ?t p = Some ?b" "key ?b = k" "set_tree (Node Leaf p Leaf) \<inter> set_tree T = {}" using assms(4) by simp_all
    from attach_tree [OF bt False this(1,2) s _ this(3) g, of w] f obtain v where
      "attach ?t p w = Some (?t\<lparr>recs := linked (recs ?t) k p v\<rparr>)"
      "bt_tree (?t\<lparr>recs := linked (recs ?t) k p v\<rparr>) (graft (keyof (recs ?t)) k (Node Leaf p Leaf) T)" by auto
    then show ?thesis using w(3) False body
      by (intro exI [of _ "?t\<lparr>recs := linked (recs ?t) k p v\<rparr>"] exI [of _ "graft (keyof (recs ?t)) k (Node Leaf p Leaf) T"])
        (simp del: fun_upd_apply)
  qed
  then obtain t' T' where t': "add_body halloc t k d sz = Some (k, t')" "bt_tree t' T'" "bt_mutex t' = bt_mutex t"
    "bt_heap t' = Some hp'" "set_tree T' = insert p (set_tree T)" "keyof (recs t') = keyof (recs ?t)"
    "dataof (recs t') = dataof (recs ?t)" by blast
  have "bstree (keyof (recs t')) T'" using t'(2) by (simp add: bt_tree_def)
  moreover have "keyof (recs t') q = keyof (recs t) q \<and> dataof (recs t') q = dataof (recs t) q" if "q \<in> set_tree T" for q
    using that assms(4) kp t'(6,7) by (simp del: fun_upd_apply) blast
  ultimately have "bt_map (recs t') T' = (bt_map (recs t) T)(k \<mapsto> (sz, d))"
    using bt_map_insert [OF bs0 _ assms(4) t'(5)] t'(6,7) kp by (simp del: fun_upd_apply)
  then show ?thesis using t' kp by (intro exI [of _ t'] exI [of _ T']) simp
qed

lemma del_present:
  assumes "bt_tree t T" "x \<in> set_tree T" "set_tree T \<noteq> {x}" "bt_heap t = Some hp"
    and "hfree x (fst (dataof (recs t) x) + of_nat sizeof_bth) hp = Some hp'"
  shows "\<exists>t' T'. del_body hfree t (keyof (recs t) x) = Some t' \<and> bt_tree t' T' \<and> bt_mutex t' = bt_mutex t \<and>
    bt_heap t' = Some hp' \<and> set_tree T' = set_tree T - {x} \<and>
    bt_map (recs t') T' = (bt_map (recs t) T)(keyof (recs t) x := None) \<and>
    (\<forall>q. q \<noteq> x \<longrightarrow> dataof (recs t') q = dataof (recs t) q)"
proof -
  obtain b where b: "recs t x = Some b" "keyof (recs t) x = key b" "dataof (recs t) x = (dsize b, bdata b)"
    "bfind t (key b) 0 = Some (True, x)" using recs_found [OF assms(1,2)] by metis
  obtain h1 T1 pf where u: "do { (t, l, r) \<leftarrow> detach t x b;
        t \<leftarrow> (if l \<noteq> 0 then attach t l 0 else Some t); if r \<noteq> 0 then attach t r 0 else Some t }
      = Some (t\<lparr>recs := h1, m_p_first := pf\<rparr>)" "bt_tree (t\<lparr>recs := h1, m_p_first := pf\<rparr>) T1"
    "set_tree T1 = set_tree T - {x}" "keyof h1 = keyof (recs t)" "dataof h1 = dataof (recs t)"
    using unlink_tree [OF assms(1-3) b(1)] by blast
  let ?t = "t\<lparr>recs := h1, m_p_first := pf\<rparr>"
  let ?t' = "?t\<lparr>bt_heap := Some hp', recs := (recs ?t)(x := None)\<rparr>"
  from u(1) obtain t1 l r t2 where "detach t x b = Some (t1, l, r)" "(if l \<noteq> 0 then attach t1 l 0 else Some t1) = Some t2"
    "(if r \<noteq> 0 then attach t2 r 0 else Some t2) = Some ?t" by (auto simp: bind_eq_Some_conv simp del: if_split)
  then have "del_body hfree t (keyof (recs t) x) = Some ?t'"
    using b assms(4,5) by (simp add: del_body_def)
  moreover have bt: "bt_tree ?t' T1" using bt_tree_forget [OF u(2)] u(3) by simp
  moreover have d: "keyof (recs ?t') q = keyof (recs t) q" "dataof (recs ?t') q = dataof (recs t) q" if "q \<noteq> x" for q
    using that fun_cong [OF u(4), of q] fun_cong [OF u(5), of q] by (simp_all add: keyof_def dataof_def)
  moreover have "bstree (keyof (recs t)) T" "bstree (keyof (recs ?t')) T1"
    using assms(1) bt unfolding bt_tree_def by blast+
  then have "bt_map (recs ?t') T1 = (bt_map (recs t) T)(keyof (recs t) x := None)"
    using bt_map_remove [OF _ _ assms(2) u(3)] d u(3) by blast
  ultimately show ?thesis using u(3) by (intro exI [of _ ?t'] exI [of _ T1]) simp
qed

lemma del_absent:
  assumes "bt_tree t T" "bt_map (recs t) T k = None"
  shows "del_body hfree t k = Some t"
  using bfind_absent [OF assms] by (auto simp: del_body_def)

section \<open>Keys\<close>

definition data_key :: "u8 list \<Rightarrow> u64" where
  "data_key d = le64 (map (digest_byte (digest32 d)) [0..<8])"

lemma make_key_data:
  assumes "length (Message_Block shcxt) = 64" and "data \<noteq> 0"
  shows "make_key shcxt m data sz = Some (data_key (bytes m data (unat sz)))"
proof -
  let ?m = "\<lambda>a. if KEY_ADDR \<le> a \<and> a < KEY_ADDR + 8 then 0 else m a"
  obtain c0 where c0: "snd (SHA1Reset (Some shcxt)) = Some c0" "fed c0 []" using reset_fed [OF assms(1)] by auto
  have "unat sz < 2 ^ 32" using unsigned_less [of sz] by simp
  then obtain c1 where c1: "SHA1Input m (Some c0) data sz = (shaSuccess, Some c1)" "fed c1 (bytes m data (unat sz))"
    using input_fed [OF c0(2) assms(2), of sz m] by auto
  have "Computed c1 = 0" "Corrupted c1 = 0" using c1(2) by (simp_all add: fed_def)
  then show ?thesis using c0(1) c1(1) pad_hashed [OF c1(2)]
    by (auto simp: make_key_def SHA1Result_def bytes_def Let_def data_key_def KEY_ADDR_def intro!: arg_cong [of _ _ le64] map_cong)
qed

locale btree_heap = iheap alloc free inv block room
  for alloc :: "u32 \<Rightarrow> 'h \<Rightarrow> (ptr \<times> 'h) option" and free inv block room
begin

abbreviation bobj :: "'h cbtree \<Rightarrow> ptr tree \<Rightarrow> bool" where
  "bobj \<equiv> bt_obj inv block"

lemma bobj_relock:
  "bt_obj inv block (t\<lparr>bt_mutex := x\<rparr>) T \<longleftrightarrow> bt_tree t T \<and> (\<exists>y. x = Some y \<and> cMutex_free y) \<and>
     (\<exists>hp. bt_heap t = Some hp \<and> inv hp \<and>
        (\<forall>q\<in>set_tree T. \<exists>n. block hp q = Some n \<and> sizeof_bth + length (snd (dataof (recs t) q)) \<le> n))"
  by (simp add: bt_obj_def)

lemma add_obj:
  assumes o: "bobj t T" and k: "make_key shcxt m data sz = Some k" and r: "\<And>hp. bt_heap t = Some hp \<Longrightarrow> room hp (sz + of_nat sizeof_bth)"
    and fit: "unat sz + sizeof_bth < 2 ^ 32"
  shows "\<exists>ok t' T'. cBTree_add alloc shcxt m t data sz 0 = Some (if ok then k else 0, t') \<and> bobj t' T' \<and>
    (ok \<longleftrightarrow> bt_map (recs t) T k \<noteq> None \<or> (\<exists>hp p hp'. bt_heap t = Some hp \<and> alloc (sz + of_nat sizeof_bth) hp = Some (p, hp') \<and> p \<noteq> 0)) \<and>
    bt_map (recs t') T' = (if ok \<and> bt_map (recs t) T k = None then (bt_map (recs t) T)(k \<mapsto> (sz, bytes m data (unat sz))) else bt_map (recs t) T)"
proof -
  from o obtain x hp where t: "bt_tree t T" "bt_mutex t = Some x" "cMutex_free x" "bt_heap t = Some hp" "inv hp"
    "\<forall>q\<in>set_tree T. \<exists>n. block hp q = Some n \<and> sizeof_bth + length (snd (dataof (recs t) q)) \<le> n"
    by (auto simp: bt_obj_def)
  obtain h x' where l: "cBTree_lock t 0 = Some (h, t\<lparr>bt_mutex := Some x'\<rparr>)" "cMutex_free (cMutex_unlock x' h)"
    using bt_bracket [OF t(2,3)] by blast
  let ?t = "t\<lparr>bt_mutex := Some x'\<rparr>" and ?d = "bytes m data (unat sz)" and ?n = "sz + of_nat sizeof_bth :: u32"
  have un: "unat ?n = unat sz + sizeof_bth" using fit by (simp add: sizeof_bth_def unat_word_ariths)
  have bt: "bt_tree ?t T" using t(1) by simp
  show ?thesis
  proof (cases "bt_map (recs t) T k")
    case (Some v)
    then have "add_body alloc ?t k ?d sz = Some (k, ?t)" using add_found [OF bt] by simp
    then show ?thesis using l k t Some
      by (intro exI [of _ True] exI [of _ "?t\<lparr>bt_mutex := Some (cMutex_unlock x' h)\<rparr>"] exI [of _ T])
        (simp add: cBTree_add_def bobj_relock)
  next
    case None
    from alloc_block [OF t(5) r [OF t(4)]] obtain p hp' where a: "alloc ?n hp = Some (p, hp')" "inv hp'"
      "if p = 0 then block hp' = block hp else block hp p = None \<and> (\<exists>n. unat ?n \<le> n \<and> block hp' = (block hp)(p \<mapsto> n))" by blast
    show ?thesis
    proof (cases "p = 0")
      case True
      obtain w where "bfind ?t k 0 = Some (False, w)" using bfind_absent [OF bt] None by auto
      then have "add_body alloc ?t k ?d sz = Some (0, ?t\<lparr>bt_heap := Some hp'\<rparr>)"
        using True a(1) t(4) by (simp add: add_body_def alloc_record_def)
      then show ?thesis using l k t a True None
        by (intro exI [of _ False] exI [of _ "?t\<lparr>bt_heap := Some hp', bt_mutex := Some (cMutex_unlock x' h)\<rparr>"] exI [of _ T])
          (simp add: cBTree_add_def bt_obj_def)
    next
      case False
      then obtain n where n: "block hp p = None" "unat ?n \<le> n" "block hp' = (block hp)(p \<mapsto> n)" using a(3) by auto
      have pT: "p \<notin> set_tree T" using n(1) t(6) by fastforce
      have none: "bt_map (recs ?t) T k = None" "bt_heap ?t = Some hp" using None t(4) by simp_all
      obtain t' T' where t': "add_body alloc ?t k ?d sz = Some (k, t')" "bt_tree t' T'" "bt_mutex t' = Some x'"
        "bt_heap t' = Some hp'" "set_tree T' = insert p (set_tree T)" "bt_map (recs t') T' = (bt_map (recs ?t) T)(k \<mapsto> (sz, ?d))"
        "dataof (recs t') p = (sz, ?d)" "\<forall>q. q \<noteq> p \<longrightarrow> dataof (recs t') q = dataof (recs ?t) q"
        using add_new_tree [where halloc = alloc, OF bt none(1) False pT a(1) none(2), of ?d] by auto
      have "\<forall>q\<in>set_tree T'. \<exists>n. block hp' q = Some n \<and> sizeof_bth + length (snd (dataof (recs t') q)) \<le> n"
        using t'(5,7,8) n un t(6) pT by auto
      moreover have "\<exists>hp p hp'. bt_heap t = Some hp \<and> alloc ?n hp = Some (p, hp') \<and> p \<noteq> 0" using t(4) a(1) False by blast
      ultimately show ?thesis using l k t' a(2) None
        by (intro exI [of _ True] exI [of _ "t'\<lparr>bt_mutex := Some (cMutex_unlock x' h)\<rparr>"] exI [of _ T'])
          (simp add: cBTree_add_def bobj_relock)
    qed
  qed
qed

lemma get_obj:
  assumes o: "bobj t T"
  shows "\<exists>p n t'. cBTree_get t k 0 = Some (p, n, t') \<and> bobj t' T \<and> recs t' = recs t \<and> m_p_first t' = m_p_first t \<and>
    (case bt_map (recs t) T k of None \<Rightarrow> p = 0
     | Some (sz, d) \<Rightarrow> n = sz \<and> (\<exists>q\<in>set_tree T. p = q + sizeof_bth \<and> dataof (recs t) q = (sz, d)))"
proof -
  from o obtain x hp where t: "bt_tree t T" "bt_mutex t = Some x" "cMutex_free x" "bt_heap t = Some hp" "inv hp"
    "\<forall>q\<in>set_tree T. \<exists>n. block hp q = Some n \<and> sizeof_bth + length (snd (dataof (recs t) q)) \<le> n"
    by (auto simp: bt_obj_def)
  obtain h x' where l: "cBTree_lock t 0 = Some (h, t\<lparr>bt_mutex := Some x'\<rparr>)" "cMutex_free (cMutex_unlock x' h)"
    using bt_bracket [OF t(2,3)] by blast
  let ?t = "t\<lparr>bt_mutex := Some x'\<rparr>" and ?t' = "t\<lparr>bt_mutex := Some (cMutex_unlock x' h)\<rparr>"
  have bt: "bt_tree ?t T" using t(1) by simp
  have ok: "bobj ?t' T" using t l(2) by (simp add: bobj_relock)
  show ?thesis
  proof (cases "bt_map (recs t) T k")
    case None
    then obtain w where "bfind ?t k 0 = Some (False, w)" using bfind_absent [OF bt, of k] by auto
    then show ?thesis using l ok None
      by (intro exI [of _ 0] exI [of _ 0] exI [of _ ?t']) (simp add: cBTree_get_def)
  next
    case (Some v)
    obtain q where q: "q \<in> set_tree T" "keyof (recs ?t) q = k" using Some by (auto simp: bt_map_def split: if_splits)
    obtain b where b: "recs t q = Some b" "dataof (recs t) q = (dsize b, bdata b)" "bfind ?t k 0 = Some (True, q)"
      using recs_found [OF bt q(1)] q(2) by (metis cbtree.select_convs(4) cbtree.surjective cbtree.update_convs(2))
    have "v = (dsize b, bdata b)" using Some b(2) bt_map_found [of "recs t" T q] q t(1) by (simp add: bt_tree_def)
    then show ?thesis using l ok b q(1) Some
      by (intro exI [of _ "q + sizeof_bth"] exI [of _ "dsize b"] exI [of _ ?t']) (auto simp: cBTree_get_def)
  qed
qed

lemma del_obj:
  assumes o: "bobj t T" and s: "dom (bt_map (recs t) T) \<noteq> {k}"
  shows "\<exists>t' T'. cBTree_del free t k 0 = Some t' \<and> bobj t' T' \<and> bt_map (recs t') T' = (bt_map (recs t) T)(k := None)"
proof -
  from o obtain x hp where t: "bt_tree t T" "bt_mutex t = Some x" "cMutex_free x" "bt_heap t = Some hp" "inv hp"
    "\<forall>q\<in>set_tree T. \<exists>n. block hp q = Some n \<and> sizeof_bth + length (snd (dataof (recs t) q)) \<le> n"
    by (auto simp: bt_obj_def)
  obtain h x' where l: "cBTree_lock t 0 = Some (h, t\<lparr>bt_mutex := Some x'\<rparr>)" "cMutex_free (cMutex_unlock x' h)"
    using bt_bracket [OF t(2,3)] by blast
  let ?t = "t\<lparr>bt_mutex := Some x'\<rparr>"
  have bt: "bt_tree ?t T" using t(1) by simp
  show ?thesis
  proof (cases "bt_map (recs t) T k")
    case None
    then have "del_body free ?t k = Some ?t" using del_absent [OF bt] by simp
    then show ?thesis using l t None
      by (intro exI [of _ "t\<lparr>bt_mutex := Some (cMutex_unlock x' h)\<rparr>"] exI [of _ T])
        (simp add: cBTree_del_def bobj_relock fun_upd_idem)
  next
    case (Some v)
    obtain q where q: "q \<in> set_tree T" "keyof (recs t) q = k" using Some by (auto simp: bt_map_def split: if_splits)
    have "dom (bt_map (recs t) T) = keyof (recs t) ` set_tree T" by (auto simp: bt_map_def split: if_splits)
    then have nq: "set_tree T \<noteq> {q}" using s q(2) by auto
    have "q \<in> dom (block hp)" using t(6) q(1) by blast
    then obtain hp' where f: "free q (fst (dataof (recs ?t) q) + of_nat sizeof_bth) hp = Some hp'" "inv hp'"
      "block hp' = (block hp)(q := None)" using free_block [OF t(5)] by blast
    have hq: "bt_heap ?t = Some hp" using t(4) by simp
    obtain t' T' where t': "del_body free ?t k = Some t'" "bt_tree t' T'" "bt_mutex t' = Some x'"
      "bt_heap t' = Some hp'" "set_tree T' = set_tree T - {q}" "bt_map (recs t') T' = (bt_map (recs t) T)(k := None)"
      "\<forall>p. p \<noteq> q \<longrightarrow> dataof (recs t') p = dataof (recs t) p"
      using del_present [where hfree = free, OF bt q(1) nq hq f(1)] q(2) by auto
    have "\<forall>p\<in>set_tree T'. \<exists>n. block hp' p = Some n \<and> sizeof_bth + length (snd (dataof (recs t') p)) \<le> n"
      using t'(5,7) f(3) t(6) by auto
    then show ?thesis using l t' f(2)
      by (intro exI [of _ "t'\<lparr>bt_mutex := Some (cMutex_unlock x' h)\<rparr>"] exI [of _ T'])
        (simp add: cBTree_del_def bobj_relock)
  qed
qed

lemma del_last_record:
  assumes o: "bobj t T" and s: "dom (bt_map (recs t) T) = {k}" and z: "recs t 0 = None"
  shows "cBTree_del free t k 0 = None"
proof -
  from o obtain x hp where t: "bt_tree t T" "bt_mutex t = Some x" "cMutex_free x" by (auto simp: bt_obj_def)
  obtain h x' where l: "cBTree_lock t 0 = Some (h, t\<lparr>bt_mutex := Some x'\<rparr>)" using bt_bracket [OF t(2,3)] by blast
  let ?t = "t\<lparr>bt_mutex := Some x'\<rparr>"
  have bt: "bt_tree ?t T" using t(1) by simp
  have inj: "p = q" if "p \<in> set_tree T" "q \<in> set_tree T" "keyof (recs t) p = keyof (recs t) q" for p q
    using fin_found [of "keyof (recs t)" T] that t(1) unfolding bt_tree_def by (metis prod.inject)
  have "keyof (recs t) ` set_tree T = {k}" using s by (auto simp: bt_map_def split: if_splits)
  then obtain q where q: "set_tree T = {q}" "keyof (recs t) q = k" using inj by (metis (no_types, opaque_lifting) image_iff insertI1 is_singletonI' is_singleton_the_elem singletonD empty_iff)
  then obtain T1 T2 where T: "T = Node T1 q T2" by (cases T) auto
  have "bstree (keyof (recs t)) (Node T1 q T2)" using t(1) T by (simp add: bt_tree_def)
  then have "T = Node Leaf q Leaf" using bst_apart [of _ T1 q T2] q(1) T by (cases T1; cases T2) auto
  moreover have kq: "q \<in> set_tree T" "keyof (recs ?t) q = k" using q by simp_all
  moreover obtain b where b: "recs ?t q = Some b" "key b = k" "bfind ?t k 0 = Some (True, q)"
    using recs_found [OF bt, of q] kq by metis
  ultimately have "pp b = 0" "pl b = 0" "pr b = 0" "m_p_first t = q" using bt by (auto simp: bt_tree_def)
  then have "detach ?t q b = None" using z by (simp add: detach_def wr_rec_def)
  then show ?thesis using l b by (simp add: cBTree_del_def del_body_def)
qed

end

end
