(* ===== verification/Acquire.thy ===== *)
theory Acquire
  imports Mutex
begin

text \<open>
  How the kernel objects take their mutex: \<open>acquire_mutex\<close> of core/common/lib/blender.cpp and
  \<open>cBlender::acquire_mutex\<close> of core/sys/micro_blender.cpp. Switching interrupts off and on around
  \<open>try_lock\<close> and yielding the processor change nothing the caller's own thread sees; what other threads
  do to a mutex is the subject of \<open>Mutex_Threads\<close>. A request that spins forever is \<open>None\<close>.
\<close>

record sched_env =
  blender_running :: bool
  blender_cpu :: bool
  has_cpu :: bool

definition tick :: "u32 \<Rightarrow> u32" where
  "tick tmo = (if tmo \<noteq> MUTEX_TIMEOUT_INFINITE then tmo - 1 else tmo)"

partial_function (option) poll :: "cmutex \<Rightarrow> u64 \<Rightarrow> u32 \<Rightarrow> u64 \<Rightarrow> (u64 \<times> cmutex) option" where
  "poll mx hlock tmo r =
     (if r = 0 \<and> tmo \<noteq> 0 then
        (case cMutex_try_lock mx hlock of (r, mx) \<Rightarrow> poll mx hlock (tick tmo) r)
      else Some (r, mx))"

text \<open>The blender polls at least once.\<close>

definition cBlender_acquire_mutex :: "bool \<Rightarrow> cmutex \<Rightarrow> u64 \<Rightarrow> u32 \<Rightarrow> (u64 \<times> cmutex) option" where
  "cBlender_acquire_mutex cpu x hlock timeout =
     (if cpu then (case cMutex_try_lock x hlock of (r, x) \<Rightarrow> poll x hlock (tick timeout) r)
      else Some (0, x))"

definition acquire_mutex :: "sched_env \<Rightarrow> cmutex option \<Rightarrow> u64 \<Rightarrow> u32 \<Rightarrow> (u64 \<times> cmutex option) option" where
  "acquire_mutex e p_mutex hlock timeout =
     (case p_mutex of
        None \<Rightarrow> Some (0, None)
      | Some x \<Rightarrow>
          map_option (\<lambda>(r, x). (r, Some x))
            (if blender_running e then cBlender_acquire_mutex (blender_cpu e) x hlock timeout
             else if has_cpu e
             then poll x hlock (if timeout \<noteq> MUTEX_TIMEOUT_INFINITE then timeout * 1000 else timeout) 0
             else cMutex_lock x hlock timeout 0))"

lemma poll_done: "r \<noteq> 0 \<Longrightarrow> poll x hlock tmo r = Some (r, x)"
  by (subst poll.simps) simp

lemma tick_infinite [simp]: "tick MUTEX_TIMEOUT_INFINITE = MUTEX_TIMEOUT_INFINITE"
  by (simp add: tick_def)

lemma try_lock_free_mutex:
  assumes "cMutex_free x"
  obtains h x' where "cMutex_try_lock x 0 = (h, x')" "h \<noteq> 0" "cMutex_held x' h 1"
proof -
  have nz: "GET_HANDLE (m_addr x) c \<noteq> 0" for c using assms by (simp add: cMutex_free_def GET_HANDLE_nonzero)
  have "mutex_try_lock (m_addr x) (m_mutex x) 0 = (GET_HANDLE (m_addr x) (handle_count (m_mutex x) + 1),
     (m_mutex x)\<lparr>lock_count := 1, handle_count := handle_count (m_mutex x) + 1, lock_flag := LOCK_MAGIC\<rparr>)"
    using assms nz by (intro try_lock_free) (auto simp: cMutex_free_def)
  then have "\<exists>h x'. cMutex_try_lock x 0 = (h, x') \<and> h \<noteq> 0 \<and> cMutex_held x' h 1"
    using assms nz by (simp add: cMutex_try_lock_def cMutex_held_def cMutex_free_def)
  then show thesis using that by blast
qed

text \<open>A free mutex is taken at once, whoever runs the poll.\<close>

lemma acquire_free:
  assumes "cMutex_free x" and "blender_running e \<longrightarrow> blender_cpu e"
  shows "\<exists>h x'. acquire_mutex e (Some x) 0 MUTEX_TIMEOUT_INFINITE = Some (h, Some x') \<and> h \<noteq> 0 \<and> cMutex_held x' h 1"
proof -
  obtain h x' where l: "cMutex_try_lock x 0 = (h, x')" "h \<noteq> 0" "cMutex_held x' h 1"
    by (rule try_lock_free_mutex [OF assms(1)])
  obtain h2 x2 where m: "cMutex_lock x 0 MUTEX_TIMEOUT_INFINITE 0 = Some (h2, x2)" "h2 \<noteq> 0" "cMutex_held x2 h2 1"
    using cMutex_acquire_free [OF assms(1)] by blast
  have "MUTEX_TIMEOUT_INFINITE \<noteq> 0" by (simp add: MUTEX_TIMEOUT_INFINITE_def)
  then show ?thesis using l m assms(2) poll_done [OF l(2)]
    by (simp add: acquire_mutex_def cBlender_acquire_mutex_def poll.simps [of x 0 MUTEX_TIMEOUT_INFINITE 0])
qed

section \<open>Mutexes that nobody holds\<close>

definition mutex_idle :: "cmutex option \<Rightarrow> bool" where
  "mutex_idle p \<longleftrightarrow> (\<forall>x. p = Some x \<longrightarrow> cMutex_free x)"

lemma try_lock_idle:
  assumes "cMutex_free x"
  obtains h x' where "cMutex_try_lock x hl = (h, x')" "h \<noteq> 0" "cMutex_free (cMutex_unlock x' h)"
proof -
  have nz: "GET_HANDLE (m_addr x) c \<noteq> 0" for c using assms by (simp add: cMutex_free_def GET_HANDLE_nonzero)
  have "\<exists>h x'. cMutex_try_lock x hl = (h, x') \<and> h \<noteq> 0 \<and> cMutex_free (cMutex_unlock x' h)"
    using assms nz by (auto simp: cMutex_try_lock_def mutex_try_lock_def cMutex_free_def cMutex_unlock_def mutex_unlock_def Let_def)
  then show thesis using that by blast
qed

text \<open>Such a mutex is taken with any handle, and is free again after the matching unlock.\<close>

lemma acquire_idle:
  assumes "mutex_idle p" "blender_running e \<longrightarrow> blender_cpu e"
  obtains h p' where "acquire_mutex e p hl MUTEX_TIMEOUT_INFINITE = Some (h, p')" "mutex_idle (map_option (\<lambda>x. cMutex_unlock x h) p')" "(p' = None) = (p = None)"
proof (cases p)
  case None
  then show thesis using that [of 0 None] by (simp add: acquire_mutex_def mutex_idle_def)
next
  case (Some x)
  then have "cMutex_free x" using assms by (simp add: mutex_idle_def)
  from try_lock_idle [OF this] obtain h x' where l: "cMutex_try_lock x hl = (h, x')" "h \<noteq> 0" "cMutex_free (cMutex_unlock x' h)" .
  have "mutex_try_lock (m_addr x) (m_mutex x) hl = (h, m_mutex x')" "x' = x\<lparr>m_mutex := m_mutex x'\<rparr>"
    using l(1) by (auto simp: cMutex_try_lock_def split: prod.splits)
  then have m: "cMutex_lock x hl MUTEX_TIMEOUT_INFINITE 0 = Some (h, x')"
    using mutex_lock_first_try l(2) by (simp add: cMutex_lock_def)
  have nz: "MUTEX_TIMEOUT_INFINITE \<noteq> 0" by (simp add: MUTEX_TIMEOUT_INFINITE_def)
  have "acquire_mutex e (Some x) hl MUTEX_TIMEOUT_INFINITE = Some (h, Some x')"
    using l(1,2) m nz poll_done [OF l(2)] assms(2)
    by (simp add: acquire_mutex_def cBlender_acquire_mutex_def poll.simps [of x hl MUTEX_TIMEOUT_INFINITE 0])
  then show thesis using that Some l(3) by (simp add: mutex_idle_def)
qed

section \<open>Mutexes that are held\<close>

lemma try_lock_taken: "cMutex_held x h n \<Longrightarrow> cMutex_try_lock x 0 = (0, x)"
  using GET_HANDLE_nonzero [of "m_addr x" "handle_count (m_mutex x)"]
  by (simp add: cMutex_held_def cMutex_try_lock_def mutex_try_lock_def)

text \<open>A poll without end for a mutex that stays taken.\<close>

lemma poll_spins:
  assumes "cMutex_try_lock x hlock = (0, x)"
  shows "poll x hlock MUTEX_TIMEOUT_INFINITE 0 = None"
proof -
  have "\<not> (r = 0 \<and> tmo = MUTEX_TIMEOUT_INFINITE \<and> cMutex_try_lock x hlock = (0, x))" if "poll x hlock tmo r = Some y" for x hlock tmo r y
  proof (rule poll.raw_induct [where P = "\<lambda>x hlock tmo r y. \<not> (r = 0 \<and> tmo = MUTEX_TIMEOUT_INFINITE \<and> cMutex_try_lock x hlock = (0, x))", OF _ that])
    fix f :: "cmutex \<Rightarrow> u64 \<Rightarrow> u32 \<Rightarrow> u64 \<Rightarrow> (u64 \<times> cmutex) option" and x hlock tmo r y
    assume IH: "\<And>x hlock tmo r y. f x hlock tmo r = Some y \<Longrightarrow> \<not> (r = 0 \<and> tmo = MUTEX_TIMEOUT_INFINITE \<and> cMutex_try_lock x hlock = (0, x))"
      and eq: "(if r = 0 \<and> tmo \<noteq> 0 then (case cMutex_try_lock x hlock of (r, x) \<Rightarrow> f x hlock (tick tmo) r) else Some (r, x)) = Some y"
    have nz: "MUTEX_TIMEOUT_INFINITE \<noteq> 0" by (simp add: MUTEX_TIMEOUT_INFINITE_def)
    show "\<not> (r = 0 \<and> tmo = MUTEX_TIMEOUT_INFINITE \<and> cMutex_try_lock x hlock = (0, x))"
      using IH [of x hlock "tick tmo" 0 y] eq nz by auto
  qed
  then show ?thesis using assms by (cases "poll x hlock MUTEX_TIMEOUT_INFINITE 0") auto
qed

text \<open>A request without a handle for a mutex that is held never returns, even when the caller's own thread holds it.\<close>

lemma acquire_held_blocks:
  assumes "cMutex_held x h n" "blender_running e \<longrightarrow> blender_cpu e"
  shows "acquire_mutex e (Some x) 0 MUTEX_TIMEOUT_INFINITE = None"
proof -
  note t = try_lock_taken [OF assms(1)]
  have a: "(ucast (m_addr x) :: u32) \<noteq> 0" using assms(1) by (simp add: cMutex_held_def)
  have "fst (mutex_try_lock (m_addr x) (m_mutex x) 0) = 0" using t by (simp add: cMutex_try_lock_def split: prod.splits)
  then have "cMutex_lock x 0 MUTEX_TIMEOUT_INFINITE 0 = None" using mutex_lock_spins_iff [OF a] by (simp add: cMutex_lock_def)
  then show ?thesis using t poll_spins [OF t] assms(2) by (simp add: acquire_mutex_def cBlender_acquire_mutex_def)
qed

end
