(* ===== verification/B24_PMA.thy ===== *)
theory B24_PMA
  imports Acquire
begin

text \<open>
  The page allocator of core/mem/b24_pma.cpp. RAM is a list of blocks of pages; a record of 24 bits,
  the number of set bits and a type describes 24 pages, the most significant bit the first page. The
  record array of a block (\<open>p_rec\<close>, \<open>nrec\<close>) is the list \<open>rt_recs\<close>; a pointer to a block or a record is
  its index. Addresses are natural numbers, counters keep their width. Reading outside an array is
  \<open>None\<close>.
\<close>

section \<open>The class\<close>

definition MAX_REC_AMOUNT :: nat where
  "MAX_REC_AMOUNT = 24"

definition MAX_RAM_BLOCKS :: nat where
  "MAX_RAM_BLOCKS = 20"

record rec_t =
  bmp :: "24 word"
  amount :: "5 word"
  rtype :: "3 word"

record ram_t =
  rt_addr :: nat
  rt_recs :: "rec_t list"
  rt_nfree :: u64

record pma =
  pm_env :: sched_env
  pm_repo :: "cmutex option"
  pm_mutex :: "cmutex option"
  page_size :: nat
  m_ram :: "ram_t list"

abbreviation nrec :: "ram_t \<Rightarrow> nat" where
  "nrec b \<equiv> length (rt_recs b)"

abbreviation npages_of :: "ram_t \<Rightarrow> nat" where
  "npages_of b \<equiv> nrec b * MAX_REC_AMOUNT"

text \<open>The mutex is asked from the repository when it is first needed; \<open>pm_repo\<close> is what the repository
  has to offer (nothing before the object has a repository).\<close>

definition pma_get_mutex :: "pma \<Rightarrow> pma" where
  "pma_get_mutex s = (if pm_mutex s = None then s\<lparr>pm_mutex := pm_repo s\<rparr> else s)"

definition pma_lock :: "pma \<Rightarrow> u64 \<Rightarrow> (u64 \<times> pma) option" where
  "pma_lock s hlock =
     (let s = pma_get_mutex s in
      case pm_mutex s of None \<Rightarrow> Some (0, s)
      | Some x \<Rightarrow> map_option (\<lambda>(r, x). (r, s\<lparr>pm_mutex := x\<rparr>)) (acquire_mutex (pm_env s) (Some x) hlock MUTEX_TIMEOUT_INFINITE))"

definition pma_unlock :: "pma \<Rightarrow> u64 \<Rightarrow> pma" where
  "pma_unlock s hlock =
     (let s = pma_get_mutex s in s\<lparr>pm_mutex := map_option (\<lambda>x. cMutex_unlock x hlock) (pm_mutex s)\<rparr>)"

definition empty_rec :: rec_t where
  "empty_rec = \<lparr>bmp = 0, amount = 0, rtype = 0\<rparr>"

definition pages_for :: "nat \<Rightarrow> nat \<Rightarrow> nat" where
  "pages_for n ps = n div ps + (if n mod ps \<noteq> 0 then 1 else 0)"

definition init_ram_block :: "pma \<Rightarrow> nat \<Rightarrow> nat \<Rightarrow> pma option" where
  "init_ram_block s addr sz =
     (let ps = page_size s in
      if sz > (MAX_REC_AMOUNT + 1) * ps then
        let rem = ps - addr mod ps;
            addr' = addr + rem;
            sz' = sz - rem;
            ram_pages = sz' div ps;
            records = ram_pages div MAX_REC_AMOUNT;
            rec_pages = pages_for (records * 4) ps;
            ram_pages = ram_pages - rec_pages;
            records = ram_pages div MAX_REC_AMOUNT;
            rec_pages = pages_for (records * 4) ps
        in if length (m_ram s) < MAX_RAM_BLOCKS
           then Some (s\<lparr>m_ram := m_ram s @
                  [\<lparr>rt_addr = addr' + rec_pages * ps, rt_recs = replicate records empty_rec,
                    rt_nfree = of_nat (records * MAX_REC_AMOUNT)\<rparr>]\<rparr>)
           else None
      else Some s)"

fun init_parts :: "pma \<Rightarrow> (nat \<times> nat) list \<Rightarrow> pma option" where
  "init_parts s [] = Some s"
| "init_parts s ((addr, sz) # ps) = do { s \<leftarrow> init_ram_block s addr sz; init_parts s ps }"

definition pma_init :: "pma \<Rightarrow> (nat \<times> nat) list \<Rightarrow> u16 \<Rightarrow> (bool \<times> pma) option" where
  "pma_init s p_ram_array ps =
     map_option (Pair True) (init_parts (s\<lparr>m_ram := [], page_size := unat ps\<rparr>) p_ram_array)"

text \<open>The RAM parts of the boot memory map: free regions, less a reserved region at their start.\<close>

record mem_tag =
  mt_address :: nat
  mt_size :: nat
  mt_type :: nat

definition MEM_TYPE_FREE :: nat where
  "MEM_TYPE_FREE = 1"

definition cut_reserved :: "mem_tag \<Rightarrow> nat \<times> nat \<Rightarrow> nat \<times> nat" where
  "cut_reserved rt = (\<lambda>(addr, sz). if addr = mt_address rt \<and> mt_size rt \<le> sz then (addr + mt_size rt, sz - mt_size rt) else (addr, sz))"

definition ram_parts :: "nat \<Rightarrow> mem_tag list \<Rightarrow> mem_tag list \<Rightarrow> (nat \<times> nat) list" where
  "ram_parts vbase mmap rmap =
     map (\<lambda>t. case fold cut_reserved rmap (mt_address t, mt_size t) of (addr, sz) \<Rightarrow> (addr + vbase, sz))
       (filter (\<lambda>t. mt_type t = MEM_TYPE_FREE) mmap)"

text \<open>The array of parts has room for \<open>MAX_RAM_BLOCKS\<close>.\<close>

definition early_init :: "pma \<Rightarrow> nat \<Rightarrow> mem_tag list \<Rightarrow> mem_tag list \<Rightarrow> (bool \<times> pma) option" where
  "early_init s vbase mmap rmap =
     (let ram = ram_parts vbase mmap rmap in if length ram \<le> MAX_RAM_BLOCKS then pma_init s ram 4096 else None)"

text \<open>The block index, record index and bit of an address.\<close>

fun a2p_loop :: "nat \<Rightarrow> nat \<Rightarrow> nat \<Rightarrow> ram_t list \<Rightarrow> (nat \<times> nat \<times> nat) option" where
  "a2p_loop ps a i [] = None"
| "a2p_loop ps a i (b # bs) =
     (let block_end = rt_addr b + npages_of b * ps in
      if rt_addr b \<le> a \<and> a < block_end then
        let block_page = (a - rt_addr b) div ps
        in Some (i, block_page div MAX_REC_AMOUNT, block_page mod MAX_REC_AMOUNT)
      else a2p_loop ps a (i + 1) bs)"

definition address_to_position :: "pma \<Rightarrow> nat \<Rightarrow> (nat \<times> nat \<times> nat) option" where
  "address_to_position s addr =
     a2p_loop (page_size s) (addr - addr mod page_size s) 0 (m_ram s)"

definition position_to_address :: "pma \<Rightarrow> nat \<Rightarrow> nat \<Rightarrow> nat \<Rightarrow> nat" where
  "position_to_address s block_idx rec_idx b =
     (if block_idx < length (m_ram s) \<and> rec_idx < nrec (m_ram s ! block_idx) then
        rt_addr (m_ram s ! block_idx) + rec_idx * MAX_REC_AMOUNT * page_size s + b * page_size s
      else 0)"

text \<open>The mask \<open>1 << k\<close>.\<close>

definition bmask :: "nat \<Rightarrow> u64" where
  "bmask k = push_bit k 1"

text \<open>Setting or clearing bits of one record, and of successive records.\<close>

definition set_bit_in :: "bool \<Rightarrow> u64 \<Rightarrow> rec_t \<times> u64 \<Rightarrow> rec_t \<times> u64" where
  "set_bit_in st mk = (\<lambda>(r, nf).
     if st then
       (if ucast (bmp r) AND mk = 0
        then (r\<lparr>bmp := ucast (ucast (bmp r) OR mk), amount := amount r + 1\<rparr>, nf - 1) else (r, nf))
     else
       (if ucast (bmp r) AND mk \<noteq> 0
        then (r\<lparr>bmp := ucast (ucast (bmp r) AND NOT mk), amount := amount r - 1\<rparr>, nf + 1) else (r, nf)))"

function set_in_rec :: "bool \<Rightarrow> u64 \<Rightarrow> nat \<Rightarrow> nat \<Rightarrow> rec_t \<times> u64 \<Rightarrow> (rec_t \<times> u64) \<times> nat" where
  "set_in_rec st mk cnt count rn =
     (if mk \<noteq> 0 \<and> cnt < count
      then set_in_rec st (drop_bit 1 mk) (cnt + 1) count (set_bit_in st mk rn)
      else (rn, cnt))"
  by auto

termination by (relation "measure (\<lambda>(st, mk, cnt, count, rn). count - cnt)") auto

declare set_in_rec.simps [simp del]

function set_recs :: "bool \<Rightarrow> 3 word \<Rightarrow> u64 \<Rightarrow> nat \<Rightarrow> nat \<Rightarrow> nat \<Rightarrow> ram_t \<Rightarrow> nat \<times> ram_t" where
  "set_recs st ty mk cnt count i b =
     (if cnt < count \<and> i < nrec b then
        (case set_in_rec st mk cnt count ((rt_recs b ! i)\<lparr>rtype := ty\<rparr>, rt_nfree b) of ((r, nf), cnt) \<Rightarrow>
           set_recs st ty (bmask 23) cnt count (i + 1) (b\<lparr>rt_recs := (rt_recs b)[i := r], rt_nfree := nf\<rparr>))
      else (cnt, b))"
  by auto

termination by (relation "measure (\<lambda>(st, ty, mk, cnt, count, i, b). nrec b - i)") auto

declare set_recs.simps [simp del]

definition set_bits :: "pma \<Rightarrow> nat \<Rightarrow> nat \<Rightarrow> nat \<Rightarrow> u32 \<Rightarrow> u8 \<Rightarrow> bool \<Rightarrow> (u32 \<times> pma) option" where
  "set_bits s block_idx rec_idx b count ty st =
     (if block_idx < length (m_ram s) then
        case set_recs st (ucast ty) (drop_bit b (bmask 23)) 0 (unat count) rec_idx (m_ram s ! block_idx) of
          (cnt, bl) \<Rightarrow> Some (of_nat cnt, s\<lparr>m_ram := (m_ram s)[block_idx := bl]\<rparr>)
      else None)"

section \<open>Searching free pages\<close>

partial_function (option) bits_loop :: "u64 \<Rightarrow> u64 \<Rightarrow> nat \<Rightarrow> nat \<Rightarrow> (bool \<times> u64 \<times> nat) option" where
  "bits_loop v mk cnt count =
     (if mk < bmask 24 then
        if v AND mk = 0 then
          if cnt + 1 = count then Some (True, mk, cnt + 1)
          else bits_loop v (push_bit 1 mk) (cnt + 1) count
        else bits_loop v (push_bit 1 mk) 0 count
      else Some (False, mk, cnt))"

definition usable :: "u8 \<Rightarrow> rec_t \<Rightarrow> bool" where
  "usable ty r \<longleftrightarrow> (rtype r = 0 \<or> ucast (rtype r) = ty) \<and> unat (amount r) < MAX_REC_AMOUNT"

function recs_loop :: "rec_t list \<Rightarrow> u8 \<Rightarrow> nat \<Rightarrow> nat \<Rightarrow> u64 \<Rightarrow> nat \<Rightarrow> (bool \<times> nat \<times> u64 \<times> nat) option" where
  "recs_loop rs ty count rec_idx mk cnt =
     (if rec_idx < length rs then
        do {
          (d, mk, cnt) \<leftarrow> (if usable ty (rs ! rec_idx) then bits_loop (ucast (bmp (rs ! rec_idx))) mk cnt count
                             else Some (False, mk, 0));
          if d then Some (True, rec_idx, mk, cnt)
          else if rec_idx \<noteq> 0 then recs_loop rs ty count (rec_idx - 1) 1 cnt
          else Some (False, rec_idx, mk, cnt)
        }
      else None)"
  by auto

termination by (relation "measure (\<lambda>(rs, ty, count, rec_idx, mk, cnt). rec_idx)") auto

declare recs_loop.simps [simp del]

text \<open>\<open>nrec - 1\<close> of an unsigned 64-bit counter.\<close>

definition last_rec :: "ram_t \<Rightarrow> nat" where
  "last_rec b = (if nrec b = 0 then 2 ^ 64 - 1 else nrec b - 1)"

function blocks_loop :: "ram_t list \<Rightarrow> u8 \<Rightarrow> nat \<Rightarrow> nat \<Rightarrow> nat \<Rightarrow> u64 \<Rightarrow> nat \<Rightarrow> (bool \<times> nat \<times> nat \<times> u64 \<times> nat) option" where
  "blocks_loop bs ty count block_idx rec_idx mk cnt =
     (if block_idx < length bs then
        do {
          (d, rec_idx, mk, cnt) \<leftarrow> recs_loop (rt_recs (bs ! block_idx)) ty count rec_idx mk cnt;
          if d then Some (True, block_idx, rec_idx, mk, cnt)
          else if block_idx \<noteq> 0 then blocks_loop bs ty count (block_idx - 1) (last_rec (bs ! (block_idx - 1))) 1 0
          else Some (False, block_idx, rec_idx, mk, cnt)
        }
      else None)"
  by auto

termination by (relation "measure (\<lambda>(bs, ty, count, block_idx, rec_idx, mk, cnt). block_idx)") auto

declare blocks_loop.simps [simp del]

text \<open>The highest block that starts below the limit.\<close>

fun limit_loop :: "ram_t list \<Rightarrow> nat \<Rightarrow> nat \<Rightarrow> nat option" where
  "limit_loop bs limit block_idx =
     (if limit \<le> rt_addr (bs ! block_idx) then
        (case block_idx of 0 \<Rightarrow> None | Suc i \<Rightarrow> limit_loop bs limit i)
      else Some block_idx)"

declare limit_loop.simps [simp del]

fun bit_of :: "u64 \<Rightarrow> nat \<Rightarrow> nat \<Rightarrow> nat" where
  "bit_of mk b 0 = 0"
| "bit_of mk b (Suc n) = (if drop_bit b (bmask 23) AND mk \<noteq> 0 then b else bit_of mk (b + 1) n)"

text \<open>\<open>find\<close> returns the position, or nothing; \<open>None\<close> outside when it reads outside an array.\<close>

definition pma_find :: "pma \<Rightarrow> nat \<Rightarrow> u8 \<Rightarrow> u32 \<Rightarrow> (nat \<times> nat \<times> nat) option option" where
  "pma_find s limit ty count =
     (if m_ram s = [] then None
      else
        case limit_loop (m_ram s) limit (length (m_ram s) - 1) of
          None \<Rightarrow> Some None
        | Some block_idx \<Rightarrow>
            let bl = m_ram s ! block_idx;
                end_block_addr = rt_addr bl + npages_of bl * page_size s - 1;
                (limit, shift) = (if limit > end_block_addr then (end_block_addr, 1) else (limit, 0))
            in (case address_to_position s limit of
                  None \<Rightarrow> Some None
                | Some (block_idx, rec_idx, b) \<Rightarrow>
                    do {
                      (d, block_idx, rec_idx, mk, cnt) \<leftarrow>
                        blocks_loop (m_ram s) ty (unat count) block_idx rec_idx (drop_bit b (bmask (24 - shift))) 0;
                      Some (if cnt = unat count then Some (block_idx, rec_idx, bit_of mk 0 MAX_REC_AMOUNT) else None)
                    }))"

section \<open>Operations\<close>

definition alloc_pages :: "pma \<Rightarrow> u32 \<Rightarrow> u8 \<Rightarrow> nat \<Rightarrow> (nat \<times> pma) option" where
  "alloc_pages s npages ty limit =
     do {
       f \<leftarrow> pma_find s limit ty npages;
       case f of
         None \<Rightarrow> Some (0, s)
       | Some (block_idx, rec_idx, b) \<Rightarrow>
           do {
             (n, s) \<leftarrow> set_bits s block_idx rec_idx b npages ty True;
             if n = npages then Some (position_to_address s block_idx rec_idx b, s)
             else do { (_, s) \<leftarrow> set_bits s block_idx rec_idx b n 0 False; Some (0, s) }
           }
     }"

definition RT_SYSTEM :: u8 where
  "RT_SYSTEM = 1"

definition DEFAULT_PMA_LIMIT :: nat where
  "DEFAULT_PMA_LIMIT = 0xffffffffffffffff"

definition pma_alloc :: "pma \<Rightarrow> u32 \<Rightarrow> u8 \<Rightarrow> nat \<Rightarrow> (nat \<times> pma) option" where
  "pma_alloc s npages ty limit =
     do { (h, s) \<leftarrow> pma_lock s 0; (r, s) \<leftarrow> alloc_pages s npages ty limit; Some (r, pma_unlock s h) }"

definition rec_type :: "pma \<Rightarrow> nat \<Rightarrow> nat \<Rightarrow> u8" where
  "rec_type s block_idx rec_idx = ucast (rtype (rt_recs (m_ram s ! block_idx) ! rec_idx))"

definition free_pages :: "pma \<Rightarrow> nat \<Rightarrow> u32 \<Rightarrow> (u32 \<times> pma) option" where
  "free_pages s p npages =
     (case address_to_position s p of
        None \<Rightarrow> Some (0, s)
      | Some (block_idx, rec_idx, b) \<Rightarrow> set_bits s block_idx rec_idx b npages (rec_type s block_idx rec_idx) False)"

definition pma_free :: "pma \<Rightarrow> nat \<Rightarrow> u32 \<Rightarrow> (u32 \<times> pma) option" where
  "pma_free s p npages =
     do { (h, s) \<leftarrow> pma_lock s 0; (r, s) \<leftarrow> free_pages s p npages; Some (r, pma_unlock s h) }"

text \<open>The operations on arrays of single pages: the addresses stored, the result and the object.\<close>

function alloc_array :: "pma \<Rightarrow> nat \<Rightarrow> nat \<Rightarrow> u8 \<Rightarrow> nat \<Rightarrow> u32 \<Rightarrow> nat list \<Rightarrow> (u32 \<times> nat list \<times> pma) option" where
  "alloc_array s i npages ty limit r pages =
     (if i < npages then
        do {
          f \<leftarrow> pma_find s limit ty 1;
          case f of
            None \<Rightarrow> Some (r, pages, s)
          | Some (block_idx, rec_idx, b) \<Rightarrow>
              do {
                (n, s) \<leftarrow> set_bits s block_idx rec_idx b 1 ty True;
                let addr = position_to_address s block_idx rec_idx b;
                if n = 1 \<and> addr \<noteq> 0
                then alloc_array s (i + 1) npages ty limit (of_nat i) (pages @ [addr])
                else Some (r, pages, s)
              }
        }
      else Some (r, pages, s))"
  by auto

termination by (relation "measure (\<lambda>(s, i, npages, ty, limit, r, pages). npages - i)") auto

declare alloc_array.simps [simp del]

definition pma_alloc_array :: "pma \<Rightarrow> u32 \<Rightarrow> u8 \<Rightarrow> nat \<Rightarrow> (u32 \<times> nat list \<times> pma) option" where
  "pma_alloc_array s npages ty limit =
     do { (h, s) \<leftarrow> pma_lock s 0;
          (r, pages, s) \<leftarrow> alloc_array s 0 (unat npages) ty limit 0 [];
          Some (r, pages, pma_unlock s h) }"

fun free_array :: "pma \<Rightarrow> nat list \<Rightarrow> pma option" where
  "free_array s [] = Some s"
| "free_array s (p # ps) =
     (case address_to_position s p of
        None \<Rightarrow> Some s
      | Some (block_idx, rec_idx, b) \<Rightarrow>
          do {
            (n, s) \<leftarrow> set_bits s block_idx rec_idx b 1 (rec_type s block_idx rec_idx) False;
            if n = 1 then free_array s ps else Some s
          })"

definition pma_free_array :: "pma \<Rightarrow> nat list \<Rightarrow> (u32 \<times> pma) option" where
  "pma_free_array s page_array =
     do { (h, s) \<leftarrow> pma_lock s 0; s \<leftarrow> free_array s page_array; Some (0, pma_unlock s h) }"

definition pma_alloc_at :: "pma \<Rightarrow> nat \<Rightarrow> u32 \<Rightarrow> u8 \<Rightarrow> (u32 \<times> pma) option" where
  "pma_alloc_at s p npages ty =
     do {
       (h, s) \<leftarrow> pma_lock s 0;
       (r, s) \<leftarrow> (case address_to_position s p of
                    None \<Rightarrow> Some (0, s)
                  | Some (block_idx, rec_idx, b) \<Rightarrow> set_bits s block_idx rec_idx b npages ty True);
       Some (r, pma_unlock s h)
     }"

definition pma_get_type :: "pma \<Rightarrow> nat \<Rightarrow> (u8 \<times> pma) option" where
  "pma_get_type s p =
     do {
       (h, s) \<leftarrow> pma_lock s 0;
       let r = (case address_to_position s p of None \<Rightarrow> 0 | Some (block_idx, rec_idx, b) \<Rightarrow> rec_type s block_idx rec_idx);
       Some (r, pma_unlock s h)
     }"

record ram_info =
  ri_ps :: u16
  ri_rp :: u32
  ri_pu :: u32
  ri_sp :: u32

definition info_block :: "nat \<Rightarrow> ram_t \<Rightarrow> ram_info \<Rightarrow> ram_info" where
  "info_block ps b i = i\<lparr>ri_rp := ri_rp i + of_nat (npages_of b), ri_pu := ri_pu i + ucast (of_nat (npages_of b) - rt_nfree b),
     ri_sp := ri_sp i + of_nat (pages_for (nrec b * 4) ps)\<rparr>"

definition pma_info :: "pma \<Rightarrow> (ram_info \<times> pma) option" where
  "pma_info s =
     do {
       (h, s) \<leftarrow> pma_lock s 0;
       Some (fold (info_block (page_size s)) (m_ram s) \<lparr>ri_ps = of_nat (page_size s), ri_rp = 0, ri_pu = 0, ri_sp = 0\<rparr>, pma_unlock s h)
     }"

section \<open>Bits of a record\<close>

lemma bmask_bit: "bit (bmask k) j \<longleftrightarrow> j = k \<and> k < 64"
  by (auto simp: bmask_def bit_simps)

lemma drop_bmask: "drop_bit n (bmask k) = (if k < 64 \<and> n \<le> k then bmask (k - n) else 0)"
  by (rule bit_word_eqI) (auto simp: bmask_def bit_simps)

lemma push_bmask: "push_bit n (bmask k) = bmask (k + n)"
  by (simp only: bmask_def push_bit_push_bit add.commute)

lemma bmask_nonzero: "k < 64 \<Longrightarrow> bmask k \<noteq> 0"
  using bmask_bit [of k k] by auto

lemma and_bmask: "k < 24 \<Longrightarrow> ucast (w :: 24 word) AND bmask k = (0 :: u64) \<longleftrightarrow> \<not> bit w k"
  by (auto simp: bit_eq_iff [where 'a = "64 word"] bit_and_iff bmask_bit bit_ucast_iff dest!: spec [of _ k])

lemma or_bmask: "k < 24 \<Longrightarrow> bit (ucast (ucast (w :: 24 word) OR bmask k) :: 24 word) j \<longleftrightarrow> bit w j \<or> j = k"
  by (auto simp: bit_simps bmask_bit dest: bit_imp_le_length)

lemma nand_bmask: "k < 24 \<Longrightarrow> bit (ucast (ucast (w :: 24 word) AND NOT (bmask k)) :: 24 word) j \<longleftrightarrow> bit w j \<and> j \<noteq> k"
  by (auto simp: bit_simps bmask_bit dest: bit_imp_le_length)

text \<open>The number of set bits, and records and blocks whose counters agree with it.\<close>

definition pop :: "24 word \<Rightarrow> nat" where
  "pop w = card {j. bit w j}"

lemma bits_finite: "finite {j. bit (w :: 'a::len word) j}"
  by (rule finite_subset [of _ "{..<LENGTH('a)}"]) (auto dest: bit_imp_le_length)

lemma bits_sub: "{j. bit (w :: 24 word) j} \<subseteq> {..<24}"
  by (auto dest: bit_imp_le_length)

lemma pop_le: "pop w \<le> 24"
  using card_mono [OF _ bits_sub, of w] by (simp add: pop_def)

lemma pop_full: "pop w = 24 \<Longrightarrow> j < 24 \<Longrightarrow> bit w j"
  using card_subset_eq [OF _ bits_sub, of w] by (auto simp: pop_def)

definition rec_ok :: "rec_t \<Rightarrow> bool" where
  "rec_ok r \<longleftrightarrow> unat (amount r) = pop (bmp r)"

lemma set_bit_step:
  assumes "set_bit_in st (bmask k) (r, nf) = (r', nf')" "k < 24" "rec_ok r"
  shows "rec_ok r'" and "rtype r' = rtype r" and "nf' + of_nat (pop (bmp r')) = nf + of_nat (pop (bmp r))"
    and "bit (bmp r') j = (if j = k then st else bit (bmp r) j)"
proof -
  have ins: "{j. bit (bmp r) j \<or> j = k} = insert k {j. bit (bmp r) j}" and del: "{j. bit (bmp r) j \<and> j \<noteq> k} = {j. bit (bmp r) j} - {k}"
    by auto
  have am: "unat (amount r) = pop (bmp r)" using assms(3) by (simp add: rec_ok_def)
  have "rec_ok r' \<and> rtype r' = rtype r \<and> nf' + of_nat (pop (bmp r')) = nf + of_nat (pop (bmp r)) \<and>
    bit (bmp r') j = (if j = k then st else bit (bmp r) j)"
  proof (cases "bit (bmp r) k = st")
    case True
    then show ?thesis using assms by (cases st) (auto simp: set_bit_in_def and_bmask)
  next
    case False
    show ?thesis
    proof (cases st)
      case True
      then have r': "r' = r\<lparr>bmp := ucast (ucast (bmp r) OR bmask k), amount := amount r + 1\<rparr>" "nf' = nf - 1"
        using assms(1,2) False by (auto simp: set_bit_in_def and_bmask)
      then have p: "pop (bmp r') = Suc (pop (bmp r))"
        using False True by (simp add: pop_def or_bmask [OF assms(2)] ins bits_finite)
      then have "unat (amount r) + 1 \<le> 24" using pop_le [of "bmp r'"] am by simp
      then have "unat (amount r + 1) = pop (bmp r')" using p am by (simp add: unat_word_ariths)
      then show ?thesis using r' p True by (simp add: rec_ok_def or_bmask [OF assms(2)])
    next
      case f: False
      then have r': "r' = r\<lparr>bmp := ucast (ucast (bmp r) AND NOT (bmask k)), amount := amount r - 1\<rparr>" "nf' = nf + 1"
        using assms(1,2) False by (auto simp: set_bit_in_def and_bmask)
      have b: "bit (bmp r) k" using False f by simp
      then have pos: "0 < pop (bmp r)" using bits_finite [of "bmp r"] by (auto simp: pop_def card_gt_0_iff)
      have p: "pop (bmp r') = pop (bmp r) - 1"
        using r'(1) b by (simp add: pop_def nand_bmask [OF assms(2)] del bits_finite)
      have "unat (amount r - 1) = pop (bmp r')" using p am pos by (metis unat_0 unat_minus_one less_irrefl)
      then show ?thesis using r' p f pos by (simp add: rec_ok_def nand_bmask [OF assms(2)] of_nat_diff)
    qed
  qed
  then show "rec_ok r'" "rtype r' = rtype r" "nf' + of_nat (pop (bmp r')) = nf + of_nat (pop (bmp r))"
    "bit (bmp r') j = (if j = k then st else bit (bmp r) j)" by auto
qed

lemma set_in_rec_bits:
  assumes "k < 24" "rec_ok r" "cnt \<le> count" "set_in_rec st (bmask k) cnt count (r, nf) = ((r', nf'), cnt')"
  shows "cnt' = min count (cnt + k + 1) \<and> rec_ok r' \<and> rtype r' = rtype r \<and>
    nf' + of_nat (pop (bmp r')) = nf + of_nat (pop (bmp r)) \<and>
    (\<forall>j. bit (bmp r') j = (if j \<le> k \<and> k < j + (cnt' - cnt) then st else bit (bmp r) j))"
  using assms
proof (induction k arbitrary: cnt r nf)
  case 0
  show ?case
  proof (cases "cnt < count")
    case True
    obtain r1 nf1 where s: "set_bit_in st (bmask 0) (r, nf) = (r1, nf1)" by (cases "set_bit_in st (bmask 0) (r, nf)")
    have "set_in_rec st (bmask 0) cnt count (r, nf) = ((r1, nf1), cnt + 1)"
      using True s by (simp add: set_in_rec.simps [of st "bmask 0"] set_in_rec.simps [of st 0] drop_bmask bmask_nonzero)
    then show ?thesis using 0 True set_bit_step [OF s 0(1,2)] by auto
  next
    case False
    then show ?thesis using 0 by (auto simp: set_in_rec.simps)
  qed
next
  case (Suc k)
  show ?case
  proof (cases "cnt < count")
    case True
    obtain r1 nf1 where s: "set_bit_in st (bmask (Suc k)) (r, nf) = (r1, nf1)" by (cases "set_bit_in st (bmask (Suc k)) (r, nf)")
    note st = set_bit_step [OF s Suc.prems(1,2)]
    have "set_in_rec st (bmask (Suc k)) cnt count (r, nf) = set_in_rec st (bmask k) (cnt + 1) count (r1, nf1)"
      using True s bmask_nonzero [of "Suc k"] Suc.prems(1) by (simp add: set_in_rec.simps [of st "bmask (Suc k)"] drop_bmask)
    then have "cnt' = min count (cnt + 1 + k + 1) \<and> rec_ok r' \<and> rtype r' = rtype r1 \<and>
      nf' + of_nat (pop (bmp r')) = nf1 + of_nat (pop (bmp r1)) \<and>
      (\<forall>j. bit (bmp r') j = (if j \<le> k \<and> k < j + (cnt' - (cnt + 1)) then st else bit (bmp r1) j))"
      using Suc.IH [of r1 "cnt + 1" nf1] Suc.prems True st(1) by simp
    then show ?thesis using st True by auto
  next
    case False
    then show ?thesis using Suc.prems by (auto simp: set_in_rec.simps)
  qed
qed

section \<open>Pages of a block\<close>

definition upage :: "ram_t \<Rightarrow> nat \<Rightarrow> bool" where
  "upage b n \<longleftrightarrow> bit (bmp (rt_recs b ! (n div 24))) (23 - n mod 24)"

definition pops :: "ram_t \<Rightarrow> nat" where
  "pops b = (\<Sum>r\<leftarrow>rt_recs b. pop (bmp r))"

definition block_ok :: "ram_t \<Rightarrow> bool" where
  "block_ok b \<longleftrightarrow> (\<forall>r\<in>set (rt_recs b). rec_ok r) \<and> rt_nfree b + of_nat (pops b) = of_nat (npages_of b)"

lemma sum_list_update_nat:
  "i < length xs \<Longrightarrow> (\<Sum>x\<leftarrow>xs[i := v]. f x) + f (xs ! i) = (\<Sum>x\<leftarrow>xs. f x :: nat) + f v"
  by (induction xs arbitrary: i) (auto simp: nth_Cons split: nat.splits)

lemma upage_update:
  assumes "i < nrec b" "n < npages_of b"
  shows "upage (b\<lparr>rt_recs := (rt_recs b)[i := r], rt_nfree := nf\<rparr>) n =
    (if n div 24 = i then bit (bmp r) (23 - n mod 24) else upage b n)"
  using assms by (simp add: upage_def)

lemma block_ok_update:
  assumes "block_ok b" "i < nrec b" "rec_ok r" "nf + of_nat (pop (bmp r)) = rt_nfree b + of_nat (pop (bmp (rt_recs b ! i)))"
  shows "block_ok (b\<lparr>rt_recs := (rt_recs b)[i := r], rt_nfree := nf\<rparr>)"
proof -
  let ?b = "b\<lparr>rt_recs := (rt_recs b)[i := r], rt_nfree := nf\<rparr>"
  have "pops ?b + pop (bmp (rt_recs b ! i)) = pops b + pop (bmp r)"
    using sum_list_update_nat [OF assms(2), where f = "\<lambda>r. pop (bmp r)"] by (simp add: pops_def)
  then have w: "(of_nat (pops ?b) :: u64) + of_nat (pop (bmp (rt_recs b ! i))) = of_nat (pops b) + of_nat (pop (bmp r))"
    by (metis of_nat_add)
  have "nf + of_nat (pops ?b) + of_nat (pop (bmp (rt_recs b ! i))) = nf + of_nat (pop (bmp r)) + of_nat (pops b)"
    using w by (simp add: ac_simps)
  also have "\<dots> = rt_nfree b + of_nat (pops b) + of_nat (pop (bmp (rt_recs b ! i)))" using assms(4) by (simp add: ac_simps)
  finally have "nf + of_nat (pops ?b) = of_nat (npages_of b)" using assms(1) by (simp add: block_ok_def)
  then show ?thesis using assms by (auto simp: block_ok_def dest!: subsetD [OF set_update_subset_insert])
qed

text \<open>Setting bits from page \<open>p\<close> on changes \<open>count\<close> pages or all up to the end of the block.\<close>

lemma set_recs_pages:
  assumes "set_recs st ty (bmask k) cnt count i b = (cnt', b')" "k < 24" "block_ok b" "cnt \<le> count" "i < nrec b"
  shows "cnt' = min count (cnt + (npages_of b - (i * 24 + (23 - k)))) \<and> block_ok b' \<and> nrec b' = nrec b \<and> rt_addr b' = rt_addr b \<and>
    (\<forall>n<npages_of b. upage b' n = (if i * 24 + (23 - k) \<le> n \<and> n < i * 24 + (23 - k) + (cnt' - cnt) then st else upage b n))"
  using assms
proof (induction "nrec b - i" arbitrary: i k cnt b)
  case 0
  then show ?case by simp
next
  case (Suc m)
  show ?case
  proof (cases "cnt < count")
    case False
    then show ?thesis using Suc.prems by (auto simp: set_recs.simps)
  next
    case True
    let ?r = "rt_recs b ! i"
    obtain r1 nf1 c1 where s: "set_in_rec st (bmask k) cnt count (?r\<lparr>rtype := ty\<rparr>, rt_nfree b) = ((r1, nf1), c1)"
      by (metis surj_pair)
    have "rec_ok ?r" using Suc.prems(3,5) by (simp add: block_ok_def)
    then have "rec_ok (?r\<lparr>rtype := ty\<rparr>)" by (simp add: rec_ok_def)
    from set_in_rec_bits [OF Suc.prems(2) this Suc.prems(4) s]
    have r1: "c1 = min count (cnt + k + 1)" "rec_ok r1" "nf1 + of_nat (pop (bmp r1)) = rt_nfree b + of_nat (pop (bmp ?r))"
      "\<And>j. bit (bmp r1) j = (if j \<le> k \<and> k < j + (c1 - cnt) then st else bit (bmp ?r) j)" by auto
    let ?b = "b\<lparr>rt_recs := (rt_recs b)[i := r1], rt_nfree := nf1\<rparr>"
    have ok: "block_ok ?b" using block_ok_update [OF Suc.prems(3,5) r1(2,3)] .
    have step: "set_recs st ty (bmask 23) c1 count (i + 1) ?b = (cnt', b')"
      using Suc.prems(1,5) True s by (simp add: set_recs.simps [of st ty "bmask k"])
    have u: "upage ?b n = (if i * 24 + (23 - k) \<le> n \<and> n < i * 24 + (23 - k) + (c1 - cnt) then st else upage b n)"
      if n: "n < npages_of b" for n
    proof -
      have c1: "c1 - cnt \<le> k + 1" "cnt \<le> c1" using r1(1) True by auto
      have n': "n = n div 24 * 24 + n mod 24" "n mod 24 < 24" by simp_all
      show ?thesis
      proof (cases "n div 24 = i")
        case True
        then have "n = i * 24 + n mod 24" using n'(1) by simp
        then have "i * 24 + (23 - k) \<le> n \<longleftrightarrow> 23 - n mod 24 \<le> k"
          "n < i * 24 + (23 - k) + (c1 - cnt) \<longleftrightarrow> k < 23 - n mod 24 + (c1 - cnt)"
          using Suc.prems(2) n'(2) by linarith+
        then show ?thesis using True upage_update [OF Suc.prems(5) n] r1(4) [of "23 - n mod 24"] by (simp add: upage_def)
      next
        case False
        then have "n < i * 24 \<or> (i + 1) * 24 \<le> n" using div_nat_eqI [of 24 i n] by (auto simp: mult.commute not_less)
        then have "\<not> (i * 24 + (23 - k) \<le> n \<and> n < i * 24 + (23 - k) + (c1 - cnt))" using c1(1) Suc.prems(2) by auto
        then show ?thesis using False upage_update [OF Suc.prems(5) n] by auto
      qed
    qed
    show ?thesis
    proof (cases "i + 1 < nrec b")
      case False
      then have "cnt' = c1" "b' = ?b" using step by (auto simp: set_recs.simps)
      moreover have "npages_of b = (i + 1) * 24" using False Suc.prems(5) by (simp add: MAX_REC_AMOUNT_def)
      ultimately show ?thesis using r1(1) ok u Suc.prems(2) by (auto simp: MAX_REC_AMOUNT_def)
    next
      case more: True
      have "cnt' = min count (c1 + (npages_of b - (i + 1) * 24)) \<and> block_ok b' \<and> nrec b' = nrec b \<and> rt_addr b' = rt_addr b \<and>
        (\<forall>n<npages_of b. upage b' n = (if (i + 1) * 24 \<le> n \<and> n < (i + 1) * 24 + (cnt' - c1) then st else upage ?b n))"
        using Suc.hyps(1) [OF _ step _ ok] Suc.hyps(2) more r1(1) by simp
      then have rest: "cnt' = min count (c1 + (npages_of b - (i + 1) * 24))" "block_ok b'" "nrec b' = nrec b" "rt_addr b' = rt_addr b"
        "\<And>n. n < npages_of b \<Longrightarrow> upage b' n = (if (i + 1) * 24 \<le> n \<and> n < (i + 1) * 24 + (cnt' - c1) then st else upage ?b n)"
        by blast+
      have lt: "(i + 1) * 24 < npages_of b" using more by (simp add: MAX_REC_AMOUNT_def)
      have c: "cnt' = min count (cnt + (npages_of b - (i * 24 + (23 - k))))"
        using rest(1) r1(1) lt Suc.prems(2) by (simp add: min_def ac_simps split: if_splits)
      have full: "c1 = count \<or> c1 = cnt + k + 1" "cnt < c1" "c1 \<le> cnt'" using r1(1) rest(1) True by (auto simp: min_def)
      have "upage b' n = (if i * 24 + (23 - k) \<le> n \<and> n < i * 24 + (23 - k) + (cnt' - cnt) then st else upage b n)"
        if n: "n < npages_of b" for n
      proof (cases "c1 = count")
        case True
        then have "cnt' = c1" using full(3) rest(1) by simp
        then show ?thesis using u [OF n] rest(5) [OF n] by simp
      next
        case False
        then have c1: "c1 = cnt + k + 1" using full(1) by simp
        show ?thesis using u [OF n] rest(5) [OF n] c1 full(3) Suc.prems(2) by (cases "(i + 1) * 24 \<le> n") auto
      qed
      then show ?thesis using c rest(2-4) by blast
    qed
  qed
qed

section \<open>Accounting\<close>

text \<open>Every record counts its set bits, and every block its free pages.\<close>

definition acct :: "pma \<Rightarrow> bool" where
  "acct s \<longleftrightarrow> (\<forall>b\<in>set (m_ram s). block_ok b)"

text \<open>What an operation on bits leaves alone.\<close>

definition same_layout :: "pma \<Rightarrow> pma \<Rightarrow> bool" where
  "same_layout s s' \<longleftrightarrow> page_size s' = page_size s \<and> pm_env s' = pm_env s \<and>
     pm_repo s' = pm_repo s \<and> pm_mutex s' = pm_mutex s \<and>
     map (\<lambda>b. (rt_addr b, nrec b)) (m_ram s') = map (\<lambda>b. (rt_addr b, nrec b)) (m_ram s)"

lemma same_layout_nth:
  assumes "same_layout s s'"
  shows "length (m_ram s') = length (m_ram s)"
    and "j < length (m_ram s) \<Longrightarrow> rt_addr (m_ram s' ! j) = rt_addr (m_ram s ! j) \<and> nrec (m_ram s' ! j) = nrec (m_ram s ! j)"
proof -
  have e: "map (\<lambda>b. (rt_addr b, nrec b)) (m_ram s') = map (\<lambda>b. (rt_addr b, nrec b)) (m_ram s)"
    using assms by (simp add: same_layout_def)
  show l: "length (m_ram s') = length (m_ram s)" using map_eq_imp_length_eq [OF e] .
  show "rt_addr (m_ram s' ! j) = rt_addr (m_ram s ! j) \<and> nrec (m_ram s' ! j) = nrec (m_ram s ! j)" if "j < length (m_ram s)"
    using arg_cong [OF e, of "\<lambda>xs. xs ! j"] that l by simp
qed

lemma same_layout_refl [simp]: "same_layout s s"
  by (simp add: same_layout_def)

lemma same_layout_trans: "same_layout s s' \<Longrightarrow> same_layout s' s'' \<Longrightarrow> same_layout s s''"
  by (simp add: same_layout_def)

abbreviation upg :: "pma \<Rightarrow> nat \<Rightarrow> nat \<Rightarrow> bool" where
  "upg s j n \<equiv> upage (m_ram s ! j) n"

lemma set_bits_pages:
  assumes "acct s" "j < length (m_ram s)" "i < nrec (m_ram s ! j)" "b < 24"
  shows "\<exists>c s'. set_bits s j i b count ty st = Some (of_nat c, s') \<and>
    c = min (unat count) (npages_of (m_ram s ! j) - (i * 24 + b)) \<and> acct s' \<and> same_layout s s' \<and>
    (\<forall>j' n. j' < length (m_ram s) \<longrightarrow> n < npages_of (m_ram s ! j') \<longrightarrow>
       upg s' j' n = (if j' = j \<and> i * 24 + b \<le> n \<and> n < i * 24 + b + c then st else upg s j' n))"
proof -
  let ?b = "m_ram s ! j"
  obtain c b' where e: "set_recs st (ucast ty) (bmask (23 - b)) 0 (unat count) i ?b = (c, b')"
    by (cases "set_recs st (ucast ty) (bmask (23 - b)) 0 (unat count) i ?b")
  have m: "drop_bit b (bmask 23) = bmask (23 - b)" using assms(4) by (simp add: drop_bmask)
  have ok: "block_ok ?b" using assms(1,2) by (simp add: acct_def)
  have b': "c = min (unat count) (npages_of ?b - (i * 24 + b))" "block_ok b'" "nrec b' = nrec ?b" "rt_addr b' = rt_addr ?b"
    "\<And>n. n < npages_of ?b \<Longrightarrow> upage b' n = (if i * 24 + b \<le> n \<and> n < i * 24 + b + c then st else upage ?b n)"
    using set_recs_pages [OF e _ ok _ assms(3)] assms(4) by auto
  let ?s = "s\<lparr>m_ram := (m_ram s)[j := b']\<rparr>"
  have "acct ?s" using assms(1) b'(2) by (auto simp: acct_def dest!: subsetD [OF set_update_subset_insert])
  moreover have "same_layout s ?s"
    using b'(3,4) assms(2) by (auto simp: same_layout_def map_update intro!: list_update_same_conv [THEN iffD2])
  moreover have "upg ?s j' n = (if j' = j \<and> i * 24 + b \<le> n \<and> n < i * 24 + b + c then st else upg s j' n)"
    if "j' < length (m_ram s)" "n < npages_of (m_ram s ! j')" for j' n
    using that b'(5) assms(2) by (cases "j' = j") auto
  ultimately show ?thesis using b'(1) e m assms(2)
    by (intro exI [of _ c] exI [of _ ?s]) (simp add: set_bits_def)
qed

lemma a2p_loop_pos:
  assumes "a2p_loop ps a i bs = Some (j, r, b)" "0 < ps"
  shows "i \<le> j \<and> j < i + length bs \<and> r < nrec (bs ! (j - i)) \<and> b < 24 \<and> rt_addr (bs ! (j - i)) \<le> a \<and>
    r * 24 + b = (a - rt_addr (bs ! (j - i))) div ps"
  using assms
proof (induction bs arbitrary: i)
  case (Cons x xs)
  show ?case
  proof (cases "rt_addr x \<le> a \<and> a < rt_addr x + npages_of x * ps")
    case True
    then have d: "(a - rt_addr x) div ps < npages_of x" using assms(2) by (simp add: div_less_iff_less_mult less_diff_conv2)
    then have "(a - rt_addr x) div ps div 24 < nrec x" by (simp add: MAX_REC_AMOUNT_def div_less_iff_less_mult)
    then show ?thesis using True Cons.prems(1) by (auto simp: Let_def MAX_REC_AMOUNT_def)
  next
    case False
    then have "a2p_loop ps a (i + 1) xs = Some (j, r, b)" using Cons.prems(1) by (auto simp: Let_def)
    from Cons.IH [OF this assms(2)] have j: "i + 1 \<le> j" and *: "j < i + 1 + length xs \<and> r < nrec (xs ! (j - (i + 1))) \<and> b < 24 \<and>
      rt_addr (xs ! (j - (i + 1))) \<le> a \<and> r * 24 + b = (a - rt_addr (xs ! (j - (i + 1)))) div ps" by blast+
    have "(x # xs) ! (j - i) = xs ! (j - (i + 1))" using j by (simp add: nth_Cons')
    then show ?thesis using j * by simp
  qed
qed simp

end
