(* ===== verification/B24_Alloc.thy ===== *)
theory B24_Alloc
  imports B24_PMA
begin

text \<open>
  Correctness of the page allocator: the nested loops of \<open>find\<close> compute one downward scan over the
  pages of a block, so that a run it returns is free and a failure means that there is none;
  allocation and release of pages as operations on the set of pages in use; the accounting
  invariant of all reachable states; and the starvation caused by a block without records.
\<close>

section \<open>Scanning pages downward\<close>

fun scan :: "(nat \<Rightarrow> bool) \<Rightarrow> nat \<Rightarrow> nat \<Rightarrow> nat \<Rightarrow> nat option \<times> nat" where
  "scan av count 0 cnt = (None, cnt)"
| "scan av count (Suc n) cnt =
     (if av n then (if cnt + 1 = count then (Some n, cnt + 1) else scan av count n (cnt + 1))
      else scan av count n 0)"

lemma scan_append:
  "scan av count (m + n) cnt =
     (case scan (\<lambda>j. av (m + j)) count n cnt of
        (Some j, c) \<Rightarrow> (Some (m + j), c) | (None, c) \<Rightarrow> scan av count m c)"
  by (induction n arbitrary: cnt) auto

lemma scan_found:
  assumes "scan av count n cnt = (Some p, c)" "\<forall>m. n \<le> m \<and> m < n + cnt \<longrightarrow> av m"
  shows "p < n \<and> c = count \<and> p + count \<le> n + cnt \<and> (\<forall>m. p \<le> m \<and> m < p + count \<longrightarrow> av m)"
  using assms
proof (induction n arbitrary: cnt)
  case (Suc n)
  show ?case
  proof (cases "av n")
    case False
    then have "p < n \<and> c = count \<and> p + count \<le> n + 0 \<and> (\<forall>m. p \<le> m \<and> m < p + count \<longrightarrow> av m)"
      using Suc.prems by (intro Suc.IH) auto
    then show ?thesis by auto
  next
    case True
    have av: "av m" if "n \<le> m" "m < n + (cnt + 1)" for m
      using that True Suc.prems(2) by (cases "m = n") auto
    show ?thesis
    proof (cases "cnt + 1 = count")
      case True
      then show ?thesis using \<open>av n\<close> Suc.prems(1) av by auto
    next
      case False
      then have "p < n \<and> c = count \<and> p + count \<le> n + (cnt + 1) \<and> (\<forall>m. p \<le> m \<and> m < p + count \<longrightarrow> av m)"
        using \<open>av n\<close> Suc.prems(1) av by (intro Suc.IH) auto
      then show ?thesis by auto
    qed
  qed
qed simp

lemma scan_none:
  assumes "scan av count n cnt = (None, c)" "cnt < count"
  shows "c < count \<and> (\<forall>p. p < n \<and> p + count \<le> n + cnt \<longrightarrow> (\<exists>m. p \<le> m \<and> m < p + count \<and> \<not> av m))"
  using assms
proof (induction n arbitrary: cnt)
  case (Suc n)
  show ?case
  proof (cases "av n")
    case True
    then have "cnt + 1 \<noteq> count" "scan av count n (cnt + 1) = (None, c)" using Suc.prems(1) by (auto split: if_splits)
    then have ih: "c < count \<and> (\<forall>p. p < n \<and> p + count \<le> n + (cnt + 1) \<longrightarrow> (\<exists>m. p \<le> m \<and> m < p + count \<and> \<not> av m))"
      using Suc.prems(2) by (intro Suc.IH) auto
    have "p < n" if "p < Suc n" "p + count \<le> Suc n + cnt" for p
      using that \<open>cnt + 1 \<noteq> count\<close> Suc.prems(2) by auto
    then show ?thesis using ih by auto
  next
    case False
    then have ih: "c < count \<and> (\<forall>p. p < n \<and> p + count \<le> n + 0 \<longrightarrow> (\<exists>m. p \<le> m \<and> m < p + count \<and> \<not> av m))"
      using Suc.prems by (intro Suc.IH) auto
    have "\<exists>m. p \<le> m \<and> m < p + count \<and> \<not> av m" if "p < Suc n" for p
    proof (cases "n < p + count")
      case True
      then show ?thesis using that False by (intro exI [of _ n]) auto
    next
      case f: False
      then have "p < n" using that Suc.prems(2) by auto
      then show ?thesis using ih f by auto
    qed
    then show ?thesis using ih by blast
  qed
qed simp

lemma scan_lt: "scan av count n cnt = (Some p, c) \<Longrightarrow> p < n"
  by (induction n arbitrary: cnt) (auto split: if_splits simp: less_SucI)

lemma scan_blocked: "\<forall>j<n. \<not> av j \<Longrightarrow> scan av count n cnt = (None, if n = 0 then cnt else 0)"
  by (induction n arbitrary: cnt) auto

lemma scan_cong: "\<forall>j<n. av' j = av j \<Longrightarrow> scan av' count n cnt = scan av count n cnt"
  by (induction n arbitrary: cnt) auto

section \<open>The loops of find\<close>

lemma bmask_less: "k < 64 \<Longrightarrow> unat (bmask k) = 2 ^ k"
  by (simp add: bmask_def unsigned_push_bit_eq take_bit_of_exp del: push_bit_of_1)

lemma bits_loop_scan:
  assumes "k \<le> 24"
  shows "bits_loop (ucast (w :: 24 word)) (bmask k) cnt count = Some
    (case scan (\<lambda>j. \<not> bit w (23 - j)) count (24 - k) cnt of
       (Some j, c) \<Rightarrow> (True, bmask (23 - j), c) | (None, c) \<Rightarrow> (False, bmask 24, c))"
  using assms
proof (induction "24 - k" arbitrary: k cnt)
  case 0
  then show ?case by (subst bits_loop.simps) simp
next
  case (Suc n)
  then have k: "k < 24" "24 - k = Suc n" "23 - n = k" by auto
  have lt: "bmask k < bmask 24"
    using k(1) power_strict_increasing [of k 24 "2::nat"] by (simp add: word_less_nat_alt bmask_less)
  have nx: "push_bit (Suc 0) (bmask k) = bmask (Suc k)" by (simp only: push_bmask add_Suc_right add_0_right)
  have n: "n = 24 - Suc k" using k by simp
  show ?case
    using lt nx Suc.hyps(1) [OF n, of "cnt + 1"] Suc.hyps(1) [OF n, of 0] k(1) n
    by (subst bits_loop.simps) (simp add: and_bmask k(2) k(3) del: scan.simps, simp add: k(3))
qed

text \<open>A page is available to a request when its bit is clear and its record has no other type.\<close>

definition avail :: "u8 \<Rightarrow> ram_t \<Rightarrow> nat \<Rightarrow> bool" where
  "avail ty b n \<longleftrightarrow> (rtype (rt_recs b ! (n div 24)) = 0 \<or> ucast (rtype (rt_recs b ! (n div 24))) = ty) \<and> \<not> upage b n"

lemma avail_rec:
  assumes "j < 24"
  shows "avail ty b (i * 24 + j) \<longleftrightarrow>
    (rtype (rt_recs b ! i) = 0 \<or> ucast (rtype (rt_recs b ! i)) = ty) \<and> \<not> bit (bmp (rt_recs b ! i)) (23 - j)"
proof -
  have "(i * 24 + j) div 24 = i" "(i * 24 + j) mod 24 = j" using assms by simp_all
  then show ?thesis by (simp add: avail_def upage_def)
qed

lemma unusable_blocked:
  assumes "rec_ok (rt_recs b ! i)" "\<not> usable ty (rt_recs b ! i)" "j < 24"
  shows "\<not> avail ty b (i * 24 + j)"
proof (cases "unat (amount (rt_recs b ! i)) < 24")
  case True
  then show ?thesis using assms by (auto simp: usable_def avail_rec MAX_REC_AMOUNT_def)
next
  case False
  then have "pop (bmp (rt_recs b ! i)) = 24" using assms(1) pop_le [of "bmp (rt_recs b ! i)"] by (simp add: rec_ok_def)
  then show ?thesis using pop_full assms(3) by (simp add: avail_rec)
qed

lemma rec_scan:
  assumes "rec_ok (rt_recs b ! i)" "k \<le> 24" "k < 24 \<or> cnt = 0"
  shows "\<exists>m. (if usable ty (rt_recs b ! i) then bits_loop (ucast (bmp (rt_recs b ! i))) (bmask k) cnt count
       else Some (False, bmask k, 0)) = Some
    (case scan (\<lambda>j. avail ty b (i * 24 + j)) count (24 - k) cnt of
       (Some j, c) \<Rightarrow> (True, bmask (23 - j), c) | (None, c) \<Rightarrow> (False, m, c))"
proof (cases "usable ty (rt_recs b ! i)")
  case True
  then have "scan (\<lambda>j. avail ty b (i * 24 + j)) count (24 - k) cnt = scan (\<lambda>j. \<not> bit (bmp (rt_recs b ! i)) (23 - j)) count (24 - k) cnt"
    by (intro scan_cong) (auto simp: usable_def avail_rec)
  then show ?thesis using True bits_loop_scan [OF assms(2), of "bmp (rt_recs b ! i)" cnt count] by auto
next
  case False
  have "scan (\<lambda>j. avail ty b (i * 24 + j)) count (24 - k) cnt = (None, 0)"
    using unusable_blocked [OF assms(1) False] assms(3) by (subst scan_blocked) auto
  then show ?thesis using False by simp
qed

lemma recs_loop_scan:
  assumes "block_ok b" "i < nrec b" "k \<le> 24" "k < 24 \<or> cnt = 0"
  shows "\<exists>mk. recs_loop (rt_recs b) ty count i (bmask k) cnt = Some
    (case scan (avail ty b) count (i * 24 + (24 - k)) cnt of
       (Some n, c) \<Rightarrow> (True, n div 24, bmask (23 - n mod 24), c) | (None, c) \<Rightarrow> (False, 0, mk, c))"
  using assms
proof (induction i arbitrary: k cnt)
  case (0 k cnt)
  have ok: "rec_ok (rt_recs b ! 0)" using 0 by (simp add: block_ok_def)
  obtain f c where s: "scan (avail ty b) count (24 - k) cnt = (f, c)" by (metis surj_pair)
  show ?case
  proof (cases f)
    case None
    then show ?thesis using rec_scan [OF ok 0(3,4), of ty count] s 0(2)
      by (subst recs_loop.simps) (auto split: if_splits)
  next
    case (Some n)
    then have "n < 24" using scan_lt [OF s [unfolded Some]] by simp
    then show ?thesis using Some rec_scan [OF ok 0(3,4), of ty count] s 0(2)
      by (subst recs_loop.simps) (auto split: if_splits)
  qed
next
  case (Suc i k cnt)
  have ok: "rec_ok (rt_recs b ! Suc i)" using Suc.prems by (simp add: block_ok_def)
  obtain f c where s: "scan (\<lambda>j. avail ty b (Suc i * 24 + j)) count (24 - k) cnt = (f, c)" by (metis surj_pair)
  obtain m where m: "(if usable ty (rt_recs b ! Suc i) then bits_loop (ucast (bmp (rt_recs b ! Suc i))) (bmask k) cnt count
       else Some (False, bmask k, 0)) = Some (case f of Some j \<Rightarrow> (True, bmask (23 - j), c) | None \<Rightarrow> (False, m, c))"
    using rec_scan [OF ok Suc.prems(3,4), of ty count] s by auto
  show ?case
  proof (cases f)
    case (Some j)
    then have j: "j < 24" using scan_lt [OF s [unfolded Some]] by simp
    have "(Suc i * 24 + j) div 24 = Suc i" "(Suc i * 24 + j) mod 24 = j" using j mod_mult_self3 [of "Suc i" 24 j] div_mult_self3 [of 24 j "Suc i"] by (simp_all del: mult_Suc)
    then show ?thesis using Some m Suc.prems(2) s
      by (subst recs_loop.simps) (simp add: scan_append)
  next
    case None
    have r: "recs_loop (rt_recs b) ty count (Suc i) (bmask k) cnt = recs_loop (rt_recs b) ty count i (bmask 0) c"
      using None m Suc.prems(2) by (subst recs_loop.simps) (simp add: bmask_def)
    have "scan (avail ty b) count (Suc i * 24 + (24 - k)) cnt = scan (avail ty b) count (i * 24 + (24 - 0)) c"
      using None s scan_append [of "avail ty b" count "Suc i * 24" "24 - k" cnt] by (simp add: add.commute)
    then show ?thesis using Suc.IH [of 0 c] Suc.prems(1,2) r by simp
  qed
qed

text \<open>A run of \<open>count\<close> available pages from page \<open>n\<close> of a block.\<close>

definition free_run :: "u8 \<Rightarrow> nat \<Rightarrow> ram_t \<Rightarrow> nat \<Rightarrow> bool" where
  "free_run ty count b n \<longleftrightarrow> (\<forall>m. n \<le> m \<and> m < n + count \<longrightarrow> avail ty b m)"

lemma recs_loop_run:
  assumes "block_ok b" "i < nrec b" "k \<le> 24" "0 < count"
  shows "\<exists>d r mk c. recs_loop (rt_recs b) ty count i (bmask k) 0 = Some (d, r, mk, c) \<and>
    (d \<longrightarrow> c = count \<and> (\<exists>n. r = n div 24 \<and> mk = bmask (23 - n mod 24) \<and> n + count \<le> i * 24 + (24 - k) \<and> free_run ty count b n)) \<and>
    (\<not> d \<longrightarrow> c < count \<and> (\<forall>n. n + count \<le> i * 24 + (24 - k) \<longrightarrow> \<not> free_run ty count b n))"
proof -
  obtain f c where s: "scan (avail ty b) count (i * 24 + (24 - k)) 0 = (f, c)" by (metis surj_pair)
  show ?thesis
  proof (cases f)
    case None
    then show ?thesis using recs_loop_scan [OF assms(1-3), of 0 ty count] s scan_none [OF s [unfolded None] assms(4)] assms(4)
      by (auto simp: free_run_def)
  next
    case (Some n)
    have "\<forall>m. i * 24 + (24 - k) \<le> m \<and> m < i * 24 + (24 - k) + 0 \<longrightarrow> avail ty b m" by auto
    from scan_found [OF s [unfolded Some] this]
    have "n + count \<le> i * 24 + (24 - k)" "c = count" "free_run ty count b n" unfolding free_run_def by simp_all
    then show ?thesis using recs_loop_scan [OF assms(1-3), of 0 ty count] s Some by auto
  qed
qed

lemma blocks_loop_run:
  assumes "\<forall>b\<in>set bs. block_ok b \<and> 0 < nrec b" "j < length bs" "i < nrec (bs ! j)" "k \<le> 24" "0 < count"
  shows "\<exists>d j' r mk c. blocks_loop bs ty count j i (bmask k) 0 = Some (d, j', r, mk, c) \<and>
    (d \<longrightarrow> c = count \<and> j' \<le> j \<and> (\<exists>n. r = n div 24 \<and> mk = bmask (23 - n mod 24) \<and>
       n + count \<le> (if j' = j then i * 24 + (24 - k) else npages_of (bs ! j')) \<and> free_run ty count (bs ! j') n)) \<and>
    (\<not> d \<longrightarrow> c < count \<and> (\<forall>n. n + count \<le> i * 24 + (24 - k) \<longrightarrow> \<not> free_run ty count (bs ! j) n) \<and>
       (\<forall>j'<j. \<forall>n. n + count \<le> npages_of (bs ! j') \<longrightarrow> \<not> free_run ty count (bs ! j') n))"
  using assms(2-4)
proof (induction j arbitrary: i k)
  case (0 i k)
  have "block_ok (bs ! 0)" using assms(1) 0(1) by simp
  from recs_loop_run [OF this 0(2,3) assms(5), of ty] 0(1) show ?case
    by (subst blocks_loop.simps) auto
next
  case (Suc j i k)
  have ok: "block_ok (bs ! Suc j)" "0 < nrec (bs ! j)" using assms(1) Suc.prems(1) by auto
  from recs_loop_run [OF ok(1) Suc.prems(2,3) assms(5), of ty] obtain d r mk c where
    r: "recs_loop (rt_recs (bs ! Suc j)) ty count i (bmask k) 0 = Some (d, r, mk, c)"
    "d \<longrightarrow> c = count \<and> (\<exists>n. r = n div 24 \<and> mk = bmask (23 - n mod 24) \<and> n + count \<le> i * 24 + (24 - k) \<and> free_run ty count (bs ! Suc j) n)"
    "\<not> d \<longrightarrow> c < count \<and> (\<forall>n. n + count \<le> i * 24 + (24 - k) \<longrightarrow> \<not> free_run ty count (bs ! Suc j) n)" by blast
  show ?case
  proof (cases d)
    case True
    then show ?thesis using r(1,2) Suc.prems(1)
      by (subst blocks_loop.simps) auto
  next
    case False
    have l: "last_rec (bs ! j) = nrec (bs ! j) - 1" "last_rec (bs ! j) < nrec (bs ! j)" using ok(2) by (auto simp: last_rec_def)
    have np: "last_rec (bs ! j) * 24 + (24 - 0) = npages_of (bs ! j)" using l(1) ok(2) by (cases "nrec (bs ! j)") (simp_all add: MAX_REC_AMOUNT_def)
    have step: "blocks_loop bs ty count (Suc j) i (bmask k) 0 = blocks_loop bs ty count j (last_rec (bs ! j)) (bmask 0) 0"
      using False r(1) Suc.prems(1) by (subst blocks_loop.simps) (simp add: bmask_def)
    obtain d' j' r' mk' c' where b: "blocks_loop bs ty count j (last_rec (bs ! j)) (bmask 0) 0 = Some (d', j', r', mk', c')"
      "d' \<longrightarrow> c' = count \<and> j' \<le> j \<and> (\<exists>n. r' = n div 24 \<and> mk' = bmask (23 - n mod 24) \<and>
         n + count \<le> npages_of (bs ! j') \<and> free_run ty count (bs ! j') n)"
      "\<not> d' \<longrightarrow> c' < count \<and> (\<forall>j'\<le>j. \<forall>n. n + count \<le> npages_of (bs ! j') \<longrightarrow> \<not> free_run ty count (bs ! j') n)"
      using Suc.IH [of "last_rec (bs ! j)" 0] Suc.prems(1) l(2) np by (auto simp: le_less split: if_splits) metis+
    have "j' \<noteq> Suc j" if d' using that b(2) by auto
    then show ?thesis using step b r(3) False
      by (intro exI [of _ d'] exI [of _ j'] exI [of _ r'] exI [of _ mk'] exI [of _ c']) (auto simp: less_Suc_eq_le)
  qed
qed

lemma bit_of_mask: "k \<le> 23 \<Longrightarrow> bit_of (bmask (23 - k)) 0 MAX_REC_AMOUNT = k"
proof -
  assume k: "k \<le> 23"
  have m: "drop_bit b (bmask 23) AND bmask (23 - k) \<noteq> 0 \<longleftrightarrow> b = k" if "b \<le> 23" for b
  proof -
    have "bmask (23 - b) AND bmask (23 - k) = (0 :: u64) \<longleftrightarrow> b \<noteq> k"
      using that k by (auto simp: bit_eq_iff [where 'a = "64 word"] bit_and_iff bmask_bit dest!: spec [of _ "23 - k"])
    then show ?thesis using that by (simp add: drop_bmask)
  qed
  have "b \<le> k \<Longrightarrow> b + n = 24 \<Longrightarrow> bit_of (bmask (23 - k)) b n = k" for b n
    by (induction n arbitrary: b) (use m k in \<open>auto simp: less_Suc_eq_le\<close>)
  from this [of 0 24] show ?thesis by (simp add: MAX_REC_AMOUNT_def)
qed

section \<open>The object\<close>

text \<open>The blocks have records, are page aligned and lie in ascending order.\<close>

definition pma_ok :: "pma \<Rightarrow> bool" where
  "pma_ok s \<longleftrightarrow> acct s \<and> 0 < page_size s \<and> m_ram s \<noteq> [] \<and>
     (\<forall>b\<in>set (m_ram s). 0 < nrec b \<and> 0 < rt_addr b \<and> rt_addr b mod page_size s = 0) \<and>
     sorted_wrt (\<lambda>a b. rt_addr a + npages_of a * page_size s \<le> rt_addr b) (m_ram s)"

lemma pma_ok_layout:
  assumes "pma_ok s" "same_layout s s'" "acct s'"
  shows "pma_ok s'"
proof -
  note l = same_layout_nth [OF assms(2)]
  have ps: "page_size s' = page_size s" using assms(2) by (simp add: same_layout_def)
  have "sorted_wrt (\<lambda>a b. rt_addr a + npages_of a * page_size s \<le> rt_addr b) (m_ram s')"
    unfolding sorted_wrt_iff_nth_less
  proof (intro allI impI)
    fix i j
    assume "i < j" "j < length (m_ram s')"
    then show "rt_addr (m_ram s' ! i) + npages_of (m_ram s' ! i) * page_size s \<le> rt_addr (m_ram s' ! j)"
      using assms(1) l(1) l(2) [of i] l(2) [of j] by (simp add: pma_ok_def sorted_wrt_iff_nth_less)
  qed
  moreover have "0 < nrec b \<and> 0 < rt_addr b \<and> rt_addr b mod page_size s = 0" if "b \<in> set (m_ram s')" for b
  proof -
    from that obtain j where "j < length (m_ram s)" "b = m_ram s' ! j" using l(1) by (auto simp: in_set_conv_nth)
    then show ?thesis using l(2) [of j] assms(1) by (simp add: pma_ok_def)
  qed
  moreover have "m_ram s' \<noteq> []" using assms(1) l(1) by (auto simp: pma_ok_def)
  ultimately show ?thesis using assms(1,3) ps by (simp add: pma_ok_def)
qed

text \<open>Addresses of pages, and the position of an address.\<close>

definition page_addr :: "pma \<Rightarrow> nat \<Rightarrow> nat \<Rightarrow> nat" where
  "page_addr s j n = rt_addr (m_ram s ! j) + n * page_size s"

lemma a2p_at:
  assumes "sorted_wrt (\<lambda>a b. rt_addr a + npages_of a * ps \<le> rt_addr b) bs" "j < length bs"
    and "rt_addr (bs ! j) \<le> a" "a < rt_addr (bs ! j) + npages_of (bs ! j) * ps"
  shows "a2p_loop ps a i bs = Some (i + j, (a - rt_addr (bs ! j)) div ps div 24, (a - rt_addr (bs ! j)) div ps mod 24)"
  using assms
proof (induction bs arbitrary: i j)
  case (Cons x xs)
  show ?case
  proof (cases j)
    case 0
    then show ?thesis using Cons.prems by (simp add: Let_def MAX_REC_AMOUNT_def)
  next
    case (Suc m)
    then have "rt_addr x + npages_of x * ps \<le> rt_addr (xs ! m)" using Cons.prems(1,2) by simp
    then have "\<not> a < rt_addr x + npages_of x * ps" using Cons.prems(3) Suc by simp
    then show ?thesis using Cons.IH [of m "i + 1"] Cons.prems Suc by (simp add: Let_def)
  qed
qed simp

lemma position_of_page:
  assumes "pma_ok s" "j < length (m_ram s)" "n < npages_of (m_ram s ! j)"
  shows "address_to_position s (page_addr s j n) = Some (j, n div 24, n mod 24)"
proof -
  let ?ps = "page_size s"
  have ps: "0 < ?ps" "rt_addr (m_ram s ! j) mod ?ps = 0" using assms(1,2) by (auto simp: pma_ok_def)
  have al: "page_addr s j n mod ?ps = 0" using ps(2) by (simp add: page_addr_def)
  have "page_addr s j n < rt_addr (m_ram s ! j) + npages_of (m_ram s ! j) * ?ps"
    using assms(3) ps(1) by (simp add: page_addr_def)
  then show ?thesis
    using a2p_at [of ?ps "m_ram s" j "page_addr s j n" 0] assms(1,2) al ps(1)
    by (simp add: address_to_position_def pma_ok_def) (simp add: page_addr_def)
qed

lemma limit_loop_block:
  assumes "limit_loop bs limit j = r"
  shows "case r of None \<Rightarrow> \<forall>j'\<le>j. limit \<le> rt_addr (bs ! j')
    | Some i \<Rightarrow> i \<le> j \<and> rt_addr (bs ! i) < limit \<and> (\<forall>j'. i < j' \<and> j' \<le> j \<longrightarrow> limit \<le> rt_addr (bs ! j'))"
  using assms
proof (induction j)
  case 0
  then show ?case by (auto simp: limit_loop.simps split: if_splits)
next
  case (Suc j)
  show ?case
  proof (cases "limit \<le> rt_addr (bs ! Suc j)")
    case True
    then have "limit_loop bs limit j = r" using Suc.prems by (simp add: limit_loop.simps [of bs limit "Suc j"])
    then show ?thesis using Suc.IH True by (auto simp: le_Suc_eq split: option.splits)
  next
    case False
    then show ?thesis using Suc.prems by (auto simp: limit_loop.simps [of bs limit "Suc j"])
  qed
qed

text \<open>The pages of a block that end at or below a limit.\<close>

lemma pages_below:
  assumes "0 < ps" "a < limit" "n = min m ((limit - a) div ps)"
  shows "k \<le> n \<longleftrightarrow> k \<le> m \<and> a + k * ps \<le> (limit :: nat)"
proof -
  have "k \<le> (limit - a) div ps \<longleftrightarrow> a + k * ps \<le> limit"
    using assms(1,2) by (simp add: less_eq_div_iff_mult_less_eq le_diff_conv2 add.commute)
  then show ?thesis using assms(3) by auto
qed

lemma align_down:
  assumes "a mod ps = 0"
  shows "a + x - (a + x) mod ps = a + x div ps * (ps :: nat)"
proof -
  have "(a + x) mod ps = x mod ps" using assms by (metis add_0 mod_add_left_eq)
  moreover have "x mod ps \<le> x" "x - x mod ps = x div ps * ps" by (simp_all add: minus_mod_eq_div_mult)
  ultimately show ?thesis by linarith
qed

lemma pred_div: "0 < p \<Longrightarrow> 0 < m \<Longrightarrow> (m * p - 1) div p = m - (1 :: nat)"
proof -
  assume p: "0 < p" "0 < m"
  have "m * p - 1 = p - 1 + (m - 1) * p" using p by (cases m) auto
  also have "\<dots> div p = (m - 1) + (p - 1) div p" using p(1) by (intro div_mult_self1) simp
  also have "\<dots> = m - 1" using p(1) by simp
  finally show ?thesis .
qed

text \<open>Where the search starts: below the limit, or at the last page of the block.\<close>

lemma search_start:
  assumes "pma_ok s" "j < length (m_ram s)" "rt_addr (m_ram s ! j) < limit"
  defines "b \<equiv> m_ram s ! j"
  defines "e \<equiv> rt_addr b + npages_of b * page_size s - 1"
  shows "\<exists>i k. address_to_position s (if limit > e then e else limit) = Some (j, i, k) \<and> i < nrec b \<and> k < 24 \<and>
    (\<exists>m. drop_bit k (bmask (24 - (if limit > e then 1 else 0))) = bmask m \<and> m \<le> 24 \<and>
      i * 24 + (24 - m) = min (npages_of b) ((limit - rt_addr b) div page_size s))"
proof -
  let ?ps = "page_size s"
  have ok: "0 < ?ps" "0 < nrec b" "rt_addr b mod ?ps = 0" "0 < rt_addr b" using assms(1,2) by (auto simp: pma_ok_def b_def)
  have np: "npages_of b = nrec b * 24" "0 < npages_of b" using ok(2) by (simp_all add: MAX_REC_AMOUNT_def)
  have big: "?ps \<le> npages_of b * ?ps" using np(2) by (cases "npages_of b") simp_all
  show ?thesis
  proof (cases "limit > e")
    case True
    have "e = rt_addr b + (npages_of b * ?ps - 1)" using big ok(1) by (simp add: e_def)
    moreover have "(npages_of b * ?ps - 1) div ?ps = npages_of b - 1"
      using pred_div np(2) ok(1) by blast
    ultimately have al: "e - e mod ?ps = page_addr s j (npages_of b - 1)"
      using align_down [OF ok(3), of "npages_of b * ?ps - 1"] by (simp add: page_addr_def b_def)
    have "address_to_position s e = address_to_position s (page_addr s j (npages_of b - 1))"
      using al ok(3) by (simp add: address_to_position_def page_addr_def b_def [symmetric])
    also have "\<dots> = Some (j, nrec b - 1, 23)"
      using position_of_page [OF assms(1,2), of "npages_of b - 1"] np ok(2) by (cases "nrec b") (simp_all add: b_def [symmetric])
    finally have pos: "address_to_position s e = Some (j, nrec b - 1, 23)" .
    have "npages_of b * ?ps \<le> limit - rt_addr b" using True big ok(1) by (simp add: e_def)
    then have "npages_of b \<le> (limit - rt_addr b) div ?ps" using ok(1) by (simp add: less_eq_div_iff_mult_less_eq)
    moreover have "(nrec b - 1) * 24 + (24 - 0) = npages_of b" using ok(2) np(1) by (cases "nrec b") simp_all
    ultimately show ?thesis using True pos ok(2)
      by (intro exI [of _ "nrec b - 1"] exI [of _ 23]) (auto simp: drop_bmask intro!: exI [of _ 0])
  next
    case False
    let ?p = "(limit - rt_addr b) div ?ps"
    have lt: "limit - rt_addr b < npages_of b * ?ps" "rt_addr b < limit" using False big ok(1) assms(3) by (auto simp: e_def b_def)
    then have p: "?p < npages_of b" using ok(1) by (simp add: div_less_iff_less_mult)
    have al: "limit - limit mod ?ps = page_addr s j ?p"
      using align_down [OF ok(3), of "limit - rt_addr b"] lt(2) by (simp add: page_addr_def b_def)
    have "address_to_position s limit = address_to_position s (page_addr s j ?p)"
      using al ok(3) by (simp add: address_to_position_def page_addr_def b_def [symmetric])
    also have "\<dots> = Some (j, ?p div 24, ?p mod 24)" using position_of_page [OF assms(1,2)] p by (simp add: b_def)
    finally have pos: "address_to_position s limit = Some (j, ?p div 24, ?p mod 24)" .
    have m: "?p mod 24 < 24" "?p div 24 * 24 + ?p mod 24 = ?p" by simp_all
    have "?p div 24 < nrec b" using p np(1) by (simp add: div_less_iff_less_mult)
    then show ?thesis using False pos p m
      by (intro exI [of _ "?p div 24"] exI [of _ "?p mod 24"]) (auto simp: drop_bmask intro!: exI [of _ "24 - ?p mod 24"])
  qed
qed

lemma find_run:
  assumes "pma_ok s" "count \<noteq> 0"
  shows "\<exists>f. pma_find s limit ty count = Some f \<and>
    (case f of
       Some (j, i, k) \<Rightarrow> \<exists>n. i = n div 24 \<and> k = n mod 24 \<and> j < length (m_ram s) \<and> n + unat count \<le> npages_of (m_ram s ! j) \<and>
         page_addr s j (n + unat count) \<le> limit \<and> free_run ty (unat count) (m_ram s ! j) n
     | None \<Rightarrow> \<forall>j n. j < length (m_ram s) \<and> n + unat count \<le> npages_of (m_ram s ! j) \<and>
         page_addr s j (n + unat count) \<le> limit \<longrightarrow> \<not> free_run ty (unat count) (m_ram s ! j) n)"
proof -
  let ?bs = "m_ram s" and ?ps = "page_size s" and ?c = "unat count"
  have ne: "?bs \<noteq> []" "0 < ?ps" and c0: "0 < ?c" using assms by (auto simp: pma_ok_def unat_gt_0)
  have blocks: "\<forall>b\<in>set ?bs. block_ok b \<and> 0 < nrec b" using assms(1) by (auto simp: pma_ok_def acct_def)
  have low: "page_addr s j m \<le> rt_addr (?bs ! i)" if "j < i" "i < length ?bs" "m \<le> npages_of (?bs ! j)" for i j m
  proof -
    have "rt_addr (?bs ! j) + npages_of (?bs ! j) * ?ps \<le> rt_addr (?bs ! i)"
      using assms(1) that by (simp add: pma_ok_def sorted_wrt_iff_nth_less)
    moreover have "m * ?ps \<le> npages_of (?bs ! j) * ?ps" using that(3) by simp
    ultimately show ?thesis unfolding page_addr_def by linarith
  qed
  have above: "\<not> page_addr s j (n + ?c) \<le> limit" if "limit \<le> rt_addr (?bs ! j)" for j n
    using that c0 ne(2) by (simp add: page_addr_def add_mult_distrib not_le)
       (metis add_gr_0 add_lessD1 le_eq_less_or_eq less_add_same_cancel1 less_le_trans nat_0_less_mult_iff trans_less_add1)
  show ?thesis
  proof (cases "limit_loop ?bs limit (length ?bs - 1)")
    case None
    then have "pma_find s limit ty count = Some None" using ne by (simp add: pma_find_def)
    moreover have "limit \<le> rt_addr (?bs ! j)" if "j < length ?bs" for j
      using limit_loop_block [OF None] that by auto
    ultimately show ?thesis using above by auto
  next
    case (Some bi)
    from limit_loop_block [OF Some] have bi: "bi < length ?bs" "rt_addr (?bs ! bi) < limit"
      "\<And>j. bi < j \<Longrightarrow> j < length ?bs \<Longrightarrow> limit \<le> rt_addr (?bs ! j)" using ne(1) by (auto simp: Suc_le_eq le_diff_conv2)
    let ?b = "?bs ! bi" and ?e = "rt_addr (?bs ! bi) + npages_of (?bs ! bi) * ?ps - 1"
    from search_start [OF assms(1) bi(1,2)] obtain i k m where
      p: "address_to_position s (if limit > ?e then ?e else limit) = Some (bi, i, k)" "i < nrec ?b" "k < 24"
      "drop_bit k (bmask (24 - (if limit > ?e then 1 else 0))) = bmask m" "m \<le> 24"
      "i * 24 + (24 - m) = min (npages_of ?b) ((limit - rt_addr ?b) div ?ps)" by blast
    note below = pages_below [OF ne(2) bi(2) p(6), where k = "n + ?c" for n]
    obtain d j' r mk c where bl: "blocks_loop ?bs ty ?c bi i (bmask m) 0 = Some (d, j', r, mk, c)"
      "d \<longrightarrow> c = ?c \<and> j' \<le> bi \<and> (\<exists>n. r = n div 24 \<and> mk = bmask (23 - n mod 24) \<and>
         n + ?c \<le> (if j' = bi then i * 24 + (24 - m) else npages_of (?bs ! j')) \<and> free_run ty ?c (?bs ! j') n)"
      "\<not> d \<longrightarrow> c < ?c \<and> (\<forall>n. n + ?c \<le> i * 24 + (24 - m) \<longrightarrow> \<not> free_run ty ?c ?b n) \<and>
         (\<forall>j'<bi. \<forall>n. n + ?c \<le> npages_of (?bs ! j') \<longrightarrow> \<not> free_run ty ?c (?bs ! j') n)"
      using blocks_loop_run [OF blocks bi(1) p(2,5) c0, of ty] by blast
    have fd: "pma_find s limit ty count = Some (if c = ?c then Some (j', r, bit_of mk 0 MAX_REC_AMOUNT) else None)"
      using ne(1) Some p(1,4) bl(1) by (simp add: pma_find_def Let_def split: if_splits)
    show ?thesis
    proof (cases d)
      case True
      then obtain n where n: "c = ?c" "j' \<le> bi" "r = n div 24" "mk = bmask (23 - n mod 24)"
        "n + ?c \<le> (if j' = bi then i * 24 + (24 - m) else npages_of (?bs ! j'))" "free_run ty ?c (?bs ! j') n"
        using bl(2) by blast
      have k: "bit_of mk 0 MAX_REC_AMOUNT = n mod 24" using bit_of_mask [of "n mod 24"] n(4) by simp
      have "n + ?c \<le> npages_of (?bs ! j') \<and> page_addr s j' (n + ?c) \<le> limit"
      proof (cases "j' = bi")
        case True
        then show ?thesis using n(5) below [of n] by (simp add: page_addr_def)
      next
        case False
        then have "j' < bi" "n + ?c \<le> npages_of (?bs ! j')" using n(2,5) by simp_all
        then show ?thesis using low [of j' bi "n + ?c"] bi(1,2) by auto
      qed
      then show ?thesis using fd n k bi(1) by (intro exI [of _ "Some (j', r, bit_of mk 0 MAX_REC_AMOUNT)"]) auto
    next
      case False
      then have none: "c < ?c" "\<And>n. n + ?c \<le> i * 24 + (24 - m) \<Longrightarrow> \<not> free_run ty ?c ?b n"
        "\<And>j n. j < bi \<Longrightarrow> n + ?c \<le> npages_of (?bs ! j) \<Longrightarrow> \<not> free_run ty ?c (?bs ! j) n" using bl(3) by auto
      have "\<not> free_run ty ?c (?bs ! j) n"
        if "j < length ?bs" "n + ?c \<le> npages_of (?bs ! j)" "page_addr s j (n + ?c) \<le> limit" for j n
        using that none(2) [of n] none(3) [of j n] below [of n] above [OF bi(3) [of j], of n]
        by (cases rule: linorder_cases [of j bi]) (auto simp: page_addr_def)
      then show ?thesis using fd none(1) by (intro exI [of _ None]) auto
    qed
  qed
qed

section \<open>Pages in use\<close>

definition used :: "pma \<Rightarrow> nat set" where
  "used s = {page_addr s j n | j n. j < length (m_ram s) \<and> n < npages_of (m_ram s ! j) \<and> upg s j n}"

lemma page_addr_inj:
  assumes "pma_ok s" "j < length (m_ram s)" "n < npages_of (m_ram s ! j)" "j' < length (m_ram s)"
    "n' < npages_of (m_ram s ! j')" "page_addr s j n = page_addr s j' n'"
  shows "j = j' \<and> n = n'"
proof -
  have "Some (j, n div 24, n mod 24) = Some (j', n' div 24, n' mod 24)"
    using position_of_page [OF assms(1-3)] position_of_page [OF assms(1,4,5)] assms(6) by simp
  then show ?thesis by (metis option.inject prod.inject div_mult_mod_eq)
qed

text \<open>The effect of setting or clearing the bits of a run of pages.\<close>

definition run_pages :: "pma \<Rightarrow> nat \<Rightarrow> nat \<Rightarrow> nat set" where
  "run_pages s p count = (\<lambda>i. p + i * page_size s) ` {..<count}"

lemma run_pages_eq: "run_pages s (page_addr s j n) count = page_addr s j ` {n..<n + count}"
proof -
  have "{n..<n + count} = (+) n ` {..<count}" by (simp add: image_add_atLeastLessThan add.commute flip: atLeast0LessThan)
  then show ?thesis by (simp add: run_pages_def page_addr_def image_image add_mult_distrib add.assoc)
qed

lemma set_bits_run:
  assumes "pma_ok s" "j < length (m_ram s)" "n + unat count \<le> npages_of (m_ram s ! j)" "count \<noteq> 0"
  shows "\<exists>s'. set_bits s j (n div 24) (n mod 24) count ty st = Some (count, s') \<and> pma_ok s' \<and> same_layout s s' \<and>
    used s' = (if st then used s \<union> run_pages s (page_addr s j n) (unat count) else used s - run_pages s (page_addr s j n) (unat count))"
proof -
  let ?c = "unat count"
  have c0: "0 < ?c" using assms(4) by (simp add: unat_gt_0)
  then have "n div 24 < nrec (m_ram s ! j)" using assms(3) by (simp add: div_less_iff_less_mult MAX_REC_AMOUNT_def)
  moreover have "acct s" using assms(1) by (simp add: pma_ok_def)
  ultimately obtain s' where s': "set_bits s j (n div 24) (n mod 24) count ty st = Some (count, s')" "acct s'" "same_layout s s'"
    "\<And>j' n'. j' < length (m_ram s) \<Longrightarrow> n' < npages_of (m_ram s ! j') \<Longrightarrow>
       upg s' j' n' = (if j' = j \<and> n \<le> n' \<and> n' < n + ?c then st else upg s j' n')"
    using set_bits_pages [of s j "n div 24" "n mod 24" count ty st] assms(2,3) by auto
  note l = same_layout_nth [OF s'(3)]
  have ps: "page_size s' = page_size s" using s'(3) by (simp add: same_layout_def)
  have pa: "page_addr s' j' = page_addr s j'" if "j' < length (m_ram s)" for j'
    using l(2) [OF that] ps by (simp add: page_addr_def fun_eq_iff)
  have "used s' = {page_addr s j' n' | j' n'. j' < length (m_ram s) \<and> n' < npages_of (m_ram s ! j') \<and>
      (if j' = j \<and> n \<le> n' \<and> n' < n + ?c then st else upg s j' n')}" (is "_ = ?U")
    unfolding used_def using l s'(4) pa by (intro Collect_cong ex_cong1) auto
  also have "?U = (if st then used s \<union> page_addr s j ` {n..<n + ?c} else used s - page_addr s j ` {n..<n + ?c})"
  proof (cases st)
    case True
    have "n' < npages_of (m_ram s ! j)" if "n' < n + ?c" for n' using that assms(3) by simp
    then show ?thesis using True assms(2) by (auto simp: used_def if_bool_eq_disj split del: if_split) blast
  next
    case False
    have inj: "j' = j \<and> n' = m" if "page_addr s j' n' = page_addr s j m" "j' < length (m_ram s)" "n' < npages_of (m_ram s ! j')"
      "m < n + ?c" for j' n' m
      using page_addr_inj [OF assms(1) that(2,3) assms(2), of m] that(1,4) assms(3) by simp
    have "?U = {page_addr s j' n' | j' n'. j' < length (m_ram s) \<and> n' < npages_of (m_ram s ! j') \<and> upg s j' n' \<and>
        \<not> (j' = j \<and> n' \<in> {n..<n + ?c})}"
      using False by (intro Collect_cong ex_cong1) auto
    also have "\<dots> = used s - page_addr s j ` {n..<n + ?c}"
    proof (intro equalityI subsetI)
      fix a
      assume "a \<in> {page_addr s j' n' | j' n'. j' < length (m_ram s) \<and> n' < npages_of (m_ram s ! j') \<and> upg s j' n' \<and>
        \<not> (j' = j \<and> n' \<in> {n..<n + ?c})}"
      then obtain j' n' where a: "a = page_addr s j' n'" "j' < length (m_ram s)" "n' < npages_of (m_ram s ! j')" "upg s j' n'"
        "\<not> (j' = j \<and> n' \<in> {n..<n + ?c})" by blast
      then have "a \<noteq> page_addr s j m" if "m \<in> {n..<n + ?c}" for m using inj [of j' n' m] that by auto
      then have "a \<notin> page_addr s j ` {n..<n + ?c}" by blast
      moreover have "a \<in> used s" using a(1-4) unfolding used_def by blast
      ultimately show "a \<in> used s - page_addr s j ` {n..<n + ?c}" by blast
    qed (auto simp: used_def)
    finally show ?thesis using False by simp
  qed
  finally have "used s' = (if st then used s \<union> run_pages s (page_addr s j n) ?c else used s - run_pages s (page_addr s j n) ?c)"
    by (simp add: run_pages_eq)
  then show ?thesis using s'(1-3) pma_ok_layout [OF assms(1) s'(3,2)] by blast
qed

lemma free_run_unused:
  assumes "pma_ok s" "j < length (m_ram s)" "n + count \<le> npages_of (m_ram s ! j)" "free_run ty count (m_ram s ! j) n"
  shows "run_pages s (page_addr s j n) count \<inter> used s = {}"
proof -
  have "\<not> upg s j m" if "m \<in> {n..<n + count}" for m using assms(4) that by (auto simp: free_run_def avail_def)
  moreover have "j' = j \<and> n' = m" if "page_addr s j m = page_addr s j' n'" "m \<in> {n..<n + count}" "j' < length (m_ram s)"
    "n' < npages_of (m_ram s ! j')" for m j' n'
    using page_addr_inj [OF assms(1,2) _ that(3,4,1)] that(2) assms(3) by auto
  ultimately show ?thesis unfolding run_pages_eq used_def by fastforce
qed

lemma position_to_page: "j < length (m_ram s) \<Longrightarrow> n < npages_of (m_ram s ! j) \<Longrightarrow>
    position_to_address s j (n div 24) (n mod 24) = page_addr s j n"
proof -
  assume a: "j < length (m_ram s)" "n < npages_of (m_ram s ! j)"
  then have "n div 24 < nrec (m_ram s ! j)" by (simp add: div_less_iff_less_mult MAX_REC_AMOUNT_def)
  moreover have "n div 24 * 24 * page_size s + n mod 24 * page_size s = n * page_size s"
    by (simp flip: add_mult_distrib)
  ultimately show ?thesis using a by (simp add: position_to_address_def page_addr_def MAX_REC_AMOUNT_def)
qed

lemma page_addr_layout: "same_layout s s' \<Longrightarrow> j < length (m_ram s) \<Longrightarrow> page_addr s' j n = page_addr s j n"
  using same_layout_nth(2) [of s s' j] by (simp add: page_addr_def same_layout_def)

lemma alloc_pages_run:
  assumes "pma_ok s" "count \<noteq> 0"
  shows "\<exists>r s'. alloc_pages s count ty limit = Some (r, s') \<and> pma_ok s' \<and> same_layout s s' \<and>
    (if r = 0 then s' = s \<and> (\<forall>j n. j < length (m_ram s) \<and> n + unat count \<le> npages_of (m_ram s ! j) \<and>
         page_addr s j (n + unat count) \<le> limit \<longrightarrow> \<not> free_run ty (unat count) (m_ram s ! j) n)
     else \<exists>j n. j < length (m_ram s) \<and> n + unat count \<le> npages_of (m_ram s ! j) \<and> r = page_addr s j n \<and>
       r + unat count * page_size s \<le> limit \<and> run_pages s r (unat count) \<inter> used s = {} \<and>
       used s' = used s \<union> run_pages s r (unat count))"
proof -
  obtain f where f: "pma_find s limit ty count = Some f" and
    c: "case f of Some (j, i, k) \<Rightarrow> \<exists>n. i = n div 24 \<and> k = n mod 24 \<and> j < length (m_ram s) \<and> n + unat count \<le> npages_of (m_ram s ! j) \<and>
         page_addr s j (n + unat count) \<le> limit \<and> free_run ty (unat count) (m_ram s ! j) n
     | None \<Rightarrow> \<forall>j n. j < length (m_ram s) \<and> n + unat count \<le> npages_of (m_ram s ! j) \<and>
         page_addr s j (n + unat count) \<le> limit \<longrightarrow> \<not> free_run ty (unat count) (m_ram s ! j) n"
    using find_run [OF assms] by blast
  show ?thesis
  proof (cases f)
    case None
    then show ?thesis using f c assms(1) by (simp add: alloc_pages_def)
  next
    case (Some p)
    then obtain j n where n: "p = (j, n div 24, n mod 24)" "j < length (m_ram s)" "n + unat count \<le> npages_of (m_ram s ! j)"
      "page_addr s j (n + unat count) \<le> limit" "free_run ty (unat count) (m_ram s ! j) n" using c by auto
    obtain s' where s': "set_bits s j (n div 24) (n mod 24) count ty True = Some (count, s')" "pma_ok s'" "same_layout s s'"
      "used s' = used s \<union> run_pages s (page_addr s j n) (unat count)"
      using set_bits_run [OF assms(1) n(2,3) assms(2), of ty True] by auto
    have n1: "n < npages_of (m_ram s ! j)" using n(3) assms(2) by (metis unat_gt_0 add_lessD1 less_add_same_cancel1 less_le_trans)
    have "position_to_address s' j (n div 24) (n mod 24) = page_addr s j n"
      using position_to_page [of j s' n] same_layout_nth [OF s'(3)] page_addr_layout [OF s'(3) n(2)] n(2) n1 by simp
    moreover have "page_addr s j n \<noteq> 0" using assms(1) n(2) by (auto simp: pma_ok_def page_addr_def)
    moreover have "page_addr s j n + unat count * page_size s \<le> limit" using n(4) by (simp add: page_addr_def add_mult_distrib)
    ultimately show ?thesis using f Some n s' free_run_unused [OF assms(1) n(2,3,5)]
      by (intro exI [of _ "page_addr s j n"] exI [of _ s']) (auto simp: alloc_pages_def)
  qed
qed

lemma free_pages_run:
  assumes "pma_ok s" "count \<noteq> 0" "j < length (m_ram s)" "n + unat count \<le> npages_of (m_ram s ! j)"
  shows "\<exists>s'. free_pages s (page_addr s j n) count = Some (count, s') \<and> pma_ok s' \<and> same_layout s s' \<and>
    used s' = used s - run_pages s (page_addr s j n) (unat count)"
proof -
  have "n < npages_of (m_ram s ! j)" using assms(2,4) by (metis unat_gt_0 add_lessD1 less_add_same_cancel1 less_le_trans)
  then have "address_to_position s (page_addr s j n) = Some (j, n div 24, n mod 24)"
    by (rule position_of_page [OF assms(1,3)])
  then show ?thesis using set_bits_run [OF assms(1,3,4,2), of "rec_type s j (n div 24)" False] by (simp add: free_pages_def)
qed

section \<open>Locking\<close>

definition pma_idle :: "pma \<Rightarrow> bool" where
  "pma_idle s \<longleftrightarrow> (\<forall>x. pm_mutex s = Some x \<or> pm_repo s = Some x \<longrightarrow> cMutex_free x) \<and>
     (blender_running (pm_env s) \<longrightarrow> blender_cpu (pm_env s))"

lemma pma_bracket:
  assumes "pma_idle s"
  obtains h x where "pma_lock s 0 = Some (h, s\<lparr>pm_mutex := x\<rparr>)"
    "\<And>s'. pm_mutex s' = x \<Longrightarrow> pm_env s' = pm_env s \<Longrightarrow> pm_repo s' = pm_repo s \<Longrightarrow> pma_idle (pma_unlock s' h)"
proof (cases "pm_mutex (pma_get_mutex s)")
  case None
  then have "pm_mutex s = None" "pm_repo s = None" by (auto simp: pma_get_mutex_def split: if_splits)
  then show thesis using assms that [of 0 None] by (simp add: pma_lock_def pma_idle_def pma_unlock_def pma_get_mutex_def)
next
  case (Some x)
  then have x: "cMutex_free x" and e: "blender_running (pm_env s) \<longrightarrow> blender_cpu (pm_env s)"
    using assms by (auto simp: pma_idle_def pma_get_mutex_def split: if_splits)
  from acquire_free [OF x e] obtain h x' where
    l: "acquire_mutex (pm_env s) (Some x) 0 MUTEX_TIMEOUT_INFINITE = Some (h, Some x')" "cMutex_held x' h 1" by blast
  have "(pma_get_mutex s)\<lparr>pm_mutex := y\<rparr> = s\<lparr>pm_mutex := y\<rparr>" "pm_env (pma_get_mutex s) = pm_env s" for y
    by (simp_all add: pma_get_mutex_def)
  then have "pma_lock s 0 = Some (h, s\<lparr>pm_mutex := Some x'\<rparr>)" using l(1) Some by (simp add: pma_lock_def Let_def)
  moreover have "pma_idle (pma_unlock s' h)" if "pm_mutex s' = Some x'" "pm_env s' = pm_env s" "pm_repo s' = pm_repo s" for s'
    using that assms cMutex_release_last [OF l(2)] by (auto simp: pma_idle_def pma_unlock_def pma_get_mutex_def Let_def)
  ultimately show thesis using that by blast
qed

lemma pma_mutex_irrelevant [simp]:
  "m_ram (pma_unlock s h) = m_ram s" "page_size (pma_unlock s h) = page_size s" "pm_env (pma_unlock s h) = pm_env s"
  "pm_repo (pma_unlock s h) = pm_repo s"
  "pma_ok (pma_unlock s h) = pma_ok s" "used (pma_unlock s h) = used s" "acct (pma_unlock s h) = acct s"
  "pma_ok (s\<lparr>pm_mutex := x\<rparr>) = pma_ok s" "used (s\<lparr>pm_mutex := x\<rparr>) = used s" "acct (s\<lparr>pm_mutex := x\<rparr>) = acct s"
  "page_addr (pma_unlock s h) = page_addr s" "page_addr (s\<lparr>pm_mutex := x\<rparr>) = page_addr s"
  "run_pages (pma_unlock s h) = run_pages s" "run_pages (s\<lparr>pm_mutex := x\<rparr>) = run_pages s"
  by (simp_all add: pma_unlock_def pma_get_mutex_def Let_def pma_ok_def acct_def used_def page_addr_def [abs_def] run_pages_def [abs_def])

lemma pma_lock_frame: "pma_lock s h = Some (h', s') \<Longrightarrow> m_ram s' = m_ram s \<and> page_size s' = page_size s"
  by (auto simp: pma_lock_def pma_get_mutex_def Let_def split: option.splits if_splits)

text \<open>What a client that only allocates relies on.\<close>

lemma used_aligned: "pma_ok s \<Longrightarrow> a \<in> used s \<Longrightarrow> a mod page_size s = 0"
  by (auto simp: used_def page_addr_def pma_ok_def)

lemma pma_alloc_fresh:
  assumes "pma_ok s" "pma_idle s" "count \<noteq> 0" "pma_alloc s count ty limit = Some (r, s')"
  shows "pma_ok s' \<and> pma_idle s' \<and> page_size s' = page_size s \<and> used s \<subseteq> used s' \<and>
    (r \<noteq> 0 \<longrightarrow> r mod page_size s = 0 \<and> run_pages s r (unat count) \<inter> used s = {})"
proof -
  obtain h x where l: "pma_lock s 0 = Some (h, s\<lparr>pm_mutex := x\<rparr>)"
    "\<And>s'. pm_mutex s' = x \<Longrightarrow> pm_env s' = pm_env s \<Longrightarrow> pm_repo s' = pm_repo s \<Longrightarrow> pma_idle (pma_unlock s' h)"
    using pma_bracket [OF assms(2)] by blast
  let ?s = "s\<lparr>pm_mutex := x\<rparr>"
  have ok: "pma_ok ?s" using assms(1) by simp
  from assms(4) l(1) obtain s1 where a: "alloc_pages ?s count ty limit = Some (r, s1)" "s' = pma_unlock s1 h"
    by (auto simp: pma_alloc_def bind_eq_Some_conv)
  from alloc_pages_run [OF ok assms(3), of ty limit] a(1)
  have s1: "pma_ok s1" "same_layout ?s s1" and r: "if r = 0 then s1 = ?s else
      \<exists>j n. j < length (m_ram s) \<and> n + unat count \<le> npages_of (m_ram s ! j) \<and> r = page_addr s j n \<and>
       run_pages s r (unat count) \<inter> used s = {} \<and> used s1 = used s \<union> run_pages s r (unat count)"
    by (auto split: if_splits)
  have "pma_idle s'" using l(2) s1(2) a(2) by (simp add: same_layout_def)
  moreover have "page_addr s j n mod page_size s = 0" if "j < length (m_ram s)" for j n
    using that assms(1) by (auto simp: pma_ok_def page_addr_def)
  ultimately show ?thesis using s1 r a(2) by (auto simp: same_layout_def split: if_splits)
qed

lemma pma_alloc_used:
  assumes "pma_ok s" "pma_idle s" "count \<noteq> 0"
  shows "\<exists>r s'. pma_alloc s count ty limit = Some (r, s') \<and>
    (if r = 0 then used s' = used s else used s' = used s \<union> run_pages s r (unat count))"
proof -
  obtain h x where l: "pma_lock s 0 = Some (h, s\<lparr>pm_mutex := x\<rparr>)" using pma_bracket [OF assms(2)] by blast
  let ?s = "s\<lparr>pm_mutex := x\<rparr>"
  have ok: "pma_ok ?s" using assms(1) by simp
  from alloc_pages_run [OF ok assms(3), of ty limit] obtain r s1 where a: "alloc_pages ?s count ty limit = Some (r, s1)"
    "if r = 0 then used s1 = used s else used s1 = used s \<union> run_pages s r (unat count)"
    by (auto split: if_splits)
  have "pma_alloc s count ty limit = Some (r, pma_unlock s1 h)" using l a(1) by (simp add: pma_alloc_def)
  then show ?thesis using a(2) by auto
qed

section \<open>Properties of allocation\<close>

text \<open>C5: Allocation and release of pages. With blocks in order and a free mutex, \<open>alloc\<close> of at least
  one page returns. A result of 0 leaves everything as it was and means that no block has that many
  consecutive free pages of the type below the limit. Any other result is the address of
  consecutive pages below the limit, none of which was in use; exactly they are now in use, and
  \<open>free\<close> with the same address and number releases exactly them. The records, counters and mutex
  are in order after each call.\<close>

theorem pma_alloc_free:
  assumes "pma_ok s" and "pma_idle s" and "count \<noteq> 0"
  shows "\<exists>r s1. pma_alloc s count ty limit = Some (r, s1) \<and> pma_ok s1 \<and> pma_idle s1 \<and>
    (if r = 0 then used s1 = used s \<and> (\<forall>j n. j < length (m_ram s) \<and> n + unat count \<le> npages_of (m_ram s ! j) \<and>
         page_addr s j (n + unat count) \<le> limit \<longrightarrow> \<not> free_run ty (unat count) (m_ram s ! j) n)
     else r + unat count * page_size s \<le> limit \<and> run_pages s r (unat count) \<inter> used s = {} \<and>
       used s1 = used s \<union> run_pages s r (unat count) \<and>
       (\<exists>s2. pma_free s1 r count = Some (count, s2) \<and> pma_ok s2 \<and> pma_idle s2 \<and> used s2 = used s))"
proof -
  obtain h x where l: "pma_lock s 0 = Some (h, s\<lparr>pm_mutex := x\<rparr>)"
    "\<And>s'. pm_mutex s' = x \<Longrightarrow> pm_env s' = pm_env s \<Longrightarrow> pm_repo s' = pm_repo s \<Longrightarrow> pma_idle (pma_unlock s' h)"
    using pma_bracket [OF assms(2)] by blast
  let ?s = "s\<lparr>pm_mutex := x\<rparr>"
  have "pma_ok ?s" using assms(1) by simp
  from alloc_pages_run [OF this assms(3), of ty limit] obtain r s' where a: "alloc_pages ?s count ty limit = Some (r, s')"
    "pma_ok s'" "same_layout ?s s'" "if r = 0 then s' = ?s \<and> (\<forall>j n. j < length (m_ram s) \<and> n + unat count \<le> npages_of (m_ram s ! j) \<and>
         page_addr s j (n + unat count) \<le> limit \<longrightarrow> \<not> free_run ty (unat count) (m_ram s ! j) n)
     else \<exists>j n. j < length (m_ram s) \<and> n + unat count \<le> npages_of (m_ram s ! j) \<and> r = page_addr s j n \<and>
       r + unat count * page_size s \<le> limit \<and> run_pages s r (unat count) \<inter> used s = {} \<and>
       used s' = used s \<union> run_pages s r (unat count)" by (simp cong: if_cong) blast
  let ?s1 = "pma_unlock s' h"
  have s1: "pma_alloc s count ty limit = Some (r, ?s1)" "pma_ok ?s1" "pma_idle ?s1"
    using a l by (simp_all add: pma_alloc_def same_layout_def)
  show ?thesis
  proof (cases "r = 0")
    case True
    then show ?thesis using s1 a(4) by (intro exI [of _ r] exI [of _ ?s1]) auto
  next
    case False
    then obtain j n where n: "j < length (m_ram s)" "n + unat count \<le> npages_of (m_ram s ! j)" "r = page_addr s j n"
      "r + unat count * page_size s \<le> limit" "run_pages s r (unat count) \<inter> used s = {}"
      "used s' = used s \<union> run_pages s r (unat count)" using a(4) by auto
    have lay: "same_layout s s'" if "pm_mutex s' = pm_mutex s" using a(3) that by (simp add: same_layout_def)
    have ln: "length (m_ram s') = length (m_ram s)" "nrec (m_ram s' ! j) = nrec (m_ram s ! j)" "rt_addr (m_ram s' ! j) = rt_addr (m_ram s ! j)"
      "page_size s' = page_size s" using same_layout_nth [OF a(3)] n(1) a(3) by (simp_all add: same_layout_def)
    have pa: "page_addr s' j n = r" "run_pages s' = run_pages s" using ln n(3) by (simp_all add: page_addr_def run_pages_def [abs_def])
    obtain h2 x2 where l2: "pma_lock ?s1 0 = Some (h2, ?s1\<lparr>pm_mutex := x2\<rparr>)"
      "\<And>s'. pm_mutex s' = x2 \<Longrightarrow> pm_env s' = pm_env ?s1 \<Longrightarrow> pm_repo s' = pm_repo ?s1 \<Longrightarrow> pma_idle (pma_unlock s' h2)"
      using pma_bracket [OF s1(3)] by blast
    let ?t = "?s1\<lparr>pm_mutex := x2\<rparr>"
    obtain s2 where s2: "free_pages ?t r count = Some (count, s2)" "pma_ok s2" "same_layout ?t s2"
      "used s2 = used s' - run_pages s r (unat count)"
      using free_pages_run [of ?t count j n] assms(3) a(2) n(1,2) ln pa by auto
    have "pma_free ?s1 r count = Some (count, pma_unlock s2 h2)" using l2(1) s2(1) by (simp add: pma_free_def)
    moreover have "used s2 = used s" using s2(4) n(5,6) by auto
    moreover have "pma_idle (pma_unlock s2 h2)" using l2(2) s2(3) by (simp add: same_layout_def)
    ultimately show ?thesis using False s1 n(4-6) s2(2)
      by (intro exI [of _ r] exI [of _ ?s1]) auto
  qed
qed

lemma pop_zero: "pop 0 = 0"
  by (simp add: pop_def flip: bot_set_def)

definition demo_pma :: pma where
  "demo_pma = \<lparr>pm_env = \<lparr>blender_running = False, blender_cpu = False, has_cpu = False\<rparr>, pm_repo = None, pm_mutex = None, page_size = 4096,
     m_ram = [\<lparr>rt_addr = 0x101000, rt_recs = replicate 2 empty_rec, rt_nfree = 48\<rparr>]\<rparr>"

lemma demo_pma_ok: "pma_ok demo_pma" "pma_idle demo_pma"
  by (simp_all add: pma_ok_def pma_idle_def demo_pma_def acct_def block_ok_def pops_def rec_ok_def pop_zero empty_rec_def
      MAX_REC_AMOUNT_def numeral_2_eq_2)

theorem pma_alloc_free_witness:
  "\<exists>r s1. pma_alloc demo_pma 3 1 0x200000 = Some (r, s1) \<and> pma_ok s1 \<and> pma_idle s1"
  using pma_alloc_free [OF demo_pma_ok, where count = 3 and ty = 1 and limit = "0x200000"] by auto

section \<open>Reachable states\<close>

text \<open>Initialisation and any sequence of operations, with any arguments.\<close>

inductive pma_reach :: "pma \<Rightarrow> bool" where
  reach_init: "pma_init s0 parts ps = Some (True, s) \<Longrightarrow> pma_reach s"
| reach_early: "early_init s0 vbase mmap rmap = Some (True, s) \<Longrightarrow> pma_reach s"
| reach_alloc: "pma_reach s \<Longrightarrow> pma_alloc s n ty limit = Some (r, s') \<Longrightarrow> pma_reach s'"
| reach_free: "pma_reach s \<Longrightarrow> pma_free s p n = Some (c, s') \<Longrightarrow> pma_reach s'"
| reach_alloc_array: "pma_reach s \<Longrightarrow> pma_alloc_array s n ty limit = Some (c, ps, s') \<Longrightarrow> pma_reach s'"
| reach_free_array: "pma_reach s \<Longrightarrow> pma_free_array s ps = Some (c, s') \<Longrightarrow> pma_reach s'"
| reach_alloc_at: "pma_reach s \<Longrightarrow> pma_alloc_at s p n ty = Some (c, s') \<Longrightarrow> pma_reach s'"
| reach_get_type: "pma_reach s \<Longrightarrow> pma_get_type s p = Some (t, s') \<Longrightarrow> pma_reach s'"
| reach_info: "pma_reach s \<Longrightarrow> pma_info s = Some (i, s') \<Longrightarrow> pma_reach s'"

lemma recs_loop_in:
  "recs_loop rs ty count i mk cnt = Some (d, r, mk', c) \<Longrightarrow> r < length rs"
proof (induction i arbitrary: mk cnt)
  case 0
  then show ?case by (subst (asm) recs_loop.simps) (auto simp: bind_eq_Some_conv split: if_splits prod.splits)
next
  case (Suc i)
  show ?case using Suc.prems
    by (subst (asm) recs_loop.simps) (auto simp: bind_eq_Some_conv split: if_splits prod.splits dest: Suc.IH)
qed

lemma blocks_loop_in:
  "blocks_loop bs ty count j i mk cnt = Some (d, j', r, mk', c) \<Longrightarrow> j' < length bs \<and> r < nrec (bs ! j')"
proof (induction j arbitrary: i mk cnt)
  case 0
  then show ?case by (subst (asm) blocks_loop.simps) (auto simp: bind_eq_Some_conv split: if_splits prod.splits dest: recs_loop_in)
next
  case (Suc j)
  show ?case using Suc.prems
    by (subst (asm) blocks_loop.simps) (auto simp: bind_eq_Some_conv split: if_splits prod.splits dest: Suc.IH recs_loop_in)
qed

lemma bit_of_lt: "b + n = 24 \<Longrightarrow> bit_of mk b n < 24"
  by (induction n arbitrary: b) auto

lemma find_in:
  assumes "pma_find s limit ty count = Some (Some (j, i, k))"
  shows "j < length (m_ram s) \<and> i < nrec (m_ram s ! j) \<and> k < 24"
  using assms bit_of_lt [of 0 24]
  by (auto simp: pma_find_def Let_def bind_eq_Some_conv MAX_REC_AMOUNT_def split: if_splits option.splits prod.splits
      dest!: blocks_loop_in)

lemma position_in:
  assumes "address_to_position s a = Some (j, i, k)"
  shows "j < length (m_ram s) \<and> i < nrec (m_ram s ! j) \<and> k < 24"
proof -
  have ps: "0 < page_size s"
  proof (rule ccontr)
    assume "\<not> 0 < page_size s"
    moreover have "a2p_loop 0 x n bs = None" for x n bs by (induction bs arbitrary: n) auto
    ultimately show False using assms by (simp add: address_to_position_def)
  qed
  from a2p_loop_pos [OF assms [unfolded address_to_position_def] ps] show ?thesis by simp
qed

lemma set_bits_acct:
  assumes "acct s" "j < length (m_ram s) \<and> i < nrec (m_ram s ! j) \<and> k < 24" "set_bits s j i k count ty st = Some (c, s')"
  shows "acct s'"
  using set_bits_pages [of s j i k count ty st] assms by auto

lemma lock_acct: "pma_lock s h = Some (h', s') \<Longrightarrow> acct s' = acct s"
  using pma_lock_frame by (simp add: acct_def)

lemma alloc_pages_acct: "acct s \<Longrightarrow> alloc_pages s n ty limit = Some (r, s') \<Longrightarrow> acct s'"
proof -
  assume a: "acct s" "alloc_pages s n ty limit = Some (r, s')"
  show ?thesis
  proof (cases "pma_find s limit ty n")
    case (Some f)
    show ?thesis
    proof (cases f)
      case (Some p)
      obtain j i k where p: "p = (j, i, k)" by (cases p)
      have f': "pma_find s limit ty n = Some (Some (j, i, k))" using \<open>pma_find s limit ty n = Some f\<close> Some p by simp
      note pos = find_in [OF f']
      from set_bits_pages [OF a(1), of j i k n ty True] pos obtain c s1 where
        s1: "set_bits s j i k n ty True = Some (of_nat c, s1)" "acct s1" "same_layout s s1" by blast
      have "acct s2" if "set_bits s1 j i k m 0 False = Some (x, s2)" for m x s2
        using set_bits_acct [OF s1(2) _ that] pos same_layout_nth [OF s1(3)] by auto
      then show ?thesis using a(2) f' s1 by (auto simp: alloc_pages_def bind_eq_Some_conv split: if_splits)
    qed (use a \<open>pma_find s limit ty n = Some f\<close> in \<open>auto simp: alloc_pages_def\<close>)
  qed (use a in \<open>auto simp: alloc_pages_def\<close>)
qed

lemma alloc_array_acct:
  "acct s \<Longrightarrow> alloc_array s i n ty limit r ps = Some (c, ps', s') \<Longrightarrow> acct s'"
proof (induction s i n ty limit r ps rule: alloc_array.induct)
  case (1 s i n ty limit r ps)
  show ?case
  proof (cases "i < n")
    case True
    then obtain f where f: "pma_find s limit ty 1 = Some f" using 1(3) by (auto simp: alloc_array.simps [of s i] bind_eq_Some_conv)
    show ?thesis
    proof (cases f)
      case None
      then show ?thesis using 1(2,3) f True by (simp add: alloc_array.simps [of s i])
    next
      case (Some p)
      obtain j b k where p: "p = (j, b, k)" by (cases p)
      then obtain m s1 where s1: "set_bits s j b k 1 ty True = Some (m, s1)"
        using 1(3) f Some True by (auto simp: alloc_array.simps [of s i] bind_eq_Some_conv)
      have "acct s1" using set_bits_acct [OF 1(2) find_in s1] f Some p by simp
      then show ?thesis using 1(3) f Some p s1 True 1(1) [OF True f [unfolded Some p] refl refl refl s1]
        by (auto simp: alloc_array.simps [of s i] Let_def split: if_splits)
    qed
  qed (use 1 in \<open>auto simp: alloc_array.simps [of s i]\<close>)
qed

lemma free_array_acct: "acct s \<Longrightarrow> free_array s ps = Some s' \<Longrightarrow> acct s'"
proof (induction ps arbitrary: s)
  case (Cons p ps)
  show ?case
  proof (cases "address_to_position s p")
    case (Some q)
    obtain j i k where q: "q = (j, i, k)" by (cases q)
    then obtain n s1 where s1: "set_bits s j i k 1 (rec_type s j i) False = Some (n, s1)"
      using Cons.prems(2) Some by (auto simp: bind_eq_Some_conv)
    have "acct s1" using set_bits_acct [OF Cons.prems(1) _ s1] position_in [of s p j i k] Some q by simp
    then show ?thesis using Cons.prems(2) Cons.IH [of s1] Some q s1 by (auto split: if_splits)
  qed (use Cons.prems in auto)
qed simp

lemma init_ram_block_acct: "acct s \<Longrightarrow> init_ram_block s a sz = Some s' \<Longrightarrow> acct s'"
  by (auto simp: init_ram_block_def Let_def acct_def block_ok_def pops_def rec_ok_def empty_rec_def pop_zero sum_list_replicate
      split: if_splits)

lemma init_parts_acct: "acct s \<Longrightarrow> init_parts s ps = Some s' \<Longrightarrow> acct s'"
  by (induction s ps rule: init_parts.induct) (auto simp: bind_eq_Some_conv dest: init_ram_block_acct)

lemma init_acct: "pma_init s0 parts ps = Some (b, s) \<Longrightarrow> acct s"
  using init_parts_acct [of "s0\<lparr>m_ram := [], page_size := unat ps\<rparr>"] by (auto simp: pma_init_def acct_def)

lemma reach_acct: "pma_reach s \<Longrightarrow> acct s"
proof (induction rule: pma_reach.induct)
  case (reach_early s0 vbase mmap rmap s)
  then show ?case by (auto simp: early_init_def Let_def split: if_splits dest: init_acct)
next
  case (reach_free s p n c s')
  then obtain h s1 r s2 where l: "pma_lock s 0 = Some (h, s1)" "free_pages s1 p n = Some (r, s2)" "s' = pma_unlock s2 h"
    by (auto simp: pma_free_def bind_eq_Some_conv)
  have "acct s1" using lock_acct [OF l(1)] reach_free by simp
  then show ?case using l(2,3) by (auto simp: free_pages_def split: option.splits dest!: position_in intro: set_bits_acct)
next
  case (reach_alloc_at s p n ty c s')
  then obtain h s1 r s2 where l: "pma_lock s 0 = Some (h, s1)" "s' = pma_unlock s2 h"
    "(case address_to_position s1 p of None \<Rightarrow> Some (0, s1)
      | Some (j, i, b) \<Rightarrow> set_bits s1 j i b n ty True) = Some (r, s2)"
    by (auto simp: pma_alloc_at_def bind_eq_Some_conv)
  have "acct s1" using lock_acct [OF l(1)] reach_alloc_at by simp
  then show ?case using l(2,3) by (auto split: option.splits dest!: position_in intro: set_bits_acct)
qed (auto simp: pma_alloc_def pma_alloc_array_def pma_free_array_def pma_get_type_def pma_info_def bind_eq_Some_conv Let_def
    dest!: lock_acct dest: init_acct alloc_pages_acct alloc_array_acct free_array_acct)

lemma fold_info:
  "(\<forall>b\<in>set bs. block_ok b) \<Longrightarrow>
   ri_pu (fold (info_block ps) bs i) = ri_pu i + of_nat (\<Sum>b\<leftarrow>bs. pops b) \<and>
   ri_rp (fold (info_block ps) bs i) = ri_rp i + of_nat (\<Sum>b\<leftarrow>bs. npages_of b)"
proof (induction bs arbitrary: i)
  case (Cons b bs)
  have "rt_nfree b + of_nat (pops b) = of_nat (npages_of b)" using Cons.prems by (simp add: block_ok_def)
  then have "of_nat (npages_of b) - rt_nfree b = of_nat (pops b)" by (metis add_diff_cancel_left')
  then have "ucast (of_nat (npages_of b) - rt_nfree b :: u64) = (of_nat (pops b) :: u32)"
    by (simp only:) (simp add: unsigned_of_nat word_of_nat_eq_iff take_bit_take_bit)
  then show ?case using Cons by (simp add: info_block_def ac_simps)
qed simp

text \<open>C10: The counters of the page allocator never drift. In every state that initialisation and any
  sequence of calls with any arguments reaches (failed calls, double releases and releases of
  foreign addresses included), the amount of each record is the number of its set bits, each block's number
  of free pages is that of its clear bits, and \<open>info\<close> reports exactly the pages whose bit is set.\<close>

theorem pma_accounting:
  assumes "pma_reach s"
  shows "(\<forall>b\<in>set (m_ram s). (\<forall>r\<in>set (rt_recs b). unat (amount r) = card {j. bit (bmp r) j}) \<and>
       rt_nfree b + of_nat (pops b) = of_nat (npages_of b)) \<and>
    (pma_info s = Some (i, s') \<longrightarrow> ri_pu i = of_nat (\<Sum>b\<leftarrow>m_ram s. pops b) \<and> ri_rp i = of_nat (\<Sum>b\<leftarrow>m_ram s. npages_of b))"
proof -
  have ok: "\<forall>b\<in>set (m_ram s). block_ok b" using reach_acct [OF assms] by (simp add: acct_def)
  moreover have "ri_pu i = of_nat (\<Sum>b\<leftarrow>m_ram s. pops b) \<and> ri_rp i = of_nat (\<Sum>b\<leftarrow>m_ram s. npages_of b)" if "pma_info s = Some (i, s')"
  proof -
    from that obtain h s1 where "pma_lock s 0 = Some (h, s1)"
      "i = fold (info_block (page_size s1)) (m_ram s1) \<lparr>ri_ps = of_nat (page_size s1), ri_rp = 0, ri_pu = 0, ri_sp = 0\<rparr>"
      by (auto simp: pma_info_def bind_eq_Some_conv)
    moreover from this(1) have "m_ram s1 = m_ram s" using pma_lock_frame by blast
    ultimately show ?thesis using fold_info [OF ok] by simp
  qed
  ultimately show ?thesis by (auto simp: block_ok_def rec_ok_def pop_def)
qed

theorem pma_accounting_witness:
  "\<exists>s. pma_init demo_pma [(0x100000, 0x40000)] 4096 = Some (True, s) \<and>
     (\<forall>b\<in>set (m_ram s). rt_nfree b + of_nat (pops b) = of_nat (npages_of b))"
proof -
  obtain s where s: "pma_init demo_pma [(0x100000, 0x40000)] 4096 = Some (True, s)"
    by (simp add: pma_init_def init_ram_block_def Let_def MAX_REC_AMOUNT_def MAX_RAM_BLOCKS_def)
  from pma_accounting [OF reach_init [OF s]] s show ?thesis by blast
qed

section \<open>A block without records\<close>

text \<open>C39: A small RAM part starves the allocator. For a part that starts on a page boundary and is
  larger than 25 pages but smaller than 26, \<open>init_ram_block\<close> adds a block with no records. When
  it is the last block, \<open>find\<close> places the limit below it, where \<open>address_to_position\<close> finds no
  page, and every allocation with a limit above the part's first page fails although the other blocks are free.\<close>

theorem small_last_part_starves:
  assumes "4 \<le> page_size s" and "addr mod page_size s = 0" and "25 * page_size s < sz" and "sz < 26 * page_size s"
    and "length (m_ram s) < MAX_RAM_BLOCKS" and "pma_idle s" and "addr + page_size s < limit"
    and "\<forall>b\<in>set (m_ram s). rt_addr b + npages_of b * page_size s \<le> addr"
  shows "\<exists>s'. init_ram_block s addr sz = Some s' \<and> (\<exists>s''. pma_alloc s' n ty limit = Some (0, s'') \<and> m_ram s'' = m_ram s')"
proof -
  let ?ps = "page_size s"
  have pages: "(sz - ?ps) div ?ps = 24"
    using assms(1,3,4) by (intro div_nat_eqI) simp_all
  have pf: "pages_for 4 ?ps = 1" using assms(1) by (cases "?ps = 4") (simp_all add: pages_for_def)
  let ?b = "\<lparr>rt_addr = addr + ?ps, rt_recs = [], rt_nfree = 0\<rparr>"
  let ?s' = "s\<lparr>m_ram := m_ram s @ [?b]\<rparr>"
  have init: "init_ram_block s addr sz = Some ?s'"
    using assms(2,3,5) pages pf by (simp add: init_ram_block_def Let_def MAX_REC_AMOUNT_def) (simp add: pages_for_def)
  have no: "a2p_loop ?ps addr i (bs @ [?b]) = None" if "\<forall>b\<in>set bs. rt_addr b + npages_of b * ?ps \<le> addr" for i bs
    using that assms(1) by (induction bs arbitrary: i) (auto simp: Let_def)
  have "addr + ?ps - 1 - (addr + ?ps - 1) mod ?ps = addr"
    using align_down [OF assms(2), of "?ps - 1"] assms(1) by simp
  then have "address_to_position (?s'\<lparr>pm_mutex := x\<rparr>) (addr + ?ps - 1) = None" for x
    using no [OF assms(8), of 0] by (simp add: address_to_position_def)
  moreover have "addr + ?ps - Suc 0 < limit" using assms(7) by simp
  ultimately have find: "pma_find (?s'\<lparr>pm_mutex := x\<rparr>) limit ty n = Some None" for x
    using assms(1,7) by (simp add: pma_find_def limit_loop.simps [of _ _ "length (m_ram s)"] Let_def)
  have "pma_idle ?s'" using assms(6) by (simp add: pma_idle_def)
  then obtain h x where "pma_lock ?s' 0 = Some (h, ?s'\<lparr>pm_mutex := x\<rparr>)" using pma_bracket by blast
  then have "pma_alloc ?s' n ty limit = Some (0, pma_unlock (?s'\<lparr>pm_mutex := x\<rparr>) h)"
    using find by (simp add: pma_alloc_def alloc_pages_def)
  then show ?thesis using init by simp
qed

theorem small_last_part_starves_witness:
  "\<exists>s'. init_ram_block demo_pma 0x200000 0x19800 = Some s' \<and> (\<exists>s''. pma_alloc s' 1 1 0x300000 = Some (0, s''))"
proof -
  have "\<forall>b\<in>set (m_ram demo_pma). rt_addr b + npages_of b * page_size demo_pma \<le> 0x200000"
    by (simp add: demo_pma_def MAX_REC_AMOUNT_def)
  then show ?thesis
    using small_last_part_starves [where s = demo_pma and addr = "0x200000" and sz = "0x19800" and limit = "0x300000" and n = 1 and ty = 1] demo_pma_ok(2)
    by (auto simp: demo_pma_def MAX_RAM_BLOCKS_def)
qed

end
