(* ===== verification/DMA_Mem.thy ===== *)
theory DMA_Mem
  imports Mutex
begin

text \<open>
  The allocator for DMA buffers of core/mem/dma_mem.cpp: a bitmap of pages of 1024 bytes. The search
  of \<open>alloc_buffer\<close> takes the most significant bit of a byte for its first page, \<open>set_bits\<close> the least
  significant one, so that a page that is handed out still looks free. A call through the null
  mutex pointer, and reading past the bitmap, is \<open>None\<close>.
\<close>

section \<open>The class\<close>

definition DMA_PAGE_SIZE :: nat where
  "DMA_PAGE_SIZE = 1024"

definition DMA_BITMAP_SIZE :: nat where
  "DMA_BITMAP_SIZE = 128"

record dma =
  dm_mutex :: "cmutex option"
  dm_base :: nat
  dm_size :: u32
  dm_bitmap :: "u8 list"
  dm_used :: u16

definition dma_object_init :: "dma \<Rightarrow> cmutex option \<Rightarrow> bool \<times> dma" where
  "dma_object_init d p_mutex = (p_mutex \<noteq> None, d\<lparr>dm_bitmap := replicate DMA_BITMAP_SIZE 0, dm_mutex := p_mutex\<rparr>)"

text \<open>The page allocator's \<open>free\<close> and page size are \<open>pfree\<close> and \<open>ps\<close>.\<close>

definition dma_object_destroy :: "(nat \<Rightarrow> u32 \<Rightarrow> 'p \<Rightarrow> 'p) \<Rightarrow> u16 \<Rightarrow> 'p option \<Rightarrow> dma \<Rightarrow> dma \<times> 'p option" where
  "dma_object_destroy pfree ps p_pma d =
     (let d = d\<lparr>dm_mutex := None\<rparr> in
      if dm_base d \<noteq> 0 \<and> dm_size d \<noteq> 0 then
        (d\<lparr>dm_base := 0, dm_size := 0\<rparr>, map_option (pfree (dm_base d) (dm_size d div ucast ps)) p_pma)
      else (d, p_pma))"

definition dma_init :: "dma \<Rightarrow> nat \<Rightarrow> u32 \<Rightarrow> dma" where
  "dma_init d mem_base mem_sz =
     (if dm_base d = 0 \<and> dm_size d = 0 then
        d\<lparr>dm_size := (if unat mem_sz > DMA_BITMAP_SIZE * 8 * DMA_PAGE_SIZE
                      then of_nat (DMA_BITMAP_SIZE * 8 * DMA_PAGE_SIZE) else mem_sz),
          dm_base := mem_base\<rparr>
      else d)"

definition dma_get_base :: "dma \<Rightarrow> nat \<times> u32" where
  "dma_get_base d = (dm_base d, dm_size d)"

definition all_pages :: "dma \<Rightarrow> u16" where
  "all_pages d = ucast (dm_size d div 1024)"

fun set_page_bits :: "nat \<Rightarrow> nat \<Rightarrow> nat \<Rightarrow> bool \<Rightarrow> u8 list \<times> u16 \<Rightarrow> (u8 list \<times> u16) option" where
  "set_page_bits pages page 0 st bu = Some bu"
| "set_page_bits pages page (Suc n) st (bs, used) =
     (if page < pages then
        let byte = page div 8; b = page mod 8 in
        if byte < length bs then
          if st then
            set_page_bits pages (page + 1) n st
              (bs[byte := bs ! byte OR push_bit b 1], if bs ! byte AND push_bit b 1 = 0 then used + 1 else used)
          else
            set_page_bits pages (page + 1) n st
              (bs[byte := bs ! byte AND NOT (push_bit b 1)], if bs ! byte AND push_bit b 1 \<noteq> 0 then used - 1 else used)
        else None
      else Some (bs, used))"

definition dma_set_bits :: "dma \<Rightarrow> nat \<Rightarrow> u16 \<Rightarrow> bool \<Rightarrow> dma option" where
  "dma_set_bits d page count st =
     map_option (\<lambda>(bs, u). d\<lparr>dm_bitmap := bs, dm_used := u\<rparr>)
       (set_page_bits (unat (all_pages d)) page (unat count) st (dm_bitmap d, dm_used d))"

text \<open>The bits of one byte: the first page of the current run (\<open>0xffff\<close> in the code is \<open>None\<close>) and its
  length.\<close>

fun byte_loop :: "u8 \<Rightarrow> u8 \<Rightarrow> nat \<Rightarrow> nat \<Rightarrow> nat \<Rightarrow> nat \<Rightarrow> nat option \<times> nat \<Rightarrow> nat option \<times> nat" where
  "byte_loop v mk i j 0 npages fc = fc"
| "byte_loop v mk i j (Suc n) npages (fbit, count) =
     (if count < npages then
        byte_loop v (drop_bit 1 mk) i (j + 1) n npages
          (if v AND mk = 0 then (if fbit = None then Some (i * 8 + j) else fbit, count + 1) else (None, 0))
      else (fbit, count))"

fun map_loop :: "u8 list \<Rightarrow> nat \<Rightarrow> nat \<Rightarrow> nat \<Rightarrow> nat option \<times> nat \<Rightarrow> (nat option \<times> nat) option" where
  "map_loop bs i 0 npages fc = Some fc"
| "map_loop bs i (Suc n) npages (fbit, count) =
     (if count < npages then
        if i < length bs then
          map_loop bs (i + 1) n npages
            (if bs ! i \<noteq> 0xff then byte_loop (bs ! i) 0x80 i 0 8 npages (fbit, count) else (None, 0))
        else None
      else Some (fbit, count))"

definition pages_of :: "u32 \<Rightarrow> u16" where
  "pages_of sz = ucast (sz div 1024) + (if sz mod 1024 \<noteq> 0 then 1 else 0)"

definition alloc_bits :: "dma \<Rightarrow> u32 \<Rightarrow> (nat \<times> dma) option" where
  "alloc_bits d sz =
     (let npages = pages_of sz; free_pages = all_pages d - dm_used d in
      if npages < free_pages then
        do {
          (fbit, count) \<leftarrow> map_loop (dm_bitmap d) 0 (unat (all_pages d)) (unat npages) (None, 0);
          case fbit of
            None \<Rightarrow> Some (0, d)
          | Some p \<Rightarrow>
              if count = unat npages then
                do { d \<leftarrow> dma_set_bits d p npages True; Some (dm_base d + p * DMA_PAGE_SIZE, d) }
              else Some (0, d)
        }
      else Some (0, d))"

definition alloc_buffer :: "dma \<Rightarrow> u32 \<Rightarrow> (nat \<times> dma) option" where
  "alloc_buffer d sz =
     do {
       x \<leftarrow> dm_mutex d;
       (h, x) \<leftarrow> cMutex_lock x 0 MUTEX_TIMEOUT_INFINITE 0;
       (r, d) \<leftarrow> alloc_bits (d\<lparr>dm_mutex := Some x\<rparr>) sz;
       Some (r, d\<lparr>dm_mutex := Some (cMutex_unlock x h)\<rparr>)
     }"

text \<open>\<open>!(p - m_p_mem_base) % DMA_PAGE_SIZE\<close> negates first: it is 1 at the base and 0 elsewhere.\<close>

definition release_buffer :: "dma \<Rightarrow> nat \<Rightarrow> u32 \<Rightarrow> dma option" where
  "release_buffer d p sz =
     (if dm_base d \<le> p \<and> p < dm_base d + unat (dm_size d) \<and> p + unat sz < dm_base d + unat (dm_size d) \<and>
         (if p - dm_base d = 0 then 1 else 0 :: nat) mod DMA_PAGE_SIZE \<noteq> 0 then
        do {
          x \<leftarrow> dm_mutex d;
          (h, x) \<leftarrow> cMutex_lock x 0 MUTEX_TIMEOUT_INFINITE 0;
          d \<leftarrow> dma_set_bits (d\<lparr>dm_mutex := Some x\<rparr>) ((p - dm_base d) div DMA_PAGE_SIZE) (pages_of sz) False;
          Some (d\<lparr>dm_mutex := Some (cMutex_unlock x h)\<rparr>)
        }
      else Some d)"

section \<open>Properties\<close>

text \<open>A free object of at least three pages whose first byte has its most significant bit clear.\<close>

lemma alloc_first_page:
  assumes "dm_mutex d = Some x" "cMutex_free x" "pages_of sz = 1" "1 < all_pages d - dm_used d" "0 < unat (all_pages d)"
    and "dm_bitmap d = v # bs" "\<not> bit v 7"
  shows "\<exists>x'. alloc_buffer d sz = Some (dm_base d, d\<lparr>dm_mutex := Some x', dm_bitmap := (v OR 1) # bs,
      dm_used := (if bit v 0 then dm_used d else dm_used d + 1)\<rparr>) \<and> cMutex_free x'"
proof -
  obtain h y where l: "cMutex_lock x 0 MUTEX_TIMEOUT_INFINITE 0 = Some (h, y)" "cMutex_held y h 1"
    using cMutex_acquire_free [OF assms(2)] by blast
  have ff: "bit (0xff :: u8) 7" by simp
  then have v: "v \<noteq> 0xff" using assms(7) by metis
  have m: "v AND 0x80 = 0" using assms(7) bit_iff_and_push_bit_not_eq_0 [of v 7] by simp
  have o: "v AND 1 = 0 \<longleftrightarrow> \<not> bit v 0" by (simp add: and_one_eq mod_2_eq_odd bit_0)
  obtain n where n: "unat (all_pages d) = Suc n" using assms(5) by (cases "unat (all_pages d)") auto
  have b8: "byte_loop v 0x80 0 0 8 1 (None, 0) = (Some 0, 1)"
    using m by (simp add: numeral_eq_Suc)
  have "map_loop (v # bs) 0 (unat (all_pages d)) 1 (None, 0) = Some (Some 0, 1)"
    using v b8 n by (cases n) simp_all
  then show ?thesis
    using l assms n o cMutex_release_last [OF l(2)]
    by (intro exI [of _ "cMutex_unlock y h"])
      (simp add: alloc_buffer_def alloc_bits_def dma_set_bits_def all_pages_def Let_def DMA_PAGE_SIZE_def)
qed

text \<open>The same DMA buffer is handed out twice. On a freshly initialised object with more than two
  pages, two successive requests of one page each return the same address, the base of the memory:
  the first request marks bit 0 of the first byte, the second one tests bit 7.\<close>

theorem dma_page_handed_out_twice:
  assumes "dm_mutex d = Some x" and "cMutex_free x" and "dm_bitmap d = replicate DMA_BITMAP_SIZE 0" and "dm_used d = 0"
    and "2 < all_pages d" and "pages_of sz = 1" and "pages_of sz' = 1"
  shows "\<exists>d1 d2. alloc_buffer d sz = Some (dm_base d, d1) \<and> alloc_buffer d1 sz' = Some (dm_base d, d2)"
proof -
  have ap: "2 < unat (all_pages d)" using assms(5) by (simp add: word_less_nat_alt)
  have b: "dm_bitmap d = 0 # replicate 127 0" using assms(3) by (simp add: DMA_BITMAP_SIZE_def numeral_eq_Suc)
  have g: "1 < all_pages d" "1 < all_pages d - 1"
    using ap by (simp_all add: word_less_nat_alt unat_sub_if')
  obtain x' where a: "alloc_buffer d sz = Some (dm_base d, d\<lparr>dm_mutex := Some x', dm_bitmap := 1 # replicate 127 0, dm_used := 1\<rparr>)"
    "cMutex_free x'"
    using alloc_first_page [OF assms(1,2,6) _ _ b] ap g assms(4) by auto
  let ?d = "d\<lparr>dm_mutex := Some x', dm_bitmap := 1 # replicate 127 0, dm_used := 1\<rparr>"
  have "\<exists>x'. alloc_buffer ?d sz' = Some (dm_base ?d, ?d\<lparr>dm_mutex := Some x', dm_bitmap := (1 OR 1) # replicate 127 0,
      dm_used := (if bit (1 :: u8) 0 then dm_used ?d else dm_used ?d + 1)\<rparr>) \<and> cMutex_free x'"
    by (rule alloc_first_page [OF _ a(2) assms(7)]) (use ap g in \<open>simp_all add: all_pages_def\<close>)
  with a(1) show ?thesis by auto
qed

definition demo_dma :: dma where
  "demo_dma = \<lparr>dm_mutex = Some (cMutex_init \<lparr>m_addr = 0x9000, m_mutex = \<lparr>lock_count = 0, handle_count = 0, lock_flag = 0\<rparr>\<rparr>),
     dm_base = 0x10000, dm_size = 0x8000, dm_bitmap = replicate DMA_BITMAP_SIZE 0, dm_used = 0\<rparr>"

theorem dma_page_handed_out_twice_witness:
  "\<exists>d1 d2. alloc_buffer demo_dma 512 = Some (0x10000, d1) \<and> alloc_buffer d1 1000 = Some (0x10000, d2)"
proof -
  have "cMutex_free (cMutex_init \<lparr>m_addr = 0x9000, m_mutex = \<lparr>lock_count = 0, handle_count = 0, lock_flag = 0\<rparr>\<rparr>)"
    by (simp add: cMutex_free_def cMutex_init_def mutex_reset_def)
  then show ?thesis
    using dma_page_handed_out_twice [of demo_dma _ 512 1000]
    by (simp add: demo_dma_def all_pages_def pages_of_def)
qed

text \<open>Releasing a DMA buffer works only at the base of the memory. For every other address the test
  meant to reject unaligned addresses fails, and \<open>release_buffer\<close> leaves the object as it is, so
  that the pages of the buffer stay marked.\<close>

lemma dma_release_elsewhere_ignored:
  assumes "p \<noteq> dm_base d"
  shows "release_buffer d p sz = Some d"
  using assms by (auto simp: release_buffer_def)

lemma dma_release_elsewhere_ignored_witness:
  "release_buffer demo_dma (0x10000 + 2 * 1024) 1024 = Some demo_dma"
  by (rule dma_release_elsewhere_ignored) (simp add: demo_dma_def)

end
