(* ===== verification/Slab.thy ===== *)
theory Slab
  imports Prelude
begin

text \<open>
  The slab allocator of core/mem/slab.cpp. A slab (\<open>_slab_t\<close>) of level 0 points to data pages cut into
  objects of its size; a slab of a higher level points to pages of slabs. Memory is seen in two
  ways: \<open>slabs\<close> holds the slabs by address, \<open>words\<close> the first 64-bit word of every object, in which
  the allocator marks free objects. The page source, the lock and their state are the callbacks of
  \<open>_slab_context_t\<close>.

  Following a pointer to no slab, dividing by an object size of 0 and calling a null callback are \<open>None\<close>.
  The recursive functions carry the number of nested calls left; a level has four bits and is one
  higher than the levels it points to, so sixteen are enough.
\<close>

section \<open>Object sizes\<close>

definition SLAB_NODES :: nat where
  "SLAB_NODES = 7"

definition SLAB_MIN_ALLOC :: u64 where
  "SLAB_MIN_ALLOC = 16"

text \<open>The masks of the two loops of \<open>_allign\<close> are \<open>1 << k\<close>.\<close>

fun top_mask :: "u64 \<Rightarrow> nat \<Rightarrow> nat" where
  "top_mask r 0 = 0"
| "top_mask r (Suc k) = (if bit r k then k else top_mask r k)"

fun low_mask :: "u64 \<Rightarrow> nat \<Rightarrow> bool" where
  "low_mask r 0 = False"
| "low_mask r (Suc k) = (bit r k \<or> low_mask r k)"

definition allign :: "u32 \<Rightarrow> u32 \<Rightarrow> u64" where
  "allign sz page_size =
     (let r = (if ucast sz < SLAB_MIN_ALLOC then SLAB_MIN_ALLOC else ucast sz) in
      if r < ucast page_size then
        let k = top_mask r 64; m = push_bit k 1
        in if low_mask r k then push_bit 1 m else m
      else (ucast (sz div page_size) + (if sz mod page_size \<noteq> 0 then 1 else 0)) * ucast page_size)"

section \<open>The context\<close>

record slab_t =
  osz :: u32
  sptr :: "ptr list"
  level :: "4 word"
  count :: "28 word"

record 'u scxt =
  page_size :: u32
  p_mem_alloc :: "(u32 \<Rightarrow> u64 \<Rightarrow> 'u \<Rightarrow> (ptr \<times> 'u) option) option"
  p_mem_free :: "ptr \<Rightarrow> u32 \<Rightarrow> 'u \<Rightarrow> 'u option"
  p_lock :: "u64 \<Rightarrow> 'u \<Rightarrow> (u64 \<times> 'u) option"
  p_unlock :: "u64 \<Rightarrow> 'u \<Rightarrow> 'u"
  p_udata :: 'u
  p_slab :: ptr
  slabs :: "ptr \<rightharpoonup> slab_t"
  words :: "ptr \<Rightarrow> u64"

definition sizeof_slab :: nat where
  "sizeof_slab = 64"

definition SLAB_PATTERN :: u64 where
  "SLAB_PATTERN = 0xcacacacacacacaca"

definition SLAB_PATTERN2 :: u64 where
  "SLAB_PATTERN2 = 0xdadadadadadadada"

definition SLAB_MIN_PAGE :: u32 where
  "SLAB_MIN_PAGE = 4096"

definition DEFAULT_SLAB_LIMIT :: u64 where
  "DEFAULT_SLAB_LIMIT = 0xffffffffffffffff"

definition no_slab :: slab_t where
  "no_slab = \<lparr>osz = 0, sptr = replicate SLAB_NODES 0, level = 0, count = 0\<rparr>"

definition slabs_per_page :: "'u scxt \<Rightarrow> nat" where
  "slabs_per_page c = unat (page_size c) div sizeof_slab"

definition get_pages :: "'u scxt \<Rightarrow> u32 \<Rightarrow> u64 \<Rightarrow> (ptr \<times> 'u scxt) option" where
  "get_pages c n limit =
     do { f \<leftarrow> p_mem_alloc c; (p, u) \<leftarrow> f n limit (p_udata c); Some (p, c\<lparr>p_udata := u\<rparr>) }"

definition put_pages :: "'u scxt \<Rightarrow> ptr \<Rightarrow> u32 \<Rightarrow> 'u scxt option" where
  "put_pages c p n = map_option (\<lambda>u. c\<lparr>p_udata := u\<rparr>) (p_mem_free c p n (p_udata c))"

text \<open>Clearing memory: no slabs and zero words.\<close>

definition clear_mem :: "ptr \<Rightarrow> nat \<Rightarrow> 'u scxt \<Rightarrow> 'u scxt" where
  "clear_mem p n c = c\<lparr>slabs := (\<lambda>a. if p \<le> a \<and> a < p + n then None else slabs c a),
     words := (\<lambda>a. if p \<le> a \<and> a < p + n then 0 else words c a)\<rparr>"

text \<open>A cleared page read as an array of slabs.\<close>

definition slab_page :: "ptr \<Rightarrow> 'u scxt \<Rightarrow> 'u scxt" where
  "slab_page p c =
     (let c = clear_mem p (unat (page_size c)) c
      in c\<lparr>slabs := (\<lambda>a. if p \<le> a \<and> a < p + slabs_per_page c * sizeof_slab \<and> (a - p) mod sizeof_slab = 0
                          then Some no_slab else slabs c a)\<rparr>)"

definition upd_slab :: "ptr \<Rightarrow> (slab_t \<Rightarrow> slab_t) \<Rightarrow> 'u scxt \<Rightarrow> 'u scxt" where
  "upd_slab a f c = c\<lparr>slabs := (slabs c)(a := map_option f (slabs c a))\<rparr>"

fun entry_loop :: "'u scxt \<Rightarrow> u64 \<Rightarrow> u64 \<Rightarrow> nat \<Rightarrow> nat \<Rightarrow> (ptr \<times> 'u scxt) option" where
  "entry_loop c sz b p 0 = Some (0, c)"
| "entry_loop c sz b p (Suc n) =
     (if b \<le> sz \<and> sz < push_bit 1 b then
        let a = p_slab c + p * sizeof_slab in
        do {
          s \<leftarrow> slabs c a;
          Some (a, if osz s = 0 then upd_slab a (\<lambda>_. no_slab\<lparr>osz := ucast sz\<rparr>) c else c)
        }
      else entry_loop c sz (push_bit 1 b) (p + 1) n)"

definition slab_entry :: "'u scxt \<Rightarrow> u32 \<Rightarrow> (ptr \<times> 'u scxt) option" where
  "slab_entry c sz = entry_loop c (allign sz (page_size c)) SLAB_MIN_ALLOC 0 (slabs_per_page c)"

definition slab_init :: "'u scxt \<Rightarrow> (bool \<times> 'u scxt) option" where
  "slab_init c =
     (if p_mem_alloc c \<noteq> None \<and> SLAB_MIN_PAGE \<le> page_size c then
        do {
          (p, c) \<leftarrow> get_pages c 1 DEFAULT_SLAB_LIMIT;
          let c = c\<lparr>p_slab := p\<rparr>;
          Some (if p \<noteq> 0 then (True, slab_page p c) else (False, c))
        }
      else Some (False, c))"

definition slab_inc_rec_level :: "'u scxt \<Rightarrow> ptr \<Rightarrow> (bool \<times> 'u scxt) option" where
  "slab_inc_rec_level c a =
     do {
       (pnew, c) \<leftarrow> get_pages c 1 DEFAULT_SLAB_LIMIT;
       if pnew \<noteq> 0 then
         do {
           s \<leftarrow> slabs c a;
           let c = slab_page pnew c;
           let c = upd_slab pnew (\<lambda>_. s) c;
           Some (True, upd_slab a (\<lambda>s. s\<lparr>sptr := (replicate SLAB_NODES 0)[0 := pnew], level := level s + 1, count := 0\<rparr>) c)
         }
       else Some (False, c)
     }"

section \<open>Allocation\<close>

definition data_pages :: "'u scxt \<Rightarrow> slab_t \<Rightarrow> u32" where
  "data_pages c s = (if osz s > page_size c then osz s div page_size c else 1)"

text \<open>The number of objects in the memory of one node.\<close>

definition nobjs :: "'u scxt \<Rightarrow> slab_t \<Rightarrow> nat option" where
  "nobjs c s = (if osz s = 0 then None else Some (unat ((data_pages c s * page_size c) div osz s)))"

text \<open>The first never used object, and the first released one.\<close>

fun free_loop :: "(ptr \<Rightarrow> u64) \<Rightarrow> ptr \<Rightarrow> nat \<Rightarrow> nat \<Rightarrow> nat \<Rightarrow> ptr \<Rightarrow> ptr \<times> ptr" where
  "free_loop w p sz j 0 rptr = (0, rptr)"
| "free_loop w p sz j (Suc n) rptr =
     (let p64 = p + j * sz;
          rptr = (if w p64 = SLAB_PATTERN2 \<and> rptr = 0 then p64 else rptr)
      in if w p64 = SLAB_PATTERN then (p64, rptr) else free_loop w p sz (j + 1) n rptr)"

definition take_object :: "'u scxt \<Rightarrow> ptr \<Rightarrow> slab_t \<Rightarrow> ptr \<Rightarrow> (ptr \<times> 'u scxt) option" where
  "take_object c a s p =
     do {
       n \<leftarrow> nobjs c s;
       let (q, rptr) = free_loop (words c) p (unat (osz s)) 0 n 0;
       let r = (if q \<noteq> 0 then q else rptr);
       Some (r, if r \<noteq> 0 then upd_slab a (\<lambda>s. s\<lparr>count := count s + 1\<rparr>) (c\<lparr>words := (words c)(r := 0)\<rparr>) else c)
     }"

text \<open>The slabs of a page, each through the recursive call \<open>f\<close>.\<close>

fun child_loop :: "('u scxt \<Rightarrow> ptr \<Rightarrow> (ptr \<times> 'u scxt) option) \<Rightarrow> u32 \<Rightarrow> 'u scxt \<Rightarrow> ptr \<Rightarrow> nat \<Rightarrow> (ptr \<times> 'u scxt) option" where
  "child_loop f sz c ps 0 = Some (0, c)"
| "child_loop f sz c ps (Suc n) =
     do {
       s \<leftarrow> slabs c ps;
       let c = (if osz s = 0 then upd_slab ps (\<lambda>s. s\<lparr>osz := sz\<rparr>) c else c);
       if osz s = 0 \<or> osz s = sz then
         do { (r, c) \<leftarrow> f c ps; if r \<noteq> 0 then Some (r, c) else child_loop f sz c (ps + sizeof_slab) n }
       else child_loop f sz c (ps + sizeof_slab) n
     }"

text \<open>A page for a node that has none: slabs, or objects marked free.\<close>

definition data_page :: "ptr \<Rightarrow> nat \<Rightarrow> nat \<Rightarrow> nat \<Rightarrow> 'u scxt \<Rightarrow> 'u scxt" where
  "data_page p mem_sz sz n c =
     (let c = clear_mem p mem_sz c
      in c\<lparr>words := (\<lambda>a. if \<exists>j<n. a = p + j * sz then SLAB_PATTERN else words c a)\<rparr>)"

definition node_page :: "'u scxt \<Rightarrow> ptr \<Rightarrow> slab_t \<Rightarrow> nat \<Rightarrow> u64 \<Rightarrow> (ptr \<times> 'u scxt) option" where
  "node_page c a s i limit =
     (let npages = (if level s = 0 then data_pages c s else 1) in
      do {
        (p, c) \<leftarrow> get_pages c npages (if level s \<noteq> 0 then DEFAULT_SLAB_LIMIT else limit);
        if p \<noteq> 0 then
          do {
            c \<leftarrow> (if level s = 0
                  then do { n \<leftarrow> nobjs c s; Some (data_page p (unat (npages * page_size c)) (unat (osz s)) n c) }
                  else Some (slab_page p c));
            Some (p, upd_slab a (\<lambda>s. s\<lparr>sptr := (sptr s)[i := p]\<rparr>) c)
          }
        else Some (0, c)
      })"

text \<open>The nodes of a slab from \<open>i\<close> on.\<close>

fun node_loop :: "('u scxt \<Rightarrow> ptr \<Rightarrow> (ptr \<times> 'u scxt) option) \<Rightarrow> u32 \<Rightarrow> u64 \<Rightarrow> 'u scxt \<Rightarrow> ptr \<Rightarrow> nat \<Rightarrow> nat \<Rightarrow> (ptr \<times> 'u scxt) option" where
  "node_loop f sz limit c a i 0 = Some (0, c)"
| "node_loop f sz limit c a i (Suc n) =
     do {
       s \<leftarrow> slabs c a;
       (p, c) \<leftarrow> (if sptr s ! i \<noteq> 0 then Some (sptr s ! i, c) else node_page c a s i limit);
       if p \<noteq> 0 then
         do {
           (r, c) \<leftarrow> (if level s \<noteq> 0 then child_loop f sz c p (slabs_per_page c)
                      else if p + unat sz < unat limit then take_object c a s p
                      else Some (0, c));
           if r \<noteq> 0 then Some (r, c) else node_loop f sz limit c a (i + 1) n
         }
       else Some (0, c)
     }"

fun slab_alloc_rec :: "nat \<Rightarrow> u32 \<Rightarrow> u64 \<Rightarrow> 'u scxt \<Rightarrow> ptr \<Rightarrow> (ptr \<times> 'u scxt) option" where
  "slab_alloc_rec 0 sz limit c a = None"
| "slab_alloc_rec (Suc d) sz limit c a = node_loop (slab_alloc_rec d sz limit) sz limit c a 0 SLAB_NODES"

definition MAX_LEVELS :: nat where
  "MAX_LEVELS = 16"

definition slab_lock :: "'u scxt \<Rightarrow> (u64 \<times> 'u scxt) option" where
  "slab_lock c = map_option (\<lambda>(h, u). (h, c\<lparr>p_udata := u\<rparr>)) (p_lock c 0 (p_udata c))"

definition slab_unlock :: "'u scxt \<Rightarrow> u64 \<Rightarrow> 'u scxt" where
  "slab_unlock c h = c\<lparr>p_udata := p_unlock c h (p_udata c)\<rparr>"

definition slab_alloc :: "'u scxt \<Rightarrow> u32 \<Rightarrow> u64 \<Rightarrow> (ptr \<times> 'u scxt) option" where
  "slab_alloc c nbytes limit =
     do {
       (a, c) \<leftarrow> slab_entry c nbytes;
       if a \<noteq> 0 then
         do {
           let sz = allign nbytes (page_size c);
           (h, c) \<leftarrow> slab_lock c;
           s \<leftarrow> slabs c a;
           (_, c) \<leftarrow> (if level s = 0 \<and> sz > ucast (page_size c) \<and> sz \<noteq> ucast (osz s)
                      then slab_inc_rec_level c a else Some (True, c));
           (r, c) \<leftarrow> slab_alloc_rec MAX_LEVELS (ucast sz) limit c a;
           (r, c) \<leftarrow> (if r = 0 then
                        do { (ok, c) \<leftarrow> slab_inc_rec_level c a;
                             if ok then slab_alloc_rec MAX_LEVELS (ucast sz) limit c a else Some (0, c) }
                      else Some (r, c));
           Some (r, slab_unlock c h)
         }
       else Some (0, c)
     }"

section \<open>Verification and release\<close>

fun object_loop :: "ptr \<Rightarrow> ptr \<Rightarrow> nat \<Rightarrow> nat \<Rightarrow> nat \<Rightarrow> bool" where
  "object_loop q p sz j 0 = False"
| "object_loop q p sz j (Suc n) = (p + j * sz = q \<or> object_loop q p sz (j + 1) n)"

definition obj_in_use :: "u64 \<Rightarrow> bool" where
  "obj_in_use w \<longleftrightarrow> w \<noteq> SLAB_PATTERN \<and> w \<noteq> SLAB_PATTERN2"

fun vchild_loop :: "('u scxt \<Rightarrow> ptr \<Rightarrow> (ptr \<times> nat) option option) \<Rightarrow> 'u scxt \<Rightarrow> ptr \<Rightarrow> nat \<Rightarrow> (ptr \<times> nat) option option" where
  "vchild_loop f c ps 0 = Some None"
| "vchild_loop f c ps (Suc n) =
     do {
       s \<leftarrow> slabs c ps;
       r \<leftarrow> (if count s \<noteq> 0 \<and> osz s \<noteq> 0 then f c ps else Some None);
       if r \<noteq> None then Some r else vchild_loop f c (ps + sizeof_slab) n
     }"

text \<open>The slab and node that hold the object \<open>q\<close>, if it is in use.\<close>

fun vnode_loop :: "('u scxt \<Rightarrow> ptr \<Rightarrow> (ptr \<times> nat) option option) \<Rightarrow> ptr \<Rightarrow> 'u scxt \<Rightarrow> ptr \<Rightarrow> slab_t \<Rightarrow> nat \<Rightarrow> nat \<Rightarrow> (ptr \<times> nat) option option" where
  "vnode_loop f q c a s i 0 = Some None"
| "vnode_loop f q c a s i (Suc n) =
     (if sptr s ! i \<noteq> 0 then
        if level s \<noteq> 0 then
          do { r \<leftarrow> vchild_loop f c (sptr s ! i) (slabs_per_page c);
               if r \<noteq> None then Some r else vnode_loop f q c a s (i + 1) n }
        else
          do { m \<leftarrow> nobjs c s;
               if object_loop q (sptr s ! i) (unat (osz s)) 0 m
               then Some (if obj_in_use (words c q) then Some (a, i) else None)
               else vnode_loop f q c a s (i + 1) n }
      else vnode_loop f q c a s (i + 1) n)"

fun slab_verify_rec :: "nat \<Rightarrow> ptr \<Rightarrow> 'u scxt \<Rightarrow> ptr \<Rightarrow> (ptr \<times> nat) option option" where
  "slab_verify_rec 0 q c a = None"
| "slab_verify_rec (Suc d) q c a = do { s \<leftarrow> slabs c a; vnode_loop (slab_verify_rec d q) q c a s 0 SLAB_NODES }"

definition release_object :: "'u scxt \<Rightarrow> ptr \<Rightarrow> ptr \<Rightarrow> nat \<Rightarrow> 'u scxt option" where
  "release_object c q a i =
     do {
       s \<leftarrow> slabs c a;
       let c = c\<lparr>words := (words c)(q := SLAB_PATTERN2)\<rparr>;
       c \<leftarrow> (if osz s \<ge> page_size c \<and> q = sptr s ! i then
               do { c \<leftarrow> put_pages c (sptr s ! i) (osz s div page_size c + (if osz s mod page_size c \<noteq> 0 then 1 else 0));
                    Some (upd_slab a (\<lambda>s. s\<lparr>sptr := (sptr s)[i := 0]\<rparr>) c) }
             else Some c);
       Some (upd_slab a (\<lambda>s. if count s \<noteq> 0 then s\<lparr>count := count s - 1\<rparr> else s) c)
     }"

definition slab_free_sized :: "'u scxt \<Rightarrow> ptr \<Rightarrow> u32 \<Rightarrow> 'u scxt option" where
  "slab_free_sized c q nbytes =
     do {
       (a, c) \<leftarrow> slab_entry c nbytes;
       if a \<noteq> 0 then
         do {
           (h, c) \<leftarrow> slab_lock c;
           v \<leftarrow> slab_verify_rec MAX_LEVELS q c a;
           c \<leftarrow> (case v of None \<Rightarrow> Some c | Some (b, i) \<Rightarrow> release_object c q b i);
           Some (slab_unlock c h)
         }
       else Some c
     }"

fun free_entries :: "'u scxt \<Rightarrow> ptr \<Rightarrow> ptr \<Rightarrow> nat \<Rightarrow> 'u scxt option" where
  "free_entries c q ps 0 = Some c"
| "free_entries c q ps (Suc n) =
     do {
       v \<leftarrow> slab_verify_rec MAX_LEVELS q c ps;
       case v of None \<Rightarrow> free_entries c q (ps + sizeof_slab) n | Some (b, i) \<Rightarrow> release_object c q b i
     }"

definition slab_free :: "'u scxt \<Rightarrow> ptr \<Rightarrow> 'u scxt option" where
  "slab_free c q =
     (if p_slab c \<noteq> 0 then
        do { (h, c) \<leftarrow> slab_lock c; c \<leftarrow> free_entries c q (p_slab c) (slabs_per_page c); Some (slab_unlock c h) }
      else Some c)"

definition slab_verify_sized :: "'u scxt \<Rightarrow> ptr \<Rightarrow> u32 \<Rightarrow> (bool \<times> 'u scxt) option" where
  "slab_verify_sized c q nbytes =
     do {
       (a, c) \<leftarrow> slab_entry c nbytes;
       if a \<noteq> 0 then
         do { (h, c) \<leftarrow> slab_lock c; v \<leftarrow> slab_verify_rec MAX_LEVELS q c a; Some (v \<noteq> None, slab_unlock c h) }
       else Some (False, c)
     }"

fun verify_entries :: "'u scxt \<Rightarrow> ptr \<Rightarrow> ptr \<Rightarrow> nat \<Rightarrow> bool option" where
  "verify_entries c q ps 0 = Some False"
| "verify_entries c q ps (Suc n) =
     do { v \<leftarrow> slab_verify_rec MAX_LEVELS q c ps;
          if v \<noteq> None then Some True else verify_entries c q (ps + sizeof_slab) n }"

definition slab_verify :: "'u scxt \<Rightarrow> ptr \<Rightarrow> (bool \<times> 'u scxt) option" where
  "slab_verify c q =
     (if p_slab c \<noteq> 0 then
        do { (h, c) \<leftarrow> slab_lock c; r \<leftarrow> verify_entries c q (p_slab c) (slabs_per_page c); Some (r, slab_unlock c h) }
      else Some (False, c))"

section \<open>Status and destruction\<close>

record slab_status_t =
  naobj :: u32
  nrobj :: u32
  ndpg :: u32
  nspg :: u32

fun active_loop :: "(ptr \<Rightarrow> u64) \<Rightarrow> ptr \<Rightarrow> nat \<Rightarrow> nat \<Rightarrow> nat \<Rightarrow> u32 \<Rightarrow> u32" where
  "active_loop w p sz j 0 r = r"
| "active_loop w p sz j (Suc n) r = active_loop w p sz (j + 1) n (if obj_in_use (w (p + j * sz)) then r + 1 else r)"

fun schild_loop :: "(ptr \<Rightarrow> slab_status_t \<Rightarrow> slab_status_t option) \<Rightarrow> 'u scxt \<Rightarrow> ptr \<Rightarrow> nat \<Rightarrow> slab_status_t \<Rightarrow> slab_status_t option" where
  "schild_loop f c ps 0 st = Some st"
| "schild_loop f c ps (Suc n) st =
     do { s \<leftarrow> slabs c ps; st \<leftarrow> (if osz s \<noteq> 0 then f ps st else Some st); schild_loop f c (ps + sizeof_slab) n st }"

fun snode_loop :: "(ptr \<Rightarrow> slab_status_t \<Rightarrow> slab_status_t option) \<Rightarrow> 'u scxt \<Rightarrow> slab_t \<Rightarrow> nat \<Rightarrow> nat \<Rightarrow> slab_status_t \<Rightarrow> slab_status_t option" where
  "snode_loop f c s i 0 st = Some st"
| "snode_loop f c s i (Suc n) st =
     (if sptr s ! i \<noteq> 0 then
        do {
          st \<leftarrow> (if level s \<noteq> 0 then
                  schild_loop f c (sptr s ! i) (slabs_per_page c) (st\<lparr>nspg := nspg st + 1\<rparr>)
                else
                  do { m \<leftarrow> nobjs c s;
                       Some (st\<lparr>ndpg := ndpg st + data_pages c s, nrobj := nrobj st + of_nat m,
                         naobj := active_loop (words c) (sptr s ! i) (unat (osz s)) 0 m (naobj st)\<rparr>) });
          snode_loop f c s (i + 1) n st
        }
      else Some st)"

fun slab_status_rec :: "nat \<Rightarrow> 'u scxt \<Rightarrow> ptr \<Rightarrow> slab_status_t \<Rightarrow> slab_status_t option" where
  "slab_status_rec 0 c a st = None"
| "slab_status_rec (Suc d) c a st = do { s \<leftarrow> slabs c a; snode_loop (slab_status_rec d c) c s 0 SLAB_NODES st }"

fun status_entries :: "'u scxt \<Rightarrow> ptr \<Rightarrow> nat \<Rightarrow> slab_status_t \<Rightarrow> slab_status_t option" where
  "status_entries c ps 0 st = Some st"
| "status_entries c ps (Suc n) st =
     do { st \<leftarrow> slab_status_rec MAX_LEVELS c ps st; status_entries c (ps + sizeof_slab) n st }"

definition slab_status :: "'u scxt \<Rightarrow> (slab_status_t \<times> 'u scxt) option" where
  "slab_status c =
     (let st = \<lparr>naobj = 0, nrobj = 0, ndpg = 0, nspg = 0\<rparr> in
      if p_slab c \<noteq> 0 then
        do { (h, c) \<leftarrow> slab_lock c;
             st \<leftarrow> status_entries c (p_slab c) (slabs_per_page c) (st\<lparr>nspg := 1\<rparr>);
             Some (st, slab_unlock c h) }
      else Some (st, c))"

fun dchild_loop :: "('u scxt \<Rightarrow> ptr \<Rightarrow> 'u scxt option) \<Rightarrow> 'u scxt \<Rightarrow> ptr \<Rightarrow> nat \<Rightarrow> 'u scxt option" where
  "dchild_loop f c ps 0 = Some c"
| "dchild_loop f c ps (Suc n) = do { c \<leftarrow> f c ps; dchild_loop f c (ps + sizeof_slab) n }"

fun dnode_loop :: "('u scxt \<Rightarrow> ptr \<Rightarrow> 'u scxt option) \<Rightarrow> 'u scxt \<Rightarrow> ptr \<Rightarrow> nat \<Rightarrow> nat \<Rightarrow> 'u scxt option" where
  "dnode_loop f c a i 0 = Some c"
| "dnode_loop f c a i (Suc n) =
     do {
       s \<leftarrow> slabs c a;
       c \<leftarrow> (if sptr s ! i \<noteq> 0 then
               do {
                 c \<leftarrow> (if level s \<noteq> 0
                       then do { c \<leftarrow> dchild_loop f c (sptr s ! i) (slabs_per_page c); put_pages c (sptr s ! i) 1 }
                       else put_pages c (sptr s ! i) (data_pages c s));
                 Some (upd_slab a (\<lambda>s. s\<lparr>sptr := (sptr s)[i := 0]\<rparr>) c)
               }
             else Some c);
       dnode_loop f c a (i + 1) n
     }"

fun destroy_slab :: "nat \<Rightarrow> 'u scxt \<Rightarrow> ptr \<Rightarrow> 'u scxt option" where
  "destroy_slab 0 c a = None"
| "destroy_slab (Suc d) c a =
     do { c \<leftarrow> dnode_loop (destroy_slab d) c a 0 SLAB_NODES; Some (upd_slab a (\<lambda>_. no_slab) c) }"

definition slab_destroy :: "'u scxt \<Rightarrow> 'u scxt option" where
  "slab_destroy c =
     (if p_slab c \<noteq> 0 then
        do {
          (h, c) \<leftarrow> slab_lock c;
          c \<leftarrow> dchild_loop (destroy_slab MAX_LEVELS) c (p_slab c) (slabs_per_page c);
          c \<leftarrow> put_pages c (p_slab c) 1;
          Some (slab_unlock c h)
        }
      else Some c)"

section \<open>Rounding sizes\<close>

lemma top_mask_bits:
  assumes "\<exists>j<n. bit r j"
  shows "top_mask r n < n \<and> bit r (top_mask r n) \<and> (\<forall>j. top_mask r n < j \<and> j < n \<longrightarrow> \<not> bit r j)"
  using assms by (induction n) (auto simp: less_Suc_eq)

lemma low_mask_bits: "low_mask r n \<longleftrightarrow> (\<exists>j<n. bit r j)"
  by (induction n) (auto simp: less_Suc_eq)

text \<open>The highest bit splits a word.\<close>

lemma top_bit_split:
  assumes "r \<noteq> 0"
  shows "unat r = 2 ^ top_mask r 64 + take_bit (top_mask r 64) (unat r)"
    and "low_mask r (top_mask r 64) \<longleftrightarrow> take_bit (top_mask r 64) (unat r) \<noteq> 0"
proof -
  have "\<exists>j<64. bit r j" using assms by (auto simp: bit_eq_iff [of r 0])
  from top_mask_bits [OF this] have t: "top_mask r 64 < 64" "bit r (top_mask r 64)" "\<And>j. top_mask r 64 < j \<Longrightarrow> \<not> bit r j"
    using bit_imp_le_length [of r] by (auto simp: not_less)
  let ?k = "top_mask r 64"
  have b: "bit (unat r) j = bit r j" for j by (simp add: bit_unsigned_iff)
  have "unat r = take_bit (Suc ?k) (unat r)"
    by (rule bit_eqI) (use b in \<open>auto simp: bit_take_bit_iff less_Suc_eq_le intro: leI dest: t(3)\<close>)
  also have "\<dots> = 2 ^ ?k + take_bit ?k (unat r)"
    using t(2) b by (simp add: take_bit_Suc_from_most)
  finally show "unat r = 2 ^ ?k + take_bit ?k (unat r)" .
  show "low_mask r ?k \<longleftrightarrow> take_bit ?k (unat r) \<noteq> 0"
    unfolding low_mask_bits by (auto simp: bit_eq_iff [of "take_bit ?k (unat r)"] bit_take_bit_iff b)
qed

text \<open>Object sizes. A request below the page size gets the smallest power of two that is not below
  the request and not below 16; any other request gets the smallest multiple of the page size that
  is not below it.\<close>

theorem allign_rounds_up:
  assumes "ps \<noteq> 0"
  shows "if max 16 (unat sz) < unat ps
    then \<exists>k. unat (allign sz ps) = 2 ^ k \<and> max 16 (unat sz) \<le> 2 ^ k \<and> 2 ^ k < 2 * max 16 (unat sz)
    else \<exists>q. unat (allign sz ps) = q * unat ps \<and> unat sz \<le> q * unat ps \<and> q * unat ps < unat sz + unat ps"
proof -
  let ?r = "if ucast sz < SLAB_MIN_ALLOC then SLAB_MIN_ALLOC else ucast sz :: u64"
  have us: "unat (ucast sz :: u64) = unat sz" "unat (ucast ps :: u64) = unat ps"
    using order_less_trans [OF unat_u32_lt [of sz], of "2 ^ 64"] order_less_trans [OF unat_u32_lt [of ps], of "2 ^ 64"]
    by (simp_all add: unsigned_ucast_eq take_bit_nat_eq_self)
  have r: "unat ?r = max 16 (unat sz)"
    using us by (auto simp: SLAB_MIN_ALLOC_def word_less_nat_alt max_def)
  have c: "?r < ucast ps \<longleftrightarrow> max 16 (unat sz) < unat ps"
    using r us(2) by (simp only: word_less_nat_alt)
  show ?thesis
  proof (cases "?r < ucast ps")
    case True
    let ?k = "top_mask ?r 64"
    have "0 < unat ?r" using r by simp
    then have "?r \<noteq> 0" unfolding unat_gt_0 .
    note t = top_bit_split [OF this]
    have lt: "take_bit ?k (unat ?r) < 2 ^ ?k" by simp
    have small: "2 ^ ?k < (2 ^ 32 :: nat)"
      using t(1) c True r unat_u32_lt [of ps] by linarith
    then have k: "?k < 32" by (rule power_less_imp_less_exp [rotated]) simp
    have al: "allign sz ps = (if low_mask ?r ?k then push_bit 1 (push_bit ?k 1) else push_bit ?k 1)"
      using True by (simp add: allign_def Let_def)
    have pb: "unat (push_bit n 1 :: u64) = 2 ^ n" if "n < 64" for n
      using that by (simp add: unsigned_push_bit_eq take_bit_of_exp del: push_bit_of_1)
    show ?thesis
    proof (cases "low_mask ?r ?k")
      case True
      then have "unat (allign sz ps) = 2 ^ Suc ?k" using al k pb [of "Suc ?k"] by (simp add: push_bit_push_bit del: push_bit_of_1)
      moreover have "2 ^ ?k < max 16 (unat sz)" using True t r by linarith
      moreover have "max 16 (unat sz) \<le> 2 ^ Suc ?k" using t(1) lt r unfolding power_Suc by linarith
      ultimately have "unat (allign sz ps) = 2 ^ Suc ?k \<and> max 16 (unat sz) \<le> 2 ^ Suc ?k \<and> 2 ^ Suc ?k < 2 * max 16 (unat sz)"
        unfolding power_Suc by linarith
      then show ?thesis using c \<open>?r < ucast ps\<close> by (subst if_P, blast, blast)
    next
      case False
      then have "unat (allign sz ps) = 2 ^ ?k" using al k pb [of ?k] by simp
      moreover have "max 16 (unat sz) = 2 ^ ?k" using False t r by simp
      ultimately show ?thesis using c \<open>?r < ucast ps\<close> by (auto intro!: exI [of _ ?k])
    qed
  next
    case False
    let ?q = "unat sz div unat ps + (if unat sz mod unat ps \<noteq> 0 then 1 else 0)"
    have p0: "0 < unat ps" using assms by (simp add: unat_gt_0)
    define d where "d = unat sz div unat ps * unat ps"
    define e where "e = unat sz mod unat ps"
    have m: "d + e = unat sz" "e < unat ps" using p0 by (simp_all add: d_def e_def)
    have eq: "?q * unat ps = d + (if e \<noteq> 0 then unat ps else 0)" by (simp add: d_def e_def add_mult_distrib)
    have q: "unat sz \<le> ?q * unat ps" "?q * unat ps < unat sz + unat ps"
      unfolding eq using m p0 by auto
    have big: "unat sz + unat ps < 2 ^ 64" using unat_u32_lt [of sz] unat_u32_lt [of ps] by simp
    have "(ucast (sz div ps) :: u64) = of_nat (unat sz div unat ps)" by (simp flip: unat_div)
    then have "allign sz ps = of_nat ?q * of_nat (unat ps)"
      using False by (simp add: allign_def Let_def unat_div unat_mod flip: unat_0_iff)
    then have al: "allign sz ps = of_nat (?q * unat ps)" by (simp only: of_nat_mult)
    have un: "unat (of_nat n :: u64) = n" if "n < 2 ^ 64" for n
      using that by (simp add: unat_of_nat take_bit_nat_eq_self)
    have "unat (allign sz ps) = ?q * unat ps" unfolding al by (rule un) (rule less_trans [OF q(2) big])
    then show ?thesis using q c False by auto
  qed
qed

theorem allign_rounds_up_witness:
  "(\<exists>k. unat (allign 100 4096) = 2 ^ k \<and> 100 \<le> (2 :: nat) ^ k \<and> (2 :: nat) ^ k < 200) \<and>
   (\<exists>q. unat (allign 5000 4096) = q * 4096 \<and> 5000 \<le> q * 4096 \<and> q * 4096 < 9096)"
  using allign_rounds_up [of 4096 100] allign_rounds_up [of 4096 5000] by simp

section \<open>Objects in use\<close>

text \<open>A source of pages for the allocator: what it keeps of its invariant, and that the pages it returns
  are apart from the memory in use.\<close>

locale page_source =
  fixes palloc :: "u32 \<Rightarrow> u64 \<Rightarrow> 'u \<Rightarrow> (ptr \<times> 'u) option"
    and pinv :: "u32 \<Rightarrow> 'u \<Rightarrow> bool"
    and pused :: "'u \<Rightarrow> ptr set"
    and plock :: "u64 \<Rightarrow> 'u \<Rightarrow> (u64 \<times> 'u) option"
    and punlock :: "u64 \<Rightarrow> 'u \<Rightarrow> 'u"
  assumes palloc_fresh: "pinv ps u \<Longrightarrow> n \<noteq> 0 \<Longrightarrow> n \<le> max 1 (- 1 div ps) \<Longrightarrow> palloc n limit u = Some (p, u') \<Longrightarrow>
      pinv ps u' \<and> pused u \<subseteq> pused u' \<and> (p \<noteq> 0 \<longrightarrow> {p..<p + unat (n * ps)} \<inter> pused u = {})"
    and plock_keeps: "pinv ps u \<Longrightarrow> plock h u = Some (h', u') \<Longrightarrow> pinv ps u' \<and> pused u' = pused u"
    and punlock_keeps: "pinv ps u \<Longrightarrow> pinv ps (punlock h u) \<and> pused (punlock h u) = pused u"
begin

text \<open>A set of objects in use: memory of pages in use, no free marks.\<close>

definition live_ok :: "ptr set \<Rightarrow> 'u scxt \<Rightarrow> bool" where
  "live_ok L c \<longleftrightarrow> p_mem_alloc c = Some palloc \<and> p_lock c = plock \<and> p_unlock c = punlock \<and> page_size c \<noteq> 0 \<and> pinv (page_size c) (p_udata c) \<and> L \<subseteq> pused (p_udata c) \<and>
     (\<forall>a\<in>L. obj_in_use (words c a))"

text \<open>What a step of an allocation keeps: the objects in use and their words.\<close>

definition keeps :: "ptr set \<Rightarrow> 'u scxt \<Rightarrow> 'u scxt \<Rightarrow> bool" where
  "keeps L c c' \<longleftrightarrow> live_ok L c' \<and> page_size c' = page_size c \<and> (\<forall>a\<in>L. words c' a = words c a)"

lemma keeps_refl: "live_ok L c \<Longrightarrow> keeps L c c"
  by (simp add: keeps_def)

lemma keeps_trans: "keeps L c c' \<Longrightarrow> keeps L c' c'' \<Longrightarrow> keeps L c c''"
  by (simp add: keeps_def)

text \<open>What an allocation that returns \<open>r\<close> does: the objects in use stay, and \<open>r\<close> is none of them and in use
  afterwards.\<close>

definition gets :: "ptr set \<Rightarrow> 'u scxt \<Rightarrow> ptr \<Rightarrow> 'u scxt \<Rightarrow> bool" where
  "gets L c r c' \<longleftrightarrow> keeps L c c' \<and> (r \<noteq> 0 \<longrightarrow> r \<notin> L \<and> obj_in_use (words c' r))"

lemma gets_nothing: "keeps L c c' \<Longrightarrow> gets L c 0 c'"
  by (simp add: gets_def)

lemma gets_trans: "keeps L c c' \<Longrightarrow> gets L c' r c'' \<Longrightarrow> gets L c r c''"
  unfolding gets_def using keeps_trans by blast

lemma keeps_upd: "keeps L c c' \<Longrightarrow> keeps L c (upd_slab a f c')"
  by (auto simp: keeps_def live_ok_def upd_slab_def)

lemma keeps_pages:
  assumes "live_ok L c" "get_pages c n limit = Some (p, c')" "n \<noteq> 0" "n \<le> max 1 (- 1 div page_size c)"
  shows "keeps L c c'" and "p \<noteq> 0 \<Longrightarrow> {p..<p + unat (n * page_size c)} \<inter> L = {}"
proof -
  from assms(1,2) obtain u where u: "palloc n limit (p_udata c) = Some (p, u)" "c' = c\<lparr>p_udata := u\<rparr>"
    by (auto simp: get_pages_def live_ok_def bind_eq_Some_conv)
  from palloc_fresh [OF _ assms(3,4) u(1)] assms(1)
  have f: "pinv (page_size c) u \<and> pused (p_udata c) \<subseteq> pused u \<and>
      (p \<noteq> 0 \<longrightarrow> {p..<p + unat (n * page_size c)} \<inter> pused (p_udata c) = {})" by (simp add: live_ok_def)
  then show "keeps L c c'" using u assms(1) by (auto simp: keeps_def live_ok_def)
  show "p \<noteq> 0 \<Longrightarrow> {p..<p + unat (n * page_size c)} \<inter> L = {}" using f assms(1) by (auto simp: live_ok_def)
qed

lemma keeps_clear: "live_ok L c \<Longrightarrow> {p..<p + n} \<inter> L = {} \<Longrightarrow> keeps L c (clear_mem p n c)"
  by (auto simp: keeps_def live_ok_def clear_mem_def)

lemma keeps_slab_page: "live_ok L c \<Longrightarrow> {p..<p + unat (page_size c)} \<inter> L = {} \<Longrightarrow> keeps L c (slab_page p c)"
  by (auto simp: slab_page_def clear_mem_def keeps_def live_ok_def Let_def)

lemma keeps_data_page:
  assumes "live_ok L c" "{p..<p + n} \<inter> L = {}" "\<forall>j<m. j * sz < n"
  shows "keeps L c (data_page p n sz m c)"
  using keeps_clear [OF assms(1,2)] assms(2,3)
  by (auto simp: data_page_def keeps_def live_ok_def Let_def) (metis IntI add_less_cancel_left atLeastLessThan_iff empty_iff le_add1)+

lemma free_loop_marked:
  assumes "free_loop w p sz j n r0 = (q, r)" "r0 \<noteq> 0 \<longrightarrow> \<not> obj_in_use (w r0)"
  shows "(q \<noteq> 0 \<longrightarrow> \<not> obj_in_use (w q)) \<and> (r \<noteq> 0 \<longrightarrow> \<not> obj_in_use (w r))"
  using assms by (induction w p sz j n r0 rule: free_loop.induct) (auto simp: Let_def obj_in_use_def split: if_splits)

lemma keeps_take:
  assumes "live_ok L c" "take_object c a s p = Some (r, c')"
  shows "gets L c r c'"
proof -
  obtain n where n: "nobjs c s = Some n" using assms(2) by (auto simp: take_object_def bind_eq_Some_conv)
  moreover obtain q rp where "free_loop (words c) p (unat (osz s)) 0 n 0 = (q, rp)" by (metis surj_pair)
  ultimately have l: "nobjs c s = Some n" "free_loop (words c) p (unat (osz s)) 0 n 0 = (q, rp)" by simp_all
  let ?r = "if q \<noteq> 0 then q else rp"
  have r: "r = ?r" "c' = (if ?r \<noteq> 0 then upd_slab a (\<lambda>s. s\<lparr>count := count s + 1\<rparr>) (c\<lparr>words := (words c)(?r := 0)\<rparr>) else c)"
    using assms(2) l by (auto simp: take_object_def Let_def split: if_splits)
  have m: "?r \<noteq> 0 \<longrightarrow> \<not> obj_in_use (words c ?r)" using free_loop_marked [OF l(2)] by auto
  then have "r \<noteq> 0 \<longrightarrow> r \<notin> L" using assms(1) r(1) by (auto simp: live_ok_def)
  moreover have "r \<noteq> 0 \<longrightarrow> obj_in_use (words c' r)"
    using r by (simp add: obj_in_use_def upd_slab_def SLAB_PATTERN_def SLAB_PATTERN2_def)
  moreover have "keeps L c c'" using r calculation(1) assms(1) by (auto simp: keeps_def live_ok_def upd_slab_def)
  ultimately show ?thesis by (simp add: gets_def)
qed

lemma keeps_child:
  assumes f: "\<And>c a r c'. live_ok L c \<Longrightarrow> f c a = Some (r, c') \<Longrightarrow> gets L c r c'"
  shows "live_ok L c \<Longrightarrow> child_loop f sz c ps n = Some (r, c') \<Longrightarrow> gets L c r c'"
proof (induction n arbitrary: c ps)
  case 0
  then show ?case by (auto intro: keeps_refl gets_nothing)
next
  case (Suc n)
  obtain s where s: "slabs c ps = Some s" using Suc.prems(2) by (auto simp: bind_eq_Some_conv)
  let ?c = "if osz s = 0 then upd_slab ps (\<lambda>s. s\<lparr>osz := sz\<rparr>) c else c"
  have k: "keeps L c ?c" using Suc.prems(1) keeps_refl keeps_upd by auto
  then have l: "live_ok L ?c" by (simp add: keeps_def)
  show ?case
  proof (cases "osz s = 0 \<or> osz s = sz")
    case True
    then obtain q c1 where q: "f ?c ps = Some (q, c1)" "(if q \<noteq> 0 then Some (q, c1) else child_loop f sz c1 (ps + sizeof_slab) n) = Some (r, c')"
      using Suc.prems(2) s by (auto simp: Let_def bind_eq_Some_conv)
    note k1 = f [OF l q(1)]
    show ?thesis
    proof (cases "q = 0")
      case True
      have kc: "keeps L ?c c1" using k1 by (simp add: gets_def)
      then have "gets L c1 r c'" using True Suc.IH [of c1] q(2) by (simp add: keeps_def)
      then show ?thesis by (rule gets_trans [OF keeps_trans [OF k kc]])
    next
      case False
      then have "r = q" "c' = c1" using q(2) by simp_all
      then show ?thesis using gets_trans [OF k] k1 by simp
    qed
  next
    case False
    then have "child_loop f sz ?c (ps + sizeof_slab) n = Some (r, c')" using Suc.prems(2) s by (auto simp: Let_def)
    from Suc.IH [OF l this] show ?thesis by (rule gets_trans [OF k])
  qed
qed

lemma data_pages_ok:
  assumes "page_size c \<noteq> 0"
  shows "data_pages c s \<noteq> 0" and "data_pages c s \<le> max 1 (- 1 div page_size c)"
    and "nobjs c s = Some m \<Longrightarrow> j < m \<Longrightarrow> j * unat (osz s) < unat (data_pages c s * page_size c)"
proof -
  have p: "0 < unat (page_size c)" using assms by (simp add: unat_gt_0)
  show "data_pages c s \<noteq> 0"
  proof (cases "osz s > page_size c")
    case True
    then have "unat (page_size c) \<le> unat (osz s)" by (simp add: word_less_nat_alt)
    then have "0 < unat (osz s) div unat (page_size c)" using p by (simp add: div_greater_zero_iff)
    then have "unat (osz s div page_size c) \<noteq> 0" by (simp add: unat_div)
    then show ?thesis using True unfolding data_pages_def by (metis unat_0)
  qed (simp add: data_pages_def)
  have "osz s div page_size c \<le> - 1 div page_size c"
    by (simp add: word_le_nat_alt unat_div div_le_mono unat_max_u32)
       (use unat_u32_lt [of "osz s"] in \<open>auto intro!: div_le_mono\<close>)
  then show "data_pages c s \<le> max 1 (- 1 div page_size c)" by (auto simp: data_pages_def max_def)
  show "j * unat (osz s) < unat (data_pages c s * page_size c)" if m: "nobjs c s = Some m" "j < m"
  proof -
    have o: "osz s \<noteq> 0" "m = unat (data_pages c s * page_size c) div unat (osz s)"
      using m(1) by (auto simp: nobjs_def unat_div split: if_splits)
    then have "Suc j * unat (osz s) \<le> unat (data_pages c s * page_size c)"
      using m(2) by (metis Suc_leI div_times_less_eq_dividend mult_le_mono1 order_trans)
    then show ?thesis using o(1) by (simp add: unat_gt_0 [symmetric])
  qed
qed

lemma nobjs_cong: "page_size c' = page_size c \<Longrightarrow> nobjs c' s = nobjs c s"
  by (simp add: nobjs_def data_pages_def)

lemma keeps_node_page:
  assumes "live_ok L c" "node_page c a s i limit = Some (p, c')"
  shows "keeps L c c'"
proof -
  let ?n = "if level s = 0 then data_pages c s else 1"
  have ps: "page_size c \<noteq> 0" using assms(1) by (simp add: live_ok_def)
  have n: "?n \<noteq> 0" "?n \<le> max 1 (- 1 div page_size c)" using data_pages_ok [OF ps, of s] by auto
  obtain q c1 where g: "get_pages c ?n (if level s \<noteq> 0 then DEFAULT_SLAB_LIMIT else limit) = Some (q, c1)"
    using assms(2) by (auto simp: node_page_def Let_def bind_eq_Some_conv)
  have k: "keeps L c c1" and d: "q \<noteq> 0 \<Longrightarrow> {q..<q + unat (?n * page_size c)} \<inter> L = {}"
    using keeps_pages [OF assms(1) g n] by auto
  have l: "live_ok L c1" "page_size c1 = page_size c" using k by (simp_all add: keeps_def)
  show ?thesis
  proof (cases "q = 0")
    case True
    then show ?thesis using assms(2) g k by (auto simp: node_page_def Let_def bind_eq_Some_conv split: if_splits)
  next
    case False
    show ?thesis
    proof (cases "level s = 0")
      case True
      then obtain m where m: "nobjs c1 s = Some m" "c' = upd_slab a (\<lambda>s. s\<lparr>sptr := (sptr s)[i := q]\<rparr>)
          (data_page q (unat (data_pages c s * page_size c1)) (unat (osz s)) m c1)"
        using assms(2) g False by (auto simp: node_page_def Let_def bind_eq_Some_conv)
      have "nobjs c s = Some m" using m(1) nobjs_cong [OF l(2)] by simp
      then have "keeps L c1 (data_page q (unat (data_pages c s * page_size c1)) (unat (osz s)) m c1)"
        using keeps_data_page [OF l(1)] d [OF False] data_pages_ok(3) [OF ps] True l(2) by simp
      then show ?thesis using m(2) k keeps_upd keeps_trans by blast
    next
      case f: False
      then have "c' = upd_slab a (\<lambda>s. s\<lparr>sptr := (sptr s)[i := q]\<rparr>) (slab_page q c1)"
        using assms(2) g False by (auto simp: node_page_def Let_def bind_eq_Some_conv)
      moreover have "keeps L c1 (slab_page q c1)" using keeps_slab_page [OF l(1)] d [OF False] f l(2) by simp
      ultimately show ?thesis using k keeps_upd keeps_trans by blast
    qed
  qed
qed

lemma keeps_node:
  assumes f: "\<And>c a r c'. live_ok L c \<Longrightarrow> f c a = Some (r, c') \<Longrightarrow> gets L c r c'"
  shows "live_ok L c \<Longrightarrow> node_loop f sz limit c a i n = Some (r, c') \<Longrightarrow> gets L c r c'"
proof (induction n arbitrary: c i)
  case 0
  then show ?case by (auto intro: keeps_refl gets_nothing)
next
  case (Suc n)
  obtain s p c1 where s: "slabs c a = Some s"
    "(if sptr s ! i \<noteq> 0 then Some (sptr s ! i, c) else node_page c a s i limit) = Some (p, c1)"
    using Suc.prems(2) by (auto simp: bind_eq_Some_conv)
  have k: "keeps L c c1" using s(2) Suc.prems(1) keeps_node_page keeps_refl by (auto split: if_splits)
  then have l: "live_ok L c1" by (simp add: keeps_def)
  show ?case
  proof (cases "p = 0")
    case True
    then show ?thesis using Suc.prems(2) s k gets_nothing by auto
  next
    case False
    obtain q c2 where q: "(if level s \<noteq> 0 then child_loop f sz c1 p (slabs_per_page c1)
        else if p + unat sz < unat limit then take_object c1 a s p else Some (0, c1)) = Some (q, c2)"
      "(if q \<noteq> 0 then Some (q, c2) else node_loop f sz limit c2 a (i + 1) n) = Some (r, c')"
      using Suc.prems(2) s False by (auto simp: bind_eq_Some_conv)
    have k2: "gets L c1 q c2"
      using q(1) keeps_child [OF f l] keeps_take [OF l] gets_nothing [OF keeps_refl [OF l]] by (auto split: if_splits)
    then show ?thesis
    proof (cases "q = 0")
      case True
      have kc: "keeps L c1 c2" using k2 by (simp add: gets_def)
      then have "gets L c2 r c'" using True Suc.IH [of c2] q(2) by (simp add: keeps_def)
      then show ?thesis by (rule gets_trans [OF keeps_trans [OF k kc]])
    next
      case False
      then have "r = q" "c' = c2" using q(2) by simp_all
      then show ?thesis using gets_trans [OF k] k2 by simp
    qed
  qed
qed

lemma keeps_alloc_rec:
  "live_ok L c \<Longrightarrow> slab_alloc_rec d sz limit c a = Some (r, c') \<Longrightarrow> gets L c r c'"
proof (induction d arbitrary: c a r c')
  case (Suc d)
  show ?case using keeps_node [where f = "slab_alloc_rec d sz limit", OF Suc.IH Suc.prems(1)] Suc.prems(2) by simp
qed simp

lemma keeps_inc_level:
  assumes "live_ok L c" "slab_inc_rec_level c a = Some (ok, c')"
  shows "keeps L c c'"
proof -
  obtain p c1 where g: "get_pages c 1 DEFAULT_SLAB_LIMIT = Some (p, c1)"
    using assms(2) by (auto simp: slab_inc_rec_level_def bind_eq_Some_conv)
  have k: "keeps L c c1" and d: "p \<noteq> 0 \<Longrightarrow> {p..<p + unat (1 * page_size c)} \<inter> L = {}"
    using keeps_pages [OF assms(1) g] by auto
  have l: "live_ok L c1" "page_size c1 = page_size c" using k by (simp_all add: keeps_def)
  show ?thesis
  proof (cases "p = 0")
    case True
    then show ?thesis using assms(2) g k by (auto simp: slab_inc_rec_level_def)
  next
    case False
    have "keeps L c1 (slab_page p c1)" using keeps_slab_page [OF l(1)] d [OF False] l(2) by simp
    then show ?thesis using assms(2) g False keeps_trans [OF k] by (auto simp: slab_inc_rec_level_def bind_eq_Some_conv Let_def intro!: keeps_upd)
  qed
qed

lemma keeps_entry: "live_ok L c \<Longrightarrow> slab_entry c n = Some (a, c') \<Longrightarrow> keeps L c c'"
proof -
  have "keeps L c c'" if "live_ok L c" "entry_loop c sz b p m = Some (a, c')" for sz b p m
    using that by (induction c sz b p m rule: entry_loop.induct)
      (auto simp: Let_def bind_eq_Some_conv intro: keeps_refl keeps_upd split: if_splits)
  then show "live_ok L c \<Longrightarrow> slab_entry c n = Some (a, c') \<Longrightarrow> keeps L c c'" by (simp add: slab_entry_def)
qed

lemma keeps_lock: "live_ok L c \<Longrightarrow> slab_lock c = Some (h, c') \<Longrightarrow> keeps L c c'"
  using plock_keeps by (auto simp: slab_lock_def keeps_def live_ok_def)

lemma keeps_unlock: "live_ok L c \<Longrightarrow> keeps L c (slab_unlock c h)"
  using punlock_keeps by (auto simp: slab_unlock_def keeps_def live_ok_def)

lemma keepsD: "keeps L c c' \<Longrightarrow> live_ok L c'"
  by (simp add: keeps_def)

text \<open>An allocation neither returns nor changes an object in use, and what it returns is in use afterwards.\<close>

lemma slab_alloc_keeps:
  assumes "live_ok L c" "slab_alloc c n limit = Some (r, c')"
  shows "gets L c r c'"
proof -
  obtain a c1 where e: "slab_entry c n = Some (a, c1)" using assms(2) by (auto simp: slab_alloc_def bind_eq_Some_conv)
  note k1 = keeps_entry [OF assms(1) e]
  show ?thesis
  proof (cases "a = 0")
    case True
    then show ?thesis using assms(2) e k1 gets_nothing by (auto simp: slab_alloc_def)
  next
    case False
    let ?sz = "allign n (page_size c1)"
    obtain h c2 s b c3 q c4 q2 c5 where st: "slab_lock c1 = Some (h, c2)" "slabs c2 a = Some s"
      "(if level s = 0 \<and> ?sz > ucast (page_size c2) \<and> ?sz \<noteq> ucast (osz s)
        then slab_inc_rec_level c2 a else Some (True, c2)) = Some (b, c3)"
      "slab_alloc_rec MAX_LEVELS (ucast ?sz) limit c3 a = Some (q, c4)"
      "(if q = 0 then do { (ok, c) \<leftarrow> slab_inc_rec_level c4 a;
          if ok then slab_alloc_rec MAX_LEVELS (ucast ?sz) limit c a else Some (0, c) } else Some (q, c4)) = Some (q2, c5)"
      "r = q2" "c' = slab_unlock c5 h"
      using assms(2) e False by (auto simp: slab_alloc_def Let_def bind_eq_Some_conv)
    have k2: "keeps L c c2" using keeps_trans [OF k1 keeps_lock [OF keepsD [OF k1] st(1)]] .
    have k3: "keeps L c c3"
      using st(3) keeps_inc_level [OF keepsD [OF k2]] keeps_trans [OF k2] k2 by (auto split: if_splits)
    have g4: "gets L c q c4" by (rule gets_trans [OF k3 keeps_alloc_rec [OF keepsD [OF k3] st(4)]])
    then have k4: "keeps L c c4" by (simp add: gets_def)
    have k5: "gets L c q2 c5"
    proof (cases "q = 0")
      case True
      then obtain ok c6 where i: "slab_inc_rec_level c4 a = Some (ok, c6)"
        "(if ok then slab_alloc_rec MAX_LEVELS (ucast ?sz) limit c6 a else Some (0, c6)) = Some (q2, c5)"
        using st(5) by (auto simp: bind_eq_Some_conv)
      have k6: "keeps L c c6" using keeps_trans [OF k4 keeps_inc_level [OF keepsD [OF k4] i(1)]] .
      then show ?thesis using i(2) gets_trans [OF k6 keeps_alloc_rec [OF keepsD [OF k6]]] gets_nothing by (auto split: if_splits)
    next
      case False
      then show ?thesis using st(5) g4 by simp
    qed
    then show ?thesis using st(6,7) keeps_trans [OF _ keeps_unlock [OF keepsD]] by (auto simp: gets_def slab_unlock_def)
  qed
qed

end

section \<open>Growing a second time\<close>

lemma vchild_idle:
  assumes "\<forall>j<n. \<exists>s. slabs c (ps + j * sizeof_slab) = Some s \<and> count s = 0"
  shows "vchild_loop f c ps n = Some None"
  using assms
proof (induction n arbitrary: ps)
  case (Suc n)
  obtain s where s: "slabs c ps = Some s" "count s = 0" using Suc.prems by fastforce
  have "\<forall>j<n. \<exists>s. slabs c (ps + sizeof_slab + j * sizeof_slab) = Some s \<and> count s = 0"
    using Suc.prems by (metis Suc_less_eq add.assoc mult_Suc)
  from Suc.IH [OF this] s show ?case by simp
qed simp

lemma vnode_one_child:
  assumes "vchild_loop g c p (slabs_per_page c) = Some None" "p \<noteq> 0" "level s \<noteq> 0" "sptr s = (replicate SLAB_NODES 0)[0 := p]"
  shows "vnode_loop g q c a s 0 SLAB_NODES = Some None"
  using assms by (simp add: SLAB_NODES_def numeral_eq_Suc)

text \<open>C38: Objects of a slab that grows a second time can no longer be verified or freed. A slab of level
  1 or more has no objects of its own and its count is 0; \<open>slab_inc_rec_level\<close> copies it, with that
  count, into a new page, and \<open>_slab_verify\<close> skips slabs whose count is 0. So once such a slab has
  grown, \<open>_slab_verify\<close> finds no object below it.\<close>

theorem grown_slab_verifies_nothing:
  assumes "slabs c a = Some s" and "level s \<noteq> 0" and "level s \<noteq> - 1" and "count s = 0"
    and "p_mem_alloc c = Some f" and "f 1 DEFAULT_SLAB_LIMIT (p_udata c) = Some (p, u)" and "p \<noteq> 0"
    and "a < p \<or> p + unat (page_size c) \<le> a" and "64 \<le> page_size c"
  shows "\<exists>c'. slab_inc_rec_level c a = Some (True, c') \<and> slab_verify_rec (Suc d) q c' a = Some None"
proof -
  let ?c1 = "c\<lparr>p_udata := u\<rparr>"
  let ?c2 = "upd_slab p (\<lambda>_. s) (slab_page p ?c1)"
  let ?s' = "s\<lparr>sptr := (replicate SLAB_NODES 0)[0 := p], level := level s + 1, count := 0\<rparr>"
  let ?c' = "upd_slab a (\<lambda>s. s\<lparr>sptr := (replicate SLAB_NODES 0)[0 := p], level := level s + 1, count := 0\<rparr>) ?c2"
  have n: "slabs_per_page c * sizeof_slab \<le> unat (page_size c)" "0 < slabs_per_page c"
    using assms(9) by (simp_all add: slabs_per_page_def sizeof_slab_def word_le_nat_alt div_greater_zero_iff)
  have inc: "slab_inc_rec_level c a = Some (True, ?c')"
    using assms(1,5-7) by (simp add: slab_inc_rec_level_def get_pages_def Let_def)
  have pg: "slabs (slab_page p ?c1) (p + j * sizeof_slab) = Some no_slab" if "j < slabs_per_page c" for j
    using that by (simp add: slab_page_def clear_mem_def slabs_per_page_def sizeof_slab_def Let_def)
  have pa: "a \<noteq> p + j * sizeof_slab" if "j < slabs_per_page c" for j
  proof -
    have "j * sizeof_slab < slabs_per_page c * sizeof_slab" using that by (simp add: sizeof_slab_def)
    then show ?thesis using assms(8) n(1) by linarith
  qed
  have "\<not> (p \<le> a \<and> a < p + unat (page_size c))" "\<not> (p \<le> a \<and> a < p + slabs_per_page c * sizeof_slab)"
    using assms(8) n(1) by linarith+
  moreover have "slabs_per_page (clear_mem p m ?c1) = slabs_per_page c" for m by (simp add: slabs_per_page_def clear_mem_def)
  ultimately have "slabs (slab_page p ?c1) a = Some s"
    using assms(1) by (auto simp: slab_page_def Let_def) (auto simp: clear_mem_def)
  then have a': "slabs ?c' a = Some ?s'" using pa [OF n(2)] by (simp add: upd_slab_def)
  have "\<exists>s. slabs ?c' (p + j * sizeof_slab) = Some s \<and> count s = 0" if "j < slabs_per_page c" for j
    using pg [OF that] pa [OF that] assms(4) by (auto simp: upd_slab_def no_slab_def)
  then have kids: "\<forall>j. j < slabs_per_page c \<longrightarrow> (\<exists>s. slabs ?c' (p + j * sizeof_slab) = Some s \<and> count s = 0)" by blast
  have sp: "slabs_per_page ?c' = slabs_per_page c"
    by (simp add: upd_slab_def slab_page_def clear_mem_def slabs_per_page_def Let_def)
  have kid: "vchild_loop g ?c' p (slabs_per_page ?c') = Some None" for g unfolding sp by (rule vchild_idle [OF kids])
  have "level s + 1 \<noteq> 0" using assms(3) by (metis add.commute add_eq_0_iff)
  then have nodes: "vnode_loop g q ?c' a ?s' 0 SLAB_NODES = Some None" for g
    by (intro vnode_one_child [OF kid assms(7)]) simp_all
  have "slab_verify_rec (Suc d) q ?c' a = Some None"
    by (simp only: slab_verify_rec.simps a' bind.bind_lunit nodes)
  then show ?thesis using inc by blast
qed

theorem grown_slab_verifies_nothing_witness:
  "\<exists>c'. slab_inc_rec_level \<lparr>page_size = 4096, p_mem_alloc = Some (\<lambda>n limit u. Some (0x8000, u)), p_mem_free = (\<lambda>p n u. Some u),
       p_lock = (\<lambda>h u. Some (1, u)), p_unlock = (\<lambda>h u. u), p_udata = (), p_slab = 0x4000,
       slabs = [0x4000 \<mapsto> \<lparr>osz = 64, sptr = [0x5000, 0, 0, 0, 0, 0, 0], level = 1, count = 0\<rparr>], words = (\<lambda>_. 7)\<rparr> 0x4000
      = Some (True, c') \<and> slab_verify_rec (Suc 15) 0x6000 c' 0x4000 = Some None"
  by (rule grown_slab_verifies_nothing [where p = "0x8000" and u = "()" and f = "\<lambda>n limit u. Some (0x8000, u)"
        and s = "\<lparr>osz = 64, sptr = [0x5000, 0, 0, 0, 0, 0, 0], level = 1, count = 0\<rparr>"]) simp_all

end
