(* ===== verification/Slab_Total.thy ===== *)
theory Slab_Total
  imports Slab
begin

text \<open>
  The slab allocator of core/mem/slab.cpp always returns: as long as the slabs form trees whose
  levels decrease, an allocation follows no stray pointer, never divides by 0 and nests at most
  sixteen calls, and it leaves the slabs in that shape.
\<close>

section \<open>The shape of the slabs\<close>

definition slot :: "ptr \<Rightarrow> nat \<Rightarrow> ptr" where
  "slot p j = p + j * sizeof_slab"

definition entry_slab :: "'u scxt \<Rightarrow> ptr \<Rightarrow> bool" where
  "entry_slab c a \<longleftrightarrow> (\<exists>j< slabs_per_page c. a = slot (p_slab c) j)"

text \<open>Every slot of the page at \<open>p\<close> is a slab of a level below \<open>l\<close>, and none of the slabs of the first page.\<close>

definition kids_ok :: "'u scxt \<Rightarrow> 4 word \<Rightarrow> ptr \<Rightarrow> bool" where
  "kids_ok c l p \<longleftrightarrow> (\<forall>j< slabs_per_page c. \<not> entry_slab c (slot p j) \<and> (\<exists>s. slabs c (slot p j) = Some s \<and> level s < l))"

definition slab_ok :: "'u scxt \<Rightarrow> slab_t \<Rightarrow> bool" where
  "slab_ok c s \<longleftrightarrow> length (sptr s) = SLAB_NODES \<and> (level s \<noteq> 0 \<longrightarrow> (\<forall>p\<in>set (sptr s). p \<noteq> 0 \<longrightarrow> kids_ok c (level s) p))"

text \<open>Every object a slab of level 0 can hand out lies in \<open>U\<close>.\<close>

definition objs_in :: "ptr set \<Rightarrow> 'u scxt \<Rightarrow> slab_t \<Rightarrow> bool" where
  "objs_in U c s \<longleftrightarrow> (level s = 0 \<longrightarrow> (\<forall>p\<in>set (sptr s). p \<noteq> 0 \<longrightarrow> (\<exists>m. nobjs c s = Some m \<and> (\<forall>j<m. p + j * unat (osz s) \<in> U))))"

definition shape :: "ptr set \<Rightarrow> 'u scxt \<Rightarrow> bool" where
  "shape U c \<longleftrightarrow> p_slab c \<noteq> 0 \<and> dom (slabs c) \<subseteq> U \<and> (\<forall>a. entry_slab c a \<longrightarrow> slabs c a \<noteq> None) \<and>
     (\<forall>a s. slabs c a = Some s \<longrightarrow> slab_ok c s \<and> objs_in U c s)"

text \<open>What a step keeps of the slabs that exist: their levels, and their object sizes once they are set.\<close>

definition grows :: "'u scxt \<Rightarrow> 'u scxt \<Rightarrow> bool" where
  "grows c c' \<longleftrightarrow> page_size c' = page_size c \<and> p_slab c' = p_slab c \<and>
     (\<forall>a s. slabs c a = Some s \<longrightarrow> (\<exists>s'. slabs c' a = Some s' \<and> level s' = level s \<and> (osz s \<noteq> 0 \<longrightarrow> osz s' = osz s)))"

lemma grows_refl [simp]: "grows c c"
  by (simp add: grows_def)

lemma grows_trans: "grows c c' \<Longrightarrow> grows c' c'' \<Longrightarrow> grows c c''"
  unfolding grows_def by (metis (no_types, lifting))

lemma grows_entry: "grows c c' \<Longrightarrow> entry_slab c' a = entry_slab c a"
  by (simp add: grows_def entry_slab_def slabs_per_page_def)

lemma grows_kids: "grows c c' \<Longrightarrow> kids_ok c l p \<Longrightarrow> kids_ok c' l p"
  unfolding kids_ok_def using grows_entry [of c c'] by (fastforce simp: grows_def slabs_per_page_def)

lemma objs_in_cong: "page_size c' = page_size c \<Longrightarrow> objs_in U c' s = objs_in U c s"
  by (simp add: objs_in_def nobjs_def data_pages_def)

lemma objs_in_mono: "objs_in U c s \<Longrightarrow> U \<subseteq> U' \<Longrightarrow> objs_in U' c s"
  unfolding objs_in_def by blast

lemma objs_in_upd:
  assumes "objs_in U c s" "sptr s' = sptr s" "level s' = level s" "osz s \<noteq> 0 \<longrightarrow> osz s' = osz s"
  shows "objs_in U c s'"
  using assms by (cases "osz s = 0") (auto simp: objs_in_def nobjs_def data_pages_def)

text \<open>The objects of one node start within the first page of its memory.\<close>

lemma node_objs_inside:
  assumes "page_size c \<noteq> 0" "nobjs c s = Some m" "j < m"
  shows "j * unat (osz s) < unat (page_size c)"
proof -
  have ps: "0 < unat (page_size c)" using assms(1) by (simp add: unat_gt_0)
  have o: "osz s \<noteq> 0" "m = unat ((data_pages c s * page_size c) div osz s)" using assms(2) by (auto simp: nobjs_def split: if_splits)
  then have o': "0 < unat (osz s)" by (simp add: unat_gt_0)
  show ?thesis
  proof (cases "osz s > page_size c")
    case True
    have d: "unat (osz s div page_size c) * unat (page_size c) \<le> unat (osz s)" by (simp add: unat_div)
    then have "unat (data_pages c s * page_size c) \<le> unat (osz s)"
      using True unat_u32_lt [of "osz s"] by (simp add: data_pages_def unat_word_ariths)
    then have "m \<le> 1" using o(2) o' div_le_mono [of "unat (data_pages c s * page_size c)" "unat (osz s)" "unat (osz s)"] by (simp add: unat_div)
    then have "j = 0" using assms(3) by simp
    then show ?thesis using ps by simp
  next
    case False
    then have "m = unat (page_size c) div unat (osz s)" using o(2) by (simp add: data_pages_def unat_div)
    then have "Suc j * unat (osz s) \<le> unat (page_size c)"
      using assms(3) by (metis Suc_leI div_times_less_eq_dividend mult_le_mono1 order_trans)
    then show ?thesis using o' by simp
  qed
qed

text \<open>Changing a slab without touching its pointers and level.\<close>

lemma shape_upd:
  assumes "shape U c" "\<And>s. sptr (f s) = sptr s \<and> level (f s) = level s \<and> (osz s \<noteq> 0 \<longrightarrow> osz (f s) = osz s)"
  shows "shape U (upd_slab a f c)" and "grows c (upd_slab a f c)"
proof -
  show g: "grows c (upd_slab a f c)" using assms(2) by (auto simp: grows_def upd_slab_def)
  have "slab_ok (upd_slab a f c) s \<and> objs_in U (upd_slab a f c) s" if b: "slabs (upd_slab a f c) b = Some s" for b s
  proof -
    obtain s0 where s0: "slabs c b = Some s0" "sptr s = sptr s0" "level s = level s0" "osz s0 \<noteq> 0 \<longrightarrow> osz s = osz s0"
      using b assms(2) by (auto simp: upd_slab_def split: if_splits)
    then have o: "slab_ok c s0" "objs_in U c s0" using assms(1) by (auto simp: shape_def)
    have "objs_in U (upd_slab a f c) s"
      using objs_in_upd [OF o(2) s0(2-4)] objs_in_cong [of "upd_slab a f c" c] by (simp add: upd_slab_def)
    then show ?thesis using o(1) s0 grows_kids [OF g] by (auto simp: slab_ok_def)
  qed
  then show "shape U (upd_slab a f c)"
    using assms(1) grows_entry [OF g] by (auto simp: shape_def upd_slab_def)
qed

lemma shape_words [simp]: "shape U (c\<lparr>words := w\<rparr>) = shape U c" "grows c (c\<lparr>words := w\<rparr>)"
  by (simp_all add: shape_def slab_ok_def kids_ok_def entry_slab_def slabs_per_page_def grows_def objs_in_def nobjs_def data_pages_def)

lemma shape_udata [simp]: "shape U (c\<lparr>p_udata := u\<rparr>) = shape U c" "grows c (c\<lparr>p_udata := u\<rparr>)"
  by (simp_all add: shape_def slab_ok_def kids_ok_def entry_slab_def slabs_per_page_def grows_def objs_in_def nobjs_def data_pages_def)

lemma shape_used: "shape U c \<Longrightarrow> slabs c a = Some s \<Longrightarrow> a \<in> U"
  unfolding shape_def by blast

lemma shape_mono: "shape U c \<Longrightarrow> U \<subseteq> U' \<Longrightarrow> shape U' c"
  unfolding shape_def using objs_in_mono by blast

section \<open>New pages\<close>

lemma slots_inside: "j < slabs_per_page c \<Longrightarrow> slot p j \<in> {p..<p + unat (page_size c)}"
proof -
  assume "j < slabs_per_page c"
  then have "j * sizeof_slab < slabs_per_page c * sizeof_slab" by (simp add: sizeof_slab_def)
  also have "\<dots> \<le> unat (page_size c)" by (simp add: slabs_per_page_def)
  finally show ?thesis by (simp add: slot_def)
qed

lemma slab_page_slabs:
  "slabs (slab_page p c) a = (if a \<in> {p..<p + unat (page_size c)}
     then if \<exists>j< slabs_per_page c. a = slot p j then Some no_slab else None else slabs c a)"
proof (cases "a \<in> {p..<p + unat (page_size c)}")
  case True
  have "a < p + slabs_per_page c * sizeof_slab \<and> (a - p) mod sizeof_slab = 0 \<longleftrightarrow> (\<exists>j< slabs_per_page c. a = slot p j)"
  proof
    assume l: "a < p + slabs_per_page c * sizeof_slab \<and> (a - p) mod sizeof_slab = 0"
    then have "(a - p) div sizeof_slab < slabs_per_page c" "a = slot p ((a - p) div sizeof_slab)"
      using True by (auto simp: slot_def sizeof_slab_def div_less_iff_less_mult)
    then show "\<exists>j< slabs_per_page c. a = slot p j" by blast
  qed (auto simp: slot_def sizeof_slab_def)
  then show ?thesis using True by (auto simp: slab_page_def clear_mem_def Let_def slabs_per_page_def)
next
  case False
  then have "\<not> (p \<le> a \<and> a < p + slabs_per_page c * sizeof_slab)"
    using div_times_less_eq_dividend [of "unat (page_size c)" sizeof_slab] unfolding slabs_per_page_def by fastforce
  then show ?thesis using False by (auto simp: slab_page_def clear_mem_def Let_def slabs_per_page_def)
qed

lemma slab_page_fields [simp]: "page_size (slab_page p c) = page_size c" "p_slab (slab_page p c) = p_slab c"
  "p_udata (slab_page p c) = p_udata c"
  by (simp_all add: slab_page_def clear_mem_def Let_def)

lemma no_slab_ok [simp]: "slab_ok c no_slab" "objs_in U c no_slab" "objs_in U c (no_slab\<lparr>osz := n\<rparr>)"
  by (simp_all add: slab_ok_def objs_in_def no_slab_def)

text \<open>A page apart from the memory in use becomes a page of slabs.\<close>

lemma shape_slab_page:
  assumes "shape U c" "{p..<p + unat (page_size c)} \<inter> U = {}"
  shows "shape (U \<union> {p..<p + unat (page_size c)}) (slab_page p c)" and "grows c (slab_page p c)"
    and "0 < l \<Longrightarrow> kids_ok (slab_page p c) l p"
proof -
  have d: "a \<notin> {p..<p + unat (page_size c)}" if "slabs c a = Some s" for a s
    using shape_used [OF assms(1) that] assms(2) by blast
  then have old: "slabs (slab_page p c) a = Some s" if "slabs c a = Some s" for a s
    using that d [OF that] by (auto simp: slab_page_slabs)
  then show g: "grows c (slab_page p c)" by (simp add: grows_def)
  have e: "entry_slab (slab_page p c) a = entry_slab c a" for a using grows_entry [OF g] .
  have ne: "\<not> entry_slab c a" if "a \<in> {p..<p + unat (page_size c)}" for a
    using that assms d by (fastforce simp: shape_def)
  let ?U = "U \<union> {p..<p + unat (page_size c)}"
  have "slab_ok (slab_page p c) s \<and> objs_in ?U (slab_page p c) s" if "slabs (slab_page p c) a = Some s" for a s
  proof (cases "a \<in> {p..<p + unat (page_size c)}")
    case True
    then show ?thesis using that by (auto simp: slab_page_slabs split: if_splits)
  next
    case False
    then have o: "slab_ok c s" "objs_in U c s" using that assms(1) by (auto simp: slab_page_slabs shape_def)
    have "objs_in ?U (slab_page p c) s" using objs_in_mono [OF o(2), of ?U] objs_in_cong [of "slab_page p c" c] by simp
    then show ?thesis using o(1) grows_kids [OF g] by (auto simp: slab_ok_def)
  qed
  moreover have "dom (slabs (slab_page p c)) \<subseteq> U \<union> {p..<p + unat (page_size c)}"
    using assms(1) by (auto simp: slab_page_slabs shape_def split: if_splits)
  ultimately show "shape (U \<union> {p..<p + unat (page_size c)}) (slab_page p c)"
    using assms(1) e old by (fastforce simp: shape_def)
  show "kids_ok (slab_page p c) l p" if "0 < l"
    using that ne slots_inside [of _ c p] e unfolding kids_ok_def
    by (auto simp: slab_page_slabs slabs_per_page_def no_slab_def)
qed

lemma data_page_slabs:
  assumes "shape U c" "{p..<p + n} \<inter> U = {}"
  shows "slabs (data_page p n sz m c) = slabs c"
proof
  fix a
  have "slabs c a = None" if "a \<in> {p..<p + n}" using shape_used [OF assms(1), of a] assms(2) that by (cases "slabs c a") auto
  then show "slabs (data_page p n sz m c) a = slabs c a" by (simp add: data_page_def clear_mem_def Let_def)
qed

text \<open>A node gets its page.\<close>

lemma shape_set_ptr:
  assumes "shape U c" "slabs c a = Some s" "level s \<noteq> 0 \<Longrightarrow> kids_ok c (level s) p"
    "level s = 0 \<Longrightarrow> \<exists>m. nobjs c s = Some m \<and> (\<forall>j<m. p + j * unat (osz s) \<in> U)"
  shows "shape U (upd_slab a (\<lambda>s. s\<lparr>sptr := (sptr s)[i := p]\<rparr>) c)" and "grows c (upd_slab a (\<lambda>s. s\<lparr>sptr := (sptr s)[i := p]\<rparr>) c)"
proof -
  let ?c = "upd_slab a (\<lambda>s. s\<lparr>sptr := (sptr s)[i := p]\<rparr>) c"
  show g: "grows c ?c" by (auto simp: grows_def upd_slab_def)
  have oc: "objs_in U ?c t = objs_in U c t" for t by (rule objs_in_cong) (simp add: upd_slab_def)
  have "slab_ok ?c t \<and> objs_in U ?c t" if b: "slabs ?c b = Some t" for b t
  proof (cases "b = a")
    case True
    then have t: "t = s\<lparr>sptr := (sptr s)[i := p]\<rparr>" using b assms(2) by (simp add: upd_slab_def)
    have o: "slab_ok c s" "objs_in U c s" using assms(1,2) by (simp_all add: shape_def)
    have n: "nobjs c t = nobjs c s" using t by (simp add: nobjs_def data_pages_def)
    have "objs_in U c t"
      using t o(2) assms(4) set_update_subset_insert [of "sptr s" i p] unfolding objs_in_def n by auto
    then show ?thesis using t o(1) oc assms(3) grows_kids [OF g] set_update_subset_insert [of "sptr s" i p] by (auto simp: slab_ok_def)
  next
    case False
    then have "slab_ok c t" "objs_in U c t" using b assms(1) by (auto simp: upd_slab_def shape_def)
    then show ?thesis using grows_kids [OF g] oc by (auto simp: slab_ok_def)
  qed
  then show "shape U ?c" using assms(1) grows_entry [OF g] by (auto simp: shape_def upd_slab_def)
qed

lemma shape_data_page:
  assumes "shape U c" "{p..<p + n} \<inter> U = {}"
  shows "shape U (data_page p n sz m c)" and "grows c (data_page p n sz m c)"
proof -
  have f: "slabs (data_page p n sz m c) = slabs c" "p_slab (data_page p n sz m c) = p_slab c" "page_size (data_page p n sz m c) = page_size c"
    using data_page_slabs [OF assms] by (simp_all add: data_page_def clear_mem_def Let_def)
  then show "shape U (data_page p n sz m c)" "grows c (data_page p n sz m c)"
    using assms(1) objs_in_cong [of "data_page p n sz m c" c]
    by (simp_all add: shape_def slab_ok_def kids_ok_def entry_slab_def slabs_per_page_def grows_def)
qed

section \<open>A source of pages that always answers\<close>

locale total_source = page_source +
  assumes palloc_total: "pinv ps u \<Longrightarrow> n \<noteq> 0 \<Longrightarrow> n \<le> max 1 (- 1 div ps) \<Longrightarrow> \<exists>p u'. palloc n limit u = Some (p, u')"
    and palloc_used: "pinv ps u \<Longrightarrow> n \<noteq> 0 \<Longrightarrow> n \<le> max 1 (- 1 div ps) \<Longrightarrow> palloc n limit u = Some (p, u') \<Longrightarrow> p \<noteq> 0 \<Longrightarrow>
      {p..<p + unat (n * ps)} \<subseteq> pused u'"
begin

definition tree_ok :: "'a scxt \<Rightarrow> bool" where
  "tree_ok c \<longleftrightarrow> live_ok {} c \<and> shape (pused (p_udata c)) c"

definition steps :: "'a scxt \<Rightarrow> 'a scxt \<Rightarrow> bool" where
  "steps c c' \<longleftrightarrow> tree_ok c' \<and> grows c c'"

text \<open>The objects of the node of \<open>s\<close> at \<open>p\<close> lie in pages in use; so does what an allocation returns.\<close>

definition node_in :: "'a scxt \<Rightarrow> slab_t \<Rightarrow> ptr \<Rightarrow> bool" where
  "node_in c s p \<longleftrightarrow> (\<forall>m j. nobjs c s = Some m \<longrightarrow> j < m \<longrightarrow> p + j * unat (osz s) \<in> pused (p_udata c))"

definition in_pages :: "'a scxt \<Rightarrow> ptr \<Rightarrow> bool" where
  "in_pages c r \<longleftrightarrow> r = 0 \<or> r \<in> pused (p_udata c)"

lemma in_pages_0 [simp]: "in_pages c 0"
  by (simp add: in_pages_def)

lemma steps_refl: "tree_ok c \<Longrightarrow> steps c c"
  by (simp add: steps_def)

lemma steps_trans: "steps c c' \<Longrightarrow> steps c' c'' \<Longrightarrow> steps c c''"
  unfolding steps_def using grows_trans by blast

lemma steps_upd:
  assumes "tree_ok c" "\<And>s. sptr (f s) = sptr s \<and> level (f s) = level s \<and> (osz s \<noteq> 0 \<longrightarrow> osz (f s) = osz s)"
  shows "steps c (upd_slab a f c)"
  using assms(1) shape_upd [OF _ assms(2), where c = c] by (auto simp: steps_def tree_ok_def live_ok_def upd_slab_def)

lemma steps_words: "tree_ok c \<Longrightarrow> steps c (c\<lparr>words := w\<rparr>)"
  by (simp add: steps_def tree_ok_def live_ok_def)

lemma steps_slab:
  assumes "steps c c'" "slabs c a = Some s"
  obtains s' where "slabs c' a = Some s'" "level s' = level s" "osz s \<noteq> 0 \<Longrightarrow> osz s' = osz s"
  using assms unfolding steps_def grows_def by blast

lemma get_pages_total:
  assumes "tree_ok c" "n \<noteq> 0" "n \<le> max 1 (- 1 div page_size c)"
  obtains p c' where "get_pages c n limit = Some (p, c')" "steps c c'" "page_size c' = page_size c" "slabs c' = slabs c"
    "p \<noteq> 0 \<Longrightarrow> \<exists>U. shape U c' \<and> {p..<p + unat (n * page_size c)} \<inter> U = {} \<and> U \<union> {p..<p + unat (n * page_size c)} \<subseteq> pused (p_udata c')"
proof -
  have pc: "pinv (page_size c) (p_udata c)" "p_mem_alloc c = Some palloc" "shape (pused (p_udata c)) c"
    using assms(1) by (auto simp: tree_ok_def live_ok_def)
  obtain p u where pu: "palloc n limit (p_udata c) = Some (p, u)" using palloc_total [OF pc(1) assms(2,3)] by blast
  note f = palloc_fresh [OF pc(1) assms(2,3) pu]
  have g: "get_pages c n limit = Some (p, c\<lparr>p_udata := u\<rparr>)" using pc(2) pu by (simp add: get_pages_def)
  have "shape (pused u) c" using shape_mono [OF pc(3)] f by blast
  then have "steps c (c\<lparr>p_udata := u\<rparr>)" using assms(1) f by (simp add: steps_def tree_ok_def live_ok_def)
  moreover have "\<exists>U. shape U (c\<lparr>p_udata := u\<rparr>) \<and> {p..<p + unat (n * page_size c)} \<inter> U = {} \<and>
      U \<union> {p..<p + unat (n * page_size c)} \<subseteq> pused u" if "p \<noteq> 0"
    using that f palloc_used [OF pc(1) assms(2,3) pu that] pc(3) by (intro exI [of _ "pused (p_udata c)"]) simp
  ultimately show thesis using that g by simp
qed

text \<open>A page of slabs from the source.\<close>

lemma slab_page_total:
  assumes "tree_ok c"
  obtains p c' where "get_pages c 1 limit = Some (p, c')" "steps c c'"
    "p \<noteq> 0 \<Longrightarrow> steps c (slab_page p c') \<and> (\<forall>l>0. kids_ok (slab_page p c') l p) \<and> (\<forall>b\<in>dom (slabs c). b \<notin> {p..<p + unat (page_size c)}) \<and>
      {p..<p + unat (page_size c)} \<subseteq> pused (p_udata (slab_page p c'))"
proof -
  obtain p c' where g: "get_pages c 1 limit = Some (p, c')" "steps c c'" "page_size c' = page_size c" "slabs c' = slabs c"
    "p \<noteq> 0 \<Longrightarrow> \<exists>U. shape U c' \<and> {p..<p + unat (1 * page_size c)} \<inter> U = {} \<and> U \<union> {p..<p + unat (1 * page_size c)} \<subseteq> pused (p_udata c')"
    using get_pages_total [OF assms, of 1 limit] by auto
  have "steps c (slab_page p c') \<and> (\<forall>l>0. kids_ok (slab_page p c') l p) \<and> (\<forall>b\<in>dom (slabs c). b \<notin> {p..<p + unat (page_size c)}) \<and>
      {p..<p + unat (page_size c)} \<subseteq> pused (p_udata (slab_page p c'))" if nz: "p \<noteq> 0"
  proof -
    obtain U where U: "shape U c'" "{p..<p + unat (page_size c')} \<inter> U = {}" "U \<union> {p..<p + unat (page_size c')} \<subseteq> pused (p_udata c')"
      using g(3,5) nz by auto
    note sp = shape_slab_page [OF U(1,2)]
    have "live_ok {} (slab_page p c')" using g(2) by (simp add: steps_def tree_ok_def live_ok_def slab_page_def clear_mem_def Let_def)
    then have "steps c' (slab_page p c')" using shape_mono [OF sp(1) U(3)] sp(2) by (simp add: steps_def tree_ok_def)
    moreover have "\<forall>b\<in>dom (slabs c). b \<notin> {p..<p + unat (page_size c)}"
      using shape_used [OF U(1)] U(2) g(3,4) by fastforce
    moreover have "{p..<p + unat (page_size c)} \<subseteq> pused (p_udata (slab_page p c'))" using U(3) g(3) by simp
    ultimately show ?thesis using sp(3) steps_trans [OF g(2)] by blast
  qed
  then show thesis using that g(1,2) by blast
qed

text \<open>The steps of an allocation.\<close>

lemma node_page_total:
  assumes "tree_ok c" "slabs c a = Some s" "osz s \<noteq> 0"
  obtains p c' where "node_page c a s i limit = Some (p, c')" "steps c c'" "p \<noteq> 0 \<Longrightarrow> level s \<noteq> 0 \<Longrightarrow> kids_ok c' (level s) p"
    "p \<noteq> 0 \<Longrightarrow> level s = 0 \<Longrightarrow> node_in c' s p"
proof (cases "level s = 0")
  case True
  let ?n = "data_pages c s"
  have ps: "page_size c \<noteq> 0" using assms(1) by (simp add: tree_ok_def live_ok_def)
  obtain p c1 where g: "get_pages c ?n limit = Some (p, c1)" "steps c c1" "page_size c1 = page_size c" "slabs c1 = slabs c"
    "p \<noteq> 0 \<Longrightarrow> \<exists>U. shape U c1 \<and> {p..<p + unat (?n * page_size c)} \<inter> U = {} \<and> U \<union> {p..<p + unat (?n * page_size c)} \<subseteq> pused (p_udata c1)"
    using get_pages_total [OF assms(1) data_pages_ok(1,2) [OF ps, of s], of limit] by auto
  obtain m where m: "nobjs c1 s = Some m" using assms(3) by (simp add: nobjs_def)
  show thesis
  proof (cases "p = 0")
    case True
    then have "node_page c a s i limit = Some (0, c1)" using g(1) \<open>level s = 0\<close> by (simp add: node_page_def Let_def)
    then show thesis using that g(2) by auto
  next
    case False
    let ?c2 = "data_page p (unat (?n * page_size c1)) (unat (osz s)) m c1"
    let ?c3 = "upd_slab a (\<lambda>s. s\<lparr>sptr := (sptr s)[i := p]\<rparr>) ?c2"
    obtain U where U: "shape U c1" "{p..<p + unat (?n * page_size c1)} \<inter> U = {}" "U \<union> {p..<p + unat (?n * page_size c)} \<subseteq> pused (p_udata c1)"
      using g(3,5) False by auto
    note d = shape_data_page [OF U(1,2), of "unat (osz s)" m]
    let ?U = "U \<union> {p..<p + unat (?n * page_size c)}"
    have sl: "slabs ?c2 a = Some s" using data_page_slabs [OF U(1,2)] g(4) assms(2) by simp
    have n2: "nobjs c s = Some m" "nobjs ?c2 s = Some m"
      using m g(3) nobjs_cong [of c c1] nobjs_cong [of ?c2 c1] by (simp_all add: data_page_def clear_mem_def Let_def)
    have ob: "p + j * unat (osz s) \<in> ?U" if "j < m" for j using data_pages_ok(3) [OF ps n2(1) that] by simp
    have d1: "shape ?U ?c2" by (rule shape_mono [OF d(1)]) blast
    have "\<exists>m. nobjs ?c2 s = Some m \<and> (\<forall>j<m. p + j * unat (osz s) \<in> ?U)" using n2(2) ob by blast
    note e = shape_set_ptr [OF d1 sl, of p i, OF _ this]
    have "live_ok {} ?c3" using g(2) by (simp add: steps_def tree_ok_def live_ok_def data_page_def clear_mem_def upd_slab_def Let_def)
    moreover have "p_udata ?c3 = p_udata c1" by (simp add: data_page_def clear_mem_def upd_slab_def Let_def)
    ultimately have "steps c1 ?c3" using e U(3) True shape_mono [of ?U ?c3 "pused (p_udata c1)"] grows_trans [OF d(2)]
      by (simp add: steps_def tree_ok_def)
    moreover have "node_in ?c3 s p"
    proof -
      have "nobjs ?c3 s = Some m" using n2(2) nobjs_cong [of ?c3 ?c2] by (simp add: upd_slab_def)
      moreover have "p_udata ?c3 = p_udata c1" by (simp add: data_page_def clear_mem_def upd_slab_def Let_def)
      moreover have "p + j * unat (osz s) \<in> pused (p_udata c1)" if "j < m" for j using ob [OF that] U(3) by blast
      ultimately show ?thesis by (simp add: node_in_def)
    qed
    moreover have "node_page c a s i limit = Some (p, ?c3)" using g(1) True False m by (simp add: node_page_def Let_def)
    ultimately show thesis using that True steps_trans [OF g(2)] by auto
  qed
next
  case False
  obtain p c1 where g: "get_pages c 1 DEFAULT_SLAB_LIMIT = Some (p, c1)" "steps c c1"
    "p \<noteq> 0 \<Longrightarrow> steps c (slab_page p c1) \<and> (\<forall>l>0. kids_ok (slab_page p c1) l p) \<and> (\<forall>b\<in>dom (slabs c). b \<notin> {p..<p + unat (page_size c)}) \<and>
      {p..<p + unat (page_size c)} \<subseteq> pused (p_udata (slab_page p c1))"
    using slab_page_total [OF assms(1), of DEFAULT_SLAB_LIMIT] by blast
  show thesis
  proof (cases "p = 0")
    case True
    then have "node_page c a s i limit = Some (0, c1)" using g(1) False by (simp add: node_page_def Let_def)
    then show thesis using that g(2) by blast
  next
    case nz: False
    let ?c2 = "slab_page p c1"
    let ?c3 = "upd_slab a (\<lambda>s. s\<lparr>sptr := (sptr s)[i := p]\<rparr>) ?c2"
    have st: "steps c ?c2" "kids_ok ?c2 (level s) p" using g(3) nz False word_neq_0_conv by blast+
    obtain s' where s': "slabs ?c2 a = Some s'" "level s' = level s" using steps_slab [OF st(1) assms(2)] by blast
    have sh: "shape (pused (p_udata ?c2)) ?c2" using st(1) by (simp add: steps_def tree_ok_def)
    have "level s' \<noteq> 0" using s'(2) False by simp
    note e = shape_set_ptr [OF sh s'(1), of p i, OF _ notE [OF this]]
    have "steps ?c2 ?c3" using e st(1,2) s'(2) by (simp add: steps_def tree_ok_def live_ok_def upd_slab_def)
    moreover have "kids_ok ?c3 (level s) p" using grows_kids [OF e(2) st(2)] st(2) s'(2) by simp
    moreover have "node_page c a s i limit = Some (p, ?c3)" using g(1) False nz by (simp add: node_page_def Let_def)
    ultimately show thesis using that False steps_trans [OF st(1)] by blast
  qed
qed

lemma free_loop_inside:
  assumes "free_loop w p sz j n r0 = (q, r)" "r0 = 0 \<or> r0 \<in> A" "\<And>i. i < n \<Longrightarrow> p + (j + i) * sz \<in> A"
  shows "(q = 0 \<or> q \<in> A) \<and> (r = 0 \<or> r \<in> A)"
  using assms
proof (induction n arbitrary: j r0)
  case (Suc n)
  have "p + j * sz \<in> A" using Suc.prems(3) [of 0] by simp
  moreover have "p + (Suc j + i) * sz \<in> A" if "i < n" for i using Suc.prems(3) [of "Suc i"] that by simp
  ultimately show ?case using Suc.IH [of "Suc j"] Suc.prems(1,2) by (auto simp: Let_def split: if_splits)
qed simp

lemma take_object_total:
  assumes "tree_ok c" "osz s \<noteq> 0" "node_in c s p"
  obtains r c' where "take_object c a s p = Some (r, c')" "steps c c'" "in_pages c' r"
proof -
  obtain m where m: "nobjs c s = Some m" using assms(2) by (simp add: nobjs_def)
  obtain q rp where f: "free_loop (words c) p (unat (osz s)) 0 m 0 = (q, rp)" by (metis surj_pair)
  let ?r = "if q \<noteq> 0 then q else rp"
  let ?c = "c\<lparr>words := (words c)(?r := 0)\<rparr>"
  have "steps c (upd_slab a (\<lambda>s. s\<lparr>count := count s + 1\<rparr>) ?c)"
    using steps_trans [OF steps_words [OF assms(1)] steps_upd] steps_words [OF assms(1)] by (simp add: steps_def)
  moreover have "take_object c a s p = Some (?r, if ?r \<noteq> 0 then upd_slab a (\<lambda>s. s\<lparr>count := count s + 1\<rparr>) ?c else c)"
    using m f by (simp add: take_object_def Let_def)
  moreover have "in_pages c ?r"
    using free_loop_inside [OF f, of "pused (p_udata c)"] assms(3) m by (auto simp: in_pages_def node_in_def)
  then have "in_pages (upd_slab a (\<lambda>s. s\<lparr>count := count s + 1\<rparr>) ?c) ?r" by (simp add: in_pages_def upd_slab_def)
  ultimately show thesis using that steps_refl [OF assms(1)] \<open>in_pages c ?r\<close> by presburger
qed

lemma child_loop_total:
  assumes f: "\<And>c a s. tree_ok c \<Longrightarrow> slabs c a = Some s \<Longrightarrow> unat (level s) < d \<Longrightarrow> osz s \<noteq> 0 \<Longrightarrow> \<exists>r c'. f c a = Some (r, c') \<and> steps c c' \<and> in_pages c' r"
    and "sz \<noteq> 0"
  shows "tree_ok c \<Longrightarrow> \<forall>j<n. \<exists>s. slabs c (slot ps j) = Some s \<and> unat (level s) < d \<Longrightarrow>
    \<exists>r c'. child_loop f sz c ps n = Some (r, c') \<and> steps c c' \<and> in_pages c' r"
proof (induction n arbitrary: c ps)
  case 0
  then show ?case using steps_refl by simp
next
  case (Suc n)
  obtain s where s: "slabs c ps = Some s" "unat (level s) < d" using Suc.prems(2) by (force simp: slot_def)
  let ?c = "if osz s = 0 then upd_slab ps (\<lambda>s. s\<lparr>osz := sz\<rparr>) c else c"
  have rest: "\<forall>j<n. \<exists>s. slabs c' (slot (ps + sizeof_slab) j) = Some s \<and> unat (level s) < d" if st: "steps c c'" for c'
  proof (intro allI impI)
    fix j assume "j < n"
    then obtain t where t: "slabs c (slot ps (Suc j)) = Some t" "unat (level t) < d" using Suc.prems(2) by blast
    then show "\<exists>s. slabs c' (slot (ps + sizeof_slab) j) = Some s \<and> unat (level s) < d"
      using steps_slab [OF st t(1)] by (metis add.assoc mult_Suc slot_def)
  qed
  have "steps c (upd_slab ps (\<lambda>s. s\<lparr>osz := sz\<rparr>) c)" if "osz s = 0"
  proof -
    have "upd_slab ps (\<lambda>s. s\<lparr>osz := sz\<rparr>) c = upd_slab ps (\<lambda>s. if osz s = 0 then s\<lparr>osz := sz\<rparr> else s) c"
      using s(1) that by (simp add: upd_slab_def)
    then show ?thesis using steps_upd [OF Suc.prems(1), of "\<lambda>s. if osz s = 0 then s\<lparr>osz := sz\<rparr> else s" ps] by simp
  qed
  then have k: "steps c ?c" using steps_refl [OF Suc.prems(1)] by simp
  then have ok: "tree_ok ?c" by (simp add: steps_def)
  show ?case
  proof (cases "osz s = 0 \<or> osz s = sz")
    case True
    then have "\<exists>s'. slabs ?c ps = Some s' \<and> level s' = level s \<and> osz s' \<noteq> 0" using s(1) assms(2) by (auto simp: upd_slab_def)
    then obtain q c1 where q: "f ?c ps = Some (q, c1)" "steps ?c c1" "in_pages c1 q" using f [OF ok] s(2) by metis
    have k1: "steps c c1" using steps_trans [OF k q(2)] .
    obtain r c2 where "child_loop f sz c1 (ps + sizeof_slab) n = Some (r, c2)" "steps c1 c2" "in_pages c2 r"
      using Suc.IH [OF _ rest [OF k1]] k1 by (auto simp: steps_def)
    then show ?thesis using s(1) True q(1,3) k1 steps_trans [OF k1] by (cases "q = 0") auto
  next
    case False
    obtain r c2 where "child_loop f sz ?c (ps + sizeof_slab) n = Some (r, c2)" "steps ?c c2" "in_pages c2 r"
      using Suc.IH [OF ok rest [OF k]] by auto
    then show ?thesis using s(1) False steps_trans [OF k] by auto
  qed
qed

lemma kids_below:
  assumes "kids_ok c l p" "unat l < Suc d"
  shows "\<forall>j < slabs_per_page c. \<exists>s. slabs c (slot p j) = Some s \<and> unat (level s) < d"
proof (intro allI impI)
  fix j assume "j < slabs_per_page c"
  then obtain s where "slabs c (slot p j) = Some s" "level s < l" using assms(1) by (auto simp: kids_ok_def)
  then show "\<exists>s. slabs c (slot p j) = Some s \<and> unat (level s) < d" using assms(2) by (auto simp: word_less_nat_alt)
qed

lemma node_loop_total:
  assumes f: "\<And>c a s. tree_ok c \<Longrightarrow> slabs c a = Some s \<Longrightarrow> unat (level s) < d \<Longrightarrow> osz s \<noteq> 0 \<Longrightarrow> \<exists>r c'. f c a = Some (r, c') \<and> steps c c' \<and> in_pages c' r"
    and sz: "sz \<noteq> 0"
  shows "tree_ok c \<Longrightarrow> slabs c a = Some s \<Longrightarrow> unat (level s) < Suc d \<Longrightarrow> osz s \<noteq> 0 \<Longrightarrow> i + n \<le> SLAB_NODES \<Longrightarrow>
    \<exists>r c'. node_loop f sz limit c a i n = Some (r, c') \<and> steps c c' \<and> in_pages c' r"
proof (induction n arbitrary: c s i)
  case 0
  then show ?case using steps_refl by simp
next
  case (Suc n)
  have so: "slab_ok c s" using Suc.prems(1,2) by (simp add: tree_ok_def shape_def)
  then have i: "sptr s ! i \<in> set (sptr s)" using Suc.prems(5) by (simp add: slab_ok_def)
  have "\<exists>p c1. (if sptr s ! i \<noteq> 0 then Some (sptr s ! i, c) else node_page c a s i limit) = Some (p, c1) \<and> steps c c1 \<and>
      (p \<noteq> 0 \<longrightarrow> level s \<noteq> 0 \<longrightarrow> kids_ok c1 (level s) p) \<and> (p \<noteq> 0 \<longrightarrow> level s = 0 \<longrightarrow> node_in c1 s p)"
  proof (cases "sptr s ! i \<noteq> 0")
    case True
    have "objs_in (pused (p_udata c)) c s" using Suc.prems(1,2) by (simp add: tree_ok_def shape_def)
    then have "level s = 0 \<longrightarrow> node_in c s (sptr s ! i)" using True i by (force simp: objs_in_def node_in_def)
    then show ?thesis using True so i steps_refl [OF Suc.prems(1)] by (auto simp: slab_ok_def)
  next
    case False
    obtain p c1 where "node_page c a s i limit = Some (p, c1)" "steps c c1" "p \<noteq> 0 \<Longrightarrow> level s \<noteq> 0 \<Longrightarrow> kids_ok c1 (level s) p"
      "p \<noteq> 0 \<Longrightarrow> level s = 0 \<Longrightarrow> node_in c1 s p"
      using node_page_total [OF Suc.prems(1,2,4), of i limit] by blast
    then show ?thesis using False by auto
  qed
  then obtain p c1 where p: "(if sptr s ! i \<noteq> 0 then Some (sptr s ! i, c) else node_page c a s i limit) = Some (p, c1)" "steps c c1"
    "p \<noteq> 0 \<longrightarrow> level s \<noteq> 0 \<longrightarrow> kids_ok c1 (level s) p" "p \<noteq> 0 \<longrightarrow> level s = 0 \<longrightarrow> node_in c1 s p" by blast
  have ok1: "tree_ok c1" using p(2) by (simp add: steps_def)
  show ?case
  proof (cases "p = 0")
    case True
    then show ?thesis using Suc.prems(2) p by auto
  next
    case False
    let ?r = "if level s \<noteq> 0 then child_loop f sz c1 p (slabs_per_page c1)
        else if p + unat sz < unat limit then take_object c1 a s p else Some (0, c1)"
    have "\<exists>q c2. ?r = Some (q, c2) \<and> steps c1 c2 \<and> in_pages c2 q"
    proof (cases "level s = 0")
      case True
      then have "node_in c1 s p" using p(4) False by blast
      then obtain q c2 where "take_object c1 a s p = Some (q, c2)" "steps c1 c2" "in_pages c2 q"
        using take_object_total [OF ok1 Suc.prems(4), of p a] by blast
      then show ?thesis using True steps_refl [OF ok1] by auto
    next
      case lv: False
      then have "kids_ok c1 (level s) p" using p(3) False by blast
      then show ?thesis using child_loop_total [OF f sz ok1 kids_below [OF _ Suc.prems(3)]] lv by simp
    qed
    then obtain q c2 where q: "?r = Some (q, c2)" "steps c1 c2" "in_pages c2 q" by blast
    have k: "steps c c2" using steps_trans [OF p(2) q(2)] .
    then obtain s2 where s2: "slabs c2 a = Some s2" "level s2 = level s" "osz s2 = osz s" using steps_slab [OF k Suc.prems(2)] Suc.prems(4) by metis
    obtain r c3 where "node_loop f sz limit c2 a (i + 1) n = Some (r, c3)" "steps c2 c3" "in_pages c3 r"
      using Suc.IH [OF _ s2(1), of "i + 1"] s2 Suc.prems(3-5) k by (auto simp: steps_def)
    then have "\<exists>r c'. (if q \<noteq> 0 then Some (q, c2) else node_loop f sz limit c2 a (i + 1) n) = Some (r, c') \<and> steps c c' \<and> in_pages c' r"
      using k q(3) steps_trans [OF k] by (cases "q = 0") auto
    moreover have "node_loop f sz limit c a i (Suc n) = (if q \<noteq> 0 then Some (q, c2) else node_loop f sz limit c2 a (i + 1) n)"
      using Suc.prems(2) p(1) q(1) False by simp
    ultimately show ?thesis by simp
  qed
qed

lemma alloc_rec_total:
  assumes "sz \<noteq> 0"
  shows "tree_ok c \<Longrightarrow> slabs c a = Some s \<Longrightarrow> unat (level s) < d \<Longrightarrow> osz s \<noteq> 0 \<Longrightarrow>
    \<exists>r c'. slab_alloc_rec d sz limit c a = Some (r, c') \<and> steps c c' \<and> in_pages c' r"
proof (induction d arbitrary: c a s)
  case (Suc d)
  have "\<exists>r c'. node_loop (slab_alloc_rec d sz limit) sz limit c a 0 SLAB_NODES = Some (r, c') \<and> steps c c' \<and> in_pages c' r"
    using Suc by (intro node_loop_total [OF _ assms]) auto
  then show ?case by simp
qed simp

lemma max_level: "unat (l :: 4 word) < MAX_LEVELS"
  using unsigned_less [of l] by (simp add: MAX_LEVELS_def)

text \<open>A slab of the first page grows by a level.\<close>

lemma level_inc: "l + 1 \<noteq> 0 \<Longrightarrow> l < l + (1 :: 4 word)" "l + 1 \<noteq> 0 \<Longrightarrow> m < 1 \<Longrightarrow> m < l + (1 :: 4 word)"
proof -
  assume "l + 1 \<noteq> 0"
  then have u: "unat (l + 1) = Suc (unat l)" using unatSuc [of l] by (simp add: add.commute)
  then show "l < l + 1" by (simp add: word_less_nat_alt)
  show "m < l + 1" if "m < 1" using that u by (simp add: word_less_nat_alt)
qed

lemma shape_grown:
  assumes sh: "shape U c" and kp: "kids_ok c 1 p" and a: "entry_slab c a" "slabs c a = Some s" and p: "slabs c p = Some no_slab" "p \<noteq> 0"
    and old: "\<And>b t q j. slabs c b = Some t \<Longrightarrow> level t \<noteq> 0 \<Longrightarrow> q \<in> set (sptr t) \<Longrightarrow> q \<noteq> 0 \<Longrightarrow> j < slabs_per_page c \<Longrightarrow> slot q j \<noteq> p"
    and pg: "{p..<p + unat (page_size c)} \<subseteq> U" "page_size c \<noteq> 0" "osz s \<noteq> 0"
  defines "c' \<equiv> upd_slab a (\<lambda>s. s\<lparr>sptr := (replicate SLAB_NODES 0)[0 := p], level := level s + 1, count := 0\<rparr>) (upd_slab p (\<lambda>_. s) c)"
  shows "shape U c'"
proof -
  have e: "entry_slab c' b = entry_slab c b" for b by (simp add: c'_def entry_slab_def upd_slab_def slabs_per_page_def)
  have sp: "slabs_per_page c' = slabs_per_page c" by (simp add: c'_def upd_slab_def slabs_per_page_def)
  have "0 < slabs_per_page c" using a(1) by (auto simp: entry_slab_def)
  then have "\<not> entry_slab c p" using kp by (force simp: kids_ok_def slot_def)
  then have pa: "p \<noteq> a" using a(1) by blast
  let ?s = "s\<lparr>sptr := (replicate SLAB_NODES 0)[0 := p], level := level s + 1, count := 0\<rparr>"
  have sl: "slabs c' b = (if b = a then Some ?s else if b = p then Some s else slabs c b)" for b
    using a(2) p(1) pa by (simp add: c'_def upd_slab_def)
  have kids: "kids_ok c' l q" if k: "kids_ok c l q" and l: "\<And>j. j < slabs_per_page c \<Longrightarrow> slot q j = p \<Longrightarrow> level s < l" for l q
    unfolding kids_ok_def sp e
  proof (intro allI impI conjI)
    fix j assume j: "j < slabs_per_page c"
    then show n: "\<not> entry_slab c (slot q j)" using k by (simp add: kids_ok_def)
    then have "slot q j \<noteq> a" using a(1) by blast
    then show "\<exists>s. slabs c' (slot q j) = Some s \<and> level s < l" using k l j by (auto simp: kids_ok_def sl)
  qed
  have keep: "slab_ok c' t" if t: "slabs c b = Some t" for b t
    using sh t kids old [OF t] unfolding shape_def slab_ok_def by (metis)
  have "kids_ok c (level s + 1) p" if "level s + 1 \<noteq> 0"
    using kp level_inc(2) [OF that] unfolding kids_ok_def by blast
  then have "kids_ok c' (level s + 1) p" if "level s + 1 \<noteq> 0" using kids level_inc(1) [OF that] that by blast
  then have "slab_ok c' ?s" by (auto simp: slab_ok_def SLAB_NODES_def dest!: subsetD [OF set_update_subset_insert])
  moreover have oc: "objs_in U c' t = objs_in U c t" for t by (rule objs_in_cong) (simp add: c'_def upd_slab_def)
  moreover have "objs_in U c ?s"
  proof -
    obtain m where m: "nobjs c ?s = Some m" using pg(3) by (simp add: nobjs_def)
    have "p + j * unat (osz s) \<in> U" if "j < m" for j using node_objs_inside [OF pg(2) m that] pg(1) by auto
    then show ?thesis using m by (auto simp: objs_in_def SLAB_NODES_def dest!: subsetD [OF set_update_subset_insert])
  qed
  moreover have "objs_in U c t" if "slabs c b = Some t" for b t using sh that by (simp add: shape_def)
  ultimately have "slab_ok c' t \<and> objs_in U c' t" if "slabs c' b = Some t" for b t
    using that keep a(2) by (auto simp: sl split: if_splits)
  moreover have "dom (slabs c') \<subseteq> U" using sh a(2) p(1) shape_used [OF sh] by (auto simp: sl split: if_splits)
  moreover have "p_slab c' = p_slab c" by (simp add: c'_def upd_slab_def)
  moreover have "\<forall>b. entry_slab c' b \<longrightarrow> slabs c' b \<noteq> None" using sh e by (auto simp: shape_def sl)
  ultimately show ?thesis using sh unfolding shape_def by metis
qed

lemma inc_rec_level_total:
  assumes "tree_ok c" "entry_slab c a" "slabs c a = Some s" "osz s \<noteq> 0"
  obtains ok c' s' where "slab_inc_rec_level c a = Some (ok, c')" "tree_ok c'" "slabs c' a = Some s'" "osz s' = osz s" "page_size c' = page_size c"
    "entry_slab c' a"
proof -
  obtain p c1 where g: "get_pages c 1 DEFAULT_SLAB_LIMIT = Some (p, c1)" "steps c c1"
    "p \<noteq> 0 \<Longrightarrow> steps c (slab_page p c1) \<and> (\<forall>l>0. kids_ok (slab_page p c1) l p) \<and> (\<forall>b\<in>dom (slabs c). b \<notin> {p..<p + unat (page_size c)}) \<and>
      {p..<p + unat (page_size c)} \<subseteq> pused (p_udata (slab_page p c1))"
    using slab_page_total [OF assms(1), of DEFAULT_SLAB_LIMIT] by blast
  have s1: "slabs c1 = slabs c" "page_size c1 = page_size c" "p_slab c1 = p_slab c"
    using g(1) by (auto simp: get_pages_def bind_eq_Some_conv)
  show thesis
  proof (cases "p = 0")
    case True
    then have "slab_inc_rec_level c a = Some (False, c1)" using g(1) by (simp add: slab_inc_rec_level_def)
    then show thesis using that [of False c1 s] g(2) s1 assms(2,3) by (simp add: steps_def entry_slab_def slabs_per_page_def)
  next
    case False
    let ?c2 = "slab_page p c1"
    let ?c3 = "upd_slab a (\<lambda>s. s\<lparr>sptr := (replicate SLAB_NODES 0)[0 := p], level := level s + 1, count := 0\<rparr>) (upd_slab p (\<lambda>_. s) ?c2)"
    have st: "tree_ok ?c2" "grows c ?c2" "kids_ok ?c2 1 p" using g(3) False by (simp_all add: steps_def)
    have dj: "b \<notin> {p..<p + unat (page_size c1)}" if "slabs c b = Some t" for b t
      using g(3) False that s1(2) by (metis domI)
    have sh: "shape (pused (p_udata ?c2)) ?c2" using st(1) by (simp add: tree_ok_def)
    have e2: "entry_slab ?c2 a" using grows_entry [OF st(2)] assms(2) by simp
    have spp: "slabs_per_page ?c2 = slabs_per_page c" "slabs_per_page c1 = slabs_per_page c" using s1 by (simp_all add: slabs_per_page_def)
    have sp0: "0 < slabs_per_page c" using assms(2) by (auto simp: entry_slab_def)
    then have pin: "p \<in> {p..<p + unat (page_size c1)}" using slots_inside [of 0 c1 p] spp(2) by (simp add: slot_def)
    have p2: "slabs ?c2 p = Some no_slab" using pin sp0 spp(2) by (auto simp: slab_page_slabs slot_def intro!: exI [of _ 0])
    have a2: "slabs ?c2 a = Some s" using dj [OF assms(3)] assms(3) s1(1) by (auto simp: slab_page_slabs)
    have new: "slabs c b = Some t \<or> t = no_slab" if "slabs ?c2 b = Some t" for b t
      using that s1(1) by (auto simp: slab_page_slabs split: if_splits)
    have old: "slot q j \<noteq> p" if b: "slabs ?c2 b = Some t" "level t \<noteq> 0" "q \<in> set (sptr t)" "q \<noteq> 0" "j < slabs_per_page ?c2" for b t q j
    proof -
      have "slabs c b = Some t" using new [OF b(1)] b(2) by (auto simp: no_slab_def)
      then have "kids_ok c (level t) q" using assms(1) b(2-4) by (auto simp: tree_ok_def shape_def slab_ok_def)
      then obtain u where "slabs c (slot q j) = Some u" using b(5) spp(1) by (auto simp: kids_ok_def)
      then show ?thesis using dj pin by blast
    qed
    have pg: "{p..<p + unat (page_size ?c2)} \<subseteq> pused (p_udata ?c2)" "page_size ?c2 \<noteq> 0"
      using g(3) False s1(2) st(1) by (simp_all add: tree_ok_def live_ok_def)
    have sh3: "shape (pused (p_udata ?c2)) ?c3" by (rule shape_grown [OF sh st(3) e2 a2 p2 False old pg assms(4)])
    have "live_ok {} ?c3" using st(1) by (simp add: tree_ok_def live_ok_def upd_slab_def)
    then have "tree_ok ?c3" using sh3 by (simp add: tree_ok_def) (simp add: upd_slab_def)
    moreover have "slab_inc_rec_level c a = Some (True, ?c3)" using g(1) False assms(3) s1(1) by (simp add: slab_inc_rec_level_def Let_def)
    moreover have "p \<noteq> a" using dj [OF assms(3)] pin by blast
    then have "slabs ?c3 a = Some (s\<lparr>sptr := (replicate SLAB_NODES 0)[0 := p], level := level s + 1, count := 0\<rparr>)"
      using a2 by (simp add: upd_slab_def)
    moreover have "page_size ?c3 = page_size c" "entry_slab ?c3 a"
      using s1 e2 by (simp_all add: upd_slab_def entry_slab_def slabs_per_page_def)
    ultimately show thesis using that by simp
  qed
qed

lemma entry_total:
  assumes "tree_ok c" "ucast (allign n (page_size c)) \<noteq> (0 :: u32)"
  obtains a c' where "slab_entry c n = Some (a, c')" "tree_ok c'" "page_size c' = page_size c" "p_udata c' = p_udata c"
    "a \<noteq> 0 \<Longrightarrow> entry_slab c' a \<and> (\<exists>s. slabs c' a = Some s \<and> osz s \<noteq> 0)"
proof -
  have "\<exists>a c'. entry_loop c (allign n (page_size c)) b p m = Some (a, c') \<and> tree_ok c' \<and> page_size c' = page_size c \<and> p_udata c' = p_udata c \<and>
      (a \<noteq> 0 \<longrightarrow> entry_slab c' a \<and> (\<exists>s. slabs c' a = Some s \<and> osz s \<noteq> 0))" if "p + m \<le> slabs_per_page c" for b p m
    using that
  proof (induction m arbitrary: b p)
    case 0
    then show ?case using assms(1) by simp
  next
    case (Suc m)
    let ?a = "p_slab c + p * sizeof_slab" and ?sz = "allign n (page_size c)"
    show ?case
    proof (cases "b \<le> ?sz \<and> ?sz < push_bit 1 b")
      case False
      then have "entry_loop c ?sz b p (Suc m) = entry_loop c ?sz (push_bit 1 b) (p + 1) m" by auto
      then show ?thesis using Suc.IH [of "p + 1" "push_bit 1 b"] Suc.prems by simp
    next
      case True
      have e: "entry_slab c ?a" using Suc.prems by (auto simp: entry_slab_def slot_def intro!: exI [of _ p])
      then obtain s where s: "slabs c ?a = Some s" using assms(1) by (auto simp: tree_ok_def shape_def)
      show ?thesis
      proof (cases "osz s = 0")
        case False
        then show ?thesis using True s e assms(1) by (simp add: Let_def)
      next
        case z: True
        let ?c = "upd_slab ?a (\<lambda>_. no_slab\<lparr>osz := ucast ?sz\<rparr>) c"
        have sh: "shape (pused (p_udata c)) c" using assms(1) by (simp add: tree_ok_def)
        have e': "entry_slab ?c b = entry_slab c b" for b by (simp add: entry_slab_def upd_slab_def slabs_per_page_def)
        have kids: "kids_ok ?c l q" if "kids_ok c l q" for l q
          using that e unfolding kids_ok_def e' by (auto simp: upd_slab_def slabs_per_page_def)
        have oc: "objs_in U ?c t = objs_in U c t" for U t by (rule objs_in_cong) (simp add: upd_slab_def)
        have "slab_ok ?c t \<and> objs_in (pused (p_udata c)) ?c t" if b: "slabs ?c b = Some t" for b t
        proof (cases "b = ?a")
          case True
          then have "t = no_slab\<lparr>osz := ucast ?sz\<rparr>" using b s by (simp add: upd_slab_def)
          then show ?thesis by (simp add: slab_ok_def) (simp add: no_slab_def)
        next
          case False
          then have "slab_ok c t" "objs_in (pused (p_udata c)) c t" using b sh by (auto simp: upd_slab_def shape_def)
          then show ?thesis using kids oc by (auto simp: slab_ok_def)
        qed
        moreover have "dom (slabs ?c) = dom (slabs c)" "p_slab ?c = p_slab c" using s by (auto simp: upd_slab_def)
        ultimately have "shape (pused (p_udata c)) ?c" using sh e' unfolding shape_def by (metis domIff)
        then have "tree_ok ?c" using assms(1) by (simp add: tree_ok_def live_ok_def) (simp add: upd_slab_def)
        moreover have "entry_loop c ?sz b p (Suc m) = Some (?a, ?c)" using True s z by (simp add: Let_def)
        moreover have "slabs ?c ?a = Some (no_slab\<lparr>osz := ucast ?sz\<rparr>)" using s by (simp add: upd_slab_def)
        ultimately show ?thesis using e e' assms(2) by (simp add: upd_slab_def)
      qed
    qed
  qed
  then show thesis using that unfolding slab_entry_def by (metis add_0 order_refl)
qed

lemma slab_lock_total:
  assumes "tree_ok c" "plock 0 (p_udata c) \<noteq> None"
  obtains h u where "slab_lock c = Some (h, c\<lparr>p_udata := u\<rparr>)" "tree_ok (c\<lparr>p_udata := u\<rparr>)"
proof -
  obtain h u where hu: "plock 0 (p_udata c) = Some (h, u)" using assms(2) by auto
  have "pinv (page_size c) (p_udata c)" "p_lock c = plock" using assms(1) by (auto simp: tree_ok_def live_ok_def)
  with plock_keeps [OF this(1) hu] hu assms(1) show thesis
    using that by (simp add: slab_lock_def tree_ok_def live_ok_def)
qed

lemma slab_unlock_tree: "tree_ok c \<Longrightarrow> tree_ok (slab_unlock c h)"
  using punlock_keeps by (auto simp: slab_unlock_def tree_ok_def live_ok_def)

lemma slab_unlock_pages: "tree_ok c \<Longrightarrow> in_pages (slab_unlock c h) r = in_pages c r"
  using punlock_keeps by (auto simp: slab_unlock_def tree_ok_def live_ok_def in_pages_def)

lemma slab_alloc_total:
  assumes "tree_ok c" "ucast (allign n (page_size c)) \<noteq> (0 :: u32)" "plock 0 (p_udata c) \<noteq> None"
  shows "\<exists>r c'. slab_alloc c n limit = Some (r, c') \<and> tree_ok c' \<and> in_pages c' r"
proof -
  obtain a c1 where e: "slab_entry c n = Some (a, c1)" "tree_ok c1" "page_size c1 = page_size c" "p_udata c1 = p_udata c"
    "a \<noteq> 0 \<Longrightarrow> entry_slab c1 a \<and> (\<exists>s. slabs c1 a = Some s \<and> osz s \<noteq> 0)"
    using entry_total [OF assms(1,2)] by blast
  show ?thesis
  proof (cases "a = 0")
    case True
    then show ?thesis using e(1,2) by (simp add: slab_alloc_def)
  next
    case False
    let ?sz = "allign n (page_size c)"
    obtain h u where l: "slab_lock c1 = Some (h, c1\<lparr>p_udata := u\<rparr>)" "tree_ok (c1\<lparr>p_udata := u\<rparr>)"
      using slab_lock_total [OF e(2)] assms(3) e(4) by auto
    let ?c2 = "c1\<lparr>p_udata := u\<rparr>"
    obtain s where s: "entry_slab ?c2 a" "slabs ?c2 a = Some s" "osz s \<noteq> 0"
      using e(5) [OF False] by (auto simp: entry_slab_def slabs_per_page_def)
    define g where "g = (if level s = 0 \<and> ?sz > ucast (page_size c) \<and> ?sz \<noteq> ucast (osz s) then slab_inc_rec_level ?c2 a else Some (True, ?c2))"
    have "\<exists>b c3 s3. g = Some (b, c3) \<and> tree_ok c3 \<and> entry_slab c3 a \<and> slabs c3 a = Some s3 \<and> osz s3 \<noteq> 0"
    proof (cases "level s = 0 \<and> ?sz > ucast (page_size c) \<and> ?sz \<noteq> ucast (osz s)")
      case True
      obtain ok c3 s3 where "slab_inc_rec_level ?c2 a = Some (ok, c3)" "tree_ok c3" "slabs c3 a = Some s3" "osz s3 = osz s" "entry_slab c3 a"
        using inc_rec_level_total [OF l(2) s] by metis
      then show ?thesis using True s(3) by (simp add: g_def)
    next
      case False
      then have "g = Some (True, ?c2)" unfolding g_def by (simp only: if_False)
      then show ?thesis using l(2) s by blast
    qed
    then obtain b c3 s3 where g: "g = Some (b, c3)" "tree_ok c3" "entry_slab c3 a" "slabs c3 a = Some s3" "osz s3 \<noteq> 0" by blast
    obtain r c4 where r: "slab_alloc_rec MAX_LEVELS (ucast ?sz) limit c3 a = Some (r, c4)" "steps c3 c4" "in_pages c4 r"
      using alloc_rec_total [OF assms(2) g(2,4) max_level g(5)] by blast
    obtain s4 where s4: "slabs c4 a = Some s4" "osz s4 \<noteq> 0" using steps_slab [OF r(2) g(4)] g(5) by metis
    have t4: "tree_ok c4" "entry_slab c4 a" using r(2) g(3) grows_entry by (auto simp: steps_def)
    obtain ok c5 s5 where i: "slab_inc_rec_level c4 a = Some (ok, c5)" "tree_ok c5" "slabs c5 a = Some s5" "osz s5 = osz s4"
      using inc_rec_level_total [OF t4 s4] by metis
    obtain r6 c6 where r6: "slab_alloc_rec MAX_LEVELS (ucast ?sz) limit c5 a = Some (r6, c6)" "steps c5 c6" "in_pages c6 r6"
      using alloc_rec_total [OF assms(2) i(2,3) max_level] i(4) s4(2) by metis
    have "slab_alloc c n limit = (if r = 0 then if ok then Some (r6, slab_unlock c6 h) else Some (0, slab_unlock c5 h) else Some (r, slab_unlock c4 h))"
      using e(1,3) False l(1) s(2) g(1) r(1) i(1) r6(1) unfolding g_def by (simp add: slab_alloc_def Let_def)
    moreover have "in_pages (slab_unlock c4 h) r" "in_pages (slab_unlock c6 h) r6"
      using slab_unlock_pages t4(1) r6(2,3) r(3) by (simp_all add: steps_def)
    ultimately show ?thesis using slab_unlock_tree t4(1) i(2) r6(2) by (auto simp: steps_def)
  qed
qed

lemma slab_init_total:
  assumes "p_mem_alloc c = Some palloc" "p_lock c = plock" "p_unlock c = punlock" "pinv (page_size c) (p_udata c)" "slabs c = Map.empty"
  shows "\<exists>r c'. slab_init c = Some (r, c') \<and> (r \<longrightarrow> tree_ok c' \<and> page_size c' = page_size c)"
proof (cases "SLAB_MIN_PAGE \<le> page_size c")
  case False
  then show ?thesis by (intro exI [of _ False] exI [of _ c]) (simp add: slab_init_def)
next
  case True
  have n: "(1 :: u32) \<noteq> 0" "(1 :: u32) \<le> max 1 (- 1 div page_size c)" by simp_all
  obtain p u where pu: "palloc 1 DEFAULT_SLAB_LIMIT (p_udata c) = Some (p, u)" using palloc_total [OF assms(4) n] by blast
  let ?c1 = "c\<lparr>p_udata := u, p_slab := p\<rparr>"
  let ?c2 = "slab_page p ?c1"
  have i: "slab_init c = Some (if p \<noteq> 0 then (True, ?c2) else (False, ?c1))"
    using True assms(1) pu by (simp add: slab_init_def get_pages_def Let_def)
  have "tree_ok ?c2" if nz: "p \<noteq> 0"
  proof -
    have sl: "slabs ?c2 a = (if \<exists>j < slabs_per_page c. a = slot p j then Some no_slab else None)" for a
      using slots_inside [of _ c p] assms(5) by (auto simp: slab_page_slabs slabs_per_page_def)
    have en: "entry_slab ?c2 a \<longleftrightarrow> (\<exists>j < slabs_per_page c. a = slot p j)" for a
      by (simp add: entry_slab_def slabs_per_page_def)
    have "{p..<p + unat (1 * page_size c)} \<subseteq> pused u" using palloc_used [OF assms(4) n pu nz] .
    then have "dom (slabs ?c2) \<subseteq> pused u" using slots_inside [of _ c p] by (auto simp: sl split: if_splits)
    then have "shape (pused u) ?c2" using nz en by (auto simp: shape_def sl split: if_splits)
    moreover have "page_size c \<noteq> 0" using True by (auto simp: SLAB_MIN_PAGE_def)
    ultimately show ?thesis
      using assms palloc_fresh [OF assms(4) n pu] by (simp add: tree_ok_def live_ok_def) (simp add: slab_page_def clear_mem_def Let_def)
  qed
  then show ?thesis using i by (cases "p = 0") auto
qed

end

end
