(* ===== verification/Slab_Heap.thy ===== *)
theory Slab_Heap
  imports Slab_Total B24_Alloc
begin

text \<open>
  The class cSlabHeap of core/mem/slab_heap.cpp: the slab allocator of \<open>Slab\<close> with its callbacks bound to
  the page allocator of \<open>B24_PMA\<close> and a mutex. The theory interprets the page source the slab
  allocator relies on with the page allocator, and shows that the heap answers every request and never hands
  out memory in use.
\<close>

section \<open>The callbacks\<close>

text \<open>The members the callbacks reach through \<open>p_udata\<close>.\<close>

record sheap_obj =
  so_env :: sched_env
  so_page_size :: u32
  so_mutex :: "cmutex option"
  so_pma :: "pma option"

definition page_alloc :: "u32 \<Rightarrow> u64 \<Rightarrow> sheap_obj \<Rightarrow> (ptr \<times> sheap_obj) option" where
  "page_alloc n limit u =
     (case so_pma u of
        None \<Rightarrow> Some (0, u)
      | Some s \<Rightarrow>
          do { (r, s) \<leftarrow> pma_alloc s ((n * so_page_size u) div of_nat (pma.page_size s)) RT_SYSTEM (unat limit);
               Some (r, u\<lparr>so_pma := Some s\<rparr>) })"

definition page_free :: "ptr \<Rightarrow> u32 \<Rightarrow> sheap_obj \<Rightarrow> sheap_obj option" where
  "page_free p n u =
     (case so_pma u of
        None \<Rightarrow> Some u
      | Some s \<Rightarrow> do { (_, s) \<leftarrow> pma_free s p n; Some (u\<lparr>so_pma := Some s\<rparr>) })"

definition heap_lock :: "u64 \<Rightarrow> sheap_obj \<Rightarrow> (u64 \<times> sheap_obj) option" where
  "heap_lock hlock u =
     (case so_mutex u of
        None \<Rightarrow> Some (0, u)
      | Some x \<Rightarrow> map_option (\<lambda>(r, x). (r, u\<lparr>so_mutex := x\<rparr>)) (acquire_mutex (so_env u) (Some x) hlock MUTEX_TIMEOUT_INFINITE))"

definition heap_unlock :: "u64 \<Rightarrow> sheap_obj \<Rightarrow> sheap_obj" where
  "heap_unlock hlock u = u\<lparr>so_mutex := map_option (\<lambda>x. cMutex_unlock x hlock) (so_mutex u)\<rparr>"

section \<open>The class\<close>

record sheap =
  sh_scxt :: "sheap_obj scxt"
  sh_init :: bool

text \<open>\<open>p_pma\<close> and \<open>p_mutex\<close> are what the repository returns.\<close>

definition cSlabHeap_init :: "sheap \<Rightarrow> pma option \<Rightarrow> cmutex option \<Rightarrow> (bool \<times> sheap) option" where
  "cSlabHeap_init h p_pma p_mutex =
     (let c = sh_scxt h;
          c = c\<lparr>p_mem_alloc := Some page_alloc, p_mem_free := page_free, p_lock := heap_lock, p_unlock := heap_unlock,
                p_udata := (p_udata c)\<lparr>so_pma := p_pma\<rparr>\<rparr>
      in case p_pma of
           None \<Rightarrow> Some (False, h\<lparr>sh_scxt := c, sh_init := False\<rparr>)
         | Some s \<Rightarrow>
             let ps = of_nat (pma.page_size s);
                 c = c\<lparr>scxt.page_size := ps, p_udata := (p_udata c)\<lparr>so_page_size := ps\<rparr>\<rparr>
             in do {
                  (r, c) \<leftarrow> slab_init c;
                  Some (r, h\<lparr>sh_scxt := (if r then c\<lparr>p_udata := (p_udata c)\<lparr>so_mutex := p_mutex\<rparr>\<rparr> else c), sh_init := r\<rparr>)
                })"

definition cSlabHeap_alloc :: "sheap \<Rightarrow> u32 \<Rightarrow> u64 \<Rightarrow> (ptr \<times> sheap) option" where
  "cSlabHeap_alloc h sz limit =
     (if sh_init h then map_option (\<lambda>(r, c). (r, h\<lparr>sh_scxt := c\<rparr>)) (slab_alloc (sh_scxt h) sz limit) else Some (0, h))"

definition cSlabHeap_free :: "sheap \<Rightarrow> ptr \<Rightarrow> sheap option" where
  "cSlabHeap_free h p =
     (if sh_init h then map_option (\<lambda>c. h\<lparr>sh_scxt := c\<rparr>) (slab_free (sh_scxt h) p) else Some h)"

definition cSlabHeap_free_sized :: "sheap \<Rightarrow> ptr \<Rightarrow> u32 \<Rightarrow> sheap option" where
  "cSlabHeap_free_sized h p sz =
     (if sh_init h then map_option (\<lambda>c. h\<lparr>sh_scxt := c\<rparr>) (slab_free_sized (sh_scxt h) p sz) else Some h)"

definition cSlabHeap_verify :: "sheap \<Rightarrow> ptr \<Rightarrow> (bool \<times> sheap) option" where
  "cSlabHeap_verify h p =
     (if sh_init h then map_option (\<lambda>(r, c). (r, h\<lparr>sh_scxt := c\<rparr>)) (slab_verify (sh_scxt h) p) else Some (False, h))"

definition cSlabHeap_verify_sized :: "sheap \<Rightarrow> ptr \<Rightarrow> u32 \<Rightarrow> (bool \<times> sheap) option" where
  "cSlabHeap_verify_sized h p sz =
     (if sh_init h then map_option (\<lambda>(r, c). (r, h\<lparr>sh_scxt := c\<rparr>)) (slab_verify_sized (sh_scxt h) p sz) else Some (False, h))"

record sheap_info =
  shi_base :: ptr
  shi_size :: u32
  shi_chunk_size :: u32
  shi_data_load :: u32
  shi_meta_load :: u32
  shi_free :: u32
  shi_unused :: u32
  shi_objects :: u32

definition cSlabHeap_info :: "sheap \<Rightarrow> sheap_info \<Rightarrow> (sheap_info \<times> sheap) option" where
  "cSlabHeap_info h i =
     (if sh_init h then
        do {
          (st, c) \<leftarrow> slab_status (sh_scxt h);
          let ps = scxt.page_size c;
          Some (\<lparr>shi_base = p_slab c, shi_size = (ndpg st + nspg st) * ps, shi_chunk_size = of_nat sizeof_slab,
                 shi_data_load = ndpg st * ps, shi_meta_load = nspg st * ps, shi_free = 0, shi_unused = 0,
                 shi_objects = naobj st\<rparr>, h\<lparr>sh_scxt := c\<rparr>)
        }
      else Some (i, h))"

definition cSlabHeap_destroy :: "sheap \<Rightarrow> sheap option" where
  "cSlabHeap_destroy h =
     (let c = sh_scxt h; c = c\<lparr>p_udata := (p_udata c)\<lparr>so_mutex := None\<rparr>\<rparr>
      in map_option (\<lambda>c. h\<lparr>sh_scxt := c\<rparr>) (slab_destroy c))"

section \<open>Pages for the slab allocator\<close>

definition pages_inv :: "u32 \<Rightarrow> sheap_obj \<Rightarrow> bool" where
  "pages_inv ps u \<longleftrightarrow> so_page_size u = ps \<and> ps \<noteq> 0 \<and>
     (\<exists>s. so_pma u = Some s \<and> pma_ok s \<and> pma_idle s \<and> pma.page_size s = unat ps)"

text \<open>The addresses in pages in use.\<close>

definition pages_used :: "sheap_obj \<Rightarrow> ptr set" where
  "pages_used u = (case so_pma u of None \<Rightarrow> {} | Some s \<Rightarrow> {a. a - a mod pma.page_size s \<in> used s})"

lemma run_bytes:
  assumes "r mod pma.page_size s = 0" "a \<in> {r..<r + n * pma.page_size s}" "0 < pma.page_size s"
  shows "a - a mod pma.page_size s \<in> run_pages s r n"
proof -
  let ?ps = "pma.page_size s"
  obtain x where x: "a = r + x" "x < n * ?ps" using assms(2) by (auto simp: le_iff_add)
  then have "a - a mod ?ps = r + x div ?ps * ?ps" using align_down [OF assms(1), of x] by simp
  moreover have "x div ?ps < n" using x(2) assms(3) by (simp add: div_less_iff_less_mult)
  ultimately show ?thesis by (auto simp: run_pages_def)
qed

lemma scale_pages:
  assumes "ps \<noteq> 0" "n \<le> max 1 (- 1 div ps)"
  shows "(n * ps) div ps = (n :: u32)" and "n \<noteq> 0 \<Longrightarrow> unat (n * ps) = unat n * unat ps"
proof -
  have p: "0 < unat ps" using assms(1) by (simp add: unat_gt_0)
  have "unat n * unat ps < 2 ^ 32"
  proof (cases "n \<le> 1")
    case True
    then have "unat n \<le> 1" by (simp add: word_le_nat_alt)
    then have "unat n * unat ps \<le> unat ps" by (cases "unat n") auto
    then show ?thesis using unat_u32_lt [of ps] by linarith
  next
    case False
    then have "n \<le> - 1 div ps" using assms(2) by (auto simp: max_def split: if_splits)
    then have "unat n \<le> 0xffffffff div unat ps" by (simp add: word_le_nat_alt unat_div unat_max_u32)
    then have "unat n * unat ps \<le> 0xffffffff" by (metis div_times_less_eq_dividend mult_le_mono1 order_trans)
    then show ?thesis by simp
  qed
  then have u: "unat (n * ps) = unat n * unat ps" by (simp add: unat_word_ariths)
  then show "n \<noteq> 0 \<Longrightarrow> unat (n * ps) = unat n * unat ps" .
  have "unat ((n * ps) div ps) = unat n" using u p by (simp add: unat_div)
  then show "(n * ps) div ps = n" by (simp add: word_unat_eq_iff)
qed

lemma page_alloc_fresh:
  assumes "pages_inv ps u" "n \<noteq> 0" "n \<le> max 1 (- 1 div ps)" "page_alloc n limit u = Some (p, u')"
  shows "pages_inv ps u' \<and> pages_used u \<subseteq> pages_used u' \<and> (p \<noteq> 0 \<longrightarrow> {p..<p + unat (n * ps)} \<inter> pages_used u = {})"
proof -
  obtain s where s: "so_page_size u = ps" "ps \<noteq> 0" "so_pma u = Some s" "pma_ok s" "pma_idle s" "pma.page_size s = unat ps"
    using assms(1) by (auto simp: pages_inv_def)
  note sc = scale_pages [OF s(2) assms(3)]
  have "(of_nat (pma.page_size s) :: u32) = ps" using s(6) by simp
  then obtain s' where s': "pma_alloc s n RT_SYSTEM (unat limit) = Some (p, s')" "u' = u\<lparr>so_pma := Some s'\<rparr>"
    using assms(4) s(1,3) sc(1) by (auto simp: page_alloc_def bind_eq_Some_conv)
  have f: "pma_ok s'" "pma_idle s'" "pma.page_size s' = pma.page_size s" "used s \<subseteq> used s'"
    "p \<noteq> 0 \<Longrightarrow> p mod pma.page_size s = 0" "p \<noteq> 0 \<Longrightarrow> run_pages s p (unat n) \<inter> used s = {}"
    using pma_alloc_fresh [OF s(4,5) assms(2) s'(1)] by auto
  have "0 < pma.page_size s" using s(4) by (simp add: pma_ok_def)
  then have "{p..<p + unat (n * ps)} \<inter> pages_used u = {}" if "p \<noteq> 0"
    using run_bytes [OF f(5) [OF that], of _ "unat n"] f(6) [OF that] sc(2) [OF assms(2)] s(3,6)
    by (fastforce simp: pages_used_def)
  then show ?thesis using f s s'(2) by (auto simp: pages_inv_def pages_used_def)
qed

lemma page_alloc_total:
  assumes "pages_inv ps u" "n \<noteq> 0" "n \<le> max 1 (- 1 div ps)"
  shows "\<exists>p u'. page_alloc n limit u = Some (p, u')"
    and "page_alloc n limit u = Some (p, u') \<Longrightarrow> p \<noteq> 0 \<Longrightarrow> {p..<p + unat (n * ps)} \<subseteq> pages_used u'"
proof -
  obtain s where s: "so_page_size u = ps" "ps \<noteq> 0" "so_pma u = Some s" "pma_ok s" "pma_idle s" "pma.page_size s = unat ps"
    using assms(1) by (auto simp: pages_inv_def)
  note sc = scale_pages [OF s(2) assms(3)]
  have eq: "(of_nat (pma.page_size s) :: u32) = ps" using s(6) by simp
  obtain r s' where a: "pma_alloc s n RT_SYSTEM (unat limit) = Some (r, s')"
    "if r = 0 then used s' = used s else used s' = used s \<union> run_pages s r (unat n)"
    using pma_alloc_used [OF s(4,5) assms(2), of RT_SYSTEM "unat limit"] by blast
  have pa: "page_alloc n limit u = Some (r, u\<lparr>so_pma := Some s'\<rparr>)"
    using a(1) s(1,3) sc(1) eq by (simp add: page_alloc_def)
  then show "\<exists>p u'. page_alloc n limit u = Some (p, u')" by blast
  assume "page_alloc n limit u = Some (p, u')" "p \<noteq> 0"
  then have p: "p = r" "u' = u\<lparr>so_pma := Some s'\<rparr>" "r \<noteq> 0" using pa by auto
  have f: "pma.page_size s' = pma.page_size s" "r mod pma.page_size s = 0"
    using pma_alloc_fresh [OF s(4,5) assms(2) a(1)] p(3) by auto
  have "0 < pma.page_size s" using s(4) by (simp add: pma_ok_def)
  then have "x - x mod pma.page_size s \<in> used s'" if "x \<in> {r..<r + unat n * pma.page_size s}" for x
    using run_bytes [OF f(2) that] a(2) p(3) by auto
  then show "{p..<p + unat (n * ps)} \<subseteq> pages_used u'"
    using sc(2) [OF assms(2)] p s(6) f(1) by (auto simp: pages_used_def)
qed

interpretation b24_pages: total_source page_alloc pages_inv pages_used heap_lock heap_unlock
proof (unfold_locales)
  show "pages_inv ps u' \<and> pages_used u' = pages_used u" if "pages_inv ps u" "heap_lock h u = Some (h', u')" for ps u h h' u'
    using that by (auto simp: heap_lock_def pages_inv_def pages_used_def split: option.splits)
  show "pages_inv ps (heap_unlock h u) \<and> pages_used (heap_unlock h u) = pages_used u" if "pages_inv ps u" for ps u h
    using that by (auto simp: heap_unlock_def pages_inv_def pages_used_def)
qed (fact page_alloc_fresh page_alloc_total)+

section \<open>Properties\<close>

text \<open>The common path: a slab of level 0 whose first page has an object that was never used.\<close>

lemma slab_alloc_first_page:
  assumes "slab_entry c n = Some (a, c)" "a \<noteq> 0" "slab_lock c = Some (h, c)" "slabs c a = Some s" "level s = 0"
    "\<not> ucast (scxt.page_size c) < allign n (scxt.page_size c)" "sptr s ! 0 = p" "p \<noteq> 0"
    "p + unat (ucast (allign n (scxt.page_size c)) :: u32) < unat limit" "nobjs c s = Some m"
    "free_loop (words c) p (unat (osz s)) 0 m 0 = (q, rp)" "q \<noteq> 0"
  shows "\<exists>c'. slab_alloc c n limit = Some (q, c')"
proof -
  let ?c' = "upd_slab a (\<lambda>s. s\<lparr>count := count s + 1\<rparr>) (c\<lparr>words := (words c)(q := 0)\<rparr>)"
  have "take_object c a s p = Some (q, ?c')" using assms(10-12) by (simp add: take_object_def)
  then have "node_loop f (ucast (allign n (scxt.page_size c))) limit c a 0 (Suc k) = Some (q, ?c')" for f k
    using assms(4,5,7-9,12) by simp
  then have "slab_alloc_rec MAX_LEVELS (ucast (allign n (scxt.page_size c))) limit c a = Some (q, ?c')"
    by (simp add: MAX_LEVELS_def SLAB_NODES_def numeral_eq_Suc del: node_loop.simps)
  then show ?thesis using assms(1-5,12) by (simp add: slab_alloc_def Let_def assms(6) del: not_less)
qed

text \<open>A heap bound to a page allocator in order, with its slabs in shape, and a set of objects in use: memory of
  pages in use whose first word is not one of the marks of free objects.\<close>

definition heap_live :: "ptr set \<Rightarrow> sheap \<Rightarrow> bool" where
  "heap_live L h \<longleftrightarrow>
     p_mem_alloc (sh_scxt h) = Some page_alloc \<and> p_lock (sh_scxt h) = heap_lock \<and> p_unlock (sh_scxt h) = heap_unlock \<and>
     pages_inv (scxt.page_size (sh_scxt h)) (p_udata (sh_scxt h)) \<and> shape (pages_used (p_udata (sh_scxt h))) (sh_scxt h) \<and>
     0 \<notin> L \<and> L \<subseteq> pages_used (p_udata (sh_scxt h)) \<and>
     (\<forall>a\<in>L. words (sh_scxt h) a \<noteq> SLAB_PATTERN \<and> words (sh_scxt h) a \<noteq> SLAB_PATTERN2)"

lemma heap_live_ok: "heap_live L h \<longleftrightarrow> b24_pages.live_ok L (sh_scxt h) \<and> b24_pages.tree_ok (sh_scxt h) \<and> 0 \<notin> L"
  by (auto simp: heap_live_def b24_pages.live_ok_def b24_pages.tree_ok_def obj_in_use_def pages_inv_def)

text \<open>The lock of a heap without a mutex or with a free one can be taken, and initialisation gives a heap in
  order.\<close>

lemma heap_lock_free:
  assumes "\<forall>x. so_mutex u = Some x \<longrightarrow> cMutex_free x" "blender_running (so_env u) \<longrightarrow> blender_cpu (so_env u)"
  shows "heap_lock 0 u \<noteq> None"
proof (cases "so_mutex u")
  case (Some x)
  then show ?thesis using acquire_free [of x "so_env u"] assms by (auto simp: heap_lock_def)
qed (simp add: heap_lock_def)

lemma cSlabHeap_init_live:
  assumes "pma_ok s" "pma_idle s" "0 < pma.page_size s" "pma.page_size s < 2 ^ 32" "slabs (sh_scxt h) = Map.empty"
  shows "\<exists>r h'. cSlabHeap_init h (Some s) m = Some (r, h') \<and> (r \<longrightarrow> heap_live {} h')"
proof -
  let ?ps = "of_nat (pma.page_size s) :: u32"
  let ?c = "(sh_scxt h)\<lparr>p_mem_alloc := Some page_alloc, p_mem_free := page_free, p_lock := heap_lock, p_unlock := heap_unlock,
      scxt.page_size := ?ps, p_udata := (p_udata (sh_scxt h))\<lparr>so_pma := Some s, so_page_size := ?ps\<rparr>\<rparr>"
  have ps: "unat ?ps = pma.page_size s" "?ps \<noteq> 0" using assms(3,4) by (simp_all add: word_unat_eq_iff)
  have "\<exists>r c'. slab_init ?c = Some (r, c') \<and> (r \<longrightarrow> b24_pages.tree_ok c' \<and> scxt.page_size c' = scxt.page_size ?c)"
    using assms ps by (intro b24_pages.slab_init_total) (simp_all add: pages_inv_def)
  then obtain r c where c: "slab_init ?c = Some (r, c)" "r \<longrightarrow> b24_pages.tree_ok c" by blast
  let ?c' = "c\<lparr>p_udata := (p_udata c)\<lparr>so_mutex := m\<rparr>\<rparr>"
  have "heap_live {} (h\<lparr>sh_scxt := ?c', sh_init := True\<rparr>)" if "b24_pages.tree_ok c"
    using that by (simp add: heap_live_def b24_pages.tree_ok_def b24_pages.live_ok_def pages_inv_def pages_used_def)
  then show ?thesis using c by (auto simp: cSlabHeap_init_def Let_def)
qed

text \<open>C6: A slab heap over the page allocator answers every request and never hands out memory in use. When its
  lock can be taken, an allocation of any size (but those that round up to 4 GB, whose object size
  is truncated to 0) returns; for every set of objects in use, it returns none of them and leaves the
  first word of each as it is, and the heap is in order afterwards with them and the object it returned
  in use, whatever pages and slabs the allocation takes from the page allocator on the way. So the next
  allocation cannot return the same object again.\<close>

theorem slab_heap_keeps_live:
  assumes "heap_live L h" and "ucast (allign n (scxt.page_size (sh_scxt h))) \<noteq> (0 :: u32)" and "heap_lock 0 (p_udata (sh_scxt h)) \<noteq> None"
  shows "\<exists>r h'. cSlabHeap_alloc h n limit = Some (r, h') \<and> r \<notin> L \<and> heap_live (if r = 0 then L else insert r L) h' \<and> (\<forall>a\<in>L. words (sh_scxt h') a = words (sh_scxt h) a)"
proof (cases "sh_init h")
  case False
  then show ?thesis using assms(1) by (simp add: cSlabHeap_alloc_def heap_live_def)
next
  case True
  have l: "b24_pages.live_ok L (sh_scxt h)" "b24_pages.tree_ok (sh_scxt h)" "0 \<notin> L" using assms(1) heap_live_ok by auto
  obtain r c where c: "slab_alloc (sh_scxt h) n limit = Some (r, c)" "b24_pages.tree_ok c" "b24_pages.in_pages c r"
    using b24_pages.slab_alloc_total [OF l(2) assms(2,3)] by blast
  let ?L = "if r = 0 then L else insert r L"
  have g: "b24_pages.gets L (sh_scxt h) r c" by (rule b24_pages.slab_alloc_keeps [OF l(1) c(1)])
  then have k: "b24_pages.keeps L (sh_scxt h) c" "r \<notin> L" using l(3) by (auto simp: b24_pages.gets_def)
  have "b24_pages.live_ok ?L c"
    using g c(3) by (auto simp: b24_pages.gets_def b24_pages.keeps_def b24_pages.live_ok_def b24_pages.in_pages_def)
  then have "heap_live ?L (h\<lparr>sh_scxt := c\<rparr>)" using heap_live_ok [of ?L "h\<lparr>sh_scxt := c\<rparr>"] c(2) l(3) by simp
  then show ?thesis using True c(1) k by (simp add: cSlabHeap_alloc_def b24_pages.keeps_def)
qed

definition demo_sheap :: sheap where
  "demo_sheap = \<lparr>sh_scxt = \<lparr>scxt.page_size = 4096, p_mem_alloc = Some page_alloc, p_mem_free = page_free, p_lock = heap_lock,
       p_unlock = heap_unlock, p_udata = \<lparr>so_env = pm_env demo_pma, so_page_size = 4096, so_mutex = None,
         so_pma = Some (demo_pma\<lparr>m_ram := [\<lparr>rt_addr = 0x101000, rt_recs = [\<lparr>bmp = 0xc00000, amount = 2, rtype = 1\<rparr>, empty_rec],
           rt_nfree = 46\<rparr>]\<rparr>)\<rparr>,
       p_slab = 0x101000, slabs = (\<lambda>a. if a = 0x101000 then Some \<lparr>osz = 16, sptr = [0x102000, 0, 0, 0, 0, 0, 0], level = 0, count = 1\<rparr>
         else if \<exists>j<64. a = 0x101000 + j * 64 then Some no_slab else None),
       words = (\<lambda>a. if a = 0x102000 then 1 else SLAB_PATTERN)\<rparr>, sh_init = True\<rparr>"

lemma demo_bits: "{j. bit (0xc00000 :: 24 word) j} = {22,23}"
proof -
  have "bit (0xc00000 :: 24 word) j \<longleftrightarrow> j \<in> {22, 23}" if "j < 24" for j
  proof -
    have "j \<in> set [0..<24]" using that by simp
    then show ?thesis by (auto simp: numeral_eq_Suc)
  qed
  then show ?thesis by (auto dest: bit_imp_le_length)
qed

lemma entry_16: "slabs c (p_slab c) = Some s \<Longrightarrow> osz s \<noteq> 0 \<Longrightarrow> entry_loop c 16 16 0 64 = Some (p_slab c, c)"
proof -
  assume a: "slabs c (p_slab c) = Some s" "osz s \<noteq> 0"
  have "(64 :: nat) = Suc 63" by simp
  then show ?thesis using a by (simp only: entry_loop.simps) (simp add: Let_def)
qed

lemma free_loop_second: "w p \<noteq> SLAB_PATTERN2 \<Longrightarrow> w p \<noteq> SLAB_PATTERN \<Longrightarrow> w (p + 16) = SLAB_PATTERN \<Longrightarrow> free_loop w p 16 0 256 0 = (p + 16, 0)"
proof -
  assume a: "w p \<noteq> SLAB_PATTERN2" "w p \<noteq> SLAB_PATTERN" "w (p + 16) = SLAB_PATTERN"
  have "(256 :: nat) = Suc (Suc 254)" by simp
  then show ?thesis using a by (simp only: free_loop.simps) (auto simp: Let_def SLAB_PATTERN_def SLAB_PATTERN2_def)
qed

lemma allign_10: "allign 10 4096 = 16" by code_simp

lemma pattern_words: "SLAB_PATTERN \<noteq> 1" "SLAB_PATTERN2 \<noteq> 1" "SLAB_PATTERN \<noteq> SLAB_PATTERN2" by (simp_all add: SLAB_PATTERN_def SLAB_PATTERN2_def)

lemma demo_sheap_alloc: "\<exists>h'. cSlabHeap_alloc demo_sheap 10 0x200000 = Some (0x102010, h')"
proof -
  let ?c = "sh_scxt demo_sheap" and ?s = "\<lparr>osz = 16, sptr = [0x102000, 0, 0, 0, 0, 0, 0], level = 0, count = 1\<rparr>"
  have c: "p_slab ?c = 0x101000" "slabs ?c 0x101000 = Some ?s" "scxt.page_size ?c = 4096" by (simp_all add: demo_sheap_def)
  have "slab_entry ?c 10 = Some (0x101000, ?c)"
    using entry_16 [of ?c ?s] c by (simp add: slab_entry_def allign_10 slabs_per_page_def sizeof_slab_def SLAB_MIN_ALLOC_def)
  moreover have "slab_lock ?c = Some (0, ?c)" by (simp add: slab_lock_def heap_lock_def demo_sheap_def)
  moreover have "nobjs ?c ?s = Some 256" by (simp add: nobjs_def data_pages_def c)
  moreover have "free_loop (words ?c) 0x102000 16 0 256 0 = (0x102010, 0)"
    using free_loop_second [of "words ?c" "0x102000"] pattern_words by (simp add: demo_sheap_def)
  ultimately have "\<exists>c'. slab_alloc ?c 10 0x200000 = Some (0x102010, c')"
    using c by (intro slab_alloc_first_page [where a = "0x101000" and s = ?s and p = "0x102000" and m = 256 and rp = 0 and h = 0]) (simp_all add: allign_10)
  moreover have "sh_init demo_sheap" by (simp add: demo_sheap_def)
  ultimately show ?thesis by (auto simp: cSlabHeap_alloc_def)
qed

lemma demo_sheap_fields:
  "p_mem_alloc (sh_scxt demo_sheap) = Some page_alloc" "p_lock (sh_scxt demo_sheap) = heap_lock"
  "p_unlock (sh_scxt demo_sheap) = heap_unlock" "scxt.page_size (sh_scxt demo_sheap) = 4096"
  "p_udata (sh_scxt demo_sheap) = \<lparr>so_env = pm_env demo_pma, so_page_size = 4096, so_mutex = None,
     so_pma = Some (demo_pma\<lparr>m_ram := [\<lparr>rt_addr = 0x101000, rt_recs = [\<lparr>bmp = 0xc00000, amount = 2, rtype = 1\<rparr>, empty_rec],
       rt_nfree = 46\<rparr>]\<rparr>)\<rparr>"
  "words (sh_scxt demo_sheap) 0x102000 = 1"
  by (simp_all add: demo_sheap_def)

lemma demo_sheap_shape:
  assumes "0x101000 \<in> U" "0x102000 \<in> U"
  shows "shape {a. a - a mod 4096 \<in> U} (sh_scxt demo_sheap)"
proof -
  let ?c = "sh_scxt demo_sheap"
  have f: "p_slab ?c = 0x101000" "slabs_per_page ?c = 64" by (simp_all add: demo_sheap_def slabs_per_page_def sizeof_slab_def)
  have e: "entry_slab ?c a \<longleftrightarrow> (\<exists>j<64. a = 0x101000 + j * 64)" for a by (simp add: entry_slab_def f slot_def sizeof_slab_def)
  have d: "slabs ?c a \<noteq> None \<longleftrightarrow> entry_slab ?c a" for a
    unfolding e by (auto simp: demo_sheap_def intro!: exI [of _ 0])
  have b: "a - a mod 4096 = 0x101000" if en: "entry_slab ?c a" for a
  proof -
    obtain j where j: "j < 64" "a = 0x101000 + j * 64" using en e by blast
    have "(0x101000 + j * 64) mod 4096 = (257 * 4096 + j * 64) mod 4096" by simp
    also have "\<dots> = j * 64" using j(1) by (subst mod_mult_self3) simp
    finally show ?thesis using j(2) by simp
  qed
  have "dom (slabs ?c) \<subseteq> {a. a - a mod 4096 \<in> U}" using b assms d unfolding dom_def by auto
  moreover have "slab_ok ?c s \<and> objs_in {a. a - a mod 4096 \<in> U} ?c s" if sl: "slabs ?c a = Some s" for a s
  proof
    show "slab_ok ?c s" using sl by (auto simp: demo_sheap_def slab_ok_def SLAB_NODES_def no_slab_def split: if_splits)
    let ?s = "\<lparr>osz = 16, sptr = [0x102000, 0, 0, 0, 0, 0, 0], level = 0, count = 1\<rparr>"
    have "(0x102000 + j * 16) - (0x102000 + j * 16) mod 4096 = (0x102000 :: nat)" if "j < 256" for j
    proof -
      have "(0x102000 + j * 16) mod 4096 = (258 * 4096 + j * 16) mod 4096" by simp
      also have "\<dots> = j * 16" using that by (subst mod_mult_self3) simp
      finally show ?thesis by simp
    qed
    moreover have "nobjs ?c ?s = Some 256" by (simp add: nobjs_def data_pages_def demo_sheap_def)
    ultimately have "objs_in {a. a - a mod 4096 \<in> U} ?c ?s" using assms(2) by (simp add: objs_in_def)
    moreover have "s = ?s \<or> s = no_slab" using sl by (auto simp: demo_sheap_def split: if_splits)
    ultimately show "objs_in {a. a - a mod 4096 \<in> U} ?c s" by auto
  qed
  ultimately show ?thesis using d f(1) unfolding shape_def by auto
qed

lemma demo_sheap_live: "heap_live {0x102000} demo_sheap"
proof -
  let ?b = "\<lparr>rt_addr = 0x101000, rt_recs = [\<lparr>bmp = 0xc00000, amount = 2, rtype = 1\<rparr>, empty_rec], rt_nfree = 46\<rparr>"
  let ?s = "demo_pma\<lparr>m_ram := [?b]\<rparr>"
  have "pop 0xc00000 = 2" unfolding pop_def demo_bits by simp
  then have "pma_ok ?s" 
    by (simp add: pma_ok_def demo_pma_def acct_def block_ok_def pops_def rec_ok_def pop_zero empty_rec_def MAX_REC_AMOUNT_def)
  moreover have "pma_idle ?s" "pma.page_size ?s = 4096" using demo_pma_ok(2) by (simp_all add: pma_idle_def demo_pma_def)
  moreover have u: "0x101000 \<in> used ?s" "0x102000 \<in> used ?s"
  proof -
    have "page_addr ?s 0 0 = 0x101000" "page_addr ?s 0 1 = 0x102000" by (simp_all add: page_addr_def demo_pma_def)
    moreover have "upg ?s 0 0" "upg ?s 0 1" using demo_bits by (auto simp: upage_def)
    ultimately show "0x101000 \<in> used ?s" "0x102000 \<in> used ?s" unfolding used_def by (force simp: MAX_REC_AMOUNT_def)+
  qed
  moreover have "shape {a. a - a mod 4096 \<in> used ?s} (sh_scxt demo_sheap)"
    by (rule demo_sheap_shape [OF u])
  ultimately show ?thesis using pattern_words unfolding heap_live_def
    by (simp add: demo_sheap_fields pages_inv_def pages_used_def)
qed

theorem slab_heap_keeps_live_witness:
  "\<exists>h'. cSlabHeap_alloc demo_sheap 10 0x200000 = Some (0x102010, h') \<and> (0x102010 :: ptr) \<notin> {0x102000} \<and>
     heap_live {0x102010, 0x102000} h' \<and> words (sh_scxt h') 0x102000 = 1"
proof -
  let ?c = "sh_scxt demo_sheap"
  have "ucast (allign 10 (scxt.page_size ?c)) \<noteq> (0 :: u32)" "heap_lock 0 (p_udata ?c) \<noteq> None" "words ?c 0x102000 = 1"
    by (simp_all add: demo_sheap_fields allign_10 heap_lock_def) 
  then show ?thesis
    using slab_heap_keeps_live [OF demo_sheap_live, of 10 "0x200000"] demo_sheap_alloc by auto
qed

end
