(* ===== verification/LL_Ring.thy ===== *)
theory LL_Ring
  imports LL_Vector
begin

text \<open>
  The lists of core/common/ll_alg.cpp in \<open>LL_MODE_QUEUE\<close>, as the scheduler uses them: the next links of
  the items form a ring that \<open>ll_roll\<close> turns. \<open>ring c ns\<close> says that the current column of \<open>c\<close> is the
  ring of the items \<open>ns\<close>, beginning with the first one. The \<open>prev\<close> link of the first item is left open:
  \<open>ll_add\<close> leaves it null and \<open>ll_roll\<close> sets it to the item before the last.
\<close>

section \<open>The ring\<close>

definition ring_item :: "(ptr \<rightharpoonup> ll_item) \<Rightarrow> ptr list \<Rightarrow> nat \<Rightarrow> bool" where
  "ring_item its ns i \<longleftrightarrow> (\<exists>it. its (ns ! i) = Some it \<and>
     (it_next it = ns ! (Suc i mod length ns) \<or> length ns = 1 \<and> it_next it = 0) \<and>
     (0 < i \<longrightarrow> it_prev it = ns ! (i - 1)))"

definition ring :: "'u ll_context \<Rightarrow> ptr list \<Rightarrow> bool" where
  "ring c ns \<longleftrightarrow> mode c = LL_MODE_QUEUE \<and> ns \<noteq> [] \<and> distinct ns \<and> 0 \<notin> set ns \<and>
     (\<exists>s. cur_col c = Some s \<and> p_first s = hd ns \<and> p_last s = last ns \<and> unat (count s) = length ns) \<and>
     (\<forall>i<length ns. ring_item (items c) ns i)"

text \<open>The item the cursor is on.\<close>

definition cur_at :: "'u ll_context \<Rightarrow> ptr \<Rightarrow> bool" where
  "cur_at c p \<longleftrightarrow> (\<exists>s. cur_col c = Some s \<and> p_current s = p)"

lemma ring_udata [simp]: "ring (c\<lparr>p_udata := u\<rparr>) ns = ring c ns"
  by (simp add: ring_def)

lemma cur_at_udata [simp]: "cur_at (c\<lparr>p_udata := u\<rparr>) p = cur_at c p"
  by (simp add: cur_at_def)

lemma ring_unlock [simp]: "ring (ll_unlock c h) ns = ring c ns"
  using ll_unlock_udata [of c h] by auto

lemma cur_at_unlock [simp]: "cur_at (ll_unlock c h) p = cur_at c p"
  using ll_unlock_udata [of c h] by auto

lemma ring_nz: "ring c ns \<Longrightarrow> i < length ns \<Longrightarrow> ns ! i \<noteq> 0"
  by (metis nth_mem ring_def)

text \<open>Moving the cursor.\<close>

lemma ring_move:
  assumes "ring c ns" "\<And>s. p_first (f s) = p_first s \<and> p_last (f s) = p_last s \<and> count (f s) = count s"
  shows "ring (upd_cur c f) ns"
  using assms by (auto simp: ring_def)

lemma ring_first:
  assumes "ring c ns" "ll_lock c hl = Some (h, c1)"
  shows "\<exists>c'. ll_first c hl = Some (user_ptr (hd ns), c') \<and> ring c' ns \<and> cur_at c' (hd ns) \<and> items c' = items c \<and>
     same_frame c c' \<and> p_udata c' = p_udata (ll_unlock c1 h)"
proof -
  obtain u where c1: "c1 = c\<lparr>p_udata := u\<rparr>" using ll_lock_udata [OF assms(2)] by blast
  obtain s where s: "cur_col c = Some s" "p_first s = hd ns" using assms(1) by (auto simp: ring_def)
  have nz: "hd ns \<noteq> 0" using assms(1) ring_nz [OF assms(1), of 0] by (auto simp: ring_def hd_conv_nth)
  let ?c2 = "upd_cur c1 (\<lambda>s. s\<lparr>p_current := p_first s, current := 0\<rparr>)"
  have "ring ?c2 ns" using assms(1) c1 by (intro ring_move) simp_all
  moreover have "cur_at ?c2 (hd ns)" using s c1 by (simp add: cur_at_def)
  ultimately show ?thesis using s nz assms(2) c1
    by (intro exI [of _ "ll_unlock ?c2 h"]) (auto simp: ll_first_def ll_unlock_pudata split: option.split)
qed

lemma ring_cnt:
  assumes "ring c ns" "ll_lock c hl = Some (h, c1)"
  shows "ll_cnt c hl = Some (of_nat (length ns), ll_unlock c1 h)"
proof -
  obtain s where s: "cur_col c = Some s" "unat (count s) = length ns" using assms(1) by (auto simp: ring_def)
  then have "count s = word_of_nat (length ns)" by (metis word_of_nat_unat)
  with s ll_lock_same [OF assms(2)] assms(2) show ?thesis by (simp add: ll_cnt_def)
qed

lemma ring_current:
  assumes "ring c ns" "cur_at c p" "ll_lock c hl = Some (h, c1)"
  shows "ll_current c hl = Some (if p \<noteq> 0 then user_ptr p else 0, ll_unlock c1 h)"
  using assms ll_lock_same [OF assms(3)] by (auto simp: ll_current_def cur_at_def)

lemma ring_next:
  assumes "ring c ns" "cur_at c (ns ! i)" "i < length ns" "ll_lock c hl = Some (h, c1)"
  shows "\<exists>c' r. ll_next c hl = Some (r, c') \<and> ring c' ns \<and> items c' = items c \<and> same_frame c c' \<and>
     p_udata c' = p_udata (ll_unlock c1 h) \<and>
     (r = user_ptr (ns ! (Suc i mod length ns)) \<and> cur_at c' (ns ! (Suc i mod length ns)) \<or> length ns = 1 \<and> r = 0)"
proof -
  obtain u where c1: "c1 = c\<lparr>p_udata := u\<rparr>" using ll_lock_udata [OF assms(4)] by blast
  obtain s where s: "cur_col c = Some s" "p_current s = ns ! i" using assms(2) by (auto simp: cur_at_def)
  obtain it where it: "items c (ns ! i) = Some it"
    "it_next it = ns ! (Suc i mod length ns) \<or> length ns = 1 \<and> it_next it = 0"
    using assms(1,3) by (auto simp: ring_def ring_item_def)
  have "Suc i mod length ns < length ns" using assms(3) by (intro mod_less_divisor) auto
  then have nz: "ns ! i \<noteq> 0" "ns ! (Suc i mod length ns) \<noteq> 0" using ring_nz [OF assms(1)] assms(3) by blast+
  show ?thesis
  proof (cases "it_next it = 0")
    case True
    then show ?thesis using nz it s assms c1 by (intro exI [of _ "ll_unlock c1 h"]) (auto simp: ll_next_def)
  next
    case False
    let ?c2 = "upd_cur c1 (\<lambda>s. s\<lparr>p_current := it_next it, current := current s + 1\<rparr>)"
    have "ring ?c2 ns" using assms(1) c1 by (intro ring_move) simp_all
    moreover have "cur_at ?c2 (it_next it)" using s c1 by (simp add: cur_at_def)
    ultimately show ?thesis using s nz it assms(4) c1 False
      by (intro exI [of _ "ll_unlock ?c2 h"]) (auto simp: ll_next_def ll_unlock_pudata split: option.split)
  qed
qed

section \<open>Turning the ring\<close>

text \<open>The links after the writes of \<open>ll_roll\<close>, where \<open>a\<close> is the first item, \<open>b\<close> the next and \<open>l\<close> the last one.\<close>

definition rolled :: "(ptr \<rightharpoonup> ll_item) \<Rightarrow> ptr \<Rightarrow> ptr \<Rightarrow> ptr \<Rightarrow> (ptr \<rightharpoonup> ll_item) \<Rightarrow> bool" where
  "rolled its a b l its' \<longleftrightarrow> dom its' = dom its \<and> (\<forall>x it. its x = Some it \<longrightarrow> (\<exists>it'. its' x = Some it' \<and>
     it_next it' = (if x = a then b else if x = l then a else it_next it) \<and>
     it_prev it' = (if x = a \<or> x = b then l else it_prev it)))"

lemma roll_writes:
  assumes "its a = Some ia" "its b = Some ib" "its l = Some il" "a \<noteq> l" "a \<noteq> b"
  shows "\<exists>its1 its2 its3. wr_its its l (\<lambda>x. x\<lparr>it_next := a\<rparr>) = Some its1 \<and>
     wr_its its1 a (\<lambda>x. x\<lparr>it_prev := l, it_next := b\<rparr>) = Some its2 \<and>
     wr_its its2 b (\<lambda>x. x\<lparr>it_prev := l\<rparr>) = Some its3 \<and> rolled its a b l its3"
  using assms by (cases "b = l") (auto simp: wr_its_def rolled_def)

lemma rolledD:
  assumes "rolled its a b l its'" "its x = Some it"
  obtains it' where "its' x = Some it'" "it_next it' = (if x = a then b else if x = l then a else it_next it)"
    "it_prev it' = (if x = a \<or> x = b then l else it_prev it)"
  using assms unfolding rolled_def by blast

lemma ring_rolled:
  assumes "\<forall>i<length (a # zs). ring_item its (a # zs) i" "distinct (a # zs)" "zs \<noteq> []" "rolled its a (hd zs) (last zs) its'"
  shows "\<forall>i<length (zs @ [a]). ring_item its' (zs @ [a]) i"
proof (intro allI impI)
  fix i assume i: "i < length (zs @ [a])"
  show "ring_item its' (zs @ [a]) i"
  proof (cases "i = length zs")
    case True
    obtain it where "its a = Some it" using assms(1) by (force simp: ring_item_def)
    then obtain it' where "its' a = Some it'" "it_next it' = hd zs" "it_prev it' = last zs"
      by (rule rolledD [OF assms(4)]) simp
    then show ?thesis using True assms(3) by (simp add: ring_item_def nth_append hd_conv_nth last_conv_nth)
  next
    case False
    then have i: "i < length zs" using i by simp
    then have "ring_item its (a # zs) (Suc i)" using assms(1) by simp
    then obtain it where it: "its (zs ! i) = Some it" "it_next it = (a # zs) ! (Suc (Suc i) mod Suc (length zs))"
      "it_prev it = (a # zs) ! i"
      using assms(3) by (auto simp: ring_item_def)
    have d: "zs ! i \<noteq> a" "zs ! i = hd zs \<longleftrightarrow> i = 0" "zs ! i = last zs \<longleftrightarrow> i = length zs - 1"
      using assms(2,3) i nth_eq_iff_index_eq [of zs i] by (auto simp: hd_conv_nth last_conv_nth)
    obtain it' where it': "its' (zs ! i) = Some it'" "it_next it' = (if i = length zs - 1 then a else it_next it)"
      "0 < i \<longrightarrow> it_prev it' = it_prev it"
      using d by (auto intro: rolledD [OF assms(4) it(1)])
    have "it_next it' = (zs @ [a]) ! (Suc i mod length (zs @ [a]))"
      using it'(2) it(2) i by (auto simp: nth_append)
    moreover have "0 < i \<longrightarrow> it_prev it' = (zs @ [a]) ! (i - 1)" using it'(3) it(3) i by (auto simp: nth_append nth_Cons')
    ultimately show ?thesis using it'(1) i by (auto simp: ring_item_def nth_append)
  qed
qed

lemma ring_roll:
  assumes "ring c ns" "ll_lock c hl = Some (h, c1)"
  shows "\<exists>c'. ll_roll c hl = Some c' \<and> ring c' (rotate1 ns) \<and> same_frame c c' \<and> dom (items c') = dom (items c) \<and>
     p_udata c' = p_udata (ll_unlock c1 h)"
proof -
  obtain u where c1: "c1 = c\<lparr>p_udata := u\<rparr>" using ll_lock_udata [OF assms(2)] by blast
  obtain a zs where ns: "ns = a # zs" using assms(1) by (cases ns) (auto simp: ring_def)
  have r: "mode c = LL_MODE_QUEUE" "distinct (a # zs)" "0 \<notin> set ns" "\<forall>i<length (a # zs). ring_item (items c) (a # zs) i"
    using assms(1) ns by (auto simp: ring_def)
  obtain s where s: "cur_col c = Some s" "p_first s = a" "p_last s = last (a # zs)" "unat (count s) = Suc (length zs)"
    using assms(1) ns by (auto simp: ring_def)
  have "ring_item (items c) (a # zs) 0" using r(4) by simp
  then obtain ia where ia: "items c a = Some ia" "zs \<noteq> [] \<longrightarrow> it_next ia = hd zs"
    by (auto simp: ring_item_def hd_conv_nth)
  show ?thesis
  proof (cases "zs = []")
    case True
    then have "ll_roll c hl = Some (ll_unlock c1 h)" using r(1) s ia(1) assms(2) c1 by (simp add: ll_roll_def)
    then show ?thesis using assms(1) ns True c1 by (intro exI [of _ "ll_unlock c1 h"]) simp
  next
    case False
    let ?l = "last zs" and ?b = "hd zs"
    have al: "a \<noteq> ?l" "a \<noteq> ?b" using r(2) False by auto
    have item: "\<exists>it. items c x = Some it" if "x \<in> set zs" for x
      using r(4) that by (force simp: in_set_conv_nth ring_item_def)
    then obtain ib il where b: "items c ?b = Some ib" "items c ?l = Some il" using False by (metis hd_in_set last_in_set)
    obtain its1 its2 its3 where w: "wr_its (items c) ?l (\<lambda>x. x\<lparr>it_next := a\<rparr>) = Some its1"
      "wr_its its1 a (\<lambda>x. x\<lparr>it_prev := ?l, it_next := ?b\<rparr>) = Some its2"
      "wr_its its2 ?b (\<lambda>x. x\<lparr>it_prev := ?l\<rparr>) = Some its3" "rolled (items c) a ?b ?l its3"
      using roll_writes [OF ia(1) b al] by blast
    let ?c2 = "upd_col ((upd_col c1 (ccol c) (\<lambda>s. s\<lparr>p_first := ?b, p_current := ?b\<rparr>))\<lparr>items := its3\<rparr>) (ccol c) (\<lambda>s. s\<lparr>p_last := a\<rparr>)"
    have "ll_roll c hl = Some (ll_unlock ?c2 h)"
      using r(1) s ia False assms(2) c1 w(1-3) al
      by (simp add: ll_roll_def wr_item_def Let_def)
    moreover have "ring ?c2 (zs @ [a])"
      using r s False ring_rolled [OF r(4,2) False w(4)] c1 ns by (simp add: ring_def)
    moreover have "dom its3 = dom (items c)" using w(4) by (simp add: rolled_def)
    ultimately show ?thesis using ns c1
      by (intro exI [of _ "ll_unlock ?c2 h"]) (auto simp: ll_unlock_pudata split: option.split)
  qed
qed

section \<open>Deleting the first item of a turned ring\<close>

text \<open>The links after \<open>ll_roll\<close> of a ring \<open>a, b, ..., l\<close>: the new first item \<open>b\<close> is left with the old last item as
  its predecessor.\<close>

lemma roll_first_prev:
  assumes "ring c (a # zs)" "zs \<noteq> []" "p_lock c = None"
  obtains c1 ib where "ll_roll c hl = Some c1" "ring c1 (zs @ [a])" "same_frame c c1" "items c1 (hd zs) = Some ib" "it_prev ib = last zs"
proof -
  have lk: "ll_lock c hl = Some (0, c)" using assms(3) by (simp add: ll_lock_def)
  from ring_roll [OF assms(1) lk] obtain c1 where c1: "ll_roll c hl = Some c1" "ring c1 (zs @ [a])" "same_frame c c1"
    by auto
  have r: "mode c = LL_MODE_QUEUE" "distinct (a # zs)" "\<forall>i<length (a # zs). ring_item (items c) (a # zs) i"
    using assms(1) by (auto simp: ring_def)
  obtain s where s: "cur_col c = Some s" "p_first s = a" "p_last s = last zs" using assms(1,2) by (auto simp: ring_def)
  have "ring_item (items c) (a # zs) 0" using r(3) by simp
  then obtain ia where ia: "items c a = Some ia" "it_next ia = hd zs" using assms(2) by (auto simp: ring_item_def hd_conv_nth)
  have "\<exists>it. items c x = Some it" if "x \<in> set zs" for x
    using r(3) that by (force simp: in_set_conv_nth ring_item_def)
  then obtain ib il where b: "items c (hd zs) = Some ib" "items c (last zs) = Some il" using assms(2) by (metis hd_in_set last_in_set)
  have al: "a \<noteq> last zs" "a \<noteq> hd zs" using r(2) assms(2) by auto
  have "\<exists>it. items c1 (hd zs) = Some it \<and> it_prev it = last zs"
    using c1(1) r(1) s ia b al lk by (auto simp: ll_roll_def wr_item_def wr_its_def Let_def ll_unlock_def split: if_splits option.splits)
  then show thesis using that c1 by blast
qed

lemma unlink_turned_first:
  assumes "ring c (b # z # zs @ [a])" "items c b = Some ib" "it_prev ib = l" "l \<in> set (z # zs)" "p_free c = Some f" "\<And>p sz u. f p sz u \<noteq> None"
  shows "\<exists>c' s it. ll_unlink c b = Some c' \<and> cur_col c' = Some s \<and> p_first s = z \<and> p_last s = a \<and>
     items c' l = Some it \<and> it_next it = z"
proof -
  let ?ns = "b # z # zs @ [a]"
  have r: "mode c = LL_MODE_QUEUE" "distinct ?ns" "0 \<notin> set ?ns" "\<forall>i<length ?ns. ring_item (items c) ?ns i"
    using assms(1) unfolding ring_def by blast+
  obtain s where s: "cur_col c = Some s" "p_first s = b" "p_last s = a" using assms(1) by (auto simp: ring_def)
  have nb: "it_next ib = z" using r(4) [rule_format, of 0] assms(2) by (auto simp: ring_item_def)
  have item: "\<exists>it. items c x = Some it" if "x \<in> set ?ns" for x
    using r(4) that by (metis in_set_conv_nth ring_item_def)
  obtain il iz ia where it: "items c l = Some il" "items c z = Some iz" "items c a = Some ia"
    using item [of l] item [of z] item [of a] assms(4) by auto
  have "l \<in> set ?ns" using assms(4) by auto
  then have "l \<noteq> 0" using r(3) by metis
  then have d: "l \<noteq> b" "l \<noteq> a" "l \<noteq> 0" "z \<noteq> b" "z \<noteq> a" "z \<noteq> 0" "a \<noteq> b" "b \<noteq> 0" using r(2,3) assms(4) by auto
  let ?its1 = "(items c)(l \<mapsto> il\<lparr>it_next := z\<rparr>)"
  obtain iz' where iz': "?its1 z = Some iz'" "l = z \<longrightarrow> it_next iz' = z" using it(2) by (cases "l = z") auto
  define its2 where "its2 = ?its1(z \<mapsto> iz'\<lparr>it_prev := l\<rparr>)"
  have i2: "its2 b = Some ib" "its2 a = Some ia" "\<exists>it. its2 l = Some it \<and> it_next it = z"
    using assms(2) it d iz' by (auto simp: its2_def)
  obtain u where u: "f b (item_size c) (p_udata c) = Some u" using assms(6) by (metis not_None_eq)
  let ?c2 = "(upd_cur c (\<lambda>s. s\<lparr>p_current := z\<rparr>))\<lparr>items := its2\<rparr>"
  let ?c3 = "(upd_col ?c2 (ccol c) (\<lambda>s. s\<lparr>p_first := z, p_current := z\<rparr>))\<lparr>items := its2(a \<mapsto> ia\<lparr>it_next := z\<rparr>)\<rparr>"
  have w1: "wr_if c (it_prev ib) (\<lambda>x. x\<lparr>it_next := it_next ib\<rparr>) = Some (c\<lparr>items := ?its1\<rparr>)"
    using assms(3) nb d(3) wr_item_Some [OF it(1)] by (simp add: wr_if_def)
  have w2: "unlink_next (c\<lparr>items := ?its1\<rparr>) b = Some ?c2"
    using assms(2,3) nb d iz'(1) by (simp add: unlink_next_def wr_item_def wr_its_def its2_def) (simp add: upd_col_def)
  have w3: "unlink_first ?c2 b = Some ?c3"
    using s i2(1,2) nb r(1) by (simp add: unlink_first_def wr_item_def wr_its_def Let_def)
  have w4: "unlink_last ?c3 b = Some ?c3" using s i2(1) d(7) by (simp add: unlink_last_def)
  let ?c4 = "upd_col ?c3 (ccol c) (\<lambda>s. s\<lparr>count := count s - 1\<rparr>)"
  have "ll_unlink c b = Some (?c4\<lparr>p_udata := u, items := (items ?c4)(b := None)\<rparr>)"
    using assms(2,5) w1 w2 w3 w4 d(8) u by (simp add: ll_unlink_def ll_mfree_def item_size_def)
  moreover have "\<exists>it. ((items ?c4)(b := None)) l = Some it \<and> it_next it = z" using i2(3) d(1,2) by simp
  ultimately show ?thesis using s by auto
qed

text \<open>C35: Deleting the first record of a queue that was turned loses a record. \<open>ll_roll\<close> leaves the new
  first item with the old last item, not the new one, as its predecessor; deleting the first item
  then links that predecessor past the last item. In a queue of three or more records whose first
  is deleted after a turn, the item before the last one is followed by the first item, so that the last
  record is no longer reached although it is still counted.\<close>

theorem queue_del_first_after_roll:
  assumes "ring c (a # b # z # zs)" and "p_lock c = None" and "p_unlock c = None" and "p_free c = Some f" and "\<forall>p sz u. f p sz u \<noteq> None"
  shows "\<exists>c1 c2 c3 s it. ll_roll c hl = Some c1 \<and> ll_first c1 hl = Some (user_ptr b, c2) \<and> ll_del_current c2 hl = Some c3 \<and>
    cur_col c3 = Some s \<and> p_first s = z \<and> p_last s = a \<and> items c3 (last (z # zs)) = Some it \<and> it_next it = z"
proof -
  obtain c1 ib where c1: "ll_roll c hl = Some c1" "ring c1 (b # z # zs @ [a])" "same_frame c c1" "items c1 b = Some ib"
    "it_prev ib = last (z # zs)"
    using roll_first_prev [OF assms(1) _ assms(2), of hl] by auto
  have l1: "ll_lock c1 hl = Some (0, c1)" using c1(3) assms(2) by (simp add: ll_lock_def same_frame_def)
  from ring_first [OF c1(2) l1] obtain c2 where c2: "ll_first c1 hl = Some (user_ptr b, c2)" "ring c2 (b # z # zs @ [a])"
    "cur_at c2 b" "items c2 = items c1" "same_frame c1 c2" by auto
  have "p_free c2 = Some f" using c1(3) c2(5) assms(4) by (simp add: same_frame_def)
  from unlink_turned_first [OF c2(2) _ c1(5) _ this] obtain c3 s it where "ll_unlink c2 b = Some c3" "cur_col c3 = Some s"
    "p_first s = z" "p_last s = a" "items c3 (last (z # zs)) = Some it" "it_next it = z"
    using c1(4) c2(4) assms(5) last_in_set [of "z # zs"] by auto
  moreover have "ll_lock c2 hl = Some (0, c2)" using c1(3) c2(5) assms(2) by (simp add: ll_lock_def same_frame_def)
  ultimately have "\<exists>c3 s it. ll_del_current c2 hl = Some c3 \<and> cur_col c3 = Some s \<and> p_first s = z \<and> p_last s = a \<and>
      items c3 (last (z # zs)) = Some it \<and> it_next it = z"
    using c2(3) by (auto simp: ll_del_current_def cur_at_def)
  then show ?thesis using c1(1) c2(1) by blast
qed

text \<open>A queue of three records.\<close>

definition demo_ring :: "unit ll_context" where
  "demo_ring = \<lparr>self = 9, mode = LL_MODE_QUEUE, data_size = 1, p_alloc = None, p_free = Some (\<lambda>p sz u. Some u), p_lock = None,
     p_unlock = None, p_udata = (), ccol = 0, ncol = 1,
     state = Some [\<lparr>p_current = 100, p_first = 100, p_last = 300, count = 3, current = 0\<rparr>],
     items = [100 \<mapsto> \<lparr>it_cxt = 9, it_col = 0, it_prev = 0, it_next = 200, it_data = [1]\<rparr>,
              200 \<mapsto> \<lparr>it_cxt = 9, it_col = 0, it_prev = 100, it_next = 300, it_data = [2]\<rparr>,
              300 \<mapsto> \<lparr>it_cxt = 9, it_col = 0, it_prev = 200, it_next = 100, it_data = [3]\<rparr>]\<rparr>"

lemma demo_ring_ok: "ring demo_ring [100, 200, 300]"
proof -
  have "ring_item (items demo_ring) [100, 200, 300] i" if "i < 3" for i
  proof -
    have "i = 0 \<or> i = 1 \<or> i = 2" using that by linarith
    then show ?thesis by (auto simp: ring_item_def demo_ring_def)
  qed
  then show ?thesis by (simp add: ring_def) (simp add: demo_ring_def get_col_def)
qed

theorem queue_del_first_after_roll_witness:
  "\<exists>c1 c2 c3 s it. ll_roll demo_ring 0 = Some c1 \<and> ll_first c1 0 = Some (225, c2) \<and> ll_del_current c2 0 = Some c3 \<and>
    cur_col c3 = Some s \<and> p_first s = 300 \<and> p_last s = 100 \<and> items c3 300 = Some it \<and> it_next it = 300"
  using queue_del_first_after_roll [OF demo_ring_ok, of "\<lambda>p sz u. Some u" 0]
  by (simp add: demo_ring_def user_ptr_def sizeof_hdr_def)

end
