(* ===== verification/Blender.thy ===== *)
theory Blender
  imports LL_Ring LList B24_PMA Event Acquire
begin

text \<open>
  The scheduler: the class cBlender of core/sys/micro_blender.cpp, on the queue of \<open>LL_Alg\<close> and the page
  allocator of \<open>B24_PMA\<close>. The threads (\<open>_cthread_t\<close>) live in the record data of the queue's items; the
  model sees that memory as \<open>threads\<close>, by the address the queue returns for the item, and not as bytes.

  The state of a CPU is a value of type \<open>'x\<close>: interrupts hand it to the scheduler, which returns the
  state to continue with. \<open>tscb\<close> is what the state callback at an address does to the scheduler,
  \<open>mkctx\<close> the context that the CPU's \<open>create_context\<close> makes. A null pointer that is dereferenced,
  a division by 0 and a call that never returns are \<open>None\<close>.
\<close>

section \<open>Threads and the scheduler\<close>

definition TS_RUNNING :: u16 where "TS_RUNNING = 1"
definition TS_PENDING :: u16 where "TS_PENDING = 2"
definition TS_SUSPEND :: u16 where "TS_SUSPEND = 4"
definition TS_FINISHED :: u16 where "TS_FINISHED = 8"
definition TS_SLEEP :: u16 where "TS_SLEEP = 0x10"
definition TS_EXCEPTION :: u16 where "TS_EXCEPTION = 0x20"
definition TS_BREAKPOINT :: u16 where "TS_BREAKPOINT = 0x40"
definition TS_DEBUG :: u16 where "TS_DEBUG = 0x80"
definition TS_MEMORY_EXCEPTION :: u16 where "TS_MEMORY_EXCEPTION = 0x100"

definition MIN_TIME_DIV :: u8 where "MIN_TIME_DIV = 1"
definition MAX_TIME_DIV :: u8 where "MAX_TIME_DIV = 10"
definition DEFAULT_TIME_DIV :: u8 where "DEFAULT_TIME_DIV = 10"
definition IDLE_WORK :: u16 where "IDLE_WORK = 2000"
definition DEFAULT_BOOT_COUNTDOWN :: u32 where "DEFAULT_BOOT_COUNTDOWN = 0x40000"
definition DEFAULT_APP_COUNTDOWN :: u32 where "DEFAULT_APP_COUNTDOWN = 0x400000"
definition DPL_SYS :: u8 where "DPL_SYS = 0"
definition DPL_USR :: u8 where "DPL_USR = 3"

record 'x cthread =
  t_entry :: ptr
  t_data :: ptr
  t_tstate_cb :: ptr
  t_tscb_data :: ptr
  t_stack_base :: ptr
  t_stack_sz :: u32
  t_id :: u32
  t_cpu :: u16
  t_dpl :: u8
  t_flags :: u16
  t_exception :: u8
  t_mf_addr :: u64
  t_resolution :: u32
  t_tm_sched :: u64
  t_tm_sleep :: u32
  t_exit_code :: u32
  t_context :: 'x

record icpu =
  cpu_no :: u16
  cpu_boot :: bool
  cpu_irqs :: bool
  cpu_countdown :: u32

record ('h, 'x) blender =
  m_is_running :: bool
  m_is_init :: bool
  m_idle_work :: u16
  m_idle_id :: u32
  m_thread_id :: u32
  m_timestamp :: u64
  m_q_systhread :: "'h cvector"
  threads :: "ptr \<rightharpoonup> 'x cthread"
  m_p_cpu :: "icpu option"
  m_p_pma :: pma
  m_timer :: u32
  m_time_div :: u8

type_synonym ('h, 'x) tscb = "ptr \<Rightarrow> ptr \<Rightarrow> u16 \<Rightarrow> ptr \<Rightarrow> ('h, 'x) blender \<Rightarrow> ('h, 'x) blender"
type_synonym 'x mkctx = "ptr \<Rightarrow> u32 \<Rightarrow> ptr \<Rightarrow> u8 \<Rightarrow> ptr \<Rightarrow> 'x \<Rightarrow> 'x"

text \<open>A call on the queue.\<close>

definition on_q :: "('h cvector \<Rightarrow> ('a \<times> 'h cvector) option) \<Rightarrow> ('h, 'x) blender \<Rightarrow> ('a \<times> ('h, 'x) blender) option" where
  "on_q f b = map_option (\<lambda>(r, q). (r, b\<lparr>m_q_systhread := q\<rparr>)) (f (m_q_systhread b))"

definition q_lock :: "('h, 'x) blender \<Rightarrow> (u64 \<times> ('h, 'x) blender) option" where
  "q_lock b = on_q (\<lambda>q. cVector_lock q 0) b"

definition q_unlock :: "u64 \<Rightarrow> ('h, 'x) blender \<Rightarrow> ('h, 'x) blender" where
  "q_unlock hm b = b\<lparr>m_q_systhread := cVector_unlock (m_q_systhread b) hm\<rparr>"

definition q_first :: "u64 \<Rightarrow> ('h, 'x) blender \<Rightarrow> (ptr \<times> ('h, 'x) blender) option" where
  "q_first hm b = on_q (\<lambda>q. ll_first q hm) b"

definition q_next :: "u64 \<Rightarrow> ('h, 'x) blender \<Rightarrow> (ptr \<times> ('h, 'x) blender) option" where
  "q_next hm b = on_q (\<lambda>q. ll_next q hm) b"

definition q_current :: "u64 \<Rightarrow> ('h, 'x) blender \<Rightarrow> (ptr \<times> ('h, 'x) blender) option" where
  "q_current hm b = on_q (\<lambda>q. ll_current q hm) b"

definition q_cnt :: "u64 \<Rightarrow> ('h, 'x) blender \<Rightarrow> (u32 \<times> ('h, 'x) blender) option" where
  "q_cnt hm b = on_q (\<lambda>q. ll_cnt q hm) b"

definition q_roll :: "u64 \<Rightarrow> ('h, 'x) blender \<Rightarrow> ('h, 'x) blender option" where
  "q_roll hm b = map_option (\<lambda>q. b\<lparr>m_q_systhread := q\<rparr>) (ll_roll (m_q_systhread b) hm)"

text \<open>Adding copies the thread into the new item, deleting releases the item under the cursor.\<close>

definition q_add :: "'x cthread \<Rightarrow> u64 \<Rightarrow> ('h, 'x) blender \<Rightarrow> (ptr \<times> ('h, 'x) blender) option" where
  "q_add t hm b =
     do {
       (p, b) \<leftarrow> on_q (\<lambda>q. ll_add q (\<lambda>_. 0) hm) b;
       Some (p, if p \<noteq> 0 then b\<lparr>threads := (threads b)(p \<mapsto> t)\<rparr> else b)
     }"

definition q_del :: "u64 \<Rightarrow> ('h, 'x) blender \<Rightarrow> ('h, 'x) blender option" where
  "q_del hm b =
     do {
       s \<leftarrow> cur_col (m_q_systhread b);
       q \<leftarrow> ll_del_current (m_q_systhread b) hm;
       Some (b\<lparr>m_q_systhread := q, threads := (threads b)(user_ptr (p_current s) := None)\<rparr>)
     }"

text \<open>Access to a thread through its address.\<close>

definition wr_thread :: "ptr \<Rightarrow> ('x cthread \<Rightarrow> 'x cthread) \<Rightarrow> ('h, 'x) blender \<Rightarrow> ('h, 'x) blender option" where
  "wr_thread p f b = map_option (\<lambda>t. b\<lparr>threads := (threads b)(p \<mapsto> f t)\<rparr>) (threads b p)"

definition cpu_interrupts :: "bool \<Rightarrow> ('h, 'x) blender \<Rightarrow> (bool \<times> ('h, 'x) blender) option" where
  "cpu_interrupts en b = map_option (\<lambda>c. (cpu_irqs c, b\<lparr>m_p_cpu := Some (c\<lparr>cpu_irqs := en\<rparr>)\<rparr>)) (m_p_cpu b)"

definition set_cpu_timer :: "u32 \<Rightarrow> ('h, 'x) blender \<Rightarrow> ('h, 'x) blender option" where
  "set_cpu_timer v b = map_option (\<lambda>c. b\<lparr>m_p_cpu := Some (c\<lparr>cpu_countdown := v\<rparr>)\<rparr>) (m_p_cpu b)"

definition div_time :: "u32 \<Rightarrow> u8 \<Rightarrow> u32 option" where
  "div_time x d = (if d = 0 then None else Some (x div ucast d))"

section \<open>Starting and stopping\<close>

definition zero_thread :: "'x \<Rightarrow> 'x cthread" where
  "zero_thread x = \<lparr>t_entry = 0, t_data = 0, t_tstate_cb = 0, t_tscb_data = 0, t_stack_base = 0, t_stack_sz = 0, t_id = 0,
     t_cpu = 0, t_dpl = 0, t_flags = 0, t_exception = 0, t_mf_addr = 0, t_resolution = 0, t_tm_sched = 0, t_tm_sleep = 0,
     t_exit_code = 0, t_context = x\<rparr>"

text \<open>\<open>x0\<close> is a CPU state of zero bytes.\<close>

definition create_idle :: "'x \<Rightarrow> ('h, 'x) blender \<Rightarrow> ('h, 'x) blender option" where
  "create_idle x0 b =
     do {
       c \<leftarrow> m_p_cpu b;
       let t = (zero_thread x0)\<lparr>t_dpl := DPL_SYS, t_cpu := cpu_no c, t_id := m_thread_id b\<rparr>;
       let b = b\<lparr>m_idle_id := m_thread_id b, m_idle_work := IDLE_WORK, m_thread_id := m_thread_id b + 1\<rparr>;
       (_, b) \<leftarrow> q_add t 0 b;
       Some b
     }"

text \<open>\<open>host\<close> is what the CPU host knows under an identifier, \<open>ts\<close> the CPU's time stamp.\<close>

definition cBlender_init :: "'x \<Rightarrow> (u16 \<Rightarrow> icpu option) \<Rightarrow> u64 \<Rightarrow> u16 \<Rightarrow> ('h, 'x) blender \<Rightarrow> ('h, 'x) blender option" where
  "cBlender_init x0 host ts cpu b =
     (if \<not> m_is_init b then
        let b = b\<lparr>m_p_cpu := host cpu\<rparr> in
        if host cpu \<noteq> None
        then do { b \<leftarrow> create_idle x0 (b\<lparr>m_timestamp := ts\<rparr>); Some (b\<lparr>m_is_init := True\<rparr>) }
        else Some b
      else Some b)"

definition cBlender_set_timer :: "u32 \<Rightarrow> ('h, 'x) blender \<Rightarrow> ('h, 'x) blender option" where
  "cBlender_set_timer tm b = set_cpu_timer (tm * ucast (m_time_div b)) (b\<lparr>m_timer := tm\<rparr>)"

definition cBlender_start :: "('h, 'x) blender \<Rightarrow> ('h, 'x) blender option" where
  "cBlender_start b =
     (if m_is_init b \<and> \<not> m_is_running b then
        do {
          c \<leftarrow> m_p_cpu b;
          b \<leftarrow> cBlender_set_timer (if cpu_boot c then DEFAULT_BOOT_COUNTDOWN else DEFAULT_APP_COUNTDOWN) b;
          Some (b\<lparr>m_is_running := True\<rparr>)
        }
      else Some b)"

definition cBlender_stop :: "('h, 'x) blender \<Rightarrow> ('h, 'x) blender option" where
  "cBlender_stop b =
     (if m_is_init b \<and> m_is_running b
      then do { b \<leftarrow> set_cpu_timer 0 b; Some (b\<lparr>m_is_running := False\<rparr>) } else Some b)"

definition cBlender_set_time_div :: "u8 \<Rightarrow> ('h, 'x) blender \<Rightarrow> ('h, 'x) blender option" where
  "cBlender_set_time_div d b =
     (if MIN_TIME_DIV \<le> d \<and> d \<le> MAX_TIME_DIV then
        let b = b\<lparr>m_time_div := d\<rparr> in
        if m_p_cpu b \<noteq> None \<and> m_is_running b then cBlender_set_timer (m_timer b) b else Some b
      else Some b)"

definition cBlender_enable_interrupts :: "bool \<Rightarrow> ('h, 'x) blender \<Rightarrow> (bool \<times> ('h, 'x) blender) option" where
  "cBlender_enable_interrupts en b = (if m_p_cpu b \<noteq> None then cpu_interrupts en b else Some (False, b))"

definition set_thread_state :: "('h, 'x) tscb \<Rightarrow> ptr \<Rightarrow> u16 \<Rightarrow> ('h, 'x) blender \<Rightarrow> ('h, 'x) blender option" where
  "set_thread_state tscb p fl b =
     do {
       b \<leftarrow> wr_thread p (\<lambda>t. t\<lparr>t_flags := t_flags t OR fl\<rparr>) b;
       t \<leftarrow> threads b p;
       Some (if t_tstate_cb t \<noteq> 0 then tscb (t_tstate_cb t) p fl (t_tscb_data t) b else b)
     }"

section \<open>Creating threads\<close>

definition stack_pages_for :: "u32 \<Rightarrow> u32 \<Rightarrow> u32" where
  "stack_pages_for sz ps = sz div ps + (if sz mod ps \<noteq> 0 then 1 else 0)"

definition create_systhread ::
    "('x mkctx) \<Rightarrow> 'x \<Rightarrow> ptr \<Rightarrow> ptr \<Rightarrow> u32 \<Rightarrow> ptr \<Rightarrow> bool \<Rightarrow> u32 \<Rightarrow> ('h, 'x) blender \<Rightarrow> (u32 \<times> ('h, 'x) blender) option" where
  "create_systhread mkctx x0 starter_proc p_entry stack_sz p_data suspend resolution b =
     (if m_is_init b then
        do {
          c \<leftarrow> m_p_cpu b;
          let t = (zero_thread x0)\<lparr>t_entry := p_entry, t_data := p_data, t_dpl := DPL_SYS,
                t_flags := TS_PENDING OR (if suspend then TS_SUSPEND else 0), t_cpu := cpu_no c, t_id := m_thread_id b,
                t_resolution := resolution\<rparr>;
          (ints, b) \<leftarrow> cpu_interrupts False b;
          (hm, b) \<leftarrow> q_lock b;
          let ps = of_nat (page_size (m_p_pma b));
          (r, b) \<leftarrow>
            (if ps = 0 then None else
             do {
               let n = stack_pages_for (if stack_sz \<noteq> 0 then stack_sz else 1) ps;
               (stack, s) \<leftarrow> pma_alloc (m_p_pma b) n RT_SYSTEM DEFAULT_PMA_LIMIT;
               let b = b\<lparr>m_p_pma := s\<rparr>;
               if stack \<noteq> 0 then
                 do {
                   let t = t\<lparr>t_stack_base := stack, t_stack_sz := n * ps\<rparr>;
                   (p, b) \<leftarrow> q_add t hm b;
                   b \<leftarrow> wr_thread p (\<lambda>t. t\<lparr>t_context := mkctx stack (n * ps) starter_proc DPL_SYS p (t_context t)\<rparr>) b;
                   Some (m_thread_id b, b\<lparr>m_thread_id := m_thread_id b + 1\<rparr>)
                 }
               else Some (0, b)
             });
          (_, b) \<leftarrow> cpu_interrupts ints (q_unlock hm b);
          Some (r, b)
        }
      else Some (0, b))"

definition create_usr_systhread ::
    "'x mkctx \<Rightarrow> 'x \<Rightarrow> ptr \<Rightarrow> ptr \<Rightarrow> u32 \<Rightarrow> ptr \<Rightarrow> bool \<Rightarrow> u32 \<Rightarrow> ('h, 'x) blender \<Rightarrow> (u32 \<times> ('h, 'x) blender) option" where
  "create_usr_systhread mkctx x0 p_entry p_stack stack_sz p_data suspend resolution b =
     (if m_is_init b then
        do {
          c \<leftarrow> m_p_cpu b;
          let t = (zero_thread x0)\<lparr>t_entry := p_entry, t_data := p_data, t_dpl := DPL_USR,
                t_flags := TS_PENDING OR (if suspend then TS_SUSPEND else 0), t_cpu := cpu_no c, t_id := m_thread_id b,
                t_stack_base := p_stack, t_stack_sz := stack_sz, t_resolution := resolution\<rparr>;
          (ints, b) \<leftarrow> cpu_interrupts False b;
          (hm, b) \<leftarrow> q_lock b;
          (p, b) \<leftarrow> q_add t hm b;
          b \<leftarrow> wr_thread p (\<lambda>t. t\<lparr>t_context := mkctx p_stack stack_sz p_entry DPL_USR p_data (t_context t)\<rparr>) b;
          let r = m_thread_id b;
          (_, b) \<leftarrow> cpu_interrupts ints (q_unlock hm (b\<lparr>m_thread_id := m_thread_id b + 1\<rparr>));
          Some (r, b)
        }
      else Some (0, b))"

text \<open>\<open>starter_proc\<close> before and after the call of the thread's entry.\<close>

definition starter_enter :: "('h, 'x) tscb \<Rightarrow> ptr \<Rightarrow> ('h, 'x) blender \<Rightarrow> ('h, 'x) blender option" where
  "starter_enter tscb p b =
     do { b \<leftarrow> wr_thread p (\<lambda>t. t\<lparr>t_flags := t_flags t AND NOT TS_PENDING\<rparr>) b; set_thread_state tscb p TS_RUNNING b }"

definition starter_exit :: "('h, 'x) tscb \<Rightarrow> ptr \<Rightarrow> u32 \<Rightarrow> ('h, 'x) blender \<Rightarrow> ('h, 'x) blender option" where
  "starter_exit tscb p code b =
     do {
       b \<leftarrow> wr_thread p (\<lambda>t. t\<lparr>t_exit_code := code, t_flags := t_flags t AND NOT TS_RUNNING OR (TS_PENDING OR TS_FINISHED)\<rparr>) b;
       t \<leftarrow> threads b p;
       Some (if t_tstate_cb t \<noteq> 0 then tscb (t_tstate_cb t) p TS_FINISHED (t_tscb_data t) b else b)
     }"

section \<open>Removing finished threads\<close>

text \<open>The loop of \<open>idle\<close> at thread \<open>p\<close>, with \<open>i\<close> threads passed.\<close>

partial_function (option) idle_loop ::
    "u64 \<Rightarrow> u32 \<Rightarrow> u32 \<Rightarrow> ptr \<Rightarrow> ('h, 'x) blender \<Rightarrow> ('h, 'x) blender option" where
  "idle_loop hm i tcount p b =
     do {
       t \<leftarrow> threads b p;
       if t_flags t AND (TS_FINISHED OR TS_EXCEPTION) \<noteq> 0 then
         do {
           let ps = of_nat (page_size (m_p_pma b));
           (_, s) \<leftarrow> (if ps = 0 then None else pma_free (m_p_pma b) (t_stack_base t) (stack_pages_for (t_stack_sz t) ps));
           b \<leftarrow> q_del hm (b\<lparr>m_p_pma := s\<rparr>);
           (tcount, b) \<leftarrow> q_cnt hm b;
           (p, b) \<leftarrow> q_current hm b;
           if p \<noteq> 0 \<and> i < tcount then idle_loop hm i tcount p b else Some b
         }
       else
         do {
           (p, b) \<leftarrow> q_next hm b;
           if p \<noteq> 0 \<and> i + 1 < tcount then idle_loop hm (i + 1) tcount p b else Some b
         }
     }"

definition cBlender_idle :: "('h, 'x) blender \<Rightarrow> ('h, 'x) blender option" where
  "cBlender_idle b =
     (if m_is_init b then
        if m_idle_work b \<noteq> 0 then Some (b\<lparr>m_idle_work := m_idle_work b - 1\<rparr>)
        else
          do {
            (irqs, b) \<leftarrow> cpu_interrupts False b;
            (hm, b) \<leftarrow> q_lock b;
            (tcount, b) \<leftarrow> q_cnt hm b;
            (p, b) \<leftarrow> q_first hm b;
            b \<leftarrow> (if p \<noteq> 0 then idle_loop hm 0 tcount p b else Some b);
            (_, b) \<leftarrow> cpu_interrupts irqs (q_unlock hm (b\<lparr>m_idle_work := IDLE_WORK\<rparr>));
            Some b
          }
      else Some b)"

section \<open>Switching threads\<close>

definition TS_BLOCKED :: u16 where
  "TS_BLOCKED = TS_FINISHED OR TS_SLEEP OR TS_SUSPEND OR TS_BREAKPOINT OR TS_DEBUG OR TS_MEMORY_EXCEPTION OR TS_EXCEPTION"

text \<open>Rolling the queue until its first thread is available.\<close>

partial_function (option) roll_loop :: "u64 \<Rightarrow> ('h, 'x) blender \<Rightarrow> (ptr \<times> ('h, 'x) blender) option" where
  "roll_loop hm b =
     do {
       b \<leftarrow> q_roll hm b;
       (p, b) \<leftarrow> q_first hm b;
       t \<leftarrow> threads b p;
       if t_flags t AND TS_BLOCKED \<noteq> 0 then roll_loop hm b else Some (p, b)
     }"

text \<open>Leaving thread \<open>p\<close> with the CPU state \<open>st\<close>, and entering one.\<close>

definition leave_thread :: "('h, 'x) tscb \<Rightarrow> ptr \<Rightarrow> 'x \<Rightarrow> ('h, 'x) blender \<Rightarrow> ('h, 'x) blender option" where
  "leave_thread tscb p st b =
     do {
       b \<leftarrow> wr_thread p (\<lambda>t. t\<lparr>t_context := st, t_flags := t_flags t AND NOT TS_RUNNING\<rparr>) b;
       b \<leftarrow> set_thread_state tscb p TS_PENDING b;
       t \<leftarrow> threads b p;
       if t_resolution t \<noteq> 0 then
         do {
           d \<leftarrow> div_time (t_resolution t) (m_time_div b);
           wr_thread p (\<lambda>t. t\<lparr>t_flags := t_flags t OR TS_SLEEP, t_tm_sleep := t_tm_sleep t + d\<rparr>) b
         }
       else Some b
     }"

definition enter_thread :: "('h, 'x) tscb \<Rightarrow> ptr \<Rightarrow> ('h, 'x) blender \<Rightarrow> ('x \<times> ('h, 'x) blender) option" where
  "enter_thread tscb p b =
     do {
       b \<leftarrow> wr_thread p (\<lambda>t. t\<lparr>t_flags := t_flags t AND NOT TS_PENDING\<rparr>) b;
       b \<leftarrow> set_thread_state tscb p TS_RUNNING b;
       t \<leftarrow> threads b p;
       Some (t_context t, b)
     }"

definition switch_context :: "('h, 'x) tscb \<Rightarrow> 'x \<Rightarrow> ('h, 'x) blender \<Rightarrow> ('x \<times> ('h, 'x) blender) option" where
  "switch_context tscb st b =
     (if m_is_init b then
        do {
          (hm, b) \<leftarrow> q_lock b;
          (old, b) \<leftarrow> q_first hm b;
          (st, b) \<leftarrow>
            (if old \<noteq> 0 then
               do {
                 (new, b) \<leftarrow> roll_loop hm b;
                 if new \<noteq> old then do { b \<leftarrow> leave_thread tscb old st b; enter_thread tscb new b } else Some (st, b)
               }
             else Some (st, b));
          Some (st, q_unlock hm b)
        }
      else Some (st, b))"

text \<open>The interrupt that \<open>m_p_cpu->switch_context()\<close> raises: the CPU calls the scheduler if it is
  running.\<close>

definition cpu_switch_context :: "('h, 'x) tscb \<Rightarrow> 'x \<Rightarrow> ('h, 'x) blender \<Rightarrow> ('x \<times> ('h, 'x) blender) option" where
  "cpu_switch_context tscb st b = (if m_is_running b then switch_context tscb st b else Some (st, b))"

text \<open>The countdown of sleeping threads, at thread \<open>p\<close> with \<open>i\<close> threads passed.\<close>

definition sleep_tick :: "'x cthread \<Rightarrow> 'x cthread" where
  "sleep_tick t =
     (if t_flags t AND TS_SLEEP \<noteq> 0
      then if t_tm_sleep t = 0 then t\<lparr>t_flags := t_flags t AND NOT TS_SLEEP\<rparr> else t\<lparr>t_tm_sleep := t_tm_sleep t - 1\<rparr>
      else t)"

partial_function (option) timer_loop ::
    "u64 \<Rightarrow> u32 \<Rightarrow> u32 \<Rightarrow> ptr \<Rightarrow> ('h, 'x) blender \<Rightarrow> ('h, 'x) blender option" where
  "timer_loop hm i tcount p b =
     do {
       b \<leftarrow> wr_thread p sleep_tick b;
       (p, b) \<leftarrow> q_next hm b;
       if p \<noteq> 0 \<and> i + 1 < tcount then timer_loop hm (i + 1) tcount p b else Some b
     }"

definition blender_timer :: "('h, 'x) tscb \<Rightarrow> 'x \<Rightarrow> ('h, 'x) blender \<Rightarrow> ('x \<times> ('h, 'x) blender) option" where
  "blender_timer tscb st b =
     (if m_is_init b then
        do {
          (hm, b) \<leftarrow> q_lock b;
          (p, b) \<leftarrow> q_first hm b;
          b \<leftarrow> (if p \<noteq> 0 then
                  do {
                    b \<leftarrow> wr_thread p (\<lambda>t. t\<lparr>t_tm_sched := t_tm_sched t + 1\<rparr>) b;
                    (tcount, b) \<leftarrow> q_cnt hm b;
                    timer_loop hm 0 tcount p b
                  }
                else Some b);
          switch_context tscb st (q_unlock hm b)
        }
      else Some (st, b))"

text \<open>The interrupts and exceptions of the current thread: a change of its record and a state.\<close>

definition current_stops ::
    "('h, 'x) tscb \<Rightarrow> ('x cthread \<Rightarrow> 'x cthread) \<Rightarrow> u16 \<Rightarrow> 'x \<Rightarrow> ('h, 'x) blender \<Rightarrow> ('x \<times> ('h, 'x) blender) option" where
  "current_stops tscb f fl st b =
     (if m_is_init b then
        do {
          (hm, b) \<leftarrow> q_lock b;
          (p, b) \<leftarrow> q_first hm b;
          b \<leftarrow> (if p \<noteq> 0 then do { b \<leftarrow> wr_thread p f b; set_thread_state tscb p fl b } else Some b);
          switch_context tscb st (q_unlock hm b)
        }
      else Some (st, b))"

definition blender_exception :: "('h, 'x) tscb \<Rightarrow> u8 \<Rightarrow> 'x \<Rightarrow> ('h, 'x) blender \<Rightarrow> ('x \<times> ('h, 'x) blender) option" where
  "blender_exception tscb exn = current_stops tscb (\<lambda>t. t\<lparr>t_exception := exn\<rparr>) TS_EXCEPTION"

definition blender_breakpoint :: "('h, 'x) tscb \<Rightarrow> 'x \<Rightarrow> ('h, 'x) blender \<Rightarrow> ('x \<times> ('h, 'x) blender) option" where
  "blender_breakpoint tscb = current_stops tscb (\<lambda>t. t) TS_BREAKPOINT"

definition blender_debug :: "('h, 'x) tscb \<Rightarrow> 'x \<Rightarrow> ('h, 'x) blender \<Rightarrow> ('x \<times> ('h, 'x) blender) option" where
  "blender_debug tscb = current_stops tscb (\<lambda>t. t) TS_DEBUG"

definition memory_exception :: "('h, 'x) tscb \<Rightarrow> u64 \<Rightarrow> 'x \<Rightarrow> ('h, 'x) blender \<Rightarrow> ('x \<times> ('h, 'x) blender) option" where
  "memory_exception tscb addr = current_stops tscb (\<lambda>t. t\<lparr>t_mf_addr := addr\<rparr>) TS_MEMORY_EXCEPTION"

section \<open>Thread control\<close>

partial_function (option) find_loop ::
    "u64 \<Rightarrow> u32 \<Rightarrow> u32 \<Rightarrow> u32 \<Rightarrow> ptr \<Rightarrow> ('h, 'x) blender \<Rightarrow> (ptr \<times> ('h, 'x) blender) option" where
  "find_loop hm tid i c p b =
     do {
       t \<leftarrow> threads b p;
       if t_id t = tid then Some (p, b)
       else do { (p, b) \<leftarrow> q_next hm b; if i + 1 < c \<and> p \<noteq> 0 then find_loop hm tid (i + 1) c p b else Some (0, b) }
     }"

definition get_thread :: "u32 \<Rightarrow> ('h, 'x) blender \<Rightarrow> (ptr \<times> ('h, 'x) blender) option" where
  "get_thread tid b =
     (if m_is_init b \<and> tid \<noteq> m_idle_id b then
        do {
          (irqs, b) \<leftarrow> cpu_interrupts False b;
          (hm, b) \<leftarrow> q_lock b;
          (c, b) \<leftarrow> q_cnt hm b;
          (p, b) \<leftarrow> q_first hm b;
          (r, b) \<leftarrow> (if p \<noteq> 0 then find_loop hm tid 0 c p b else Some (0, b));
          (_, b) \<leftarrow> cpu_interrupts irqs (q_unlock hm b);
          Some (r, b)
        }
      else Some (0, b))"

definition get_systhread :: "u32 \<Rightarrow> ('h, 'x) blender \<Rightarrow> (ptr \<times> ('h, 'x) blender) option" where
  "get_systhread = get_thread"

definition with_thread ::
    "(ptr \<Rightarrow> ('h, 'x) blender \<Rightarrow> ('h, 'x) blender option) \<Rightarrow> u32 \<Rightarrow> ('h, 'x) blender \<Rightarrow> ('h, 'x) blender option" where
  "with_thread f tid b = do { (p, b) \<leftarrow> get_thread tid b; if p \<noteq> 0 then f p b else Some b }"

definition terminate_systhread :: "('h, 'x) tscb \<Rightarrow> u32 \<Rightarrow> ('h, 'x) blender \<Rightarrow> ('h, 'x) blender option" where
  "terminate_systhread tscb = with_thread (\<lambda>p. set_thread_state tscb p TS_FINISHED)"

definition suspend_systhread :: "('h, 'x) tscb \<Rightarrow> u32 \<Rightarrow> ('h, 'x) blender \<Rightarrow> ('h, 'x) blender option" where
  "suspend_systhread tscb = with_thread (\<lambda>p. set_thread_state tscb p TS_SUSPEND)"

definition resume_systhread :: "u32 \<Rightarrow> ('h, 'x) blender \<Rightarrow> ('h, 'x) blender option" where
  "resume_systhread = with_thread (\<lambda>p. wr_thread p (\<lambda>t. t\<lparr>t_flags := t_flags t AND NOT TS_SUSPEND\<rparr>))"

definition set_state_callback :: "u32 \<Rightarrow> ptr \<Rightarrow> ptr \<Rightarrow> ('h, 'x) blender \<Rightarrow> ('h, 'x) blender option" where
  "set_state_callback tid cb d = with_thread (\<lambda>p. wr_thread p (\<lambda>t. t\<lparr>t_tscb_data := d, t_tstate_cb := cb\<rparr>)) tid"

definition sleep_systhread :: "('h, 'x) tscb \<Rightarrow> u32 \<Rightarrow> u32 \<Rightarrow> ('h, 'x) blender \<Rightarrow> ('h, 'x) blender option" where
  "sleep_systhread tscb tid countdown =
     with_thread (\<lambda>p b. do {
       d \<leftarrow> div_time countdown (m_time_div b);
       b \<leftarrow> wr_thread p (\<lambda>t. t\<lparr>t_tm_sleep := d\<rparr>) b;
       set_thread_state tscb p TS_SLEEP b }) tid"

text \<open>A thread puts itself to sleep; \<open>st\<close> is its CPU state at the interrupt.\<close>

definition sleep_current :: "('h, 'x) tscb \<Rightarrow> u32 \<Rightarrow> 'x \<Rightarrow> ('h, 'x) blender \<Rightarrow> ('x \<times> ('h, 'x) blender) option" where
  "sleep_current tscb countdown st b =
     do {
       (irqs, b) \<leftarrow> cpu_interrupts False b;
       (hm, b) \<leftarrow> q_lock b;
       (p, b) \<leftarrow> q_first hm b;
       b \<leftarrow> (if p \<noteq> 0 then
               do {
                 d \<leftarrow> div_time countdown (m_time_div b);
                 b \<leftarrow> wr_thread p (\<lambda>t. t\<lparr>t_tm_sleep := d\<rparr>) b;
                 set_thread_state tscb p TS_SLEEP b
               }
             else Some b);
       (_, b) \<leftarrow> cpu_interrupts irqs (q_unlock hm b);
       cpu_switch_context tscb st b
     }"

definition current_systhread_id :: "('h, 'x) blender \<Rightarrow> (u32 \<times> ('h, 'x) blender) option" where
  "current_systhread_id b =
     do {
       (p, b) \<leftarrow> q_first 0 b;
       if p \<noteq> 0 then do { t \<leftarrow> threads b p; Some (t_id t, b) } else Some (0, b)
     }"

text \<open>Waiting for an event: what other threads do to it between two checks is \<open>others\<close>.\<close>

partial_function (option) wait_event_loop ::
    "(cevent \<Rightarrow> cevent) \<Rightarrow> u32 \<Rightarrow> u32 \<Rightarrow> cevent \<Rightarrow> (u32 \<times> cevent) option" where
  "wait_event_loop others msk tmo e =
     (case cEvent_check e msk of (r, e) \<Rightarrow>
        let tmo = (if tmo \<noteq> EVENT_TIMEOUT_INFINITE then tmo - 1 else tmo)
        in if r = 0 \<and> tmo \<noteq> 0 then wait_event_loop others msk tmo (others e) else Some (r, e))"

definition cBlender_wait_event :: "bool \<Rightarrow> (cevent \<Rightarrow> cevent) \<Rightarrow> cevent option \<Rightarrow> u32 \<Rightarrow> u32 \<Rightarrow> (u32 \<times> cevent option) option" where
  "cBlender_wait_event cpu others p_event msk timeout =
     (case p_event of
        None \<Rightarrow> Some (0, None)
      | Some e \<Rightarrow> if cpu then map_option (\<lambda>(r, e). (r, Some e)) (wait_event_loop others msk timeout e) else Some (0, Some e))"

section \<open>The queue under its lock\<close>

definition q_ok :: "(cmutex \<Rightarrow> bool) \<Rightarrow> 'h cvector \<Rightarrow> ptr list \<Rightarrow> bool" where
  "q_ok Q q ns \<longleftrightarrow> ring q ns \<and> LL_Alg.p_lock q = Some llv_lock \<and> LL_Alg.p_unlock q = Some llv_unlock \<and>
     (\<exists>m. m_p_mutex (LL_Alg.p_udata q) = Some m \<and> Q m)"

abbreviation q_held :: "u64 \<Rightarrow> 'h cvector \<Rightarrow> ptr list \<Rightarrow> bool" where
  "q_held hm \<equiv> q_ok (\<lambda>m. cMutex_held m hm 1)"

abbreviation q_idle :: "'h cvector \<Rightarrow> ptr list \<Rightarrow> bool" where
  "q_idle \<equiv> q_ok cMutex_free"

lemma q_bracket:
  assumes "q_held hm q ns"
  obtains q1 m where "ll_lock q hm = Some (hm, q1)" "p_udata (ll_unlock q1 hm) = (p_udata q)\<lparr>m_p_mutex := Some m\<rparr>" "cMutex_held m hm 1"
proof -
  obtain m where m: "m_p_mutex (p_udata q) = Some m" "cMutex_held m hm (Suc 0)" using assms by (auto simp: q_ok_def)
  from cmutex_lock.bracket_held [OF m(2)] obtain m' where
    "cMutex_lock m hm MUTEX_TIMEOUT_INFINITE 0 = Some (hm, m')" "cMutex_held (cMutex_unlock m' hm) hm 1" by auto
  then show thesis using that assms m(1)
    by (auto simp: q_ok_def ll_lock_def llv_lock_def ll_unlock_def llv_unlock_def)
qed

lemma q_held_frame:
  assumes "q_held hm q ns" "ring q' ns'" "same_frame q q'" "p_udata q' = (p_udata q)\<lparr>m_p_mutex := Some m\<rparr>" "cMutex_held m hm 1"
  shows "q_held hm q' ns'"
  using assms by (auto simp: q_ok_def same_frame_def)

lemma q_lock_idle:
  assumes "q_idle (m_q_systhread b) ns"
  obtains hm q where "q_lock b = Some (hm, b\<lparr>m_q_systhread := q\<rparr>)" "q_held hm q ns"
proof -
  obtain m where m: "m_p_mutex (p_udata (m_q_systhread b)) = Some m" "cMutex_free m" using assms by (auto simp: q_ok_def)
  from cmutex_lock.acquire_free [OF m(2)] obtain hm m' where
    "cMutex_lock m 0 MUTEX_TIMEOUT_INFINITE 0 = Some (hm, m')" "cMutex_held m' hm 1" by auto
  then show thesis using that assms m(1) by (auto simp: q_ok_def q_lock_def on_q_def cVector_lock_def llv_lock_def)
qed

lemma q_unlock_held:
  assumes "q_held hm (m_q_systhread b) ns"
  obtains q' where "q_unlock hm b = b\<lparr>m_q_systhread := q'\<rparr>" "q_idle q' ns"
  using assms cmutex_lock.release_last by (auto simp: q_ok_def q_unlock_def cVector_unlock_def llv_unlock_def)

lemma q_first_held:
  assumes "q_held hm (m_q_systhread b) ns"
  obtains q where "q_first hm b = Some (user_ptr (hd ns), b\<lparr>m_q_systhread := q\<rparr>)" "q_held hm q ns" "cur_at q (hd ns)"
proof -
  obtain q1 m where l: "ll_lock (m_q_systhread b) hm = Some (hm, q1)"
    "p_udata (ll_unlock q1 hm) = (p_udata (m_q_systhread b))\<lparr>m_p_mutex := Some m\<rparr>" "cMutex_held m hm 1"
    using q_bracket [OF assms] .
  have "ring (m_q_systhread b) ns" using assms by (simp add: q_ok_def)
  from ring_first [OF this l(1)] obtain q where q: "ll_first (m_q_systhread b) hm = Some (user_ptr (hd ns), q)" "ring q ns"
    "cur_at q (hd ns)" "same_frame (m_q_systhread b) q" "p_udata q = p_udata (ll_unlock q1 hm)" by auto
  then show thesis using that q_held_frame [OF assms q(2,4)] l by (auto simp: q_first_def on_q_def)
qed

lemma q_roll_held:
  assumes "q_held hm (m_q_systhread b) ns"
  obtains q where "q_roll hm b = Some (b\<lparr>m_q_systhread := q\<rparr>)" "q_held hm q (rotate1 ns)"
proof -
  obtain q1 m where l: "ll_lock (m_q_systhread b) hm = Some (hm, q1)"
    "p_udata (ll_unlock q1 hm) = (p_udata (m_q_systhread b))\<lparr>m_p_mutex := Some m\<rparr>" "cMutex_held m hm 1"
    using q_bracket [OF assms] .
  have "ring (m_q_systhread b) ns" using assms by (simp add: q_ok_def)
  from ring_roll [OF this l(1)] obtain q where q: "ll_roll (m_q_systhread b) hm = Some q" "ring q (rotate1 ns)"
    "same_frame (m_q_systhread b) q" "p_udata q = p_udata (ll_unlock q1 hm)" by auto
  then show thesis using that q_held_frame [OF assms q(2,3)] l by (auto simp: q_roll_def)
qed

lemma q_cnt_held:
  assumes "q_held hm (m_q_systhread b) ns"
  obtains q where "q_cnt hm b = Some (of_nat (length ns), b\<lparr>m_q_systhread := q\<rparr>)" "q_held hm q ns"
    "\<And>p. cur_at q p = cur_at (m_q_systhread b) p"
proof -
  obtain q1 m where l: "ll_lock (m_q_systhread b) hm = Some (hm, q1)"
    "p_udata (ll_unlock q1 hm) = (p_udata (m_q_systhread b))\<lparr>m_p_mutex := Some m\<rparr>" "cMutex_held m hm 1"
    using q_bracket [OF assms] .
  have r: "ring (m_q_systhread b) ns" using assms by (simp add: q_ok_def)
  obtain u where q1: "q1 = (m_q_systhread b)\<lparr>p_udata := u\<rparr>" using ll_lock_udata [OF l(1)] by blast
  have "ring (ll_unlock q1 hm) ns" "same_frame (m_q_systhread b) (ll_unlock q1 hm)" using r q1 by simp_all
  from q_held_frame [OF assms this l(2,3)] show thesis
    using that ring_cnt [OF r l(1)] q1 by (auto simp: q_cnt_def on_q_def)
qed

lemma q_next_held:
  assumes "q_held hm (m_q_systhread b) ns" "cur_at (m_q_systhread b) (ns ! i)" "i < length ns"
  obtains r q where "q_next hm b = Some (r, b\<lparr>m_q_systhread := q\<rparr>)" "q_held hm q ns"
    "r = user_ptr (ns ! (Suc i mod length ns)) \<and> cur_at q (ns ! (Suc i mod length ns)) \<or> length ns = 1 \<and> r = 0"
proof -
  obtain q1 m where l: "ll_lock (m_q_systhread b) hm = Some (hm, q1)"
    "p_udata (ll_unlock q1 hm) = (p_udata (m_q_systhread b))\<lparr>m_p_mutex := Some m\<rparr>" "cMutex_held m hm 1"
    using q_bracket [OF assms(1)] .
  have r: "ring (m_q_systhread b) ns" using assms(1) by (simp add: q_ok_def)
  from ring_next [OF r assms(2,3) l(1)] obtain q r where q: "ll_next (m_q_systhread b) hm = Some (r, q)" "ring q ns"
    "same_frame (m_q_systhread b) q" "p_udata q = p_udata (ll_unlock q1 hm)"
    "r = user_ptr (ns ! (Suc i mod length ns)) \<and> cur_at q (ns ! (Suc i mod length ns)) \<or> length ns = 1 \<and> r = 0" by blast
  then show thesis using that q_held_frame [OF assms(1) q(2,3)] l by (auto simp: q_next_def on_q_def)
qed

end
