(* ===== verification/Blender_Sched.thy ===== *)
theory Blender_Sched
  imports Blender
begin

text \<open>
  What the scheduler does: the next thread, the contexts and states of the two threads of a switch,
  fairness and the end of sleep.
\<close>

section \<open>Threads that may run\<close>

definition may_run :: "('h, 'x) blender \<Rightarrow> ptr \<Rightarrow> bool" where
  "may_run b p \<longleftrightarrow> (\<exists>t. threads b (user_ptr p) = Some t \<and> t_flags t AND TS_BLOCKED = 0)"

lemma may_run_queue [simp]: "may_run (b\<lparr>m_q_systhread := q\<rparr>) p = may_run b p"
  by (simp add: may_run_def)

lemma user_ptr_inj [simp]: "user_ptr p = user_ptr q \<longleftrightarrow> p = q"
  by (simp add: user_ptr_def)

lemma user_ptr_nz [simp]: "user_ptr p \<noteq> 0"
  by (simp add: user_ptr_def sizeof_hdr_def)

lemma hd_rotate_mod: "ns \<noteq> [] \<Longrightarrow> hd (rotate k ns) = ns ! (k mod length ns)"
  by (simp add: hd_rotate_conv_nth)

lemma roll_loop_next:
  assumes "q_held hm (m_q_systhread b) ns" "\<forall>p\<in>set ns. threads b (user_ptr p) \<noteq> None"
    "may_run b (ns ! (Suc k mod length ns))" "\<forall>j<k. \<not> may_run b (ns ! (Suc j mod length ns))"
  shows "\<exists>q. roll_loop hm b = Some (user_ptr (ns ! (Suc k mod length ns)), b\<lparr>m_q_systhread := q\<rparr>) \<and> q_held hm q (rotate (Suc k) ns)"
  using assms
proof (induction k arbitrary: b ns)
  case 0
  obtain q where q: "q_roll hm b = Some (b\<lparr>m_q_systhread := q\<rparr>)" "q_held hm q (rotate1 ns)" using q_roll_held [OF 0(1)] .
  obtain q' where q': "q_first hm (b\<lparr>m_q_systhread := q\<rparr>) = Some (user_ptr (hd (rotate1 ns)), b\<lparr>m_q_systhread := q'\<rparr>)"
    "q_held hm q' (rotate1 ns)" using q_first_held [of hm "b\<lparr>m_q_systhread := q\<rparr>"] q(2) by auto
  have ne: "ns \<noteq> []" using 0(1) by (simp add: q_ok_def ring_def)
  have hd: "hd (rotate1 ns) = ns ! (Suc 0 mod length ns)" using hd_rotate_mod [OF ne, of 1] by simp
  obtain t where "threads b (user_ptr (hd (rotate1 ns))) = Some t" "t_flags t AND TS_BLOCKED = 0"
    using 0(3) hd by (auto simp: may_run_def)
  then have "roll_loop hm b = Some (user_ptr (hd (rotate1 ns)), b\<lparr>m_q_systhread := q'\<rparr>)"
    using q(1) q'(1) by (subst roll_loop.simps) simp
  then show ?case using q'(2) hd by auto
next
  case (Suc k)
  obtain q where q: "q_roll hm b = Some (b\<lparr>m_q_systhread := q\<rparr>)" "q_held hm q (rotate1 ns)" using q_roll_held [OF Suc.prems(1)] .
  obtain q' where q': "q_first hm (b\<lparr>m_q_systhread := q\<rparr>) = Some (user_ptr (hd (rotate1 ns)), b\<lparr>m_q_systhread := q'\<rparr>)"
    "q_held hm q' (rotate1 ns)" using q_first_held [of hm "b\<lparr>m_q_systhread := q\<rparr>"] q(2) by auto
  let ?b = "b\<lparr>m_q_systhread := q'\<rparr>"
  have ne: "ns \<noteq> []" using Suc.prems(1) by (simp add: q_ok_def ring_def)
  have nth: "rotate1 ns ! (j mod length ns) = ns ! (Suc j mod length ns)" for j
    using ne nth_rotate1 [of "j mod length ns" ns] by (simp add: mod_Suc_eq)
  have hd: "hd (rotate1 ns) = ns ! (Suc 0 mod length ns)" using hd_rotate_mod [OF ne, of 1] by simp
  then have "\<not> may_run b (hd (rotate1 ns))" "hd (rotate1 ns) \<in> set ns"
    using Suc.prems(4) ne hd_in_set [of "rotate1 ns"] by auto
  then obtain t where t: "threads b (user_ptr (hd (rotate1 ns))) = Some t" "t_flags t AND TS_BLOCKED \<noteq> 0"
    using Suc.prems(2) by (auto simp: may_run_def)
  have "\<exists>q. roll_loop hm ?b = Some (user_ptr (rotate1 ns ! (Suc k mod length (rotate1 ns))), ?b\<lparr>m_q_systhread := q\<rparr>) \<and>
      q_held hm q (rotate (Suc k) (rotate1 ns))"
    using Suc.prems q'(2) nth by (intro Suc.IH) auto
  then have "\<exists>q. roll_loop hm ?b = Some (user_ptr (ns ! (Suc (Suc k) mod length ns)), b\<lparr>m_q_systhread := q\<rparr>) \<and>
      q_held hm q (rotate (Suc (Suc k)) ns)"
    using nth [of "Suc k"] by (simp add: rotate1_rotate_swap)
  moreover have "roll_loop hm b = roll_loop hm ?b" using q(1) q'(1) t by (subst roll_loop.simps) simp
  ultimately show ?case by simp
qed

text \<open>The first thread behind the current one that may run, counted from it; the current one itself comes
  last.\<close>

lemma next_thread:
  assumes "ns \<noteq> []" "\<exists>p\<in>set ns. may_run b p"
  obtains k where "k < length ns" "may_run b (ns ! (Suc k mod length ns))" "\<forall>j<k. \<not> may_run b (ns ! (Suc j mod length ns))"
proof -
  let ?P = "\<lambda>k. may_run b (ns ! (Suc k mod length ns))"
  obtain i where i: "i < length ns" "may_run b (ns ! i)" using assms(2) by (auto simp: in_set_conv_nth)
  then have e: "\<exists>k<length ns. ?P k" by (intro exI [of _ "if i = 0 then length ns - 1 else i - 1"]) auto
  then obtain k where "k < length ns" "?P k" by blast
  then have "?P (LEAST k. ?P k)" "(LEAST k. ?P k) < length ns" by (auto intro: LeastI [of ?P k] Least_le [of ?P k, THEN le_less_trans])
  then show thesis using that not_less_Least [of _ ?P] by blast
qed

section \<open>A switch\<close>

text \<open>The record of the thread that is left with the CPU state \<open>st\<close>, and of the one that is entered.\<close>

definition left_thread :: "u8 \<Rightarrow> 'x \<Rightarrow> 'x cthread \<Rightarrow> 'x cthread" where
  "left_thread d st t =
     (let t = t\<lparr>t_context := st, t_flags := (t_flags t AND NOT TS_RUNNING) OR TS_PENDING\<rparr>
      in if t_resolution t \<noteq> 0
         then t\<lparr>t_flags := t_flags t OR TS_SLEEP, t_tm_sleep := t_tm_sleep t + t_resolution t div ucast d\<rparr> else t)"

definition entered_thread :: "'x cthread \<Rightarrow> 'x cthread" where
  "entered_thread t = t\<lparr>t_flags := (t_flags t AND NOT TS_PENDING) OR TS_RUNNING\<rparr>"

lemma set_thread_state_neutral:
  assumes "\<forall>cb p fl d b. tscb cb p fl d b = b" "threads b p = Some t"
  shows "set_thread_state tscb p fl b = Some (b\<lparr>threads := (threads b)(p \<mapsto> t\<lparr>t_flags := t_flags t OR fl\<rparr>)\<rparr>)"
  using assms by (simp add: set_thread_state_def wr_thread_def)

lemma leave_thread_neutral:
  assumes "\<forall>cb p fl d b. tscb cb p fl d b = b" "threads b p = Some t" "m_time_div b \<noteq> 0"
  shows "leave_thread tscb p st b = Some (b\<lparr>threads := (threads b)(p \<mapsto> left_thread (m_time_div b) st t)\<rparr>)"
  using assms by (simp add: leave_thread_def wr_thread_def set_thread_state_neutral [where t = "t\<lparr>t_context := st, t_flags := t_flags t AND NOT TS_RUNNING\<rparr>"]
      left_thread_def div_time_def Let_def)

lemma enter_thread_neutral:
  assumes "\<forall>cb p fl d b. tscb cb p fl d b = b" "threads b p = Some t"
  shows "enter_thread tscb p b = Some (t_context t, b\<lparr>threads := (threads b)(p \<mapsto> entered_thread t)\<rparr>)"
  using assms by (simp add: enter_thread_def wr_thread_def set_thread_state_neutral [where t = "t\<lparr>t_flags := t_flags t AND NOT TS_PENDING\<rparr>"]
      entered_thread_def)

definition switched :: "ptr \<Rightarrow> ptr \<Rightarrow> 'x \<Rightarrow> ('h, 'x) blender \<Rightarrow> ptr \<rightharpoonup> 'x cthread" where
  "switched old new st b = (threads b)
     (user_ptr old := map_option (left_thread (m_time_div b) st) (threads b (user_ptr old)),
      user_ptr new := map_option entered_thread (threads b (user_ptr new)))"

lemma switch_to_next:
  assumes neutral: "\<forall>cb p fl d b. tscb cb p fl d b = b"
    and q: "q_idle (m_q_systhread b) ns" and i: "m_is_init b" "m_time_div b \<noteq> 0"
    and th: "\<forall>p\<in>set ns. threads b (user_ptr p) \<noteq> None"
    and k: "k < length ns" "may_run b (ns ! (Suc k mod length ns))" "\<forall>j<k. \<not> may_run b (ns ! (Suc j mod length ns))"
  shows "\<exists>st' q'. q_idle q' (rotate (Suc k) ns) \<and>
     switch_context tscb st b = Some (st', b\<lparr>threads :=
       (if Suc k = length ns then threads b else switched (hd ns) (ns ! Suc k) st b), m_q_systhread := q'\<rparr>) \<and>
     (if Suc k = length ns then st' = st else (\<exists>t. threads b (user_ptr (ns ! Suc k)) = Some t \<and> st' = t_context t))"
proof -
  have ns: "ns \<noteq> []" "distinct ns" using q by (auto simp: q_ok_def ring_def)
  obtain hm q1 where l: "q_lock b = Some (hm, b\<lparr>m_q_systhread := q1\<rparr>)" "q_held hm q1 ns" using q_lock_idle [OF q] .
  obtain q2 where f: "q_first hm (b\<lparr>m_q_systhread := q1\<rparr>) = Some (user_ptr (hd ns), b\<lparr>m_q_systhread := q2\<rparr>)" "q_held hm q2 ns"
    using q_first_held [of hm "b\<lparr>m_q_systhread := q1\<rparr>"] l(2) by auto
  let ?new = "ns ! (Suc k mod length ns)"
  let ?b = "b\<lparr>m_q_systhread := q2\<rparr>"
  obtain q3 where r: "roll_loop hm ?b = Some (user_ptr ?new, b\<lparr>m_q_systhread := q3\<rparr>)" "q_held hm q3 (rotate (Suc k) ns)"
    using roll_loop_next [of hm ?b ns k] f(2) th k by (auto simp: may_run_def)
  show ?thesis
  proof (cases "Suc k = length ns")
    case True
    then have "?new = hd ns" using ns by (simp add: hd_conv_nth)
    moreover obtain q4 where "q_unlock hm (b\<lparr>m_q_systhread := q3\<rparr>) = b\<lparr>m_q_systhread := q4\<rparr>" "q_idle q4 (rotate (Suc k) ns)"
      using q_unlock_held [of hm "b\<lparr>m_q_systhread := q3\<rparr>"] r(2) by auto
    ultimately show ?thesis using True i l(1) f(1) r(1) by (auto simp: switch_context_def)
  next
    case False
    then have n: "?new = ns ! Suc k" "Suc k < length ns" using k(1) by simp_all
    then have ne: "ns ! Suc k \<noteq> hd ns" using ns by (simp add: hd_conv_nth nth_eq_iff_index_eq)
    obtain t t' where t: "threads b (user_ptr (hd ns)) = Some t" "threads b (user_ptr (ns ! Suc k)) = Some t'"
      using th ns(1) n(2) by (metis hd_in_set nth_mem not_None_eq)
    let ?b3 = "b\<lparr>m_q_systhread := q3\<rparr>"
    let ?b4 = "?b3\<lparr>threads := (threads b)(user_ptr (hd ns) \<mapsto> left_thread (m_time_div b) st t)\<rparr>"
    have lv: "leave_thread tscb (user_ptr (hd ns)) st ?b3 = Some ?b4"
      using leave_thread_neutral [OF neutral, of ?b3] t(1) i(2) by simp
    have en: "enter_thread tscb (user_ptr (ns ! Suc k)) ?b4 = Some (t_context t', ?b4\<lparr>threads := switched (hd ns) (ns ! Suc k) st b\<rparr>)"
      using enter_thread_neutral [OF neutral, of ?b4] t ne by (simp add: switched_def)
    obtain q4 where "q_unlock hm (?b4\<lparr>threads := switched (hd ns) (ns ! Suc k) st b\<rparr>) =
        b\<lparr>threads := switched (hd ns) (ns ! Suc k) st b, m_q_systhread := q4\<rparr>" "q_idle q4 (rotate (Suc k) ns)"
      using q_unlock_held [of hm "?b4\<lparr>threads := switched (hd ns) (ns ! Suc k) st b\<rparr>"] r(2) by auto
    then show ?thesis using False i l(1) f(1) r(1) n ne lv en t by (auto simp: switch_context_def)
  qed
qed

section \<open>Fairness\<close>

text \<open>A scheduler whose queue is the ring of the items \<open>ns\<close>, with a free mutex and a thread in each item.\<close>

definition sched_ok :: "('h, 'x) blender \<Rightarrow> ptr list \<Rightarrow> bool" where
  "sched_ok b ns \<longleftrightarrow> m_is_init b \<and> m_time_div b \<noteq> 0 \<and> q_idle (m_q_systhread b) ns \<and>
     (\<forall>p\<in>set ns. threads b (user_ptr p) \<noteq> None)"

definition thread_at :: "('h, 'x) blender \<Rightarrow> ptr \<Rightarrow> 'x cthread" where
  "thread_at b p = the (threads b (user_ptr p))"

lemma sched_ring: "sched_ok b ns \<Longrightarrow> ns \<noteq> [] \<and> distinct ns"
  by (auto simp: sched_ok_def q_ok_def ring_def)

lemma blocked_bits:
  "(TS_RUNNING AND TS_BLOCKED) = 0" "(TS_PENDING AND TS_BLOCKED) = 0" "(TS_SLEEP AND TS_BLOCKED) = TS_SLEEP"
  by (simp_all add: TS_RUNNING_def TS_PENDING_def TS_BLOCKED_def TS_FINISHED_def TS_SLEEP_def TS_SUSPEND_def
      TS_BREAKPOINT_def TS_DEBUG_def TS_MEMORY_EXCEPTION_def TS_EXCEPTION_def)

lemma mask_other:
  fixes a m x :: u16
  assumes "a AND m = 0"
  shows "(x OR a) AND m = x AND m" and "(x AND NOT a) AND m = x AND m"
  using assms by (auto simp: bit_eq_iff bit_simps)

lemma left_flags: "t_resolution t = 0 \<Longrightarrow> t_flags (left_thread d st t) AND TS_BLOCKED = t_flags t AND TS_BLOCKED"
  by (simp add: left_thread_def Let_def mask_other blocked_bits)

lemma entered_flags: "t_flags (entered_thread t) AND TS_BLOCKED = t_flags t AND TS_BLOCKED"
  by (simp add: entered_thread_def mask_other blocked_bits)

lemma switched_frame:
  assumes "\<forall>p\<in>set ns. threads b (user_ptr p) \<noteq> None" "old \<in> set ns" "new \<in> set ns" "p \<in> set ns"
  shows "\<exists>t'. switched old new st b (user_ptr p) = Some t' \<and> t_resolution t' = t_resolution (thread_at b p) \<and>
     (t_resolution (thread_at b p) = 0 \<longrightarrow> t_flags t' AND TS_BLOCKED = t_flags (thread_at b p) AND TS_BLOCKED)"
proof -
  obtain t where t: "threads b (user_ptr p) = Some t" using assms(1,4) by auto
  show ?thesis using t
    by (auto simp: switched_def thread_at_def left_flags entered_flags) (auto simp: left_thread_def entered_thread_def Let_def)
qed

lemma switch_step:
  assumes "\<forall>cb p fl d b. tscb cb p fl d b = b" "sched_ok b ns" "\<exists>p\<in>set ns. may_run b p"
  obtains k st' b' where "k < length ns" "may_run b (ns ! (Suc k mod length ns))" "\<forall>j<k. \<not> may_run b (ns ! (Suc j mod length ns))"
    "switch_context tscb st b = Some (st', b')" "sched_ok b' (rotate (Suc k) ns)"
    "threads b' = (if Suc k = length ns then threads b else switched (hd ns) (ns ! Suc k) st b)"
    "if Suc k = length ns then st' = st else st' = t_context (thread_at b (ns ! Suc k))"
proof -
  have ns: "ns \<noteq> []" using sched_ring [OF assms(2)] by simp
  obtain k where k: "k < length ns" "may_run b (ns ! (Suc k mod length ns))" "\<forall>j<k. \<not> may_run b (ns ! (Suc j mod length ns))"
    using next_thread [OF ns assms(3)] .
  have o: "m_is_init b" "m_time_div b \<noteq> 0" "q_idle (m_q_systhread b) ns" "\<forall>p\<in>set ns. threads b (user_ptr p) \<noteq> None"
    using assms(2) by (simp_all add: sched_ok_def)
  let ?T = "if Suc k = length ns then threads b else switched (hd ns) (ns ! Suc k) st b"
  obtain st' q' where s: "q_idle q' (rotate (Suc k) ns)"
    "switch_context tscb st b = Some (st', b\<lparr>threads := ?T, m_q_systhread := q'\<rparr>)"
    "if Suc k = length ns then st' = st else (\<exists>t. threads b (user_ptr (ns ! Suc k)) = Some t \<and> st' = t_context t)"
    using switch_to_next [OF assms(1) o(3,1,2,4) k] by blast
  have "?T (user_ptr p) \<noteq> None" if "p \<in> set ns" for p
    using o(4) that switched_frame [OF o(4) hd_in_set [OF ns] _ that, of "ns ! Suc k" st] k(1) by (cases "Suc k = length ns") auto
  then have "sched_ok (b\<lparr>threads := ?T, m_q_systhread := q'\<rparr>) (rotate (Suc k) ns)" using o s(1) by (simp add: sched_ok_def)
  with s show thesis using that [OF k s(2)] by (cases "Suc k = length ns") (auto simp: thread_at_def)
qed

text \<open>Switches one after another, each with the CPU state at its interrupt.\<close>

fun switches :: "('h, 'x) tscb \<Rightarrow> 'x list \<Rightarrow> ('h, 'x) blender \<Rightarrow> ('h, 'x) blender option" where
  "switches tscb [] b = Some b"
| "switches tscb (st # sts) b = do { (_, b) \<leftarrow> switch_context tscb st b; switches tscb sts b }"

lemma may_run_thread: "sched_ok b ns \<Longrightarrow> p \<in> set ns \<Longrightarrow> may_run b p \<longleftrightarrow> t_flags (thread_at b p) AND TS_BLOCKED = 0"
  by (auto simp: sched_ok_def may_run_def thread_at_def)

lemma switches_reach:
  assumes "\<forall>cb p fl d b. tscb cb p fl d b = b"
  shows "sched_ok b ns \<Longrightarrow> \<forall>p\<in>set ns. t_resolution (thread_at b p) = 0 \<Longrightarrow> j < length ns \<Longrightarrow> may_run b (ns ! j) \<Longrightarrow>
    j \<le> length sts \<Longrightarrow> \<exists>n\<le>j. \<exists>b' ns'. switches tscb (take n sts) b = Some b' \<and> sched_ok b' ns' \<and> hd ns' = ns ! j \<and> set ns' = set ns"
proof (induction j arbitrary: b ns sts rule: less_induct)
  case (less j)
  have ns: "ns \<noteq> []" using sched_ring [OF less.prems(1)] by simp
  show ?case
  proof (cases "j = 0")
    case True
    then show ?thesis using less.prems(1) ns by (intro exI [of _ 0]) (auto simp: hd_conv_nth)
  next
    case False
    then obtain st rest where sts: "sts = st # rest" using less.prems(5) by (cases sts) auto
    have "\<exists>p\<in>set ns. may_run b p" using less.prems(3,4) by auto
    from switch_step [OF assms less.prems(1) this] obtain k st' b' where k: "k < length ns"
      "\<forall>i<k. \<not> may_run b (ns ! (Suc i mod length ns))" "switch_context tscb st b = Some (st', b')"
      "sched_ok b' (rotate (Suc k) ns)"
      "threads b' = (if Suc k = length ns then threads b else switched (hd ns) (ns ! Suc k) st b)" by metis
    have kj: "Suc k \<le> j" using k(2) [rule_format, of "j - 1"] less.prems(3,4) False by force
    then have sk: "Suc k < length ns" using less.prems(3) by simp
    have th: "\<forall>p\<in>set ns. threads b (user_ptr p) \<noteq> None" using less.prems(1) by (simp add: sched_ok_def)
    have same: "t_resolution (thread_at b' p) = 0 \<and> t_flags (thread_at b' p) AND TS_BLOCKED = t_flags (thread_at b p) AND TS_BLOCKED"
      if "p \<in> set ns" for p
      using switched_frame [OF th hd_in_set [OF ns] nth_mem [OF sk] that, of st] less.prems(2) that k(5) sk
      by (auto simp: thread_at_def)
    let ?ns = "rotate (Suc k) ns"
    have at: "?ns ! (j - Suc k) = ns ! j" using kj less.prems(3) by (simp add: nth_rotate del: rotate_Suc)
    have run: "may_run b' (?ns ! (j - Suc k))"
      using may_run_thread [OF k(4)] may_run_thread [OF less.prems(1)] same less.prems(3,4) at by (simp del: rotate_Suc)
    have "\<exists>n\<le>j - Suc k. \<exists>b'' ns'. switches tscb (take n rest) b' = Some b'' \<and> sched_ok b'' ns' \<and> hd ns' = ?ns ! (j - Suc k) \<and> set ns' = set ?ns"
      using kj less.prems(3,5) sts same k(4) run by (intro less.IH) (auto simp del: rotate_Suc)
    then obtain n b'' ns' where n: "n \<le> j - Suc k" "switches tscb (take n rest) b' = Some b''" "sched_ok b'' ns'"
      "hd ns' = ns ! j" "set ns' = set ns" using at by auto
    then show ?thesis using kj sts k(3) by (intro exI [of _ "Suc n"]) auto
  qed
qed

section \<open>Sleep\<close>

text \<open>The threads from position \<open>i\<close> on after their tick.\<close>

definition ticked :: "ptr list \<Rightarrow> (ptr \<rightharpoonup> 'x cthread) \<Rightarrow> ptr \<rightharpoonup> 'x cthread" where
  "ticked ns T = (\<lambda>a. if a \<in> user_ptr ` set ns then map_option sleep_tick (T a) else T a)"

lemma ticked_simps:
  "ticked [] T = T" "p \<notin> set ns \<Longrightarrow> ticked ns (T(user_ptr p \<mapsto> sleep_tick t)) = ticked (p # ns) (T(user_ptr p \<mapsto> t))"
  by (auto simp: ticked_def fun_eq_iff image_iff)

lemma timer_loop_ticks:
  assumes "q_held hm (m_q_systhread b) ns" "cur_at (m_q_systhread b) (ns ! i)" "i < length ns"
    "\<forall>p\<in>set ns. threads b (user_ptr p) \<noteq> None" "length ns < 2 ^ 32"
  shows "\<exists>q. timer_loop hm (of_nat i) (of_nat (length ns)) (user_ptr (ns ! i)) b =
     Some (b\<lparr>threads := ticked (drop i ns) (threads b), m_q_systhread := q\<rparr>) \<and> q_held hm q ns"
  using assms
proof (induction "length ns - i" arbitrary: i b)
  case 0
  then show ?case by simp
next
  case (Suc n)
  let ?p = "user_ptr (ns ! i)"
  obtain t where t: "threads b ?p = Some t" using Suc.prems(3,4) by (metis not_None_eq nth_mem)
  let ?b = "b\<lparr>threads := (threads b)(?p \<mapsto> sleep_tick t)\<rparr>"
  have d: "drop i ns = ns ! i # drop (Suc i) ns" using Suc.prems(3) by (simp add: Cons_nth_drop_Suc)
  have "distinct ns" using Suc.prems(1) by (simp add: q_ok_def ring_def)
  then have "distinct (drop i ns)" by simp
  then have "ns ! i \<notin> set (drop (Suc i) ns)" unfolding d by simp
  then have tk: "ticked (drop (Suc i) ns) ((threads b)(?p \<mapsto> sleep_tick t)) = ticked (drop i ns) (threads b)"
    using t d ticked_simps(2) [of "ns ! i" "drop (Suc i) ns" "threads b" t] by (simp add: fun_upd_idem)
  obtain r q where q: "q_next hm ?b = Some (r, ?b\<lparr>m_q_systhread := q\<rparr>)" "q_held hm q ns"
    "r = user_ptr (ns ! (Suc i mod length ns)) \<and> cur_at q (ns ! (Suc i mod length ns)) \<or> length ns = 1 \<and> r = 0"
    using q_next_held [of hm ?b ns i] Suc.prems(1-3) by auto
  have w: "(of_nat i + 1 :: u32) < of_nat (length ns) \<longleftrightarrow> Suc i < length ns"
    using Suc.prems(3,5) unfolding of_nat_Suc_word by (simp add: word_less_nat_alt del: of_nat_Suc)
  show ?case
  proof (cases "Suc i < length ns")
    case True
    then have r: "r = user_ptr (ns ! Suc i)" "cur_at q (ns ! Suc i)" using q(3) by auto
    let ?b' = "?b\<lparr>m_q_systhread := q\<rparr>"
    have "\<exists>q'. timer_loop hm (of_nat (Suc i)) (of_nat (length ns)) (user_ptr (ns ! Suc i)) ?b' =
        Some (?b'\<lparr>threads := ticked (drop (Suc i) ns) (threads ?b'), m_q_systhread := q'\<rparr>) \<and> q_held hm q' ns"
      using Suc.hyps(2) Suc.prems(4,5) True q(2) r(2) by (intro Suc.hyps(1)) auto
    moreover have "timer_loop hm (of_nat i) (of_nat (length ns)) ?p b = timer_loop hm (of_nat (Suc i)) (of_nat (length ns)) (user_ptr (ns ! Suc i)) ?b'"
      using t q(1) r(1) w True by (subst timer_loop.simps) (simp add: wr_thread_def add.commute)
    ultimately show ?thesis using tk by auto
  next
    case False
    then have "drop (Suc i) ns = []" by simp
    then have "ticked (drop i ns) (threads b) = (threads b)(?p \<mapsto> sleep_tick t)" using tk by (simp add: ticked_simps)
    moreover have "timer_loop hm (of_nat i) (of_nat (length ns)) ?p b = Some (?b\<lparr>m_q_systhread := q\<rparr>)"
      using t q(1) w False by (subst timer_loop.simps) (simp add: wr_thread_def)
    ultimately show ?thesis using q(2) by auto
  qed
qed

definition bump :: "ptr list \<Rightarrow> ptr \<Rightarrow> 'x cthread \<Rightarrow> 'x cthread" where
  "bump ns p t = (if p = hd ns then t\<lparr>t_tm_sched := t_tm_sched t + 1\<rparr> else t)"

lemma timer_is_switch:
  assumes "sched_ok b ns"
  obtains b' where "blender_timer tscb st b = switch_context tscb st b'" "sched_ok b' ns"
    "\<And>p. p \<in> set ns \<Longrightarrow> thread_at b' p = sleep_tick (bump ns p (thread_at b p))"
proof -
  have o: "m_is_init b" "m_time_div b \<noteq> 0" "q_idle (m_q_systhread b) ns" "\<forall>p\<in>set ns. threads b (user_ptr p) \<noteq> None"
    using assms by (simp_all add: sched_ok_def)
  have ns: "ns \<noteq> []" using sched_ring [OF assms] by simp
  have len: "length ns < 2 ^ 32" using o(3) unat_u32_lt by (auto simp: q_ok_def ring_def) metis
  obtain hm q1 where l: "q_lock b = Some (hm, b\<lparr>m_q_systhread := q1\<rparr>)" "q_held hm q1 ns" using q_lock_idle [OF o(3)] .
  obtain q2 where f: "q_first hm (b\<lparr>m_q_systhread := q1\<rparr>) = Some (user_ptr (hd ns), b\<lparr>m_q_systhread := q2\<rparr>)" "q_held hm q2 ns"
    "cur_at q2 (hd ns)"
    using q_first_held [of hm "b\<lparr>m_q_systhread := q1\<rparr>"] l(2) by auto
  obtain t where t: "threads b (user_ptr (hd ns)) = Some t" using o(4) ns by (metis hd_in_set not_None_eq)
  let ?T = "(threads b)(user_ptr (hd ns) \<mapsto> t\<lparr>t_tm_sched := t_tm_sched t + 1\<rparr>)"
  obtain q3 where c: "q_cnt hm (b\<lparr>m_q_systhread := q2, threads := ?T\<rparr>) = Some (of_nat (length ns), b\<lparr>threads := ?T, m_q_systhread := q3\<rparr>)"
    "q_held hm q3 ns" "cur_at q3 (hd ns)"
    by (rule q_cnt_held [of hm "b\<lparr>m_q_systhread := q2, threads := ?T\<rparr>" ns]) (use f(2,3) in simp_all)
  let ?b = "b\<lparr>threads := ?T, m_q_systhread := q3\<rparr>"
  obtain q4 where tl: "timer_loop hm 0 (of_nat (length ns)) (user_ptr (hd ns)) ?b = Some (b\<lparr>threads := ticked ns ?T, m_q_systhread := q4\<rparr>)"
    "q_held hm q4 ns"
  proof -
    have "\<forall>p\<in>set ns. threads ?b (user_ptr p) \<noteq> None" using o(4) by simp
    then have "\<exists>q. timer_loop hm (of_nat 0) (of_nat (length ns)) (user_ptr (ns ! 0)) ?b =
        Some (?b\<lparr>threads := ticked (drop 0 ns) (threads ?b), m_q_systhread := q\<rparr>) \<and> q_held hm q ns"
      using c(2,3) ns len by (intro timer_loop_ticks) (simp_all add: hd_conv_nth)
    then show thesis using that ns by (auto simp: hd_conv_nth)
  qed
  obtain q5 where u: "q_unlock hm (b\<lparr>threads := ticked ns ?T, m_q_systhread := q4\<rparr>) = b\<lparr>threads := ticked ns ?T, m_q_systhread := q5\<rparr>"
    "q_idle q5 ns"
    using q_unlock_held [of hm "b\<lparr>threads := ticked ns ?T, m_q_systhread := q4\<rparr>"] tl(2) by auto
  let ?b' = "b\<lparr>threads := ticked ns ?T, m_q_systhread := q5\<rparr>"
  have "blender_timer tscb st b = switch_context tscb st ?b'"
    using o(1) l(1) f(1) t c(1) tl(1) u(1) by (simp add: blender_timer_def wr_thread_def)
  moreover have "sched_ok ?b' ns" using o u(2) by (auto simp: sched_ok_def ticked_def)
  moreover have "thread_at ?b' p = sleep_tick (bump ns p (thread_at b p))" if "p \<in> set ns" for p
    using o(4) that t by (force simp: thread_at_def ticked_def bump_def)
  ultimately show thesis using that by blast
qed

definition sleeping :: "'x cthread \<Rightarrow> bool" where
  "sleeping t \<longleftrightarrow> t_flags t AND TS_SLEEP \<noteq> 0"

lemma blocked_sleep: "x AND TS_BLOCKED = 0 \<Longrightarrow> x AND TS_SLEEP = 0"
proof -
  assume "x AND TS_BLOCKED = 0"
  then have "(x AND TS_BLOCKED) AND TS_SLEEP = 0" by simp
  then show ?thesis by (simp only: and.assoc and.commute [of TS_BLOCKED] blocked_bits(3))
qed

lemma sleep_bits: "(TS_RUNNING AND TS_SLEEP) = 0" "(TS_PENDING AND TS_SLEEP) = 0"
  by (simp_all add: TS_RUNNING_def TS_PENDING_def TS_SLEEP_def)

lemma bump_fields [simp]: "t_flags (bump ns p t) = t_flags t" "t_tm_sleep (bump ns p t) = t_tm_sleep t" "t_resolution (bump ns p t) = t_resolution t"
  by (simp_all add: bump_def)

lemma entered_sleep: "t_flags (entered_thread t) AND TS_SLEEP = t_flags t AND TS_SLEEP"
  by (simp add: entered_thread_def mask_other sleep_bits)

text \<open>One timer interrupt, seen by a sleeping thread \<open>p\<close>, with a thread \<open>idle\<close> that may always run.\<close>

lemma timer_step:
  assumes neutral: "\<forall>cb p fl d b. tscb cb p fl d b = b" and ok: "sched_ok b ns"
    and idle: "idle \<in> set ns" "may_run b idle" "t_resolution (thread_at b idle) = 0"
    and p: "p \<in> set ns" "p \<noteq> hd ns" "sleeping (thread_at b p)"
  obtains st' b' ns' where "blender_timer tscb st b = Some (st', b')" "sched_ok b' ns'" "set ns' = set ns"
    "may_run b' idle" "t_resolution (thread_at b' idle) = 0"
    "if t_tm_sleep (thread_at b p) = 0 then \<not> sleeping (thread_at b' p)
     else p \<noteq> hd ns' \<and> sleeping (thread_at b' p) \<and> t_tm_sleep (thread_at b' p) = t_tm_sleep (thread_at b p) - 1"
proof -
  obtain b1 where b1: "blender_timer tscb st b = switch_context tscb st b1" "sched_ok b1 ns"
    "\<And>p. p \<in> set ns \<Longrightarrow> thread_at b1 p = sleep_tick (bump ns p (thread_at b p))" using timer_is_switch [OF ok, of tscb st] by blast
  have i1: "thread_at b1 idle = bump ns idle (thread_at b idle)"
    using b1(3) [OF idle(1)] may_run_thread [OF ok idle(1)] idle(2) blocked_sleep by (simp add: sleep_tick_def)
  then have run1: "may_run b1 idle" using may_run_thread [OF b1(2) idle(1)] may_run_thread [OF ok idle(1)] idle(2) by simp
  obtain k st' b' where k: "k < length ns" "may_run b1 (ns ! (Suc k mod length ns))"
    "switch_context tscb st b1 = Some (st', b')" "sched_ok b' (rotate (Suc k) ns)"
    "threads b' = (if Suc k = length ns then threads b1 else switched (hd ns) (ns ! Suc k) st b1)"
    using switch_step [OF neutral b1(2)] idle(1) run1 by metis
  have ns: "ns \<noteq> []" using sched_ring [OF ok] by simp
  have th: "\<forall>p\<in>set ns. threads b1 (user_ptr p) \<noteq> None" using b1(2) by (simp add: sched_ok_def)
  have "t_resolution (thread_at b' idle) = 0 \<and> t_flags (thread_at b' idle) AND TS_BLOCKED = t_flags (thread_at b1 idle) AND TS_BLOCKED"
  proof (cases "Suc k = length ns")
    case True
    then show ?thesis using k(5) i1 idle(3) by (simp add: thread_at_def)
  next
    case False
    then have "ns ! Suc k \<in> set ns" using k(1) by simp
    from switched_frame [OF th hd_in_set [OF ns] this idle(1), of st] show ?thesis
      using False k(5) i1 idle(3) by (auto simp: thread_at_def)
  qed
  then have i': "t_resolution (thread_at b' idle) = 0" "may_run b' idle"
    using may_run_thread [OF k(4)] may_run_thread [OF b1(2)] idle(1) run1 by simp_all
  have tp: "thread_at b1 p = sleep_tick (thread_at b p)" using b1(3) [OF p(1)] p(2) by (simp add: bump_def)
  have new: "hd (rotate (Suc k) ns) = ns ! (Suc k mod length ns)" using hd_rotate_mod [OF ns] .
  have same: "thread_at b' p = (if Suc k \<noteq> length ns \<and> p = ns ! Suc k then entered_thread (thread_at b1 p) else thread_at b1 p)"
    using k(5) p(1,2) th by (auto simp: thread_at_def switched_def)
  have "if t_tm_sleep (thread_at b p) = 0 then \<not> sleeping (thread_at b' p)
     else p \<noteq> hd (rotate (Suc k) ns) \<and> sleeping (thread_at b' p) \<and> t_tm_sleep (thread_at b' p) = t_tm_sleep (thread_at b p) - 1"
  proof (cases "t_tm_sleep (thread_at b p) = 0")
    case True
    then have "t_flags (thread_at b1 p) AND TS_SLEEP = 0" using tp p(3) by (simp add: sleep_tick_def sleeping_def and.assoc)
    then show ?thesis using True same by (auto simp: sleeping_def entered_sleep)
  next
    case False
    then have t1: "sleeping (thread_at b1 p)" "t_tm_sleep (thread_at b1 p) = t_tm_sleep (thread_at b p) - 1"
      using tp p(3) by (simp_all add: sleep_tick_def sleeping_def)
    then have "\<not> may_run b1 p" using may_run_thread [OF b1(2) p(1)] blocked_sleep by (auto simp: sleeping_def)
    then have np: "p \<noteq> ns ! (Suc k mod length ns)" using k(2) by auto
    then have "thread_at b' p = thread_at b1 p" using same k(1) by auto
    then show ?thesis using False t1 np new by simp
  qed
  then show thesis using that [of st' b' "rotate (Suc k) ns"] b1(1) k(3,4) i' by (simp del: rotate_Suc)
qed

text \<open>Timer interrupts one after another.\<close>

fun ticks :: "('h, 'x) tscb \<Rightarrow> 'x list \<Rightarrow> ('h, 'x) blender \<Rightarrow> ('h, 'x) blender option" where
  "ticks tscb [] b = Some b"
| "ticks tscb (st # sts) b = do { (_, b) \<leftarrow> blender_timer tscb st b; ticks tscb sts b }"

lemma ticks_sleep:
  assumes neutral: "\<forall>cb p fl d b. tscb cb p fl d b = b"
  shows "sched_ok b ns \<Longrightarrow> idle \<in> set ns \<Longrightarrow> may_run b idle \<Longrightarrow> t_resolution (thread_at b idle) = 0 \<Longrightarrow>
    p \<in> set ns \<Longrightarrow> p \<noteq> hd ns \<Longrightarrow> sleeping (thread_at b p) \<Longrightarrow> length sts \<le> Suc (unat (t_tm_sleep (thread_at b p))) \<Longrightarrow>
    \<exists>b' ns'. ticks tscb sts b = Some b' \<and> sched_ok b' ns' \<and> set ns' = set ns \<and>
      (sleeping (thread_at b' p) \<longleftrightarrow> length sts \<le> unat (t_tm_sleep (thread_at b p)))"
proof (induction sts arbitrary: b ns)
  case Nil
  then show ?case by auto
next
  case (Cons st sts)
  obtain st' b' ns' where s: "blender_timer tscb st b = Some (st', b')" "sched_ok b' ns'" "set ns' = set ns"
    "may_run b' idle" "t_resolution (thread_at b' idle) = 0"
    "if t_tm_sleep (thread_at b p) = 0 then \<not> sleeping (thread_at b' p)
     else p \<noteq> hd ns' \<and> sleeping (thread_at b' p) \<and> t_tm_sleep (thread_at b' p) = t_tm_sleep (thread_at b p) - 1"
    using timer_step [OF neutral Cons.prems(1-7)] .
  show ?case
  proof (cases "t_tm_sleep (thread_at b p) = 0")
    case True
    then have "sts = []" using Cons.prems(8) by simp
    then show ?thesis using True s by auto
  next
    case False
    then have u: "unat (t_tm_sleep (thread_at b p)) = Suc (unat (t_tm_sleep (thread_at b p) - 1))" by (simp add: unat_minus_one unat_gt_0)
    have "\<exists>b'' ns''. ticks tscb sts b' = Some b'' \<and> sched_ok b'' ns'' \<and> set ns'' = set ns' \<and>
        (sleeping (thread_at b'' p) \<longleftrightarrow> length sts \<le> unat (t_tm_sleep (thread_at b' p)))"
      using False s Cons.prems u by (intro Cons.IH) simp_all
    then show ?thesis using s(1,3,6) False u by auto
  qed
qed

section \<open>Properties\<close>

text \<open>C7: The scheduler switches to the next thread that may run. When some thread of the queue is not
  blocked (finished, asleep, suspended, stopped or faulted), \<open>switch_context\<close> returns and turns the
  queue to the first such thread behind the current one. The state of the CPU is saved in the
  current thread, which becomes pending, and asleep if it has a resolution; the new thread becomes
  running and its saved state is the one to continue with. No other thread changes. If only
  the current thread may run, it goes on. The mutex of the queue is free afterwards. State callbacks of threads are
  taken to leave the scheduler as it is.\<close>

theorem switch_context_next:
  assumes "\<forall>cb p fl d b. tscb cb p fl d b = b" and "sched_ok b ns" and "\<exists>p\<in>set ns. may_run b p"
  shows "\<exists>k<length ns. \<exists>st' b'. switch_context tscb st b = Some (st', b') \<and> sched_ok b' (rotate (Suc k) ns) \<and>
    may_run b (ns ! (Suc k mod length ns)) \<and> (\<forall>j<k. \<not> may_run b (ns ! (Suc j mod length ns))) \<and>
    (if Suc k = length ns then st' = st \<and> threads b' = threads b
     else st' = t_context (thread_at b (ns ! Suc k)) \<and>
       thread_at b' (hd ns) = left_thread (m_time_div b) st (thread_at b (hd ns)) \<and>
       thread_at b' (ns ! Suc k) = entered_thread (thread_at b (ns ! Suc k)) \<and>
       (\<forall>p. p \<noteq> hd ns \<and> p \<noteq> ns ! Suc k \<longrightarrow> thread_at b' p = thread_at b p))"
proof -
  obtain k st' b' where k: "k < length ns" "may_run b (ns ! (Suc k mod length ns))" "\<forall>j<k. \<not> may_run b (ns ! (Suc j mod length ns))"
    "switch_context tscb st b = Some (st', b')" "sched_ok b' (rotate (Suc k) ns)"
    "threads b' = (if Suc k = length ns then threads b else switched (hd ns) (ns ! Suc k) st b)"
    "if Suc k = length ns then st' = st else st' = t_context (thread_at b (ns ! Suc k))"
    using switch_step [OF assms] .
  have ns: "ns \<noteq> []" "distinct ns" using sched_ring [OF assms(2)] by simp_all
  have "if Suc k = length ns then st' = st \<and> threads b' = threads b
     else st' = t_context (thread_at b (ns ! Suc k)) \<and>
       thread_at b' (hd ns) = left_thread (m_time_div b) st (thread_at b (hd ns)) \<and>
       thread_at b' (ns ! Suc k) = entered_thread (thread_at b (ns ! Suc k)) \<and>
       (\<forall>p. p \<noteq> hd ns \<and> p \<noteq> ns ! Suc k \<longrightarrow> thread_at b' p = thread_at b p)"
  proof (cases "Suc k = length ns")
    case False
    then have "ns ! Suc k \<noteq> hd ns" "hd ns \<in> set ns" "ns ! Suc k \<in> set ns"
      using ns k(1) by (auto simp: hd_conv_nth nth_eq_iff_index_eq)
    moreover obtain t t' where "threads b (user_ptr (hd ns)) = Some t" "threads b (user_ptr (ns ! Suc k)) = Some t'"
      using calculation(2,3) assms(2) unfolding sched_ok_def by (metis not_None_eq)
    ultimately show ?thesis using False k(6,7) by (auto simp: thread_at_def switched_def)
  qed (use k(6,7) in simp)
  then show ?thesis using k(1-5) by blast
qed

text \<open>Three threads: the idle thread, which runs, one that sleeps and one that waits for its turn.\<close>

definition demo_blender :: "(unit, nat) blender" where
  "demo_blender = \<lparr>m_is_running = True, m_is_init = True, m_idle_work = 0, m_idle_id = 1, m_thread_id = 4, m_timestamp = 0,
     m_q_systhread = \<lparr>self = 9, mode = LL_MODE_QUEUE, data_size = 600, p_alloc = None, p_free = None, p_lock = Some llv_lock,
       p_unlock = Some llv_unlock,
       p_udata = \<lparr>m_p_mutex = Some \<lparr>m_addr = 0x500, m_mutex = \<lparr>lock_count = 0, handle_count = 3, lock_flag = UNLOCK_MAGIC\<rparr>\<rparr>,
         m_p_heap = None\<rparr>,
       ccol = 0, ncol = 1, state = Some [\<lparr>p_current = 100, p_first = 100, p_last = 300, count = 3, current = 0\<rparr>],
       items = [100 \<mapsto> \<lparr>it_cxt = 9, it_col = 0, it_prev = 0, it_next = 200, it_data = []\<rparr>,
                200 \<mapsto> \<lparr>it_cxt = 9, it_col = 0, it_prev = 100, it_next = 300, it_data = []\<rparr>,
                300 \<mapsto> \<lparr>it_cxt = 9, it_col = 0, it_prev = 200, it_next = 100, it_data = []\<rparr>]\<rparr>,
     threads = [125 \<mapsto> (zero_thread 0)\<lparr>t_id := 1, t_flags := TS_RUNNING\<rparr>,
                225 \<mapsto> (zero_thread 20)\<lparr>t_id := 2, t_flags := TS_PENDING OR TS_SLEEP, t_tm_sleep := 1\<rparr>,
                325 \<mapsto> (zero_thread 30)\<lparr>t_id := 3, t_flags := TS_PENDING\<rparr>],
     m_p_cpu = Some \<lparr>cpu_no = 0, cpu_boot = True, cpu_irqs = False, cpu_countdown = 0\<rparr>,
     m_p_pma = \<lparr>pm_env = \<lparr>blender_running = False, blender_cpu = False, has_cpu = False\<rparr>, pm_repo = None, pm_mutex = None,
       page_size = 4096, m_ram = []\<rparr>,
     m_timer = 0, m_time_div = 10\<rparr>"

lemma demo_blender_ok: "sched_ok demo_blender [100, 200, 300]"
proof -
  have "ring_item (items (m_q_systhread demo_blender)) [100, 200, 300] i" if "i < 3" for i
  proof -
    have "i = 0 \<or> i = 1 \<or> i = 2" using that by linarith
    then show ?thesis by (auto simp: ring_item_def demo_blender_def)
  qed
  then have "ring (m_q_systhread demo_blender) [100, 200, 300]"
    by (simp add: ring_def) (simp add: demo_blender_def get_col_def)
  then show ?thesis
    by (simp add: sched_ok_def q_ok_def) (simp add: demo_blender_def cMutex_free_def user_ptr_def sizeof_hdr_def)
qed

lemma demo_blender_threads:
  "thread_at demo_blender 100 = (zero_thread 0)\<lparr>t_id := 1, t_flags := TS_RUNNING\<rparr>"
  "thread_at demo_blender 200 = (zero_thread 20)\<lparr>t_id := 2, t_flags := TS_PENDING OR TS_SLEEP, t_tm_sleep := 1\<rparr>"
  "thread_at demo_blender 300 = (zero_thread 30)\<lparr>t_id := 3, t_flags := TS_PENDING\<rparr>"
  "may_run demo_blender 100" "\<not> may_run demo_blender 200" "may_run demo_blender 300"
  by (simp_all add: thread_at_def may_run_def demo_blender_def user_ptr_def sizeof_hdr_def TS_RUNNING_def TS_PENDING_def TS_BLOCKED_def
      TS_FINISHED_def TS_SLEEP_def TS_SUSPEND_def TS_BREAKPOINT_def TS_DEBUG_def TS_MEMORY_EXCEPTION_def TS_EXCEPTION_def zero_thread_def)

theorem switch_context_next_witness:
  "\<exists>k<3. \<exists>st' b'. switch_context (\<lambda>_ _ _ _ b. b) 7 demo_blender = Some (st', b') \<and>
     sched_ok b' (rotate (Suc k) [100, 200, 300]) \<and> may_run demo_blender ([100, 200, 300] ! (Suc k mod 3))"
proof -
  have run: "\<exists>p\<in>set [100, 200, 300]. may_run demo_blender p" using demo_blender_threads(4) by simp
  have len: "length [100, 200, 300 :: ptr] = 3" by simp
  from switch_context_next [OF _ demo_blender_ok run, of "\<lambda>_ _ _ _ b. b" 7, unfolded len] show ?thesis by blast
qed

text \<open>C8: Round robin. When no thread has a resolution, a thread that may run and stands at position \<open>j\<close> of the
  queue is the current thread after at most \<open>j\<close> context switches, whatever states the CPU has at
  them, when state callbacks leave the scheduler as it is.\<close>

theorem switch_context_fair:
  assumes "\<forall>cb p fl d b. tscb cb p fl d b = b" and "sched_ok b ns" and "\<forall>p\<in>set ns. t_resolution (thread_at b p) = 0"
    and "j < length ns" and "may_run b (ns ! j)" and "length sts = j"
  shows "\<exists>n\<le>j. \<exists>b' ns'. switches tscb (take n sts) b = Some b' \<and> sched_ok b' ns' \<and> hd ns' = ns ! j \<and> set ns' = set ns"
  using switches_reach [OF assms(1-5)] assms(6) by simp

theorem switch_context_fair_witness:
  "\<exists>n\<le>2. \<exists>b' ns'. switches (\<lambda>_ _ _ _ b. b) (take n [7, 8]) demo_blender = Some b' \<and> sched_ok b' ns' \<and> hd ns' = 300"
proof -
  have "\<forall>p\<in>set [100, 200, 300]. t_resolution (thread_at demo_blender p) = 0" by (simp add: demo_blender_threads zero_thread_def)
  from switch_context_fair [OF _ demo_blender_ok this, where j = 2 and tscb = "\<lambda>_ _ _ _ b. b" and sts = "[7, 8]"]
  show ?thesis using demo_blender_threads(6) by auto
qed

text \<open>C9: A sleeping thread wakes when its countdown is over. A thread that sleeps with countdown \<open>d\<close> and is not the current one is still
  asleep after \<open>d\<close> timer interrupts and awake after \<open>d + 1\<close> of them, while the scheduler goes on
  switching between the other threads, one of which (the idle thread) may always run and has no resolution. State callbacks
  are taken to leave the scheduler as it is.\<close>

theorem timer_wakes_sleeper:
  assumes "\<forall>cb p fl d b. tscb cb p fl d b = b" and "sched_ok b ns"
    and "idle \<in> set ns" and "may_run b idle" and "t_resolution (thread_at b idle) = 0"
    and "p \<in> set ns" and "p \<noteq> hd ns" and "sleeping (thread_at b p)" and "unat (t_tm_sleep (thread_at b p)) = d"
    and "length sts = d"
  shows "(\<exists>b' ns'. ticks tscb sts b = Some b' \<and> sched_ok b' ns' \<and> set ns' = set ns \<and> sleeping (thread_at b' p)) \<and>
    (\<exists>b' ns'. ticks tscb (sts @ [st]) b = Some b' \<and> sched_ok b' ns' \<and> set ns' = set ns \<and> \<not> sleeping (thread_at b' p))"
  using ticks_sleep [OF assms(1-8), of sts] ticks_sleep [OF assms(1-8), of "sts @ [st]"] assms(9,10) by simp

theorem timer_wakes_sleeper_witness:
  "(\<exists>b'. ticks (\<lambda>_ _ _ _ b. b) [7] demo_blender = Some b' \<and> sleeping (thread_at b' 200)) \<and>
   (\<exists>b'. ticks (\<lambda>_ _ _ _ b. b) ([7] @ [8]) demo_blender = Some b' \<and> \<not> sleeping (thread_at b' 200))"
  using timer_wakes_sleeper [OF _ demo_blender_ok, where idle = 100 and p = 200 and d = 1 and sts = "[7]" and st = 8 and tscb = "\<lambda>_ _ _ _ b. b"]
    demo_blender_threads
  by (simp add: sleeping_def zero_thread_def TS_PENDING_def TS_SLEEP_def) blast

end
