(* ===== verification/Buffer.thy ===== *)
theory Buffer
  imports Prelude
begin

text \<open>
  Buffers of the block devices. A client's buffer, the memory of a RAM disk and the memory of a cache chunk are
  lists of bytes; \<open>cpy_bytes\<close> is \<open>mem_cpy\<close> from one of them to another (which never overlap; \<open>Str_Mem\<close> has the loops of \<open>mem_cpy\<close>). A copy that leaves
  one of the buffers would touch memory of something else, and is \<open>None\<close>.
\<close>

definition cpy_bytes :: "u8 list \<Rightarrow> nat \<Rightarrow> u8 list \<Rightarrow> nat \<Rightarrow> nat \<Rightarrow> u8 list option" where
  "cpy_bytes dst d src s n =
     (if d + n \<le> length dst \<and> s + n \<le> length src then Some (take d dst @ take n (drop s src) @ drop (d + n) dst) else None)"

text \<open>The bytes of a memory, addressed one by one, that a copy leaves.\<close>

lemma cpy_bytes_nth:
  assumes "cpy_bytes dst d src s n = Some dst'"
  shows "length dst' = length dst" and "i < length dst \<Longrightarrow> dst' ! i = (if d \<le> i \<and> i < d + n then src ! (s + (i - d)) else dst ! i)"
proof -
  have b: "d + n \<le> length dst" "s + n \<le> length src" "dst' = take d dst @ take n (drop s src) @ drop (d + n) dst"
    using assms by (auto simp: cpy_bytes_def split: if_splits)
  then show "length dst' = length dst" by simp
  assume "i < length dst"
  then show "dst' ! i = (if d \<le> i \<and> i < d + n then src ! (s + (i - d)) else dst ! i)"
    using b by (simp add: nth_append) linarith
qed

lemma cpy_bytes_total: "d + n \<le> length dst \<Longrightarrow> s + n \<le> length src \<Longrightarrow> \<exists>dst'. cpy_bytes dst d src s n = Some dst'"
  by (simp add: cpy_bytes_def)

section \<open>Requests\<close>

text \<open>\<open>_driver_io_t\<close>: \<open>lba\<close> and \<open>offset\<close> are one member of a union, and so are \<open>result\<close> and \<open>count\<close>. The buffer is the memory from
  the client's pointer on.\<close>

record dio =
  dio_buffer :: "u8 list"
  dio_size :: u32
  dio_lba :: u64
  dio_result :: u32
  dio_error :: u32

definition DIOCTL_SREAD :: u32 where "DIOCTL_SREAD = 12"
definition DIOCTL_BREAD :: u32 where "DIOCTL_BREAD = 13"
definition DIOCTL_FREAD :: u32 where "DIOCTL_FREAD = 14"
definition DIOCTL_SWRITE :: u32 where "DIOCTL_SWRITE = 16"
definition DIOCTL_BWRITE :: u32 where "DIOCTL_BWRITE = 17"
definition DIOCTL_FWRITE :: u32 where "DIOCTL_FWRITE = 18"
definition DIOCTL_FSEEK :: u32 where "DIOCTL_FSEEK = 20"
definition DIOCTL_ERRCMD :: u32 where "DIOCTL_ERRCMD = - 1"

definition CIOCTL_READ :: u32 where "CIOCTL_READ = 1"
definition CIOCTL_WRITE :: u32 where "CIOCTL_WRITE = 2"
definition CIOCTL_FLUSH :: u32 where "CIOCTL_FLUSH = 3"

lemmas ioctl_defs = DIOCTL_SREAD_def DIOCTL_BREAD_def DIOCTL_FREAD_def DIOCTL_SWRITE_def DIOCTL_BWRITE_def DIOCTL_FWRITE_def
  DIOCTL_FSEEK_def CIOCTL_READ_def CIOCTL_WRITE_def CIOCTL_FLUSH_def

end
