(* ===== verification/Ram_Disk.thy ===== *)
theory Ram_Disk
  imports Buffer B24_PMA
begin

text \<open>
  The RAM disk: the class cRamDevice of core/driver/bdev/ramd.cpp, pages of the page allocator read and written in
  blocks. \<open>rd_mem\<close> is the memory of the pages at \<open>m_p_base\<close>. Registration of the disk's volume with the
  driver tree is left out.
\<close>

record ramd =
  rd_env :: sched_env
  rd_block_size :: u16
  rd_max_op_sectors :: u16
  rd_size :: u64
  rd_dev_size :: u32
  rd_base :: ptr
  rd_npages :: u32
  rd_mem :: "u8 list"
  rd_mutex :: "cmutex option"

definition ramd_new :: "sched_env \<Rightarrow> cmutex option \<Rightarrow> u64 \<Rightarrow> ramd" where
  "ramd_new e mutex ramd_size =
     \<lparr>rd_env = e, rd_block_size = 512, rd_max_op_sectors = 64, rd_size = ramd_size, rd_dev_size = 0, rd_base = 0, rd_npages = 0, rd_mem = [],
      rd_mutex = mutex\<rparr>"

text \<open>\<open>raw\<close> is what the memory at an address holds.\<close>

definition ramd_driver_init :: "(ptr \<Rightarrow> nat \<Rightarrow> u8 list) \<Rightarrow> ramd \<Rightarrow> pma \<Rightarrow> (bool \<times> ramd \<times> pma) option" where
  "ramd_driver_init raw d s =
     (if rd_block_size d = 0 \<or> pma.page_size s = 0 then None
      else
        let d = d\<lparr>rd_dev_size := ucast (rd_size d div ucast (rd_block_size d)), rd_npages := ucast (rd_size d div of_nat (pma.page_size s))\<rparr>
        in do {
             (p, s) \<leftarrow> pma_alloc s (rd_npages d) RT_SYSTEM DEFAULT_PMA_LIMIT;
             Some (p \<noteq> 0, d\<lparr>rd_base := p, rd_mem := (if p \<noteq> 0 then raw p (unat (rd_npages d) * pma.page_size s) else [])\<rparr>, s)
           })"

definition ramd_driver_uninit :: "ramd \<Rightarrow> pma \<Rightarrow> pma option" where
  "ramd_driver_uninit d s = map_option snd (pma_free s (rd_base d) (rd_npages d))"

definition ramd_lock :: "u64 \<Rightarrow> ramd \<Rightarrow> (u64 \<times> ramd) option" where
  "ramd_lock hlock d =
     (if rd_mutex d \<noteq> None
      then map_option (\<lambda>(r, m). (r, d\<lparr>rd_mutex := m\<rparr>)) (acquire_mutex (rd_env d) (rd_mutex d) hlock MUTEX_TIMEOUT_INFINITE)
      else Some (0, d))"

definition ramd_unlock :: "u64 \<Rightarrow> ramd \<Rightarrow> ramd" where
  "ramd_unlock hlock d = d\<lparr>rd_mutex := map_option (\<lambda>m. cMutex_unlock m hlock) (rd_mutex d)\<rparr>"

definition transfer_size :: "ramd \<Rightarrow> u64 \<Rightarrow> u32 \<Rightarrow> u32" where
  "transfer_size d lba count =
     (if lba + ucast count \<le> ucast (rd_dev_size d) then count * ucast (rd_block_size d)
      else ucast ((ucast (rd_dev_size d) - lba) * ucast (rd_block_size d)))"

definition ramd_transfer :: "bool \<Rightarrow> u64 \<Rightarrow> u32 \<Rightarrow> u8 list \<Rightarrow> ramd \<Rightarrow> (u32 \<times> u8 list \<times> ramd) option" where
  "ramd_transfer write lba count buffer d =
     (let offset = lba * ucast (rd_block_size d); size = transfer_size d lba count
      in if lba < ucast (rd_dev_size d) then
           do {
             (h, d) \<leftarrow> ramd_lock 0 d;
             (buffer, d) \<leftarrow>
               (if write then map_option (\<lambda>m. (buffer, d\<lparr>rd_mem := m\<rparr>)) (cpy_bytes (rd_mem d) (unat offset) buffer 0 (unat size))
                else map_option (\<lambda>b. (b, d)) (cpy_bytes buffer 0 (rd_mem d) (unat offset) (unat size)));
             if rd_block_size d = 0 then None else Some (size div ucast (rd_block_size d), buffer, ramd_unlock h d)
           }
         else Some (0, buffer, d))"

definition ramd_ioctl :: "u32 \<Rightarrow> dio \<Rightarrow> ramd \<Rightarrow> (dio \<times> ramd) option" where
  "ramd_ioctl cmd io d =
     (if cmd = DIOCTL_BREAD then
        do { (r, b, d) \<leftarrow> ramd_transfer False (dio_lba io) (dio_result io) (dio_buffer io) d; Some (io\<lparr>dio_buffer := b, dio_result := r\<rparr>, d) }
      else if cmd = DIOCTL_BWRITE then
        do { (r, b, d) \<leftarrow> ramd_transfer True (dio_lba io) (dio_result io) (dio_buffer io) d; Some (io\<lparr>dio_buffer := b, dio_result := r\<rparr>, d) }
      else Some (io\<lparr>dio_result := DIOCTL_ERRCMD\<rparr>, d))"

section \<open>Transfers\<close>

text \<open>A disk in order: its blocks fit in its memory, it holds less than 4 GB, and its mutex is free.\<close>

definition ramd_ok :: "ramd \<Rightarrow> bool" where
  "ramd_ok d \<longleftrightarrow> rd_block_size d \<noteq> 0 \<and> unat (rd_dev_size d) * unat (rd_block_size d) \<le> length (rd_mem d) \<and>
     unat (rd_dev_size d) * unat (rd_block_size d) < 2 ^ 32 \<and> (blender_running (rd_env d) \<longrightarrow> blender_cpu (rd_env d)) \<and>
     (\<forall>m. rd_mutex d = Some m \<longrightarrow> cMutex_free m)"

lemma ramd_lock_free:
  assumes "ramd_ok d"
  obtains h d1 where "ramd_lock 0 d = Some (h, d1)" "\<And>m. ramd_ok (ramd_unlock h (d1\<lparr>rd_mem := m\<rparr>)) = ramd_ok (d\<lparr>rd_mem := m\<rparr>)"
    "ramd_ok (ramd_unlock h d1)" "\<exists>m. d1 = d\<lparr>rd_mutex := m\<rparr>"
proof (cases "rd_mutex d")
  case None
  then have "ramd_unlock 0 d = d" "d = d\<lparr>rd_mutex := None\<rparr>" by (simp_all add: ramd_unlock_def)
  moreover have "ramd_unlock 0 (d\<lparr>rd_mem := m\<rparr>) = d\<lparr>rd_mem := m\<rparr>" for m using None by (simp add: ramd_unlock_def)
  ultimately show thesis using that [of 0 d] assms None by (metis ramd_lock_def)
next
  case (Some x)
  then have x: "cMutex_free x" "blender_running (rd_env d) \<longrightarrow> blender_cpu (rd_env d)" using assms by (auto simp: ramd_ok_def)
  obtain h x' where h: "acquire_mutex (rd_env d) (Some x) 0 MUTEX_TIMEOUT_INFINITE = Some (h, Some x')" "cMutex_held x' h 1"
    using acquire_free [OF x] by blast
  have "cMutex_free (cMutex_unlock x' h)" using cMutex_release_last [OF h(2)] .
  then show thesis using that [of h "d\<lparr>rd_mutex := Some x'\<rparr>"] h(1) Some x(1) assms
    by (auto simp: ramd_lock_def ramd_unlock_def ramd_ok_def)
qed

lemma transfer_size_nat:
  assumes "ramd_ok d" "unat lba < unat (rd_dev_size d)" "unat count * unat (rd_block_size d) < 2 ^ 32"
  shows "unat (transfer_size d lba count) = min (unat count) (unat (rd_dev_size d) - unat lba) * unat (rd_block_size d)"
    and "unat (lba * ucast (rd_block_size d)) = unat lba * unat (rd_block_size d)"
proof -
  let ?bs = "unat (rd_block_size d)" and ?n = "unat (rd_dev_size d)"
  have b: "?n * ?bs < 2 ^ 32" using assms(1) by (simp add: ramd_ok_def)
  have u: "unat (ucast (rd_block_size d) :: u64) = ?bs" "unat (ucast (rd_dev_size d) :: u64) = ?n" "unat (ucast count :: u64) = unat count"
    "unat (ucast (rd_block_size d) :: u32) = ?bs"
    by (simp_all add: unat_up)
  have l: "unat lba * ?bs \<le> ?n * ?bs" using assms(2) by simp
  then have "unat lba * ?bs < 2 ^ 32" using b by (rule le_less_trans)
  then have "unat lba * ?bs < 2 ^ 64" by simp
  then show "unat (lba * ucast (rd_block_size d)) = unat lba * ?bs" using u(1) by (simp add: unat_mult_lem [THEN iffD1])
  have s: "unat (lba + ucast count) = unat lba + unat count"
    using assms(2) unat_u32_lt [of count] unat_u32_lt [of "rd_dev_size d"] u(3) by (simp add: unat_add_lem [THEN iffD1])
  then have c: "lba + ucast count \<le> ucast (rd_dev_size d) \<longleftrightarrow> unat lba + unat count \<le> ?n" using u(2) by (simp add: word_le_nat_alt)
  show "unat (transfer_size d lba count) = min (unat count) (?n - unat lba) * ?bs"
  proof (cases "unat lba + unat count \<le> ?n")
    case True
    then have "min (unat count) (?n - unat lba) = unat count" by simp
    then show ?thesis using True c assms(3) u(4) by (simp add: transfer_size_def unat_mult_lem [THEN iffD1])
  next
    case False
    have d: "unat (ucast (rd_dev_size d) - lba) = ?n - unat lba" using assms(2) u(2) by (simp add: unat_sub word_le_nat_alt)
    have m: "(?n - unat lba) * ?bs < 2 ^ 32" using b by (simp add: diff_mult_distrib)
    then have "unat ((ucast (rd_dev_size d) - lba) * ucast (rd_block_size d)) = (?n - unat lba) * ?bs"
      using d u(1) by (simp add: unat_mult_lem [THEN iffD1])
    moreover have "min (unat count) (?n - unat lba) = ?n - unat lba" using False by simp
    ultimately show ?thesis using False c m by (simp add: transfer_size_def unat_down)
  qed
qed

text \<open>A transfer moves the blocks from \<open>lba\<close> on that exist, and nothing else.\<close>

lemma ramd_transfer_ok:
  fixes d count lba buf
  defines "r \<equiv> min (unat count) (unat (rd_dev_size d) - unat lba)" and "a \<equiv> unat lba * unat (rd_block_size d)"
  assumes "ramd_ok d" "unat lba < unat (rd_dev_size d)" "unat count * unat (rd_block_size d) \<le> length buf"
    "unat count * unat (rd_block_size d) < 2 ^ 32"
  obtains buf' d' mem' m where "ramd_transfer wr lba count buf d = Some (of_nat r, buf', d')" "ramd_ok d'" "d' = d\<lparr>rd_mem := mem', rd_mutex := m\<rparr>"
    "if wr then buf' = buf \<and> cpy_bytes (rd_mem d) a buf 0 (r * unat (rd_block_size d)) = Some mem'
     else mem' = rd_mem d \<and> cpy_bytes buf 0 (rd_mem d) a (r * unat (rd_block_size d)) = Some buf'"
proof -
  let ?bs = "unat (rd_block_size d)" and ?n = "unat (rd_dev_size d)"
  note ts = transfer_size_nat [OF assms(3,4,6), folded r_def a_def]
  have ok: "?n * ?bs \<le> length (rd_mem d)" "0 < ?bs" "rd_block_size d \<noteq> 0" using assms(3) by (auto simp: ramd_ok_def unat_gt_0)
  have "a + r * ?bs = (unat lba + r) * ?bs" by (simp add: a_def algebra_simps)
  also have "\<dots> \<le> ?n * ?bs" using assms(4) by (intro mult_le_mono1) (simp add: r_def)
  finally have mb: "a + r * ?bs \<le> length (rd_mem d)" using ok(1) by simp
  have "r * ?bs \<le> unat count * ?bs" by (intro mult_le_mono1) (simp add: r_def)
  then have bb: "r * ?bs \<le> length buf" using assms(5) by linarith
  have "unat (transfer_size d lba count div ucast (rd_block_size d)) = r" using ts(1) ok(2) by (simp add: unat_div unat_up)
  then have q: "transfer_size d lba count div ucast (rd_block_size d) = of_nat r" by (metis word_of_nat_unat)
  have lt: "lba < ucast (rd_dev_size d)" using assms(4) by (simp add: word_less_nat_alt unat_up)
  obtain h d1 m1 where l: "ramd_lock 0 d = Some (h, d1)" "\<And>m. ramd_ok (ramd_unlock h (d1\<lparr>rd_mem := m\<rparr>)) = ramd_ok (d\<lparr>rd_mem := m\<rparr>)"
    "d1 = d\<lparr>rd_mutex := m1\<rparr>" "ramd_ok (ramd_unlock h d1)"
    using ramd_lock_free [OF assms(3)] by metis
  show thesis
  proof (cases wr)
    case True
    obtain mem' where c: "cpy_bytes (rd_mem d) a buf 0 (r * ?bs) = Some mem'" using cpy_bytes_total mb bb by (metis add_0)
    have "ramd_ok (d\<lparr>rd_mem := mem'\<rparr>)" using assms(3) cpy_bytes_nth(1) [OF c] by (simp add: ramd_ok_def)
    then have "ramd_ok (ramd_unlock h (d1\<lparr>rd_mem := mem'\<rparr>))" using l(2) by simp
    moreover have "ramd_transfer wr lba count buf d = Some (of_nat r, buf, ramd_unlock h (d1\<lparr>rd_mem := mem'\<rparr>))"
      using c lt l(1) ok(3) ts q by (simp add: ramd_transfer_def Let_def True l(3))
    moreover have "ramd_unlock h (d1\<lparr>rd_mem := mem'\<rparr>) = d\<lparr>rd_mem := mem', rd_mutex := map_option (\<lambda>m. cMutex_unlock m h) m1\<rparr>"
      by (simp add: ramd_unlock_def l(3))
    ultimately show thesis using that True c by metis
  next
    case False
    obtain buf' where c: "cpy_bytes buf 0 (rd_mem d) a (r * ?bs) = Some buf'" using cpy_bytes_total mb bb by (metis add_0)
    moreover have "ramd_transfer wr lba count buf d = Some (of_nat r, buf', ramd_unlock h d1)"
      using c lt l(1) ok(3) ts q by (simp add: ramd_transfer_def Let_def False l(3))
    moreover have "ramd_unlock h d1 = d\<lparr>rd_mem := rd_mem d, rd_mutex := map_option (\<lambda>m. cMutex_unlock m h) m1\<rparr>"
      by (simp add: ramd_unlock_def l(3))
    ultimately show thesis using that [where mem' = "rd_mem d"] False l(4) by metis
  qed
qed

text \<open>C22: every request to a RAM disk whose buffer has room for it and whose number of bytes fits in 32 bits returns, keeps the disk in order and both memories at their size, and moves no
  more blocks than asked for; the bytes of the disk change only by a write.\<close>

theorem ramd_ioctl_typed:
  assumes "ramd_ok d" "unat (dio_result io) * unat (rd_block_size d) \<le> length (dio_buffer io)" "unat (dio_result io) * unat (rd_block_size d) < 2 ^ 32"
  shows "\<exists>io' d'. ramd_ioctl cmd io d = Some (io', d') \<and> ramd_ok d' \<and> length (dio_buffer io') = length (dio_buffer io) \<and>
    length (rd_mem d') = length (rd_mem d) \<and> rd_dev_size d' = rd_dev_size d \<and> rd_block_size d' = rd_block_size d \<and>
    (cmd = DIOCTL_BREAD \<or> cmd = DIOCTL_BWRITE \<longrightarrow> dio_result io' \<le> dio_result io) \<and> (cmd \<noteq> DIOCTL_BWRITE \<longrightarrow> rd_mem d' = rd_mem d)"
proof -
  have t: "\<exists>r buf d'. ramd_transfer wr (dio_lba io) (dio_result io) (dio_buffer io) d = Some (r, buf, d') \<and> ramd_ok d' \<and> length buf = length (dio_buffer io) \<and>
      length (rd_mem d') = length (rd_mem d) \<and> rd_dev_size d' = rd_dev_size d \<and> rd_block_size d' = rd_block_size d \<and> r \<le> dio_result io \<and>
      (\<not> wr \<longrightarrow> rd_mem d' = rd_mem d)" for wr
  proof (cases "unat (dio_lba io) < unat (rd_dev_size d)")
    case False
    then show ?thesis using assms(1) by (simp add: ramd_transfer_def Let_def word_less_nat_alt unat_up)
  next
    case True
    let ?r = "min (unat (dio_result io)) (unat (rd_dev_size d) - unat (dio_lba io))"
    have "unat (of_nat ?r :: u32) \<le> unat (dio_result io)" using unat_u32_lt [of "dio_result io"] by (simp add: unat_of_nat take_bit_nat_eq_self)
    then have r: "of_nat ?r \<le> dio_result io" by (simp add: word_le_nat_alt)
    show ?thesis
      by (rule ramd_transfer_ok [OF assms(1) True assms(2,3), where wr = wr]) (use r cpy_bytes_nth(1) in \<open>auto split: if_splits\<close>)
  qed
  show ?thesis using t [of False] t [of True] assms(1) by (auto simp: ramd_ioctl_def ioctl_defs)
qed

theorem ramd_ioctl_typed_witness:
  "\<exists>io' d'. ramd_ioctl DIOCTL_BREAD \<lparr>dio_buffer = replicate 8 0, dio_size = 2, dio_lba = 1, dio_result = 2, dio_error = 0\<rparr>
     \<lparr>rd_env = \<lparr>blender_running = False, blender_cpu = False, has_cpu = False\<rparr>, rd_block_size = 4, rd_max_op_sectors = 64, rd_size = 8, rd_dev_size = 2,
      rd_base = 4096, rd_npages = 0, rd_mem = [1, 2, 3, 4, 5, 6, 7, 8], rd_mutex = None\<rparr> = Some (io', d') \<and> length (dio_buffer io') = 8"
  using ramd_ioctl_typed [of "\<lparr>rd_env = \<lparr>blender_running = False, blender_cpu = False, has_cpu = False\<rparr>, rd_block_size = 4, rd_max_op_sectors = 64, rd_size = 8,
      rd_dev_size = 2, rd_base = 4096, rd_npages = 0, rd_mem = [1, 2, 3, 4, 5, 6, 7, 8], rd_mutex = None\<rparr>"
    "\<lparr>dio_buffer = replicate 8 0, dio_size = 2, dio_lba = 1, dio_result = 2, dio_error = 0\<rparr>" DIOCTL_BREAD]
  by (auto simp: ramd_ok_def)

end
