(* ===== verification/Cache.thy ===== *)
theory Cache
  imports Buffer LList Acquire
begin

text \<open>
  The block cache: the class cCache of core/driver/bdev/cache.cpp. A cache entry has a number of chunks, each the memory
  of a header, two state bits per block, and \<open>chunk_size\<close> blocks. The entry's user supplies the device as a callback.

  The headers are records and the memory behind each header is a list of bytes: first the state bits, from \<open>data_ofs\<close> on the
  blocks. An access that leaves the memory of its chunk, a division by 0 and a request that never
  returns are \<open>None\<close>. The environment supplies the time stamp of the CPU and the mutex that a request to the
  repository returns.
\<close>

section \<open>State\<close>

definition CBSTATE_PRESENT :: u8 where "CBSTATE_PRESENT = 1"
definition CBSTATE_DIRTY :: u8 where "CBSTATE_DIRTY = 2"
definition INVALID_HANDLE_INDEX :: u32 where "INVALID_HANDLE_INDEX = 0xffffffff"
definition sizeof_chunk_hdr :: nat where "sizeof_chunk_hdr = 28"

record cenv =
  ev_sched :: sched_env
  ev_stamp :: "u64 option"
  ev_clone :: "cmutex option"

record chunk_hdr =
  bstart :: u64
  cstate :: "2 word"
  bcount :: "30 word"
  tstamp :: u64
  p_mutex :: "cmutex option"
  ch_mem :: "u8 list"

text \<open>The callback gets a command, the entry's handle, the first block, the number of blocks and the memory from the buffer on.\<close>

type_synonym 'd ccb = "u32 \<Rightarrow> ptr \<Rightarrow> u64 \<Rightarrow> u32 \<Rightarrow> u8 list \<Rightarrow> 'd \<Rightarrow> (u32 \<times> u8 list \<times> 'd) option"

record 'd cache_info =
  block_size :: u16
  chunk_size :: u16
  num_chunks :: u16
  p_ccb :: "'d ccb"
  ci_udata :: 'd

record 'd cache_entry =
  ce_handle :: ptr
  cinfo :: "'d cache_info"
  p_fhdr :: ptr
  ce_chunks :: "chunk_hdr list"
  mem_sz :: u32
  chunk_sz :: u32
  hdr_size :: u16
  ce_mutex :: "cmutex option"

text \<open>\<open>_cache_io_t\<close> as \<open>cache_io\<close> uses it for a chunk: the buffer is an offset in the chunk's memory, \<open>plock\<close> the chunk.\<close>

record cio =
  io_bstart :: u64
  io_bcount :: u32
  io_bsize :: u32
  io_buffer :: "nat option"
  io_plock :: "nat option"
  io_hlock :: u64

section \<open>Locks and chunks\<close>

definition cache_lock :: "cenv \<Rightarrow> cmutex option \<Rightarrow> u64 \<Rightarrow> (u64 \<times> cmutex option) option" where
  "cache_lock e p hlock =
     (case p of
        None \<Rightarrow> Some (0, None)
      | Some x \<Rightarrow>
          do {
            (r, x) \<leftarrow> (if blender_running (ev_sched e)
                       then cBlender_acquire_mutex (blender_cpu (ev_sched e)) x hlock MUTEX_TIMEOUT_INFINITE else Some (0, x));
            (r, x) \<leftarrow> (if r = 0 then cMutex_lock x hlock MUTEX_TIMEOUT_INFINITE 0 else Some (r, x));
            Some (r, Some x)
          })"

definition cache_unlock :: "cmutex option \<Rightarrow> u64 \<Rightarrow> cmutex option" where
  "cache_unlock p hlock = map_option (\<lambda>x. cMutex_unlock x hlock) p"

text \<open>The header of a chunk, and its update.\<close>

definition rd_chunk :: "'d cache_entry \<Rightarrow> nat \<Rightarrow> chunk_hdr option" where
  "rd_chunk hc i = (if i < length (ce_chunks hc) then Some (ce_chunks hc ! i) else None)"

definition wr_chunk :: "nat \<Rightarrow> chunk_hdr \<Rightarrow> 'd cache_entry \<Rightarrow> 'd cache_entry" where
  "wr_chunk i ch hc = hc\<lparr>ce_chunks := (ce_chunks hc)[i := ch]\<rparr>"

definition lock_chunk :: "cenv \<Rightarrow> nat \<Rightarrow> u64 \<Rightarrow> 'd cache_entry \<Rightarrow> (u64 \<times> 'd cache_entry) option" where
  "lock_chunk e i hlock hc =
     do {
       ch \<leftarrow> rd_chunk hc i;
       (h, m) \<leftarrow> cache_lock e (if p_mutex ch = None then ev_clone e else p_mutex ch) hlock;
       Some (h, wr_chunk i (ch\<lparr>p_mutex := m\<rparr>) hc)
     }"

definition unlock_chunk :: "nat \<Rightarrow> u64 \<Rightarrow> 'd cache_entry \<Rightarrow> 'd cache_entry option" where
  "unlock_chunk i hlock hc =
     map_option (\<lambda>ch. wr_chunk i (ch\<lparr>p_mutex := cache_unlock (p_mutex ch) hlock\<rparr>) hc) (rd_chunk hc i)"

text \<open>The offset of the blocks in the memory behind the header (\<open>get_cache_ptr\<close>); the state bits
  (\<open>get_bstate_ptr\<close>) are at offset 0.\<close>

definition data_ofs :: "'d cache_entry \<Rightarrow> nat" where
  "data_ofs hc = unat (hdr_size hc) - sizeof_chunk_hdr"

fun select_loop ::
    "u16 \<Rightarrow> u64 \<Rightarrow> chunk_hdr list \<Rightarrow> nat \<Rightarrow> nat \<Rightarrow> nat option \<Rightarrow> nat option \<Rightarrow> u64 \<Rightarrow> (nat option \<times> nat option \<times> nat option) option" where
  "select_loop nblocks b chs nc 0 ch_free ch_min tmexp = Some (None, ch_free, ch_min)"
| "select_loop nblocks b chs nc (Suc n) ch_free ch_min tmexp =
     (if nc < length chs then
        let ch = chs ! nc;
            ch_start = ucast (bstart ch) :: u32;
            ch_end = ucast (bstart ch + ucast nblocks) :: u32
        in if ucast (cstate ch) AND CBSTATE_PRESENT \<noteq> 0 then
             if ucast ch_start \<le> b \<and> b < ucast ch_end then Some (Some nc, ch_free, ch_min)
             else select_loop nblocks b chs (nc + 1) n ch_free ch_min tmexp
           else
             select_loop nblocks b chs (nc + 1) n (if ch_free = None then Some nc else ch_free)
               (if tstamp ch < tmexp then Some nc else ch_min) (if tstamp ch < tmexp then tstamp ch else tmexp)
      else None)"

definition select_chunk :: "cenv \<Rightarrow> 'd cache_entry \<Rightarrow> u64 \<Rightarrow> u64 \<Rightarrow> (nat option \<times> 'd cache_entry) option" where
  "select_chunk e hc b hclock =
     do {
       (h, m) \<leftarrow> cache_lock e (ce_mutex hc) hclock;
       (r, ch_free, ch_min) \<leftarrow> select_loop (chunk_size (cinfo hc)) b (ce_chunks hc) 0 (unat (num_chunks (cinfo hc))) None None 0xffffffffffffffff;
       let r = (if r \<noteq> None then r else if ch_free \<noteq> None then ch_free else ch_min);
       let hc = (case (r, ev_stamp e) of
                   (Some i, Some t) \<Rightarrow> wr_chunk i ((ce_chunks hc ! i)\<lparr>tstamp := t\<rparr>) hc
                 | _ \<Rightarrow> hc);
       Some (r, hc\<lparr>ce_mutex := cache_unlock m h\<rparr>)
     }"

section \<open>The state of blocks\<close>

definition mark_byte :: "u8 \<Rightarrow> u32 \<Rightarrow> u8 \<Rightarrow> u8" where
  "mark_byte msk offset x =
     (let m1 = drop_bit (unat (offset mod 4) * 2) 0x80; m2 = drop_bit 1 m1;
          x = (if msk AND CBSTATE_DIRTY \<noteq> 0 then x OR m1 else x AND NOT m1)
      in if msk AND CBSTATE_PRESENT \<noteq> 0 then x OR m2 else x AND NOT m2)"

fun mark_loop :: "u64 \<Rightarrow> u64 \<Rightarrow> u8 \<Rightarrow> nat \<Rightarrow> u8 list \<Rightarrow> u8 list option" where
  "mark_loop start bs msk 0 m = Some m"
| "mark_loop start bs msk (Suc n) m =
     (let offset = (ucast (bs - start) :: u32); sbyte = unat (offset div 4)
      in if sbyte < length m then mark_loop start (bs + 1) msk n (m[sbyte := mark_byte msk offset (m ! sbyte)]) else None)"

definition set_bstate :: "chunk_hdr \<Rightarrow> u64 \<Rightarrow> u32 \<Rightarrow> u8 \<Rightarrow> chunk_hdr option" where
  "set_bstate ch bs n msk =
     (if bstart ch \<le> bs \<and> bs < bstart ch + ucast (bcount ch)
      then map_option (\<lambda>m. ch\<lparr>ch_mem := m\<rparr>) (mark_loop (bstart ch) bs msk (unat n) (ch_mem ch)) else Some ch)"

definition get_bstate :: "chunk_hdr \<Rightarrow> u64 \<Rightarrow> u8 option" where
  "get_bstate ch bnum =
     (if bstart ch \<le> bnum \<and> bnum < bstart ch + ucast (bcount ch) then
        let offset = (ucast (bnum - bstart ch) :: u32); sbyte = unat (offset div 4); fbit = unat (offset mod 4) * 2
        in if sbyte < length (ch_mem ch)
           then Some (ucast (drop_bit 6 (ucast (ch_mem ch ! sbyte) AND push_bit fbit (drop_bit fbit 0xc0) :: u32))) else None
      else Some 0)"

section \<open>The device\<close>

text \<open>A call of the callback with the buffer at offset \<open>ofs\<close> of chunk \<open>i\<close>.\<close>

definition ccb_call :: "'d cache_entry \<Rightarrow> nat \<Rightarrow> u32 \<Rightarrow> u64 \<Rightarrow> u32 \<Rightarrow> nat \<Rightarrow> (u32 \<times> 'd cache_entry) option" where
  "ccb_call hc i cmd b n ofs =
     do {
       ch \<leftarrow> rd_chunk hc i;
       (r, buf, d) \<leftarrow> p_ccb (cinfo hc) cmd (ce_handle hc) b n (drop ofs (ch_mem ch)) (ci_udata (cinfo hc));
       Some (r, wr_chunk i (ch\<lparr>ch_mem := take ofs (ch_mem ch) @ buf\<rparr>) (hc\<lparr>cinfo := (cinfo hc)\<lparr>ci_udata := d\<rparr>\<rparr>))
     }"

definition flush_buffer :: "'d cache_entry \<Rightarrow> nat \<Rightarrow> u64 \<Rightarrow> u32 \<Rightarrow> 'd cache_entry option" where
  "flush_buffer hc i start cnt =
     do {
       ch \<leftarrow> rd_chunk hc i;
       (nb, hc) \<leftarrow> ccb_call hc i CIOCTL_WRITE start cnt (data_ofs hc + unat ((start - bstart ch) * ucast (block_size (cinfo hc))));
       ch \<leftarrow> rd_chunk hc i;
       ch \<leftarrow> set_bstate ch start nb CBSTATE_PRESENT;
       Some (wr_chunk i ch hc)
     }"

lemma unat_left_less: "bs < bend \<Longrightarrow> unat (bend - (bs + 1)) < unat (bend - (bs :: u64))"
proof -
  assume "bs < bend"
  then have "bend - bs \<noteq> 0" by simp
  then have "unat (bend - bs - 1) < unat (bend - bs)" by (metis measure_unat)
  then show ?thesis by (simp add: diff_diff_eq)
qed

text \<open>The loop over the blocks of a chunk from \<open>start\<close> to \<open>bend\<close>, at block \<open>bs\<close>, with the \<open>cnt\<close> blocks from \<open>cstart\<close> on to be
  written.\<close>

function flush_loop :: "'d cache_entry \<Rightarrow> nat \<Rightarrow> u64 \<Rightarrow> u64 \<Rightarrow> u64 \<Rightarrow> u64 \<Rightarrow> u32 \<Rightarrow> (u64 \<times> u32 \<times> 'd cache_entry) option" where
  "flush_loop hc i start bend bs cstart cnt =
     (if start \<le> bs \<and> bs < bend then
        do {
          ch \<leftarrow> rd_chunk hc i;
          st \<leftarrow> get_bstate ch bs;
          if st AND CBSTATE_DIRTY \<noteq> 0 \<and> st AND CBSTATE_PRESENT \<noteq> 0 then flush_loop hc i start bend (bs + 1) cstart (cnt + 1)
          else
            do {
              hc \<leftarrow> (if cnt \<noteq> 0 then flush_buffer hc i cstart cnt else Some hc);
              flush_loop hc i start bend (bs + 1) bs 0
            }
        }
      else Some (cstart, cnt, hc))"
  by auto

termination
  by (relation "measure (\<lambda>(hc, i, start, bend, bs, cstart, cnt). unat (bend - bs))") (simp_all add: unat_left_less)

declare flush_loop.simps [simp del]

definition cache_flush_chunk :: "'d cache_entry \<Rightarrow> nat \<Rightarrow> 'd cache_entry option" where
  "cache_flush_chunk hc i =
     do {
       ch \<leftarrow> rd_chunk hc i;
       if ucast (cstate ch) AND CBSTATE_DIRTY \<noteq> 0 then
         do {
           (cstart, cnt, hc) \<leftarrow> flush_loop hc i (bstart ch) (bstart ch + ucast (bcount ch)) (bstart ch) (bstart ch) 0;
           hc \<leftarrow> (if cnt \<noteq> 0 then flush_buffer hc i cstart cnt else Some hc);
           ch \<leftarrow> rd_chunk hc i;
           Some (wr_chunk i (ch\<lparr>cstate := cstate ch AND NOT (ucast CBSTATE_DIRTY)\<rparr>) hc)
         }
       else Some hc
     }"

definition read_whole_chunk :: "'d cache_entry \<Rightarrow> nat \<Rightarrow> u64 \<Rightarrow> (u32 \<times> 'd cache_entry) option" where
  "read_whole_chunk hc i b =
     do {
       hc \<leftarrow> cache_flush_chunk hc i;
       let chsz = (ucast (chunk_size (cinfo hc)) :: u64);
       if chsz = 0 then None
       else
         do {
           let b = b div chsz * chsz;
           (r, hc) \<leftarrow> ccb_call hc i CIOCTL_READ b (ucast (chunk_size (cinfo hc))) (data_ofs hc);
           if r \<noteq> 0 then
             do {
               ch \<leftarrow> rd_chunk hc i;
               let ch = ch\<lparr>bstart := b, bcount := ucast r, cstate := cstate ch OR ucast CBSTATE_PRESENT\<rparr>;
               ch \<leftarrow> set_bstate ch (bstart ch) r CBSTATE_PRESENT;
               Some (r, wr_chunk i ch hc)
             }
           else Some (r, hc)
         }
     }"

definition update_chunk :: "'d cache_entry \<Rightarrow> nat \<Rightarrow> (u32 \<times> 'd cache_entry) option" where
  "update_chunk hc i =
     do {
       ch \<leftarrow> rd_chunk hc i;
       let b = bstart ch + ucast (bcount ch);
       let ch_nblocks = (ucast (chunk_size (cinfo hc)) :: u32);
       let ch_max = (ucast (bstart ch + ucast ch_nblocks) :: u32);
       if bstart ch \<le> b \<and> b < ucast ch_max then
         do {
           (r, hc) \<leftarrow> ccb_call hc i CIOCTL_READ b (ch_nblocks - ucast (bcount ch))
                        (data_ofs hc + unat (ucast (bcount ch) * ucast (block_size (cinfo hc)) :: u32));
           ch \<leftarrow> rd_chunk hc i;
           let ch = ch\<lparr>bcount := bcount ch + ucast r, cstate := cstate ch OR ucast CBSTATE_PRESENT\<rparr>;
           ch \<leftarrow> set_bstate ch b r CBSTATE_PRESENT;
           Some (r, wr_chunk i ch hc)
         }
       else Some (0, hc)
     }"

text \<open>The offset of a block in its chunk, and the number of blocks the code takes it to have from there on.\<close>

definition get_chunk_buffer :: "'d cache_entry \<Rightarrow> chunk_hdr \<Rightarrow> u64 \<Rightarrow> nat option \<times> u32" where
  "get_chunk_buffer hc ch b =
     (let ch_nblocks = (ucast (chunk_size (cinfo hc)) :: u32);
          ch_max = ucast (bstart ch + ucast ch_nblocks) :: u32
      in if bstart ch \<le> b \<and> b < ucast ch_max then
           let cbn = ucast (b - bstart ch) :: u32
           in (Some (data_ofs hc + unat (cbn * ucast (block_size (cinfo hc)))), if cbn < ucast (bcount ch) then ch_max - cbn else 0)
         else (None, 0))"

section \<open>Requests\<close>

definition cache_buffer_unlock :: "cenv \<Rightarrow> cio \<Rightarrow> 'd cache_entry \<Rightarrow> 'd cache_entry option" where
  "cache_buffer_unlock e io hc =
     (case io_plock io of
        None \<Rightarrow> Some hc
      | Some i \<Rightarrow>
          do {
            (p, hc) \<leftarrow> select_chunk e hc (io_bstart io) (ucast (io_bcount io));
            if p = Some i then unlock_chunk i (io_hlock io) hc else Some hc
          })"

text \<open>The labels \<open>_read_whole_chunk_\<close> (\<open>whole\<close>) and \<open>_verify_chunk_\<close>.\<close>

partial_function (option) buffer_loop :: "bool \<Rightarrow> nat \<Rightarrow> u32 \<Rightarrow> cio \<Rightarrow> 'd cache_entry \<Rightarrow> (u32 \<times> cio \<times> 'd cache_entry) option" where
  "buffer_loop whole i r io hc =
     (if whole then
        do {
          (r, hc) \<leftarrow> read_whole_chunk hc i (io_bstart io);
          if r \<noteq> 0 then
            buffer_loop False i r
              (io\<lparr>io_buffer := Some (data_ofs hc), io_bcount := r, io_bsize := r * ucast (block_size (cinfo hc))\<rparr>) hc
          else Some (r, io, hc)
        }
      else
        do {
          ch \<leftarrow> rd_chunk hc i;
          case get_chunk_buffer hc ch (io_bstart io) of (buf, n) \<Rightarrow>
            if buf \<noteq> None \<and> n \<noteq> 0 then
              Some (n, io\<lparr>io_buffer := buf, io_bcount := n, io_bsize := n * ucast (block_size (cinfo hc))\<rparr>, hc)
            else if buf = None \<and> n = 0 then buffer_loop True i r io hc
            else if n = 0 then
              do {
                (r, hc) \<leftarrow> update_chunk hc i;
                if r \<noteq> 0 then buffer_loop False i r io hc else Some (r, io, hc)
              }
            else Some (r, io, hc)
        })"

definition cache_buffer_lock :: "cenv \<Rightarrow> cio \<Rightarrow> 'd cache_entry \<Rightarrow> (u32 \<times> cio \<times> 'd cache_entry) option" where
  "cache_buffer_lock e io hc =
     do {
       (p, hc) \<leftarrow> select_chunk e hc (io_bstart io) 0;
       case p of
         None \<Rightarrow> Some (0, io, hc)
       | Some i \<Rightarrow>
           do {
             (h, hc) \<leftarrow> lock_chunk e i 0 hc;
             ch \<leftarrow> rd_chunk hc i;
             (r, io, hc) \<leftarrow> buffer_loop (ucast (cstate ch) AND CBSTATE_PRESENT = 0) i 0 (io\<lparr>io_hlock := h, io_plock := Some i\<rparr>) hc;
             hc \<leftarrow> (if r = 0 \<or> io_buffer io = None then cache_buffer_unlock e io hc else Some hc);
             Some (r, io, hc)
           }
     }"

definition cache_dirty :: "cenv \<Rightarrow> cio \<Rightarrow> 'd cache_entry \<Rightarrow> 'd cache_entry option" where
  "cache_dirty e io hc =
     do {
       (p, hc) \<leftarrow> select_chunk e hc (io_bstart io) (ucast (io_bcount io));
       if p = io_plock io then
         do {
           i \<leftarrow> p;
           ch \<leftarrow> rd_chunk hc i;
           ch \<leftarrow> set_bstate ch (io_bstart io) (io_bcount io) (CBSTATE_PRESENT OR CBSTATE_DIRTY);
           Some (wr_chunk i (ch\<lparr>cstate := cstate ch OR ucast CBSTATE_DIRTY\<rparr>) hc)
         }
       else Some hc
     }"

text \<open>The loop of \<open>cache_io\<close>: \<open>pos\<close> is the place in the client's buffer, \<open>r\<close> the number of bytes moved.\<close>

partial_function (option) io_loop ::
    "cenv \<Rightarrow> bool \<Rightarrow> u32 \<Rightarrow> u32 \<Rightarrow> u32 \<Rightarrow> u32 \<Rightarrow> nat \<Rightarrow> u32 \<Rightarrow> u8 list \<Rightarrow> 'd cache_entry \<Rightarrow> (u32 \<times> u8 list \<times> 'd cache_entry) option" where
  "io_loop e write b n offset rest pos r buf hc =
     (if n \<noteq> 0 \<and> rest \<noteq> 0 then
        do {
          (nblocks, io, hc) \<leftarrow>
            cache_buffer_lock e \<lparr>io_bstart = ucast b, io_bcount = n, io_bsize = 0, io_buffer = None, io_plock = None, io_hlock = 0\<rparr> hc;
          if nblocks \<noteq> 0 then
            case io_buffer io of
              None \<Rightarrow> do { hc \<leftarrow> cache_buffer_unlock e io hc; io_loop e write b n offset rest pos r buf hc }
            | Some ofs \<Rightarrow>
                do {
                  i \<leftarrow> io_plock io;
                  ch \<leftarrow> rd_chunk hc i;
                  let nbytes = min rest (io_bsize io);
                  (buf, hc) \<leftarrow>
                    (if write then map_option (\<lambda>m. (buf, wr_chunk i (ch\<lparr>ch_mem := m\<rparr>) hc)) (cpy_bytes (ch_mem ch) (ofs + unat offset) buf pos (unat nbytes))
                     else map_option (\<lambda>buf. (buf, hc)) (cpy_bytes buf pos (ch_mem ch) (ofs + unat offset) (unat nbytes)));
                  hc \<leftarrow> (if write then cache_dirty e io hc else Some hc);
                  hc \<leftarrow> cache_buffer_unlock e io hc;
                  io_loop e write (b + nblocks) (if nblocks > n then 0 else n - nblocks) 0 (rest - nbytes) (pos + unat nbytes) (r + nbytes) buf hc
                }
          else Some (r, buf, hc)
        }
      else Some (r, buf, hc))"

definition cache_io :: "cenv \<Rightarrow> bool \<Rightarrow> u64 \<Rightarrow> u16 \<Rightarrow> u32 \<Rightarrow> u32 \<Rightarrow> u8 list \<Rightarrow> 'd cache_entry \<Rightarrow> (u32 \<times> u8 list \<times> 'd cache_entry) option" where
  "cache_io e write b boffset n bsize buf hc = io_loop e write (ucast b) n (ucast boffset) bsize 0 0 buf hc"

fun flush_chunks :: "cenv \<Rightarrow> nat \<Rightarrow> nat \<Rightarrow> 'd cache_entry \<Rightarrow> 'd cache_entry option" where
  "flush_chunks e i 0 hc = Some hc"
| "flush_chunks e i (Suc n) hc =
     do {
       (h, hc) \<leftarrow> lock_chunk e i 0 hc;
       hc \<leftarrow> cache_flush_chunk hc i;
       hc \<leftarrow> unlock_chunk i h hc;
       flush_chunks e (i + 1) n hc
     }"

definition cache_flush :: "cenv \<Rightarrow> 'd cache_entry \<Rightarrow> 'd cache_entry option" where
  "cache_flush e hc = flush_chunks e 0 (unat (num_chunks (cinfo hc))) hc"

definition cache_ioctl ::
    "cenv \<Rightarrow> u32 \<Rightarrow> u64 \<Rightarrow> u16 \<Rightarrow> u32 \<Rightarrow> u32 \<Rightarrow> u8 list \<Rightarrow> 'd cache_entry \<Rightarrow> (u32 \<times> u8 list \<times> 'd cache_entry) option" where
  "cache_ioctl e cmd b boffset n bsize buf hc =
     (if cmd = CIOCTL_READ then cache_io e False b boffset n bsize buf hc
      else if cmd = CIOCTL_WRITE then cache_io e True b boffset n bsize buf hc
      else if cmd = CIOCTL_FLUSH then map_option (\<lambda>hc. (0, buf, hc)) (cache_flush e hc)
      else Some (0, buf, hc))"

section \<open>The object\<close>

text \<open>The entries live in the records of a vector; the model sees them as \<open>entries\<close>, by the address of the record, which is the handle. The
  cache takes the memory of its entries from the heap that its vector uses, the system heap.\<close>

record ('h, 'd) cache =
  c_env :: cenv
  c_vector :: "'h cvector"
  entries :: "ptr \<rightharpoonup> 'd cache_entry"
  c_page_size :: u32
  af_create :: bool

definition sizeof_cache_entry :: u32 where "sizeof_cache_entry = 48"

definition cCache_init :: "'h heap_alloc \<Rightarrow> 'h heap_free \<Rightarrow> ll_state list \<Rightarrow> ('h, 'd) cache \<Rightarrow> (bool \<times> ('h, 'd) cache) option" where
  "cCache_init halloc hfree raw c =
     map_option (\<lambda>v. (True, c\<lparr>c_vector := v\<rparr>)) (cVector_init halloc hfree raw (c_vector c) sizeof_cache_entry 1 None)"

definition cCache_lock :: "u64 \<Rightarrow> ('h, 'd) cache \<Rightarrow> (u64 \<times> ('h, 'd) cache) option" where
  "cCache_lock hlock c =
     (let u = LL_Alg.p_udata (c_vector c)
      in map_option (\<lambda>(r, m). (r, c\<lparr>c_vector := (c_vector c)\<lparr>p_udata := u\<lparr>m_p_mutex := m\<rparr>\<rparr>\<rparr>)) (cache_lock (c_env c) (m_p_mutex u) hlock))"

definition cCache_unlock :: "u64 \<Rightarrow> ('h, 'd) cache \<Rightarrow> ('h, 'd) cache" where
  "cCache_unlock hlock c = c\<lparr>c_vector := cVector_unlock (c_vector c) hlock\<rparr>"

definition on_v :: "('h cvector \<Rightarrow> ('a \<times> 'h cvector) option) \<Rightarrow> ('h, 'd) cache \<Rightarrow> ('a \<times> ('h, 'd) cache) option" where
  "on_v f c = map_option (\<lambda>(r, v). (r, c\<lparr>c_vector := v\<rparr>)) (f (c_vector c))"

definition pages_of :: "u32 \<Rightarrow> u32 \<Rightarrow> u32" where
  "pages_of sz page = sz div page + (if sz mod page \<noteq> 0 then 1 else 0)"

definition alloc_cache_memory :: "'h heap_alloc \<Rightarrow> u32 \<Rightarrow> ('h, 'd) cache \<Rightarrow> (ptr \<times> ('h, 'd) cache) option" where
  "alloc_cache_memory halloc sz c =
     (if c_page_size c = 0 then None
      else on_v (\<lambda>v. map_option (\<lambda>(p, u). (p, v\<lparr>p_udata := u\<rparr>)) (llv_alloc halloc (pages_of sz (c_page_size c) * c_page_size c) (LL_Alg.p_udata v))) c)"

definition zero_chunk :: "u32 \<Rightarrow> chunk_hdr" where
  "zero_chunk sz = \<lparr>bstart = 0, cstate = 0, bcount = 0, tstamp = 0, p_mutex = None, ch_mem = replicate (unat sz - sizeof_chunk_hdr) 0\<rparr>"

text \<open>The sizes of an entry: bytes of a header, of a chunk and of all chunks.\<close>

definition hdr_bytes_of :: "'d cache_info \<Rightarrow> u32" where
  "hdr_bytes_of ci = (let n = ucast (chunk_size ci) div 4 + of_nat sizeof_chunk_hdr in (n div 1024 + (if n mod 1024 \<noteq> 0 then 1 else 0)) * 1024)"

definition chunk_sz_of :: "'d cache_info \<Rightarrow> u32" where
  "chunk_sz_of ci = ucast (chunk_size ci) * ucast (block_size ci) + hdr_bytes_of ci"

definition mem_sz_of :: "'d cache_info \<Rightarrow> u32" where
  "mem_sz_of ci = ucast (num_chunks ci) * chunk_sz_of ci"

definition new_entry :: "'d cache_info \<Rightarrow> ptr \<Rightarrow> cmutex option \<Rightarrow> 'd cache_entry" where
  "new_entry ci p m =
     \<lparr>ce_handle = 0, cinfo = ci, p_fhdr = p, ce_chunks = replicate (unat (mem_sz_of ci) div unat (chunk_sz_of ci)) (zero_chunk (chunk_sz_of ci)),
      mem_sz = mem_sz_of ci, chunk_sz = chunk_sz_of ci, hdr_size = ucast (hdr_bytes_of ci), ce_mutex = m\<rparr>"

definition cCache_alloc :: "'h heap_alloc \<Rightarrow> 'd cache_info \<Rightarrow> ('h, 'd) cache \<Rightarrow> (ptr \<times> ('h, 'd) cache) option" where
  "cCache_alloc halloc ci c =
     do {
       (p, c) \<leftarrow> alloc_cache_memory halloc (mem_sz_of ci) c;
       if p \<noteq> 0 then
         do {
           let che = new_entry ci p (ev_clone (c_env c));
           (r, c) \<leftarrow> on_v (\<lambda>v. ll_add v (\<lambda>_. 0) 0) c;
           let c = (if r \<noteq> 0 then c\<lparr>entries := (entries c)(r \<mapsto> che\<lparr>ce_handle := r\<rparr>)\<rparr> else c);
           Some (r, c\<lparr>af_create := False\<rparr>)
         }
       else Some (0, c)
     }"

fun htoidx_loop :: "ptr \<Rightarrow> u64 \<Rightarrow> nat \<Rightarrow> nat \<Rightarrow> ('h, 'd) cache \<Rightarrow> (u32 \<times> ('h, 'd) cache) option" where
  "htoidx_loop h hm i 0 c = Some (INVALID_HANDLE_INDEX, c)"
| "htoidx_loop h hm i (Suc n) c =
     do {
       (p, c) \<leftarrow> on_v (\<lambda>v. ll_get v (of_nat i) hm) c;
       if p = h then Some (of_nat i, c) else htoidx_loop h hm (i + 1) n c
     }"

definition htoidx :: "ptr \<Rightarrow> u64 \<Rightarrow> ('h, 'd) cache \<Rightarrow> (u32 \<times> ('h, 'd) cache) option" where
  "htoidx h hlock c =
     do {
       (hm, c) \<leftarrow> cCache_lock hlock c;
       (cnt, c) \<leftarrow> on_v (\<lambda>v. ll_cnt v hm) c;
       (r, c) \<leftarrow> htoidx_loop h hm 0 (unat cnt) c;
       Some (r, cCache_unlock hm c)
     }"

text \<open>The chunks of an entry are flushed; their mutexes and that of the entry are released with it.\<close>

definition cCache_free :: "'h heap_free \<Rightarrow> ptr \<Rightarrow> ('h, 'd) cache \<Rightarrow> ('h, 'd) cache option" where
  "cCache_free hfree h c =
     do {
       (hlock, c) \<leftarrow> cCache_lock 0 c;
       (vidx, c) \<leftarrow> htoidx h hlock c;
       c \<leftarrow>
         (if vidx \<noteq> INVALID_HANDLE_INDEX then
            do {
              che \<leftarrow> entries c h;
              (hclock, m) \<leftarrow> cache_lock (c_env c) (ce_mutex che) 0;
              che \<leftarrow> flush_chunks (c_env c) 0 (unat (num_chunks (cinfo che))) (che\<lparr>ce_mutex := m\<rparr>);
              if c_page_size c = 0 then None
              else
                do {
                  u \<leftarrow> llv_free hfree (p_fhdr che) (pages_of (mem_sz che) (c_page_size c) * c_page_size c) (LL_Alg.p_udata (c_vector c));
                  v \<leftarrow> ll_del ((c_vector c)\<lparr>p_udata := u\<rparr>) vidx hlock;
                  Some (c\<lparr>c_vector := v, entries := (entries c)(h := None)\<rparr>)
                }
            }
          else Some c);
       Some (cCache_unlock hlock c)
     }"

partial_function (option) flush_entries :: "u64 \<Rightarrow> ptr \<Rightarrow> ('h, 'd) cache \<Rightarrow> ('h, 'd) cache option" where
  "flush_entries hlock h c =
     do {
       hc \<leftarrow> entries c h;
       hc \<leftarrow> cache_flush (c_env c) hc;
       (h', c) \<leftarrow> on_v (\<lambda>v. ll_next v hlock) (c\<lparr>entries := (entries c)(h \<mapsto> hc)\<rparr>);
       if h' \<noteq> 0 then flush_entries hlock h' c else Some c
     }"

definition cCache_flush :: "('h, 'd) cache \<Rightarrow> ('h, 'd) cache option" where
  "cCache_flush c =
     do {
       (hlock, c) \<leftarrow> cCache_lock 0 c;
       (h, c) \<leftarrow> on_v (\<lambda>v. ll_first v hlock) c;
       c \<leftarrow> flush_entries hlock h c;
       Some (cCache_unlock hlock c)
     }"

definition cCache_ioctl ::
    "u32 \<Rightarrow> ptr \<Rightarrow> u64 \<Rightarrow> u16 \<Rightarrow> u32 \<Rightarrow> u32 \<Rightarrow> u8 list \<Rightarrow> ('h, 'd) cache \<Rightarrow> (u32 \<times> u8 list \<times> ('h, 'd) cache) option" where
  "cCache_ioctl cmd h b boffset n bsize buf c =
     (if cmd \<in> {CIOCTL_READ, CIOCTL_WRITE, CIOCTL_FLUSH} then
        do {
          hc \<leftarrow> entries c h;
          (r, buf, hc) \<leftarrow> cache_ioctl (c_env c) cmd b boffset n bsize buf hc;
          Some (r, buf, c\<lparr>entries := (entries c)(h \<mapsto> hc)\<rparr>)
        }
      else Some (0, buf, c))"

end
