(* ===== verification/Cache_IO.thy ===== *)
theory Cache_IO
  imports Cache
begin

text \<open>
  What the block cache does: requests that stay within a chunk behave as on a flat disk, whatever is in the cache and on the device.
  The device is a locale, \<open>block_dev\<close>.
\<close>

section \<open>Locks\<close>

text \<open>A free mutex is locked at once with any handle, and free after the matching unlock.\<close>

lemma cache_lock_idle:
  assumes "mutex_idle p"
  obtains h p' where "cache_lock e p hl = Some (h, p')" "mutex_idle (cache_unlock p' h)"
proof (cases p)
  case None
  then show thesis using that by (simp add: cache_lock_def cache_unlock_def mutex_idle_def)
next
  case (Some x)
  then have "cMutex_free x" using assms by (simp add: mutex_idle_def)
  from try_lock_idle [OF this] obtain h x' where l: "cMutex_try_lock x hl = (h, x')" "h \<noteq> 0" "cMutex_free (cMutex_unlock x' h)" .
  have "mutex_try_lock (m_addr x) (m_mutex x) hl = (h, m_mutex x')" "x' = x\<lparr>m_mutex := m_mutex x'\<rparr>"
    using l(1) by (auto simp: cMutex_try_lock_def split: prod.splits)
  then have m: "cMutex_lock x hl MUTEX_TIMEOUT_INFINITE 0 = Some (h, x')"
    using mutex_lock_first_try l(2) by (simp add: cMutex_lock_def)
  have "cBlender_acquire_mutex c x hl MUTEX_TIMEOUT_INFINITE = Some (if c then (h, x') else (0, x))" for c
    using l(1,2) by (simp add: cBlender_acquire_mutex_def poll_done)
  then have "cache_lock e p hl = Some (h, Some x')" using Some l(2) m by (simp add: cache_lock_def)
  then show thesis using that l(3) by (simp add: cache_unlock_def mutex_idle_def)
qed

section \<open>Selecting a chunk\<close>

definition present :: "chunk_hdr \<Rightarrow> bool" where
  "present ch \<longleftrightarrow> ucast (cstate ch) AND CBSTATE_PRESENT \<noteq> 0"

definition dirty :: "chunk_hdr \<Rightarrow> bool" where
  "dirty ch \<longleftrightarrow> ucast (cstate ch) AND CBSTATE_DIRTY \<noteq> 0"

lemma present_bit: "present ch \<longleftrightarrow> bit (cstate ch) 0"
  using and_exp_eq_0_iff_not_bit [of "ucast (cstate ch) :: u8" 0]
  by (auto simp: present_def CBSTATE_PRESENT_def bit_ucast_iff)

lemma dirty_bit: "dirty ch \<longleftrightarrow> bit (cstate ch) 1"
  using and_exp_eq_0_iff_not_bit [of "ucast (cstate ch) :: u8" 1]
  by (auto simp: dirty_def CBSTATE_DIRTY_def bit_ucast_iff)

definition hit :: "u16 \<Rightarrow> u64 \<Rightarrow> chunk_hdr \<Rightarrow> bool" where
  "hit n b ch \<longleftrightarrow> present ch \<and> ucast (ucast (bstart ch) :: u32) \<le> b \<and> b < ucast (ucast (bstart ch + ucast n) :: u32)"

definition pick :: "u16 \<Rightarrow> u64 \<Rightarrow> chunk_hdr list \<Rightarrow> nat option" where
  "pick n b chs =
     (case find (\<lambda>i. hit n b (chs ! i)) [0..<length chs] of Some i \<Rightarrow> Some i | None \<Rightarrow> find (\<lambda>i. \<not> present (chs ! i)) [0..<length chs])"

lemma select_loop_pick:
  assumes "nc + n \<le> length chs"
  shows "\<exists>F M. select_loop cs b chs nc n fr mr tm = Some (find (\<lambda>i. hit cs b (chs ! i)) [nc..<nc + n], F, M) \<and>
    (find (\<lambda>i. hit cs b (chs ! i)) [nc..<nc + n] = None \<longrightarrow>
       F = (if fr \<noteq> None then fr else find (\<lambda>i. \<not> present (chs ! i)) [nc..<nc + n]) \<and> (F = None \<longrightarrow> M = mr))"
  using assms
proof (induction n arbitrary: nc fr mr tm)
  case (Suc n)
  have u: "[nc..<nc + Suc n] = nc # [nc + 1..<nc + 1 + n]" by (simp add: upt_conv_Cons)
  have l: "nc < length chs" "nc + 1 + n \<le> length chs" using Suc.prems by auto
  note IH = Suc.IH [OF l(2)]
  show ?case
  proof (cases "present (chs ! nc)")
    case True
    then show ?thesis using l(1) IH [of fr mr tm] unfolding u by (auto simp: hit_def present_def Let_def)
  next
    case False
    then have "\<not> hit cs b (chs ! nc)" by (simp add: hit_def)
    then show ?thesis
      using False l(1) IH [of "if fr = None then Some nc else fr" "if tstamp (chs ! nc) < tm then Some nc else mr"
          "if tstamp (chs ! nc) < tm then tstamp (chs ! nc) else tm"]
      unfolding u by (auto simp: present_def Let_def)
  qed
qed simp

lemma map_update_same: "f y = f (xs ! i) \<Longrightarrow> map f (xs[i := y]) = map f xs"
  by (metis list_update_id map_update)

text \<open>What a request keeps while it only takes locks and stamps chunks.\<close>

definition core :: "chunk_hdr \<Rightarrow> u64 \<times> 2 word \<times> 30 word \<times> u8 list" where
  "core ch = (bstart ch, cstate ch, bcount ch, ch_mem ch)"

definition same :: "'d cache_entry \<Rightarrow> 'd cache_entry \<Rightarrow> bool" where
  "same hc hc' \<longleftrightarrow> ce_handle hc' = ce_handle hc \<and> cinfo hc' = cinfo hc \<and> hdr_size hc' = hdr_size hc \<and>
     map core (ce_chunks hc') = map core (ce_chunks hc)"

lemma same_refl [simp]: "same hc hc"
  by (simp add: same_def)

lemma same_trans: "same a b \<Longrightarrow> same b c \<Longrightarrow> same a c"
  by (simp add: same_def)

lemma same_length: "same hc hc' \<Longrightarrow> length (ce_chunks hc') = length (ce_chunks hc)"
  unfolding same_def by (metis length_map)

lemma same_core: "same hc hc' \<Longrightarrow> i < length (ce_chunks hc) \<Longrightarrow> core (ce_chunks hc' ! i) = core (ce_chunks hc ! i)"
  using same_length unfolding same_def by (metis nth_map)

lemma select_chunk_pick:
  assumes "mutex_idle (ce_mutex hc)" "length (ce_chunks hc) = unat (num_chunks (cinfo hc))"
  obtains hc' where "select_chunk e hc b hl = Some (pick (chunk_size (cinfo hc)) b (ce_chunks hc), hc')" "same hc hc'" "mutex_idle (ce_mutex hc')"
    "map p_mutex (ce_chunks hc') = map p_mutex (ce_chunks hc)"
proof -
  let ?n = "unat (num_chunks (cinfo hc))" and ?cs = "chunk_size (cinfo hc)" and ?p = "pick (chunk_size (cinfo hc)) b (ce_chunks hc)"
  obtain h m where l: "cache_lock e (ce_mutex hc) hl = Some (h, m)" "mutex_idle (cache_unlock m h)" using cache_lock_idle [OF assms(1)] .
  obtain F M where f: "select_loop ?cs b (ce_chunks hc) 0 ?n None None 0xffffffffffffffff = Some (find (\<lambda>i. hit ?cs b (ce_chunks hc ! i)) [0..<?n], F, M)"
    "find (\<lambda>i. hit ?cs b (ce_chunks hc ! i)) [0..<?n] = None \<Longrightarrow> F = find (\<lambda>i. \<not> present (ce_chunks hc ! i)) [0..<?n] \<and> (F = None \<longrightarrow> M = None)"
    using select_loop_pick [of 0 ?n "ce_chunks hc" ?cs b None None "0xffffffffffffffff"] assms(2) by auto
  let ?hc = "case (?p, ev_stamp e) of (Some i, Some t) \<Rightarrow> wr_chunk i ((ce_chunks hc ! i)\<lparr>tstamp := t\<rparr>) hc | _ \<Rightarrow> hc"
  let ?hc' = "?hc\<lparr>ce_mutex := cache_unlock m h\<rparr>"
  have "select_chunk e hc b hl = Some (?p, ?hc')"
    using l(1) f assms(2) by (auto simp: select_chunk_def pick_def Let_def split: option.splits)
  moreover have "same hc ?hc'" "map p_mutex (ce_chunks ?hc') = map p_mutex (ce_chunks hc)" "mutex_idle (ce_mutex ?hc')"
    using l(2) by (auto simp: same_def wr_chunk_def core_def split: option.splits intro!: map_update_same)
  ultimately show thesis using that by blast
qed

lemma find_map_same:
  assumes "map f xs = map f ys" "\<And>x y. f x = f y \<Longrightarrow> P x = P y"
  shows "map_option f (find P xs) = map_option f (find P ys)"
  using assms(1)
proof (induction xs arbitrary: ys)
  case (Cons x xs)
  then obtain y ys' where "ys = y # ys'" "f x = f y" "map f xs = map f ys'" by auto
  then show ?case using Cons.IH [of ys'] assms(2) [of x y] by simp
qed simp

section \<open>State bits\<close>

lemma unat_next: "unat (x :: u64) + 1 < 2 ^ 64 \<Longrightarrow> unat (x + 1) = unat x + 1"
  by (simp add: unat_word_ariths)

text \<open>Marking blocks whose state bits are in the first \<open>k\<close> bytes changes nothing behind them.\<close>

lemma mark_loop_ok:
  assumes "unat (bs - start) + n \<le> 4 * k" "unat (bs - start) + n < 2 ^ 32" "k \<le> length m"
  shows "\<exists>m'. mark_loop start bs msk n m = Some m' \<and> length m' = length m \<and> drop k m' = drop k m"
  using assms
proof (induction n arbitrary: bs m)
  case (Suc n)
  let ?o = "ucast (bs - start) :: u32"
  have o: "unat ?o = unat (bs - start)" using Suc.prems(2) by (intro unat_down) simp
  have i: "unat (?o div 4) = unat (bs - start) div 4" using o by (simp add: unat_div)
  have "bs + 1 - start = bs - start + 1" by simp
  then have s: "unat (bs + 1 - start) = unat (bs - start) + 1" using Suc.prems(2) unat_next [of "bs - start"] by (simp only:) simp
  have k: "unat (bs - start) div 4 < k" using Suc.prems(1) by simp
  let ?m = "m[unat (?o div 4) := mark_byte msk ?o (m ! unat (?o div 4))]"
  have "\<exists>m'. mark_loop start (bs + 1) msk n ?m = Some m' \<and> length m' = length ?m \<and> drop k m' = drop k ?m"
    using Suc.prems s by (intro Suc.IH) simp_all
  moreover have "drop k ?m = drop k m" using k i by (simp add: drop_update_cancel)
  ultimately show ?case using k Suc.prems(3) i by (simp add: Let_def)
qed simp

lemma set_bstate_ok:
  assumes "unat (b - bstart ch) + unat n \<le> 4 * k" "unat (b - bstart ch) + unat n < 2 ^ 32" "k \<le> length (ch_mem ch)"
  obtains m' where "set_bstate ch b n msk = Some (ch\<lparr>ch_mem := m'\<rparr>)" "length m' = length (ch_mem ch)" "drop k m' = drop k (ch_mem ch)"
proof (cases "bstart ch \<le> b \<and> b < bstart ch + ucast (bcount ch)")
  case True
  then show thesis using that mark_loop_ok [OF assms, of msk] by (auto simp: set_bstate_def)
next
  case False
  then show thesis using that [of "ch_mem ch"] by (auto simp: set_bstate_def)
qed

lemma get_bstate_total:
  assumes "unat (b - bstart ch) < 4 * k" "unat (b - bstart ch) < 2 ^ 32" "k \<le> length (ch_mem ch)"
  obtains st where "get_bstate ch b = Some st"
proof -
  have "unat (ucast (b - bstart ch) div 4 :: u32) = unat (b - bstart ch) div 4" using assms(2) by (simp add: unat_div unat_down)
  then have "unat (ucast (b - bstart ch) div 4 :: u32) < length (ch_mem ch)" using assms(1,3) by simp
  then have "\<exists>st. get_bstate ch b = Some st" by (simp add: get_bstate_def Let_def)
  then show thesis using that by blast
qed

section \<open>The flat disk behind a cache\<close>

abbreviation bsz :: "'d cache_entry \<Rightarrow> nat" where
  "bsz hc \<equiv> unat (block_size (cinfo hc))"

abbreviation csz :: "'d cache_entry \<Rightarrow> nat" where
  "csz hc \<equiv> unat (chunk_size (cinfo hc))"

abbreviation first_byte :: "'d cache_entry \<Rightarrow> chunk_hdr \<Rightarrow> nat" where
  "first_byte hc ch \<equiv> unat (bstart ch) * bsz hc"

definition holds :: "nat \<Rightarrow> nat \<Rightarrow> chunk_hdr \<Rightarrow> bool" where
  "holds n a ch \<longleftrightarrow> present ch \<and> unat (bstart ch) * n \<le> a \<and> a < (unat (bstart ch) + unat (bcount ch)) * n"

definition data_byte :: "'d cache_entry \<Rightarrow> nat \<Rightarrow> chunk_hdr \<Rightarrow> u8" where
  "data_byte hc a ch = ch_mem ch ! (data_ofs hc + (a - first_byte hc ch))"

text \<open>A chunk in a cache over a device of \<open>N\<close> blocks.\<close>

definition chunk_ok :: "nat \<Rightarrow> 'd cache_entry \<Rightarrow> chunk_hdr \<Rightarrow> bool" where
  "chunk_ok N hc ch \<longleftrightarrow> length (ch_mem ch) = data_ofs hc + csz hc * bsz hc \<and>
     (if present ch then csz hc dvd unat (bstart ch) \<and> unat (bstart ch) < N \<and> unat (bcount ch) = min (csz hc) (N - unat (bstart ch))
      else cstate ch = 0)"

definition apart :: "chunk_hdr list \<Rightarrow> bool" where
  "apart chs \<longleftrightarrow> (\<forall>i j. i < length chs \<longrightarrow> j < length chs \<longrightarrow> present (chs ! i) \<longrightarrow> present (chs ! j) \<longrightarrow> bstart (chs ! i) = bstart (chs ! j) \<longrightarrow> i = j)"

text \<open>Requests to a cache, and the flat disk they should act on: reads give bytes, writes change bytes, flushing changes nothing.\<close>

datatype cop = CRead u32 u16 u32 u32 | CWrite u32 u16 u32 "u8 list" | CFlush

fun cache_call :: "cenv \<Rightarrow> cop \<Rightarrow> 'd cache_entry \<Rightarrow> (u32 \<times> u8 list \<times> 'd cache_entry) option" where
  "cache_call e (CRead b ofs n sz) hc = cache_ioctl e CIOCTL_READ (ucast b) ofs n sz (replicate (unat sz) 0) hc"
| "cache_call e (CWrite b ofs n bytes) hc = cache_ioctl e CIOCTL_WRITE (ucast b) ofs n (of_nat (length bytes)) bytes hc"
| "cache_call e CFlush hc = cache_ioctl e CIOCTL_FLUSH 0 0 0 0 [] hc"

fun cache_calls :: "cenv \<Rightarrow> cop list \<Rightarrow> 'd cache_entry \<Rightarrow> ((u32 \<times> u8 list) list \<times> 'd cache_entry) option" where
  "cache_calls e [] hc = Some ([], hc)"
| "cache_calls e (op # ops) hc =
     do { (r, buf, hc) \<leftarrow> cache_call e op hc; (rs, hc) \<leftarrow> cache_calls e ops hc; Some ((r, buf) # rs, hc) }"

fun disk_call :: "nat \<Rightarrow> cop \<Rightarrow> (nat \<Rightarrow> u8) \<Rightarrow> (u32 \<times> u8 list) \<times> (nat \<Rightarrow> u8)" where
  "disk_call bs (CRead b ofs n sz) D = (let a = unat b * bs + unat ofs in ((sz, map D [a..<a + unat sz]), D))"
| "disk_call bs (CWrite b ofs n bytes) D =
     (let a = unat b * bs + unat ofs in ((of_nat (length bytes), bytes), \<lambda>x. if a \<le> x \<and> x < a + length bytes then bytes ! (x - a) else D x))"
| "disk_call bs CFlush D = ((0, []), D)"

fun disk_calls :: "nat \<Rightarrow> cop list \<Rightarrow> (nat \<Rightarrow> u8) \<Rightarrow> (u32 \<times> u8 list) list \<times> (nat \<Rightarrow> u8)" where
  "disk_calls bs [] D = ([], D)"
| "disk_calls bs (op # ops) D = (let (r, D) = disk_call bs op D; (rs, D) = disk_calls bs ops D in (r # rs, D))"

fun op_chunks :: "nat \<Rightarrow> cop \<Rightarrow> nat set" where
  "op_chunks c (CRead b ofs n sz) = {unat b div c}"
| "op_chunks c (CWrite b ofs n bytes) = {unat b div c}"
| "op_chunks c CFlush = {}"

locale block_dev =
  fixes dev_cb :: "'d ccb" and dinv :: "ptr \<Rightarrow> nat \<Rightarrow> 'd \<Rightarrow> bool" and dblocks :: "'d \<Rightarrow> nat" and dbyte :: "'d \<Rightarrow> nat \<Rightarrow> u8"
  assumes dev_read: "dinv h bs d \<Longrightarrow> unat b < dblocks d \<Longrightarrow> unat n * bs \<le> length buf \<Longrightarrow> unat n * bs < 2 ^ 32 \<Longrightarrow>
      \<exists>buf' d'. dev_cb CIOCTL_READ h b n buf d = Some (of_nat (min (unat n) (dblocks d - unat b)), buf', d') \<and>
        dinv h bs d' \<and> dblocks d' = dblocks d \<and> dbyte d' = dbyte d \<and> length buf' = length buf \<and>
        (\<forall>i<min (unat n) (dblocks d - unat b) * bs. buf' ! i = dbyte d (unat b * bs + i))"
    and dev_write: "dinv h bs d \<Longrightarrow> unat b + unat n \<le> dblocks d \<Longrightarrow> n \<noteq> 0 \<Longrightarrow> unat n * bs \<le> length buf \<Longrightarrow> unat n * bs < 2 ^ 32 \<Longrightarrow>
      \<exists>d'. dev_cb CIOCTL_WRITE h b n buf d = Some (n, buf, d') \<and> dinv h bs d' \<and> dblocks d' = dblocks d \<and>
        (\<forall>a. dbyte d' a = (if unat b * bs \<le> a \<and> a < (unat b + unat n) * bs then buf ! (a - unat b * bs) else dbyte d a))"
begin

definition dev :: "'d cache_entry \<Rightarrow> 'd" where
  "dev hc = ci_udata (cinfo hc)"

definition entry_ok :: "'d cache_entry \<Rightarrow> bool" where
  "entry_ok hc \<longleftrightarrow> p_ccb (cinfo hc) = dev_cb \<and> dinv (ce_handle hc) (bsz hc) (dev hc) \<and> 0 < bsz hc \<and> 0 < csz hc \<and>
     length (ce_chunks hc) = unat (num_chunks (cinfo hc)) \<and> (dblocks (dev hc) + csz hc) * bsz hc < 2 ^ 32 \<and> csz hc \<le> 4 * data_ofs hc \<and>
     (\<forall>ch\<in>set (ce_chunks hc). chunk_ok (dblocks (dev hc)) hc ch) \<and> apart (ce_chunks hc)"

text \<open>The byte at address \<open>a\<close>: in a chunk if one holds it, else on the device.\<close>

definition view :: "'d cache_entry \<Rightarrow> nat \<Rightarrow> u8" where
  "view hc a = (case find (holds (bsz hc) a) (ce_chunks hc) of None \<Rightarrow> dbyte (dev hc) a | Some ch \<Rightarrow> data_byte hc a ch)"

lemma core_fields:
  assumes "core ch = core ch'"
  shows "present ch = present ch'" "dirty ch = dirty ch'" "holds n a ch = holds n a ch'" "chunk_ok N hc ch = chunk_ok N hc ch'" "bstart ch = bstart ch'"
    "bcount ch = bcount ch'" "ch_mem ch = ch_mem ch'" "cstate ch = cstate ch'" "hit k b ch = hit k b ch'" "data_byte hc a ch = data_byte hc a ch'"
  using assms by (auto simp: core_def present_def dirty_def holds_def chunk_ok_def hit_def data_byte_def)

lemma chunk_facts:
  assumes "entry_ok hc" "ch \<in> set (ce_chunks hc)"
  shows "length (ch_mem ch) = data_ofs hc + csz hc * bsz hc"
    and "present ch \<Longrightarrow> unat (bstart ch) < dblocks (dev hc) \<and> unat (bcount ch) = min (csz hc) (dblocks (dev hc) - unat (bstart ch)) \<and>
      csz hc dvd unat (bstart ch) \<and> unat (bstart ch) + unat (bcount ch) \<le> dblocks (dev hc) \<and> unat (bcount ch) \<le> csz hc"
    and "\<not> present ch \<Longrightarrow> cstate ch = 0"
proof -
  have ok: "chunk_ok (dblocks (dev hc)) hc ch" using assms by (simp add: entry_ok_def)
  then show "length (ch_mem ch) = data_ofs hc + csz hc * bsz hc" "\<not> present ch \<Longrightarrow> cstate ch = 0" by (simp_all add: chunk_ok_def)
  assume "present ch"
  then show "unat (bstart ch) < dblocks (dev hc) \<and> unat (bcount ch) = min (csz hc) (dblocks (dev hc) - unat (bstart ch)) \<and>
      csz hc dvd unat (bstart ch) \<and> unat (bstart ch) + unat (bcount ch) \<le> dblocks (dev hc) \<and> unat (bcount ch) \<le> csz hc"
    using ok by (simp add: chunk_ok_def) linarith
qed

text \<open>Two chunks never hold the same byte.\<close>

lemma holds_unique:
  assumes "entry_ok hc" "i < length (ce_chunks hc)" "j < length (ce_chunks hc)" "holds (bsz hc) a (ce_chunks hc ! i)" "holds (bsz hc) a (ce_chunks hc ! j)"
  shows "i = j"
proof -
  have c: "unat (bstart ch) = a div bsz hc div csz hc * csz hc" if "ch \<in> set (ce_chunks hc)" "holds (bsz hc) a ch" for ch
  proof -
    have ch: "csz hc dvd unat (bstart ch)" "unat (bcount ch) \<le> csz hc" "0 < bsz hc" "0 < csz hc"
      using assms(1) that by (auto simp: entry_ok_def chunk_ok_def holds_def)
    have "unat (bstart ch) \<le> a div bsz hc" using that(2) ch(3) by (simp add: holds_def less_eq_div_iff_mult_less_eq)
    moreover have "a div bsz hc < unat (bstart ch) + unat (bcount ch)" using that(2) ch(3) by (simp add: holds_def div_less_iff_less_mult)
    ultimately have "a div bsz hc - unat (bstart ch) < csz hc" "unat (bstart ch) \<le> a div bsz hc" using ch(2) by auto
    moreover obtain k where "unat (bstart ch) = k * csz hc" using ch(1) by (auto simp: dvd_def mult.commute)
    ultimately have "a div bsz hc div csz hc = k"
      using ch(4) by (intro div_nat_eqI) (simp_all add: algebra_simps)
    then show ?thesis using \<open>unat (bstart ch) = k * csz hc\<close> by simp
  qed
  have "unat (bstart (ce_chunks hc ! i)) = unat (bstart (ce_chunks hc ! j))" using c [OF nth_mem] assms(2-5) by simp
  then have "bstart (ce_chunks hc ! i) = bstart (ce_chunks hc ! j)" by (simp add: word_unat_eq_iff)
  then show ?thesis using assms by (auto simp: entry_ok_def apart_def holds_def)
qed

lemma view_chunk:
  assumes "entry_ok hc" "i < length (ce_chunks hc)" "holds (bsz hc) a (ce_chunks hc ! i)"
  shows "view hc a = data_byte hc a (ce_chunks hc ! i)"
proof (cases "find (holds (bsz hc) a) (ce_chunks hc)")
  case None
  then show ?thesis using assms(2,3) by (metis find_None_iff nth_mem)
next
  case (Some ch)
  then obtain j where "j < length (ce_chunks hc)" "ce_chunks hc ! j = ch" "holds (bsz hc) a ch" by (auto simp: find_Some_iff)
  then have "j = i" using holds_unique [OF assms(1)] assms(2,3) by blast
  then show ?thesis using Some \<open>ce_chunks hc ! j = ch\<close> by (simp add: view_def)
qed

lemma view_dev: "(\<And>ch. ch \<in> set (ce_chunks hc) \<Longrightarrow> \<not> holds (bsz hc) a ch) \<Longrightarrow> view hc a = dbyte (dev hc) a"
  by (metis find_None_iff option.simps(4) view_def)

lemma same_view:
  assumes "same hc hc'"
  shows "view hc' = view hc" and "entry_ok hc' = entry_ok hc"
proof -
  have d: "bsz hc' = bsz hc" "csz hc' = csz hc" "data_ofs hc' = data_ofs hc" "dev hc' = dev hc" "cinfo hc' = cinfo hc" "ce_handle hc' = ce_handle hc"
    using assms by (auto simp: same_def data_ofs_def dev_def)
  have m: "map core (ce_chunks hc') = map core (ce_chunks hc)" using assms by (simp add: same_def)
  have l: "length (ce_chunks hc') = length (ce_chunks hc)" using same_length [OF assms] .
  show "view hc' = view hc"
  proof
    fix a
    have "map_option core (find (holds (bsz hc) a) (ce_chunks hc')) = map_option core (find (holds (bsz hc) a) (ce_chunks hc))"
      by (rule find_map_same [OF m]) (rule core_fields)
    moreover have "data_byte hc' a = data_byte hc a" by (simp add: data_byte_def d fun_eq_iff)
    ultimately show "view hc' a = view hc a" by (auto simp: view_def d split: option.splits intro: core_fields(10))
  qed
  have c: "core (ce_chunks hc' ! i) = core (ce_chunks hc ! i)" if "i < length (ce_chunks hc)" for i using same_core [OF assms that] .
  have "(\<forall>ch\<in>set (ce_chunks hc'). chunk_ok N hc' ch) = (\<forall>ch\<in>set (ce_chunks hc). chunk_ok N hc ch)" for N
  proof -
    have "chunk_ok N hc' ch = chunk_ok N hc ch" for ch using d by (simp add: chunk_ok_def)
    then show ?thesis unfolding all_set_conv_all_nth l using core_fields(4) [OF c] by blast
  qed
  moreover have "apart (ce_chunks hc') = apart (ce_chunks hc)"
    unfolding apart_def l using core_fields(1,5) [OF c] by (metis (no_types, lifting))
  ultimately show "entry_ok hc' = entry_ok hc" using d l by (simp add: entry_ok_def)
qed

lemma dims:
  assumes "entry_ok hc"
  shows "0 < bsz hc" "0 < csz hc" "dblocks (dev hc) + csz hc < 2 ^ 32" "csz hc * bsz hc < 2 ^ 32" "csz hc \<le> 4 * data_ofs hc"
    "length (ce_chunks hc) = unat (num_chunks (cinfo hc))"
proof -
  show p: "0 < bsz hc" "0 < csz hc" "csz hc \<le> 4 * data_ofs hc" "length (ce_chunks hc) = unat (num_chunks (cinfo hc))"
    using assms by (simp_all add: entry_ok_def)
  have l: "(dblocks (dev hc) + csz hc) * bsz hc < 2 ^ 32" using assms by (simp add: entry_ok_def)
  have "(dblocks (dev hc) + csz hc) * 1 \<le> (dblocks (dev hc) + csz hc) * bsz hc" using p(1) by (intro mult_le_mono2) simp
  then have "(dblocks (dev hc) + csz hc) * 1 < 2 ^ 32" using l by (rule le_less_trans)
  then show "dblocks (dev hc) + csz hc < 2 ^ 32" by simp
  have "csz hc * bsz hc \<le> (dblocks (dev hc) + csz hc) * bsz hc" by (intro mult_le_mono1) simp
  then show "csz hc * bsz hc < 2 ^ 32" using l by (rule le_less_trans)
qed

section \<open>The chunk of a block\<close>

lemma hit_iff:
  assumes "entry_ok hc" "ch \<in> set (ce_chunks hc)"
  shows "hit (chunk_size (cinfo hc)) b ch \<longleftrightarrow> present ch \<and> unat (bstart ch) \<le> unat b \<and> unat b < unat (bstart ch) + csz hc"
proof (cases "present ch")
  case True
  have l: "unat (bstart ch) + csz hc < 2 ^ 32" using chunk_facts(2) [OF assms True] dims(3) [OF assms(1)] by linarith
  have a: "unat (bstart ch + ucast (chunk_size (cinfo hc))) = unat (bstart ch) + csz hc"
    using l by (simp add: unat_word_ariths unat_up)
  have "unat (ucast (ucast (bstart ch) :: u32) :: u64) = unat (bstart ch)" using l by (simp add: unat_up unat_down)
  moreover have "unat (ucast (ucast (bstart ch + ucast (chunk_size (cinfo hc))) :: u32) :: u64) = unat (bstart ch) + csz hc"
    using l a by (simp add: unat_up unat_down)
  ultimately show ?thesis using True by (simp add: hit_def word_le_nat_alt word_less_nat_alt)
qed (simp add: hit_def)

lemma start_of:
  assumes "entry_ok hc" "ch \<in> set (ce_chunks hc)" "present ch" "unat (bstart ch) \<le> b" "b < unat (bstart ch) + csz hc"
  shows "unat (bstart ch) = b div csz hc * csz hc"
proof -
  obtain k where k: "unat (bstart ch) = k * csz hc" using chunk_facts(2) [OF assms(1-3)] by (auto simp: dvd_def mult.commute)
  then have "b div csz hc = k" using assms(4,5) by (intro div_nat_eqI) (simp_all add: algebra_simps)
  then show ?thesis using k by simp
qed

lemma pick_hit:
  assumes "entry_ok hc" "i < length (ce_chunks hc)" "present (ce_chunks hc ! i)" "unat (bstart (ce_chunks hc ! i)) \<le> unat b"
    "unat b < unat (bstart (ce_chunks hc ! i)) + csz hc"
  shows "pick (chunk_size (cinfo hc)) b (ce_chunks hc) = Some i"
proof -
  let ?hit = "\<lambda>j. hit (chunk_size (cinfo hc)) b (ce_chunks hc ! j)"
  have i: "?hit i" using hit_iff [OF assms(1) nth_mem [OF assms(2)]] assms(3-5) by simp
  have u: "j = i" if "j < length (ce_chunks hc)" "?hit j" for j
  proof -
    have "present (ce_chunks hc ! j) \<and> unat (bstart (ce_chunks hc ! j)) = unat b div csz hc * csz hc"
      using hit_iff [OF assms(1) nth_mem [OF that(1)]] that(2) start_of [OF assms(1) nth_mem [OF that(1)]] by simp
    moreover have "unat (bstart (ce_chunks hc ! i)) = unat b div csz hc * csz hc"
      using start_of [OF assms(1) nth_mem [OF assms(2)]] assms(3-5) by simp
    ultimately have "bstart (ce_chunks hc ! j) = bstart (ce_chunks hc ! i)" "present (ce_chunks hc ! j)" by (simp_all add: word_unat_eq_iff)
    then show ?thesis using assms(1,2,3) that(1) by (auto simp: entry_ok_def apart_def)
  qed
  have "find ?hit [0..<length (ce_chunks hc)] = Some i"
  proof (cases "find ?hit [0..<length (ce_chunks hc)]")
    case None
    then show ?thesis using i assms(2) by (auto simp: find_None_iff)
  next
    case (Some j)
    then have "j < length (ce_chunks hc) \<and> ?hit j" by (auto simp: find_Some_iff)
    then show ?thesis using Some u by simp
  qed
  then show ?thesis by (simp add: pick_def)
qed

text \<open>The selected chunk covers the block or is absent; then no chunk covers the block.\<close>

lemma pick_some:
  assumes "entry_ok hc" "pick (chunk_size (cinfo hc)) b (ce_chunks hc) = Some i"
  shows "i < length (ce_chunks hc)"
    and "present (ce_chunks hc ! i) \<Longrightarrow> unat (bstart (ce_chunks hc ! i)) \<le> unat b \<and> unat b < unat (bstart (ce_chunks hc ! i)) + csz hc"
    and "\<not> present (ce_chunks hc ! i) \<Longrightarrow> ch \<in> set (ce_chunks hc) \<Longrightarrow> present ch \<Longrightarrow> \<not> (unat (bstart ch) \<le> unat b \<and> unat b < unat (bstart ch) + csz hc)"
proof -
  let ?hit = "\<lambda>j. hit (chunk_size (cinfo hc)) b (ce_chunks hc ! j)" and ?l = "[0..<length (ce_chunks hc)]"
  have c: "find ?hit ?l = Some i \<or> find ?hit ?l = None \<and> find (\<lambda>j. \<not> present (ce_chunks hc ! j)) ?l = Some i"
    using assms(2) by (auto simp: pick_def split: option.splits)
  then show l: "i < length (ce_chunks hc)" by (auto simp: find_Some_iff)
  show "unat (bstart (ce_chunks hc ! i)) \<le> unat b \<and> unat b < unat (bstart (ce_chunks hc ! i)) + csz hc" if "present (ce_chunks hc ! i)"
    using c that hit_iff [OF assms(1) nth_mem [OF l]] by (auto simp: find_Some_iff)
  show "\<not> (unat (bstart ch) \<le> unat b \<and> unat b < unat (bstart ch) + csz hc)"
    if a: "\<not> present (ce_chunks hc ! i)" "ch \<in> set (ce_chunks hc)" "present ch"
  proof -
    have "find ?hit ?l = None" using c a(1) by (auto simp: find_Some_iff hit_def)
    moreover obtain j where "j < length (ce_chunks hc)" "ce_chunks hc ! j = ch" using a(2) by (auto simp: in_set_conv_nth)
    ultimately have "\<not> hit (chunk_size (cinfo hc)) b ch" by (auto simp: find_None_iff)
    then show ?thesis using hit_iff [OF assms(1) a(2)] a(3) by simp
  qed
qed

lemma pick_none:
  assumes "entry_ok hc"
  shows "pick (chunk_size (cinfo hc)) b (ce_chunks hc) = None \<longleftrightarrow>
    (\<forall>ch\<in>set (ce_chunks hc). present ch \<and> \<not> (unat (bstart ch) \<le> unat b \<and> unat b < unat (bstart ch) + csz hc))"
proof -
  have "pick (chunk_size (cinfo hc)) b (ce_chunks hc) = None \<longleftrightarrow>
      (\<forall>j<length (ce_chunks hc). present (ce_chunks hc ! j) \<and> \<not> hit (chunk_size (cinfo hc)) b (ce_chunks hc ! j))"
    by (auto simp: pick_def find_None_iff split: option.splits dest!: find_None_iff [THEN iffD1] find_Some_iff [THEN iffD1])
  also have "\<dots> \<longleftrightarrow> (\<forall>ch\<in>set (ce_chunks hc). present ch \<and> \<not> hit (chunk_size (cinfo hc)) b ch)" by (simp add: all_set_conv_all_nth)
  finally show ?thesis using hit_iff [OF assms] by auto
qed

section \<open>Changing a chunk and the device\<close>

definition set_dev :: "'d \<Rightarrow> 'd cache_entry \<Rightarrow> 'd cache_entry" where
  "set_dev d hc = hc\<lparr>cinfo := (cinfo hc)\<lparr>ci_udata := d\<rparr>\<rparr>"

lemma wr_fields [simp]:
  "ce_chunks (wr_chunk i ch hc) = (ce_chunks hc)[i := ch]" "cinfo (wr_chunk i ch hc) = cinfo hc" "ce_handle (wr_chunk i ch hc) = ce_handle hc"
  "data_ofs (wr_chunk i ch hc) = data_ofs hc" "dev (wr_chunk i ch hc) = dev hc" "ce_mutex (wr_chunk i ch hc) = ce_mutex hc"
  "ce_chunks (set_dev d hc) = ce_chunks hc" "block_size (cinfo (set_dev d hc)) = block_size (cinfo hc)" "ce_handle (set_dev d hc) = ce_handle hc"
  "chunk_size (cinfo (set_dev d hc)) = chunk_size (cinfo hc)" "num_chunks (cinfo (set_dev d hc)) = num_chunks (cinfo hc)"
  "p_ccb (cinfo (set_dev d hc)) = p_ccb (cinfo hc)"
  "data_ofs (set_dev d hc) = data_ofs hc" "dev (set_dev d hc) = d" "ce_mutex (set_dev d hc) = ce_mutex hc" "set_dev (dev hc) hc = hc"
  by (simp_all add: wr_chunk_def set_dev_def data_ofs_def dev_def)

lemma chunk_ok_wr [simp]: "chunk_ok N (wr_chunk i ch hc) = chunk_ok N hc" "chunk_ok N (set_dev d hc) = chunk_ok N hc"
  "data_byte (wr_chunk i ch hc) = data_byte hc" "data_byte (set_dev d hc) = data_byte hc"
  by (simp_all add: chunk_ok_def data_byte_def fun_eq_iff)

lemma entry_ok_wr:
  assumes "entry_ok hc" "i < length (ce_chunks hc)" "chunk_ok (dblocks (dev hc)) hc ch" "dinv (ce_handle hc) (bsz hc) d" "dblocks d = dblocks (dev hc)"
    "\<And>j. present ch \<Longrightarrow> j < length (ce_chunks hc) \<Longrightarrow> j \<noteq> i \<Longrightarrow> present (ce_chunks hc ! j) \<Longrightarrow> bstart (ce_chunks hc ! j) \<noteq> bstart ch"
  shows "entry_ok (wr_chunk i ch (set_dev d hc))"
proof -
  have "apart ((ce_chunks hc)[i := ch])"
    using assms(1,2,6) unfolding entry_ok_def apart_def by (metis length_list_update nth_list_update)
  moreover have "\<forall>c\<in>set ((ce_chunks hc)[i := ch]). chunk_ok (dblocks (dev hc)) hc c"
    using assms(1,3) by (auto simp: entry_ok_def dest: set_update_subset_insert [THEN subsetD])
  ultimately show ?thesis using assms(1,4,5) by (simp add: entry_ok_def)
qed

lemma view_wr:
  assumes "entry_ok hc" "entry_ok (wr_chunk i ch (set_dev d hc))" "i < length (ce_chunks hc)"
    "\<not> holds (bsz hc) a ch \<Longrightarrow> dbyte d a = dbyte (dev hc) a \<and> \<not> holds (bsz hc) a (ce_chunks hc ! i)"
  shows "view (wr_chunk i ch (set_dev d hc)) a = (if holds (bsz hc) a ch then data_byte hc a ch else view hc a)"
proof (cases "holds (bsz hc) a ch")
  case True
  then show ?thesis using view_chunk [OF assms(2), of i a] assms(3) by simp
next
  case False
  show ?thesis
  proof (cases "\<exists>j<length (ce_chunks hc). holds (bsz hc) a (ce_chunks hc ! j)")
    case True
    then obtain j where j: "j < length (ce_chunks hc)" "holds (bsz hc) a (ce_chunks hc ! j)" by blast
    then have "j \<noteq> i" using assms(4) [OF False] by blast
    then show ?thesis using False view_chunk [OF assms(1) j] view_chunk [OF assms(2), of j a] j by simp
  next
    case none: False
    then have n: "\<not> holds (bsz hc) a c" if "c \<in> set (ce_chunks hc)" for c using that by (auto simp: in_set_conv_nth)
    have "view (wr_chunk i ch (set_dev d hc)) a = dbyte d a"
      using view_dev [of "wr_chunk i ch (set_dev d hc)" a] n False by (auto dest: set_update_subset_insert [THEN subsetD])
    then show ?thesis using False assms(4) view_dev [of hc a] n by simp
  qed
qed

section \<open>Locks of an entry\<close>

definition locks :: "'d cache_entry \<Rightarrow> cmutex option \<times> cmutex option list" where
  "locks hc = (ce_mutex hc, map p_mutex (ce_chunks hc))"

definition all_idle :: "'d cache_entry \<Rightarrow> bool" where
  "all_idle hc \<longleftrightarrow> mutex_idle (ce_mutex hc) \<and> (\<forall>ch\<in>set (ce_chunks hc). mutex_idle (p_mutex ch))"

text \<open>Chunk \<open>i\<close> is locked with handle \<open>h\<close>, everything else is free.\<close>

definition held :: "nat \<Rightarrow> u64 \<Rightarrow> 'd cache_entry \<Rightarrow> bool" where
  "held i h hc \<longleftrightarrow> mutex_idle (ce_mutex hc) \<and> i < length (ce_chunks hc) \<and> mutex_idle (cache_unlock (p_mutex (ce_chunks hc ! i)) h) \<and>
     (\<forall>j<length (ce_chunks hc). j \<noteq> i \<longrightarrow> mutex_idle (p_mutex (ce_chunks hc ! j)))"

lemma locks_length: "locks hc' = locks hc \<Longrightarrow> length (ce_chunks hc') = length (ce_chunks hc)"
  unfolding locks_def by (metis length_map prod.inject)

lemma locks_held:
  assumes "mutex_idle (ce_mutex hc')" "map p_mutex (ce_chunks hc') = map p_mutex (ce_chunks hc)" "held i h hc"
  shows "held i h hc'"
proof -
  have l: "length (ce_chunks hc') = length (ce_chunks hc)" using assms(2) by (metis length_map)
  have "p_mutex (ce_chunks hc' ! j) = p_mutex (ce_chunks hc ! j)" if "j < length (ce_chunks hc)" for j using assms(2) that l by (metis nth_map)
  then show ?thesis using assms(1,3) l by (simp add: held_def)
qed

lemma select_held:
  assumes "entry_ok hc" "held i h hc"
  obtains hc' where "select_chunk e hc b hl = Some (pick (chunk_size (cinfo hc)) b (ce_chunks hc), hc')" "same hc hc'" "held i h hc'"
proof -
  have "mutex_idle (ce_mutex hc)" using assms(2) by (simp add: held_def)
  then show thesis using select_chunk_pick [OF _ dims(6) [OF assms(1)]] that locks_held assms(2) by metis
qed

lemma select_idle:
  assumes "entry_ok hc" "all_idle hc"
  obtains hc' where "select_chunk e hc b hl = Some (pick (chunk_size (cinfo hc)) b (ce_chunks hc), hc')" "same hc hc'" "all_idle hc'"
proof -
  have "mutex_idle (ce_mutex hc)" using assms(2) by (simp add: all_idle_def)
  then obtain hc' where s: "select_chunk e hc b hl = Some (pick (chunk_size (cinfo hc)) b (ce_chunks hc), hc')" "same hc hc'" "mutex_idle (ce_mutex hc')"
    "map p_mutex (ce_chunks hc') = map p_mutex (ce_chunks hc)"
    using select_chunk_pick [OF _ dims(6) [OF assms(1)]] by metis
  have "p_mutex ` set (ce_chunks hc') = p_mutex ` set (ce_chunks hc)" using s(4) by (metis list.set_map)
  then have "all_idle hc'" using s(3) assms(2) unfolding all_idle_def by (metis image_iff)
  then show thesis using that s(1,2) by blast
qed

lemma lock_chunk_idle:
  assumes "all_idle hc" "i < length (ce_chunks hc)" "mutex_idle (ev_clone e)"
  obtains h hc' where "lock_chunk e i hl hc = Some (h, hc')" "same hc hc'" "held i h hc'"
proof -
  let ?ch = "ce_chunks hc ! i"
  have "mutex_idle (if p_mutex ?ch = None then ev_clone e else p_mutex ?ch)" using assms by (simp add: all_idle_def)
  then obtain h m where l: "cache_lock e (if p_mutex ?ch = None then ev_clone e else p_mutex ?ch) hl = Some (h, m)" "mutex_idle (cache_unlock m h)"
    using cache_lock_idle by blast
  let ?hc = "wr_chunk i (?ch\<lparr>p_mutex := m\<rparr>) hc"
  have "lock_chunk e i hl hc = Some (h, ?hc)" using l(1) assms(2) by (simp add: lock_chunk_def rd_chunk_def)
  moreover have "same hc ?hc" by (simp add: same_def wr_chunk_def core_def map_update_same)
  moreover have "held i h ?hc" using assms(1,2) l(2) by (simp add: held_def all_idle_def)
  ultimately show thesis using that by blast
qed

lemma unlock_chunk_held:
  assumes "held i h hc"
  obtains hc' where "unlock_chunk i h hc = Some hc'" "same hc hc'" "all_idle hc'"
proof -
  let ?ch = "ce_chunks hc ! i"
  let ?hc = "wr_chunk i (?ch\<lparr>p_mutex := cache_unlock (p_mutex ?ch) h\<rparr>) hc"
  have "unlock_chunk i h hc = Some ?hc" using assms by (simp add: unlock_chunk_def rd_chunk_def held_def)
  moreover have "same hc ?hc" by (simp add: same_def wr_chunk_def core_def map_update_same)
  moreover have "all_idle ?hc" using assms by (auto simp: held_def all_idle_def all_set_conv_all_nth nth_list_update)
  ultimately show thesis using that by blast
qed

section \<open>Reading a chunk\<close>

definition frame :: "'d cache_entry \<Rightarrow> 'd cache_entry \<Rightarrow> bool" where
  "frame hc hc' \<longleftrightarrow> block_size (cinfo hc') = block_size (cinfo hc) \<and> chunk_size (cinfo hc') = chunk_size (cinfo hc) \<and>
     num_chunks (cinfo hc') = num_chunks (cinfo hc) \<and> ce_handle hc' = ce_handle hc \<and> data_ofs hc' = data_ofs hc \<and>
     dblocks (dev hc') = dblocks (dev hc) \<and> length (ce_chunks hc') = length (ce_chunks hc)"

lemma frame_refl [simp]: "frame hc hc"
  by (simp add: frame_def)

lemma frame_trans: "frame a b \<Longrightarrow> frame b c \<Longrightarrow> frame a c"
  by (simp add: frame_def)

lemma same_frame': "same hc hc' \<Longrightarrow> frame hc hc'"
  using same_length by (auto simp: same_def frame_def data_ofs_def dev_def)

lemma drop_nth: "drop k xs = drop k ys \<Longrightarrow> length xs = length ys \<Longrightarrow> k \<le> length ys \<Longrightarrow> xs ! (k + j) = ys ! (k + j)"
  by (metis nth_drop)

lemma wr_wr [simp]: "wr_chunk i x (wr_chunk i y hc) = wr_chunk i x hc"
  by (simp add: wr_chunk_def)

lemma rd_wr [simp]: "i < length (ce_chunks hc) \<Longrightarrow> rd_chunk (wr_chunk i ch hc) i = Some ch" "rd_chunk (set_dev d hc) i = rd_chunk hc i"
  by (simp_all add: rd_chunk_def wr_chunk_def set_dev_def)

lemma rd_in: "i < length (ce_chunks hc) \<Longrightarrow> rd_chunk hc i = Some (ce_chunks hc ! i)"
  by (simp add: rd_chunk_def)

lemma locks_wr: "i < length (ce_chunks hc) \<Longrightarrow> p_mutex ch = p_mutex (ce_chunks hc ! i) \<Longrightarrow> locks (wr_chunk i ch (set_dev d hc)) = locks hc"
  by (simp add: locks_def map_update_same)

lemma ccb_read:
  assumes "entry_ok hc" "i < length (ce_chunks hc)" "unat s < dblocks (dev hc)"
  obtains buf d where "ccb_call hc i CIOCTL_READ s (ucast (chunk_size (cinfo hc))) (data_ofs hc) =
      Some (of_nat (min (csz hc) (dblocks (dev hc) - unat s)),
        wr_chunk i ((ce_chunks hc ! i)\<lparr>ch_mem := take (data_ofs hc) (ch_mem (ce_chunks hc ! i)) @ buf\<rparr>) (set_dev d hc))"
    "dinv (ce_handle hc) (bsz hc) d" "dblocks d = dblocks (dev hc)" "dbyte d = dbyte (dev hc)" "length buf = csz hc * bsz hc"
    "\<And>k. k < min (csz hc) (dblocks (dev hc) - unat s) * bsz hc \<Longrightarrow> buf ! k = dbyte (dev hc) (unat s * bsz hc + k)"
proof -
  let ?ch = "ce_chunks hc ! i" and ?n = "ucast (chunk_size (cinfo hc)) :: u32"
  have n: "unat ?n = csz hc" by (simp add: unat_up)
  have l: "length (drop (data_ofs hc) (ch_mem ?ch)) = csz hc * bsz hc" using chunk_facts(1) [OF assms(1) nth_mem [OF assms(2)]] by simp
  have di: "dinv (ce_handle hc) (bsz hc) (dev hc)" "p_ccb (cinfo hc) = dev_cb" using assms(1) by (simp_all add: entry_ok_def)
  obtain buf d where r: "dev_cb CIOCTL_READ (ce_handle hc) s ?n (drop (data_ofs hc) (ch_mem ?ch)) (dev hc) =
      Some (of_nat (min (csz hc) (dblocks (dev hc) - unat s)), buf, d)"
    "dinv (ce_handle hc) (bsz hc) d" "dblocks d = dblocks (dev hc)" "dbyte d = dbyte (dev hc)" "length buf = csz hc * bsz hc"
    "\<forall>k<min (csz hc) (dblocks (dev hc) - unat s) * bsz hc. buf ! k = dbyte (dev hc) (unat s * bsz hc + k)"
    using dev_read [OF di(1) assms(3), of ?n "drop (data_ofs hc) (ch_mem ?ch)"] n l dims(4) [OF assms(1)] by auto
  have "ccb_call hc i CIOCTL_READ s ?n (data_ofs hc) = Some (of_nat (min (csz hc) (dblocks (dev hc) - unat s)),
      wr_chunk i (?ch\<lparr>ch_mem := take (data_ofs hc) (ch_mem ?ch) @ buf\<rparr>) (set_dev d hc))"
    using r(1) di(2) by (simp add: ccb_call_def rd_in [OF assms(2)] set_dev_def dev_def)
  then show thesis using that r by blast
qed

lemma read_whole_ok:
  fixes b :: u64
  assumes "entry_ok hc" "i < length (ce_chunks hc)" "\<not> present (ce_chunks hc ! i)" "unat b < dblocks (dev hc)"
    "\<And>ch. ch \<in> set (ce_chunks hc) \<Longrightarrow> present ch \<Longrightarrow> \<not> (unat (bstart ch) \<le> unat b \<and> unat b < unat (bstart ch) + csz hc)"
  obtains r hc' where "read_whole_chunk hc i b = Some (r, hc')" "r \<noteq> 0" "entry_ok hc'" "view hc' = view hc" "frame hc hc'" "locks hc' = locks hc"
    "present (ce_chunks hc' ! i)" "unat (bstart (ce_chunks hc' ! i)) = unat b div csz hc * csz hc" "\<exists>ch. ce_chunks hc' = (ce_chunks hc)[i := ch]"
proof -
  let ?ch = "ce_chunks hc ! i" and ?c = "ucast (chunk_size (cinfo hc)) :: u64" and ?N = "dblocks (dev hc)" and ?k = "data_ofs hc"
  define s where "s = b div ?c * ?c"
  note dm = dims [OF assms(1)]
  have c: "unat ?c = csz hc" "?c \<noteq> 0" using dm(2) by (auto simp: unat_up unat_eq_zero [symmetric])
  have le: "unat b div csz hc * csz hc \<le> unat b" by simp
  have q: "unat (b div ?c) = unat b div csz hc" using c(1) by (simp add: unat_div)
  have "unat b < 2 ^ LENGTH(64)" by (rule unsigned_less)
  then have "unat (b div ?c) * unat ?c < 2 ^ LENGTH(64)" unfolding q c(1) using le by (rule le_less_trans [rotated])
  from unat_mult_lem [THEN iffD1, OF this] have us: "unat s = unat b div csz hc * csz hc" unfolding s_def q c(1) .
  have sN: "unat s < ?N" using us le assms(4) by linarith
  obtain buf d where r: "ccb_call hc i CIOCTL_READ s (ucast (chunk_size (cinfo hc))) ?k =
      Some (of_nat (min (csz hc) (?N - unat s)), wr_chunk i (?ch\<lparr>ch_mem := take ?k (ch_mem ?ch) @ buf\<rparr>) (set_dev d hc))"
    "dinv (ce_handle hc) (bsz hc) d" "dblocks d = ?N" "dbyte d = dbyte (dev hc)" "length buf = csz hc * bsz hc"
    "\<And>k. k < min (csz hc) (?N - unat s) * bsz hc \<Longrightarrow> buf ! k = dbyte (dev hc) (unat s * bsz hc + k)"
    using ccb_read [OF assms(1,2) sN] by blast
  define m where "m = min (csz hc) (?N - unat s)"
  have mb: "0 < m" "m \<le> csz hc" using sN dm(2) by (auto simp: m_def)
  have cs16: "csz hc < 2 ^ 16" using unsigned_less [of "chunk_size (cinfo hc)"] by simp
  then have m16: "m < 2 ^ 16" using mb(2) by linarith
  have um: "unat (of_nat m :: u32) = m" "unat (ucast (of_nat m :: u32) :: 30 word) = m"
    using m16 by (simp_all add: unsigned_ucast_eq take_bit_nat_eq_self)
  have cs0: "cstate ?ch = 0" using chunk_facts(3) [OF assms(1) nth_mem [OF assms(2)] assms(3)] .
  have len: "length (ch_mem ?ch) = ?k + csz hc * bsz hc" using chunk_facts(1) [OF assms(1) nth_mem [OF assms(2)]] .
  define ch2 where "ch2 = ?ch\<lparr>ch_mem := take ?k (ch_mem ?ch) @ buf, bstart := s, bcount := ucast (of_nat m :: u32), cstate := ucast CBSTATE_PRESENT\<rparr>"
  have "unat (bstart ch2 - bstart ch2) + unat (of_nat m :: u32) \<le> 4 * ?k" "unat (bstart ch2 - bstart ch2) + unat (of_nat m :: u32) < 2 ^ 32" "?k \<le> length (ch_mem ch2)"
    using um(1) mb(2) dm(5) m16 len by (simp_all add: ch2_def)
  from set_bstate_ok [OF this, of CBSTATE_PRESENT] obtain mem where b: "set_bstate ch2 (bstart ch2) (of_nat m) CBSTATE_PRESENT = Some (ch2\<lparr>ch_mem := mem\<rparr>)"
    "length mem = length (ch_mem ch2)" "drop ?k mem = drop ?k (ch_mem ch2)" .
  let ?ch3 = "ch2\<lparr>ch_mem := mem\<rparr>" and ?hc = "wr_chunk i (ch2\<lparr>ch_mem := mem\<rparr>) (set_dev d hc)"
  have flush: "cache_flush_chunk hc i = Some hc" using cs0 by (simp add: cache_flush_chunk_def rd_in [OF assms(2)])
  have m0: "(of_nat m :: u32) \<noteq> 0" using um(1) mb(1) by auto
  have read: "read_whole_chunk hc i b = Some (of_nat m, ?hc)"
    using flush c(2) r(1) m0 b(1) assms(2) cs0 unfolding m_def [symmetric] s_def [symmetric]
    by (simp add: read_whole_chunk_def Let_def s_def [symmetric]) (simp add: ch2_def)
  have bstart_conv: "bstart ?ch3 = s" by (simp add: ch2_def)
  have p: "present ?ch3" by (simp add: present_def ch2_def CBSTATE_PRESENT_def)
  have "chunk_ok ?N hc ?ch3"
    using p len r(5) b(2) us sN um(2) by (simp add: chunk_ok_def ch2_def m_def)
  moreover have "bstart (ce_chunks hc ! j) \<noteq> bstart ?ch3" if "j < length (ce_chunks hc)" "present (ce_chunks hc ! j)" for j
    using assms(5) [OF nth_mem [OF that(1)] that(2)] us le dm(2) by (auto simp: ch2_def) (metis add.commute dividend_less_times_div mult.commute)
  ultimately have ok: "entry_ok ?hc" using entry_ok_wr [OF assms(1,2) _ r(2,3)] by blast
  have "view ?hc a = view hc a" for a
  proof -
    have no: "\<not> holds (bsz hc) a ?ch" using assms(3) by (simp add: holds_def)
    have "data_byte hc a ?ch3 = view hc a" if h: "holds (bsz hc) a ?ch3"
    proof -
      have a: "unat s * bsz hc \<le> a" "a - unat s * bsz hc < m * bsz hc" using h um(2) by (auto simp: holds_def ch2_def algebra_simps)
      have "\<not> holds (bsz hc) a ch" if cm: "ch \<in> set (ce_chunks hc)" for ch
      proof
        assume hh: "holds (bsz hc) a ch"
        obtain j where j: "j < length (ce_chunks hc)" "ce_chunks hc ! j = ch" using cm by (auto simp: in_set_conv_nth)
        then have "j \<noteq> i" using no hh by blast
        then show False using holds_unique [OF ok, of j i a] j hh h assms(2) by simp
      qed
      then have "view hc a = dbyte (dev hc) a" by (rule view_dev)
      moreover have "mem ! (?k + (a - unat s * bsz hc)) = (take ?k (ch_mem ?ch) @ buf) ! (?k + (a - unat s * bsz hc))"
        using drop_nth [OF b(3,2)] len by (simp add: ch2_def)
      moreover have "(take ?k (ch_mem ?ch) @ buf) ! (?k + (a - unat s * bsz hc)) = buf ! (a - unat s * bsz hc)"
        using len by (simp add: nth_append)
      ultimately show ?thesis using r(6) [folded m_def, OF a(2)] a(1) by (simp add: data_byte_def ch2_def)
    qed
    then show ?thesis using view_wr [OF assms(1) ok assms(2), of a] no r(4) by simp
  qed
  then have "view ?hc = view hc" by blast
  moreover have "frame hc ?hc" using r(3) by (simp add: frame_def)
  moreover have "locks ?hc = locks hc" using assms(2) by (simp add: locks_wr ch2_def)
  moreover have "ce_chunks ?hc ! i = ?ch3" "ce_chunks ?hc = (ce_chunks hc)[i := ?ch3]" using assms(2) by simp_all
  ultimately show thesis using that [OF read m0 ok] p us by (metis bstart_conv)
qed

section \<open>Locking the buffer of a block\<close>

lemma verify_ok:
  assumes "entry_ok hc" "i < length (ce_chunks hc)" "present (ce_chunks hc ! i)" "unat (bstart (ce_chunks hc ! i)) = unat b div csz hc * csz hc"
    "unat b < dblocks (dev hc)"
  obtains n where "get_chunk_buffer hc (ce_chunks hc ! i) b = (Some (data_ofs hc + unat b mod csz hc * bsz hc), n)"
    "unat n = unat b div csz hc * csz hc + csz hc - unat b mod csz hc" "n \<noteq> 0"
proof -
  let ?ch = "ce_chunks hc ! i" and ?s = "unat b div csz hc * csz hc" and ?c = "ucast (chunk_size (cinfo hc)) :: u32"
  let ?cbn = "ucast (b - bstart ?ch) :: u32" and ?max = "ucast (bstart ?ch + ucast ?c) :: u32"
  note dm = dims [OF assms(1)] and cf = chunk_facts(2) [OF assms(1) nth_mem [OF assms(2)] assms(3)]
  have sb: "?s + unat b mod csz hc = unat b" "unat b mod csz hc < csz hc" using dm(2) by simp_all
  have le: "bstart ?ch \<le> b" using assms(4) sb(1) by (simp add: word_le_nat_alt)
  have l: "?s + csz hc < 2 ^ 32" using cf assms(4) dm(3) by linarith
  have cb: "unat ?cbn = unat b mod csz hc"
  proof -
    have "unat (b - bstart ?ch) = unat b mod csz hc" using le assms(4) by (simp add: unat_sub minus_div_mult_eq_mod)
    then show ?thesis using sb(2) l by (simp add: unat_down)
  qed
  have mx: "unat ?max = ?s + csz hc" using l assms(4) by (simp add: unat_up unat_down unat_word_ariths)
  have "unat b < ?s + csz hc" using sb by linarith
  then have lt: "b < ucast ?max" using mx by (simp add: word_less_nat_alt unat_up)
  have u30: "unat (ucast (bcount ?ch) :: u32) = unat (bcount ?ch)"
    by (simp add: unsigned_ucast_eq take_bit_nat_eq_self less_le_trans [OF unsigned_less])
  have "unat b mod csz hc < unat (bcount ?ch)" using cf assms(4,5) sb by linarith
  then have bc: "?cbn < ucast (bcount ?ch)" using cb u30 by (simp add: word_less_nat_alt)
  have n: "unat (?max - ?cbn) = ?s + csz hc - unat b mod csz hc" using mx cb sb(2) by (simp add: unat_sub word_le_nat_alt)
  then have "0 < unat (?max - ?cbn)" using sb(2) by linarith
  then have "?max - ?cbn \<noteq> 0" by (simp add: unat_gt_0)
  moreover have "unat b mod csz hc * bsz hc \<le> csz hc * bsz hc" using sb(2) by simp
  then have "unat b mod csz hc * bsz hc < 2 ^ 32" using dm(4) by linarith
  then have "unat (?cbn * ucast (block_size (cinfo hc))) = unat b mod csz hc * bsz hc" using cb by (simp add: unat_word_ariths unat_up)
  ultimately show thesis using that [of "?max - ?cbn"] n le lt bc by (simp add: get_chunk_buffer_def Let_def)
qed

definition loaded :: "nat \<Rightarrow> chunk_hdr list \<Rightarrow> nat set" where
  "loaded c chs = {unat (bstart ch) div c | ch. ch \<in> set chs \<and> present ch}"

lemma loaded_nth: "loaded c xs = {unat (bstart (xs ! j)) div c | j. j < length xs \<and> present (xs ! j)}"
  unfolding loaded_def by (metis (lifting) in_set_conv_nth)

lemma loaded_update:
  assumes "i < length chs" "present ch" "present (chs ! i) \<Longrightarrow> bstart ch = bstart (chs ! i)"
  shows "loaded c (chs[i := ch]) = insert (unat (bstart ch) div c) (loaded c chs)"
  using assms by (auto simp: loaded_nth nth_list_update split: if_splits) (metis+)

lemma loaded_same:
  assumes "map core xs = map core ys"
  shows "loaded c xs = loaded c ys"
proof -
  have "loaded c xs \<subseteq> loaded c ys" if sub: "core ` set xs \<subseteq> core ` set ys" for xs ys
  proof
    fix k assume "k \<in> loaded c xs"
    then obtain ch where ch: "ch \<in> set xs" "present ch" "k = unat (bstart ch) div c" by (auto simp: loaded_def)
    then obtain ch' where "ch' \<in> set ys" "core ch = core ch'" using sub by blast
    then show "k \<in> loaded c ys" using ch core_fields(1,5) [of ch ch'] by (auto simp: loaded_def)
  qed
  moreover have "core ` set xs = core ` set ys" using assms by (metis list.set_map)
  ultimately show ?thesis by blast
qed

lemma buffer_lock_ok:
  assumes "entry_ok hc" "all_idle hc" "mutex_idle (ev_clone e)" "unat (io_bstart io) < dblocks (dev hc)"
    "pick (chunk_size (cinfo hc)) (io_bstart io) (ce_chunks hc) \<noteq> None"
  obtains i h n hc' where
    "cache_buffer_lock e io hc = Some (n, io\<lparr>io_hlock := h, io_plock := Some i,
       io_buffer := Some (data_ofs hc + unat (io_bstart io) mod csz hc * bsz hc), io_bcount := n, io_bsize := n * ucast (block_size (cinfo hc))\<rparr>, hc')"
    "unat n = unat (io_bstart io) div csz hc * csz hc + csz hc - unat (io_bstart io) mod csz hc" "n \<noteq> 0"
    "entry_ok hc'" "view hc' = view hc" "frame hc hc'" "held i h hc'" "present (ce_chunks hc' ! i)"
    "unat (bstart (ce_chunks hc' ! i)) = unat (io_bstart io) div csz hc * csz hc"
    "loaded (csz hc) (ce_chunks hc') = insert (unat (io_bstart io) div csz hc) (loaded (csz hc) (ce_chunks hc))"
proof -
  note finish = that
  let ?b = "io_bstart io" and ?c = "chunk_size (cinfo hc)"
  obtain i where i: "pick ?c ?b (ce_chunks hc) = Some i" using assms(5) by blast
  obtain hc1 where s: "select_chunk e hc ?b 0 = Some (Some i, hc1)" "same hc hc1" "all_idle hc1" using select_idle [OF assms(1,2)] i by metis
  have ok1: "entry_ok hc1" "view hc1 = view hc" using same_view [OF s(2)] assms(1) by simp_all
  have c1: "cinfo hc1 = cinfo hc" "dev hc1 = dev hc" "data_ofs hc1 = data_ofs hc" using s(2) by (simp_all add: same_def dev_def data_ofs_def)
  have il: "i < length (ce_chunks hc1)" using pick_some(1) [OF assms(1) i] same_length [OF s(2)] by simp
  obtain h hc2 where l: "lock_chunk e i 0 hc1 = Some (h, hc2)" "same hc1 hc2" "held i h hc2" using lock_chunk_idle [OF s(3) il assms(3)] .
  have sm: "same hc hc2" using same_trans [OF s(2) l(2)] .
  have ok2: "entry_ok hc2" "view hc2 = view hc" using same_view [OF sm] assms(1) by simp_all
  have c2: "cinfo hc2 = cinfo hc" "dev hc2 = dev hc" "data_ofs hc2 = data_ofs hc" "length (ce_chunks hc2) = length (ce_chunks hc)"
    using sm same_length [OF sm] by (simp_all add: same_def dev_def data_ofs_def)
  have il2: "i < length (ce_chunks hc2)" using il c2(4) same_length [OF s(2)] by simp
  have co: "core (ce_chunks hc2 ! i) = core (ce_chunks hc ! i)" using same_core [OF sm] il2 c2(4) by simp
  have lo: "loaded (csz hc) (ce_chunks hc2) = loaded (csz hc) (ce_chunks hc)" using sm by (intro loaded_same) (simp add: same_def)
  have N2: "unat ?b < dblocks (dev hc2)" using assms(4) c2(2) by simp
  let ?w = "ucast (cstate (ce_chunks hc2 ! i)) AND CBSTATE_PRESENT = 0" and ?io = "io\<lparr>io_hlock := h, io_plock := Some i\<rparr>"
  let ?res = "\<lambda>n. ?io\<lparr>io_buffer := Some (data_ofs hc + unat ?b mod csz hc * bsz hc), io_bcount := n, io_bsize := n * ucast (block_size (cinfo hc))\<rparr>"
  have fin: thesis
    if loop: "buffer_loop ?w i 0 ?io hc2 = Some (n, ?res n, hc')"
      and n: "unat n = unat ?b div csz hc * csz hc + csz hc - unat ?b mod csz hc" "n \<noteq> 0"
      and r: "entry_ok hc'" "view hc' = view hc" "frame hc2 hc'" "locks hc' = locks hc2" "present (ce_chunks hc' ! i)"
        "unat (bstart (ce_chunks hc' ! i)) = unat ?b div csz hc * csz hc"
        "loaded (csz hc) (ce_chunks hc') = insert (unat ?b div csz hc) (loaded (csz hc) (ce_chunks hc))" for n hc'
  proof -
    have "held i h hc'" using locks_held [OF _ _ l(3), of hc'] r(4) l(3) by (simp add: locks_def held_def)
    moreover have "cache_buffer_lock e io hc = Some (n, ?res n, hc')"
      using s(1) l(1) loop n(2) by (simp add: cache_buffer_lock_def rd_in [OF il2])
    ultimately show thesis using finish [where n = n and h = h and i = i and hc' = hc'] n r frame_trans [OF same_frame' [OF sm]] by simp
  qed
  show thesis
  proof (cases "present (ce_chunks hc2 ! i)")
    case True
    have st: "unat (bstart (ce_chunks hc2 ! i)) = unat ?b div csz hc * csz hc"
      using pick_some [OF assms(1) i] start_of [OF assms(1) nth_mem] True core_fields(1,5) [OF co] by simp
    obtain n where n: "get_chunk_buffer hc2 (ce_chunks hc2 ! i) ?b = (Some (data_ofs hc + unat ?b mod csz hc * bsz hc), n)"
      "unat n = unat ?b div csz hc * csz hc + csz hc - unat ?b mod csz hc" "n \<noteq> 0"
      using verify_ok [OF ok2(1) il2 True _ N2] st c2 by metis
    have "buffer_loop ?w i 0 ?io hc2 = Some (n, ?res n, hc2)"
      using True n(1,3) c2(1) by (subst buffer_loop.simps) (simp add: present_def rd_in [OF il2])
    moreover have "loaded (csz hc) (ce_chunks hc2) = insert (unat ?b div csz hc) (loaded (csz hc) (ce_chunks hc))"
    proof -
      have "unat ?b div csz hc \<in> loaded (csz hc) (ce_chunks hc2)"
        using True nth_mem [OF il2] st dims(2) [OF assms(1)] unfolding loaded_def by (auto intro!: exI [of _ "ce_chunks hc2 ! i"])
      then show ?thesis using lo by auto
    qed
    ultimately show thesis using fin [OF _ n(2,3) ok2 _ _ True st] by simp
  next
    case False
    have nc: "\<not> (unat (bstart ch) \<le> unat ?b \<and> unat ?b < unat (bstart ch) + csz hc2)" if ch: "ch \<in> set (ce_chunks hc2)" "present ch" for ch
    proof -
      obtain j where j: "j < length (ce_chunks hc2)" "ce_chunks hc2 ! j = ch" using ch(1) by (auto simp: in_set_conv_nth)
      have cj: "core (ce_chunks hc ! j) = core ch" using same_core [OF sm, of j] j c2(4) by simp
      have "\<not> present (ce_chunks hc ! i)" using False core_fields(1) [OF co] by simp
      from pick_some(3) [OF assms(1) i this nth_mem, of j] show ?thesis using core_fields(1,5) [OF cj] j c2(1,4) ch(2) by simp
    qed
    obtain r hc' where r: "read_whole_chunk hc2 i ?b = Some (r, hc')" "r \<noteq> 0" "entry_ok hc'" "view hc' = view hc2" "frame hc2 hc'" "locks hc' = locks hc2"
      "present (ce_chunks hc' ! i)" "unat (bstart (ce_chunks hc' ! i)) = unat ?b div csz hc2 * csz hc2" "\<exists>ch. ce_chunks hc' = (ce_chunks hc2)[i := ch]"
      using read_whole_ok [OF ok2(1) il2 False N2 nc] by blast
    have f: "csz hc' = csz hc" "bsz hc' = bsz hc" "data_ofs hc' = data_ofs hc" "dblocks (dev hc') = dblocks (dev hc)" "block_size (cinfo hc') = block_size (cinfo hc)"
      "length (ce_chunks hc') = length (ce_chunks hc2)"
      using r(5) c2 by (simp_all add: frame_def)
    have il3: "i < length (ce_chunks hc')" using f(6) il2 by simp
    obtain n where n: "get_chunk_buffer hc' (ce_chunks hc' ! i) ?b = (Some (data_ofs hc + unat ?b mod csz hc * bsz hc), n)"
      "unat n = unat ?b div csz hc * csz hc + csz hc - unat ?b mod csz hc" "n \<noteq> 0"
      using verify_ok [OF r(3) il3 r(7)] r(8) f c2(1) assms(4) by metis
    have "buffer_loop ?w i 0 ?io hc2 = Some (n, ?res n, hc')"
      using False r(1,2) n(1,3) f(3,5) by (subst buffer_loop.simps, simp add: present_def, subst buffer_loop.simps) (simp add: rd_in [OF il3])
    moreover have "loaded (csz hc) (ce_chunks hc') = insert (unat ?b div csz hc) (loaded (csz hc) (ce_chunks hc))"
    proof -
      obtain ch where ch: "ce_chunks hc' = (ce_chunks hc2)[i := ch]" using r(9) by blast
      then have e: "ce_chunks hc' ! i = ch" using il2 by simp
      have "loaded (csz hc) ((ce_chunks hc2)[i := ch]) = insert (unat (bstart ch) div csz hc) (loaded (csz hc) (ce_chunks hc2))"
        using r(7) e False by (intro loaded_update [OF il2]) simp_all
      then show ?thesis using ch e r(8) lo c2(1) dims(2) [OF assms(1)] by simp
    qed
    ultimately show thesis using fin [OF _ n(2,3) r(3) _ r(5,6,7)] r(4,8) ok2(2) c2(1) by simp
  qed
qed

text \<open>As \<open>cache_io\<close> calls it, with a block number of 32 bits.\<close>

abbreviation io_of :: "u32 \<Rightarrow> u32 \<Rightarrow> cio" where
  "io_of b n \<equiv> \<lparr>io_bstart = ucast b, io_bcount = n, io_bsize = 0, io_buffer = None, io_plock = None, io_hlock = 0\<rparr>"

lemma io_lock:
  assumes "entry_ok hc" "all_idle hc" "mutex_idle (ev_clone e)" "unat b < dblocks (dev hc)"
    "pick (chunk_size (cinfo hc)) (ucast b) (ce_chunks hc) \<noteq> None"
  obtains i h n' hc' where
    "cache_buffer_lock e (io_of b n) hc = Some (n', (io_of b n)\<lparr>io_hlock := h, io_plock := Some i,
       io_buffer := Some (data_ofs hc + unat b mod csz hc * bsz hc), io_bcount := n', io_bsize := n' * ucast (block_size (cinfo hc))\<rparr>, hc')"
    "unat n' = unat b div csz hc * csz hc + csz hc - unat b mod csz hc" "n' \<noteq> 0"
    "entry_ok hc'" "view hc' = view hc" "frame hc hc'" "held i h hc'" "present (ce_chunks hc' ! i)"
    "unat (bstart (ce_chunks hc' ! i)) = unat b div csz hc * csz hc"
    "loaded (csz hc) (ce_chunks hc') = insert (unat b div csz hc) (loaded (csz hc) (ce_chunks hc))"
proof -
  have b: "unat (io_bstart (io_of b n)) = unat b" by (simp add: unat_up)
  have "unat (io_bstart (io_of b n)) < dblocks (dev hc)" "pick (chunk_size (cinfo hc)) (io_bstart (io_of b n)) (ce_chunks hc) \<noteq> None"
    using assms(4,5) by (simp_all add: unat_up)
  note bl = buffer_lock_ok [OF assms(1-3) this, unfolded b]
  show thesis by (rule bl) (rule that)
qed

section \<open>Requests within a chunk\<close>

text \<open>The bytes from block \<open>b\<close> on that its chunk has on the device.\<close>

definition left_in_chunk :: "'d cache_entry \<Rightarrow> nat \<Rightarrow> nat" where
  "left_in_chunk hc b = (min (csz hc) (dblocks (dev hc) - b div csz hc * csz hc) - b mod csz hc) * bsz hc"

lemma left_le: "left_in_chunk hc b + b mod csz hc * bsz hc \<le> csz hc * bsz hc" if "0 < csz hc"
proof -
  have "left_in_chunk hc b \<le> (csz hc - b mod csz hc) * bsz hc" unfolding left_in_chunk_def by (intro mult_le_mono1) simp
  moreover have "(csz hc - b mod csz hc) * bsz hc + b mod csz hc * bsz hc = csz hc * bsz hc"
    using that by (simp add: add_mult_distrib [symmetric] less_imp_le)
  ultimately show ?thesis by linarith
qed

lemma chunk_byte:
  assumes "entry_ok hc" "ch \<in> set (ce_chunks hc)" "present ch" "unat (bstart ch) = b div csz hc * csz hc" "j < left_in_chunk hc b"
  shows "holds (bsz hc) (b * bsz hc + j) ch" and "b * bsz hc + j - first_byte hc ch = b mod csz hc * bsz hc + j"
proof -
  let ?s = "b div csz hc * csz hc" and ?m = "min (csz hc) (dblocks (dev hc) - b div csz hc * csz hc)"
  have "?s * bsz hc + b mod csz hc * bsz hc = (?s + b mod csz hc) * bsz hc" by (simp only: add_mult_distrib)
  then have e: "b * bsz hc = ?s * bsz hc + b mod csz hc * bsz hc" by simp
  then show "b * bsz hc + j - first_byte hc ch = b mod csz hc * bsz hc + j" using assms(4) by simp
  have "b mod csz hc \<le> ?m" using assms(5) unfolding left_in_chunk_def by (metis diff_is_0_eq linorder_le_cases mult_0 not_less_zero)
  then have "b mod csz hc * bsz hc + left_in_chunk hc b = ?m * bsz hc" unfolding left_in_chunk_def by (simp add: add_mult_distrib [symmetric])
  then have "b * bsz hc + j < ?s * bsz hc + ?m * bsz hc" using e assms(5) by linarith
  also have "\<dots> = (?s + ?m) * bsz hc" by (simp only: add_mult_distrib)
  also have "\<dots> = (unat (bstart ch) + unat (bcount ch)) * bsz hc" using chunk_facts(2) [OF assms(1-3)] assms(4) by simp
  finally show "holds (bsz hc) (b * bsz hc + j) ch" using assms(3,4) e by (simp add: holds_def)
qed

lemma covers:
  assumes "0 < csz hc" "unat (bstart ch) = b div csz hc * csz hc"
  shows "unat (bstart ch) \<le> b" "b < unat (bstart ch) + csz hc"
  using assms dividend_less_div_times [of "csz hc" b] by (simp_all add: add.commute)

lemma buffer_unlock_ok:
  assumes "entry_ok hc" "held i h hc" "io_plock io = Some i" "io_hlock io = h" "present (ce_chunks hc ! i)"
    "unat (bstart (ce_chunks hc ! i)) = unat (io_bstart io) div csz hc * csz hc"
  obtains hc' where "cache_buffer_unlock e io hc = Some hc'" "same hc hc'" "all_idle hc'"
proof -
  have il: "i < length (ce_chunks hc)" using assms(2) by (simp add: held_def)
  have p: "pick (chunk_size (cinfo hc)) (io_bstart io) (ce_chunks hc) = Some i"
    using pick_hit [OF assms(1) il assms(5)] covers [OF dims(2) [OF assms(1)] assms(6)] by simp
  obtain hc1 where s: "select_chunk e hc (io_bstart io) (ucast (io_bcount io)) = Some (Some i, hc1)" "same hc hc1" "held i h hc1"
    using select_held [OF assms(1,2)] p by metis
  obtain hc2 where "unlock_chunk i h hc1 = Some hc2" "same hc1 hc2" "all_idle hc2" using unlock_chunk_held [OF s(3)] .
  then show thesis using that [of hc2] s same_trans [OF s(2)] assms(3,4) by (simp add: cache_buffer_unlock_def)
qed

text \<open>What a request that stays in its chunk finds.\<close>

definition fits :: "'d cache_entry \<Rightarrow> u32 \<Rightarrow> u32 \<Rightarrow> u32 \<Rightarrow> bool" where
  "fits hc b ofs sz \<longleftrightarrow> sz \<noteq> 0 \<and> unat ofs + unat sz \<le> left_in_chunk hc (unat b)"

lemma fits_bounds:
  assumes "entry_ok hc" "fits hc b ofs sz"
  shows "unat b < dblocks (dev hc)" "unat b mod csz hc * bsz hc + unat ofs + unat sz \<le> csz hc * bsz hc"
    and "unat n = unat b div csz hc * csz hc + csz hc - unat b mod csz hc \<Longrightarrow>
      min sz (n * ucast (block_size (cinfo hc))) = sz"
proof -
  let ?s = "unat b div csz hc * csz hc"
  note dm = dims [OF assms(1)]
  have sz: "unat ofs + unat sz \<le> left_in_chunk hc (unat b)" "0 < unat sz" using assms(2) by (auto simp: fits_def unat_gt_0)
  show "unat b mod csz hc * bsz hc + unat ofs + unat sz \<le> csz hc * bsz hc" using left_le [OF dm(2), of "unat b"] sz by linarith
  have "0 < left_in_chunk hc (unat b)" using sz by linarith
  then have m: "unat b mod csz hc < min (csz hc) (dblocks (dev hc) - ?s)" by (auto simp: left_in_chunk_def)
  then show bN: "unat b < dblocks (dev hc)" using div_mult_mod_eq [of "unat b" "csz hc"] by linarith
  assume n: "unat n = ?s + csz hc - unat b mod csz hc"
  have l: "(dblocks (dev hc) + csz hc) * bsz hc < 2 ^ 32" using assms(1) by (simp add: entry_ok_def)
  have "unat n \<le> dblocks (dev hc) + csz hc" using n bN div_mult_mod_eq [of "unat b" "csz hc"] by linarith
  then have "unat n * bsz hc < 2 ^ 32" using l by (meson le_less_trans mult_le_mono1)
  then have u: "unat (n * ucast (block_size (cinfo hc))) = unat n * bsz hc" by (simp add: unat_word_ariths unat_up)
  have "left_in_chunk hc (unat b) \<le> unat n * bsz hc" unfolding left_in_chunk_def n using m by (intro mult_le_mono1) linarith
  then have "sz \<le> n * ucast (block_size (cinfo hc))" using u sz by (simp add: word_le_nat_alt)
  then show "min sz (n * ucast (block_size (cinfo hc))) = sz" by (rule min_absorb1)
qed

lemma io_done: "io_loop e wr b n ofs 0 pos r buf hc = Some (r, buf, hc)"
  by (subst io_loop.simps) simp

lemma io_read:
  assumes "entry_ok hc" "all_idle hc" "mutex_idle (ev_clone e)" "fits hc b ofs sz" "n \<noteq> 0" "unat sz \<le> length buf"
    "pick (chunk_size (cinfo hc)) (ucast b) (ce_chunks hc) \<noteq> None"
  obtains hc' where "io_loop e False b n ofs sz 0 0 buf hc =
      Some (sz, map (view hc) [unat b * bsz hc + unat ofs..<unat b * bsz hc + unat ofs + unat sz] @ drop (unat sz) buf, hc')"
    "entry_ok hc'" "all_idle hc'" "view hc' = view hc" "frame hc hc'"
    "loaded (csz hc) (ce_chunks hc') = insert (unat b div csz hc) (loaded (csz hc) (ce_chunks hc))"
proof -
  let ?io = "io_of b n"
  let ?ofs = "data_ofs hc + unat b mod csz hc * bsz hc" and ?a = "unat b * bsz hc + unat ofs"
  have ub: "unat (ucast b :: u64) = unat b" by (simp add: unat_up)
  note fb = fits_bounds [OF assms(1,4)]
  obtain i h n' hc1 where l: "cache_buffer_lock e ?io hc = Some (n', ?io\<lparr>io_hlock := h, io_plock := Some i,
       io_buffer := Some ?ofs, io_bcount := n', io_bsize := n' * ucast (block_size (cinfo hc))\<rparr>, hc1)"
    "unat n' = unat b div csz hc * csz hc + csz hc - unat b mod csz hc" "n' \<noteq> 0"
    "entry_ok hc1" "view hc1 = view hc" "frame hc hc1" "held i h hc1" "present (ce_chunks hc1 ! i)"
    "unat (bstart (ce_chunks hc1 ! i)) = unat b div csz hc * csz hc"
    "loaded (csz hc) (ce_chunks hc1) = insert (unat b div csz hc) (loaded (csz hc) (ce_chunks hc))"
    by (rule io_lock [OF assms(1-3) fb(1) assms(7)])
  let ?io1 = "?io\<lparr>io_hlock := h, io_plock := Some i, io_buffer := Some ?ofs, io_bcount := n', io_bsize := n' * ucast (block_size (cinfo hc))\<rparr>"
  have il: "i < length (ce_chunks hc1)" using l(7) by (simp add: held_def)
  let ?ch = "ce_chunks hc1 ! i"
  have fr: "csz hc1 = csz hc" "bsz hc1 = bsz hc" "data_ofs hc1 = data_ofs hc" "left_in_chunk hc1 = left_in_chunk hc"
    using l(6) by (auto simp: frame_def left_in_chunk_def fun_eq_iff)
  obtain hc2 where u: "cache_buffer_unlock e ?io1 hc1 = Some hc2" "same hc1 hc2" "all_idle hc2"
    using buffer_unlock_ok [OF l(4,7), of ?io1 e] l(8,9) fr(1) ub by auto
  have "?ofs + unat ofs + unat sz \<le> length (ch_mem ?ch)" using chunk_facts(1) [OF l(4) nth_mem [OF il]] fr fb(2) by simp
  then obtain buf' where c: "cpy_bytes buf 0 (ch_mem ?ch) (?ofs + unat ofs) (unat sz) = Some buf'" using cpy_bytes_total assms(6) by (metis add_0)
  have bb: "buf' = map (view hc) [?a..<?a + unat sz] @ drop (unat sz) buf"
  proof (rule nth_equalityI)
    show "length buf' = length (map (view hc) [?a..<?a + unat sz] @ drop (unat sz) buf)" using cpy_bytes_nth(1) [OF c] assms(6) by simp
    fix k assume k: "k < length buf'"
    then have k': "k < length buf" using cpy_bytes_nth(1) [OF c] by simp
    show "buf' ! k = (map (view hc) [?a..<?a + unat sz] @ drop (unat sz) buf) ! k"
    proof (cases "k < unat sz")
      case True
      then have j: "unat ofs + k < left_in_chunk hc1 (unat b)" using assms(4) fr(4) by (simp add: fits_def)
      have st: "unat (bstart ?ch) = unat b div csz hc1 * csz hc1" using l(9) fr(1) by simp
      note cb = chunk_byte [OF l(4) nth_mem [OF il] l(8) st j]
      have "view hc (?a + k) = data_byte hc1 (unat b * bsz hc1 + (unat ofs + k)) ?ch"
        using view_chunk [OF l(4) il cb(1)] l(5) fr(2) by (simp add: add.assoc)
      also have "\<dots> = ch_mem ?ch ! (?ofs + unat ofs + k)" using cb(2) fr by (simp add: data_byte_def add.assoc)
      finally show ?thesis using True k' cpy_bytes_nth(2) [OF c k'] by (simp add: nth_append)
    next
      case False
      then show ?thesis using k' cpy_bytes_nth(2) [OF c k'] by (simp add: nth_append)
    qed
  qed
  have "io_loop e False b n ofs sz 0 0 buf hc = Some (sz, buf', hc2)"
    using assms(4,5) l(1,3) u(1) c unfolding fits_def
    by (subst io_loop.simps) (simp add: rd_in [OF il] Let_def io_done fb(3) [OF l(2)] split del: if_split)
  moreover have "entry_ok hc2" "view hc2 = view hc" using same_view [OF u(2)] l(4,5) by simp_all
  moreover have "frame hc hc2" using frame_trans [OF l(6) same_frame' [OF u(2)]] .
  moreover have "loaded (csz hc) (ce_chunks hc2) = insert (unat b div csz hc) (loaded (csz hc) (ce_chunks hc))"
    using loaded_same [of "ce_chunks hc2" "ce_chunks hc1"] u(2) l(10) by (simp add: same_def)
  ultimately show thesis using that u(3) bb by blast
qed

text \<open>New content for a chunk that stays where it is, with a device that changes only behind the chunk.\<close>

lemma chunk_update:
  assumes "entry_ok hc" "i < length (ce_chunks hc)" "present (ce_chunks hc ! i)" "present ch" "bstart ch = bstart (ce_chunks hc ! i)"
    "bcount ch = bcount (ce_chunks hc ! i)" "length (ch_mem ch) = length (ch_mem (ce_chunks hc ! i))"
    "dinv (ce_handle hc) (bsz hc) d" "dblocks d = dblocks (dev hc)"
    "\<And>a. \<not> holds (bsz hc) a (ce_chunks hc ! i) \<Longrightarrow> dbyte d a = dbyte (dev hc) a"
  shows "entry_ok (wr_chunk i ch (set_dev d hc))"
    and "view (wr_chunk i ch (set_dev d hc)) a = (if holds (bsz hc) a (ce_chunks hc ! i) then data_byte hc a ch else view hc a)"
proof -
  have h: "holds (bsz hc) a ch = holds (bsz hc) a (ce_chunks hc ! i)" for a using assms(3-6) by (simp add: holds_def)
  have "chunk_ok (dblocks (dev hc)) hc (ce_chunks hc ! i)" using assms(1,2) by (simp add: entry_ok_def)
  then have "chunk_ok (dblocks (dev hc)) hc ch" using assms(3-7) by (simp add: chunk_ok_def)
  moreover have "bstart (ce_chunks hc ! j) \<noteq> bstart ch" if "j < length (ce_chunks hc)" "j \<noteq> i" "present (ce_chunks hc ! j)" for j
    using assms(1-3,5) that by (auto simp: entry_ok_def apart_def)
  ultimately show ok: "entry_ok (wr_chunk i ch (set_dev d hc))" using entry_ok_wr [OF assms(1,2) _ assms(8,9)] by blast
  show "view (wr_chunk i ch (set_dev d hc)) a = (if holds (bsz hc) a (ce_chunks hc ! i) then data_byte hc a ch else view hc a)"
    using view_wr [OF assms(1) ok assms(2), of a] assms(10) [of a] h by simp
qed

lemma held_wr:
  assumes "held i h hc" "p_mutex ch = p_mutex (ce_chunks hc ! i)"
  shows "held i h (wr_chunk i ch (set_dev d hc))"
proof -
  have "i < length (ce_chunks hc)" using assms(1) by (simp add: held_def)
  then show ?thesis using assms by (simp add: held_def)
qed

lemma data_byte_drop:
  assumes "drop (data_ofs hc) m = drop (data_ofs hc) (ch_mem ch)" "length m = length (ch_mem ch)" "data_ofs hc \<le> length (ch_mem ch)"
    "bstart ch' = bstart ch" "ch_mem ch' = m"
  shows "data_byte hc a ch' = data_byte hc a ch"
  using drop_nth [OF assms(1-3)] assms(4,5) by (simp add: data_byte_def)

lemma dirty_ok:
  assumes "entry_ok hc" "held i h hc" "io_plock io = Some i" "present (ce_chunks hc ! i)"
    "unat (bstart (ce_chunks hc ! i)) = unat (io_bstart io) div csz hc * csz hc"
    "unat (io_bstart io) mod csz hc + unat (io_bcount io) \<le> 4 * data_ofs hc" "unat (io_bstart io) mod csz hc + unat (io_bcount io) < 2 ^ 32"
  obtains hc' where "cache_dirty e io hc = Some hc'" "entry_ok hc'" "held i h hc'" "view hc' = view hc" "frame hc hc'"
    "present (ce_chunks hc' ! i)" "bstart (ce_chunks hc' ! i) = bstart (ce_chunks hc ! i)"
    "loaded (csz hc) (ce_chunks hc') = loaded (csz hc) (ce_chunks hc)"
proof -
  have il: "i < length (ce_chunks hc)" using assms(2) by (simp add: held_def)
  note cv = covers [OF dims(2) [OF assms(1)] assms(5)]
  have p: "pick (chunk_size (cinfo hc)) (io_bstart io) (ce_chunks hc) = Some i" using pick_hit [OF assms(1) il assms(4)] cv by simp
  obtain hc1 where s: "select_chunk e hc (io_bstart io) (ucast (io_bcount io)) = Some (Some i, hc1)" "same hc hc1" "held i h hc1"
    using select_held [OF assms(1,2)] p by metis
  let ?ch = "ce_chunks hc1 ! i"
  have co: "core ?ch = core (ce_chunks hc ! i)" using same_core [OF s(2) il] .
  have ok1: "entry_ok hc1" "view hc1 = view hc" using same_view [OF s(2)] assms(1) by simp_all
  have fr: "frame hc hc1" using same_frame' [OF s(2)] .
  have il1: "i < length (ce_chunks hc1)" using s(3) by (simp add: held_def)
  have ofs: "unat (io_bstart io - bstart ?ch) = unat (io_bstart io) mod csz hc"
  proof -
    have "bstart ?ch \<le> io_bstart io" using cv(1) core_fields(5) [OF co] by (simp add: word_le_nat_alt)
    then show ?thesis using assms(5) core_fields(5) [OF co] by (simp add: unat_sub minus_div_mult_eq_mod)
  qed
  have k: "data_ofs hc \<le> length (ch_mem ?ch)" using chunk_facts(1) [OF ok1(1) nth_mem [OF il1]] fr by (simp add: frame_def)
  obtain m where m: "set_bstate ?ch (io_bstart io) (io_bcount io) (CBSTATE_PRESENT OR CBSTATE_DIRTY) = Some (?ch\<lparr>ch_mem := m\<rparr>)"
    "length m = length (ch_mem ?ch)" "drop (data_ofs hc) m = drop (data_ofs hc) (ch_mem ?ch)"
    using set_bstate_ok [of "io_bstart io" ?ch "io_bcount io" "data_ofs hc" "CBSTATE_PRESENT OR CBSTATE_DIRTY"] ofs assms(6,7) k by metis
  let ?ch' = "?ch\<lparr>ch_mem := m, cstate := cstate ?ch OR ucast CBSTATE_DIRTY\<rparr>"
  let ?hc = "wr_chunk i ?ch' hc1"
  have pr: "present ?ch" "present ?ch'" using core_fields(1) [OF co] assms(4) by (simp_all add: present_bit bit_or_iff)
  have di: "dinv (ce_handle hc1) (bsz hc1) (dev hc1)" using ok1(1) by (simp add: entry_ok_def)
  have ok: "entry_ok ?hc" using chunk_update(1) [OF ok1(1) il1 pr, where d = "dev hc1"] m(2) di by simp
  have "view ?hc a = view hc1 a" for a
  proof -
    have "data_byte hc1 a ?ch' = data_byte hc1 a ?ch" using m(2,3) k fr by (intro data_byte_drop [where m = m]) (simp_all add: frame_def)
    then show ?thesis
      using chunk_update(2) [OF ok1(1) il1 pr, where d = "dev hc1" and a = a] m(2) di view_chunk [OF ok1(1) il1, of a] by simp
  qed
  then have "view ?hc = view hc" using ok1(2) by auto
  moreover have "cache_dirty e io hc = Some ?hc" using s(1) assms(3) m(1) by (simp add: cache_dirty_def rd_in [OF il1])
  moreover have "held i h ?hc" using held_wr [OF s(3), of ?ch' "dev hc1"] by simp
  moreover have "frame hc ?hc" using fr by (simp add: frame_def)
  moreover have "loaded (csz hc) (ce_chunks ?hc) = loaded (csz hc) (ce_chunks hc)"
  proof -
    have "loaded (csz hc) (ce_chunks ?hc) = insert (unat (bstart ?ch) div csz hc) (loaded (csz hc) (ce_chunks hc1))"
      using loaded_update [OF il1 pr(2)] by simp
    also have "\<dots> = loaded (csz hc) (ce_chunks hc1)" using nth_mem [OF il1] pr(1) by (auto simp: loaded_def)
    also have "\<dots> = loaded (csz hc) (ce_chunks hc)" using s(2) by (intro loaded_same) (simp add: same_def)
    finally show ?thesis .
  qed
  ultimately show thesis using that [of ?hc] ok pr(2) il1 core_fields(5) [OF co] by simp
qed

lemma io_write:
  assumes "entry_ok hc" "all_idle hc" "mutex_idle (ev_clone e)" "fits hc b ofs sz" "n \<noteq> 0" "unat sz \<le> length buf"
    "pick (chunk_size (cinfo hc)) (ucast b) (ce_chunks hc) \<noteq> None" "unat b div csz hc * csz hc + csz hc \<le> 4 * data_ofs hc"
  obtains hc' where "io_loop e True b n ofs sz 0 0 buf hc = Some (sz, buf, hc')" "entry_ok hc'" "all_idle hc'" "frame hc hc'"
    "view hc' = (\<lambda>a. if unat b * bsz hc + unat ofs \<le> a \<and> a < unat b * bsz hc + unat ofs + unat sz
       then buf ! (a - (unat b * bsz hc + unat ofs)) else view hc a)"
    "loaded (csz hc) (ce_chunks hc') = insert (unat b div csz hc) (loaded (csz hc) (ce_chunks hc))"
proof -
  let ?io = "io_of b n"
  let ?ofs = "data_ofs hc + unat b mod csz hc * bsz hc" and ?a = "unat b * bsz hc + unat ofs"
  have ub: "unat (ucast b :: u64) = unat b" by (simp add: unat_up)
  note fb = fits_bounds [OF assms(1,4)]
  obtain i h n' hc1 where l: "cache_buffer_lock e ?io hc = Some (n', ?io\<lparr>io_hlock := h, io_plock := Some i,
       io_buffer := Some ?ofs, io_bcount := n', io_bsize := n' * ucast (block_size (cinfo hc))\<rparr>, hc1)"
    "unat n' = unat b div csz hc * csz hc + csz hc - unat b mod csz hc" "n' \<noteq> 0"
    "entry_ok hc1" "view hc1 = view hc" "frame hc hc1" "held i h hc1" "present (ce_chunks hc1 ! i)"
    "unat (bstart (ce_chunks hc1 ! i)) = unat b div csz hc * csz hc"
    "loaded (csz hc) (ce_chunks hc1) = insert (unat b div csz hc) (loaded (csz hc) (ce_chunks hc))"
    by (rule io_lock [OF assms(1-3) fb(1) assms(7)])
  let ?io1 = "?io\<lparr>io_hlock := h, io_plock := Some i, io_buffer := Some ?ofs, io_bcount := n', io_bsize := n' * ucast (block_size (cinfo hc))\<rparr>"
  let ?ch = "ce_chunks hc1 ! i"
  have il: "i < length (ce_chunks hc1)" using l(7) by (simp add: held_def)
  have fr: "csz hc1 = csz hc" "bsz hc1 = bsz hc" "data_ofs hc1 = data_ofs hc" "left_in_chunk hc1 = left_in_chunk hc"
    using l(6) by (auto simp: frame_def left_in_chunk_def fun_eq_iff)
  have len: "length (ch_mem ?ch) = data_ofs hc + csz hc * bsz hc" using chunk_facts(1) [OF l(4) nth_mem [OF il]] fr by simp
  have cl: "?ofs + unat ofs + unat sz \<le> length (ch_mem ?ch)" using len fb(2) by simp
  then obtain m where c: "cpy_bytes (ch_mem ?ch) (?ofs + unat ofs) buf 0 (unat sz) = Some m" using cpy_bytes_total assms(6) by (metis add_0)
  let ?ch2 = "?ch\<lparr>ch_mem := m\<rparr>"
  let ?hc2 = "wr_chunk i ?ch2 hc1"
  have pr2: "present ?ch2" using l(8) by (simp add: present_def)
  have di: "dinv (ce_handle hc1) (bsz hc1) (dev hc1)" using l(4) by (simp add: entry_ok_def)
  have ok2: "entry_ok ?hc2" using chunk_update(1) [OF l(4) il l(8) pr2, where d = "dev hc1"] cpy_bytes_nth(1) [OF c] di by simp
  have v2: "view ?hc2 a = (if ?a \<le> a \<and> a < ?a + unat sz then buf ! (a - ?a) else view hc a)" for a
  proof -
    have u: "view ?hc2 a = (if holds (bsz hc1) a ?ch then data_byte hc1 a ?ch2 else view hc1 a)"
      using chunk_update(2) [OF l(4) il l(8) pr2, where d = "dev hc1" and a = a] cpy_bytes_nth(1) [OF c] di by simp
    have st: "unat (bstart ?ch) = unat b div csz hc1 * csz hc1" using l(9) fr(1) by simp
    show ?thesis
    proof (cases "?a \<le> a \<and> a < ?a + unat sz")
      case True
      then obtain k where k: "a = ?a + k" "k < unat sz" by (metis le_iff_add nat_add_left_cancel_less)
      then have j: "unat ofs + k < left_in_chunk hc1 (unat b)" using assms(4) fr(4) by (simp add: fits_def)
      note cb = chunk_byte [OF l(4) nth_mem [OF il] l(8) st j]
      have e: "unat b * bsz hc1 + (unat ofs + k) = a" using k(1) fr(2) by simp
      have "data_byte hc1 a ?ch2 = m ! (?ofs + unat ofs + k)" using cb(2) fr e by (simp add: data_byte_def add.assoc)
      also have "\<dots> = buf ! k" using cpy_bytes_nth(2) [OF c, of "?ofs + unat ofs + k"] cl k(2) by simp
      finally show ?thesis using u True cb(1) e k(1) by simp
    next
      case False
      have "data_byte hc1 a ?ch2 = view hc1 a" if hd: "holds (bsz hc1) a ?ch"
      proof -
        have a: "first_byte hc1 ?ch \<le> a" "a < (unat (bstart ?ch) + unat (bcount ?ch)) * bsz hc1" using hd by (simp_all add: holds_def)
        have e: "unat b * bsz hc = first_byte hc1 ?ch + unat b mod csz hc * bsz hc"
          using l(9) fr(2) by (metis add_mult_distrib div_mult_mod_eq)
        have "unat (bcount ?ch) \<le> csz hc" using chunk_facts(2) [OF l(4) nth_mem [OF il] l(8)] fr(1) by simp
        then have "unat (bcount ?ch) * bsz hc1 \<le> csz hc * bsz hc" unfolding fr(2) by (rule mult_le_mono1)
        then have "a - first_byte hc1 ?ch < csz hc * bsz hc" using a by (simp add: add_mult_distrib)
        then have "m ! (data_ofs hc + (a - first_byte hc1 ?ch)) = ch_mem ?ch ! (data_ofs hc + (a - first_byte hc1 ?ch))"
          using cpy_bytes_nth(2) [OF c, of "data_ofs hc + (a - first_byte hc1 ?ch)"] len False e a(1) by auto
        then show ?thesis using view_chunk [OF l(4) il hd] fr by (simp add: data_byte_def)
      qed
      then show ?thesis using u False l(5) by auto
    qed
  qed
  have h2: "held i h ?hc2" using held_wr [OF l(7), of ?ch2 "dev hc1"] by simp
  have "unat b mod csz hc + unat n' = unat b div csz hc * csz hc + csz hc" using l(2) mod_less_divisor [OF dims(2) [OF assms(1)], of "unat b"] by linarith
  moreover have "unat b div csz hc * csz hc \<le> unat b" by simp
  ultimately have nb: "unat b mod csz hc + unat n' \<le> 4 * data_ofs hc" "unat b mod csz hc + unat n' < 2 ^ 32"
    using assms(8) fb(1) dims(3) [OF assms(1)] by linarith+
  obtain hc3 where d: "cache_dirty e ?io1 ?hc2 = Some hc3" "entry_ok hc3" "held i h hc3" "view hc3 = view ?hc2" "frame ?hc2 hc3"
    "present (ce_chunks hc3 ! i)" "bstart (ce_chunks hc3 ! i) = bstart (ce_chunks ?hc2 ! i)"
    "loaded (csz ?hc2) (ce_chunks hc3) = loaded (csz ?hc2) (ce_chunks ?hc2)"
    using dirty_ok [OF ok2 h2, of ?io1 e] pr2 il l(9) nb fr ub by auto
  have fr3: "frame hc1 hc3" using d(5) by (simp add: frame_def)
  obtain hc4 where u: "cache_buffer_unlock e ?io1 hc3 = Some hc4" "same hc3 hc4" "all_idle hc4"
    using buffer_unlock_ok [OF d(2,3), of ?io1 e] d(6,7) l(9) il fr3 fr ub by (auto simp: frame_def)
  have "io_loop e True b n ofs sz 0 0 buf hc = Some (sz, buf, hc4)"
    using assms(4,5) l(1,3) u(1) c d(1) unfolding fits_def
    by (subst io_loop.simps) (simp add: rd_in [OF il] Let_def io_done fb(3) [OF l(2)] split del: if_split)
  moreover have "entry_ok hc4" "view hc4 = (\<lambda>a. if ?a \<le> a \<and> a < ?a + unat sz then buf ! (a - ?a) else view hc a)"
    using same_view [OF u(2)] d(2,4) v2 by auto
  moreover have "frame hc hc4" using frame_trans [OF l(6)] frame_trans [OF fr3 same_frame' [OF u(2)]] by blast
  moreover have "loaded (csz hc) (ce_chunks hc4) = insert (unat b div csz hc) (loaded (csz hc) (ce_chunks hc))"
  proof -
    have "loaded (csz hc) (ce_chunks hc4) = loaded (csz hc) (ce_chunks hc3)" using u(2) by (intro loaded_same) (simp add: same_def)
    also have "\<dots> = loaded (csz hc) (ce_chunks ?hc2)" using d(8) fr(1) by simp
    also have "\<dots> = insert (unat (bstart ?ch2) div csz hc) (loaded (csz hc) (ce_chunks hc1))" using loaded_update [OF il pr2] by simp
    also have "\<dots> = loaded (csz hc) (ce_chunks hc1)" using nth_mem [OF il] l(8) by (auto simp: loaded_def)
    finally show ?thesis using l(10) by simp
  qed
  ultimately show thesis using that u(3) by blast
qed

section \<open>Flushing\<close>

text \<open>What flushing keeps: every byte of the disk; the device gets nothing but bytes of the disk.\<close>

definition flushed :: "'d cache_entry \<Rightarrow> 'd cache_entry \<Rightarrow> bool" where
  "flushed hc hc' \<longleftrightarrow> entry_ok hc' \<and> view hc' = view hc \<and> frame hc hc' \<and> loaded (csz hc) (ce_chunks hc') = loaded (csz hc) (ce_chunks hc) \<and>
     (\<forall>a. dbyte (dev hc') a = dbyte (dev hc) a \<or> dbyte (dev hc') a = view hc a)"

lemma flushed_refl: "entry_ok hc \<Longrightarrow> flushed hc hc"
  by (simp add: flushed_def)

lemma flushed_trans:
  assumes "flushed a b" "flushed b c"
  shows "flushed a c"
proof -
  have f: "frame a b" "frame b c" "view c = view b" "view b = view a" using assms by (simp_all add: flushed_def)
  then have "csz b = csz a" by (simp add: frame_def)
  then have "loaded (csz a) (ce_chunks c) = loaded (csz a) (ce_chunks a)" using assms by (simp add: flushed_def)
  moreover have "dbyte (dev c) x = dbyte (dev a) x \<or> dbyte (dev c) x = view a x" for x
  proof -
    have "dbyte (dev b) x = dbyte (dev a) x \<or> dbyte (dev b) x = view a x" using assms(1) by (simp add: flushed_def)
    moreover have "dbyte (dev c) x = dbyte (dev b) x \<or> dbyte (dev c) x = view b x" using assms(2) by (simp add: flushed_def)
    ultimately show ?thesis using f(4) by auto
  qed
  moreover have "entry_ok c" "view c = view a" using assms(2) f(3,4) by (simp_all add: flushed_def)
  ultimately show ?thesis unfolding flushed_def using frame_trans [OF f(1,2)] by blast
qed

lemma flushed_same:
  assumes "entry_ok hc" "same hc hc'"
  shows "flushed hc hc'"
proof -
  have "dev hc' = dev hc" "map core (ce_chunks hc') = map core (ce_chunks hc)" using assms(2) by (simp_all add: same_def dev_def)
  moreover from this(2) have "loaded c (ce_chunks hc') = loaded c (ce_chunks hc)" for c by (rule loaded_same)
  ultimately show ?thesis using same_view [OF assms(2)] same_frame' [OF assms(2)] assms(1) by (simp add: flushed_def)
qed

text \<open>Chunk \<open>i\<close> stays where it is, with its locks.\<close>

definition stays :: "nat \<Rightarrow> 'd cache_entry \<Rightarrow> 'd cache_entry \<Rightarrow> bool" where
  "stays i hc hc' \<longleftrightarrow> locks hc' = locks hc \<and> (\<forall>j<length (ce_chunks hc). present (ce_chunks hc' ! j) = present (ce_chunks hc ! j)) \<and>
     bstart (ce_chunks hc' ! i) = bstart (ce_chunks hc ! i) \<and> bcount (ce_chunks hc' ! i) = bcount (ce_chunks hc ! i)"

lemma stays_trans: "length (ce_chunks b) = length (ce_chunks a) \<Longrightarrow> stays i a b \<Longrightarrow> stays i b c \<Longrightarrow> stays i a c"
  by (simp add: stays_def)

text \<open>Changing the state bits and flags of chunk \<open>i\<close> and the device behind it.\<close>

lemma flushed_wr:
  assumes "entry_ok hc" "i < length (ce_chunks hc)" "present (ce_chunks hc ! i)" "present ch" "bstart ch = bstart (ce_chunks hc ! i)"
    "bcount ch = bcount (ce_chunks hc ! i)" "p_mutex ch = p_mutex (ce_chunks hc ! i)" "length (ch_mem ch) = length (ch_mem (ce_chunks hc ! i))"
    "drop (data_ofs hc) (ch_mem ch) = drop (data_ofs hc) (ch_mem (ce_chunks hc ! i))"
    "dinv (ce_handle hc) (bsz hc) d" "dblocks d = dblocks (dev hc)"
    "\<And>a. dbyte d a \<noteq> dbyte (dev hc) a \<Longrightarrow> holds (bsz hc) a (ce_chunks hc ! i) \<and> dbyte d a = view hc a"
  shows "flushed hc (wr_chunk i ch (set_dev d hc))" and "stays i hc (wr_chunk i ch (set_dev d hc))"
proof -
  let ?old = "ce_chunks hc ! i" and ?hc = "wr_chunk i ch (set_dev d hc)"
  note cu = chunk_update [OF assms(1-6,8,10,11)]
  have k: "data_ofs hc \<le> length (ch_mem ?old)" using chunk_facts(1) [OF assms(1) nth_mem [OF assms(2)]] by simp
  have "view ?hc a = view hc a" for a
  proof -
    have "data_byte hc a ch = data_byte hc a ?old" using data_byte_drop [OF assms(9,8) k assms(5)] by simp
    then show ?thesis using cu(2) [of a] assms(12) view_chunk [OF assms(1,2), of a] by (cases "holds (bsz hc) a ?old") auto
  qed
  moreover have "loaded (csz hc) ((ce_chunks hc)[i := ch]) = loaded (csz hc) (ce_chunks hc)"
    using loaded_update [OF assms(2,4)] assms(3,5) nth_mem [OF assms(2)] by (auto simp: loaded_def)
  ultimately show "flushed hc ?hc" using cu(1) assms(11,12) by (auto simp: flushed_def frame_def fun_eq_iff)
  show "stays i hc ?hc" using assms(2-7) locks_wr [OF assms(2,7)] by (simp add: stays_def nth_list_update)
qed

lemma flush_buffer_ok:
  assumes "entry_ok hc" "i < length (ce_chunks hc)" "present (ce_chunks hc ! i)" "cnt \<noteq> 0"
    "unat (bstart (ce_chunks hc ! i)) \<le> unat cstart" "unat cstart + unat cnt \<le> unat (bstart (ce_chunks hc ! i)) + unat (bcount (ce_chunks hc ! i))"
  obtains hc' where "flush_buffer hc i cstart cnt = Some hc'" "flushed hc hc'" "stays i hc hc'"
proof -
  let ?ch = "ce_chunks hc ! i" and ?k = "data_ofs hc"
  note dm = dims [OF assms(1)] and cf = chunk_facts(2) [OF assms(1) nth_mem [OF assms(2)] assms(3)]
  define j where "j = unat cstart - unat (bstart ?ch)"
  have j: "unat (cstart - bstart ?ch) = j" using assms(5) by (simp add: j_def unat_sub word_le_nat_alt)
  have jc: "j + unat cnt \<le> csz hc" using assms(5,6) cf by (simp add: j_def)
  have len: "length (ch_mem ?ch) = ?k + csz hc * bsz hc" using chunk_facts(1) [OF assms(1) nth_mem [OF assms(2)]] .
  have jb: "j * bsz hc + unat cnt * bsz hc \<le> csz hc * bsz hc" using mult_le_mono1 [OF jc, of "bsz hc"] by (simp add: add_mult_distrib)
  then have "j * bsz hc < 2 ^ 32" using dm(4) by linarith
  then have o: "unat ((cstart - bstart ?ch) * ucast (block_size (cinfo hc))) = j * bsz hc" using j by (simp add: unat_word_ariths unat_up)
  have di: "dinv (ce_handle hc) (bsz hc) (dev hc)" "p_ccb (cinfo hc) = dev_cb" using assms(1) by (simp_all add: entry_ok_def)
  let ?o = "?k + j * bsz hc"
  have "unat cnt * bsz hc \<le> length (drop ?o (ch_mem ?ch))" "unat cnt * bsz hc < 2 ^ 32" "unat cstart + unat cnt \<le> dblocks (dev hc)"
    using jb len dm(4) assms(6) cf by simp_all
  then obtain d where d: "dev_cb CIOCTL_WRITE (ce_handle hc) cstart cnt (drop ?o (ch_mem ?ch)) (dev hc) = Some (cnt, drop ?o (ch_mem ?ch), d)"
    "dinv (ce_handle hc) (bsz hc) d" "dblocks d = dblocks (dev hc)"
    "\<And>a. dbyte d a = (if unat cstart * bsz hc \<le> a \<and> a < (unat cstart + unat cnt) * bsz hc then drop ?o (ch_mem ?ch) ! (a - unat cstart * bsz hc) else dbyte (dev hc) a)"
    using dev_write [OF di(1) _ assms(4)] by blast
  have call: "ccb_call hc i CIOCTL_WRITE cstart cnt ?o = Some (cnt, wr_chunk i ?ch (set_dev d hc))"
    using d(1) di(2) by (simp add: ccb_call_def rd_in [OF assms(2)] set_dev_def dev_def)
  have "unat (cstart - bstart ?ch) + unat cnt \<le> 4 * ?k" "unat (cstart - bstart ?ch) + unat cnt < 2 ^ 32" "?k \<le> length (ch_mem ?ch)"
    using j jc dm(3,5) len by simp_all
  then obtain m where m: "set_bstate ?ch cstart cnt CBSTATE_PRESENT = Some (?ch\<lparr>ch_mem := m\<rparr>)" "length m = length (ch_mem ?ch)" "drop ?k m = drop ?k (ch_mem ?ch)"
    using set_bstate_ok by blast
  let ?hc = "wr_chunk i (?ch\<lparr>ch_mem := m\<rparr>) (set_dev d hc)"
  have fb: "flush_buffer hc i cstart cnt = Some ?hc" using call o m(1) assms(2) by (simp add: flush_buffer_def rd_in [OF assms(2)])
  have w: "holds (bsz hc) a ?ch \<and> dbyte d a = view hc a" if ne: "dbyte d a \<noteq> dbyte (dev hc) a" for a
  proof -
    have a: "unat cstart * bsz hc \<le> a" "a < (unat cstart + unat cnt) * bsz hc" using ne d(4) [of a] by (auto split: if_splits)
    have s: "unat cstart * bsz hc = first_byte hc ?ch + j * bsz hc" using assms(5) by (simp add: j_def add_mult_distrib [symmetric])
    have "(unat cstart + unat cnt) * bsz hc \<le> (unat (bstart ?ch) + unat (bcount ?ch)) * bsz hc" using assms(6) by (rule mult_le_mono1)
    with a(2) have "a < (unat (bstart ?ch) + unat (bcount ?ch)) * bsz hc" by (rule less_le_trans)
    moreover have "first_byte hc ?ch \<le> a" using s a(1) by linarith
    ultimately have h: "holds (bsz hc) a ?ch" using assms(3) by (simp only: holds_def)
    have ol: "?o \<le> length (ch_mem ?ch)" using len jb by linarith
    have "dbyte d a = ch_mem ?ch ! (?o + (a - unat cstart * bsz hc))" using d(4) [of a] a unfolding nth_drop [OF ol] by simp
    also have "?o + (a - unat cstart * bsz hc) = ?k + (a - first_byte hc ?ch)" using s a(1) by linarith
    finally show ?thesis using h view_chunk [OF assms(1,2) h] by (simp add: data_byte_def)
  qed
  have pr: "present (?ch\<lparr>ch_mem := m\<rparr>)" using assms(3) by (simp add: present_def)
  have "flushed hc ?hc" "stays i hc ?hc" using flushed_wr [OF assms(1-3) pr _ _ _ _ _ d(2,3) w] m(2,3) by simp_all
  then show thesis using that fb by blast
qed

lemma flush_loop_ok:
  assumes "entry_ok hc" "i < length (ce_chunks hc)" "present (ce_chunks hc ! i)" "start = bstart (ce_chunks hc ! i)"
    "unat bend = unat start + unat (bcount (ce_chunks hc ! i))" "unat start \<le> unat cstart" "unat cstart + unat cnt \<le> unat bs" "unat bs \<le> unat bend"
  shows "\<exists>cs n hc'. flush_loop hc i start bend bs cstart cnt = Some (cs, n, hc') \<and> flushed hc hc' \<and> stays i hc hc' \<and>
    unat start \<le> unat cs \<and> unat cs + unat n \<le> unat bend"
  using assms
proof (induction "unat bend - unat bs" arbitrary: hc bs cstart cnt)
  case 0
  then have "\<not> bs < bend" by (simp add: word_less_nat_alt)
  then have "flush_loop hc i start bend bs cstart cnt = Some (cstart, cnt, hc)" by (subst flush_loop.simps) simp
  then show ?case using 0 flushed_refl [of hc] by (auto simp: stays_def)
next
  case (Suc x)
  let ?ch = "ce_chunks hc ! i"
  note dm = dims [OF Suc.prems(1)] and cf = chunk_facts(2) [OF Suc.prems(1) nth_mem [OF Suc.prems(2)] Suc.prems(3)]
  have lt: "start \<le> bs" "bs < bend" using Suc.hyps(2) Suc.prems(6,7) by (simp_all add: word_less_nat_alt word_le_nat_alt)
  have "unat bend < 2 ^ 64" using unsigned_less [of bend, where ?'a = nat] by simp
  then have b1: "unat (bs + 1) = unat bs + 1" using Suc.hyps(2) by (intro unat_next) simp
  have x: "x = unat bend - unat (bs + 1)" "unat (bs + 1) \<le> unat bend" using Suc.hyps(2) b1 by simp_all
  have "unat (bs - bstart ?ch) = unat bs - unat start" using lt(1) Suc.prems(4) by (simp add: unat_sub)
  moreover have "unat bs < unat start + unat (bcount ?ch)" "unat start \<le> unat bs" "unat (bcount ?ch) \<le> csz hc"
    using lt Suc.prems(5) cf by (simp_all add: word_less_nat_alt word_le_nat_alt)
  ultimately have "unat (bs - bstart ?ch) < csz hc" by linarith
  then have "unat (bs - bstart ?ch) < 4 * data_ofs hc" "unat (bs - bstart ?ch) < 2 ^ 32" "data_ofs hc \<le> length (ch_mem ?ch)"
    using dm(3,5) chunk_facts(1) [OF Suc.prems(1) nth_mem [OF Suc.prems(2)]] by linarith+
  then obtain st where st: "get_bstate ?ch bs = Some st" by (rule get_bstate_total)
  show ?case
  proof (cases "st AND CBSTATE_DIRTY \<noteq> 0 \<and> st AND CBSTATE_PRESENT \<noteq> 0")
    case True
    have "unat bs < unat bend" "unat bend \<le> dblocks (dev hc)" using lt(2) Suc.prems(4,5) cf by (simp_all add: word_less_nat_alt)
    then have "unat cnt + 1 < 2 ^ 32" using Suc.prems(7) dm(2,3) by linarith
    then have "unat (cnt + 1) = unat cnt + 1" by (rule unat_inc_u32)
    then have "unat cstart + unat (cnt + 1) \<le> unat (bs + 1)" using Suc.prems(7) b1 by simp
    moreover have "flush_loop hc i start bend bs cstart cnt = flush_loop hc i start bend (bs + 1) cstart (cnt + 1)"
      using lt st True by (subst flush_loop.simps) (simp add: rd_in [OF Suc.prems(2)])
    ultimately show ?thesis using Suc.hyps(1) [OF x(1) Suc.prems(1-6) _ x(2)] by simp
  next
    case False
    have "\<exists>hc1. (if cnt \<noteq> 0 then flush_buffer hc i cstart cnt else Some hc) = Some hc1 \<and> flushed hc hc1 \<and> stays i hc hc1"
    proof (cases "cnt = 0")
      case True
      then show ?thesis using flushed_refl [OF Suc.prems(1)] by (simp add: stays_def)
    next
      case nz: False
      have "unat (bstart ?ch) \<le> unat cstart" "unat cstart + unat cnt \<le> unat (bstart ?ch) + unat (bcount ?ch)"
        using Suc.prems(4-8) by simp_all
      then show ?thesis using flush_buffer_ok [OF Suc.prems(1-3) nz] nz by metis
    qed
    then obtain hc1 where f: "(if cnt \<noteq> 0 then flush_buffer hc i cstart cnt else Some hc) = Some hc1" "flushed hc hc1" "stays i hc hc1" by blast
    have l1: "length (ce_chunks hc1) = length (ce_chunks hc)" using f(2) by (simp add: flushed_def frame_def)
    have p: "entry_ok hc1" "i < length (ce_chunks hc1)" "present (ce_chunks hc1 ! i)" "start = bstart (ce_chunks hc1 ! i)"
      "unat bend = unat start + unat (bcount (ce_chunks hc1 ! i))"
      using f(2,3) l1 Suc.prems(2-5) by (auto simp: flushed_def stays_def)
    have "unat start \<le> unat bs" "unat bs + unat (0 :: u32) \<le> unat (bs + 1)" using lt(1) b1 by (simp_all add: word_le_nat_alt)
    from Suc.hyps(1) [OF x(1) p this x(2)] obtain cs n hc2 where
      r: "flush_loop hc1 i start bend (bs + 1) bs 0 = Some (cs, n, hc2)" "flushed hc1 hc2" "stays i hc1 hc2" "unat start \<le> unat cs" "unat cs + unat n \<le> unat bend"
      by blast
    have "flush_loop hc i start bend bs cstart cnt = Some (cs, n, hc2)"
      using lt st False f(1) r(1) by (subst flush_loop.simps) (simp add: rd_in [OF Suc.prems(2)], blast)
    then show ?thesis using flushed_trans [OF f(2) r(2)] stays_trans [OF l1 f(3) r(3)] r(4,5) by blast
  qed
qed

lemma flush_chunk_ok:
  assumes "entry_ok hc" "i < length (ce_chunks hc)"
  obtains hc' where "cache_flush_chunk hc i = Some hc'" "flushed hc hc'" "locks hc' = locks hc"
proof (cases "dirty (ce_chunks hc ! i)")
  case False
  then show thesis using that [of hc] flushed_refl [OF assms(1)] by (simp add: cache_flush_chunk_def rd_in [OF assms(2)] dirty_def)
next
  case True
  let ?ch = "ce_chunks hc ! i" and ?e = "bstart (ce_chunks hc ! i) + ucast (bcount (ce_chunks hc ! i))"
  have pr: "present ?ch"
  proof (rule ccontr)
    assume "\<not> present ?ch"
    then have "cstate ?ch = 0" by (rule chunk_facts(3) [OF assms(1) nth_mem [OF assms(2)]])
    then show False using True by (simp add: dirty_def)
  qed
  note cf = chunk_facts(2) [OF assms(1) nth_mem [OF assms(2)] pr]
  have "unat (ucast (bcount ?ch) :: u64) = unat (bcount ?ch)" by (simp add: unsigned_ucast_eq take_bit_nat_eq_self less_le_trans [OF unsigned_less])
  then have e: "unat ?e = unat (bstart ?ch) + unat (bcount ?ch)" using cf dims(3) [OF assms(1)] by (simp add: unat_word_ariths)
  obtain cs n hc1 where l: "flush_loop hc i (bstart ?ch) ?e (bstart ?ch) (bstart ?ch) 0 = Some (cs, n, hc1)" "flushed hc hc1" "stays i hc hc1"
    "unat (bstart ?ch) \<le> unat cs" "unat cs + unat n \<le> unat ?e"
    using flush_loop_ok [OF assms pr refl e, of "bstart ?ch" 0 "bstart ?ch"] e by auto
  have l1: "entry_ok hc1" "i < length (ce_chunks hc1)" "present (ce_chunks hc1 ! i)" "length (ce_chunks hc1) = length (ce_chunks hc)"
    using l(2,3) assms(2) pr by (auto simp: flushed_def stays_def frame_def)
  have "\<exists>hc2. (if n \<noteq> 0 then flush_buffer hc1 i cs n else Some hc1) = Some hc2 \<and> flushed hc1 hc2 \<and> stays i hc1 hc2"
  proof (cases "n = 0")
    case True
    then show ?thesis using flushed_refl [OF l1(1)] by (simp add: stays_def)
  next
    case nz: False
    have "unat (bstart (ce_chunks hc1 ! i)) \<le> unat cs" "unat cs + unat n \<le> unat (bstart (ce_chunks hc1 ! i)) + unat (bcount (ce_chunks hc1 ! i))"
      using l(3-5) e by (simp_all add: stays_def)
    then show ?thesis using flush_buffer_ok [OF l1(1-3) nz] nz by metis
  qed
  then obtain hc2 where f: "(if n \<noteq> 0 then flush_buffer hc1 i cs n else Some hc1) = Some hc2" "flushed hc1 hc2" "stays i hc1 hc2" by blast
  have l2: "entry_ok hc2" "i < length (ce_chunks hc2)" "present (ce_chunks hc2 ! i)"
    using f(2,3) l1(2,3) by (auto simp: flushed_def stays_def frame_def)
  let ?ch2 = "ce_chunks hc2 ! i"
  let ?ch3 = "?ch2\<lparr>cstate := cstate ?ch2 AND NOT (ucast CBSTATE_DIRTY)\<rparr>"
  have p3: "present ?ch3" using l2(3) by (simp add: present_bit bit_and_iff bit_not_iff CBSTATE_DIRTY_def)
  have di: "dinv (ce_handle hc2) (bsz hc2) (dev hc2)" using l2(1) by (simp add: entry_ok_def)
  have w: "flushed hc2 (wr_chunk i ?ch3 hc2)" "stays i hc2 (wr_chunk i ?ch3 hc2)"
    using flushed_wr [OF l2 p3, where d = "dev hc2"] di by simp_all
  have "cache_flush_chunk hc i = Some (wr_chunk i ?ch3 hc2)"
    using True l(1) f(1) by (simp add: cache_flush_chunk_def rd_in [OF assms(2)] rd_in [OF l2(2)] dirty_def)
  moreover have "flushed hc (wr_chunk i ?ch3 hc2)" using flushed_trans [OF l(2) flushed_trans [OF f(2) w(1)]] .
  moreover have "locks (wr_chunk i ?ch3 hc2) = locks hc" using w(2) f(3) l(3) by (simp add: stays_def)
  ultimately show thesis using that by blast
qed

lemma flush_chunks_ok:
  assumes "entry_ok hc" "all_idle hc" "mutex_idle (ev_clone e)" "i + n \<le> length (ce_chunks hc)"
  shows "\<exists>hc'. flush_chunks e i n hc = Some hc' \<and> flushed hc hc' \<and> all_idle hc'"
  using assms
proof (induction n arbitrary: i hc)
  case 0
  then show ?case using flushed_refl by simp
next
  case (Suc n)
  have il: "i < length (ce_chunks hc)" using Suc.prems(4) by simp
  obtain h hc1 where l: "lock_chunk e i 0 hc = Some (h, hc1)" "same hc hc1" "held i h hc1" using lock_chunk_idle [OF Suc.prems(2) il Suc.prems(3)] .
  have f1: "flushed hc hc1" using flushed_same [OF Suc.prems(1) l(2)] .
  have "entry_ok hc1" "i < length (ce_chunks hc1)" using f1 il by (auto simp: flushed_def frame_def)
  then obtain hc2 where f: "cache_flush_chunk hc1 i = Some hc2" "flushed hc1 hc2" "locks hc2 = locks hc1" by (rule flush_chunk_ok)
  have "held i h hc2" using locks_held [OF _ _ l(3), of hc2] f(3) l(3) by (simp add: locks_def held_def)
  then obtain hc3 where u: "unlock_chunk i h hc2 = Some hc3" "same hc2 hc3" "all_idle hc3" by (rule unlock_chunk_held)
  have "entry_ok hc2" using f(2) by (simp add: flushed_def)
  then have f3: "flushed hc hc3" using flushed_trans [OF f1 flushed_trans [OF f(2) flushed_same [OF _ u(2)]]] by blast
  then have "entry_ok hc3" "i + 1 + n \<le> length (ce_chunks hc3)" using Suc.prems(4) by (auto simp: flushed_def frame_def)
  from Suc.IH [OF this(1) u(3) Suc.prems(3) this(2)] obtain hc4 where "flush_chunks e (i + 1) n hc3 = Some hc4" "flushed hc3 hc4" "all_idle hc4" by blast
  then show ?case using l(1) f(1) u(1) flushed_trans [OF f3] by auto
qed

lemma flush_ok:
  assumes "entry_ok hc" "all_idle hc" "mutex_idle (ev_clone e)"
  obtains hc' where "cache_flush e hc = Some hc'" "flushed hc hc'" "all_idle hc'"
  using flush_chunks_ok [OF assms, of 0 "unat (num_chunks (cinfo hc))"] dims(6) [OF assms(1)] that by (auto simp: cache_flush_def)

section \<open>Sequences of requests\<close>

lemma loaded_finite [simp]: "finite (loaded c chs)"
  by (simp add: loaded_def)

text \<open>While the chunks asked for fit in the cache, one is found.\<close>

lemma room_pick:
  assumes "entry_ok hc" "card (insert (unat b div csz hc) (loaded (csz hc) (ce_chunks hc))) \<le> length (ce_chunks hc)"
  shows "pick (chunk_size (cinfo hc)) b (ce_chunks hc) \<noteq> None"
proof
  assume "pick (chunk_size (cinfo hc)) b (ce_chunks hc) = None"
  then have all: "\<forall>ch\<in>set (ce_chunks hc). present ch \<and> \<not> (unat (bstart ch) \<le> unat b \<and> unat b < unat (bstart ch) + csz hc)"
    using pick_none [OF assms(1)] by blast
  let ?f = "\<lambda>i. unat (bstart (ce_chunks hc ! i)) div csz hc"
  have mul: "unat (bstart ch) div csz hc * csz hc = unat (bstart ch)" if "ch \<in> set (ce_chunks hc)" for ch
    using chunk_facts(2) [OF assms(1) that] all that by simp
  have "loaded (csz hc) (ce_chunks hc) = ?f ` {..<length (ce_chunks hc)}"
    using all nth_mem unfolding loaded_nth by blast
  moreover have "inj_on ?f {..<length (ce_chunks hc)}"
  proof (rule inj_onI)
    fix i j assume ij: "i \<in> {..<length (ce_chunks hc)}" "j \<in> {..<length (ce_chunks hc)}" "?f i = ?f j"
    then have "unat (bstart (ce_chunks hc ! i)) = unat (bstart (ce_chunks hc ! j))" using mul [OF nth_mem] by (metis lessThan_iff)
    then have "bstart (ce_chunks hc ! i) = bstart (ce_chunks hc ! j)" by (simp add: word_unat_eq_iff)
    then show "i = j" using assms(1) all ij(1,2) by (auto simp: entry_ok_def apart_def)
  qed
  ultimately have c: "card (loaded (csz hc) (ce_chunks hc)) = length (ce_chunks hc)" by (simp add: card_image)
  have "unat b div csz hc \<notin> loaded (csz hc) (ce_chunks hc)"
  proof
    assume "unat b div csz hc \<in> loaded (csz hc) (ce_chunks hc)"
    then obtain ch where ch: "ch \<in> set (ce_chunks hc)" "unat (bstart ch) div csz hc = unat b div csz hc" by (auto simp: loaded_def)
    then have "unat (bstart ch) = unat b div csz hc * csz hc" using mul [OF ch(1)] by simp
    then show False using covers [OF dims(2) [OF assms(1)]] all ch(1) by blast
  qed
  then show False using assms(2) c by simp
qed

text \<open>Requests that stay in a chunk; a write needs a chunk whose end, counted from the beginning of the disk, has state bits before
  the data.\<close>

fun op_fits :: "'d cache_entry \<Rightarrow> cop \<Rightarrow> bool" where
  "op_fits hc (CRead b ofs n sz) = (n \<noteq> 0 \<and> fits hc b (ucast ofs) sz)"
| "op_fits hc (CWrite b ofs n bytes) = (n \<noteq> 0 \<and> length bytes < 2 ^ 32 \<and> fits hc b (ucast ofs) (of_nat (length bytes)) \<and>
     unat b div csz hc * csz hc + csz hc \<le> 4 * data_ofs hc)"
| "op_fits hc CFlush = True"

lemma frame_fits: "frame hc hc' \<Longrightarrow> op_fits hc' op = op_fits hc op"
  by (cases op) (simp_all add: frame_def fits_def left_in_chunk_def)

lemma call_ok:
  assumes "entry_ok hc" "all_idle hc" "mutex_idle (ev_clone e)" "op_fits hc op"
    "card (op_chunks (csz hc) op \<union> loaded (csz hc) (ce_chunks hc)) \<le> length (ce_chunks hc)"
  obtains r buf hc' where "cache_call e op hc = Some (r, buf, hc')" "disk_call (bsz hc) op (view hc) = ((r, buf), view hc')"
    "entry_ok hc'" "all_idle hc'" "frame hc hc'" "loaded (csz hc) (ce_chunks hc') = op_chunks (csz hc) op \<union> loaded (csz hc) (ce_chunks hc)"
proof (cases op)
  case (CRead b ofs n sz)
  have ub: "unat (ucast b :: u64) = unat b" "unat (ucast ofs :: u32) = unat ofs" "ucast (ucast b :: u64) = b" by (simp_all add: unat_up ucast_up_down)
  have p: "pick (chunk_size (cinfo hc)) (ucast b) (ce_chunks hc) \<noteq> None" using room_pick [OF assms(1)] assms(5) CRead ub(1) by simp
  have f: "fits hc b (ucast ofs) sz" "n \<noteq> 0" using assms(4) CRead by simp_all
  obtain hc' where r: "io_loop e False b n (ucast ofs) sz 0 0 (replicate (unat sz) 0) hc =
      Some (sz, map (view hc) [unat b * bsz hc + unat ofs..<unat b * bsz hc + unat ofs + unat sz], hc')"
    "entry_ok hc'" "all_idle hc'" "view hc' = view hc" "frame hc hc'"
    "loaded (csz hc) (ce_chunks hc') = insert (unat b div csz hc) (loaded (csz hc) (ce_chunks hc))"
    using io_read [OF assms(1-3) f _ p, of "replicate (unat sz) 0"] ub(2) by auto
  show thesis
    using r by (intro that [of sz "map (view hc) [unat b * bsz hc + unat ofs..<unat b * bsz hc + unat ofs + unat sz]" hc'])
      (simp_all add: CRead cache_ioctl_def cache_io_def Let_def ub(3))
next
  case (CWrite b ofs n bytes)
  have ub: "unat (ucast b :: u64) = unat b" "unat (ucast ofs :: u32) = unat ofs" "ucast (ucast b :: u64) = b" by (simp_all add: unat_up ucast_up_down)
  have p: "pick (chunk_size (cinfo hc)) (ucast b) (ce_chunks hc) \<noteq> None" using room_pick [OF assms(1)] assms(5) CWrite ub(1) by simp
  have f: "fits hc b (ucast ofs) (of_nat (length bytes))" "n \<noteq> 0" "unat (of_nat (length bytes) :: u32) = length bytes"
    "unat b div csz hc * csz hc + csz hc \<le> 4 * data_ofs hc" using assms(4) CWrite by simp_all
  have le: "unat (of_nat (length bytes) :: u32) \<le> length bytes" using f(3) by simp
  obtain hc' where r: "io_loop e True b n (ucast ofs) (of_nat (length bytes)) 0 0 bytes hc = Some (of_nat (length bytes), bytes, hc')"
    "entry_ok hc'" "all_idle hc'" "frame hc hc'"
    "view hc' = (\<lambda>a. if unat b * bsz hc + unat ofs \<le> a \<and> a < unat b * bsz hc + unat ofs + length bytes
       then bytes ! (a - (unat b * bsz hc + unat ofs)) else view hc a)"
    "loaded (csz hc) (ce_chunks hc') = insert (unat b div csz hc) (loaded (csz hc) (ce_chunks hc))"
    by (rule io_write [OF assms(1-3) f(1,2) le p f(4), unfolded ub(2) f(3)])
  show thesis
    using r by (intro that [of "of_nat (length bytes)" bytes hc'])
      (simp_all add: CWrite cache_ioctl_def cache_io_def Let_def CIOCTL_READ_def CIOCTL_WRITE_def ub(3))
next
  case CFlush
  obtain hc' where r: "cache_flush e hc = Some hc'" "flushed hc hc'" "all_idle hc'" using flush_ok [OF assms(1-3)] .
  show thesis using r by (intro that [of 0 "[]" hc']) (simp_all add: CFlush cache_ioctl_def flushed_def ioctl_defs)
qed

lemma calls_ok:
  assumes "entry_ok hc" "all_idle hc" "mutex_idle (ev_clone e)" "\<forall>op\<in>set ops. op_fits hc op"
    "card ((\<Union>op\<in>set ops. op_chunks (csz hc) op) \<union> loaded (csz hc) (ce_chunks hc)) \<le> length (ce_chunks hc)"
  shows "\<exists>rs hc'. cache_calls e ops hc = Some (rs, hc') \<and> disk_calls (bsz hc) ops (view hc) = (rs, view hc') \<and> entry_ok hc' \<and> all_idle hc' \<and> frame hc hc'"
  using assms
proof (induction ops arbitrary: hc)
  case (Cons op ops)
  have fin: "finite (op_chunks c op)" for c op by (cases op) simp_all
  let ?U = "(\<Union>op\<in>set ops. op_chunks (csz hc) op)" and ?L = "loaded (csz hc) (ce_chunks hc)"
  have "card (op_chunks (csz hc) op \<union> ?L) \<le> card ((\<Union>op\<in>set (op # ops). op_chunks (csz hc) op) \<union> ?L)"
    using fin by (intro card_mono) auto
  then have "card (op_chunks (csz hc) op \<union> ?L) \<le> length (ce_chunks hc)" using Cons.prems(5) by linarith
  then obtain r buf hc1 where c: "cache_call e op hc = Some (r, buf, hc1)" "disk_call (bsz hc) op (view hc) = ((r, buf), view hc1)"
    "entry_ok hc1" "all_idle hc1" "frame hc hc1" "loaded (csz hc) (ce_chunks hc1) = op_chunks (csz hc) op \<union> ?L"
    using call_ok [OF Cons.prems(1-3)] Cons.prems(4) by (metis list.set_intros(1))
  have fr: "csz hc1 = csz hc" "bsz hc1 = bsz hc" "length (ce_chunks hc1) = length (ce_chunks hc)" using c(5) by (simp_all add: frame_def)
  have "(\<Union>op\<in>set (op # ops). op_chunks (csz hc) op) \<union> ?L = ?U \<union> loaded (csz hc) (ce_chunks hc1)" using c(6) by auto
  then have card1: "card ((\<Union>op\<in>set ops. op_chunks (csz hc1) op) \<union> loaded (csz hc1) (ce_chunks hc1)) \<le> length (ce_chunks hc1)"
    using Cons.prems(5) fr by simp
  have fits1: "\<forall>op\<in>set ops. op_fits hc1 op" using frame_fits [OF c(5)] Cons.prems(4) by simp
  obtain rs hc2 where "cache_calls e ops hc1 = Some (rs, hc2)" "disk_calls (bsz hc) ops (view hc1) = (rs, view hc2)" "entry_ok hc2" "all_idle hc2" "frame hc1 hc2"
    using Cons.IH [OF c(3,4) Cons.prems(3) fits1 card1] fr(2) by auto
  then show ?case using c(1,2) frame_trans [OF c(5)] by auto
qed simp

end

end
