(* ===== verification/Cache_Faults.thy ===== *)
theory Cache_Faults
  imports Cache_IO
begin

text \<open>
  Limits of the block cache: what a full cache does, which state bits a write sets and which blocks a flush writes.
\<close>

section \<open>A full cache\<close>

text \<open>C24: a cache whose chunks are all present serves only the blocks they hold: a read or write of any other block moves no byte and leaves
  the chunks and the device as they were; no chunk is ever replaced.\<close>

theorem full_cache_serves_nothing:
  assumes "mutex_idle (ce_mutex hc)" "length (ce_chunks hc) = unat (num_chunks (cinfo hc))" "n \<noteq> 0" "bsize \<noteq> 0"
    "\<forall>ch\<in>set (ce_chunks hc). ucast (cstate ch) AND CBSTATE_PRESENT \<noteq> 0 \<and>
       \<not> (ucast (ucast (bstart ch) :: u32) \<le> (ucast (ucast b :: u32) :: u64) \<and>
          (ucast (ucast b :: u32) :: u64) < ucast (ucast (bstart ch + ucast (chunk_size (cinfo hc))) :: u32))"
  shows "\<exists>hc'. cache_io e write b boffset n bsize buf hc = Some (0, buf, hc') \<and> cinfo hc' = cinfo hc \<and>
    map (\<lambda>ch. (bstart ch, cstate ch, bcount ch, ch_mem ch)) (ce_chunks hc') = map (\<lambda>ch. (bstart ch, cstate ch, bcount ch, ch_mem ch)) (ce_chunks hc)"
proof -
  let ?b = "ucast (ucast b :: u32) :: u64"
  have "pick (chunk_size (cinfo hc)) ?b (ce_chunks hc) = None"
    using assms(5) by (auto simp: pick_def find_None_iff hit_def present_def split: option.splits)
  then obtain hc' where s: "select_chunk e hc ?b 0 = Some (None, hc')" "same hc hc'"
    using select_chunk_pick [OF assms(1,2), of e ?b 0] by metis
  have "cache_io e write b boffset n bsize buf hc = Some (0, buf, hc')"
    unfolding cache_io_def by (subst io_loop.simps) (simp add: cache_buffer_lock_def s(1) assms(3,4))
  then show ?thesis using s(2) by (auto simp: same_def core_def [abs_def])
qed

text \<open>A cache of one chunk of 64 blocks that holds the first of them.\<close>

definition one_chunk :: "'d ccb \<Rightarrow> 'd \<Rightarrow> 2 word \<Rightarrow> u8 list \<Rightarrow> 'd cache_entry" where
  "one_chunk cb d st m = \<lparr>ce_handle = 48, cinfo = \<lparr>block_size = 512, chunk_size = 64, num_chunks = 1, p_ccb = cb, ci_udata = d\<rparr>, p_fhdr = 4096,
     ce_chunks = [\<lparr>bstart = 0, cstate = st, bcount = 64, tstamp = 0, p_mutex = None, ch_mem = m\<rparr>], mem_sz = 33792, chunk_sz = 33792, hdr_size = 1024,
     ce_mutex = None\<rparr>"

theorem full_cache_serves_nothing_witness:
  "\<exists>hc'. cache_io \<lparr>ev_sched = \<lparr>blender_running = False, blender_cpu = False, has_cpu = False\<rparr>, ev_stamp = None, ev_clone = None\<rparr>
     False 64 0 1 512 (replicate 512 0) (one_chunk (\<lambda>_ _ _ n buf d. Some (n, buf, d)) () 1 (replicate 33764 0)) = Some (0, replicate 512 0, hc')"
proof -
  have b: "ucast (ucast (64 :: u64) :: u32) = (64 :: u64)" by simp
  have "\<forall>ch\<in>set (ce_chunks (one_chunk (\<lambda>_ _ _ n buf d. Some (n, buf, d)) () 1 (replicate 33764 0))). ucast (cstate ch) AND CBSTATE_PRESENT \<noteq> 0 \<and>
       \<not> (ucast (ucast (bstart ch) :: u32) \<le> (ucast (ucast (64 :: u64) :: u32) :: u64) \<and>
          (ucast (ucast (64 :: u64) :: u32) :: u64) <
            ucast (ucast (bstart ch + ucast (chunk_size (cinfo (one_chunk (\<lambda>_ _ _ n buf d. Some (n :: u32, buf :: u8 list, d)) () 1 (replicate 33764 0))))) :: u32))"
    by (simp add: one_chunk_def CBSTATE_PRESENT_def)
  then show ?thesis
    using full_cache_serves_nothing [of "one_chunk (\<lambda>_ _ _ n buf d. Some (n, buf, d)) () 1 (replicate 33764 0)" 1 512 64
        "\<lparr>ev_sched = \<lparr>blender_running = False, blender_cpu = False, has_cpu = False\<rparr>, ev_stamp = None, ev_clone = None\<rparr>" False 0 "replicate 512 0"]
    by (auto simp: one_chunk_def mutex_idle_def)
qed

section \<open>State bits\<close>

text \<open>Whatever the block, the state read is that of the first of its four blocks.\<close>

lemma get_bstate_first:
  assumes "bstart ch \<le> b" "b < bstart ch + ucast (bcount ch)" "unat (ucast (b - bstart ch) div 4 :: u32) < length (ch_mem ch)"
  shows "get_bstate ch b = Some (drop_bit 6 (ch_mem ch ! unat (ucast (b - bstart ch) div 4 :: u32)))"
proof -
  let ?o = "ucast (b - bstart ch) :: u32" and ?x = "ch_mem ch ! unat (ucast (b - bstart ch) div 4 :: u32)"
  have "unat (?o mod 4) < 4" by (simp add: unat_mod)
  then have "unat (?o mod 4) \<in> {0, 1, 2, 3}" by auto
  then have "push_bit (unat (?o mod 4) * 2) (drop_bit (unat (?o mod 4) * 2) 0xc0) = (0xc0 :: u32)" by auto
  moreover have "ucast (drop_bit 6 (ucast ?x AND 0xc0 :: u32)) = drop_bit 6 ?x"
  proof (rule bit_word_eqI)
    fix n assume "n < LENGTH(8)"
    then show "bit (ucast (drop_bit 6 (ucast ?x AND 0xc0 :: u32)) :: u8) n = bit (drop_bit 6 ?x) n"
      using bit_imp_le_length [of ?x "6 + n"] by (auto simp: bit_simps numeral_eq_Suc less_Suc_eq)
  qed
  ultimately show ?thesis using assms by (simp add: get_bstate_def Let_def)
qed

text \<open>Marking blocks present and dirty sets both bits of each of them, and clears none.\<close>

lemma mark_byte_both:
  assumes "t < 8"
  shows "bit (mark_byte 3 offset x) t \<longleftrightarrow> bit x t \<or> t = 7 - 2 * unat (offset mod 4) \<or> t = 6 - 2 * unat (offset mod 4)"
proof -
  have "unat (offset mod 4) < 4" by (simp add: unat_mod)
  then consider "unat (offset mod 4) = 0" | "unat (offset mod 4) = 1" | "unat (offset mod 4) = 2" | "unat (offset mod 4) = 3" by linarith
  then show ?thesis using assms
    by cases (auto simp: mark_byte_def Let_def CBSTATE_DIRTY_def CBSTATE_PRESENT_def bit_simps numeral_eq_Suc less_Suc_eq)
qed

lemma mark_loop_both:
  assumes "mark_loop start bs 3 n m = Some m'" "unat (bs - start) + n < 2 ^ 32"
  shows "(\<forall>k t. bit (m ! k) t \<longrightarrow> t < 8 \<longrightarrow> k < length m \<longrightarrow> bit (m' ! k) t) \<and> length m' = length m \<and>
    (\<forall>j t. unat (bs - start) \<le> j \<longrightarrow> j < unat (bs - start) + n \<longrightarrow> t = 7 - 2 * (j mod 4) \<or> t = 6 - 2 * (j mod 4) \<longrightarrow> bit (m' ! (j div 4)) t)"
  using assms
proof (induction n arbitrary: bs m)
  case (Suc n)
  let ?o = "ucast (bs - start) :: u32" and ?a = "unat (bs - start)"
  have o: "unat ?o = ?a" using Suc.prems(2) by (intro unat_down) simp
  have i: "unat (?o div 4) = ?a div 4" "unat (?o mod 4) = ?a mod 4" using o by (simp_all add: unat_div unat_mod)
  have "bs + 1 - start = bs - start + 1" by simp
  then have s: "unat (bs + 1 - start) = ?a + 1" using Suc.prems(2) unat_next [of "bs - start"] by (simp only:) simp
  let ?m = "m[?a div 4 := mark_byte 3 ?o (m ! (?a div 4))]"
  have l: "?a div 4 < length m" and r: "mark_loop start (bs + 1) 3 n ?m = Some m'"
    using Suc.prems(1) i(1) by (simp_all add: Let_def split: if_splits)
  have IH: "(\<forall>k t. bit (?m ! k) t \<longrightarrow> t < 8 \<longrightarrow> k < length m \<longrightarrow> bit (m' ! k) t) \<and> length m' = length m \<and>
      (\<forall>j t. ?a + 1 \<le> j \<longrightarrow> j < ?a + 1 + n \<longrightarrow> t = 7 - 2 * (j mod 4) \<or> t = 6 - 2 * (j mod 4) \<longrightarrow> bit (m' ! (j div 4)) t)"
    using Suc.IH [OF r] Suc.prems(2) s by simp
  have up: "bit (m ! k) t \<Longrightarrow> t < 8 \<Longrightarrow> k < length m \<Longrightarrow> bit (?m ! k) t" for k t
    using mark_byte_both [of t ?o "m ! (?a div 4)"] by (cases "k = ?a div 4") simp_all
  have new: "bit (m' ! (?a div 4)) t" if "t = 7 - 2 * (?a mod 4) \<or> t = 6 - 2 * (?a mod 4)" for t
  proof -
    have "t < 8" using that by auto
    moreover from this have "bit (?m ! (?a div 4)) t" using that l i(2) mark_byte_both [of t ?o "m ! (?a div 4)"] by simp
    ultimately show ?thesis using IH l by blast
  qed
  have "bit (m' ! (j div 4)) t" if "?a \<le> j" "j < ?a + Suc n" "t = 7 - 2 * (j mod 4) \<or> t = 6 - 2 * (j mod 4)" for j t
  proof (cases "j = ?a")
    case True
    then show ?thesis using new that(3) by blast
  next
    case False
    then have "?a + 1 \<le> j" "j < ?a + 1 + n" using that(1,2) by simp_all
    then show ?thesis using IH that(3) by blast
  qed
  then show ?case using IH up by blast
qed simp

text \<open>C23: a write marks too many blocks as dirty. From its first block on, \<open>get_chunk_buffer\<close> counts up to the end of the chunk as a block number of the
  disk, not of the chunk, and the bits of these blocks run into the data: byte \<open>j\<close> of the first blocks of the chunk becomes 0xff although
  nobody wrote it, for a chunk that ends behind block \<open>4 * (data_ofs + j)\<close> of the disk.\<close>

theorem write_marks_overwrite_data:
  assumes "unat (bstart ch) + unat (chunk_size (cinfo hc)) < 2 ^ 32" "bstart ch \<le> b" "b < bstart ch + ucast (bcount ch)"
    "unat (bcount ch) \<le> unat (chunk_size (cinfo hc))" "unat (bstart ch) + unat (chunk_size (cinfo hc)) \<le> 4 * length (ch_mem ch)"
    "unat (b - bstart ch) \<le> 4 * (data_ofs hc + j)" "4 * (data_ofs hc + j) + 4 \<le> unat (bstart ch) + unat (chunk_size (cinfo hc))"
  shows "\<exists>ch'. set_bstate ch b (snd (get_chunk_buffer hc ch b)) (CBSTATE_PRESENT OR CBSTATE_DIRTY) = Some ch' \<and> ch_mem ch' ! (data_ofs hc + j) = 0xff"
proof -
  let ?cs = "unat (chunk_size (cinfo hc))" and ?a = "unat (b - bstart ch)" and ?e = "unat (bstart ch) + unat (chunk_size (cinfo hc))" and ?k = "data_ofs hc + j"
  have bc: "unat (ucast (bcount ch) :: u64) = unat (bcount ch)" "unat (ucast (bcount ch) :: u32) = unat (bcount ch)"
    by (simp_all add: unsigned_ucast_eq take_bit_nat_eq_self less_le_trans [OF unsigned_less])
  have "unat (bstart ch + ucast (bcount ch)) = unat (bstart ch) + unat (bcount ch)" using assms(1,4) bc by (simp add: unat_word_ariths)
  then have b: "unat (bstart ch) \<le> unat b" "unat b < unat (bstart ch) + unat (bcount ch)" using assms(2,3) by (simp_all add: word_le_nat_alt word_less_nat_alt)
  then have a: "?a = unat b - unat (bstart ch)" "?a < unat (bcount ch)" by (simp_all add: unat_sub word_le_nat_alt)
  have e: "unat (ucast (bstart ch + ucast (ucast (chunk_size (cinfo hc)) :: u32)) :: u32) = ?e"
    using assms(1) by (subst unat_down) (simp_all add: unat_word_ariths unat_up)
  have c: "unat (ucast (b - bstart ch) :: u32) = ?a" using a(2) assms(1,4) by (intro unat_down) simp
  have n: "unat (snd (get_chunk_buffer hc ch b)) = ?e - ?a"
    using assms(2) b a assms(4) e c bc(2) unfolding get_chunk_buffer_def Let_def
    by (simp add: word_less_nat_alt unat_up) (simp add: unat_sub word_le_nat_alt)
  have m3: "CBSTATE_PRESENT OR CBSTATE_DIRTY = 3" by (simp add: CBSTATE_PRESENT_def CBSTATE_DIRTY_def)
  have ae: "?a + (?e - ?a) = ?e" using a(2) assms(4) by simp
  obtain m' where m: "mark_loop (bstart ch) b 3 (?e - ?a) (ch_mem ch) = Some m'"
    using mark_loop_ok [of b "bstart ch" "?e - ?a" "length (ch_mem ch)" "ch_mem ch" 3] assms(1,5) ae by auto
  have set: "bit (m' ! (q div 4)) t" if "?a \<le> q" "q < ?e" "t = 7 - 2 * (q mod 4) \<or> t = 6 - 2 * (q mod 4)" for q t
    using mark_loop_both [OF m] assms(1) that unfolding ae by blast
  have "m' ! ?k = 0xff"
  proof (rule bit_word_eqI)
    fix t assume "t < LENGTH(8)"
    then have t: "t < 8" by simp
    define k where "k = ?k"
    let ?q = "4 * k + (7 - t) div 2"
    have q: "?q div 4 = k" "?q mod 4 = (7 - t) div 2" by simp_all
    have "t = 7 - 2 * (?q mod 4) \<or> t = 6 - 2 * (?q mod 4)" using t unfolding q(2) by presburger
    then have "bit (m' ! ?k) t" using set [of ?q t] assms(6,7) t unfolding q(1) k_def [symmetric] by simp
    moreover have "bit (0xff :: u8) t" using t by (auto simp: numeral_eq_Suc less_Suc_eq)
    ultimately show "bit (m' ! ?k) t = bit (0xff :: u8) t" by simp
  qed
  then show ?thesis using m n assms(2,3) by (simp add: set_bstate_def m3)
qed

theorem write_marks_overwrite_data_witness:
  "\<exists>ch'. set_bstate \<lparr>bstart = 4032, cstate = 1, bcount = 64, tstamp = 0, p_mutex = None, ch_mem = replicate 33764 7\<rparr> 4040
     (snd (get_chunk_buffer (one_chunk (\<lambda>_ _ _ n buf d. Some (n, buf, d)) () 1 [])
       \<lparr>bstart = 4032, cstate = 1, bcount = 64, tstamp = 0, p_mutex = None, ch_mem = replicate 33764 7\<rparr> 4040)) (CBSTATE_PRESENT OR CBSTATE_DIRTY) = Some ch' \<and>
     ch_mem ch' ! 1001 = 0xff"
proof -
  have o: "data_ofs (one_chunk cb d st m) = 996" "chunk_size (cinfo (one_chunk cb d st m)) = 64" for cb d st m
    by (simp_all add: one_chunk_def data_ofs_def sizeof_chunk_hdr_def)
  show ?thesis
    using write_marks_overwrite_data [of "\<lparr>bstart = 4032, cstate = 1, bcount = 64, tstamp = 0, p_mutex = None, ch_mem = replicate 33764 7\<rparr>"
        "one_chunk (\<lambda>_ _ _ n buf d. Some (n, buf, d)) () 1 []" 4040 5] by (simp add: o)
qed

section \<open>Flushing\<close>

text \<open>The loop over blocks of one state.\<close>

lemma flush_step:
  assumes "i < length (ce_chunks hc)" "unat start + n < 2 ^ 64" "k < n" "get_bstate (ce_chunks hc ! i) (start + of_nat k) = Some st"
  shows "st = 3 \<Longrightarrow> flush_loop hc i start (start + of_nat n) (start + of_nat k) cs cnt =
      flush_loop hc i start (start + of_nat n) (start + of_nat (Suc k)) cs (cnt + 1)"
    and "st = 1 \<Longrightarrow> flush_loop hc i start (start + of_nat n) (start + of_nat k) cs 0 =
      flush_loop hc i start (start + of_nat n) (start + of_nat (Suc k)) (start + of_nat k) 0"
proof -
  have u: "unat (start + of_nat q) = unat start + q" if "q \<le> n" for q
    using that assms(2) by (simp add: unat_word_ariths unat_of_nat)
  have lt: "start \<le> start + of_nat k" "start + of_nat k < start + of_nat n"
    using u [of k] u [of n] assms(3) by (simp_all add: word_le_nat_alt word_less_nat_alt)
  have nx: "start + of_nat (Suc k) = start + of_nat k + 1" by simp
  show "st = 3 \<Longrightarrow> flush_loop hc i start (start + of_nat n) (start + of_nat k) cs cnt =
      flush_loop hc i start (start + of_nat n) (start + of_nat (Suc k)) cs (cnt + 1)"
    unfolding nx using lt assms(1,4)
    by (subst flush_loop.simps) (simp add: rd_chunk_def CBSTATE_DIRTY_def CBSTATE_PRESENT_def)
  show "st = 1 \<Longrightarrow> flush_loop hc i start (start + of_nat n) (start + of_nat k) cs 0 =
      flush_loop hc i start (start + of_nat n) (start + of_nat (Suc k)) (start + of_nat k) 0"
    unfolding nx using lt assms(1,4)
    by (subst flush_loop.simps) (simp add: rd_chunk_def CBSTATE_DIRTY_def CBSTATE_PRESENT_def)
qed

lemma flush_dirty_run:
  assumes "i < length (ce_chunks hc)" "unat start + n < 2 ^ 64" "k + m = n" "\<forall>l<m. get_bstate (ce_chunks hc ! i) (start + of_nat (k + l)) = Some 3"
  shows "flush_loop hc i start (start + of_nat n) (start + of_nat k) cs cnt = Some (cs, cnt + of_nat m, hc)"
  using assms(3,4)
proof (induction m arbitrary: k cnt)
  case 0
  then show ?case by (subst flush_loop.simps) simp
next
  case (Suc m)
  have st: "get_bstate (ce_chunks hc ! i) (start + of_nat k) = Some 3" using Suc.prems(2) [rule_format, of 0] by simp
  have "\<forall>l<m. get_bstate (ce_chunks hc ! i) (start + of_nat (Suc k + l)) = Some 3"
    using Suc.prems(2) by (simp only: add_Suc_shift) (metis Suc_less_eq)
  then have "flush_loop hc i start (start + of_nat n) (start + of_nat (Suc k)) cs (cnt + 1) = Some (cs, cnt + 1 + of_nat m, hc)"
    using Suc.prems(1) by (intro Suc.IH) simp_all
  moreover have "k < n" using Suc.prems(1) by simp
  ultimately show ?case using flush_step(1) [OF assms(1,2) _ st] by (simp only: of_nat_Suc add.assoc)
qed

lemma flush_clean_run:
  assumes "i < length (ce_chunks hc)" "unat start + n < 2 ^ 64" "k + Suc m < n" "\<forall>l<Suc m. get_bstate (ce_chunks hc ! i) (start + of_nat (k + l)) = Some 1"
  shows "flush_loop hc i start (start + of_nat n) (start + of_nat k) cs 0 =
    flush_loop hc i start (start + of_nat n) (start + of_nat (Suc (k + m))) (start + of_nat (k + m)) 0"
  using assms(3,4)
proof (induction m arbitrary: k cs)
  case 0
  then have "get_bstate (ce_chunks hc ! i) (start + of_nat k) = Some 1" "k < n" by simp_all
  then show ?case using flush_step(2) [OF assms(1,2)] by (simp only: add_0_right)
next
  case (Suc m)
  have st: "get_bstate (ce_chunks hc ! i) (start + of_nat k) = Some 1" using Suc.prems(2) [rule_format, of 0] by simp
  have "\<forall>l<Suc m. get_bstate (ce_chunks hc ! i) (start + of_nat (Suc k + l)) = Some 1"
    using Suc.prems(2) by (simp only: add_Suc_shift) (metis Suc_less_eq)
  then have "flush_loop hc i start (start + of_nat n) (start + of_nat (Suc k)) (start + of_nat k) 0 =
      flush_loop hc i start (start + of_nat n) (start + of_nat (Suc (Suc k + m))) (start + of_nat (Suc k + m)) 0"
    using Suc.prems(1) by (intro Suc.IH) simp_all
  moreover have "k < n" using Suc.prems(1) by simp
  ultimately show ?case using flush_step(2) [OF assms(1,2) _ st] by (simp only: add_Suc_shift)
qed

text \<open>C25: flushing a chunk whose first \<open>j\<close> blocks are clean and whose other blocks are dirty writes as many blocks as are dirty, but from the last
  clean block on, so the last block of the chunk does not reach the device; the chunk is clean afterwards.\<close>

theorem flush_misses_last_block:
  assumes "i < length (ce_chunks hc)" "ch = ce_chunks hc ! i" "ucast (cstate ch) AND CBSTATE_DIRTY \<noteq> 0" "unat (bstart ch) + unat (bcount ch) < 2 ^ 64"
    "0 < j" "j < unat (bcount ch)" "\<forall>k<unat (bcount ch). get_bstate ch (bstart ch + of_nat k) = Some (if k < j then 1 else 3)"
  shows "cache_flush_chunk hc i =
    do {
      hc \<leftarrow> flush_buffer hc i (bstart ch + of_nat (j - 1)) (of_nat (unat (bcount ch) - j));
      ch \<leftarrow> rd_chunk hc i;
      Some (wr_chunk i (ch\<lparr>cstate := cstate ch AND NOT (ucast CBSTATE_DIRTY)\<rparr>) hc)
    }"
proof -
  let ?n = "unat (bcount ch)"
  have e: "ucast (bcount ch) = (of_nat ?n :: u64)" by (simp add: word_unat_eq_iff unsigned_ucast_eq)
  obtain m where m: "j = Suc m" using assms(5) by (cases j) simp_all
  have "\<forall>l<Suc m. get_bstate (ce_chunks hc ! i) (bstart ch + of_nat (0 + l)) = Some 1" using assms(2,6,7) m by auto
  then have 1: "flush_loop hc i (bstart ch) (bstart ch + of_nat ?n) (bstart ch + of_nat 0) (bstart ch) 0 =
      flush_loop hc i (bstart ch) (bstart ch + of_nat ?n) (bstart ch + of_nat j) (bstart ch + of_nat (j - 1)) 0"
    using flush_clean_run [OF assms(1,4), of 0 m "bstart ch"] assms(6) m by simp
  have "\<forall>l<?n - j. get_bstate (ce_chunks hc ! i) (bstart ch + of_nat (j + l)) = Some 3"
    using assms(7) [rule_format, of "j + l" for l] unfolding assms(2) [symmetric] by simp
  then have 2: "flush_loop hc i (bstart ch) (bstart ch + of_nat ?n) (bstart ch + of_nat j) (bstart ch + of_nat (j - 1)) 0 =
      Some (bstart ch + of_nat (j - 1), of_nat (?n - j), hc)"
    using flush_dirty_run [OF assms(1,4), of j "?n - j"] assms(6) by simp
  have "?n < 2 ^ 30" using unsigned_less [of "bcount ch"] by simp
  then have "unat (of_nat (?n - j) :: u32) = ?n - j" by (subst unat_of_nat) (simp add: take_bit_nat_eq_self)
  then have nz: "(of_nat (?n - j) :: u32) \<noteq> 0" using assms(6) by (metis unat_0 zero_less_diff less_numeral_extra(3))
  have z: "bstart ch + of_nat 0 = bstart ch" by simp
  have "flush_loop hc i (bstart ch) (bstart ch + ucast (bcount ch)) (bstart ch) (bstart ch) 0 = Some (bstart ch + of_nat (j - 1), of_nat (?n - j), hc)"
    using 1 2 unfolding e z by (simp only:)
  then show ?thesis using nz assms(1,3) by (simp add: cache_flush_chunk_def rd_chunk_def assms(2) [symmetric])
qed

text \<open>A chunk whose blocks 4 to 63 are dirty, over a device that records the writes it gets.\<close>

definition marked_chunk :: "(u64 \<times> u32) list cache_entry" where
  "marked_chunk = one_chunk (\<lambda>_ _ b n buf d. Some (n, buf, d @ [(b, n)])) [] 3 (0x55 # replicate 33763 0xff)"

lemma marked_chunk_state:
  assumes "k < 64"
  shows "get_bstate (ce_chunks marked_chunk ! 0) (bstart (ce_chunks marked_chunk ! 0) + of_nat k) = Some (if k < 4 then 1 else 3)"
proof -
  let ?ch = "ce_chunks marked_chunk ! 0"
  have c: "bstart ?ch = 0" "bcount ?ch = 64" "ch_mem ?ch = 0x55 # replicate 33763 0xff" by (simp_all add: marked_chunk_def one_chunk_def)
  have "unat (of_nat k :: u64) = k" using assms by (simp add: unat_of_nat take_bit_nat_eq_self)
  then have u: "unat (ucast (bstart ?ch + of_nat k - bstart ?ch) div 4 :: u32) = k div 4" "bstart ?ch + of_nat k < bstart ?ch + ucast (bcount ?ch)"
    using assms by (simp_all add: c unat_div unat_down word_less_nat_alt)
  have "get_bstate ?ch (bstart ?ch + of_nat k) = Some (drop_bit 6 (ch_mem ?ch ! (k div 4)))"
    using get_bstate_first [of ?ch "bstart ?ch + of_nat k", unfolded u(1)] u(2) assms by (simp add: c)
  moreover have "ch_mem ?ch ! (k div 4) = (if k < 4 then 0x55 else 0xff)" using assms by (auto simp: c nth_Cons')
  ultimately show ?thesis by simp
qed

theorem flush_misses_last_block_witness: "\<exists>hc'. cache_flush_chunk marked_chunk 0 = Some hc' \<and> ci_udata (cinfo hc') = [(3, 60)]"
proof -
  let ?ch = "ce_chunks marked_chunk ! 0"
  have c: "bstart ?ch = 0" "unat (bcount ?ch) = 64" "cstate ?ch = 3" by (simp_all add: marked_chunk_def one_chunk_def)
  have "cache_flush_chunk marked_chunk 0 =
    do {
      hc \<leftarrow> flush_buffer marked_chunk 0 (bstart ?ch + of_nat (4 - 1)) (of_nat (unat (bcount ?ch) - 4));
      ch \<leftarrow> rd_chunk hc 0;
      Some (wr_chunk 0 (ch\<lparr>cstate := cstate ch AND NOT (ucast CBSTATE_DIRTY)\<rparr>) hc)
    }"
    by (rule flush_misses_last_block [OF _ refl]) (use marked_chunk_state c in \<open>simp_all add: CBSTATE_DIRTY_def marked_chunk_def one_chunk_def\<close>)
  moreover obtain hc1 where "flush_buffer marked_chunk 0 3 60 = Some hc1" "ce_chunks hc1 \<noteq> []" "ci_udata (cinfo hc1) = [(3, 60)]"
  proof -
    have m: "ch_mem ?ch = 0x55 # replicate 33763 0xff" "bcount ?ch = 64" by (simp_all add: marked_chunk_def one_chunk_def)
    have "unat (3 - bstart ?ch) + unat (60 :: u32) \<le> 4 * 16" "unat (3 - bstart ?ch) + unat (60 :: u32) < 2 ^ 32" "16 \<le> length (ch_mem ?ch)"
      by (simp_all add: c m)
    then obtain m' where "set_bstate ?ch 3 60 CBSTATE_PRESENT = Some (?ch\<lparr>ch_mem := m'\<rparr>)" by (rule set_bstate_ok)
    then show thesis using that
      by (simp add: flush_buffer_def ccb_call_def rd_chunk_def wr_chunk_def marked_chunk_def one_chunk_def)
  qed
  ultimately show ?thesis by (simp add: c rd_chunk_def wr_chunk_def)
qed

end
