(* ===== verification/Volume.thy ===== *)
theory Volume
  imports Cache_IO Ram_Disk
begin

text \<open>
  Volumes: the class cVolume of core/driver/bdev/volume.cpp over a block device (its host), a cache of \<open>Cache\<close> and, for a partition, the
  volume of the whole disk. The host and the parent volume are given by their operations. The cache's callback reaches the volume through
  \<open>p_udata\<close>, which is the volume itself; the model hands it the members it uses (\<open>vdev\<close>) at each request and takes the host back.

  The host keeps the volumes on it in slots (\<open>_d_node_\<close>), \<open>vol_nodes\<close> here: the volume of a whole disk registers a volume for each
  partition, and is attached to a slot of the host itself once its own \<open>driver_init\<close> has returned (\<open>Self\<close>). Looking for a volume,
  \<open>driver_request\<close> takes the mutex of every node it comes to; the mutexes of the host and of the partitions' volumes are taken to be
  free, the volume's own is modelled. \<open>register_part\<close> leaves out what registering a driver does beyond its slot: the vector of the driver
  tree, \<open>driver_init\<close> of the new volume (which neither scans nor allocates a cache, having a partition number), \<open>sys_update\<close> and the
  messages; so does the removal of a volume. The name of the volume is left out too. \<open>ncbuf\<close> is the memory of the pages for requests
  that bypass the cache.
\<close>

section \<open>State\<close>

definition VF_READONLY :: u8 where "VF_READONLY = 1"
definition VF_NOCACHE :: u8 where "VF_NOCACHE = 2"
definition VF_HOSTCTRL :: u8 where "VF_HOSTCTRL = 4"

definition DCLASS_CDROM :: u8 where "DCLASS_CDROM = 1"
definition DCLASS_HDD :: u8 where "DCLASS_HDD = 2"
definition DCLASS_FDD :: u8 where "DCLASS_FDD = 5"
definition DCLASS_RDD :: u8 where "DCLASS_RDD = 19"
definition DCLASS_UMS :: u8 where "DCLASS_UMS = 20"

record 'd host_if =
  h_ioctl :: "u32 \<Rightarrow> dio \<Rightarrow> 'd \<Rightarrow> (dio \<times> 'd) option"
  h_block_size :: "'d \<Rightarrow> u16"
  h_max_op_sectors :: "'d \<Rightarrow> u16"
  h_class :: "'d \<Rightarrow> u8"
  h_block_dev :: "'d \<Rightarrow> bool"

record 'p parent_if =
  pv_ioctl :: "u32 \<Rightarrow> dio \<Rightarrow> 'p \<Rightarrow> (dio \<times> 'p) option"
  pv_file_io :: "bool \<Rightarrow> u64 \<Rightarrow> u8 list \<Rightarrow> u32 \<Rightarrow> 'p \<Rightarrow> (u32 \<times> u8 list \<times> 'p) option"

text \<open>The volume of a partition in a slot of the host.\<close>

record pvol =
  pvol_pidx :: u8
  pvol_flags :: u8
  pvol_block_size :: u16
  pvol_offset :: u32
  pvol_size :: u32

text \<open>What a slot of the host holds: the volume of a partition, or the volume of the disk.\<close>

datatype node = Part pvol | Self

text \<open>What the repository and the heap have for a scan: memory, the driver tree and a new volume.\<close>

record scan_env =
  se_heap :: bool
  se_droot :: bool
  se_clone :: bool

record 'd vdev =
  vd_handle :: ptr
  vd_host :: 'd

record ('p, 'h, 'd) volume =
  vol_env :: sched_env
  vol_flags :: u8
  vol_pidx :: u8
  vol_block_size :: u16
  vol_offset :: u32
  vol_host :: 'd
  vol_parent :: "'p option"
  m_current_offset :: u64
  m_cache_handle :: ptr
  m_p_cache :: "('h, 'd vdev) cache option"
  vol_pma :: "pma option"
  m_p_ncbuf :: ptr
  ncbuf :: "u8 list"
  m_ncp_count :: u32
  m_io_enable :: bool
  m_io_lock :: u64
  vol_senv :: scan_env
  vol_nodes :: "node option list"
  vol_mutex :: "cmutex option"

section \<open>Locks and the host\<close>

definition vol_lock :: "u64 \<Rightarrow> ('p, 'h, 'd) volume \<Rightarrow> (u64 \<times> ('p, 'h, 'd) volume) option" where
  "vol_lock hlock v =
     (if vol_mutex v \<noteq> None
      then map_option (\<lambda>(r, m). (r, v\<lparr>vol_mutex := m\<rparr>)) (acquire_mutex (vol_env v) (vol_mutex v) hlock MUTEX_TIMEOUT_INFINITE)
      else Some (0, v))"

definition vol_unlock :: "u64 \<Rightarrow> ('p, 'h, 'd) volume \<Rightarrow> ('p, 'h, 'd) volume" where
  "vol_unlock hlock v = v\<lparr>vol_mutex := map_option (\<lambda>m. cMutex_unlock m hlock) (vol_mutex v)\<rparr>"

definition host_io :: "'d host_if \<Rightarrow> u32 \<Rightarrow> u64 \<Rightarrow> u32 \<Rightarrow> u8 list \<Rightarrow> 'd \<Rightarrow> (u32 \<times> u8 list \<times> 'd) option" where
  "host_io H cmd lba cnt buf d =
     do {
       (io, d) \<leftarrow> h_ioctl H cmd \<lparr>dio_buffer = buf, dio_size = cnt, dio_lba = lba, dio_result = cnt, dio_error = 0\<rparr> d;
       Some (dio_result io, dio_buffer io, d)
     }"

definition vol_cache_ioctl :: "'d host_if \<Rightarrow> 'd vdev ccb" where
  "vol_cache_ioctl H cmd handle b n buf d =
     (if handle = vd_handle d \<and> (cmd = CIOCTL_READ \<or> cmd = CIOCTL_WRITE) then
        map_option (\<lambda>(r, buf, h). (r, buf, d\<lparr>vd_host := h\<rparr>))
          (host_io H (if cmd = CIOCTL_READ then DIOCTL_BREAD else DIOCTL_BWRITE) b n buf (vd_host d))
      else Some (0, buf, d))"

section \<open>The cache of a volume\<close>

definition cache_chunks :: "u8 \<Rightarrow> u16 option" where
  "cache_chunks cls =
     (if cls = DCLASS_HDD then Some 32 else if cls = DCLASS_CDROM then Some 16 else if cls = DCLASS_FDD then Some 16
      else if cls = DCLASS_RDD then Some 16 else if cls = DCLASS_UMS then Some 16 else None)"

definition vdev_of :: "('p, 'h, 'd) volume \<Rightarrow> 'd vdev" where
  "vdev_of v = \<lparr>vd_handle = m_cache_handle v, vd_host = vol_host v\<rparr>"

definition vol_cache_alloc :: "'d host_if \<Rightarrow> 'h heap_alloc \<Rightarrow> ('p, 'h, 'd) volume \<Rightarrow> (bool \<times> ('p, 'h, 'd) volume) option" where
  "vol_cache_alloc H halloc v =
     (if vol_flags v AND VF_NOCACHE = 0 then
        if m_cache_handle v = 0 then
          case m_p_cache v of
            None \<Rightarrow> Some (False, v)
          | Some c \<Rightarrow>
              do {
                n \<leftarrow> cache_chunks (h_class H (vol_host v));
                let ci = \<lparr>block_size = h_block_size H (vol_host v), chunk_size = h_max_op_sectors H (vol_host v), num_chunks = n,
                          p_ccb = vol_cache_ioctl H, ci_udata = vdev_of v\<rparr>;
                (h, c) \<leftarrow> cCache_alloc halloc ci c;
                Some (h \<noteq> 0, v\<lparr>m_cache_handle := h, m_p_cache := Some c\<rparr>)
              }
        else Some (True, v)
      else Some (False, v))"

text \<open>A request to the cache, whose callback sees the volume as it is.\<close>

definition bind_entry :: "('p, 'h, 'd) volume \<Rightarrow> 'd vdev cache_entry \<Rightarrow> 'd vdev cache_entry" where
  "bind_entry v e = e\<lparr>cinfo := (cinfo e)\<lparr>ci_udata := vdev_of v\<rparr>\<rparr>"

definition vol_cache_request ::
    "u32 \<Rightarrow> u64 \<Rightarrow> u16 \<Rightarrow> u32 \<Rightarrow> u32 \<Rightarrow> u8 list \<Rightarrow> ('p, 'h, 'd) volume \<Rightarrow> (u32 \<times> u8 list \<times> ('p, 'h, 'd) volume) option" where
  "vol_cache_request cmd b boffset n bsize buf v =
     do {
       c \<leftarrow> m_p_cache v;
       let h = m_cache_handle v;
       let c = c\<lparr>entries := (entries c)(h := map_option (bind_entry v) (entries c h))\<rparr>;
       (r, buf, c) \<leftarrow> cCache_ioctl cmd h b boffset n bsize buf c;
       let host = (case entries c h of None \<Rightarrow> vol_host v | Some e \<Rightarrow> vd_host (ci_udata (cinfo e)));
       Some (r, buf, v\<lparr>m_p_cache := Some c, vol_host := host\<rparr>)
     }"

section \<open>Block requests\<close>

text \<open>A write to block 0 is followed by \<open>scan\<close>, which itself reads block 0; a read never scans.\<close>

definition vol_direct_io ::
    "'d host_if \<Rightarrow> 'p parent_if \<Rightarrow> (('p, 'h, 'd) volume \<Rightarrow> ('p, 'h, 'd) volume option) \<Rightarrow>
     bool \<Rightarrow> u64 \<Rightarrow> u32 \<Rightarrow> u8 list \<Rightarrow> ('p, 'h, 'd) volume \<Rightarrow> (u32 \<times> u8 list \<times> ('p, 'h, 'd) volume) option" where
  "vol_direct_io H P scan write block cnt buf v =
     do {
       let io = \<lparr>dio_buffer = buf, dio_size = cnt, dio_lba = block + ucast (vol_offset v), dio_result = cnt, dio_error = 0\<rparr>;
       let cmd = (if write then DIOCTL_BWRITE else DIOCTL_BREAD);
       (io, v) \<leftarrow>
         (if vol_flags v AND VF_HOSTCTRL \<noteq> 0 then map_option (\<lambda>(io, d). (io, v\<lparr>vol_host := d\<rparr>)) (h_ioctl H cmd io (vol_host v))
          else case vol_parent v of
                 None \<Rightarrow> Some (io, v)
               | Some p \<Rightarrow> map_option (\<lambda>(io, p). (io, v\<lparr>vol_parent := Some p\<rparr>)) (pv_ioctl P cmd io p));
       v \<leftarrow> (if write \<and> block = 0 then scan v else Some v);
       Some (dio_result io, dio_buffer io, v)
     }"

definition vol_block_io ::
    "'d host_if \<Rightarrow> 'p parent_if \<Rightarrow> 'h heap_alloc \<Rightarrow> (('p, 'h, 'd) volume \<Rightarrow> ('p, 'h, 'd) volume option) \<Rightarrow>
     bool \<Rightarrow> u64 \<Rightarrow> u32 \<Rightarrow> u8 list \<Rightarrow> ('p, 'h, 'd) volume \<Rightarrow> (u32 \<times> u8 list \<times> ('p, 'h, 'd) volume) option" where
  "vol_block_io H P halloc scan write block cnt buf v =
     (if write \<and> vol_flags v AND VF_READONLY \<noteq> 0 then Some (0, buf, v)
      else if vol_flags v AND VF_NOCACHE \<noteq> 0 then vol_direct_io H P scan write block cnt buf v
      else
        do {
          (ok, v) \<leftarrow> vol_cache_alloc H halloc v;
          if \<not> ok then vol_direct_io H P scan write block cnt buf v
          else
            do {
              (bytes, buf, v) \<leftarrow>
                vol_cache_request (if write then CIOCTL_WRITE else CIOCTL_READ) (block + ucast (vol_offset v)) 0 cnt
                  (cnt * ucast (vol_block_size v)) buf v;
              if vol_block_size v = 0 then None
              else
                do {
                  let r = bytes div ucast (vol_block_size v) + (if bytes mod ucast (vol_block_size v) \<noteq> 0 then 1 else 0);
                  v \<leftarrow> (if write \<and> block = 0 then scan v else Some v);
                  Some (r, buf, v)
                }
            }
        })"

section \<open>Partitions\<close>

definition PT_OFFSET :: nat where "PT_OFFSET = 0x1be"
definition MAX_NODE_COUNT :: nat where "MAX_NODE_COUNT = 128"

text \<open>\<open>driver_request\<close> for the volume in slot \<open>idx\<close> of the host: it locks and unlocks every node on the way, up to the one it looks for,
  and all of them when the slot is empty. \<open>j\<close> is the slot of the first node.\<close>

fun visit_node :: "node \<Rightarrow> ('p, 'h, 'd) volume \<Rightarrow> ('p, 'h, 'd) volume option" where
  "visit_node (Part p) v = Some v"
| "visit_node Self v = do { (h, v) \<leftarrow> vol_lock 0 v; Some (vol_unlock h v) }"

fun request_slots :: "nat \<Rightarrow> nat \<Rightarrow> node option list \<Rightarrow> ('p, 'h, 'd) volume \<Rightarrow> (node option \<times> ('p, 'h, 'd) volume) option" where
  "request_slots idx j [] v = Some (None, v)"
| "request_slots idx j (None # ns) v = request_slots idx (j + 1) ns v"
| "request_slots idx j (Some nd # ns) v =
     do { v \<leftarrow> visit_node nd v; if j = idx then Some (Some nd, v) else request_slots idx (j + 1) ns v }"

definition driver_request :: "nat \<Rightarrow> ('p, 'h, 'd) volume \<Rightarrow> (node option \<times> ('p, 'h, 'd) volume) option" where
  "driver_request idx v = request_slots idx 0 (vol_nodes v) v"

text \<open>The loop of \<open>verify\<close> asks for slot \<open>idx\<close>, \<open>idx + 1\<close>, \<open>\<dots>\<close> until there is no volume; the slot behind the last has none, so one request more
  than there are slots is enough. \<open>i\<close> is the number of the partition, \<open>first\<close> and \<open>n\<close> its record in the partition table. Only a volume without
  a partition number scans, so its own slot is passed by.\<close>

fun verify_loop :: "u32 \<Rightarrow> u32 \<Rightarrow> u32 \<Rightarrow> nat \<Rightarrow> nat \<Rightarrow> ('p, 'h, 'd) volume \<Rightarrow> (bool \<times> ('p, 'h, 'd) volume) option" where
  "verify_loop i first n idx 0 v = Some (False, v)"
| "verify_loop i first n idx (Suc k) v =
     do {
       (nd, v) \<leftarrow> driver_request idx v;
       case nd of
         None \<Rightarrow> Some (False, v)
       | Some Self \<Rightarrow> verify_loop i first n (idx + 1) k v
       | Some (Part p) \<Rightarrow>
           if pvol_pidx p \<noteq> 0 \<and> ucast (pvol_pidx p) = i
           then Some (True, v\<lparr>vol_nodes := (vol_nodes v)[idx :=
                  if first \<noteq> 0 \<and> n \<noteq> 0 then Some (Part (p\<lparr>pvol_offset := first, pvol_size := n\<rparr>)) else None]\<rparr>)
           else verify_loop i first n (idx + 1) k v
     }"

definition vol_verify :: "u32 \<Rightarrow> u32 \<Rightarrow> u32 \<Rightarrow> ('p, 'h, 'd) volume \<Rightarrow> (bool \<times> ('p, 'h, 'd) volume) option" where
  "vol_verify i first n v =
     (if se_droot (vol_senv v) then verify_loop i first n 0 (length (vol_nodes v) + 1) v else Some (False, v))"

text \<open>\<open>driver_attach\<close>: the first slot that is free.\<close>

fun attach_node :: "node \<Rightarrow> node option list \<Rightarrow> node option list" where
  "attach_node p [] = []"
| "attach_node p (None # ns) = Some p # ns"
| "attach_node p (Some q # ns) = Some q # attach_node p ns"

definition register_part :: "'d host_if \<Rightarrow> u8 \<Rightarrow> u32 \<Rightarrow> u32 \<Rightarrow> ('p, 'h, 'd) volume \<Rightarrow> ('p, 'h, 'd) volume" where
  "register_part H i first n v =
     (if se_clone (vol_senv v) \<and> se_droot (vol_senv v) then
        let ns = (if vol_nodes v = [] \<and> se_heap (vol_senv v) then replicate MAX_NODE_COUNT None else vol_nodes v)
        in v\<lparr>vol_nodes := attach_node (Part \<lparr>pvol_pidx = i, pvol_flags = VF_NOCACHE, pvol_block_size = h_block_size H (vol_host v), pvol_offset = first,
             pvol_size = n\<rparr>) ns\<rparr>
      else v)"

definition rd_u32 :: "u8 list \<Rightarrow> nat \<Rightarrow> u32 option" where
  "rd_u32 m a = (if a + 4 \<le> length m then Some (word_rcat (rev (take 4 (drop a m)))) else None)"

text \<open>The records of the partition table from \<open>idx\<close> on.\<close>

fun scan_loop :: "'d host_if \<Rightarrow> u8 list \<Rightarrow> nat \<Rightarrow> nat \<Rightarrow> ('p, 'h, 'd) volume \<Rightarrow> ('p, 'h, 'd) volume option" where
  "scan_loop H mbr idx 0 v = Some v"
| "scan_loop H mbr idx (Suc k) v =
     do {
       first \<leftarrow> rd_u32 mbr (PT_OFFSET + 16 * idx + 8);
       n \<leftarrow> rd_u32 mbr (PT_OFFSET + 16 * idx + 12);
       (r, v) \<leftarrow> vol_verify (of_nat (idx + 1)) first n v;
       scan_loop H mbr (idx + 1) k (if \<not> r \<and> first \<noteq> 0 \<and> n \<noteq> 0 then register_part H (of_nat (idx + 1)) first n v else v)
     }"

text \<open>The loop that reads the first block; \<open>tmo\<close> is a byte that wraps when it is counted down from 0.\<close>

fun mbr_loop :: "(u8 list \<Rightarrow> 'v \<Rightarrow> (u32 \<times> u8 list \<times> 'v) option) \<Rightarrow> nat \<Rightarrow> u8 list \<Rightarrow> 'v \<Rightarrow> (u8 \<times> u8 list \<times> 'v) option" where
  "mbr_loop rd tmo mbr v =
     do {
       (r, mbr, v) \<leftarrow> rd mbr v;
       if r = 1 then Some (of_nat tmo, mbr, v)
       else case tmo of 0 \<Rightarrow> Some (255, mbr, v) | Suc tmo \<Rightarrow> mbr_loop rd tmo mbr v
     }"

definition vol_scan :: "'d host_if \<Rightarrow> 'p parent_if \<Rightarrow> 'h heap_alloc \<Rightarrow> ('p, 'h, 'd) volume \<Rightarrow> ('p, 'h, 'd) volume option" where
  "vol_scan H P halloc v =
     (if vol_pidx v = 0 \<and> h_class H (vol_host v) = DCLASS_HDD \<and> h_block_dev H (vol_host v) \<and> se_heap (vol_senv v) then
        do {
          (tmo, mbr, v) \<leftarrow> mbr_loop (vol_block_io H P halloc Some False 0 1) 3 (replicate (unat (h_block_size H (vol_host v))) 0) v;
          if tmo \<noteq> 0 then scan_loop H mbr 0 4 v else Some v
        }
      else Some v)"

section \<open>File requests\<close>

definition release_nc_io_buffer :: "('p, 'h, 'd) volume \<Rightarrow> ('p, 'h, 'd) volume option" where
  "release_nc_io_buffer v =
     (if m_p_ncbuf v \<noteq> 0 then
        case vol_pma v of
          None \<Rightarrow> Some v
        | Some s \<Rightarrow>
            do {
              (_, s) \<leftarrow> pma_free s (m_p_ncbuf v) (m_ncp_count v);
              Some (v\<lparr>vol_pma := Some s, m_p_ncbuf := 0, ncbuf := [], m_ncp_count := 0\<rparr>)
            }
      else Some v)"

text \<open>\<open>raw\<close> is what the memory at an address holds.\<close>

definition alloc_nc_io_buffer :: "'d host_if \<Rightarrow> (ptr \<Rightarrow> nat \<Rightarrow> u8 list) \<Rightarrow> u32 \<Rightarrow> ('p, 'h, 'd) volume \<Rightarrow> (bool \<times> ('p, 'h, 'd) volume) option" where
  "alloc_nc_io_buffer H raw nblocks v =
     (case vol_pma v of
        None \<Rightarrow> Some (False, v)
      | Some s \<Rightarrow>
          let pgsz = of_nat (pma.page_size s) :: u32; nbytes = nblocks * ucast (h_block_size H (vol_host v))
          in if pgsz = 0 then None
             else if pages_of nbytes pgsz > m_ncp_count v then
               do {
                 v \<leftarrow> release_nc_io_buffer v;
                 s \<leftarrow> vol_pma v;
                 (p, s) \<leftarrow> pma_alloc s (pages_of nbytes pgsz) RT_SYSTEM DEFAULT_PMA_LIMIT;
                 let v = v\<lparr>vol_pma := Some s, m_p_ncbuf := p\<rparr>;
                 Some (p \<noteq> 0, if p \<noteq> 0 then v\<lparr>ncbuf := raw p (unat (pages_of nbytes pgsz) * unat pgsz), m_ncp_count := pages_of nbytes pgsz\<rparr> else v)
               }
             else Some (m_p_ncbuf v \<noteq> 0, v))"

text \<open>The loops of a request that bypasses the cache: \<open>pos\<close> is the place of \<open>ptr\<close> in the buffer.\<close>

partial_function (option) nc_read_loop ::
    "'d host_if \<Rightarrow> u32 \<Rightarrow> u64 \<Rightarrow> u32 \<Rightarrow> nat \<Rightarrow> ('p, 'h, 'd) volume \<Rightarrow> (nat \<times> ('p, 'h, 'd) volume) option" where
  "nc_read_loop H block bend nblocks pos v =
     (if ucast block < bend then
        do {
          (nb, buf, d) \<leftarrow> host_io H DIOCTL_BREAD (ucast block) nblocks (drop pos (ncbuf v)) (vol_host v);
          nc_read_loop H (block + nb) bend nblocks (pos + unat (nb * ucast (h_block_size H d))) (v\<lparr>ncbuf := take pos (ncbuf v) @ buf, vol_host := d\<rparr>)
        }
      else Some (pos, v))"

partial_function (option) nc_write_loop ::
    "'d host_if \<Rightarrow> u32 \<Rightarrow> u64 \<Rightarrow> u32 \<Rightarrow> nat \<Rightarrow> u32 \<Rightarrow> ('p, 'h, 'd) volume \<Rightarrow> (u32 \<times> ('p, 'h, 'd) volume) option" where
  "nc_write_loop H block bend nblocks pos r v =
     (if ucast block < bend then
        do {
          (nb, buf, d) \<leftarrow> host_io H DIOCTL_BWRITE (ucast block) nblocks (drop pos (ncbuf v)) (vol_host v);
          let n = nb * ucast (h_block_size H d);
          nc_write_loop H (block + nb) bend nblocks (pos + unat n) (r + n) (v\<lparr>ncbuf := take pos (ncbuf v) @ buf, vol_host := d\<rparr>)
        }
      else Some (r, v))"

definition nc_file_io ::
    "'d host_if \<Rightarrow> (ptr \<Rightarrow> nat \<Rightarrow> u8 list) \<Rightarrow> bool \<Rightarrow> u64 \<Rightarrow> u16 \<Rightarrow> u32 \<Rightarrow> u8 list \<Rightarrow> u32 \<Rightarrow> ('p, 'h, 'd) volume \<Rightarrow>
     (u32 \<times> u8 list \<times> ('p, 'h, 'd) volume) option" where
  "nc_file_io H raw write fblock fboffset nblocks buf sz v =
     do {
       (hlock, v) \<leftarrow> vol_lock (m_io_lock v) v;
       (ok, v) \<leftarrow> alloc_nc_io_buffer H raw nblocks v;
       (r, buf, v) \<leftarrow>
         (if ok then
            do {
              (pos, v) \<leftarrow> nc_read_loop H (ucast fblock) (fblock + ucast nblocks) nblocks 0 v;
              if \<not> write then map_option (\<lambda>buf. (sz, buf, v)) (cpy_bytes buf 0 (ncbuf v) (unat fboffset) (unat sz))
              else
                do {
                  m \<leftarrow> cpy_bytes (ncbuf v) (unat fboffset) buf 0 (unat sz);
                  (r, v) \<leftarrow> nc_write_loop H 0 (fblock + ucast nblocks) nblocks pos 0 (v\<lparr>ncbuf := m\<rparr>);
                  Some (r, buf, v)
                }
            }
          else Some (0, buf, v));
       Some (r, buf, vol_unlock hlock v)
     }"

text \<open>Blocks, offset on the host, first block and offset in it of a file request.\<close>

definition vol_calc_offset :: "u16 \<Rightarrow> u32 \<Rightarrow> u64 \<Rightarrow> u32 \<Rightarrow> (u32 \<times> u64 \<times> u64 \<times> u16) option" where
  "vol_calc_offset bs vofs offset sz =
     (if bs = 0 then None
      else
        let nblocks = sz div ucast bs + (if sz mod ucast bs \<noteq> 0 then 1 else 0);
            voffset = offset + ucast (vofs * ucast bs)
        in Some (nblocks, voffset, voffset div ucast bs, ucast (voffset mod ucast bs)))"

definition vol_file_io ::
    "'d host_if \<Rightarrow> 'p parent_if \<Rightarrow> 'h heap_alloc \<Rightarrow> (ptr \<Rightarrow> nat \<Rightarrow> u8 list) \<Rightarrow> bool \<Rightarrow> u64 \<Rightarrow> u8 list \<Rightarrow> u32 \<Rightarrow> ('p, 'h, 'd) volume \<Rightarrow> (u32 \<times> u8 list \<times> ('p, 'h, 'd) volume) option" where
  "vol_file_io H P halloc raw write offset buf sz v =
     (if write \<and> vol_flags v AND VF_READONLY \<noteq> 0 then Some (0, buf, v)
      else
        do {
          (nblocks, voffset, fblock, fboffset) \<leftarrow> vol_calc_offset (h_block_size H (vol_host v)) (vol_offset v) offset sz;
          if vol_flags v AND VF_NOCACHE = 0 then
            do {
              (ok, v) \<leftarrow> vol_cache_alloc H halloc v;
              if ok then
                do {
                  (r, buf, v) \<leftarrow> vol_cache_request (if write then CIOCTL_WRITE else CIOCTL_READ) fblock fboffset nblocks sz buf v;
                  v \<leftarrow> (if r \<noteq> 0 \<and> write \<and> fblock = 0 then vol_scan H P halloc v else Some v);
                  Some (r, buf, v)
                }
              else Some (0, buf, v)
            }
          else
            case vol_parent v of
              Some p \<Rightarrow> map_option (\<lambda>(r, buf, p). (r, buf, v\<lparr>vol_parent := Some p\<rparr>)) (pv_file_io P write voffset buf sz p)
            | None \<Rightarrow> nc_file_io H raw write fblock fboffset nblocks buf sz v
        })"

definition vol_seek :: "u64 \<Rightarrow> ('p, 'h, 'd) volume \<Rightarrow> ('p, 'h, 'd) volume" where
  "vol_seek offset v = v\<lparr>m_current_offset := offset\<rparr>"

definition vol_serial_io ::
    "'d host_if \<Rightarrow> 'p parent_if \<Rightarrow> 'h heap_alloc \<Rightarrow> (ptr \<Rightarrow> nat \<Rightarrow> u8 list) \<Rightarrow> bool \<Rightarrow> u8 list \<Rightarrow> u32 \<Rightarrow> ('p, 'h, 'd) volume \<Rightarrow> (u32 \<times> u8 list \<times> ('p, 'h, 'd) volume) option" where
  "vol_serial_io H P halloc raw write buf sz v =
     do {
       (r, buf, v) \<leftarrow> vol_file_io H P halloc raw write (m_current_offset v) buf sz v;
       Some (r, buf, v\<lparr>m_current_offset := m_current_offset v + ucast r\<rparr>)
     }"

section \<open>Driver operations\<close>

definition vol_driver_ioctl ::
    "'d host_if \<Rightarrow> 'p parent_if \<Rightarrow> 'h heap_alloc \<Rightarrow> (ptr \<Rightarrow> nat \<Rightarrow> u8 list) \<Rightarrow>
     u32 \<Rightarrow> dio \<Rightarrow> ('p, 'h, 'd) volume \<Rightarrow> (dio \<times> ('p, 'h, 'd) volume) option" where
  "vol_driver_ioctl H P halloc raw cmd io v =
     do {
       (h, v) \<leftarrow> vol_lock (m_io_lock v) v;
       let v = v\<lparr>m_io_lock := h\<rparr>;
       let io = io\<lparr>dio_result := 0, dio_error := 0\<rparr>;
       let reply = (\<lambda>x. map_option (\<lambda>(r, buf, v). (io\<lparr>dio_result := r, dio_buffer := buf\<rparr>, v)) x);
       (io, v) \<leftarrow>
         (if m_io_enable v then
            if cmd = DIOCTL_FSEEK then Some (io, vol_seek (dio_lba io) v)
            else if cmd = DIOCTL_SREAD then reply (vol_serial_io H P halloc raw False (dio_buffer io) (dio_size io) v)
            else if cmd = DIOCTL_SWRITE then reply (vol_serial_io H P halloc raw True (dio_buffer io) (dio_size io) v)
            else if cmd = DIOCTL_BREAD then reply (vol_block_io H P halloc (vol_scan H P halloc) False (dio_lba io) (dio_result io) (dio_buffer io) v)
            else if cmd = DIOCTL_BWRITE then reply (vol_block_io H P halloc (vol_scan H P halloc) True (dio_lba io) (dio_result io) (dio_buffer io) v)
            else if cmd = DIOCTL_FREAD then reply (vol_file_io H P halloc raw False (dio_lba io) (dio_buffer io) (dio_size io) v)
            else if cmd = DIOCTL_FWRITE then reply (vol_file_io H P halloc raw True (dio_lba io) (dio_buffer io) (dio_size io) v)
            else Some (io\<lparr>dio_error := DIOCTL_ERRCMD\<rparr>, v)
          else Some (io, v));
       Some (io, vol_unlock (m_io_lock v) v)
     }"

definition vol_driver_init ::
    "'d host_if \<Rightarrow> 'p parent_if \<Rightarrow> 'h heap_alloc \<Rightarrow> 'd option \<Rightarrow> ('p, 'h, 'd) volume \<Rightarrow>
     (bool \<times> ('p, 'h, 'd) volume) option" where
  "vol_driver_init H P halloc host v =
     (case host of
        None \<Rightarrow> Some (False, v)
      | Some d \<Rightarrow>
          do {
            let v = v\<lparr>vol_host := d, vol_block_size := h_block_size H d\<rparr>;
            let cls = h_class H d;
            v \<leftarrow> (if cls = DCLASS_HDD \<or> cls = DCLASS_UMS
                  then vol_scan H P halloc (if vol_pidx v \<noteq> 0 then v\<lparr>vol_flags := vol_flags v OR VF_NOCACHE\<rparr> else v)
                  else if cls = DCLASS_CDROM then Some (v\<lparr>vol_flags := vol_flags v OR VF_READONLY\<rparr>) else Some v);
            (_, v) \<leftarrow> vol_cache_alloc H halloc v;
            Some (True, v\<lparr>m_io_enable := True\<rparr>)
          })"

definition vol_driver_uninit :: "'h heap_free \<Rightarrow> ('p, 'h, 'd) volume \<Rightarrow> ('p, 'h, 'd) volume option" where
  "vol_driver_uninit hfree v =
     do {
       v \<leftarrow>
         (if m_cache_handle v \<noteq> 0 then
            case m_p_cache v of
              None \<Rightarrow> Some v
            | Some c \<Rightarrow>
                let h = m_cache_handle v; c = c\<lparr>entries := (entries c)(h := map_option (bind_entry v) (entries c h))\<rparr>
                in map_option (\<lambda>c. v\<lparr>m_p_cache := Some c, m_cache_handle := 0\<rparr>) (cCache_free hfree h c)
          else Some v);
       release_nc_io_buffer v
     }"

definition vol_msg_uninit :: "bool \<Rightarrow> ('p, 'h, 'd) volume \<Rightarrow> ('p, 'h, 'd) volume option" where
  "vol_msg_uninit this_driver v =
     (if this_driver then do { (h, v) \<leftarrow> vol_lock 0 v; Some (vol_unlock h (v\<lparr>m_io_enable := False\<rparr>)) } else Some v)"

end
