(* ===== verification/Volume_IO.thy ===== *)
theory Volume_IO
  imports Volume
begin

text \<open>
  What volumes do: the cache over a volume over a RAM disk refines a flat disk, and the partition table gives the volumes of the partitions.
\<close>

section \<open>The RAM disk as the host of a volume\<close>

definition ramd_if :: "ramd host_if" where
  "ramd_if = \<lparr>h_ioctl = ramd_ioctl, h_block_size = rd_block_size, h_max_op_sectors = rd_max_op_sectors, h_class = \<lambda>_. DCLASS_RDD,
     h_block_dev = \<lambda>_. True\<rparr>"

definition ramd_inv :: "ptr \<Rightarrow> nat \<Rightarrow> ramd vdev \<Rightarrow> bool" where
  "ramd_inv h bs d \<longleftrightarrow> vd_handle d = h \<and> ramd_ok (vd_host d) \<and> unat (rd_block_size (vd_host d)) = bs"

definition ramd_byte :: "ramd vdev \<Rightarrow> nat \<Rightarrow> u8" where
  "ramd_byte d a = (if a < length (rd_mem (vd_host d)) then rd_mem (vd_host d) ! a else 0)"

definition ramd_blocks :: "ramd vdev \<Rightarrow> nat" where
  "ramd_blocks d = unat (rd_dev_size (vd_host d))"

lemma ramd_cb:
  "vd_handle d = h \<Longrightarrow> vol_cache_ioctl ramd_if (if wr then CIOCTL_WRITE else CIOCTL_READ) h b n buf d =
     map_option (\<lambda>(r, buf, x). (r, buf, d\<lparr>vd_host := x\<rparr>)) (ramd_transfer wr b n buf (vd_host d))"
  by (auto simp: vol_cache_ioctl_def host_io_def ramd_if_def ramd_ioctl_def ioctl_defs split: option.splits bind_splits)

lemma ramd_read_law:
  assumes "ramd_inv h bs d" "unat b < ramd_blocks d" "unat n * bs \<le> length buf" "unat n * bs < 2 ^ 32"
  shows "\<exists>buf' d'. vol_cache_ioctl ramd_if CIOCTL_READ h b n buf d = Some (of_nat (min (unat n) (ramd_blocks d - unat b)), buf', d') \<and>
    ramd_inv h bs d' \<and> ramd_blocks d' = ramd_blocks d \<and> ramd_byte d' = ramd_byte d \<and> length buf' = length buf \<and>
    (\<forall>i<min (unat n) (ramd_blocks d - unat b) * bs. buf' ! i = ramd_byte d (unat b * bs + i))"
proof -
  let ?x = "vd_host d" and ?r = "min (unat n) (ramd_blocks d - unat b)"
  have x: "vd_handle d = h" "ramd_ok ?x" "unat (rd_block_size ?x) = bs" using assms(1) by (simp_all add: ramd_inv_def)
  have p: "unat b < unat (rd_dev_size ?x)" "unat n * unat (rd_block_size ?x) \<le> length buf" "unat n * unat (rd_block_size ?x) < 2 ^ 32"
    using assms(2-4) x(3) by (simp_all add: ramd_blocks_def)
  obtain buf' x' mem' m where t: "ramd_transfer False b n buf ?x = Some (of_nat ?r, buf', x')" "ramd_ok x'" "x' = ?x\<lparr>rd_mem := mem', rd_mutex := m\<rparr>"
    "mem' = rd_mem ?x \<and> cpy_bytes buf 0 (rd_mem ?x) (unat b * bs) (?r * bs) = Some buf'"
    by (rule ramd_transfer_ok [OF x(2) p, where wr = False, unfolded x(3) if_False, folded ramd_blocks_def])
  then have c: "cpy_bytes buf 0 (rd_mem ?x) (unat b * bs) (?r * bs) = Some buf'" by simp
  then have cb: "unat b * bs + ?r * bs \<le> length (rd_mem ?x)" "?r * bs \<le> length buf" by (auto simp: cpy_bytes_def split: if_splits)
  have "buf' ! i = ramd_byte d (unat b * bs + i)" if "i < ?r * bs" for i
    using that cb cpy_bytes_nth(2) [OF c, of i] by (simp add: ramd_byte_def)
  then show ?thesis using t x cpy_bytes_nth(1) [OF c] ramd_cb [OF x(1), where wr = False]
    by (auto simp: ramd_inv_def ramd_blocks_def ramd_byte_def fun_eq_iff)
qed

lemma ramd_write_law:
  assumes "ramd_inv h bs d" "unat b + unat n \<le> ramd_blocks d" "n \<noteq> 0" "unat n * bs \<le> length buf" "unat n * bs < 2 ^ 32"
  shows "\<exists>d'. vol_cache_ioctl ramd_if CIOCTL_WRITE h b n buf d = Some (n, buf, d') \<and> ramd_inv h bs d' \<and> ramd_blocks d' = ramd_blocks d \<and>
    (\<forall>a. ramd_byte d' a = (if unat b * bs \<le> a \<and> a < (unat b + unat n) * bs then buf ! (a - unat b * bs) else ramd_byte d a))"
proof -
  let ?x = "vd_host d"
  have x: "vd_handle d = h" "ramd_ok ?x" "unat (rd_block_size ?x) = bs" using assms(1) by (simp_all add: ramd_inv_def)
  have nz: "0 < unat n" using assms(3) by (simp add: unat_gt_0)
  have p: "unat b < unat (rd_dev_size ?x)" "unat n * unat (rd_block_size ?x) \<le> length buf" "unat n * unat (rd_block_size ?x) < 2 ^ 32"
    using assms(2,4,5) x(3) nz by (simp_all add: ramd_blocks_def)
  have r: "min (unat n) (unat (rd_dev_size ?x) - unat b) = unat n" using assms(2) by (simp add: ramd_blocks_def)
  obtain buf' x' mem' m where t': "ramd_transfer True b n buf ?x = Some (of_nat (unat n), buf', x')" "ramd_ok x'" "x' = ?x\<lparr>rd_mem := mem', rd_mutex := m\<rparr>"
    "buf' = buf \<and> cpy_bytes (rd_mem ?x) (unat b * bs) buf 0 (unat n * bs) = Some mem'"
    by (rule ramd_transfer_ok [OF x(2) p, where wr = True, unfolded x(3) r if_True])
  then have t: "ramd_transfer True b n buf ?x = Some (n, buf, x')" "ramd_ok x'" "x' = ?x\<lparr>rd_mem := mem', rd_mutex := m\<rparr>"
    "cpy_bytes (rd_mem ?x) (unat b * bs) buf 0 (unat n * bs) = Some mem'" by simp_all
  then have cb: "unat b * bs + unat n * bs \<le> length (rd_mem ?x)" by (auto simp: cpy_bytes_def split: if_splits)
  have "ramd_byte (d\<lparr>vd_host := x'\<rparr>) a = (if unat b * bs \<le> a \<and> a < (unat b + unat n) * bs then buf ! (a - unat b * bs) else ramd_byte d a)" for a
    using cb t(3) cpy_bytes_nth(1) [OF t(4)] cpy_bytes_nth(2) [OF t(4), of a] by (auto simp: ramd_byte_def add_mult_distrib)
  then show ?thesis using t x ramd_cb [OF x(1), where wr = True] by (auto simp: ramd_inv_def ramd_blocks_def)
qed

interpretation ramd_vol: block_dev "vol_cache_ioctl ramd_if" ramd_inv ramd_blocks ramd_byte
  using ramd_read_law ramd_write_law by unfold_locales blast+

section \<open>File requests on a cached volume\<close>

text \<open>Requests by byte offset and the flat disk they should act on.\<close>

datatype rwop = VRead u64 u32 | VWrite u64 "u8 list"

fun vol_call ::
    "'d host_if \<Rightarrow> 'p parent_if \<Rightarrow> 'h heap_alloc \<Rightarrow> (ptr \<Rightarrow> nat \<Rightarrow> u8 list) \<Rightarrow> rwop \<Rightarrow> ('p, 'h, 'd) volume \<Rightarrow>
     (u32 \<times> u8 list \<times> ('p, 'h, 'd) volume) option" where
  "vol_call H P halloc raw (VRead offset sz) v = vol_file_io H P halloc raw False offset (replicate (unat sz) 0) sz v"
| "vol_call H P halloc raw (VWrite offset bytes) v = vol_file_io H P halloc raw True offset bytes (of_nat (length bytes)) v"

fun vol_calls ::
    "'d host_if \<Rightarrow> 'p parent_if \<Rightarrow> 'h heap_alloc \<Rightarrow> (ptr \<Rightarrow> nat \<Rightarrow> u8 list) \<Rightarrow> rwop list \<Rightarrow> ('p, 'h, 'd) volume \<Rightarrow>
     ((u32 \<times> u8 list) list \<times> ('p, 'h, 'd) volume) option" where
  "vol_calls H P halloc raw [] v = Some ([], v)"
| "vol_calls H P halloc raw (op # ops) v =
     do { (r, buf, v) \<leftarrow> vol_call H P halloc raw op v; (rs, v) \<leftarrow> vol_calls H P halloc raw ops v; Some ((r, buf) # rs, v) }"

fun flat_call :: "rwop \<Rightarrow> (nat \<Rightarrow> u8) \<Rightarrow> (u32 \<times> u8 list) \<times> (nat \<Rightarrow> u8)" where
  "flat_call (VRead offset sz) D = ((sz, map D [unat offset..<unat offset + unat sz]), D)"
| "flat_call (VWrite offset bytes) D =
     ((of_nat (length bytes), bytes), \<lambda>x. if unat offset \<le> x \<and> x < unat offset + length bytes then bytes ! (x - unat offset) else D x)"

fun flat_calls :: "rwop list \<Rightarrow> (nat \<Rightarrow> u8) \<Rightarrow> (u32 \<times> u8 list) list \<times> (nat \<Rightarrow> u8)" where
  "flat_calls [] D = ([], D)"
| "flat_calls (op # ops) D = (let (r, D) = flat_call op D; (rs, D) = flat_calls ops D in (r # rs, D))"

fun vop_at :: "rwop \<Rightarrow> nat" where
  "vop_at (VRead offset sz) = unat offset"
| "vop_at (VWrite offset bytes) = unat offset"

fun vop_size :: "rwop \<Rightarrow> nat" where
  "vop_size (VRead offset sz) = unat sz"
| "vop_size (VWrite offset bytes) = length bytes"

fun vop_writes :: "rwop \<Rightarrow> bool" where
  "vop_writes (VRead offset sz) = False"
| "vop_writes (VWrite offset bytes) = True"

text \<open>A request stays in a chunk of \<open>cs\<close> blocks of \<open>bs\<close> bytes and on the disk of \<open>n\<close> blocks; a write stays in the first 3984 blocks, the number of
  blocks whose state fits in a header of 1024 bytes.\<close>

definition vop_fits :: "nat \<Rightarrow> nat \<Rightarrow> nat \<Rightarrow> rwop \<Rightarrow> bool" where
  "vop_fits bs cs n op \<longleftrightarrow> 0 < vop_size op \<and> vop_at op mod (cs * bs) + vop_size op \<le> cs * bs \<and> vop_at op + vop_size op \<le> n * bs \<and>
     (vop_writes op \<longrightarrow> (vop_at op div (cs * bs) + 1) * cs \<le> 3984)"

text \<open>The request to the cache that the volume makes of it.\<close>

definition blocks_of :: "u16 \<Rightarrow> u32 \<Rightarrow> u32" where
  "blocks_of bs sz = sz div ucast bs + (if sz mod ucast bs \<noteq> 0 then 1 else 0)"

fun cop_of :: "u16 \<Rightarrow> rwop \<Rightarrow> cop" where
  "cop_of bs (VRead offset sz) = CRead (ucast (offset div ucast bs)) (ucast (offset mod ucast bs)) (blocks_of bs sz) sz"
| "cop_of bs (VWrite offset bytes) =
     CWrite (ucast (offset div ucast bs)) (ucast (offset mod ucast bs)) (blocks_of bs (of_nat (length bytes))) bytes"

text \<open>A volume with a cache, not a partition, on a host whose class has no partitions.\<close>

definition vol_cached :: "'d host_if \<Rightarrow> ('h, 'd vdev) cache \<Rightarrow> 'd vdev cache_entry \<Rightarrow> ('p, 'h, 'd) volume \<Rightarrow> bool" where
  "vol_cached H c hc v \<longleftrightarrow> vol_flags v AND VF_READONLY = 0 \<and> vol_flags v AND VF_NOCACHE = 0 \<and> vol_offset v = 0 \<and> m_cache_handle v \<noteq> 0 \<and>
     m_p_cache v = Some c \<and> entries c (m_cache_handle v) = Some hc \<and> (\<forall>d. h_class H d \<noteq> DCLASS_HDD)"

lemma vol_scan_other: "(\<And>d. h_class H d \<noteq> DCLASS_HDD) \<Longrightarrow> vol_scan H P halloc v = Some v"
  by (simp add: vol_scan_def)

lemma request_is_call:
  fixes offset :: u64 and wr :: bool and buf :: "u8 list" and sz :: u32
  assumes "vol_cached H c hc v" "bs = h_block_size H (vol_host v)" "bs \<noteq> 0" "unat offset div unat bs < 2 ^ 32"
  defines "op \<equiv> (if wr then CWrite (ucast (offset div ucast bs)) (ucast (offset mod ucast bs)) (blocks_of bs sz) buf
                 else CRead (ucast (offset div ucast bs)) (ucast (offset mod ucast bs)) (blocks_of bs sz) sz)"
  assumes "if wr then sz = of_nat (length buf) else buf = replicate (unat sz) 0"
    and "cache_call (c_env c) op (bind_entry v hc) = Some (r, buf', hc')"
  shows "vol_file_io H P halloc raw wr offset buf sz v =
    Some (r, buf', v\<lparr>m_p_cache := Some (c\<lparr>entries := (entries c)(m_cache_handle v \<mapsto> hc')\<rparr>), vol_host := vd_host (ci_udata (cinfo hc'))\<rparr>)"
proof -
  have v: "vol_flags v AND VF_READONLY = 0" "vol_flags v AND VF_NOCACHE = 0" "vol_offset v = 0" "m_cache_handle v \<noteq> 0"
    "m_p_cache v = Some c" "entries c (m_cache_handle v) = Some hc" "\<And>d. h_class H d \<noteq> DCLASS_HDD"
    using assms(1) by (auto simp: vol_cached_def)
  have "unat (ucast (offset div ucast bs :: u64) :: u32) = unat (offset div ucast bs :: u64)"
    using assms(4) by (intro unat_down) (simp add: unat_div unat_up)
  then have u: "ucast (ucast (offset div ucast bs :: u64) :: u32) = (offset div ucast bs :: u64)"
    by (simp add: word_unat_eq_iff unat_up)
  have call: "cache_ioctl (c_env c) (if wr then CIOCTL_WRITE else CIOCTL_READ) (offset div ucast bs) (ucast (offset mod ucast bs)) (blocks_of bs sz) sz buf
      (bind_entry v hc) = Some (r, buf', hc')"
    using assms(6,7) u by (cases wr) (simp_all add: op_def)
  have "vol_cache_request (if wr then CIOCTL_WRITE else CIOCTL_READ) (offset div ucast bs) (ucast (offset mod ucast bs)) (blocks_of bs sz) sz buf v =
      Some (r, buf', v\<lparr>m_p_cache := Some (c\<lparr>entries := (entries c)(m_cache_handle v \<mapsto> hc')\<rparr>), vol_host := vd_host (ci_udata (cinfo hc'))\<rparr>)"
    using call v(5,6) by (simp add: vol_cache_request_def cCache_ioctl_def Let_def)
  then show ?thesis
    using v assms(2,3) by (simp add: vol_file_io_def vol_calc_offset_def vol_cache_alloc_def Let_def vol_scan_other blocks_of_def)
qed

lemma block_address:
  fixes offset :: u64 and bs :: u16
  assumes "bs \<noteq> 0" "unat offset div unat bs < 2 ^ 32"
  shows "unat (ucast (offset div ucast bs) :: u32) = unat offset div unat bs" and "unat (ucast (offset mod ucast bs) :: u16) = unat offset mod unat bs"
proof -
  show "unat (ucast (offset div ucast bs) :: u32) = unat offset div unat bs"
    using assms(2) by (subst unat_down) (simp add: unat_div unat_up)+
  have "unat offset mod unat bs < unat bs" using assms(1) by (simp add: unat_gt_0)
  moreover have "unat bs < 2 ^ 16" by (rule order_less_le_trans [OF unsigned_less]) simp
  moreover have "unat (offset mod ucast bs) = unat offset mod unat bs" by (simp add: unat_mod unat_up)
  ultimately show "unat (ucast (offset mod ucast bs) :: u16) = unat offset mod unat bs"
    by (subst unsigned_ucast_eq) (simp add: take_bit_nat_eq_self)
qed

lemma blocks_of_nonzero:
  assumes "sz \<noteq> 0"
  shows "blocks_of bs sz \<noteq> 0"
proof
  assume z: "blocks_of bs sz = 0"
  let ?x = "ucast bs :: u32"
  have e: "unat sz = unat (sz div ?x) * unat ?x + unat (sz mod ?x)" by (simp only: unat_div unat_mod div_mult_mod_eq)
  show False
  proof (cases "sz mod ?x = 0")
    case True
    then have "unat (sz div ?x) = 0" using z by (simp add: blocks_of_def)
    then show False using e True assms by (simp add: unat_eq_0)
  next
    case False
    then have "sz div ?x = - 1" using z by (simp add: blocks_of_def eq_neg_iff_add_eq_0)
    then have "unat (sz div ?x) = 2 ^ 32 - 1" by (simp only: unat_max_u32) simp
    moreover have "0 < unat (sz mod ?x)" using False by (simp add: unat_gt_0)
    moreover have "unat sz < 2 ^ 32" by (rule unat_u32_lt)
    ultimately have "unat ?x = 0" using e by (cases "unat ?x") simp_all
    then have "?x = 0" by (simp add: unat_eq_0)
    then show False using \<open>sz div ?x = - 1\<close> by simp
  qed
qed

lemma chunk_room:
  fixes a s bs cs n :: nat
  assumes "0 < bs" "0 < cs" "a mod (cs * bs) + s \<le> cs * bs" "a + s \<le> n * bs"
  shows "a mod bs + s \<le> (min cs (n - a div bs div cs * cs) - a div bs mod cs) * bs"
proof -
  let ?b = "a div bs"
  have m: "a mod (cs * bs) = ?b mod cs * bs + a mod bs" by (simp add: mod_mult2_eq mult.commute [of cs])
  have "?b mod cs * bs + (a mod bs + s) \<le> cs * bs" using assms(3) m by simp
  then have 1: "a mod bs + s \<le> (cs - ?b mod cs) * bs" by (simp add: diff_mult_distrib)
  have "?b * bs + (a mod bs + s) \<le> n * bs" using assms(4) div_mult_mod_eq [of a bs] by linarith
  then have "a mod bs + s \<le> n * bs - ?b * bs" by linarith
  then have 2: "a mod bs + s \<le> (n - ?b) * bs" by (simp only: diff_mult_distrib)
  have "n - ?b div cs * cs - ?b mod cs = n - ?b" by (simp only: diff_diff_left div_mult_mod_eq)
  then have "min cs (n - ?b div cs * cs) - ?b mod cs = min (cs - ?b mod cs) (n - ?b)" by (simp only: min_diff [symmetric])
  then show ?thesis using 1 2 by (simp add: min_def)
qed

text \<open>A request that fits goes to the cache as a request that fits, and means the same on the disk.\<close>

lemma cop_of_fits:
  assumes "vop_fits (bsz hc) (csz hc) (ramd_blocks (ramd_vol.dev hc)) op" "0 < bsz hc" "0 < csz hc"
    "(ramd_blocks (ramd_vol.dev hc) + csz hc) * bsz hc < 2 ^ 32" "data_ofs hc = 996"
  shows "ramd_vol.op_fits hc (cop_of (block_size (cinfo hc)) op)" and "vop_at op div bsz hc < 2 ^ 32"
    and "op_chunks (csz hc) (cop_of (block_size (cinfo hc)) op) = {vop_at op div (csz hc * bsz hc)}"
    and "disk_call (bsz hc) (cop_of (block_size (cinfo hc)) op) D = flat_call op D"
proof -
  let ?bs = "block_size (cinfo hc)" and ?N = "ramd_blocks (ramd_vol.dev hc)"
  have nz: "?bs \<noteq> 0" using assms(2) by (simp add: unat_gt_0)
  note f = assms(1) [unfolded vop_fits_def]
  have "vop_at op < 2 ^ 32" and len: "vop_size op < 2 ^ 32" using f assms(4) by (auto simp: add_mult_distrib)
  moreover have "vop_at op div bsz hc \<le> vop_at op" by simp
  ultimately show b: "vop_at op div bsz hc < 2 ^ 32" by linarith
  have room: "vop_at op mod bsz hc + vop_size op \<le> (min (csz hc) (?N - vop_at op div bsz hc div csz hc * csz hc) - vop_at op div bsz hc mod csz hc) * bsz hc"
    using chunk_room [OF assms(2,3)] f by blast
  have q: "vop_at op div (csz hc * bsz hc) = vop_at op div bsz hc div csz hc" by (simp add: div_mult2_eq mult.commute [of "csz hc"])
  have a: "vop_at op div bsz hc * bsz hc + vop_at op mod bsz hc = vop_at op" by simp
  have "ramd_vol.op_fits hc (cop_of ?bs op) \<and> op_chunks (csz hc) (cop_of ?bs op) = {vop_at op div (csz hc * bsz hc)} \<and>
    disk_call (bsz hc) (cop_of ?bs op) D = flat_call op D"
  proof (cases op)
    case (VRead offset sz)
    have "sz \<noteq> 0" using f VRead by auto
    then show ?thesis using VRead room b block_address [OF nz, of offset] blocks_of_nonzero [of sz ?bs] q a
      by (simp add: ramd_vol.fits_def ramd_vol.left_in_chunk_def unat_up Let_def)
  next
    case (VWrite offset bytes)
    have l: "unat (of_nat (length bytes) :: u32) = length bytes" using len VWrite by (simp add: unat_of_nat)
    have "(of_nat (length bytes) :: u32) \<noteq> 0" using f VWrite l by auto
    then show ?thesis using VWrite room b block_address [OF nz, of offset] blocks_of_nonzero [of "of_nat (length bytes)" ?bs] q a l len f assms(5)
      by (simp add: ramd_vol.fits_def ramd_vol.left_in_chunk_def unat_up Let_def add_mult_distrib)
  qed
  then show "ramd_vol.op_fits hc (cop_of ?bs op)" "op_chunks (csz hc) (cop_of ?bs op) = {vop_at op div (csz hc * bsz hc)}"
    "disk_call (bsz hc) (cop_of ?bs op) D = flat_call op D" by blast+
qed

text \<open>A volume over a RAM disk with its cache in order; the disk it shows.\<close>

definition ramd_volume :: "('h, ramd vdev) cache \<Rightarrow> ramd vdev cache_entry \<Rightarrow> ('p, 'h, ramd) volume \<Rightarrow> bool" where
  "ramd_volume c hc v \<longleftrightarrow> vol_cached ramd_if c hc v \<and> ce_handle hc = m_cache_handle v \<and> data_ofs hc = 996 \<and> mutex_idle (ev_clone (c_env c)) \<and>
     ramd_vol.entry_ok (bind_entry v hc) \<and> ramd_vol.all_idle (bind_entry v hc)"

lemma bind_fields [simp]:
  "ce_chunks (bind_entry v hc) = ce_chunks hc" "ce_handle (bind_entry v hc) = ce_handle hc" "block_size (cinfo (bind_entry v hc)) = block_size (cinfo hc)"
  "chunk_size (cinfo (bind_entry v hc)) = chunk_size (cinfo hc)" "num_chunks (cinfo (bind_entry v hc)) = num_chunks (cinfo hc)"
  "data_ofs (bind_entry v hc) = data_ofs hc" "ramd_vol.dev (bind_entry v hc) = vdev_of v"
  by (simp_all add: bind_entry_def data_ofs_def ramd_vol.dev_def)

lemma vol_call_ok:
  assumes "ramd_volume c hc v" "vop_fits (bsz hc) (csz hc) (unat (rd_dev_size (vol_host v))) op"
    "card (insert (vop_at op div (csz hc * bsz hc)) (ramd_vol.loaded (csz hc) (ce_chunks hc))) \<le> length (ce_chunks hc)"
  obtains r buf v' c' hc' where "vol_call ramd_if P halloc raw op v = Some (r, buf, v')" "ramd_volume c' hc' v'"
    "flat_call op (ramd_vol.view (bind_entry v hc)) = ((r, buf), ramd_vol.view (bind_entry v' hc'))" "bsz hc' = bsz hc" "csz hc' = csz hc"
    "rd_dev_size (vol_host v') = rd_dev_size (vol_host v)" "length (ce_chunks hc') = length (ce_chunks hc)"
    "ramd_vol.loaded (csz hc) (ce_chunks hc') = insert (vop_at op div (csz hc * bsz hc)) (ramd_vol.loaded (csz hc) (ce_chunks hc))"
proof -
  let ?hc = "bind_entry v hc" and ?bs = "block_size (cinfo hc)" and ?h = "m_cache_handle v"
  have v: "vol_cached ramd_if c hc v" "ce_handle hc = ?h" "data_ofs hc = 996" "mutex_idle (ev_clone (c_env c))"
    "ramd_vol.entry_ok ?hc" "ramd_vol.all_idle ?hc" using assms(1) by (simp_all add: ramd_volume_def)
  have N: "ramd_blocks (vdev_of v) = unat (rd_dev_size (vol_host v))" by (simp add: ramd_blocks_def vdev_of_def)
  have e: "0 < bsz hc" "0 < csz hc" "(ramd_blocks (vdev_of v) + csz hc) * bsz hc < 2 ^ 32" "ramd_inv (ce_handle hc) (bsz hc) (vdev_of v)"
    using v(5) by (simp_all add: ramd_vol.entry_ok_def)
  have bs: "?bs = h_block_size ramd_if (vol_host v)" "?bs \<noteq> 0"
    using e(1,4) by (auto simp: ramd_inv_def vdev_of_def ramd_if_def word_unat_eq_iff)
  have f: "ramd_vol.op_fits ?hc (cop_of ?bs op)" "vop_at op div bsz hc < 2 ^ 32" "op_chunks (csz hc) (cop_of ?bs op) = {vop_at op div (csz hc * bsz hc)}"
    "\<And>D. disk_call (bsz hc) (cop_of ?bs op) D = flat_call op D"
    using cop_of_fits [of ?hc op] assms(2) e(1-3) v(3) N by simp_all
  have card: "card (op_chunks (csz ?hc) (cop_of ?bs op) \<union> ramd_vol.loaded (csz ?hc) (ce_chunks ?hc)) \<le> length (ce_chunks ?hc)" using assms(3) f(3) by simp
  obtain r buf hc' where c: "cache_call (c_env c) (cop_of ?bs op) ?hc = Some (r, buf, hc')" "disk_call (bsz ?hc) (cop_of ?bs op) (ramd_vol.view ?hc) = ((r, buf), ramd_vol.view hc')"
    "ramd_vol.entry_ok hc'" "ramd_vol.all_idle hc'" "ramd_vol.frame ?hc hc'"
    "ramd_vol.loaded (csz ?hc) (ce_chunks hc') = op_chunks (csz ?hc) (cop_of ?bs op) \<union> ramd_vol.loaded (csz ?hc) (ce_chunks ?hc)"
    by (rule ramd_vol.call_ok [OF v(5,6,4) f(1) card])
  let ?c = "c\<lparr>entries := (entries c)(?h \<mapsto> hc')\<rparr>"
  let ?v = "v\<lparr>m_p_cache := Some ?c, vol_host := vd_host (ci_udata (cinfo hc'))\<rparr>"
  have call: "vol_call ramd_if P halloc raw op v = Some (r, buf, ?v)"
  proof (cases op)
    case (VRead offset sz)
    then show ?thesis using request_is_call [OF v(1) bs, of offset False sz "replicate (unat sz) 0" r buf hc'] f(2) c(1) by simp
  next
    case (VWrite offset bytes)
    then show ?thesis using request_is_call [OF v(1) bs, of offset True "of_nat (length bytes)" bytes r buf hc'] f(2) c(1) by simp
  qed
  have fr: "ce_handle hc' = ?h" "bsz hc' = bsz hc" "csz hc' = csz hc" "data_ofs hc' = 996" "length (ce_chunks hc') = length (ce_chunks hc)"
    "ramd_blocks (ramd_vol.dev hc') = ramd_blocks (vdev_of v)"
    using c(5) v(2,3) by (simp_all add: ramd_vol.frame_def)
  have "vd_handle (ci_udata (cinfo hc')) = ?h" using c(3) fr(1) by (simp add: ramd_vol.entry_ok_def ramd_inv_def ramd_vol.dev_def)
  then have bind: "bind_entry ?v hc' = hc'" by (simp add: bind_entry_def vdev_of_def)
  have "ramd_volume ?c hc' ?v" using v(1,4) c(3,4) fr bind by (simp add: ramd_volume_def vol_cached_def)
  moreover have "rd_dev_size (vol_host ?v) = rd_dev_size (vol_host v)"
    using fr(6) by (simp add: ramd_blocks_def ramd_vol.dev_def vdev_of_def word_unat_eq_iff)
  ultimately show thesis using call c(2,6) fr f(3,4) bind by (intro that [of r buf ?v ?c hc']) simp_all
qed

text \<open>Any sequence of requests within chunks, as long as the chunks fit in the cache, behaves as on a flat disk.\<close>

lemma vol_calls_ok:
  assumes "ramd_volume c hc v" "\<forall>op\<in>set ops. vop_fits (bsz hc) (csz hc) (unat (rd_dev_size (vol_host v))) op"
    "card ((\<lambda>op. vop_at op div (csz hc * bsz hc)) ` set ops \<union> ramd_vol.loaded (csz hc) (ce_chunks hc)) \<le> length (ce_chunks hc)"
  shows "\<exists>rs v' c' hc'. vol_calls ramd_if P halloc raw ops v = Some (rs, v') \<and> ramd_volume c' hc' v' \<and>
    flat_calls ops (ramd_vol.view (bind_entry v hc)) = (rs, ramd_vol.view (bind_entry v' hc'))"
  using assms
proof (induction ops arbitrary: c hc v)
  case (Cons op ops)
  let ?L = "ramd_vol.loaded (csz hc) (ce_chunks hc)" and ?f = "\<lambda>op. vop_at op div (csz hc * bsz hc)"
  have "card (insert (?f op) ?L) \<le> card (?f ` set (op # ops) \<union> ?L)" by (intro card_mono) auto
  then have "card (insert (?f op) ?L) \<le> length (ce_chunks hc)" using Cons.prems(3) by linarith
  moreover have "vop_fits (bsz hc) (csz hc) (unat (rd_dev_size (vol_host v))) op" using Cons.prems(2) by simp
  ultimately obtain r buf v1 c1 hc1 where c: "vol_call ramd_if P halloc raw op v = Some (r, buf, v1)" "ramd_volume c1 hc1 v1"
    "flat_call op (ramd_vol.view (bind_entry v hc)) = ((r, buf), ramd_vol.view (bind_entry v1 hc1))" "bsz hc1 = bsz hc" "csz hc1 = csz hc"
    "rd_dev_size (vol_host v1) = rd_dev_size (vol_host v)" "length (ce_chunks hc1) = length (ce_chunks hc)"
    "ramd_vol.loaded (csz hc) (ce_chunks hc1) = insert (?f op) ?L"
    using vol_call_ok [OF Cons.prems(1)] by metis
  have "?f ` set (op # ops) \<union> ?L = ?f ` set ops \<union> ramd_vol.loaded (csz hc) (ce_chunks hc1)" using c(8) by auto
  then have "card ((\<lambda>op. vop_at op div (csz hc1 * bsz hc1)) ` set ops \<union> ramd_vol.loaded (csz hc1) (ce_chunks hc1)) \<le> length (ce_chunks hc1)"
    using Cons.prems(3) c(4,5,7) by simp
  moreover have "\<forall>op\<in>set ops. vop_fits (bsz hc1) (csz hc1) (unat (rd_dev_size (vol_host v1))) op" using Cons.prems(2) c(4-6) by simp
  ultimately obtain rs v2 c2 hc2 where "vol_calls ramd_if P halloc raw ops v1 = Some (rs, v2)" "ramd_volume c2 hc2 v2"
    "flat_calls ops (ramd_vol.view (bind_entry v1 hc1)) = (rs, ramd_vol.view (bind_entry v2 hc2))"
    using Cons.IH [OF c(2)] by blast
  then show ?case using c(1,3) by auto
qed auto

text \<open>The entry that the cache makes for a volume over a RAM disk.\<close>

lemma new_entry_sizes:
  assumes "0 < unat (chunk_size ci)" "unat (chunk_size ci) \<le> 3984"
    "unat (num_chunks ci) * (unat (chunk_size ci) * unat (block_size ci) + 1024) < 2 ^ 32" "num_chunks ci \<noteq> 0"
  shows "hdr_bytes_of ci = 1024" and "unat (chunk_sz_of ci) = unat (chunk_size ci) * unat (block_size ci) + 1024"
    and "unat (mem_sz_of ci) div unat (chunk_sz_of ci) = unat (num_chunks ci)"
proof -
  let ?c = "unat (chunk_size ci)" and ?b = "unat (block_size ci)" and ?n = "unat (num_chunks ci)"
  have n: "0 < ?n" using assms(4) by (simp add: unat_gt_0)
  have "?c div 4 + 28 \<le> 1024" "1 \<le> ?c div 4 + 28" using assms(2) by simp_all
  then have k: "unat (ucast (chunk_size ci) div 4 + of_nat sizeof_chunk_hdr :: u32) = ?c div 4 + 28"
    by (simp add: unat_word_ariths unat_div unat_up sizeof_chunk_hdr_def)
  let ?x = "ucast (chunk_size ci) div 4 + of_nat sizeof_chunk_hdr :: u32"
  have "unat (?x div 1024 + (if ?x mod 1024 \<noteq> 0 then 1 else 0)) = 1"
  proof (cases "?c div 4 + 28 = 1024")
    case True
    then have "?x = 1024" using k by (simp add: word_unat_eq_iff)
    then show ?thesis by simp
  next
    case False
    then have "unat ?x < 1024" using k assms(2) by linarith
    then have "?x div 1024 = 0" "?x mod 1024 = ?x" "?x \<noteq> 0" using k by (auto simp: word_unat_eq_iff unat_div unat_mod)
    then show ?thesis by simp
  qed
  then have "?x div 1024 + (if ?x mod 1024 \<noteq> 0 then 1 else 0) = 1" by (simp add: word_unat_eq_iff)
  then show h: "hdr_bytes_of ci = 1024" by (simp only: hdr_bytes_of_def Let_def) simp
  have "?c * ?b + 1024 \<le> ?n * (?c * ?b + 1024)" using n by simp
  then have lt: "?c * ?b + 1024 < 2 ^ 32" using assms(3) by linarith
  then show s: "unat (chunk_sz_of ci) = ?c * ?b + 1024" by (simp add: chunk_sz_of_def h unat_word_ariths unat_up)
  have "unat (mem_sz_of ci) = ?n * (?c * ?b + 1024)" using assms(3) s by (simp add: mem_sz_of_def unat_word_ariths unat_up)
  then show "unat (mem_sz_of ci) div unat (chunk_sz_of ci) = ?n" by (simp add: s)
qed

lemma new_entry_ok:
  fixes p :: ptr
  assumes "ramd_ok d" "block_size ci = rd_block_size d" "p_ccb ci = vol_cache_ioctl ramd_if" "0 < unat (chunk_size ci)" "unat (chunk_size ci) \<le> 3984"
    "unat (num_chunks ci) * (unat (chunk_size ci) * unat (block_size ci) + 1024) < 2 ^ 32" "num_chunks ci \<noteq> 0"
    "(unat (rd_dev_size d) + unat (chunk_size ci)) * unat (block_size ci) < 2 ^ 32" "mutex_idle m"
    "vol_host v = d" "m_cache_handle v = h"
  defines "hc \<equiv> bind_entry v ((new_entry ci p m)\<lparr>ce_handle := h\<rparr>)"
  shows "ramd_vol.entry_ok hc" "ramd_vol.all_idle hc" "ramd_vol.view hc = ramd_byte (vdev_of v)" "data_ofs hc = 996"
    "ramd_vol.loaded (csz hc) (ce_chunks hc) = {}" "length (ce_chunks hc) = unat (num_chunks ci)"
proof -
  note sz = new_entry_sizes [OF assms(4-7)]
  have chs: "ce_chunks hc = replicate (unat (num_chunks ci)) (zero_chunk (chunk_sz_of ci))" by (simp add: hc_def new_entry_def sz(3))
  show o: "data_ofs hc = 996" by (simp add: hc_def new_entry_def data_ofs_def sz(1) sizeof_chunk_hdr_def bind_entry_def)
  have np: "\<not> present (zero_chunk x)" for x by (simp add: present_def zero_chunk_def)
  have "length (ch_mem (zero_chunk (chunk_sz_of ci))) = 996 + unat (chunk_size ci) * unat (block_size ci)"
    by (simp add: zero_chunk_def sz(2) sizeof_chunk_hdr_def)
  moreover have bs: "bsz hc = unat (block_size ci)" "csz hc = unat (chunk_size ci)" by (simp_all add: hc_def new_entry_def)
  moreover have cs: "cstate (zero_chunk x) = 0" for x by (simp add: zero_chunk_def)
  ultimately have ok: "chunk_ok k hc (zero_chunk (chunk_sz_of ci))" for k
    using o np cs by (simp add: chunk_ok_def bs)
  show "length (ce_chunks hc) = unat (num_chunks ci)" by (simp add: chs)
  show "ramd_vol.loaded (csz hc) (ce_chunks hc) = {}" using np by (auto simp: ramd_vol.loaded_def chs)
  show "ramd_vol.all_idle hc" using assms(9) by (auto simp: ramd_vol.all_idle_def chs zero_chunk_def mutex_idle_def) (simp_all add: hc_def bind_entry_def new_entry_def)
  have "ramd_vol.dev hc = vdev_of v" by (simp add: hc_def)
  moreover from this show "ramd_vol.view hc = ramd_byte (vdev_of v)"
    using np by (intro ext, subst ramd_vol.view_dev) (auto simp: chs holds_def)
  moreover have "0 < unat (block_size ci)" using assms(1,2) by (simp add: ramd_ok_def unat_gt_0)
  ultimately show "ramd_vol.entry_ok hc"
    using assms(1-5,8,10,11) ok o np
    by (auto simp: ramd_vol.entry_ok_def chs apart_def ramd_inv_def ramd_blocks_def vdev_of_def) (simp_all add: hc_def new_entry_def bind_entry_def vdev_of_def)
qed

text \<open>A volume over a RAM disk of less than 4 GB, with the cache entry that \<open>vol_cache_alloc\<close> got for it.\<close>

definition ramd_vol_new :: "('h, ramd vdev) cache \<Rightarrow> ptr \<Rightarrow> cmutex option \<Rightarrow> ramd vdev \<Rightarrow> ('p, 'h, ramd) volume \<Rightarrow> bool" where
  "ramd_vol_new c p m u v \<longleftrightarrow>
     vol_cached ramd_if c ((new_entry \<lparr>block_size = rd_block_size (vol_host v), chunk_size = rd_max_op_sectors (vol_host v), num_chunks = 16,
       p_ccb = vol_cache_ioctl ramd_if, ci_udata = u\<rparr> p m)\<lparr>ce_handle := m_cache_handle v\<rparr>) v \<and>
     mutex_idle m \<and> mutex_idle (ev_clone (c_env c)) \<and> ramd_ok (vol_host v) \<and> rd_block_size (vol_host v) = 512 \<and> rd_max_op_sectors (vol_host v) = 64 \<and>
     (unat (rd_dev_size (vol_host v)) + 64) * 512 < 2 ^ 32"


text \<open>A disk of 4 blocks, its cache entry and its volume.\<close>

definition small_disk :: ramd where
  "small_disk = \<lparr>rd_env = \<lparr>blender_running = False, blender_cpu = False, has_cpu = False\<rparr>, rd_block_size = 512, rd_max_op_sectors = 64, rd_size = 2048,
     rd_dev_size = 4, rd_base = 4096, rd_npages = 0, rd_mem = replicate 2048 7, rd_mutex = None\<rparr>"

definition small_entry :: "ramd vdev cache_entry" where
  "small_entry = (new_entry \<lparr>block_size = 512, chunk_size = 64, num_chunks = 16, p_ccb = vol_cache_ioctl ramd_if,
     ci_udata = \<lparr>vd_handle = 0, vd_host = small_disk\<rparr>\<rparr> 8192 None)\<lparr>ce_handle := 48\<rparr>"

definition small_cache :: "'h cvector \<Rightarrow> ('h, ramd vdev) cache" where
  "small_cache w = \<lparr>c_env = \<lparr>ev_sched = rd_env small_disk, ev_stamp = None, ev_clone = None\<rparr>, c_vector = w, entries = [48 \<mapsto> small_entry],
     c_page_size = 4096, af_create = False\<rparr>"

definition small_volume :: "'h cvector \<Rightarrow> (unit, 'h, ramd) volume" where
  "small_volume w = \<lparr>vol_env = rd_env small_disk, vol_flags = VF_HOSTCTRL, vol_pidx = 0, vol_block_size = 512, vol_offset = 0, vol_host = small_disk,
     vol_parent = None, m_current_offset = 0, m_cache_handle = 48, m_p_cache = Some (small_cache w), vol_pma = None, m_p_ncbuf = 0, ncbuf = [],
     m_ncp_count = 0, m_io_enable = True, m_io_lock = 0, vol_senv = \<lparr>se_heap = False, se_droot = False, se_clone = False\<rparr>, vol_nodes = [],
     vol_mutex = None\<rparr>"

lemma small_volume_cached: "vol_cached ramd_if (small_cache w) small_entry (small_volume w)"
  by (simp add: vol_cached_def small_volume_def small_cache_def VF_READONLY_def VF_NOCACHE_def VF_HOSTCTRL_def ramd_if_def DCLASS_RDD_def DCLASS_HDD_def)

lemma small_volume_new: "ramd_vol_new (small_cache w) 8192 None \<lparr>vd_handle = 0, vd_host = small_disk\<rparr> (small_volume w)"
  unfolding ramd_vol_new_def
proof (intro conjI)
  show "ramd_ok (vol_host (small_volume w))" by (simp add: ramd_ok_def small_volume_def small_disk_def)
qed (use small_volume_cached [of w] in \<open>simp_all add: small_entry_def small_volume_def small_cache_def small_disk_def mutex_idle_def\<close>)


end
