(* ===== verification/Volume_Parts.thy ===== *)
theory Volume_Parts
  imports Volume_IO
begin

text \<open>
  Requests to the volume driver by block, and the partitions of a disk: the first scan finds them all; a later scan, which the volume starts with its own
  mutex held and its own node among those of the host, blocks on itself, or, when the mutex is free after all, registers volumes twice.
\<close>

section \<open>Block requests\<close>

lemma vol_lock_idle:
  assumes "mutex_idle (vol_mutex v)" "blender_running (vol_env v) \<longrightarrow> blender_cpu (vol_env v)"
  obtains h p' where "vol_lock hl v = Some (h, v\<lparr>vol_mutex := p'\<rparr>)"
proof (cases "vol_mutex v")
  case None
  then have "v\<lparr>vol_mutex := None\<rparr> = v" by simp
  then show thesis using that [of 0 None] None by (simp add: vol_lock_def)
next
  case (Some x)
  then show thesis using acquire_idle [OF assms, of hl] that by (auto simp: vol_lock_def)
qed

lemma io_none: "io_loop e wr b 0 ofs rest pos r buf hc = Some (r, buf, hc)"
  by (subst io_loop.simps) simp

text \<open>C26: A block read or write through the driver interface of a volume with a cache moves nothing: \<open>driver_ioctl\<close> sets the result to 0 before it
  reads the number of blocks, which is the same member of a union. On a volume that has its entry in the cache, with the mutex free and requests
  enabled, the request returns with result 0; the buffer, the chunks and the host stay as they were. The write is one that causes no scan of the
  partition table: not to block 0, or to a host that is not a hard disk, or refused by a read-only volume. Volumes without a cache pass the count 0
  on to their host or parent and are not covered.\<close>

theorem block_ioctl_moves_nothing:
  assumes "m_io_enable v" "mutex_idle (vol_mutex v)" "blender_running (vol_env v) \<longrightarrow> blender_cpu (vol_env v)" "vol_block_size v \<noteq> 0"
    "vol_flags v AND VF_NOCACHE = 0" "m_cache_handle v \<noteq> 0" "m_p_cache v = Some c" "entries c (m_cache_handle v) = Some hc"
    "cmd = DIOCTL_BREAD \<or> cmd = DIOCTL_BWRITE \<and> (dio_lba io \<noteq> 0 \<or> h_class H (vol_host v) \<noteq> DCLASS_HDD \<or> vol_flags v AND VF_READONLY \<noteq> 0)"
  shows "\<exists>v' c' hc'. vol_driver_ioctl H P halloc raw cmd io v = Some (io\<lparr>dio_result := 0, dio_error := 0\<rparr>, v') \<and> vol_host v' = vol_host v \<and>
    m_p_cache v' = Some c' \<and> entries c' (m_cache_handle v) = Some hc' \<and> ce_chunks hc' = ce_chunks hc"
proof -
  obtain h p' where l: "vol_lock (m_io_lock v) v = Some (h, v\<lparr>vol_mutex := p'\<rparr>)" using vol_lock_idle [OF assms(2,3)] by blast
  let ?v = "v\<lparr>vol_mutex := p', m_io_lock := h\<rparr>"
  let ?c = "c\<lparr>entries := (entries c)(m_cache_handle v \<mapsto> bind_entry ?v hc)\<rparr>"
  let ?v' = "?v\<lparr>m_p_cache := Some ?c, vol_host := vol_host v\<rparr>"
  have req: "vol_cache_request cm b 0 0 0 buf ?v = Some (0, buf, ?v')" if "cm = CIOCTL_READ \<or> cm = CIOCTL_WRITE" for cm b buf
    using that assms(7,8)
    by (auto simp: vol_cache_request_def cCache_ioctl_def cache_ioctl_def cache_io_def Let_def ioctl_defs io_none bind_entry_def vdev_of_def)
  have scan: "vol_scan H P halloc ?v' = Some ?v'" if "h_class H (vol_host v) \<noteq> DCLASS_HDD" using that by (simp add: vol_scan_def)
  have rd: "vol_block_io H P halloc (vol_scan H P halloc) False block 0 buf ?v = Some (0, buf, ?v')" for block buf
    using assms(4-6) req by (simp add: vol_block_io_def vol_cache_alloc_def Let_def)
  have wr: "vol_block_io H P halloc (vol_scan H P halloc) True (dio_lba io) 0 buf ?v = Some (0, buf, if vol_flags v AND VF_READONLY \<noteq> 0 then ?v else ?v')"
    if "cmd = DIOCTL_BWRITE" for buf
    using that assms(4-6,9) req scan by (auto simp: vol_block_io_def vol_cache_alloc_def Let_def ioctl_defs)
  have "\<exists>x. vol_driver_ioctl H P halloc raw cmd io v = Some (io\<lparr>dio_result := 0, dio_error := 0\<rparr>, vol_unlock h x) \<and> (x = ?v \<or> x = ?v')"
    using l assms(1,9) rd wr by (auto simp: vol_driver_ioctl_def Let_def ioctl_defs)
  then show ?thesis using assms(7,8) by (auto simp: vol_unlock_def bind_entry_def)
qed

theorem block_ioctl_moves_nothing_witness:
  "\<forall>w :: unit cvector. \<exists>v'. vol_driver_ioctl ramd_if \<lparr>pv_ioctl = \<lambda>_ io p. Some (io, p), pv_file_io = \<lambda>_ _ buf _ p. Some (0, buf, p)\<rparr>
     (\<lambda>_ h. Some (0, h)) (\<lambda>_ _. []) DIOCTL_BREAD \<lparr>dio_buffer = replicate 512 0, dio_size = 1, dio_lba = 2, dio_result = 1, dio_error = 0\<rparr> (small_volume w) =
     Some (\<lparr>dio_buffer = replicate 512 0, dio_size = 1, dio_lba = 2, dio_result = 0, dio_error = 0\<rparr>, v')"
proof
  fix w :: "unit cvector"
  let ?P = "\<lparr>pv_ioctl = \<lambda>_ io p. Some (io, p), pv_file_io = \<lambda>_ _ buf _ p. Some (0, buf, p)\<rparr>"
  let ?io = "\<lparr>dio_buffer = replicate 512 0, dio_size = 1, dio_lba = 2, dio_result = 1, dio_error = 0\<rparr>"
  have c: "vol_flags (small_volume w) AND VF_NOCACHE = 0" "m_cache_handle (small_volume w) \<noteq> 0" "m_p_cache (small_volume w) = Some (small_cache w)"
    "entries (small_cache w) (m_cache_handle (small_volume w)) = Some small_entry" "m_io_enable (small_volume w)" "mutex_idle (vol_mutex (small_volume w))"
    "vol_block_size (small_volume w) \<noteq> 0" "blender_running (vol_env (small_volume w)) \<longrightarrow> blender_cpu (vol_env (small_volume w))"
    using small_volume_cached [of w] by (simp_all add: vol_cached_def small_volume_def small_disk_def mutex_idle_def)
  show "\<exists>v'. vol_driver_ioctl ramd_if ?P (\<lambda>_ h. Some (0, h)) (\<lambda>_ _. []) DIOCTL_BREAD ?io (small_volume w) =
      Some (\<lparr>dio_buffer = replicate 512 0, dio_size = 1, dio_lba = 2, dio_result = 0, dio_error = 0\<rparr>, v')"
    using block_ioctl_moves_nothing [OF c(5,6,8,7,1-4), where cmd = DIOCTL_BREAD and P = ?P and halloc = "\<lambda>_ h. Some (0, h)" and raw = "\<lambda>_ _. []" and io = ?io]
    by auto
qed

section \<open>Partitions\<close>

text \<open>The volumes of the partitions that records \<open>idx\<close> to \<open>idx + k - 1\<close> of a partition table describe.\<close>

definition pt_word :: "u8 list \<Rightarrow> nat \<Rightarrow> u32" where
  "pt_word mbr a = word_rcat (rev (take 4 (drop a mbr)))"

definition parts_at :: "u16 \<Rightarrow> u8 list \<Rightarrow> nat \<Rightarrow> pvol list" where
  "parts_at bs mbr i =
     (let first = pt_word mbr (PT_OFFSET + 16 * i + 8); n = pt_word mbr (PT_OFFSET + 16 * i + 12)
      in if first \<noteq> 0 \<and> n \<noteq> 0
         then [\<lparr>pvol_pidx = of_nat (i + 1), pvol_flags = VF_NOCACHE, pvol_block_size = bs, pvol_offset = first, pvol_size = n\<rparr>] else [])"

definition partitions :: "u16 \<Rightarrow> u8 list \<Rightarrow> nat \<Rightarrow> nat \<Rightarrow> pvol list" where
  "partitions bs mbr idx k = concat (map (parts_at bs mbr) [idx..<idx + k])"

lemma partitions_Suc: "partitions bs mbr idx (Suc k) = parts_at bs mbr idx @ partitions bs mbr (Suc idx) k"
  by (simp add: partitions_def upt_conv_Cons del: upt_Suc)

lemma partitions_0 [simp]: "partitions bs mbr idx 0 = []"
  by (simp add: partitions_def)

section \<open>Looking for a volume\<close>

text \<open>What \<open>verify\<close> does to the slots when every node can be locked.\<close>

fun verify_nodes :: "u32 \<Rightarrow> u32 \<Rightarrow> u32 \<Rightarrow> node option list \<Rightarrow> bool \<times> node option list" where
  "verify_nodes i first n [] = (False, [])"
| "verify_nodes i first n (None # ns) = (False, None # ns)"
| "verify_nodes i first n (Some Self # ns) = (case verify_nodes i first n ns of (r, ns) \<Rightarrow> (r, Some Self # ns))"
| "verify_nodes i first n (Some (Part p) # ns) =
     (if pvol_pidx p \<noteq> 0 \<and> ucast (pvol_pidx p) = i
      then (True, (if first \<noteq> 0 \<and> n \<noteq> 0 then Some (Part (p\<lparr>pvol_offset := first, pvol_size := n\<rparr>)) else None) # ns)
      else case verify_nodes i first n ns of (r, ns) \<Rightarrow> (r, Some (Part p) # ns))"

text \<open>The nodes can be locked: the volume's own mutex is free if its slot is among them.\<close>

definition lockable :: "node option list \<Rightarrow> ('p, 'h, 'd) volume \<Rightarrow> bool" where
  "lockable ns v \<longleftrightarrow> (Some Self \<in> set ns \<longrightarrow> mutex_idle (vol_mutex v) \<and> (blender_running (vol_env v) \<longrightarrow> blender_cpu (vol_env v)))"

definition mutex_after :: "node option list \<Rightarrow> cmutex option \<Rightarrow> cmutex option \<Rightarrow> bool" where
  "mutex_after ns m m' \<longleftrightarrow> (if Some Self \<in> set ns then mutex_idle m \<longrightarrow> mutex_idle m' else m' = m)"

lemma mutex_after_refl [simp]: "mutex_after ns m m"
  by (simp add: mutex_after_def)

lemma mutex_after_trans: "mutex_after ns m m' \<Longrightarrow> mutex_after ns m' m'' \<Longrightarrow> mutex_after ns m m''"
  by (simp add: mutex_after_def split: if_splits)

lemma mutex_after_Cons: "mutex_after ns m m' \<Longrightarrow> mutex_after (x # ns) m m'"
  by (auto simp: mutex_after_def split: if_splits)

lemma lockable_after: "lockable ns v \<Longrightarrow> mutex_after ns (vol_mutex v) m \<Longrightarrow> lockable ns (v\<lparr>vol_mutex := m\<rparr>)"
  by (auto simp: lockable_def mutex_after_def)

lemma lockable_tl: "lockable (x # ns) v \<Longrightarrow> lockable ns v"
  by (simp add: lockable_def)

lemma visit_Self:
  assumes "lockable ns v" "Some Self \<in> set ns"
  obtains m where "visit_node Self v = Some (v\<lparr>vol_mutex := m\<rparr>)" "mutex_idle m"
proof (cases "vol_mutex v")
  case None
  then have "v\<lparr>vol_mutex := None\<rparr> = v" by simp
  then show thesis using that [of None] None by (simp add: vol_lock_def vol_unlock_def mutex_idle_def)
next
  case (Some x)
  have "mutex_idle (vol_mutex v)" "blender_running (vol_env v) \<longrightarrow> blender_cpu (vol_env v)" using assms by (simp_all add: lockable_def)
  from acquire_idle [OF this, of 0] obtain h p where "acquire_mutex (vol_env v) (vol_mutex v) 0 MUTEX_TIMEOUT_INFINITE = Some (h, p)"
    "mutex_idle (map_option (\<lambda>x. cMutex_unlock x h) p)" .
  then show thesis using that Some by (simp add: vol_lock_def vol_unlock_def)
qed

lemma visit_lockable:
  assumes "lockable (Some nd # ns) v"
  obtains m where "visit_node nd v = Some (v\<lparr>vol_mutex := m\<rparr>)" "mutex_after [Some nd] (vol_mutex v) m"
proof (cases nd)
  case (Part p)
  then show thesis using that [of "vol_mutex v"] by simp
next
  case Self
  then obtain m where "visit_node Self v = Some (v\<lparr>vol_mutex := m\<rparr>)" "mutex_idle m" using visit_Self [OF assms] by auto
  then show thesis using that Self by (simp add: mutex_after_def)
qed

lemma request_slots_lockable:
  "lockable ns v \<Longrightarrow> \<exists>m. request_slots idx j ns v = Some (if j \<le> idx \<and> idx - j < length ns then ns ! (idx - j) else None, v\<lparr>vol_mutex := m\<rparr>) \<and>
    mutex_after ns (vol_mutex v) m"
proof (induction ns arbitrary: j v)
  case Nil
  show ?case by (intro exI [of _ "vol_mutex v"]) simp
next
  case (Cons x ns)
  have nx: "(if j \<le> idx \<and> idx - j < length (x # ns) then (x # ns) ! (idx - j) else None) =
      (if j = idx then x else if j + 1 \<le> idx \<and> idx - (j + 1) < length ns then ns ! (idx - (j + 1)) else None)"
    by (auto simp: nth_Cons')
  show ?case
  proof (cases x)
    case None
    obtain m where m: "request_slots idx (j + 1) ns v = Some (if j + 1 \<le> idx \<and> idx - (j + 1) < length ns then ns ! (idx - (j + 1)) else None, v\<lparr>vol_mutex := m\<rparr>)"
      "mutex_after ns (vol_mutex v) m" using Cons.IH [OF lockable_tl [OF Cons.prems], of "j + 1"] by blast
    then show ?thesis unfolding nx using None mutex_after_Cons [OF m(2)] by (intro exI [of _ m]) simp
  next
    case (Some nd)
    obtain m1 where v1: "visit_node nd v = Some (v\<lparr>vol_mutex := m1\<rparr>)" "mutex_after [Some nd] (vol_mutex v) m1"
      using visit_lockable Cons.prems Some by blast
    have a1: "mutex_after (x # ns) (vol_mutex v) m1" using v1(2) Some by (auto simp: mutex_after_def split: if_splits)
    have "lockable ns (v\<lparr>vol_mutex := m1\<rparr>)" using lockable_tl [OF lockable_after [OF Cons.prems a1]] .
    from Cons.IH [OF this, of "j + 1"] obtain m where
      m: "request_slots idx (j + 1) ns (v\<lparr>vol_mutex := m1\<rparr>) = Some (if j + 1 \<le> idx \<and> idx - (j + 1) < length ns then ns ! (idx - (j + 1)) else None, v\<lparr>vol_mutex := m\<rparr>)"
      "mutex_after ns m1 m" by auto
    have a: "mutex_after (x # ns) (vol_mutex v) m" using mutex_after_trans [OF a1 mutex_after_Cons [OF m(2)]] .
    show ?thesis
    proof (cases "j = idx")
      case True
      then show ?thesis unfolding nx using Some v1(1) a1 by (intro exI [of _ m1]) simp
    next
      case False
      then show ?thesis unfolding nx using Some v1(1) m(1) a by (intro exI [of _ m]) simp
    qed
  qed
qed

text \<open>With nodes that can be locked, the loop of \<open>verify\<close> goes over the slots from \<open>idx\<close> on.\<close>

lemma verify_loop_lockable:
  assumes "lockable (vol_nodes v) v" "idx \<le> length (vol_nodes v)" "k = length (vol_nodes v) - idx + 1"
  shows "\<exists>m. verify_loop i first n idx k v = Some (fst (verify_nodes i first n (drop idx (vol_nodes v))),
      v\<lparr>vol_nodes := take idx (vol_nodes v) @ snd (verify_nodes i first n (drop idx (vol_nodes v))), vol_mutex := m\<rparr>) \<and>
    mutex_after (vol_nodes v) (vol_mutex v) m"
  using assms
proof (induction k arbitrary: idx v)
  case 0
  have False using "0.prems"(3) by simp
  then show ?case ..
next
  case (Suc k)
  obtain m where m: "driver_request idx v = Some (if idx < length (vol_nodes v) then vol_nodes v ! idx else None, v\<lparr>vol_mutex := m\<rparr>)"
    "mutex_after (vol_nodes v) (vol_mutex v) m"
    using request_slots_lockable [OF Suc.prems(1), of idx 0] by (auto simp: driver_request_def)
  show ?case
  proof (cases "idx < length (vol_nodes v)")
    case False
    then show ?thesis using m Suc.prems by (intro exI [of _ m]) simp
  next
    case True
    let ?v = "v\<lparr>vol_mutex := m\<rparr>"
    have d: "drop idx (vol_nodes v) = vol_nodes v ! idx # drop (idx + 1) (vol_nodes v)" using True by (simp add: Cons_nth_drop_Suc)
    have tk: "take (idx + 1) (vol_nodes v) = take idx (vol_nodes v) @ [vol_nodes v ! idx]" using True by (simp add: take_Suc_conv_app_nth)
    have lk: "lockable (vol_nodes ?v) ?v" using lockable_after [OF Suc.prems(1) m(2)] by simp
    have bd: "idx + 1 \<le> length (vol_nodes ?v)" "k = length (vol_nodes ?v) - (idx + 1) + 1" using True Suc.prems(3) by simp_all
    from Suc.IH [OF lk bd] obtain m' where m': "verify_loop i first n (idx + 1) k ?v = Some (fst (verify_nodes i first n (drop (idx + 1) (vol_nodes v))),
        v\<lparr>vol_nodes := take (idx + 1) (vol_nodes v) @ snd (verify_nodes i first n (drop (idx + 1) (vol_nodes v))), vol_mutex := m'\<rparr>)"
      "mutex_after (vol_nodes v) m m'" by auto
    consider (none) "vol_nodes v ! idx = None" | (self) "vol_nodes v ! idx = Some Self"
      | (hit) p where "vol_nodes v ! idx = Some (Part p)" "pvol_pidx p \<noteq> 0 \<and> ucast (pvol_pidx p) = i"
      | (miss) p where "vol_nodes v ! idx = Some (Part p)" "\<not> (pvol_pidx p \<noteq> 0 \<and> ucast (pvol_pidx p) = i)"
      by (cases "vol_nodes v ! idx") (metis node.exhaust)+
    then show ?thesis
    proof cases
      case none
      then have "v\<lparr>vol_mutex := m\<rparr> = v\<lparr>vol_nodes := take idx (vol_nodes v) @ drop idx (vol_nodes v), vol_mutex := m\<rparr>" by simp
      then show ?thesis using m True none d by (intro exI [of _ m]) simp
    next
      case hit
      have "(vol_nodes v)[idx := x] = take idx (vol_nodes v) @ x # drop (idx + 1) (vol_nodes v)" for x
        using True by (simp add: upd_conv_take_nth_drop)
      then show ?thesis using m True hit unfolding d by (intro exI [of _ m]) simp
    next
      case self
      then have "verify_loop i first n idx (Suc k) v = verify_loop i first n (idx + 1) k ?v" using m(1) True by simp
      then show ?thesis using m'(1) mutex_after_trans [OF m(2) m'(2)] self unfolding d tk by (intro exI [of _ m']) (simp split: prod.splits)
    next
      case miss
      then have "verify_loop i first n idx (Suc k) v = verify_loop i first n (idx + 1) k ?v" using m(1) True by auto
      then show ?thesis using m'(1) mutex_after_trans [OF m(2) m'(2)] miss unfolding d tk by (intro exI [of _ m']) (auto split: prod.splits)
    qed
  qed
qed

lemma vol_verify_lockable:
  assumes "lockable (vol_nodes v) v" "se_droot (vol_senv v)"
  shows "\<exists>m. vol_verify i first n v = Some (fst (verify_nodes i first n (vol_nodes v)), v\<lparr>vol_nodes := snd (verify_nodes i first n (vol_nodes v)), vol_mutex := m\<rparr>) \<and>
    mutex_after (vol_nodes v) (vol_mutex v) m"
  using verify_loop_lockable [OF assms(1) le0, OF refl, of i first n] assms(2) by (simp add: vol_verify_def del: verify_loop.simps)

section \<open>The first scan\<close>

lemma verify_absent:
  assumes "\<And>p. p \<in> set ps \<Longrightarrow> ucast (pvol_pidx p) \<noteq> i" "vol_nodes v = map (\<lambda>p. Some (Part p)) ps @ replicate r None"
  shows "vol_verify i first n v = Some (False, v)"
proof (cases "se_droot (vol_senv v)")
  case True
  have "verify_nodes i first n (map (\<lambda>p. Some (Part p)) ps @ replicate r None) = (False, map (\<lambda>p. Some (Part p)) ps @ replicate r None)"
    using assms(1)
  proof (induction ps)
    case Nil
    then show ?case by (cases r) simp_all
  qed simp
  moreover have "Some Self \<notin> set (vol_nodes v)" using assms(2) by auto
  moreover have "v\<lparr>vol_nodes := vol_nodes v, vol_mutex := vol_mutex v\<rparr> = v" by simp
  ultimately show ?thesis using vol_verify_lockable [OF _ True, of i first n] assms(2) by (simp add: lockable_def mutex_after_def)
qed (simp add: vol_verify_def)

lemma attach_end: "attach_node (Part p) (map (\<lambda>p. Some (Part p)) ps @ replicate (Suc r) None) = map (\<lambda>p. Some (Part p)) (ps @ [p]) @ replicate r None"
  by (induction ps) simp_all

lemma rd_pt:
  assumes "PT_OFFSET + 64 \<le> length mbr" "idx < 4"
  shows "rd_u32 mbr (PT_OFFSET + 16 * idx + 8) = Some (pt_word mbr (PT_OFFSET + 16 * idx + 8))"
    and "rd_u32 mbr (PT_OFFSET + 16 * idx + 12) = Some (pt_word mbr (PT_OFFSET + 16 * idx + 12))"
  using assms by (simp_all add: rd_u32_def pt_word_def)

lemma idx_words:
  assumes "i < 4" "j < 4" "i \<noteq> j"
  shows "ucast (of_nat (i + 1) :: u8) \<noteq> (of_nat (j + 1) :: u32)"
proof
  assume "ucast (of_nat (i + 1) :: u8) = (of_nat (j + 1) :: u32)"
  then have "unat (ucast (of_nat (i + 1) :: u8) :: u32) = unat (of_nat (j + 1) :: u32)" by (rule arg_cong)
  moreover have "i + 1 < 2 ^ 8" "j + 1 < 2 ^ 32" using assms(1,2) by simp_all
  ultimately show False using assms(3) by (simp add: unsigned_ucast_eq unat_of_nat take_bit_nat_eq_self del: of_nat_Suc of_nat_add)
qed

text \<open>A scan appends the volumes of the records that it comes to, as long as none has the number of a volume that is there.\<close>

lemma scan_loop_appends:
  assumes "PT_OFFSET + 64 \<le> length mbr" "idx + k \<le> 4" "se_droot (vol_senv v)" "se_clone (vol_senv v)" "vol_nodes v = map (\<lambda>p. Some (Part p)) ps @ replicate r None" "k \<le> r"
    "\<And>p. p \<in> set ps \<Longrightarrow> \<exists>i<idx. pvol_pidx p = of_nat (i + 1)"
  shows "\<exists>v'. scan_loop H mbr idx k v = Some v' \<and>
    vol_nodes v' = map (\<lambda>p. Some (Part p)) (ps @ partitions (h_block_size H (vol_host v)) mbr idx k) @ replicate (r - length (partitions (h_block_size H (vol_host v)) mbr idx k)) None"
  using assms(2-)
proof (induction k arbitrary: idx v ps r)
  case (Suc k)
  let ?f = "pt_word mbr (PT_OFFSET + 16 * idx + 8)" and ?n = "pt_word mbr (PT_OFFSET + 16 * idx + 12)" and ?bs = "h_block_size H (vol_host v)"
  have i: "idx < 4" using Suc.prems(1) by simp
  have "ucast (pvol_pidx p) \<noteq> (of_nat (idx + 1) :: u32)" if "p \<in> set ps" for p
    using Suc.prems(6) [OF that] idx_words i by (metis less_trans less_irrefl)
  then have ver: "vol_verify (of_nat (idx + 1)) ?f ?n v = Some (False, v)" using verify_absent Suc.prems(4) by blast
  let ?p = "\<lparr>pvol_pidx = of_nat (idx + 1), pvol_flags = VF_NOCACHE, pvol_block_size = ?bs, pvol_offset = ?f, pvol_size = ?n\<rparr>"
  obtain r' where r: "r = Suc r'" using Suc.prems(5) by (cases r) simp_all
  let ?v = "if ?f \<noteq> 0 \<and> ?n \<noteq> 0 then register_part H (of_nat (idx + 1)) ?f ?n v else v"
  have st: "scan_loop H mbr idx (Suc k) v = scan_loop H mbr (Suc idx) k ?v" using ver rd_pt [OF assms(1) i] by simp
  show ?case
  proof (cases "?f \<noteq> 0 \<and> ?n \<noteq> 0")
    case True
    then have v: "?v = v\<lparr>vol_nodes := map (\<lambda>p. Some (Part p)) (ps @ [?p]) @ replicate r' None\<rparr>"
      using Suc.prems(2-4) attach_end [of ?p ps r'] r by (simp add: register_part_def Let_def)
    have p: "parts_at ?bs mbr idx = [?p]" using True by (simp add: parts_at_def Let_def)
    have "\<exists>v'. scan_loop H mbr (Suc idx) k ?v = Some v' \<and> vol_nodes v' = map (\<lambda>p. Some (Part p)) ((ps @ [?p]) @ partitions (h_block_size H (vol_host ?v)) mbr (Suc idx) k) @
        replicate (r' - length (partitions (h_block_size H (vol_host ?v)) mbr (Suc idx) k)) None"
      using Suc.prems r unfolding v by (intro Suc.IH) (auto simp: less_Suc_eq)
    then show ?thesis using st v r by (simp add: partitions_Suc p)
  next
    case False
    then have p: "parts_at ?bs mbr idx = []" by (auto simp: parts_at_def Let_def)
    have "\<exists>v'. scan_loop H mbr (Suc idx) k v = Some v' \<and> vol_nodes v' = map (\<lambda>p. Some (Part p)) (ps @ partitions ?bs mbr (Suc idx) k) @
        replicate (r - length (partitions ?bs mbr (Suc idx) k)) None"
      using Suc.prems by (intro Suc.IH) (auto simp: less_Suc_eq)
    then show ?thesis using st False by (auto simp: partitions_Suc p)
  qed
qed simp

lemma scan_loop_first:
  assumes "PT_OFFSET + 64 \<le> length mbr" "idx + k \<le> 4" "vol_senv v = \<lparr>se_heap = True, se_droot = True, se_clone = True\<rparr>" "vol_nodes v = []"
  shows "\<exists>v'. scan_loop H mbr idx k v = Some v' \<and> vol_nodes v' =
    (let ps = partitions (h_block_size H (vol_host v)) mbr idx k in if ps = [] then [] else map (\<lambda>p. Some (Part p)) ps @ replicate (MAX_NODE_COUNT - length ps) None)"
  using assms(2-)
proof (induction k arbitrary: idx v)
  case (Suc k)
  let ?f = "pt_word mbr (PT_OFFSET + 16 * idx + 8)" and ?n = "pt_word mbr (PT_OFFSET + 16 * idx + 12)" and ?bs = "h_block_size H (vol_host v)"
  have i: "idx < 4" using Suc.prems(1) by simp
  have ver: "vol_verify (of_nat (idx + 1)) ?f ?n v = Some (False, v)" using verify_absent [of "[]" _ v 0] Suc.prems(3) by simp
  let ?p = "\<lparr>pvol_pidx = of_nat (idx + 1), pvol_flags = VF_NOCACHE, pvol_block_size = ?bs, pvol_offset = ?f, pvol_size = ?n\<rparr>"
  let ?v = "if ?f \<noteq> 0 \<and> ?n \<noteq> 0 then register_part H (of_nat (idx + 1)) ?f ?n v else v"
  have st: "scan_loop H mbr idx (Suc k) v = scan_loop H mbr (Suc idx) k ?v" using ver rd_pt [OF assms(1) i] by simp
  show ?case
  proof (cases "?f \<noteq> 0 \<and> ?n \<noteq> 0")
    case True
    have m: "MAX_NODE_COUNT = Suc 127" by (simp add: MAX_NODE_COUNT_def)
    have "attach_node (Part ?p) (replicate MAX_NODE_COUNT None) = map (\<lambda>p. Some (Part p)) [?p] @ replicate 127 None"
      unfolding m by (simp only: replicate_Suc attach_node.simps list.map append.simps)
    then have v: "?v = v\<lparr>vol_nodes := map (\<lambda>p. Some (Part p)) [?p] @ replicate 127 None\<rparr>"
      using True Suc.prems(2,3) by (simp add: register_part_def Let_def)
    have p: "parts_at ?bs mbr idx = [?p]" using True by (simp add: parts_at_def Let_def)
    have "\<exists>v'. scan_loop H mbr (Suc idx) k ?v = Some v' \<and> vol_nodes v' = map (\<lambda>p. Some (Part p)) ([?p] @ partitions (h_block_size H (vol_host ?v)) mbr (Suc idx) k) @
        replicate (127 - length (partitions (h_block_size H (vol_host ?v)) mbr (Suc idx) k)) None"
      using Suc.prems unfolding v by (intro scan_loop_appends [OF assms(1)]) auto
    then show ?thesis using st v by (simp add: partitions_Suc p MAX_NODE_COUNT_def)
  next
    case False
    then have p: "parts_at ?bs mbr idx = []" by (auto simp: parts_at_def Let_def)
    have "\<exists>v'. scan_loop H mbr (Suc idx) k v = Some v' \<and> vol_nodes v' =
        (let ps = partitions ?bs mbr (Suc idx) k in if ps = [] then [] else map (\<lambda>p. Some (Part p)) ps @ replicate (MAX_NODE_COUNT - length ps) None)"
      using Suc.prems by (intro Suc.IH) auto
    then show ?thesis using st False by (auto simp: partitions_Suc p)
  qed
qed simp

text \<open>Reading blocks does not touch the slots of the host.\<close>

lemma block_read_keeps:
  assumes "vol_block_io H P halloc Some False b n buf v = Some (r, buf', v')"
  shows "vol_nodes v' = vol_nodes v" "vol_senv v' = vol_senv v" "vol_mutex v' = vol_mutex v" "vol_env v' = vol_env v"
  using assms
  by (auto simp: vol_block_io_def vol_direct_io_def vol_cache_alloc_def vol_cache_request_def Let_def split: if_splits option.splits prod.splits bind_splits)

lemma scan_reads:
  assumes "vol_pidx v = 0" "h_class H (vol_host v) = DCLASS_HDD" "h_block_dev H (vol_host v)" "se_heap (vol_senv v)"
    "vol_block_io H P halloc Some False 0 1 (replicate (unat (h_block_size H (vol_host v))) 0) v = Some (1, mbr, v1)"
  shows "vol_scan H P halloc v = scan_loop H mbr 0 4 v1"
  using assms by (simp add: vol_scan_def)

text \<open>A disk that answers every request with its first block, and its volume.\<close>

definition one_block_if :: "u8 list host_if" where
  "one_block_if = \<lparr>h_ioctl = \<lambda>_ io d. Some (io\<lparr>dio_buffer := d, dio_result := 1\<rparr>, d), h_block_size = \<lambda>_. 512, h_max_op_sectors = \<lambda>_. 64,
     h_class = \<lambda>_. DCLASS_HDD, h_block_dev = \<lambda>_. True\<rparr>"

definition hdd_volume :: "u8 list \<Rightarrow> node option list \<Rightarrow> (unit, unit, u8 list) volume" where
  "hdd_volume d ns = \<lparr>vol_env = \<lparr>blender_running = False, blender_cpu = False, has_cpu = False\<rparr>, vol_flags = VF_NOCACHE OR VF_HOSTCTRL, vol_pidx = 0,
     vol_block_size = 512, vol_offset = 0, vol_host = d, vol_parent = None, m_current_offset = 0, m_cache_handle = 0, m_p_cache = None, vol_pma = None,
     m_p_ncbuf = 0, ncbuf = [], m_ncp_count = 0, m_io_enable = True, m_io_lock = 0, vol_senv = \<lparr>se_heap = True, se_droot = True, se_clone = True\<rparr>,
     vol_nodes = ns, vol_mutex = None\<rparr>"

definition no_parent :: "unit parent_if" where
  "no_parent = \<lparr>pv_ioctl = \<lambda>_ io p. Some (io, p), pv_file_io = \<lambda>_ _ buf _ p. Some (0, buf, p)\<rparr>"

lemma hdd_volume_reads:
  "vol_block_io one_block_if no_parent halloc Some False 0 1 buf (hdd_volume d ns) = Some (1, d, hdd_volume d ns)"
  by (simp add: vol_block_io_def vol_direct_io_def hdd_volume_def one_block_if_def VF_NOCACHE_def VF_HOSTCTRL_def)

lemma hdd_volume_fields:
  "vol_pidx (hdd_volume d ns) = 0" "h_class one_block_if x = DCLASS_HDD" "h_block_dev one_block_if x" "vol_nodes (hdd_volume d ns) = ns"
  "vol_senv (hdd_volume d ns) = \<lparr>se_heap = True, se_droot = True, se_clone = True\<rparr>" "h_block_size one_block_if x = 512" "vol_host (hdd_volume d ns) = d"
  by (simp_all add: hdd_volume_def one_block_if_def)

text \<open>A first block with records 0 and 1 of the table.\<close>

definition table :: "u8 list \<Rightarrow> u8 list \<Rightarrow> u8 list" where
  "table r0 r1 = replicate 454 0 @ r0 @ replicate 8 0 @ r1 @ replicate 34 0"

lemma rcat_zeros: "word_rcat (replicate n (0 :: u8)) = (0 :: u32)"
proof -
  have "horner_sum uint 256 (replicate n (0 :: u8)) = (0 :: int)" by (induction n) simp_all
  then show ?thesis by (simp add: word_rcat_def)
qed

lemma table_words:
  assumes "length r0 = 8" "length r1 = 8"
  shows "pt_word (table r0 r1) 454 = word_rcat (rev (take 4 r0))" "pt_word (table r0 r1) 458 = word_rcat (rev (drop 4 r0))"
    "pt_word (table r0 r1) 470 = word_rcat (rev (take 4 r1))" "pt_word (table r0 r1) 474 = word_rcat (rev (drop 4 r1))"
    "pt_word (table r0 r1) 486 = 0" "pt_word (table r0 r1) 502 = 0" "length (table r0 r1) = 512"
  using assms by (simp_all add: pt_word_def table_def rcat_zeros)

text \<open>C21: the volume of a whole disk that finds no volumes on its host and can read the first block registers a volume for every record of the partition
  table with a first block and a size, in the order of the table, with the number, first block and size of the record, and no other.\<close>

theorem scan_finds_partitions:
  assumes "vol_pidx v = 0" "h_class H (vol_host v) = DCLASS_HDD" "h_block_dev H (vol_host v)" "vol_nodes v = []"
    "vol_senv v = \<lparr>se_heap = True, se_droot = True, se_clone = True\<rparr>"
    "vol_block_io H P halloc Some False 0 1 (replicate (unat (h_block_size H (vol_host v))) 0) v = Some (1, mbr, v1)" "510 \<le> length mbr"
  shows "\<exists>v'. vol_scan H P halloc v = Some v' \<and> vol_nodes v' =
    (let ps = partitions (h_block_size H (vol_host v1)) mbr 0 4 in if ps = [] then [] else map (\<lambda>p. Some (Part p)) ps @ replicate (128 - length ps) None)"
proof -
  have k: "vol_nodes v1 = []" "vol_senv v1 = \<lparr>se_heap = True, se_droot = True, se_clone = True\<rparr>"
    using block_read_keeps [OF assms(6)] assms(4,5) by simp_all
  have s: "vol_scan H P halloc v = scan_loop H mbr 0 4 v1" using scan_reads [OF assms(1-3) _ assms(6)] assms(5) by simp
  have l: "PT_OFFSET + 64 \<le> length mbr" using assms(7) by (simp add: PT_OFFSET_def)
  show ?thesis unfolding s using scan_loop_first [OF l _ k(2,1), of 0 4 H, unfolded MAX_NODE_COUNT_def] by simp
qed

theorem scan_finds_partitions_witness:
  "\<exists>v'. vol_scan one_block_if no_parent (\<lambda>_ h. Some (0, h)) (hdd_volume (table [63, 0, 0, 0, 100, 0, 0, 0] (replicate 8 0)) []) = Some v' \<and>
     vol_nodes v' = Some (Part \<lparr>pvol_pidx = 1, pvol_flags = VF_NOCACHE, pvol_block_size = 512, pvol_offset = 63, pvol_size = 100\<rparr>) # replicate 127 None"
proof -
  let ?d = "table [63, 0, 0, 0, 100, 0, 0, 0] (replicate 8 0)"
  have "parts_at 512 ?d 0 = [\<lparr>pvol_pidx = 1, pvol_flags = VF_NOCACHE, pvol_block_size = 512, pvol_offset = 63, pvol_size = 100\<rparr>]"
    "parts_at 512 ?d 1 = []" "parts_at 512 ?d 2 = []" "parts_at 512 ?d 3 = []"
    by (simp_all add: parts_at_def PT_OFFSET_def table_words rcat_zeros) (simp add: word_rcat_def)
  then have "partitions 512 ?d 0 4 = [\<lparr>pvol_pidx = 1, pvol_flags = VF_NOCACHE, pvol_block_size = 512, pvol_offset = 63, pvol_size = 100\<rparr>]"
    by (simp add: partitions_def numeral_eq_Suc)
  moreover have "\<exists>v'. vol_scan one_block_if no_parent (\<lambda>_ h. Some (0, h)) (hdd_volume ?d []) = Some v' \<and> vol_nodes v' =
      (let ps = partitions (h_block_size one_block_if (vol_host (hdd_volume ?d []))) ?d 0 4 in if ps = [] then [] else map (\<lambda>p. Some (Part p)) ps @ replicate (128 - length ps) None)"
    by (rule scan_finds_partitions [OF hdd_volume_fields(1-3) hdd_volume_fields(4,5) hdd_volume_reads]) (simp add: table_words)
  ultimately show ?thesis by (simp add: hdd_volume_fields)
qed

section \<open>Scanning again\<close>

text \<open>A request that meets the volume's own node while its mutex is held does not return. One that returns has found the volume of a partition.\<close>

lemma blocked_request:
  "vol_lock 0 v = None \<Longrightarrow> Some Self \<in> set ns \<Longrightarrow> request_slots idx j ns v = Some (nd, v') \<Longrightarrow>
    v' = v \<and> j \<le> idx \<and> idx - j < length ns \<and> (\<exists>p. nd = Some (Part p) \<and> ns ! (idx - j) = Some (Part p))"
proof (induction ns arbitrary: j)
  case (Cons x ns)
  have step: "v' = v \<and> j \<le> idx \<and> idx - j < length (x # ns) \<and> (\<exists>p. nd = Some (Part p) \<and> (x # ns) ! (idx - j) = Some (Part p))"
    if "request_slots idx (j + 1) ns v = Some (nd, v')" "Some Self \<in> set ns"
    using Cons.IH [OF Cons.prems(1) that(2,1)] by (auto simp: nth_Cons')
  consider "x = None" | p where "x = Some (Part p)" | "x = Some Self" by (cases x) (metis node.exhaust)+
  then show ?case using step Cons.prems by cases (auto split: if_splits)
qed simp

lemma blocked_verify:
  "vol_lock 0 v = None \<Longrightarrow> Some Self \<in> set (vol_nodes v) \<Longrightarrow> idx \<le> length (vol_nodes v) \<and> length (vol_nodes v) < idx + k \<Longrightarrow> verify_loop i first n idx k v = Some (r, v') \<Longrightarrow>
    r \<and> (\<exists>j p x. j < length (vol_nodes v) \<and> vol_nodes v ! j = Some (Part p) \<and> ucast (pvol_pidx p) = i \<and> v' = v\<lparr>vol_nodes := (vol_nodes v)[j := x]\<rparr> \<and>
      (x = None \<or> (\<exists>q. x = Some (Part q) \<and> pvol_pidx q = pvol_pidx p)))"
proof (induction k arbitrary: idx)
  case 0
  then show ?case by linarith
next
  case (Suc k)
  obtain nd v1 where d: "driver_request idx v = Some (nd, v1)" using Suc.prems(4) by (auto simp: bind_eq_Some_conv)
  obtain p where p: "v1 = v" "idx < length (vol_nodes v)" "nd = Some (Part p)" "vol_nodes v ! idx = Some (Part p)"
    using blocked_request [OF Suc.prems(1,2) d [unfolded driver_request_def]] by auto
  show ?case
  proof (cases "pvol_pidx p \<noteq> 0 \<and> ucast (pvol_pidx p) = i")
    case True
    let ?x = "if first \<noteq> 0 \<and> n \<noteq> 0 then Some (Part (p\<lparr>pvol_offset := first, pvol_size := n\<rparr>)) else None"
    have "r" "v' = v\<lparr>vol_nodes := (vol_nodes v)[idx := ?x]\<rparr>" using Suc.prems(4) d p True by (simp_all del: if_image_distrib)
    then show ?thesis using p(2,4) True by (intro conjI exI [of _ idx] exI [of _ p] exI [of _ ?x]) auto
  next
    case False
    then have "verify_loop i first n (idx + 1) k v = Some (r, v')" using Suc.prems(4) d p by auto
    then show ?thesis using Suc.IH [of "idx + 1"] Suc.prems(1-3) p(2) by simp
  qed
qed

lemma vol_lock_nodes: "vol_lock 0 (v\<lparr>vol_nodes := ns\<rparr>) = None \<longleftrightarrow> vol_lock 0 v = None"
  by (simp add: vol_lock_def)

text \<open>The record of a partition that has no volume stops the scan.\<close>

lemma blocked_scan:
  assumes "PT_OFFSET + 64 \<le> length mbr" "se_droot (vol_senv v)"
  shows "vol_lock 0 v = None \<Longrightarrow> Some Self \<in> set (vol_nodes v) \<Longrightarrow> idx + k \<le> 4 \<Longrightarrow> idx \<le> i \<Longrightarrow> i < idx + k \<Longrightarrow>
    \<forall>p. Some (Part p) \<in> set (vol_nodes v) \<longrightarrow> ucast (pvol_pidx p) \<noteq> (of_nat (i + 1) :: u32) \<Longrightarrow> scan_loop H mbr idx k v = None"
  using assms(2)
proof (induction k arbitrary: idx v)
  case (Suc k)
  let ?f = "pt_word mbr (PT_OFFSET + 16 * idx + 8)" and ?n = "pt_word mbr (PT_OFFSET + 16 * idx + 12)"
  have i4: "idx < 4" using Suc.prems(3) by simp
  note rd = rd_pt [OF assms(1) i4]
  show ?case
  proof (cases "vol_verify (of_nat (idx + 1)) ?f ?n v")
    case None
    then show ?thesis using rd by simp
  next
    case (Some rv)
    then obtain r v1 where rv: "verify_loop (of_nat (idx + 1)) ?f ?n 0 (length (vol_nodes v) + 1) v = Some (r, v1)"
      "vol_verify (of_nat (idx + 1)) ?f ?n v = Some (r, v1)"
      using Suc.prems(7) by (cases rv) (simp add: vol_verify_def)
    obtain j p x where b: "r" "j < length (vol_nodes v)" "vol_nodes v ! j = Some (Part p)" "ucast (pvol_pidx p) = (of_nat (idx + 1) :: u32)"
      "v1 = v\<lparr>vol_nodes := (vol_nodes v)[j := x]\<rparr>" "x = None \<or> (\<exists>q. x = Some (Part q) \<and> pvol_pidx q = pvol_pidx p)"
      using blocked_verify [OF Suc.prems(1,2) _ rv(1)] by auto
    have "i \<noteq> idx" using b(2-4) Suc.prems(6) nth_mem by metis
    then have ix: "idx + 1 \<le> i" "i < idx + 1 + k" using Suc.prems(4,5) by simp_all
    obtain s where "s < length (vol_nodes v)" "vol_nodes v ! s = Some Self" using Suc.prems(2) by (auto simp: in_set_conv_nth)
    moreover from this b(3) have "s \<noteq> j" by auto
    ultimately have self: "Some Self \<in> set (vol_nodes v1)" using b(5) by (auto simp: in_set_conv_nth intro!: exI [of _ s])
    have rest: "ucast (pvol_pidx q) \<noteq> (of_nat (i + 1) :: u32)" if "Some (Part q) \<in> set (vol_nodes v1)" for q
      using that b(2-6) Suc.prems(6) set_update_subset_insert [of "vol_nodes v" j x] nth_mem [OF b(2)] by fastforce
    have "scan_loop H mbr (idx + 1) k v1 = None"
      using Suc.IH [of v1 "idx + 1"] self rest ix Suc.prems(1,3,7) b(5) by (simp add: vol_lock_nodes)
    then show ?thesis using rd rv(2) b(1) by simp
  qed
qed simp

lemma idx_ucast: "i < 4 \<Longrightarrow> ucast (p :: u8) = (of_nat (i + 1) :: u32) \<longleftrightarrow> p = of_nat (i + 1)"
proof -
  assume "i < 4"
  then have "i + 1 < 2 ^ 8" "i + 1 < 2 ^ 32" by simp_all
  moreover have "unat p < 2 ^ 32" using unsigned_less [of p, where 'a = nat] by simp
  ultimately show ?thesis by (simp add: word_unat_eq_iff unsigned_ucast_eq unat_of_nat take_bit_nat_eq_self del: of_nat_Suc of_nat_add)
qed

text \<open>C27: A rescan blocks on the volume itself. While the mutex of the volume of a disk is held, as \<open>driver_ioctl\<close> holds it around a write to block 0, and the
  volume has its slot on the host, the scan never returns as soon as one of the four partition numbers has no volume: \<open>verify\<close> looks for it
  with \<open>driver_request\<close>, which takes the mutex of every node of the host without a handle, that of the scanning volume included.\<close>

theorem rescan_blocks_on_itself:
  assumes "vol_pidx v = 0" "h_class H (vol_host v) = DCLASS_HDD" "h_block_dev H (vol_host v)" "vol_senv v = \<lparr>se_heap = True, se_droot = True, se_clone = True\<rparr>"
    "vol_mutex v = Some x" "cMutex_held x h m" "blender_running (vol_env v) \<longrightarrow> blender_cpu (vol_env v)" "Some Self \<in> set (vol_nodes v)" "i < 4"
    "\<forall>p. Some (Part p) \<in> set (vol_nodes v) \<longrightarrow> pvol_pidx p \<noteq> of_nat (i + 1)"
    "vol_block_io H P halloc Some False 0 1 (replicate (unat (h_block_size H (vol_host v))) 0) v = Some (1, mbr, v1)" "510 \<le> length mbr"
  shows "vol_scan H P halloc v = None"
proof -
  have k: "vol_nodes v1 = vol_nodes v" "vol_senv v1 = vol_senv v" "vol_mutex v1 = vol_mutex v" "vol_env v1 = vol_env v"
    using block_read_keeps [OF assms(11)] by simp_all
  have s: "vol_scan H P halloc v = scan_loop H mbr 0 4 v1" using scan_reads [OF assms(1-3) _ assms(11)] assms(4) by simp
  have l: "PT_OFFSET + 64 \<le> length mbr" using assms(12) by (simp add: PT_OFFSET_def)
  have b: "vol_lock 0 v1 = None" using acquire_held_blocks [OF assms(6,7)] assms(5) k(3,4) by (simp add: vol_lock_def)
  show ?thesis unfolding s
    by (rule blocked_scan [OF l _ b, of _ _ i]) (use assms(4,8-10) k idx_ucast [OF assms(9)] in auto)
qed

definition held_mutex :: cmutex where
  "held_mutex = \<lparr>m_addr = 0x1000, m_mutex = \<lparr>lock_count = 1, handle_count = 5, lock_flag = LOCK_MAGIC\<rparr>\<rparr>"

theorem rescan_blocks_on_itself_witness:
  "vol_scan one_block_if no_parent (\<lambda>_ h. Some (0, h)) ((hdd_volume (table (replicate 8 0) [63, 0, 0, 0, 100, 0, 0, 0]) [Some Self])\<lparr>vol_mutex := Some held_mutex\<rparr>) = None"
proof (rule rescan_blocks_on_itself [where i = 0 and x = held_mutex and h = "GET_HANDLE 0x1000 5" and m = 1])
  let ?d = "table (replicate 8 0) [63, 0, 0, 0, 100, 0, 0, 0]"
  show "cMutex_held held_mutex (GET_HANDLE 0x1000 5) 1" by (simp add: cMutex_held_def held_mutex_def)
  show "vol_block_io one_block_if no_parent (\<lambda>_ h. Some (0, h)) Some False 0 1
      (replicate (unat (h_block_size one_block_if (vol_host ((hdd_volume ?d [Some Self])\<lparr>vol_mutex := Some held_mutex\<rparr>)))) 0)
      ((hdd_volume ?d [Some Self])\<lparr>vol_mutex := Some held_mutex\<rparr>) = Some (1, ?d, (hdd_volume ?d [Some Self])\<lparr>vol_mutex := Some held_mutex\<rparr>)"
    by (simp add: vol_block_io_def vol_direct_io_def hdd_volume_def one_block_if_def VF_NOCACHE_def VF_HOSTCTRL_def)
qed (simp_all add: hdd_volume_fields table_words hdd_volume_def)

text \<open>One record of a scan over nodes that can be locked.\<close>

lemma scan_step:
  assumes "PT_OFFSET + 64 \<le> length mbr" "idx < 4" "lockable [Some Self] v" "vol_senv v = \<lparr>se_heap = True, se_droot = True, se_clone = True\<rparr>"
    "verify_nodes (of_nat (idx + 1)) (pt_word mbr (PT_OFFSET + 16 * idx + 8)) (pt_word mbr (PT_OFFSET + 16 * idx + 12)) (vol_nodes v) = (r, ns)" "ns \<noteq> []"
    "(if r then ns else fold (\<lambda>p. attach_node (Part p)) (parts_at (h_block_size H (vol_host v)) mbr idx) ns) = ns'"
  shows "\<exists>m. scan_loop H mbr idx (Suc k) v = scan_loop H mbr (Suc idx) k (v\<lparr>vol_nodes := ns', vol_mutex := m\<rparr>) \<and> lockable [Some Self] (v\<lparr>vol_mutex := m\<rparr>)"
proof -
  let ?f = "pt_word mbr (PT_OFFSET + 16 * idx + 8)" and ?n = "pt_word mbr (PT_OFFSET + 16 * idx + 12)"
  have lk: "lockable (vol_nodes v) v" using assms(3) by (simp add: lockable_def)
  obtain m where m: "vol_verify (of_nat (idx + 1)) ?f ?n v = Some (r, v\<lparr>vol_nodes := ns, vol_mutex := m\<rparr>)" "mutex_after (vol_nodes v) (vol_mutex v) m"
    using vol_verify_lockable [OF lk, of "of_nat (idx + 1)" ?f ?n] assms(4,5) by auto
  have "lockable [Some Self] (v\<lparr>vol_mutex := m\<rparr>)" using assms(3) m(2) by (auto simp: lockable_def mutex_after_def split: if_splits)
  moreover have "(if \<not> r \<and> ?f \<noteq> 0 \<and> ?n \<noteq> 0 then register_part H (of_nat (idx + 1)) ?f ?n (v\<lparr>vol_nodes := ns, vol_mutex := m\<rparr>)
      else v\<lparr>vol_nodes := ns, vol_mutex := m\<rparr>) = v\<lparr>vol_nodes := ns', vol_mutex := m\<rparr>"
    using assms(4,6,7) by (auto simp: parts_at_def register_part_def Let_def)
  ultimately show ?thesis using m(1) rd_pt [OF assms(1,2)] by (intro exI [of _ m]) (simp del: of_nat_Suc of_nat_add)
qed

text \<open>When the mutex of the volume is free during a rescan, as it is when \<open>driver_ioctl\<close> has locked it with the handle of an earlier request
  (such a lock counts but does not take the flag), a partition deleted from the table makes the scan register the following one a second time:
  \<open>verify\<close> frees the slot of the first volume, takes the empty slot for the end of the volumes when it looks for the second one, and a new volume
  for the second partition goes into it.\<close>

lemma rescan_duplicates_partition:
  assumes "vol_pidx v = 0" "h_class H (vol_host v) = DCLASS_HDD" "h_block_dev H (vol_host v)"
    "vol_nodes v = Some (Part p) # Some (Part q) # Some Self # replicate r None" "mutex_idle (vol_mutex v)" "blender_running (vol_env v) \<longrightarrow> blender_cpu (vol_env v)"
    "pvol_pidx p = 1" "pvol_pidx q = 2" "vol_senv v = \<lparr>se_heap = True, se_droot = True, se_clone = True\<rparr>"
    "vol_block_io H P halloc Some False 0 1 (replicate (unat (h_block_size H (vol_host v))) 0) v = Some (1, mbr, v1)" "510 \<le> length mbr"
    "parts_at (h_block_size H (vol_host v1)) mbr 0 = []" "parts_at (h_block_size H (vol_host v1)) mbr 1 = [q]"
    "parts_at (h_block_size H (vol_host v1)) mbr 2 = []" "parts_at (h_block_size H (vol_host v1)) mbr 3 = []"
  shows "\<exists>v'. vol_scan H P halloc v = Some v' \<and> vol_nodes v' = Some (Part q) # Some (Part q) # Some Self # replicate r None"
proof -
  let ?f = "\<lambda>i. pt_word mbr (PT_OFFSET + 16 * i + 8)" and ?n = "\<lambda>i. pt_word mbr (PT_OFFSET + 16 * i + 12)"
  let ?gap = "None # Some (Part q) # Some Self # replicate r None" and ?ns = "Some (Part q) # Some (Part q) # Some Self # replicate r None"
  have k: "vol_nodes v1 = vol_nodes v" "vol_senv v1 = vol_senv v" "vol_mutex v1 = vol_mutex v" "vol_env v1 = vol_env v"
    using block_read_keeps [OF assms(10)] by simp_all
  have s: "vol_scan H P halloc v = scan_loop H mbr 0 4 v1" using scan_reads [OF assms(1-3) _ assms(10)] assms(9) by simp
  have l: "PT_OFFSET + 64 \<le> length mbr" using assms(11) by (simp add: PT_OFFSET_def)
  have e: "?f 0 = 0 \<or> ?n 0 = 0" using assms(12) by (auto simp: parts_at_def Let_def split: if_splits)
  have nf: "verify_nodes i f n (replicate r None) = (False, replicate r None)" for i f n by (cases r) simp_all
  have w: "lockable [Some Self] (v1\<lparr>vol_nodes := ns, vol_mutex := m\<rparr>)" "vol_senv (v1\<lparr>vol_nodes := ns, vol_mutex := m\<rparr>) = \<lparr>se_heap = True, se_droot = True, se_clone = True\<rparr>"
    if "lockable [Some Self] (v1\<lparr>vol_mutex := m\<rparr>)" for ns m using that k(2) assms(9) by (simp_all add: lockable_def)
  have s0: "lockable [Some Self] v1" "vol_senv v1 = \<lparr>se_heap = True, se_droot = True, se_clone = True\<rparr>" using assms(5,6,9) k by (simp_all add: lockable_def)
  obtain m0 where m0: "scan_loop H mbr 0 (Suc 3) v1 = scan_loop H mbr (Suc 0) 3 (v1\<lparr>vol_nodes := ?gap, vol_mutex := m0\<rparr>)" "lockable [Some Self] (v1\<lparr>vol_mutex := m0\<rparr>)"
    using scan_step [OF l _ s0, of 0 True ?gap H ?gap 3] k(1) assms(4,7) e by (auto simp del: scan_loop.simps)
  obtain m1 where m1: "scan_loop H mbr 1 (Suc 2) (v1\<lparr>vol_nodes := ?gap, vol_mutex := m0\<rparr>) = scan_loop H mbr (Suc 1) 2 (v1\<lparr>vol_nodes := ?ns, vol_mutex := m1\<rparr>)"
    "lockable [Some Self] (v1\<lparr>vol_mutex := m1\<rparr>)"
    using scan_step [OF l _ w [OF m0(2)], of 1 ?gap False ?gap H ?ns 2] assms(13) by (auto simp del: scan_loop.simps simp: lockable_def)
  obtain m2 where m2: "scan_loop H mbr 2 (Suc 1) (v1\<lparr>vol_nodes := ?ns, vol_mutex := m1\<rparr>) = scan_loop H mbr (Suc 2) 1 (v1\<lparr>vol_nodes := ?ns, vol_mutex := m2\<rparr>)"
    "lockable [Some Self] (v1\<lparr>vol_mutex := m2\<rparr>)"
    using scan_step [OF l _ w [OF m1(2)], of 2 ?ns False ?ns H ?ns 1] assms(8,14) nf by (auto simp del: scan_loop.simps simp: lockable_def)
  obtain m3 where m3: "scan_loop H mbr 3 (Suc 0) (v1\<lparr>vol_nodes := ?ns, vol_mutex := m2\<rparr>) = scan_loop H mbr (Suc 3) 0 (v1\<lparr>vol_nodes := ?ns, vol_mutex := m3\<rparr>)"
    using scan_step [OF l _ w [OF m2(2)], of 3 ?ns False ?ns H ?ns 0] assms(8,15) nf by (auto simp del: scan_loop.simps simp: lockable_def)
  have "scan_loop H mbr 0 4 v1 = Some (v1\<lparr>vol_nodes := ?ns, vol_mutex := m3\<rparr>)"
    using m0(1) m1(1) m2(1) m3 by (simp only: scan_loop.simps(1)) (simp add: numeral_eq_Suc del: scan_loop.simps)
  then show ?thesis using s by simp
qed

text \<open>When the first block cannot be read, the counter of the attempts wraps, the scan goes on with a block of zeros and removes the volume of the first
  partition.\<close>

lemma failed_read_removes_partition:
  assumes "vol_pidx v = 0" "h_class H (vol_host v) = DCLASS_HDD" "h_block_dev H (vol_host v)" "vol_nodes v = Some (Part p) # Some Self # replicate r None" "pvol_pidx p = 1"
    "mutex_idle (vol_mutex v)" "blender_running (vol_env v) \<longrightarrow> blender_cpu (vol_env v)"
    "vol_senv v = \<lparr>se_heap = True, se_droot = True, se_clone = True\<rparr>" "510 \<le> unat (h_block_size H (vol_host v))"
    "\<And>mbr. vol_block_io H P halloc Some False 0 1 mbr v = Some (0, mbr, v)"
  shows "\<exists>v'. vol_scan H P halloc v = Some v' \<and> vol_nodes v' = None # Some Self # replicate r None"
proof -
  let ?m = "replicate (unat (h_block_size H (vol_host v))) (0 :: u8)" and ?gap = "None # Some Self # replicate r None"
  have "mbr_loop (vol_block_io H P halloc Some False 0 1) n m v = Some (255, m, v)" for n m
    by (induction n) (simp_all add: assms(10))
  then have s: "vol_scan H P halloc v = scan_loop H ?m 0 4 v" using assms(1-3,8) by (simp add: vol_scan_def)
  have l: "PT_OFFSET + 64 \<le> length ?m" using assms(9) by (simp add: PT_OFFSET_def)
  have z: "pt_word ?m a = 0" for a by (simp add: pt_word_def rcat_zeros min_def)
  have pz: "parts_at bs ?m i = []" for bs i by (simp add: parts_at_def z)
  have w: "lockable [Some Self] (v\<lparr>vol_nodes := ns, vol_mutex := m\<rparr>)" "vol_senv (v\<lparr>vol_nodes := ns, vol_mutex := m\<rparr>) = \<lparr>se_heap = True, se_droot = True, se_clone = True\<rparr>"
    if "lockable [Some Self] (v\<lparr>vol_mutex := m\<rparr>)" for ns m using that assms(8) by (simp_all add: lockable_def)
  have s0: "lockable [Some Self] v" using assms(6,7) by (simp add: lockable_def)
  obtain m0 where m0: "scan_loop H ?m 0 (Suc 3) v = scan_loop H ?m (Suc 0) 3 (v\<lparr>vol_nodes := ?gap, vol_mutex := m0\<rparr>)" "lockable [Some Self] (v\<lparr>vol_mutex := m0\<rparr>)"
    using scan_step [OF l _ s0 assms(8), of 0 True ?gap H ?gap 3] assms(4,5) z by (auto simp del: scan_loop.simps)
  have nxt: "\<exists>m'. scan_loop H ?m i (Suc n) (v\<lparr>vol_nodes := ?gap, vol_mutex := m\<rparr>) = scan_loop H ?m (Suc i) n (v\<lparr>vol_nodes := ?gap, vol_mutex := m'\<rparr>) \<and>
      lockable [Some Self] (v\<lparr>vol_mutex := m'\<rparr>)" if "i < 4" "lockable [Some Self] (v\<lparr>vol_mutex := m\<rparr>)" for i n m
    using scan_step [OF l that(1) w [OF that(2)], of ?gap False ?gap H ?gap n] pz by (auto simp del: scan_loop.simps simp: lockable_def)
  obtain m1 where m1: "scan_loop H ?m 1 (Suc 2) (v\<lparr>vol_nodes := ?gap, vol_mutex := m0\<rparr>) = scan_loop H ?m (Suc 1) 2 (v\<lparr>vol_nodes := ?gap, vol_mutex := m1\<rparr>)"
    "lockable [Some Self] (v\<lparr>vol_mutex := m1\<rparr>)" using nxt [of 1 m0 2] m0(2) by auto
  obtain m2 where m2: "scan_loop H ?m 2 (Suc 1) (v\<lparr>vol_nodes := ?gap, vol_mutex := m1\<rparr>) = scan_loop H ?m (Suc 2) 1 (v\<lparr>vol_nodes := ?gap, vol_mutex := m2\<rparr>)"
    "lockable [Some Self] (v\<lparr>vol_mutex := m2\<rparr>)" using nxt [of 2 m1 1] m1(2) by auto
  obtain m3 where m3: "scan_loop H ?m 3 (Suc 0) (v\<lparr>vol_nodes := ?gap, vol_mutex := m2\<rparr>) = scan_loop H ?m (Suc 3) 0 (v\<lparr>vol_nodes := ?gap, vol_mutex := m3\<rparr>)"
    using nxt [of 3 m2 0] m2(2) by auto
  have "scan_loop H ?m 0 4 v = Some (v\<lparr>vol_nodes := ?gap, vol_mutex := m3\<rparr>)"
    using m0(1) m1(1) m2(1) m3 by (simp only: scan_loop.simps(1)) (simp add: numeral_eq_Suc del: scan_loop.simps)
  then show ?thesis using s by simp
qed

end
