(* ===== verification/Timer.thy ===== *)
theory Timer
  imports Acquire
begin

unbundle bit_operations_syntax

text \<open>
  The system timer: the class cTimer of core/sys/timer.cpp. A table of timers is counted down by the callback of the real-time clock; a thread calls
  the callbacks of the timers that have reached 0. What the class asks of other objects (interrupts, the clock, threads, memory) are operations of an environment
  on the rest of the world, \<open>tm_w\<close>; a callback is a function on the timer object, since it may call its methods. \<open>None\<close> is a
  null pointer followed, an access outside of the table, or a call that never returns.
\<close>

section \<open>State\<close>

definition TF_SUSPEND :: u8 where "TF_SUSPEND = 1"
definition TF_PERIODIC :: u8 where "TF_PERIODIC = 2"
definition TSTATE_CALL :: u8 where "TSTATE_CALL = 1"
definition TSTATE_RUNNING :: u8 where "TSTATE_RUNNING = 2"
definition TSTATE_ACTIVE :: u8 where "TSTATE_ACTIVE = 4"
definition INITIAL_TIMER_PACK :: nat where "INITIAL_TIMER_PACK = 32"
definition sizeof_timer_info :: nat where "sizeof_timer_info = 26"

record timer_info =
  ti_flags :: u8
  ti_state :: u8
  ti_countdown :: u32
  ti_initial :: u32
  ti_callback :: ptr
  ti_udata :: ptr

record 'w tenv =
  te_sched :: sched_env
  te_heap :: bool
  te_interrupts :: "bool \<Rightarrow> 'w \<Rightarrow> bool \<times> 'w"
  te_enable_irq :: "bool \<Rightarrow> 'w \<Rightarrow> 'w"
  te_resume :: "u32 \<Rightarrow> 'w \<Rightarrow> 'w"
  te_suspend :: "u32 \<Rightarrow> 'w \<Rightarrow> 'w"
  te_alloc :: "u32 \<Rightarrow> 'w \<Rightarrow> ptr \<times> 'w"
  te_free :: "ptr \<Rightarrow> u32 \<Rightarrow> 'w \<Rightarrow> 'w"
  te_create_thread :: "'w \<Rightarrow> u32 \<times> 'w"
  te_set_callback :: "bool \<Rightarrow> 'w \<Rightarrow> 'w"

record 'w ctimer =
  tm_timers :: "timer_info list"
  tm_base :: ptr
  tm_blender :: bool
  tm_rtc :: bool
  tm_thread_running :: bool
  tm_thread_id :: u32
  tm_thread_state :: bool
  tm_timer_state :: bool
  tm_mutex :: "cmutex option"
  tm_w :: 'w

abbreviation active :: "timer_info \<Rightarrow> bool" where
  "active t \<equiv> ti_state t AND TSTATE_ACTIVE \<noteq> 0"

abbreviation running :: "timer_info \<Rightarrow> bool" where
  "running t \<equiv> ti_state t AND TSTATE_RUNNING \<noteq> 0"

section \<open>Operations\<close>

definition cTimer_lock :: "'w tenv \<Rightarrow> u64 \<Rightarrow> 'w ctimer \<Rightarrow> (u64 \<times> 'w ctimer) option" where
  "cTimer_lock E hlock c =
     (if tm_mutex c \<noteq> None
      then map_option (\<lambda>(r, m). (r, c\<lparr>tm_mutex := m\<rparr>)) (acquire_mutex (te_sched E) (tm_mutex c) hlock MUTEX_TIMEOUT_INFINITE)
      else Some (0, c))"

definition cTimer_unlock :: "u64 \<Rightarrow> 'w ctimer \<Rightarrow> 'w ctimer" where
  "cTimer_unlock hlock c = c\<lparr>tm_mutex := map_option (\<lambda>m. cMutex_unlock m hlock) (tm_mutex c)\<rparr>"

definition cTimer_interrupts :: "'w tenv \<Rightarrow> bool \<Rightarrow> 'w ctimer \<Rightarrow> bool \<times> 'w ctimer" where
  "cTimer_interrupts E en c = (case te_interrupts E en (tm_w c) of (b, w) \<Rightarrow> (b, c\<lparr>tm_w := w\<rparr>))"

definition timer_on :: "'w tenv \<Rightarrow> bool \<Rightarrow> 'w ctimer \<Rightarrow> 'w ctimer" where
  "timer_on E on c =
     (let change = (if on then \<not> tm_timer_state c else tm_timer_state c)
      in if tm_rtc c \<and> change then c\<lparr>tm_timer_state := on, tm_w := te_enable_irq E on (tm_w c)\<rparr> else c)"

definition thread_on :: "'w tenv \<Rightarrow> bool \<Rightarrow> 'w ctimer \<Rightarrow> 'w ctimer" where
  "thread_on E on c =
     (if on then
        if \<not> tm_thread_state c
        then c\<lparr>tm_thread_state := True, tm_w := (if tm_blender c then te_resume E (tm_thread_id c) (tm_w c) else tm_w c)\<rparr> else c
      else
        if tm_thread_state c
        then c\<lparr>tm_thread_state := False, tm_w := (if tm_blender c then te_suspend E (tm_thread_id c) (tm_w c) else tm_w c)\<rparr> else c)"

definition update_state :: "'w tenv \<Rightarrow> 'w ctimer \<Rightarrow> 'w ctimer" where
  "update_state E c = (let on = list_ex (\<lambda>t. active t \<and> running t) (tm_timers c) in thread_on E on (timer_on E on c))"

definition zero_timer :: timer_info where
  "zero_timer = \<lparr>ti_flags = 0, ti_state = 0, ti_countdown = 0, ti_initial = 0, ti_callback = 0, ti_udata = 0\<rparr>"

definition pack_bytes :: "nat \<Rightarrow> u32" where
  "pack_bytes n = of_nat n * of_nat sizeof_timer_info"

definition alloc_timer_pack :: "'w tenv \<Rightarrow> u64 \<Rightarrow> 'w ctimer \<Rightarrow> 'w ctimer option" where
  "alloc_timer_pack E hlock c =
     do {
       let (irqs, c) = cTimer_interrupts E False c;
       (h, c) \<leftarrow> cTimer_lock E hlock c;
       let m_count = length (tm_timers c);
       let (p, w) = (if te_heap E then te_alloc E (pack_bytes (m_count + INITIAL_TIMER_PACK)) (tm_w c) else (0, tm_w c));
       let c = c\<lparr>tm_w := w\<rparr>;
       let c = (if p \<noteq> 0 then
                  c\<lparr>tm_timers := tm_timers c @ replicate INITIAL_TIMER_PACK zero_timer, tm_base := p,
                    tm_w := (if tm_base c \<noteq> 0 then te_free E (tm_base c) (pack_bytes m_count) (tm_w c) else tm_w c)\<rparr>
                else c);
       let (_, c) = cTimer_interrupts E irqs c;
       Some (cTimer_unlock h c)
     }"

text \<open>\<open>object_init\<close> gets its mutex from the repository and registers the driver, which is an operation of the driver tree.\<close>

definition cTimer_init :: "'w tenv \<Rightarrow> cmutex option \<Rightarrow> 'w ctimer \<Rightarrow> (bool \<times> 'w ctimer) option" where
  "cTimer_init E p_mutex c = map_option (\<lambda>c. (True, c)) (alloc_timer_pack E 0 (c\<lparr>tm_mutex := p_mutex\<rparr>))"

definition cTimer_destroy :: "'w tenv \<Rightarrow> 'w ctimer \<Rightarrow> 'w ctimer" where
  "cTimer_destroy E c =
     (if te_heap E then c\<lparr>tm_timers := [], tm_base := 0, tm_w := te_free E (tm_base c) (pack_bytes (length (tm_timers c))) (tm_w c)\<rparr> else c)"

text \<open>The callback of the real-time clock.\<close>

definition tick_timer :: "timer_info \<Rightarrow> timer_info" where
  "tick_timer t = (if active t \<and> running t \<and> ti_countdown t \<noteq> 0 then t\<lparr>ti_countdown := ti_countdown t - 1\<rparr> else t)"

definition rtc_callback :: "'w tenv \<Rightarrow> 'w ctimer \<Rightarrow> 'w ctimer option" where
  "rtc_callback E c =
     do {
       (h, c) \<leftarrow> cTimer_lock E 0 c;
       let c = c\<lparr>tm_timers := map tick_timer (tm_timers c)\<rparr>;
       let thread = list_ex (\<lambda>t. active t \<and> running t \<and> ti_countdown t \<le> 1) (tm_timers c);
       Some (cTimer_unlock h (thread_on E thread c))
     }"

text \<open>One turn of the timer thread. The callback runs with the mutex released and may change the table.\<close>

definition upd_timer :: "nat \<Rightarrow> (timer_info \<Rightarrow> timer_info) \<Rightarrow> 'w ctimer \<Rightarrow> 'w ctimer option" where
  "upd_timer i f c = (if i < length (tm_timers c) then Some (c\<lparr>tm_timers := (tm_timers c)[i := f (tm_timers c ! i)]\<rparr>) else None)"

definition expired :: "timer_info \<Rightarrow> bool" where
  "expired t \<longleftrightarrow> active t \<and> running t \<and> ti_countdown t = 0"

definition run_callback ::
    "'w tenv \<Rightarrow> (ptr \<Rightarrow> ptr \<Rightarrow> 'w ctimer \<Rightarrow> 'w ctimer option) \<Rightarrow> nat \<Rightarrow> bool \<Rightarrow> u64 \<Rightarrow> 'w ctimer \<Rightarrow> (bool \<times> u64 \<times> 'w ctimer) option" where
  "run_callback E call i irqs h c =
     (if i < length (tm_timers c) then
        let t = tm_timers c ! i
        in if ti_callback t \<noteq> 0 then
             do {
               c \<leftarrow> upd_timer i (\<lambda>t. t\<lparr>ti_state := ti_state t OR TSTATE_CALL\<rparr>) c;
               let (_, c) = cTimer_interrupts E irqs (cTimer_unlock h c);
               c \<leftarrow> call (ti_callback t) (ti_udata t) c;
               let (irqs, c) = cTimer_interrupts E False c;
               (h, c) \<leftarrow> cTimer_lock E 0 c;
               c \<leftarrow> upd_timer i (\<lambda>t. t\<lparr>ti_state := ti_state t AND NOT TSTATE_CALL\<rparr>) c;
               Some (irqs, h, c)
             }
           else Some (irqs, h, c)
      else None)"

partial_function (option) turn_loop ::
    "'w tenv \<Rightarrow> (ptr \<Rightarrow> ptr \<Rightarrow> 'w ctimer \<Rightarrow> 'w ctimer option) \<Rightarrow> nat \<Rightarrow> bool \<Rightarrow> u64 \<Rightarrow> 'w ctimer \<Rightarrow> (bool \<times> u64 \<times> 'w ctimer) option" where
  "turn_loop E call i irqs h c =
     (if i < length (tm_timers c) then
        if expired (tm_timers c ! i) then
          do {
            (irqs, h, c) \<leftarrow> run_callback E call i irqs h c;
            c \<leftarrow> (if ti_flags (tm_timers c ! i) AND TF_PERIODIC = 0
                  then map_option (update_state E) (upd_timer i (\<lambda>t. t\<lparr>ti_state := ti_state t AND NOT TSTATE_ACTIVE\<rparr>) c) else Some c);
            c \<leftarrow> upd_timer i (\<lambda>t. t\<lparr>ti_countdown := ti_initial t\<rparr>) c;
            turn_loop E call (i + 1) irqs h c
          }
        else turn_loop E call (i + 1) irqs h c
      else Some (irqs, h, c))"

definition thread_turn :: "'w tenv \<Rightarrow> (ptr \<Rightarrow> ptr \<Rightarrow> 'w ctimer \<Rightarrow> 'w ctimer option) \<Rightarrow> 'w ctimer \<Rightarrow> 'w ctimer option" where
  "thread_turn E call c =
     (if tm_blender c then
        do {
          let (irqs, c) = cTimer_interrupts E False c;
          (h, c) \<leftarrow> cTimer_lock E 0 c;
          (irqs, h, c) \<leftarrow> turn_loop E call 0 irqs h c;
          Some (snd (cTimer_interrupts E irqs (cTimer_unlock h c)))
        }
      else None)"

text \<open>The thread: \<open>switch\<close> is what happens between two turns.\<close>

partial_function (option) thread_loop ::
    "'w tenv \<Rightarrow> (ptr \<Rightarrow> ptr \<Rightarrow> 'w ctimer \<Rightarrow> 'w ctimer option) \<Rightarrow> ('w ctimer \<Rightarrow> 'w ctimer option) \<Rightarrow> 'w ctimer \<Rightarrow> 'w ctimer option" where
  "thread_loop E call switch c =
     (if tm_thread_running c then do { c \<leftarrow> thread_turn E call c; c \<leftarrow> switch c; thread_loop E call switch c } else Some c)"

definition timer_thread ::
    "'w tenv \<Rightarrow> (ptr \<Rightarrow> ptr \<Rightarrow> 'w ctimer \<Rightarrow> 'w ctimer option) \<Rightarrow> ('w ctimer \<Rightarrow> 'w ctimer option) \<Rightarrow> 'w ctimer \<Rightarrow> 'w ctimer option" where
  "timer_thread E call switch c = thread_loop E call switch (c\<lparr>tm_thread_running := True, tm_thread_state := True\<rparr>)"

section \<open>Requests\<close>

definition set_timer :: "u32 \<Rightarrow> u8 \<Rightarrow> ptr \<Rightarrow> ptr \<Rightarrow> timer_info \<Rightarrow> timer_info" where
  "set_timer resolution flags p_callback p_udata t =
     \<lparr>ti_flags = flags, ti_state = (let s = ti_state t OR TSTATE_ACTIVE in if flags AND TF_SUSPEND = 0 then s OR TSTATE_RUNNING else s),
      ti_countdown = resolution, ti_initial = resolution, ti_callback = p_callback, ti_udata = p_udata\<rparr>"

partial_function (option) create_loop :: "'w tenv \<Rightarrow> u32 \<Rightarrow> u8 \<Rightarrow> ptr \<Rightarrow> ptr \<Rightarrow> u64 \<Rightarrow> 'w ctimer \<Rightarrow> (u32 \<times> 'w ctimer) option" where
  "create_loop E resolution flags p_callback p_udata h c =
     (case find (\<lambda>i. \<not> active (tm_timers c ! i)) [0..<length (tm_timers c)] of
        Some i \<Rightarrow> Some (of_nat i, c\<lparr>tm_timers := (tm_timers c)[i := set_timer resolution flags p_callback p_udata (tm_timers c ! i)]\<rparr>)
      | None \<Rightarrow> do { c \<leftarrow> alloc_timer_pack E h c; create_loop E resolution flags p_callback p_udata h c })"

definition cTimer_create :: "'w tenv \<Rightarrow> u32 \<Rightarrow> u8 \<Rightarrow> ptr \<Rightarrow> ptr \<Rightarrow> 'w ctimer \<Rightarrow> (u32 \<times> 'w ctimer) option" where
  "cTimer_create E resolution flags p_callback p_udata c =
     (if tm_blender c then
        do {
          let (irqs, c) = cTimer_interrupts E False c;
          (h, c) \<leftarrow> cTimer_lock E 0 c;
          (r, c) \<leftarrow> create_loop E resolution flags p_callback p_udata h c;
          Some (r, snd (cTimer_interrupts E irqs (cTimer_unlock h (update_state E c))))
        }
      else None)"

definition set_state :: "'w tenv \<Rightarrow> (u8 \<Rightarrow> u8) \<Rightarrow> u32 \<Rightarrow> 'w ctimer \<Rightarrow> 'w ctimer option" where
  "set_state E f htimer c =
     (if tm_blender c then
        do {
          let (irqs, c) = cTimer_interrupts E False c;
          (h, c) \<leftarrow> cTimer_lock E 0 c;
          let c = (if unat htimer < length (tm_timers c)
                   then c\<lparr>tm_timers := (tm_timers c)[unat htimer := (tm_timers c ! unat htimer)\<lparr>ti_state := f (ti_state (tm_timers c ! unat htimer))\<rparr>]\<rparr>
                   else c);
          Some (snd (cTimer_interrupts E irqs (cTimer_unlock h (update_state E c))))
        }
      else None)"

definition cTimer_suspend :: "'w tenv \<Rightarrow> u32 \<Rightarrow> 'w ctimer \<Rightarrow> 'w ctimer option" where
  "cTimer_suspend E = set_state E (\<lambda>s. s AND NOT TSTATE_RUNNING)"

definition cTimer_resume :: "'w tenv \<Rightarrow> u32 \<Rightarrow> 'w ctimer \<Rightarrow> 'w ctimer option" where
  "cTimer_resume E = set_state E (\<lambda>s. s OR TSTATE_RUNNING)"

definition cTimer_remove :: "'w tenv \<Rightarrow> u32 \<Rightarrow> 'w ctimer \<Rightarrow> 'w ctimer option" where
  "cTimer_remove E = set_state E (\<lambda>s. s AND NOT TSTATE_ACTIVE)"

definition cTimer_driver_init :: "'w tenv \<Rightarrow> bool \<Rightarrow> bool \<Rightarrow> bool \<Rightarrow> 'w ctimer \<Rightarrow> bool \<times> 'w ctimer" where
  "cTimer_driver_init E cpu_running blender rtc c =
     (if cpu_running then
        let c = c\<lparr>tm_blender := blender, tm_rtc := rtc\<rparr>
        in if rtc \<and> blender then
             case te_create_thread E (tm_w c) of (i, w) \<Rightarrow> (True, c\<lparr>tm_thread_id := i, tm_w := te_set_callback E True w\<rparr>)
           else (False, c)
      else (False, c))"

definition cTimer_driver_uninit :: "'w tenv \<Rightarrow> 'w ctimer \<Rightarrow> 'w ctimer" where
  "cTimer_driver_uninit E c =
     (let c = thread_on E True (c\<lparr>tm_thread_running := False\<rparr>)
      in if tm_rtc c then c\<lparr>tm_w := te_set_callback E False (tm_w c)\<rparr> else c)"

section \<open>Requests and memory\<close>

lemma state_bits:
  "s AND TSTATE_ACTIVE \<noteq> 0 \<longleftrightarrow> bit s 2" "s AND TSTATE_RUNNING \<noteq> 0 \<longleftrightarrow> bit s 1"
  using and_exp_eq_0_iff_not_bit [of s 2] and_exp_eq_0_iff_not_bit [of s 1] by (simp_all add: TSTATE_ACTIVE_def TSTATE_RUNNING_def)

lemma mark_bits:
  "bit TSTATE_ACTIVE n \<longleftrightarrow> n = 2" "bit TSTATE_RUNNING n \<longleftrightarrow> n = 1" "bit TSTATE_CALL n \<longleftrightarrow> n = 0"
  using bit_exp_iff [of 2 n, where ?'a = u8] bit_exp_iff [of 1 n, where ?'a = u8] bit_exp_iff [of 0 n, where ?'a = u8]
  by (auto simp: TSTATE_ACTIVE_def TSTATE_RUNNING_def TSTATE_CALL_def)

lemma timer_on_keeps [simp]:
  "tm_timers (timer_on E on c) = tm_timers c" "tm_mutex (timer_on E on c) = tm_mutex c" "tm_blender (timer_on E on c) = tm_blender c"
  "tm_timers (thread_on E on c) = tm_timers c" "tm_mutex (thread_on E on c) = tm_mutex c" "tm_blender (thread_on E on c) = tm_blender c"
  by (simp_all add: timer_on_def thread_on_def Let_def)

lemma update_state_keeps [simp]:
  "tm_timers (update_state E c) = tm_timers c" "tm_mutex (update_state E c) = tm_mutex c" "tm_blender (update_state E c) = tm_blender c"
  by (simp_all add: update_state_def Let_def)

lemma interrupts_keep [simp]:
  "tm_timers (snd (cTimer_interrupts E en c)) = tm_timers c" "tm_mutex (snd (cTimer_interrupts E en c)) = tm_mutex c"
  "tm_blender (snd (cTimer_interrupts E en c)) = tm_blender c"
  by (simp_all add: cTimer_interrupts_def split: prod.splits)

lemma timer_unlock_keeps [simp]:
  "tm_timers (cTimer_unlock h c) = tm_timers c" "tm_blender (cTimer_unlock h c) = tm_blender c" "tm_w (cTimer_unlock h c) = tm_w c"
  "tm_mutex (cTimer_unlock h c) = map_option (\<lambda>m. cMutex_unlock m h) (tm_mutex c)"
  by (simp_all add: cTimer_unlock_def)

lemma timer_lock_idle:
  assumes "mutex_idle (tm_mutex c)" "blender_running (te_sched E) \<longrightarrow> blender_cpu (te_sched E)"
  obtains h m where "cTimer_lock E hl c = Some (h, c\<lparr>tm_mutex := m\<rparr>)" "mutex_idle (map_option (\<lambda>x. cMutex_unlock x h) m)"
proof (cases "tm_mutex c")
  case None
  then have "c = c\<lparr>tm_mutex := None\<rparr>" by simp
  then show thesis using that [of 0 None] None by (simp add: cTimer_lock_def mutex_idle_def)
next
  case (Some x)
  obtain h m where "acquire_mutex (te_sched E) (tm_mutex c) hl MUTEX_TIMEOUT_INFINITE = Some (h, m)" "mutex_idle (map_option (\<lambda>x. cMutex_unlock x h) m)"
    using acquire_idle [OF assms] by metis
  then show thesis using that Some by (simp add: cTimer_lock_def)
qed

text \<open>A timer that is created suspended in a slot with the mark of a running timer runs.\<close>

lemma create_in_running_slot:
  assumes "tm_blender c" "mutex_idle (tm_mutex c)" "blender_running (te_sched E) \<longrightarrow> blender_cpu (te_sched E)"
    "find (\<lambda>i. \<not> active (tm_timers c ! i)) [0..<length (tm_timers c)] = Some i" "running (tm_timers c ! i)"
  shows "\<exists>c'. cTimer_create E resolution TF_SUSPEND p_callback p_udata c = Some (of_nat i, c') \<and> i < length (tm_timers c') \<and>
    active (tm_timers c' ! i) \<and> running (tm_timers c' ! i)"
proof -
  let ?c = "snd (cTimer_interrupts E False c)"
  have i: "i < length (tm_timers c)" using assms(4) by (auto simp: find_Some_iff)
  obtain h m where l: "cTimer_lock E 0 ?c = Some (h, ?c\<lparr>tm_mutex := m\<rparr>)" using timer_lock_idle [of ?c E 0] assms(2,3) by (metis interrupts_keep(2))
  let ?t = "set_timer resolution TF_SUSPEND p_callback p_udata (tm_timers c ! i)"
  have cr: "create_loop E resolution TF_SUSPEND p_callback p_udata h (?c\<lparr>tm_mutex := m\<rparr>) = Some (of_nat i, ?c\<lparr>tm_mutex := m, tm_timers := (tm_timers c)[i := ?t]\<rparr>)"
    using assms(4) by (subst create_loop.simps) simp
  have "ti_state ?t AND TSTATE_ACTIVE \<noteq> 0" "ti_state ?t AND TSTATE_RUNNING \<noteq> 0"
    using assms(5) by (simp_all only: state_bits) (simp_all add: set_timer_def TF_SUSPEND_def Let_def bit_or_iff mark_bits)
  then show ?thesis using l cr i assms(1) by (auto simp: cTimer_create_def split: prod.splits)
qed

lemma remove_marks:
  assumes "tm_blender c" "mutex_idle (tm_mutex c)" "blender_running (te_sched E) \<longrightarrow> blender_cpu (te_sched E)" "i < length (tm_timers c)" "i < 2 ^ 32"
  shows "\<exists>c'. cTimer_remove E (of_nat i) c = Some c' \<and> tm_blender c' \<and> mutex_idle (tm_mutex c') \<and>
    tm_timers c' = (tm_timers c)[i := (tm_timers c ! i)\<lparr>ti_state := ti_state (tm_timers c ! i) AND NOT TSTATE_ACTIVE\<rparr>]"
proof -
  have u: "unat (of_nat i :: u32) = i" using assms(5) by (simp add: unat_of_nat take_bit_nat_eq_self)
  obtain irq c0 where c0: "cTimer_interrupts E False c = (irq, c0)" by (metis surj_pair)
  have k: "tm_timers c0 = tm_timers c" "tm_mutex c0 = tm_mutex c" "tm_blender c0 = tm_blender c" using interrupts_keep [of E False c] c0 by simp_all
  obtain h m where l: "cTimer_lock E 0 c0 = Some (h, c0\<lparr>tm_mutex := m\<rparr>)" "mutex_idle (map_option (\<lambda>x. cMutex_unlock x h) m)"
    by (rule timer_lock_idle [of c0 E 0]) (use assms(2,3) k in simp_all)
  show ?thesis using c0 k l u assms(1,4) by (simp add: cTimer_remove_def set_state_def Let_def)
qed

text \<open>C40: A suspended timer runs at once. When the first timer that is removed was running, \<open>remove\<close> clears only its mark of an active timer;
  \<open>create\<close> uses the slot again without clearing the mark of a running one, so a timer created in it with \<open>TF_SUSPEND\<close> is active and running.\<close>

theorem create_suspended_runs:
  assumes "tm_blender c" "mutex_idle (tm_mutex c)" "blender_running (te_sched E) \<longrightarrow> blender_cpu (te_sched E)" "i < length (tm_timers c)" "i < 2 ^ 32"
    "\<forall>j\<le>i. ti_state (tm_timers c ! j) AND TSTATE_ACTIVE \<noteq> 0" "ti_state (tm_timers c ! i) AND TSTATE_RUNNING \<noteq> 0"
  shows "\<exists>c1 c2. cTimer_remove E (of_nat i) c = Some c1 \<and> cTimer_create E resolution TF_SUSPEND p_callback p_udata c1 = Some (of_nat i, c2) \<and>
    i < length (tm_timers c2) \<and> ti_state (tm_timers c2 ! i) AND TSTATE_ACTIVE \<noteq> 0 \<and> ti_state (tm_timers c2 ! i) AND TSTATE_RUNNING \<noteq> 0"
proof -
  obtain c1 where c1: "cTimer_remove E (of_nat i) c = Some c1" "tm_blender c1" "mutex_idle (tm_mutex c1)"
    "tm_timers c1 = (tm_timers c)[i := (tm_timers c ! i)\<lparr>ti_state := ti_state (tm_timers c ! i) AND NOT TSTATE_ACTIVE\<rparr>]"
    using remove_marks [OF assms(1-5)] by blast
  have t: "\<not> active (tm_timers c1 ! i)" "running (tm_timers c1 ! i)"
    using c1(4) assms(4,7) unfolding state_bits by (simp_all add: bit_and_iff bit_not_iff mark_bits)
  have "find (\<lambda>j. \<not> active (tm_timers c1 ! j)) [0..<length (tm_timers c1)] = Some i"
    unfolding find_Some_iff using c1(4) assms(4,6) t(1) by (intro exI [of _ i]) auto
  from create_in_running_slot [OF c1(2,3) assms(3) this t(2)] c1(1) show ?thesis by blast
qed

lemma alloc_pack_none:
  assumes "alloc_timer_pack E h c = Some c'" "\<And>sz w. fst (te_alloc E sz w) = 0"
  shows "tm_timers c' = tm_timers c"
proof -
  let ?c = "snd (cTimer_interrupts E False c)"
  obtain h' c1 where l: "cTimer_lock E h ?c = Some (h', c1)" using assms(1) by (auto simp: alloc_timer_pack_def split: prod.splits bind_splits)
  then have "tm_timers c1 = tm_timers c" by (auto simp: cTimer_lock_def split: if_splits)
  moreover obtain w where "(if te_heap E then te_alloc E (pack_bytes (length (tm_timers c1) + INITIAL_TIMER_PACK)) (tm_w c1) else (0, tm_w c1)) = (0, w)"
    using assms(2) by (metis prod.collapse)
  ultimately show ?thesis using assms(1) l by (auto simp: alloc_timer_pack_def cTimer_interrupts_def Let_def split: prod.splits)
qed

lemma find_none_active:
  assumes "list_all P xs"
  shows "find (\<lambda>i. \<not> P (xs ! i)) [0..<length xs] = None"
  using assms by (auto simp: find_None_iff list_all_length)

lemma create_loop_hangs:
  assumes ret: "create_loop E resolution flags p_callback p_udata h c = Some y"
  shows "(\<forall>sz w. fst (te_alloc E sz w) = 0) \<longrightarrow> \<not> list_all (\<lambda>t. active t) (tm_timers c)"
proof (rule create_loop.raw_induct
    [where P = "\<lambda>E resolution flags p_callback p_udata h c y. (\<forall>sz w. fst (te_alloc E sz w) = 0) \<longrightarrow> \<not> list_all (\<lambda>t. active t) (tm_timers c)", OF _ ret])
  fix f :: "'a tenv \<Rightarrow> u32 \<Rightarrow> u8 \<Rightarrow> ptr \<Rightarrow> ptr \<Rightarrow> u64 \<Rightarrow> 'a ctimer \<Rightarrow> (u32 \<times> 'a ctimer) option"
    and E resolution flags p_callback p_udata h c y
  assume IH: "\<And>E resolution flags p_callback p_udata h c y. f E resolution flags p_callback p_udata h c = Some y \<Longrightarrow>
      (\<forall>sz w. fst (te_alloc E sz w) = 0) \<longrightarrow> \<not> list_all (\<lambda>t. active t) (tm_timers c)"
    and eq: "(case find (\<lambda>i. \<not> active (tm_timers c ! i)) [0..<length (tm_timers c)] of
        Some i \<Rightarrow> Some (of_nat i, c\<lparr>tm_timers := (tm_timers c)[i := set_timer resolution flags p_callback p_udata (tm_timers c ! i)]\<rparr>)
      | None \<Rightarrow> do { c \<leftarrow> alloc_timer_pack E h c; f E resolution flags p_callback p_udata h c }) = Some y"
  show "(\<forall>sz w. fst (te_alloc E sz w) = 0) \<longrightarrow> \<not> list_all (\<lambda>t. active t) (tm_timers c)"
  proof (intro impI notI)
    assume no: "\<forall>sz w. fst (te_alloc E sz w) = 0" and act: "list_all (\<lambda>t. active t) (tm_timers c)"
    obtain c1 where c1: "alloc_timer_pack E h c = Some c1" "f E resolution flags p_callback p_udata h c1 = Some y"
      using eq find_none_active [OF act] by (auto split: bind_splits)
    then show False using IH [OF c1(2)] alloc_pack_none [OF c1(1)] no act by simp
  qed
qed

text \<open>\<open>create\<close> never returns when all timers are active and the heap has no memory for more: it asks for it again and again.\<close>

lemma create_needs_memory:
  assumes "list_all (\<lambda>t. ti_state t AND TSTATE_ACTIVE \<noteq> 0) (tm_timers c)" "\<And>sz w. fst (te_alloc E sz w) = 0"
  shows "cTimer_create E resolution flags p_callback p_udata c = None"
proof (rule ccontr)
  let ?c = "snd (cTimer_interrupts E False c)"
  assume "cTimer_create E resolution flags p_callback p_udata c \<noteq> None"
  then obtain h c1 y where l: "cTimer_lock E 0 ?c = Some (h, c1)" and y: "create_loop E resolution flags p_callback p_udata h c1 = Some y"
    by (auto simp: cTimer_create_def split: prod.splits if_splits bind_splits)
  have "tm_timers c1 = tm_timers ?c" using l by (auto simp: cTimer_lock_def split: if_splits)
  then show False using create_loop_hangs [OF y] assms by simp
qed

section \<open>Expiry\<close>

text \<open>An environment and callbacks that only record which callbacks run.\<close>

definition log_env :: "sched_env \<Rightarrow> (ptr \<times> ptr) list tenv" where
  "log_env e = \<lparr>te_sched = e, te_heap = True, te_interrupts = \<lambda>_ w. (True, w), te_enable_irq = \<lambda>_ w. w, te_resume = \<lambda>_ w. w, te_suspend = \<lambda>_ w. w,
     te_alloc = \<lambda>_ w. (0, w), te_free = \<lambda>_ _ w. w, te_create_thread = \<lambda>w. (0, w), te_set_callback = \<lambda>_ w. w\<rparr>"

definition log_call :: "ptr \<Rightarrow> ptr \<Rightarrow> (ptr \<times> ptr) list ctimer \<Rightarrow> (ptr \<times> ptr) list ctimer option" where
  "log_call p u c = Some (c\<lparr>tm_w := tm_w c @ [(p, u)]\<rparr>)"

lemma log_env_keeps [simp]:
  "tm_w (timer_on (log_env e) on c) = tm_w c" "tm_w (thread_on (log_env e) on c) = tm_w c" "tm_w (update_state (log_env e) c) = tm_w c"
  "cTimer_interrupts (log_env e) en c = (True, c)" "te_sched (log_env e) = e"
  by (simp_all add: timer_on_def thread_on_def update_state_def log_env_def cTimer_interrupts_def Let_def)

abbreviation entry_of :: "timer_info \<Rightarrow> ptr \<times> ptr" where
  "entry_of t \<equiv> (ti_callback t, ti_udata t)"

text \<open>What a turn of the thread makes of a timer.\<close>

definition fire :: "timer_info \<Rightarrow> timer_info" where
  "fire t =
     (if expired t then
        let s = (if ti_callback t \<noteq> 0 then (ti_state t OR TSTATE_CALL) AND NOT TSTATE_CALL else ti_state t)
        in t\<lparr>ti_state := (if ti_flags t AND TF_PERIODIC = 0 then s AND NOT TSTATE_ACTIVE else s), ti_countdown := ti_initial t\<rparr>
      else t)"

definition calls_of :: "timer_info list \<Rightarrow> (ptr \<times> ptr) list" where
  "calls_of ts = map entry_of (filter (\<lambda>t. expired t \<and> ti_callback t \<noteq> 0) ts)"

lemma run_callback_log:
  assumes "blender_running e \<longrightarrow> blender_cpu e" "i < length (tm_timers c)" "mutex_idle (map_option (\<lambda>x. cMutex_unlock x h) (tm_mutex c))"
  defines "t \<equiv> tm_timers c ! i"
  obtains irqs' h' m where "run_callback (log_env e) log_call i irqs h c = Some (irqs', h', c\<lparr>tm_timers := (tm_timers c)[i :=
      t\<lparr>ti_state := (if ti_callback t \<noteq> 0 then (ti_state t OR TSTATE_CALL) AND NOT TSTATE_CALL else ti_state t)\<rparr>],
      tm_mutex := m, tm_w := (if ti_callback t \<noteq> 0 then tm_w c @ [entry_of t] else tm_w c)\<rparr>)" "mutex_idle (map_option (\<lambda>x. cMutex_unlock x h') m)"
proof (cases "ti_callback t = 0")
  case True
  have "c\<lparr>tm_timers := (tm_timers c)[i := t\<lparr>ti_state := ti_state t\<rparr>], tm_mutex := tm_mutex c, tm_w := tm_w c\<rparr> = c" by (simp add: t_def)
  then show thesis using that [of irqs h "tm_mutex c"] True assms(2,3) by (simp add: run_callback_def t_def [symmetric])
next
  case False
  let ?c = "c\<lparr>tm_timers := (tm_timers c)[i := t\<lparr>ti_state := ti_state t OR TSTATE_CALL\<rparr>]\<rparr>"
  let ?d = "(cTimer_unlock h ?c)\<lparr>tm_w := tm_w c @ [entry_of t]\<rparr>"
  have "mutex_idle (tm_mutex ?d)" "blender_running (te_sched (log_env e)) \<longrightarrow> blender_cpu (te_sched (log_env e))" using assms(1,3) by simp_all
  from timer_lock_idle [OF this, of 0] obtain h' m where l: "cTimer_lock (log_env e) 0 ?d = Some (h', ?d\<lparr>tm_mutex := m\<rparr>)"
    "mutex_idle (map_option (\<lambda>x. cMutex_unlock x h') m)" by metis
  show thesis using that [of True h' m] l False assms(2)
    by (simp add: run_callback_def upd_timer_def log_call_def t_def [symmetric] Let_def) (simp add: cTimer_unlock_def t_def)
qed

lemma turn_loop_log:
  assumes "blender_running e \<longrightarrow> blender_cpu e" "mutex_idle (map_option (\<lambda>x. cMutex_unlock x h) (tm_mutex c))" "i + n = length (tm_timers c)"
  shows "\<exists>irqs' h' c'. turn_loop (log_env e) log_call i irqs h c = Some (irqs', h', c') \<and> mutex_idle (map_option (\<lambda>x. cMutex_unlock x h') (tm_mutex c')) \<and>
    tm_timers c' = take i (tm_timers c) @ map fire (drop i (tm_timers c)) \<and> tm_w c' = tm_w c @ calls_of (drop i (tm_timers c)) \<and> tm_blender c' = tm_blender c"
  using assms(2,3)
proof (induction n arbitrary: i irqs h c)
  case 0
  then show ?case by (subst turn_loop.simps) (simp add: calls_of_def)
next
  case (Suc n)
  let ?ts = "tm_timers c" and ?t = "tm_timers c ! i"
  have i: "i < length ?ts" using Suc.prems(2) by simp
  have d: "drop i ?ts = ?t # drop (Suc i) ?ts" using i by (simp add: Cons_nth_drop_Suc)
  show ?case
  proof (cases "expired ?t")
    case False
    then have st: "turn_loop (log_env e) log_call i irqs h c = turn_loop (log_env e) log_call (Suc i) irqs h c" using i by (subst turn_loop.simps) simp
    have "Suc i + n = length ?ts" using Suc.prems(2) by simp
    moreover have "fire ?t = ?t" using False by (simp add: fire_def)
    ultimately show ?thesis using Suc.IH [of h c "Suc i" irqs] Suc.prems(1) False i unfolding st d by (simp add: calls_of_def take_Suc_conv_app_nth)
  next
    case True
    let ?s = "if ti_callback ?t \<noteq> 0 then (ti_state ?t OR TSTATE_CALL) AND NOT TSTATE_CALL else ti_state ?t"
    let ?w = "if ti_callback ?t \<noteq> 0 then tm_w c @ [entry_of ?t] else tm_w c"
    obtain irqs' h' m where r: "run_callback (log_env e) log_call i irqs h c = Some (irqs', h', c\<lparr>tm_timers := ?ts[i := ?t\<lparr>ti_state := ?s\<rparr>], tm_mutex := m, tm_w := ?w\<rparr>)"
      "mutex_idle (map_option (\<lambda>x. cMutex_unlock x h') m)" by (rule run_callback_log [OF assms(1) i Suc.prems(1)])
    define c1 where "c1 = c\<lparr>tm_timers := ?ts[i := ?t\<lparr>ti_state := ?s\<rparr>], tm_mutex := m, tm_w := ?w\<rparr>"
    define c2 where "c2 = (if ti_flags ?t AND TF_PERIODIC = 0
      then update_state (log_env e) (c1\<lparr>tm_timers := ?ts[i := ?t\<lparr>ti_state := ?s AND NOT TSTATE_ACTIVE\<rparr>]\<rparr>) else c1)"
    define c3 where "c3 = c2\<lparr>tm_timers := (tm_timers c2)[i := (tm_timers c2 ! i)\<lparr>ti_countdown := ti_initial (tm_timers c2 ! i)\<rparr>]\<rparr>"
    have st: "turn_loop (log_env e) log_call i irqs h c = turn_loop (log_env e) log_call (Suc i) irqs' h' c3"
      using i True r(1) by (subst turn_loop.simps) (simp add: upd_timer_def c1_def c2_def c3_def)
    have t3: "tm_timers c3 = ?ts[i := fire ?t]" using i True by (simp add: c1_def c2_def c3_def fire_def Let_def)
    have w3: "tm_w c3 = ?w" "tm_mutex c3 = m" "tm_blender c3 = tm_blender c" by (simp_all add: c1_def c2_def c3_def)
    have "Suc i + n = length (tm_timers c3)" "mutex_idle (map_option (\<lambda>x. cMutex_unlock x h') (tm_mutex c3))" using Suc.prems(2) r(2) t3 w3 by simp_all
    from Suc.IH [OF this(2,1), of irqs'] show ?thesis unfolding st d using True i t3 w3
      by (auto simp: calls_of_def take_Suc_conv_app_nth)
  qed
qed

text \<open>One interrupt of the clock, then one turn of the thread.\<close>

definition timer_round :: "'w tenv \<Rightarrow> (ptr \<Rightarrow> ptr \<Rightarrow> 'w ctimer \<Rightarrow> 'w ctimer option) \<Rightarrow> 'w ctimer \<Rightarrow> 'w ctimer option" where
  "timer_round E call c = do { c \<leftarrow> rtc_callback E c; thread_turn E call c }"

fun timer_rounds :: "'w tenv \<Rightarrow> (ptr \<Rightarrow> ptr \<Rightarrow> 'w ctimer \<Rightarrow> 'w ctimer option) \<Rightarrow> nat \<Rightarrow> 'w ctimer \<Rightarrow> 'w ctimer option" where
  "timer_rounds E call 0 c = Some c"
| "timer_rounds E call (Suc k) c = do { c \<leftarrow> timer_round E call c; timer_rounds E call k c }"

lemma round_log:
  assumes "blender_running e \<longrightarrow> blender_cpu e" "tm_blender c" "mutex_idle (tm_mutex c)"
  obtains c' where "timer_round (log_env e) log_call c = Some c'" "tm_blender c'" "mutex_idle (tm_mutex c')"
    "tm_timers c' = map (\<lambda>t. fire (tick_timer t)) (tm_timers c)" "tm_w c' = tm_w c @ calls_of (map tick_timer (tm_timers c))"
proof -
  have sch: "blender_running (te_sched (log_env e)) \<longrightarrow> blender_cpu (te_sched (log_env e))" using assms(1) by simp
  obtain h m where l: "cTimer_lock (log_env e) 0 c = Some (h, c\<lparr>tm_mutex := m\<rparr>)" "mutex_idle (map_option (\<lambda>x. cMutex_unlock x h) m)"
    by (rule timer_lock_idle [OF assms(3) sch])
  obtain c1 where c1: "rtc_callback (log_env e) c = Some c1" "tm_timers c1 = map tick_timer (tm_timers c)" "tm_w c1 = tm_w c" "tm_blender c1" "mutex_idle (tm_mutex c1)"
    using l assms(2) by (simp add: rtc_callback_def Let_def)
  obtain h2 m2 where l2: "cTimer_lock (log_env e) 0 c1 = Some (h2, c1\<lparr>tm_mutex := m2\<rparr>)" "mutex_idle (map_option (\<lambda>x. cMutex_unlock x h2) m2)"
    by (rule timer_lock_idle [OF c1(5) sch])
  have "mutex_idle (map_option (\<lambda>x. cMutex_unlock x h2) (tm_mutex (c1\<lparr>tm_mutex := m2\<rparr>)))" using l2(2) by simp
  from turn_loop_log [OF assms(1) this, of 0 "length (tm_timers c1)" True] obtain irqs h3 c3 where
    c3: "turn_loop (log_env e) log_call 0 True h2 (c1\<lparr>tm_mutex := m2\<rparr>) = Some (irqs, h3, c3)" "mutex_idle (map_option (\<lambda>x. cMutex_unlock x h3) (tm_mutex c3))"
    "tm_timers c3 = map fire (tm_timers c1)" "tm_w c3 = tm_w c1 @ calls_of (tm_timers c1)" "tm_blender c3 = tm_blender c1" by auto
  have "thread_turn (log_env e) log_call c1 = Some (cTimer_unlock h3 c3)" using c1(4) l2(1) c3(1) by (simp add: thread_turn_def)
  then show thesis using that [of "cTimer_unlock h3 c3"] c1 c3 by (simp add: timer_round_def comp_def)
qed

text \<open>The calls of one timer among those of a turn.\<close>

lemma count_calls:
  assumes "i < length ts" "\<And>j. j < length ts \<Longrightarrow> j \<noteq> i \<Longrightarrow> entry_of (ts ! j) \<noteq> entry_of (ts ! i)"
  shows "count_list (calls_of ts) (entry_of (ts ! i)) = (if expired (ts ! i) \<and> ti_callback (ts ! i) \<noteq> 0 then 1 else 0)"
proof -
  have none: "count_list (calls_of us) (entry_of (ts ! i)) = 0" if "\<And>u. u \<in> set us \<Longrightarrow> entry_of u \<noteq> entry_of (ts ! i)" for us
  proof -
    have "entry_of (ts ! i) \<notin> set (calls_of us)" using that unfolding calls_of_def by fastforce
    then show ?thesis by (simp add: count_list_0_iff)
  qed
  have app: "calls_of (us @ vs) = calls_of us @ calls_of vs" for us vs by (simp add: calls_of_def)
  have sp: "ts = take i ts @ [ts ! i] @ drop (Suc i) ts" using assms(1) by (simp add: id_take_nth_drop)
  have "count_list (calls_of (take i ts)) (entry_of (ts ! i)) = 0" "count_list (calls_of (drop (Suc i) ts)) (entry_of (ts ! i)) = 0"
    using assms by (auto intro!: none simp: in_set_conv_nth)
  moreover have "calls_of ts = calls_of (take i ts) @ calls_of [ts ! i] @ calls_of (drop (Suc i) ts)" using sp app by metis
  ultimately show ?thesis by (simp add: calls_of_def)
qed

text \<open>A periodic timer that has \<open>r\<close> ticks left of \<open>n\<close>.\<close>

definition periodic :: "nat \<Rightarrow> nat \<Rightarrow> timer_info \<Rightarrow> bool" where
  "periodic n r t \<longleftrightarrow> ti_state t AND TSTATE_ACTIVE \<noteq> 0 \<and> ti_state t AND TSTATE_RUNNING \<noteq> 0 \<and> ti_flags t AND TF_PERIODIC \<noteq> 0 \<and> ti_callback t \<noteq> 0 \<and>
     unat (ti_initial t) = n \<and> unat (ti_countdown t) = r"

lemma periodic_step:
  assumes "periodic n r t" "0 < r" "r \<le> n"
  shows "periodic n (if r = 1 then n else r - 1) (fire (tick_timer t))" and "expired (tick_timer t) \<longleftrightarrow> r = 1" and "entry_of (fire (tick_timer t)) = entry_of t"
proof -
  have c: "ti_countdown t \<noteq> 0" using assms(1,2) by (auto simp: periodic_def)
  then have u: "unat (ti_countdown t - 1) = r - 1" using assms(1) by (simp add: unat_minus_one periodic_def)
  then have z: "ti_countdown t - 1 = 0 \<longleftrightarrow> r = 1" using assms(2) by (auto simp: unat_eq_zero)
  have tk: "tick_timer t = t\<lparr>ti_countdown := ti_countdown t - 1\<rparr>" using assms(1) c by (simp add: tick_timer_def periodic_def)
  show ex: "expired (tick_timer t) \<longleftrightarrow> r = 1" using assms(1) z tk by (simp add: expired_def periodic_def)
  show "entry_of (fire (tick_timer t)) = entry_of t" by (simp add: fire_def tick_timer_def Let_def)
  show "periodic n (if r = 1 then n else r - 1) (fire (tick_timer t))"
    using assms(1) ex u unfolding fire_def tk periodic_def state_bits
    by (auto simp: Let_def bit_or_iff bit_and_iff bit_not_iff mark_bits)
qed

lemma step_entry [simp]:
  "ti_callback (tick_timer t) = ti_callback t" "ti_udata (tick_timer t) = ti_udata t" "ti_callback (fire t) = ti_callback t" "ti_udata (fire t) = ti_udata t"
  by (simp_all add: tick_timer_def fire_def Let_def)

lemma rounds_rate:
  assumes "blender_running e \<longrightarrow> blender_cpu e" "tm_blender c" "mutex_idle (tm_mutex c)" "i < length (tm_timers c)" "periodic n r (tm_timers c ! i)" "0 < r" "r \<le> n"
    "entry_of (tm_timers c ! i) = p" "\<forall>j<length (tm_timers c). j \<noteq> i \<longrightarrow> entry_of (tm_timers c ! j) \<noteq> p"
  shows "\<exists>c'. timer_rounds (log_env e) log_call k c = Some c' \<and> count_list (tm_w c') p = count_list (tm_w c) p + (k + (n - r)) div n"
  using assms(2-)
proof (induction k arbitrary: c r)
  case 0
  then have "n - r < n" by simp
  then show ?case by simp
next
  case (Suc k)
  obtain c1 where c1: "timer_round (log_env e) log_call c = Some c1" "tm_blender c1" "mutex_idle (tm_mutex c1)"
    "tm_timers c1 = map (\<lambda>t. fire (tick_timer t)) (tm_timers c)" "tm_w c1 = tm_w c @ calls_of (map tick_timer (tm_timers c))"
    by (rule round_log [OF assms(1) Suc.prems(1,2)])
  note st = periodic_step [OF Suc.prems(4-6)]
  let ?r = "if r = 1 then n else r - 1"
  have i: "i < length (tm_timers c1)" "periodic n ?r (tm_timers c1 ! i)" "entry_of (tm_timers c1 ! i) = p" using c1(4) Suc.prems(3,7) st(1,3) by simp_all
  have o: "\<forall>j<length (tm_timers c1). j \<noteq> i \<longrightarrow> entry_of (tm_timers c1 ! j) \<noteq> p" using c1(4) Suc.prems(8) by simp
  have r: "0 < ?r" "?r \<le> n" using Suc.prems(5,6) by auto
  have "count_list (calls_of (map tick_timer (tm_timers c))) p = (if r = 1 then 1 else 0)"
    using count_calls [of i "map tick_timer (tm_timers c)"] Suc.prems(3,4,7,8) st(2) by (auto simp: periodic_def)
  then have w: "count_list (tm_w c1) p = count_list (tm_w c) p + (if r = 1 then 1 else 0)" using c1(5) by simp
  obtain c' where c': "timer_rounds (log_env e) log_call k c1 = Some c'" "count_list (tm_w c') p = count_list (tm_w c1) p + (k + (n - ?r)) div n"
    using Suc.IH [OF c1(2,3) i(1,2) r i(3) o] by blast
  have "(Suc k + (n - r)) div n = (if r = 1 then 1 else 0) + (k + (n - ?r)) div n"
  proof (cases "r = 1")
    case True
    then have "Suc k + (n - r) = k + n" using Suc.prems(6) by simp
    moreover have "(k + n) div n = 1 + k div n" using Suc.prems(5,6) by (subst div_add_self2) simp_all
    ultimately show ?thesis using True by simp
  next
    case False
    then have "Suc k + (n - r) = k + (n - ?r)" using Suc.prems(5,6) by simp
    then show ?thesis using False by (simp only: if_False add_0)
  qed
  then show ?case using c1(1) c' w by (intro exI [of _ c']) simp
qed

text \<open>C20: A periodic timer is called at its rate. A timer created with \<open>TF_PERIODIC\<close>, a resolution of \<open>n > 0\<close> ticks and a callback that no other timer of
  the table has with the same data is called \<open>k div n\<close> times in \<open>k\<close> rounds of an interrupt of the clock and a turn of the timer thread, when the table has a free
  slot and callbacks do not change the timers: the calls come exactly every \<open>n\<close> ticks, whatever the other timers do.\<close>

theorem periodic_timer_rate:
  assumes "blender_running e \<longrightarrow> blender_cpu e" "tm_blender c" "mutex_idle (tm_mutex c)" "list_ex (\<lambda>t. ti_state t AND TSTATE_ACTIVE = 0) (tm_timers c)"
    "p_callback \<noteq> 0" "n \<noteq> 0" "\<forall>t\<in>set (tm_timers c). (ti_callback t, ti_udata t) \<noteq> (p_callback, p_udata)"
  shows "\<exists>h c1 c'. cTimer_create (log_env e) n TF_PERIODIC p_callback p_udata c = Some (h, c1) \<and> timer_rounds (log_env e) log_call k c1 = Some c' \<and>
    count_list (tm_w c') (p_callback, p_udata) = count_list (tm_w c) (p_callback, p_udata) + k div unat n"
proof -
  have sch: "blender_running (te_sched (log_env e)) \<longrightarrow> blender_cpu (te_sched (log_env e))" using assms(1) by simp
  obtain i where i: "find (\<lambda>i. \<not> active (tm_timers c ! i)) [0..<length (tm_timers c)] = Some i"
    using assms(4) by (cases "find (\<lambda>i. \<not> active (tm_timers c ! i)) [0..<length (tm_timers c)]") (auto simp: find_None_iff list_ex_length)
  then have il: "i < length (tm_timers c)" by (auto simp: find_Some_iff)
  let ?t = "set_timer n TF_PERIODIC p_callback p_udata (tm_timers c ! i)"
  obtain h m where l: "cTimer_lock (log_env e) 0 c = Some (h, c\<lparr>tm_mutex := m\<rparr>)" "mutex_idle (map_option (\<lambda>x. cMutex_unlock x h) m)"
    by (rule timer_lock_idle [OF assms(3) sch])
  have cr: "create_loop (log_env e) n TF_PERIODIC p_callback p_udata h (c\<lparr>tm_mutex := m\<rparr>) = Some (of_nat i, c\<lparr>tm_mutex := m, tm_timers := (tm_timers c)[i := ?t]\<rparr>)"
    using i by (subst create_loop.simps) simp
  let ?c = "cTimer_unlock h (update_state (log_env e) (c\<lparr>tm_mutex := m, tm_timers := (tm_timers c)[i := ?t]\<rparr>))"
  have c1: "cTimer_create (log_env e) n TF_PERIODIC p_callback p_udata c = Some (of_nat i, ?c)" using l(1) cr assms(2) by (simp add: cTimer_create_def)
  have "periodic (unat n) (unat n) ?t"
    unfolding periodic_def state_bits using assms(5) by (simp add: set_timer_def TF_PERIODIC_def TF_SUSPEND_def Let_def bit_or_iff mark_bits)
  then have p: "periodic (unat n) (unat n) (tm_timers ?c ! i)" "i < length (tm_timers ?c)" using il by simp_all
  have e: "entry_of (tm_timers ?c ! i) = (p_callback, p_udata)" using il by (simp add: set_timer_def)
  have o: "\<forall>j<length (tm_timers ?c). j \<noteq> i \<longrightarrow> entry_of (tm_timers ?c ! j) \<noteq> (p_callback, p_udata)" using assms(7) by simp
  have b: "tm_blender ?c" "mutex_idle (tm_mutex ?c)" "tm_w ?c = tm_w c" using assms(2) l(2) by simp_all
  have n: "0 < unat n" using assms(6) by (simp add: unat_gt_0)
  obtain c' where "timer_rounds (log_env e) log_call k ?c = Some c'" "count_list (tm_w c') (p_callback, p_udata) = count_list (tm_w ?c) (p_callback, p_udata) + (k + (unat n - unat n)) div unat n"
    using rounds_rate [OF assms(1) b(1,2) p(2,1) n order_refl e o] by blast
  then show ?thesis using c1 b(3) by simp
qed

definition demo_timer :: "(ptr \<times> ptr) list ctimer" where
  "demo_timer = \<lparr>tm_timers = [zero_timer\<lparr>ti_state := 6, ti_countdown := 9, ti_callback := 5\<rparr>, zero_timer], tm_base = 0x1000, tm_blender = True, tm_rtc = True,
     tm_thread_running = False, tm_thread_id = 1, tm_thread_state = False, tm_timer_state = False, tm_mutex = None, tm_w = []\<rparr>"

definition demo_sched :: sched_env where
  "demo_sched = \<lparr>blender_running = True, blender_cpu = True, has_cpu = True\<rparr>"

lemma demo_timer_ok: "tm_blender demo_timer" "mutex_idle (tm_mutex demo_timer)" "blender_running demo_sched \<longrightarrow> blender_cpu demo_sched"
  "te_sched (log_env demo_sched) = demo_sched"
  by (simp_all add: demo_timer_def demo_sched_def mutex_idle_def)

theorem periodic_timer_rate_witness:
  "\<exists>h c1 c'. cTimer_create (log_env demo_sched) 3 TF_PERIODIC 7 8 demo_timer = Some (h, c1) \<and> timer_rounds (log_env demo_sched) log_call 7 c1 = Some c' \<and>
     count_list (tm_w c') (7, 8) = 2"
  using periodic_timer_rate [OF demo_timer_ok(3,1,2), of 7 3 8 7]
  by (auto simp: demo_timer_def zero_timer_def)

theorem create_suspended_runs_witness:
  "\<exists>c1 c2. cTimer_remove (log_env demo_sched) 0 demo_timer = Some c1 \<and> cTimer_create (log_env demo_sched) 10 TF_SUSPEND 7 8 c1 = Some (0, c2) \<and>
     ti_state (tm_timers c2 ! 0) AND TSTATE_RUNNING \<noteq> 0"
  using create_suspended_runs [OF demo_timer_ok(1,2), of "log_env demo_sched" 0 10 7 8] demo_timer_ok(3)
  by (auto simp: demo_timer_def TSTATE_ACTIVE_def TSTATE_RUNNING_def)

end
