(* ===== verification/Spec2Isabelle.thy ===== *)
theory Spec2Isabelle
  imports Prelude Mutex Mutex_Threads Event LL_Alg LL_Vector LList LL_Queue Ring_Heap Str_Mem Str_Text Str_Wild Str_Num Str_Printf SHA1 BTree
    Acquire B24_PMA B24_Alloc DMA_Mem Slab Slab_Total Slab_Heap LL_Ring Blender Blender_Sched Buffer Ram_Disk Cache Cache_IO
    Cache_Faults Volume Volume_IO Volume_Parts Timer
begin

text \<open>
  A verification development for the kernel pre-te-o.

  \<^bold>\<open>The program.\<close> The kernel is a set of classes behind interfaces (interface/*.h) that find each other
  through a repository of objects. At its base are locks and events (core/sync), physical pages,
  slabs and heaps (core/mem), lists (core/common/ll_alg.cpp) with the vector and queue objects on top of
  them (core/common/llist.cpp), a string library (core/common/lib/str.cpp), the scheduler
  (core/sys/micro_blender.cpp), one per CPU, and the system timer (core/sys/timer.cpp). Drivers, file systems and the x86 platform are built on
  these; of the drivers, the block layer (core/driver/bdev: RAM disk, cache, volumes) is modelled. The calls go downwards: the scheduler keeps its threads in a queue and takes stacks from
  the page allocator; vectors, queues and trees take records from a heap and lock a mutex; the
  slab heap takes pages from the page allocator; a volume serves file requests from its cache, whose
  callback reads and writes blocks of the volume's host, such as a RAM disk in pages; every object takes its mutex through
  \<open>acquire_mutex\<close> or directly.

  \<^bold>\<open>Theories.\<close>
  \<^item> \<open>Prelude\<close>: word sizes, pointers (natural numbers, null is 0) and lemmas on words.
  \<^item> \<open>Mutex\<close>: core/sync/mutex_api.cpp and mutex.cpp; the locale of a recursive lock, interpreted on cMutex.
    \<open>Mutex_Threads\<close>: the same functions access by access, for any number of threads and any
    interleaving, as a step relation.
  \<^item> \<open>Event\<close>: core/sync/event.cpp. \<open>Acquire\<close>: how objects take a mutex (core/common/lib/blender.cpp).
  \<^item> \<open>LL_Alg\<close>: core/common/ll_alg.cpp, a context, columns and a store of items, one definition per
    function. \<open>LL_Vector\<close>: the list invariant in vector mode and a lemma per operation. \<open>LL_Ring\<close>: the
    ring in queue mode, its turn, and deletion after a turn. \<open>LL_Queue\<close>: further behaviour of selection and queues.
  \<^item> \<open>IHeap\<close>: the contract of a heap as a locale. \<open>LList\<close>: cVector and cQueue over any such heap.
    \<open>Ring_Heap\<close>: core/mem/ring_heap.cpp, which keeps the contract.
  \<^item> \<open>B24_PMA\<close>, \<open>B24_Alloc\<close>: the page allocator core/mem/b24_pma.cpp, its bitmaps and counters, the search for
    consecutive pages, and the reachable states.
  \<^item> \<open>Slab\<close>: core/mem/slab.cpp over a page source given as a locale; \<open>Slab_Total\<close>: the shape of the slabs
    and that an allocation always returns; \<open>Slab_Heap\<close>: core/mem/slab_heap.cpp, which interprets the page source
    with the page allocator. \<open>DMA_Mem\<close>: core/mem/dma_mem.cpp.
  \<^item> \<open>Blender\<close>: the scheduler core/sys/micro_blender.cpp on the queue and the page allocator; \<open>Blender_Sched\<close>:
    the next thread, fairness and sleep. \<open>Timer\<close>: the system timer core/sys/timer.cpp, its table, the callback of the clock and its thread; interrupts,
    the clock, threads and memory are operations of an environment.
  \<^item> \<open>Str_Mem\<close>, \<open>Str_Text\<close>, \<open>Str_Wild\<close>, \<open>Str_Num\<close>, \<open>Str_Printf\<close>: core/common/lib/str.cpp on a byte-addressed memory.
  \<^item> \<open>SHA1\<close> and \<open>BTree\<close>: ext/init/lib/sha1.cpp and btree.cpp, the tree over any heap of the contract.
  \<^item> \<open>Buffer\<close>: buffers and requests. \<open>Ram_Disk\<close>: core/driver/bdev/ramd.cpp. \<open>Cache\<close>: core/driver/bdev/cache.cpp;
    \<open>Cache_IO\<close>: requests and flushing over any block device, given as a locale; \<open>Cache_Faults\<close>: full cache, state bits and flushing.
    \<open>Volume\<close>: core/driver/bdev/volume.cpp; \<open>Volume_IO\<close>: the RAM disk under a volume interprets the block device; \<open>Volume_Parts\<close>: block
    requests and partitions.
  \<^item> This theory binds vectors and trees to the ring heap and states what the compositions do.

  \<^bold>\<open>Conventions.\<close> A class is a record, a method a function from the object to its result and the object
  afterwards. Machine integers are words of their width and wrap. \<open>None\<close> stands for the failure of
  the program: a null or dangling pointer followed, a division by 0, or a loop that never ends;
  results that the code itself reports as errors (0, false, an error code) are values. Theorems that say
  an operation works therefore state that it is \<open>Some\<close>. Loops are structural recursion
  or recursion with a measure where they always end, \<open>partial_function (option)\<close> where they may
  not. The only fuel is in the slab allocator: its recursive functions carry the number of nested calls
  left and start with 16, and since the level of a slab has four bits and is higher than the
  levels below it, 16 are enough (proved for allocation in \<open>Slab_Total\<close>). The loop of \<open>verify\<close> in \<open>Volume\<close> counts the slots
  of the host plus one, behind which a request finds no volume. Memory is seen through typed stores (items, chunks, slabs, threads) by
  address; where the code marks free memory by its content, the first word of each block is part
  of the model.

  \<^bold>\<open>What is shown.\<close> Refinement: calls on a cVector over a cHeap compute what a list with a cursor computes;
  file requests on a volume with its cache over a RAM disk compute what a flat array of bytes computes (within one chunk per request, for
  at most as many chunks as the cache has, writes in the part of the disk where the state bits stay in their header);
  deleting from a tree removes one key
  of its map. Safety: mutual exclusion for any interleaving; heaps, pages and slabs never hand
  out memory in use, and what a slab heap hands out is in use afterwards. Functional behaviour and round trips: nesting of locks, delivery of events,
  allocation and release, formatting and reading numbers, moving memory, wildcards, digests fed in pieces. Scheduling:
  a switch goes to the next thread that may run, every such thread gets its turn, sleepers wake
  at the interrupt after their countdown, periodic timers are called at their rate. Termination: locks and events with time-outs. Errors and bounds: the conditions under which the
  code fails, each stated and proved for all inputs of its kind.

  \<^bold>\<open>Not modelled.\<close> The repository (object lookup through virtual tables), controllers of disks and other devices, the driver
  tree beyond looking for a volume in the slots of a host and attaching one, file systems, the x86 platform with its inline assembly, boot loaders and host tools. The alternative page allocators
  and the earlier vector and queue classes are not part of the kernel's configuration. What a
  modelled class gets from these parts (its heap, mutex, CPU) is an argument of its initialisation. The
  CPU's \<open>create_context\<close>, state callbacks of threads and the wait callback of events are
  parameters. The thread that flushes the cache is left out. Concurrency is modelled for the mutex and the event; the other objects run under their mutex.
\<close>

section \<open>Containers over a heap\<close>

interpretation ring_llist: llist_heap cHeap_alloc cHeap_free ring_inv ring_block ring_room
  by unfold_locales

text \<open>C1: A cVector over a cHeap is a list of records with a cursor. For every sequence of calls
  (add, ins, del, clr, get, cnt, next, prev, first, last, current) on an object in order, as long
  as the heap's table has room and the list stays below \<open>2 ^ 32\<close> records, each call returns, the
  results are those of the list specification, and the object is in order again: its mutex is
  free and its items are blocks of the heap.\<close>

theorem cVector_refines_list:
  assumes "vector_obj cHeap_alloc cHeap_free ring_inv ring_block c cols i"
    and "length (cols (ccol c)) + length ops < 2 ^ 32" and "has_rooms ring_room ops c"
  shows "\<exists>rs c' oks cols' j. cVector_calls ops c = Some (rs, c') \<and>
     vector_obj cHeap_alloc cHeap_free ring_inv ring_block c' cols' j \<and>
     vspecs (data_size c) oks ops (map snd (cols (ccol c)), i) = (rs, map snd (cols' (ccol c)), j)"
  using ring_llist.vector_calls [OF assms] by blast

definition demo_vector :: "cheap cvector" where
  "demo_vector = \<lparr>self = 0x8000, mode = LL_MODE_VECTOR, data_size = 2, p_alloc = Some (llv_alloc cHeap_alloc),
     p_free = Some (llv_free cHeap_free), p_lock = Some llv_lock, p_unlock = Some llv_unlock,
     p_udata = \<lparr>m_p_mutex = Some (cMutex_init \<lparr>m_addr = 0x9000,
          m_mutex = \<lparr>lock_count = 0, handle_count = 0, lock_flag = 0\<rparr>\<rparr>), m_p_heap = Some demo_heap\<rparr>,
     ccol = 0, ncol = 1,
     state = Some [\<lparr>p_current = 0, p_first = 0, p_last = 0, count = 0, current = 0\<rparr>], items = Map.empty\<rparr>"

lemma demo_vector_ok: "vector_obj cHeap_alloc cHeap_free ring_inv ring_block demo_vector (\<lambda>_. []) 0"
proof -
  have one: "k < 1 \<longleftrightarrow> k = 0" for k :: u8 by (simp add: word_less_nat_alt unat_eq_zero)
  have "vec demo_vector (\<lambda>_. [])"
    by (simp add: vec_def column_def get_col_def demo_vector_def one)
  then show ?thesis
    by (simp add: vector_obj_def vec_at_def cursor_def get_col_def demo_vector_def
        cMutex_free_def cMutex_init_def mutex_reset_def demo_heap_ok)
qed

theorem cVector_refines_list_witness:
  "\<exists>rs c' oks ds j. cVector_calls [Add (\<lambda>i. of_nat i + 5), First, Del 0, Cnt] demo_vector = Some (rs, c') \<and>
     vspecs 2 oks [Add (\<lambda>i. of_nat i + 5), First, Del 0, Cnt] ([], 0) = (rs, ds, j)"
proof -
  let ?ops = "[Add (\<lambda>i. of_nat i + 5), First, Del 0, Cnt]"
  have "has_room ring_room demo_vector"
    by (simp add: has_room_def demo_vector_def ring_room_def demo_heap_def item_size_def sizeof_hdr_def
        heap_end_def sizeof_chunk_def)
  then have r: "has_rooms ring_room ?ops demo_vector"
    by (intro ring_llist.has_rooms_once [OF demo_vector_ok]) (simp_all add: allocates_def)
  have "data_size demo_vector = 2" by (simp add: demo_vector_def)
  with cVector_refines_list [OF demo_vector_ok _ r] show ?thesis by (simp del: vspecs.simps cVector_calls.simps) blast
qed

interpretation ring_btree: btree_heap cHeap_alloc cHeap_free ring_inv ring_block ring_room
  by unfold_locales

text \<open>C11: A cBTree over a cHeap stores data under the digest of its content. For an object in order,
  \<open>add\<close> returns with the object in order again. When the key is present or the heap has a block, the
  key is returned and the map the object stands for has the data under it (the data stored first,
  if the key was present), every other key keeps its data, and \<open>get\<close> with that key returns the
  address and size of the copy. When the heap has no block, the result is 0 and the map is unchanged.\<close>

theorem cBTree_add_get:
  assumes "bt_obj ring_inv ring_block t T" and "length (Message_Block shcxt) = 64" and "data \<noteq> 0"
    and "unat sz + sizeof_bth < 2 ^ 32" and "\<forall>hp. bt_heap t = Some hp \<longrightarrow> ring_room hp (sz + of_nat sizeof_bth)"
  shows "\<exists>ok t1 T1 p n t2 v. let d = bytes m data (unat sz); k = data_key d; M = bt_map (recs t) T in
    (ok \<longleftrightarrow> M k \<noteq> None \<or> (\<exists>hp p hp'. bt_heap t = Some hp \<and> cHeap_alloc (sz + of_nat sizeof_bth) hp = Some (p, hp') \<and> p \<noteq> 0)) \<and>
    cBTree_add cHeap_alloc shcxt m t data sz 0 = Some (if ok then k else 0, t1) \<and>
    bt_obj ring_inv ring_block t1 T1 \<and>
    bt_map (recs t1) T1 = (if ok then M(k \<mapsto> v) else M) \<and> v = (case M k of None \<Rightarrow> (sz, d) | Some v \<Rightarrow> v) \<and>
    cBTree_get t1 k 0 = Some (p, n, t2) \<and> bt_obj ring_inv ring_block t2 T1 \<and> recs t2 = recs t1 \<and>
    (ok \<longrightarrow> n = fst v \<and> (\<exists>q\<in>set_tree T1. p = q + sizeof_bth \<and> dataof (recs t2) q = v))"
proof -
  let ?d = "bytes m data (unat sz)" and ?M = "bt_map (recs t) T"
  let ?k = "data_key ?d"
  let ?v = "case ?M ?k of None \<Rightarrow> (sz, ?d) | Some v \<Rightarrow> v"
  obtain ok t1 T1 where a: "cBTree_add cHeap_alloc shcxt m t data sz 0 = Some (if ok then ?k else 0, t1)"
    "bt_obj ring_inv ring_block t1 T1"
    "ok \<longleftrightarrow> ?M ?k \<noteq> None \<or> (\<exists>hp p hp'. bt_heap t = Some hp \<and> cHeap_alloc (sz + of_nat sizeof_bth) hp = Some (p, hp') \<and> p \<noteq> 0)"
    "bt_map (recs t1) T1 = (if ok \<and> ?M ?k = None then ?M(?k \<mapsto> (sz, ?d)) else ?M)"
    using ring_btree.add_obj [OF assms(1) make_key_data [OF assms(2,3)] _ assms(4)] assms(5) by blast
  from a(4) have m: "bt_map (recs t1) T1 = (if ok then ?M(?k \<mapsto> ?v) else ?M)"
    by (auto split: option.splits)
  obtain p n t2 where g: "cBTree_get t1 ?k 0 = Some (p, n, t2)" "bt_obj ring_inv ring_block t2 T1" "recs t2 = recs t1"
    "case bt_map (recs t1) T1 ?k of None \<Rightarrow> p = 0
     | Some (sz, d) \<Rightarrow> n = sz \<and> (\<exists>q\<in>set_tree T1. p = q + sizeof_bth \<and> dataof (recs t1) q = (sz, d))"
    using ring_btree.get_obj [OF a(2)] by blast
  have "ok \<longrightarrow> n = fst ?v \<and> (\<exists>q\<in>set_tree T1. p = q + sizeof_bth \<and> dataof (recs t2) q = ?v)"
  proof
    assume ok
    then have "bt_map (recs t1) T1 ?k = Some ?v" using m by simp
    with g(3,4) show "n = fst ?v \<and> (\<exists>q\<in>set_tree T1. p = q + sizeof_bth \<and> dataof (recs t2) q = ?v)"
      by (simp only: option.case prod.case_eq_if prod.collapse)
  qed
  with a(1-3) m g(1-3) show ?thesis
    by (intro exI [of _ ok] exI [of _ t1] exI [of _ T1] exI [of _ p] exI [of _ n] exI [of _ t2] exI [of _ ?v]) (simp add: Let_def)
qed

definition demo_btree :: "cheap cbtree" where
  "demo_btree = \<lparr>bt_heap = Some demo_heap, bt_mutex = Some (cMutex_init \<lparr>m_addr = 0x9000,
     m_mutex = \<lparr>lock_count = 0, handle_count = 0, lock_flag = 0\<rparr>\<rparr>), m_p_first = 0, recs = Map.empty\<rparr>"

lemma demo_btree_ok: "bt_obj ring_inv ring_block demo_btree Leaf"
  by (simp add: bt_obj_def bt_tree_def demo_btree_def demo_heap_ok cMutex_free_def cMutex_init_def mutex_reset_def)

theorem cBTree_add_get_witness:
  "\<exists>ok t1 p n t2. cBTree_add cHeap_alloc demo_sha demo_text demo_btree 100 3 0 = Some (if ok then data_key (bytes demo_text 100 3) else 0, t1) \<and>
    cBTree_get t1 (data_key (bytes demo_text 100 3)) 0 = Some (p, n, t2) \<and> (ok \<longrightarrow> n = 3)"
proof -
  have "\<forall>hp. bt_heap demo_btree = Some hp \<longrightarrow> ring_room hp (3 + of_nat sizeof_bth)"
    by (simp add: demo_btree_def ring_room_def demo_heap_def sizeof_bth_def heap_end_def sizeof_chunk_def)
  moreover have u3: "unat (3 :: u32) = 3" by simp
  ultimately have "length (Message_Block demo_sha) = 64" "(100 :: ptr) \<noteq> 0" "unat (3 :: u32) + sizeof_bth < 2 ^ 32"
    "\<forall>hp. bt_heap demo_btree = Some hp \<longrightarrow> ring_room hp (3 + of_nat sizeof_bth)"
    by (simp_all add: demo_sha_def sizeof_bth_def)
  from cBTree_add_get [OF demo_btree_ok this, of demo_text] obtain ok t1 T1 p n t2 v where
    "cBTree_add cHeap_alloc demo_sha demo_text demo_btree 100 3 0 = Some (if ok then data_key (bytes demo_text 100 3) else 0, t1)"
    "v = (case bt_map (recs demo_btree) Leaf (data_key (bytes demo_text 100 3)) of None \<Rightarrow> (3, bytes demo_text 100 3) | Some v \<Rightarrow> v)"
    "cBTree_get t1 (data_key (bytes demo_text 100 3)) 0 = Some (p, n, t2)" "ok \<longrightarrow> n = fst v"
    unfolding Let_def u3 by blast
  moreover have "bt_map (recs demo_btree) Leaf k = None" for k by (simp add: bt_map_none)
  ultimately show ?thesis by (intro exI [of _ ok] exI [of _ t1] exI [of _ p] exI [of _ n] exI [of _ t2]) simp
qed

text \<open>C12: Deleting from a cBTree. For an object in order, unless the key is that of its only record,
  \<open>del\<close> returns with the object in order and the key gone
  from the map it stands for; all other records keep their keys and data, although the subtrees of the deleted
  record are attached again elsewhere.\<close>

theorem cBTree_del_map:
  assumes "bt_obj ring_inv ring_block t T" and "dom (bt_map (recs t) T) \<noteq> {k}"
  shows "\<exists>t' T'. cBTree_del cHeap_free t k 0 = Some t' \<and> bt_obj ring_inv ring_block t' T' \<and>
    bt_map (recs t') T' = (bt_map (recs t) T)(k := None)"
  using ring_btree.del_obj [OF assms] .

text \<open>A tree of two records in the two blocks of a heap.\<close>

definition demo_btree2 :: "cheap cbtree" where
  "demo_btree2 = demo_btree\<lparr>bt_heap := Some (demo_heap\<lparr>chunks := [\<lparr>ck_sz = 64, ck_ptr = 0x100fc0\<rparr>, \<lparr>ck_sz = 64, ck_ptr = 0x100f80\<rparr>]\<rparr>),
     m_p_first := 0x100fc0,
     recs := [0x100fc0 \<mapsto> \<lparr>pl = 0x100f80, pr = 0, pp = 0, key = 7, dsize = 2, bdata = [1, 2]\<rparr>,
              0x100f80 \<mapsto> \<lparr>pl = 0, pr = 0, pp = 0x100fc0, key = 5, dsize = 0, bdata = []\<rparr>]\<rparr>"

lemma demo_btree2_ok: "bt_obj ring_inv ring_block demo_btree2 (Node (Node Leaf 0x100f80 Leaf) 0x100fc0 Leaf)"
  by (simp add: bt_obj_def bt_tree_def demo_btree2_def demo_btree_def demo_heap_def ring_inv_def heap_end_def sizeof_chunk_def
      ring_block_def blocks_def in_use_def FREE_PATTERN_def sizeof_bth_def dataof_def keyof_def
      cMutex_free_def cMutex_init_def mutex_reset_def)

theorem cBTree_del_map_witness:
  "\<exists>t' T'. cBTree_del cHeap_free demo_btree2 7 0 = Some t' \<and> bt_obj ring_inv ring_block t' T' \<and>
    bt_map (recs t') T' 5 = Some (0, [])"
proof -
  let ?T = "Node (Node Leaf 0x100f80 Leaf) 0x100fc0 Leaf :: ptr tree"
  have m: "bt_map (recs demo_btree2) ?T 5 = Some (0, [])"
    by (simp add: bt_map_def demo_btree2_def keyof_def dataof_def)
  then have "5 \<in> dom (bt_map (recs demo_btree2) ?T)" by blast
  moreover have "(5 :: u64) \<notin> {7}" by simp
  ultimately have "dom (bt_map (recs demo_btree2) ?T) \<noteq> {7}" by metis
  from cBTree_del_map [OF demo_btree2_ok this] obtain t' T' where
    "cBTree_del cHeap_free demo_btree2 7 0 = Some t'" "bt_obj ring_inv ring_block t' T'"
    "bt_map (recs t') T' = (bt_map (recs demo_btree2) ?T)(7 := None)" by blast
  moreover from this(3) m have "bt_map (recs t') T' 5 = Some (0, [])" by simp
  ultimately show ?thesis by blast
qed

text \<open>Deleting the only record of a cBTree dereferences a null pointer. The record is the root and
  has no subtrees; \<open>del\<close> takes the branch for a root with no right subtree and writes to the parent
  field of its left subtree, which is null.\<close>

theorem cBTree_del_only_record:
  assumes "bt_obj ring_inv ring_block t T" and "dom (bt_map (recs t) T) = {k}" and "recs t 0 = None"
  shows "cBTree_del cHeap_free t k 0 = None"
  using ring_btree.del_last_record [OF assms] .

theorem cBTree_del_only_record_witness:
  "cBTree_del cHeap_free (demo_btree2\<lparr>recs := [0x100fc0 \<mapsto> \<lparr>pl = 0, pr = 0, pp = 0, key = 7, dsize = 0, bdata = []\<rparr>]\<rparr>) 7 0 = None"
proof (rule cBTree_del_only_record)
  show "bt_obj ring_inv ring_block (demo_btree2\<lparr>recs := [0x100fc0 \<mapsto> \<lparr>pl = 0, pr = 0, pp = 0, key = 7, dsize = 0, bdata = []\<rparr>]\<rparr>)
      (Node Leaf 0x100fc0 Leaf)"
    by (simp add: bt_obj_def bt_tree_def demo_btree2_def demo_btree_def demo_heap_def ring_inv_def heap_end_def sizeof_chunk_def
      ring_block_def blocks_def in_use_def FREE_PATTERN_def sizeof_bth_def dataof_def
      cMutex_free_def cMutex_init_def mutex_reset_def)
qed (auto simp: bt_map_def keyof_def split: if_splits)

end
